(* ===== verification/Prelude.thy ===== *)
theory Prelude
  imports Main "HOL-Library.Word"
begin

text \<open>
  Shared vocabulary of the development: the machine integer types of
  \<^verbatim>\<open>src/vm/common.hh\<close>, the result type of operations that may stop the process, and the
  generic facts about lists, options, results and words that the component theories use.

  The collections \<open>bytes\<close> (field extraction from packed words), \<open>result\<close> (error propagation)
  and \<open>frame\<close> (fields an operation leaves alone) are filled by the component theories.
\<close>

unbundle bit_operations_syntax

named_theorems bytes \<open>extraction of packed fields from machine words\<close>
named_theorems result \<open>propagation of errors through sequenced operations\<close>
named_theorems frame \<open>what an operation leaves unchanged\<close>

section \<open>Machine integers\<close>

text \<open>\<^verbatim>\<open>u1\<close>, \<^verbatim>\<open>u2\<close>, \<^verbatim>\<open>u4\<close>, \<^verbatim>\<open>u8\<close> of \<^verbatim>\<open>common.hh\<close>; a \<^verbatim>\<open>Word\<close> is 64 bits wide.\<close>

type_synonym u1 = "8 word"
type_synonym u2 = "16 word"
type_synonym u4 = "32 word"
type_synonym u8 = "64 word"

section \<open>Operations that may stop the process\<close>

text \<open>
  An operation may end without its normal result in one of five ways: a failing
  \<^verbatim>\<open>LC_ASSERT\<close>, a call of \<^verbatim>\<open>exit\<close>, an exception that leaves the operation, a memory access
  the machine does not allow, or a loop that does not end.  The normal result is on the right.
\<close>

datatype lc_error =
    AssertFailed
  | Exit int
  | Throw int
  | BadAccess
  | Diverge

type_synonym 'a result = "lc_error + 'a"

fun res_bind :: "'a result \<Rightarrow> ('a \<Rightarrow> 'b result) \<Rightarrow> 'b result" where
  "res_bind (Inl e) f = Inl e"
| "res_bind (Inr x) f = f x"

definition lc_assert :: "bool \<Rightarrow> unit result" where
  "lc_assert b = (if b then Inr () else Inl AssertFailed)"

definition of_option :: "lc_error \<Rightarrow> 'a option \<Rightarrow> 'a result" where
  "of_option e x = (case x of None \<Rightarrow> Inl e | Some y \<Rightarrow> Inr y)"

text \<open>The same for a computation that may also not return (\<^const>\<open>None\<close>).\<close>

fun ro_bind :: "'a result option \<Rightarrow> ('a \<Rightarrow> 'b result option) \<Rightarrow> 'b result option" where
  "ro_bind None f = None"
| "ro_bind (Some (Inl e)) f = Some (Inl e)"
| "ro_bind (Some (Inr x)) f = f x"

lemma res_bind_Inr_iff [result]:
  "res_bind m f = Inr y \<longleftrightarrow> (\<exists>x. m = Inr x \<and> f x = Inr y)"
  by (cases m) auto

lemma res_bind_Inl_iff [result]:
  "res_bind m f = Inl e \<longleftrightarrow> m = Inl e \<or> (\<exists>x. m = Inr x \<and> f x = Inl e)"
  by (cases m) auto

lemma res_bind_assoc: "res_bind (res_bind m f) g = res_bind m (\<lambda>x. res_bind (f x) g)"
  by (cases m) auto

lemma lc_assert_Inr_iff [simp, result]: "lc_assert b = Inr x \<longleftrightarrow> b"
  by (simp add: lc_assert_def)

lemma lc_assert_Inl_iff [simp, result]: "lc_assert b = Inl e \<longleftrightarrow> \<not> b \<and> e = AssertFailed"
  by (auto simp: lc_assert_def)

lemma lc_assert_True [simp]: "lc_assert True = Inr ()"
  by (simp add: lc_assert_def)

lemma res_bind_lc_assert: "b \<Longrightarrow> res_bind (lc_assert b) f = f ()"
  by (simp add: lc_assert_def)

lemma of_option_Inr_iff [simp, result]: "of_option e x = Inr y \<longleftrightarrow> x = Some y"
  by (auto simp: of_option_def split: option.splits)

lemma of_option_Some [simp]: "of_option e (Some y) = Inr y"
  by (simp add: of_option_def)

lemma of_option_None [simp]: "of_option e None = Inl e"
  by (simp add: of_option_def)

section \<open>Words\<close>

lemma unat_of_nat_small:
  "n < 2 ^ LENGTH('a) \<Longrightarrow> unat (of_nat n :: 'a::len word) = n"
  by (simp add: unat_of_nat take_bit_nat_eq_self)

lemma word_bit_eqI:
  fixes x y :: "'a::len word"
  assumes "\<And>n. n < LENGTH('a) \<Longrightarrow> bit x n = bit y n"
  shows "x = y"
  using assms by (intro bit_word_eqI) blast

lemma not_mask_and_eq:
  fixes w :: "'a::len word"
  shows "w AND NOT (mask n) = w - (w AND mask n)"
proof -
  have "(w AND NOT (mask n)) OR (w AND mask n) = w"
    by (rule bit_word_eqI) (auto simp: bit_simps)
  moreover have "(w AND NOT (mask n)) AND (w AND mask n) = 0"
    by (rule bit_word_eqI) (auto simp: bit_simps)
  ultimately have "(w AND NOT (mask n)) + (w AND mask n) = w"
    by (metis disjunctive_add_eq_or)
  then show ?thesis
    by (simp add: eq_diff_eq)
qed

lemma unat_and_mask: "unat (w AND mask n) = unat (w :: 'a::len word) mod 2 ^ n"
  by (metis take_bit_eq_mask take_bit_eq_mod unsigned_take_bit_eq)

lemma unat_and_not_mask:
  fixes w :: "'a::len word"
  shows "unat (w AND NOT (mask n)) = unat w - unat w mod 2 ^ n"
proof -
  have "w AND mask n \<le> w"
    by (simp add: word_and_le2)
  then show ?thesis
    by (simp only: not_mask_and_eq unat_sub unat_and_mask)
qed

lemma and_0xff: "(w :: 'a::len word) AND 0xff = take_bit 8 w"
  by (simp add: take_bit_eq_mask mask_eq_exp_minus_1)

lemma and_0xffff: "(w :: 'a::len word) AND 0xffff = take_bit 16 w"
  by (simp add: take_bit_eq_mask mask_eq_exp_minus_1)

lemma unat_ucast_widen:
  "LENGTH('a) \<le> LENGTH('b) \<Longrightarrow> unat (ucast (w :: 'a::len word) :: 'b::len word) = unat w"
  by (simp add: unsigned_ucast_eq take_bit_nat_eq_self unsigned_less
      order.strict_trans2 [OF unsigned_less power_increasing])

lemma sint_u4_small: "unat w < 2 ^ 31 \<Longrightarrow> sint w = int (unat w)" for w :: u4
proof -
  assume "unat w < 2 ^ 31"
  then have u: "uint w < 2 ^ 31" by (simp only: uint_nat of_nat_less_numeral_power_cancel_iff)
  have "sint w = signed_take_bit 31 (uint w)" unfolding sint_uint by simp
  also have "\<dots> = uint w"
    using u uint_ge_0 [of w] by (intro signed_take_bit_int_eq_self) linarith+
  finally show ?thesis by (simp only: uint_nat)
qed

lemma ucast_down_add:
  "LENGTH('b) \<le> LENGTH('a) \<Longrightarrow>
     (ucast (x + y :: 'a::len word) :: 'b::len word) = ucast x + ucast y"
  by transfer (metis min.absorb1 take_bit_add take_bit_take_bit)

lemma ucast_down_diff:
  "LENGTH('b) \<le> LENGTH('a) \<Longrightarrow>
     (ucast (x - y :: 'a::len word) :: 'b::len word) = ucast x - ucast y"
  by transfer (metis min.absorb1 take_bit_diff take_bit_take_bit)

lemma ucast_down_ucast_up:
  "LENGTH('b) \<le> LENGTH('a) \<Longrightarrow> (ucast (ucast (x :: 'b::len word) :: 'a::len word) :: 'b word) = x"
  by transfer (simp add: min_def)

lemma ucast_down_scast_up:
  "LENGTH('b) \<le> LENGTH('a) \<Longrightarrow> (ucast (scast (x :: 'b::len word) :: 'a::len word) :: 'b word) = x"
  by (rule bit_word_eqI) (auto simp: bit_simps)

lemmas ucast_down = ucast_down_add ucast_down_diff ucast_down_ucast_up ucast_down_scast_up

section \<open>Lists\<close>

lemma takeWhile_neq_first:
  "x \<notin> set ys \<Longrightarrow> takeWhile (\<lambda>y. y \<noteq> x) (ys @ x # zs) = ys"
  by (induction ys) auto

lemma list_update_append_length: "(xs @ y # ys)[length xs := z] = xs @ z # ys"
  by simp

end
