(* ===== verification/Utils.thy ===== *)
theory Utils
  imports Prelude
begin

text \<open>
  The arithmetic helpers of \<^verbatim>\<open>src/vm/utils.hh\<close> and \<^verbatim>\<open>src/vm/common.hh\<close>: alignment,
  rounding, range checks, the \<^verbatim>\<open>Flags32\<close> bit set and the one-word Bloom filter.
\<close>

section \<open>Alignment and rounding\<close>

definition within_range :: "'a::ord \<Rightarrow> 'a \<Rightarrow> 'a \<Rightarrow> bool" where
  "within_range low high val \<longleftrightarrow> low \<le> val \<and> val \<le> high"

definition clearLowBits :: "nat \<Rightarrow> u8 \<Rightarrow> u8" where
  "clearLowBits num_bits val =
     (if num_bits \<ge> 64 then 0 else val AND NOT (push_bit num_bits 1 - 1))"

definition isAlignedAtPowerOf2 :: "nat \<Rightarrow> u8 \<Rightarrow> bool" where
  "isAlignedAtPowerOf2 pow ptr \<longleftrightarrow> ptr AND (push_bit pow 1 - 1) = 0"

definition roundUpToPowerOf2 :: "nat \<Rightarrow> u8 \<Rightarrow> u8" where
  "roundUpToPowerOf2 pow val =
     (val + push_bit pow 1 - 1) AND NOT (push_bit pow 1 - 1)"

definition isWordAligned :: "u8 \<Rightarrow> bool" where
  "isWordAligned ptr = isAlignedAtPowerOf2 3 ptr"

definition roundUpBytesToWords :: "u8 \<Rightarrow> u8" where
  "roundUpBytesToWords bytes = drop_bit 3 (bytes + 7)"

text \<open>\<^verbatim>\<open>BC_ROUND\<close> of \<^verbatim>\<open>bytecode.hh\<close>: instruction words needed for so many bytes.\<close>

definition BC_ROUND :: "nat \<Rightarrow> nat" where
  "BC_ROUND bytes = (bytes + 3) div 4"

definition idivCeil :: "nat \<Rightarrow> nat \<Rightarrow> nat" where
  "idivCeil x y = (x + (y - 1)) div y"

section \<open>Range checks\<close>

definition checki8 :: "int \<Rightarrow> bool" where
  "checki8 x \<longleftrightarrow> x = signed_take_bit 7 x"

definition checki32 :: "u8 \<Rightarrow> bool" where
  "checki32 x \<longleftrightarrow> x = scast (ucast x :: 32 word)"

definition checku32 :: "u8 \<Rightarrow> bool" where
  "checku32 x \<longleftrightarrow> x = ucast (ucast x :: 32 word)"

section \<open>Flags32\<close>

record flags32 = raw_flags :: u4

definition flag_get :: "flags32 \<Rightarrow> nat \<Rightarrow> bool" where
  "flag_get f n \<longleftrightarrow> raw_flags f AND push_bit n 1 \<noteq> 0"

definition flag_set :: "flags32 \<Rightarrow> nat \<Rightarrow> flags32" where
  "flag_set f n = f\<lparr>raw_flags := raw_flags f OR push_bit n 1\<rparr>"

text \<open>
  The two-argument \<^verbatim>\<open>set\<close> is written without a branch: \<^verbatim>\<open>-value\<close> promotes the
  \<^verbatim>\<open>bool\<close> to \<^verbatim>\<open>int\<close>, so it is all ones or zero.
\<close>

definition flag_set_to :: "flags32 \<Rightarrow> nat \<Rightarrow> bool \<Rightarrow> flags32" where
  "flag_set_to f n val =
     (let m = push_bit n 1 :: u4; v = - (if val then 1 else 0) :: u4
      in f\<lparr>raw_flags := raw_flags f XOR ((v XOR raw_flags f) AND m)\<rparr>)"

definition flag_clear :: "flags32 \<Rightarrow> nat \<Rightarrow> flags32" where
  "flag_clear f n = f\<lparr>raw_flags := raw_flags f AND NOT (push_bit n 1)\<rparr>"

definition flags_clear :: "flags32 \<Rightarrow> flags32" where
  "flags_clear f = f\<lparr>raw_flags := 0\<rparr>"

definition flag_toggle :: "flags32 \<Rightarrow> nat \<Rightarrow> flags32" where
  "flag_toggle f n = f\<lparr>raw_flags := raw_flags f XOR push_bit n 1\<rparr>"

section \<open>Bloom filter\<close>

definition bloombit :: "nat \<Rightarrow> u8" where
  "bloombit x = push_bit (x mod 64) 1"

definition bloomset :: "u8 \<Rightarrow> nat \<Rightarrow> u8" where
  "bloomset b x = b OR bloombit x"

definition bloomtest :: "u8 \<Rightarrow> nat \<Rightarrow> bool" where
  "bloomtest b x \<longleftrightarrow> b AND bloombit x \<noteq> 0"

section \<open>Facts about rounding\<close>

lemma push_bit_minus_1: "push_bit n 1 - 1 = (mask n :: 'a::len word)"
  by (simp add: mask_eq_exp_minus_1 push_bit_eq_mult)

lemma isAligned_iff_dvd: "isAlignedAtPowerOf2 p w \<longleftrightarrow> 2 ^ p dvd unat w"
proof -
  have "isAlignedAtPowerOf2 p w \<longleftrightarrow> unat (w AND mask p) = 0"
    by (simp only: isAlignedAtPowerOf2_def push_bit_minus_1 unat_eq_0)
  then show ?thesis
    by (simp add: unat_and_mask dvd_eq_mod_eq_0)
qed

lemma unat_clearLowBits:
  "unat (clearLowBits n w) = unat w - unat w mod 2 ^ n"
proof (cases "n \<ge> 64")
  case True
  have "unat w < 2 ^ 64" using unsigned_less [of w] by simp
  also have "(2::nat) ^ 64 \<le> 2 ^ n" using True by (intro power_increasing) auto
  finally show ?thesis using True by (simp add: clearLowBits_def)
next
  case False
  then show ?thesis unfolding clearLowBits_def push_bit_minus_1 by (simp add: unat_and_not_mask)
qed

lemma unat_roundUp:
  assumes "p < 64" and "unat w + 2 ^ p \<le> 2 ^ 64"
  shows "unat (roundUpToPowerOf2 p w) =
    (unat w + 2 ^ p - 1) - (unat w + 2 ^ p - 1) mod 2 ^ p"
proof -
  have e: "w + push_bit p 1 - 1 = (of_nat (unat w + 2 ^ p - 1) :: u8)"
    using unsigned_greater_eq [of w] by (simp add: push_bit_eq_mult of_nat_diff Suc_leI)
  have "unat w + 2 ^ p - 1 < 2 ^ 64" using assms by simp
  then have "unat (w + push_bit p 1 - 1) = unat w + 2 ^ p - 1"
    by (simp only: e) (rule unat_of_nat_small, simp)
  then show ?thesis
    unfolding roundUpToPowerOf2_def push_bit_minus_1 unat_and_not_mask by simp
qed

lemma least_multiple_unique:
  fixes w m x r :: nat
  assumes "0 < m" and "r = (w + m - 1) - (w + m - 1) mod m"
  shows "m dvd r \<and> w \<le> r \<and> r < w + m \<and> (m dvd x \<and> w \<le> x \<longrightarrow> r \<le> x)"
proof -
  let ?s = "w + m - 1"
  have r: "r = m * (?s div m)"
    using assms(2) by (simp add: minus_mod_eq_mult_div)
  have lt: "?s mod m < m" using assms(1) by simp
  have le: "w \<le> r" and up: "r < w + m"
    using assms lt by linarith+
  have "r \<le> x" if "m dvd x" "w \<le> x"
  proof (rule ccontr)
    assume "\<not> r \<le> x"
    then have "x < r" by simp
    from \<open>m dvd x\<close> obtain k where k: "x = m * k" by (auto simp: dvd_def)
    with \<open>x < r\<close> r have "k < ?s div m" by simp
    then have "m * k + m \<le> m * (?s div m)"
      by (metis Suc_leI add.commute mult_Suc_right mult_le_mono2)
    with k r up \<open>w \<le> x\<close> show False by linarith
  qed
  with r le up show ?thesis by simp
qed

lemma roundUp_least:
  assumes "p < 64" and "unat w + 2 ^ p \<le> 2 ^ 64"
  shows "isAlignedAtPowerOf2 p (roundUpToPowerOf2 p w)"
    and "w \<le> roundUpToPowerOf2 p w"
    and "unat (roundUpToPowerOf2 p w) < unat w + 2 ^ p"
    and "isAlignedAtPowerOf2 p x \<Longrightarrow> w \<le> x \<Longrightarrow> roundUpToPowerOf2 p w \<le> x"
  using least_multiple_unique [OF _ unat_roundUp [OF assms], of "unat x"]
  by (simp_all add: isAligned_iff_dvd word_le_nat_alt)

lemma BC_ROUND_bounds: "n \<le> 4 * BC_ROUND n" "4 * BC_ROUND n < n + 4"
  by (simp_all add: BC_ROUND_def)

lemma unat_roundUpBytesToWords:
  "unat b + 7 < 2 ^ 64 \<Longrightarrow> unat (roundUpBytesToWords b) = (unat b + 7) div 8"
  by (simp add: roundUpBytesToWords_def unat_drop_bit_eq drop_bit_eq_div unat_word_ariths)

section \<open>Facts about flags\<close>

lemma bit_raw_flag:
  "n < 32 \<Longrightarrow> flag_get f n = bit (raw_flags f) n"
  by (simp add: flag_get_def bit_iff_and_push_bit_not_eq_0)

lemma flag_set_to_branch:
  "flag_set_to f n b = (if b then flag_set f n else flag_clear f n)"
proof -
  have "raw_flags f XOR ((- 1 XOR raw_flags f) AND push_bit n 1) = raw_flags f OR push_bit n 1"
    by (rule bit_word_eqI) (auto simp: bit_simps)
  moreover have "raw_flags f XOR ((0 XOR raw_flags f) AND push_bit n 1) =
      raw_flags f AND NOT (push_bit n 1)"
    by (rule bit_word_eqI) (auto simp: bit_simps)
  ultimately show ?thesis
    by (simp add: flag_set_to_def flag_set_def flag_clear_def Let_def)
qed

lemma flag_get_set:
  assumes "n < 32" and "m < 32"
  shows "flag_get (flag_set_to f n b) m = (if m = n then b else flag_get f m)"
  using assms
  by (auto simp: flag_set_to_branch bit_raw_flag flag_set_def flag_clear_def bit_simps)

lemma flag_get_toggle:
  assumes "n < 32" and "m < 32"
  shows "flag_get (flag_toggle f n) m = (if m = n then \<not> flag_get f m else flag_get f m)"
  using assms by (auto simp: bit_raw_flag flag_toggle_def bit_simps)

lemma flag_get_clear_all: "n < 32 \<Longrightarrow> \<not> flag_get (flags_clear f) n"
  by (simp add: bit_raw_flag flags_clear_def)

section \<open>Facts about the Bloom filter\<close>

lemma bloomtest_iff: "bloomtest b x \<longleftrightarrow> bit b (x mod 64)"
  by (simp add: bloomtest_def bloombit_def bit_iff_and_push_bit_not_eq_0)

lemma bloomtest_bloomset: "bloomtest (bloomset b x) y \<longleftrightarrow> bloomtest b y \<or> y mod 64 = x mod 64"
  by (auto simp: bloomtest_iff bloomset_def bloombit_def bit_simps)

lemma bloom_fold: "bloomtest (fold (\<lambda>x b. bloomset b x) xs b) y \<longleftrightarrow>
    bloomtest b y \<or> (\<exists>x \<in> set xs. y mod 64 = x mod 64)"
  by (induction xs arbitrary: b) (auto simp: bloomtest_bloomset)

end
