(* ===== verification/Bytecode.thy ===== *)
theory Bytecode
  imports Utils
begin

text \<open>
  The bytecode instruction format of \<^verbatim>\<open>src/vm/bytecode.hh\<close> and the decoder of
  \<^verbatim>\<open>src/vm/bytecode.cc\<close>: the opcode table \<^verbatim>\<open>BCDEF\<close>, the packing of an instruction
  into a 32 bit word, the field accessors, and the traversal of \<^verbatim>\<open>BcIns::debugPrint\<close>, which
  decodes the operands of one instruction and returns the address of the next.
\<close>

section \<open>Opcodes and formats\<close>

datatype (plugins only: size) opcode =
    ISLT | ISGE | ISLE | ISGT | ISEQ | ISNE
  | ISLTU | ISGEU | ISLEU | ISGTU
  | NEG
  | MOV | MOV_RES | UPDATE | LOADF | LOADFV | LOADBH | LOADSLF | INITF
  | ADDRR | SUBRR | MULRR | DIVRR | REMRR
  | CMPLT | CMPGE | CMPLE | CMPGT | CMPEQ | CMPNE | CMPLTU | CMPGEU | CMPLEU | CMPGTU
  | BNOT | BAND | BOR | BXOR | BSHL | BSHR | BSAR | BROL | BROR
  | PTROFSC | GETTAG
  | LOADK | KINT | NEW_INT
  | ALLOC1 | ALLOC | ALLOCAP
  | CALL | CALLT | RET1 | RETN | JMP | EVAL | CASE | CASE_S
  | RAISE
  | NEWBYTEA | GETA1 | GETA2 | GETA4 | GETA8 | SETA1 | SETA2 | SETA4 | SETA8
  | FUNC | IFUNC | JFUNC | FUNCPAP | JRET | IRET | SYNC | STOP

datatype ins_format =
    IFM_J | IFM_R | IFM_RR | IFM_RRR | IFM_RN | IFM_RRN | IFM_RS | IFM_RRJ | IFM_none

text \<open>The X-macro \<^verbatim>\<open>BCDEF\<close>: an opcode's number is its position in this table.\<close>

definition BCDEF :: "(opcode \<times> ins_format) list" where
  "BCDEF =
    [(ISLT, IFM_RRJ), (ISGE, IFM_RRJ), (ISLE, IFM_RRJ), (ISGT, IFM_RRJ), (ISEQ, IFM_RRJ),
     (ISNE, IFM_RRJ), (ISLTU, IFM_RRJ), (ISGEU, IFM_RRJ), (ISLEU, IFM_RRJ), (ISGTU, IFM_RRJ),
     (NEG, IFM_RR), (MOV, IFM_RR), (MOV_RES, IFM_RN), (UPDATE, IFM_RR), (LOADF, IFM_RRN),
     (LOADFV, IFM_RN), (LOADBH, IFM_R), (LOADSLF, IFM_R), (INITF, IFM_RRN),
     (ADDRR, IFM_RRR), (SUBRR, IFM_RRR), (MULRR, IFM_RRR), (DIVRR, IFM_RRR), (REMRR, IFM_RRR),
     (CMPLT, IFM_RRR), (CMPGE, IFM_RRR), (CMPLE, IFM_RRR), (CMPGT, IFM_RRR), (CMPEQ, IFM_RRR),
     (CMPNE, IFM_RRR), (CMPLTU, IFM_RRR), (CMPGEU, IFM_RRR), (CMPLEU, IFM_RRR),
     (CMPGTU, IFM_RRR),
     (BNOT, IFM_RR), (BAND, IFM_RRR), (BOR, IFM_RRR), (BXOR, IFM_RRR), (BSHL, IFM_RRR),
     (BSHR, IFM_RRR), (BSAR, IFM_RRR), (BROL, IFM_RRR), (BROR, IFM_RRR),
     (PTROFSC, IFM_RRR), (GETTAG, IFM_RR),
     (LOADK, IFM_RN), (KINT, IFM_RS), (NEW_INT, IFM_RS),
     (ALLOC1, IFM_none), (ALLOC, IFM_none), (ALLOCAP, IFM_none),
     (CALL, IFM_none), (CALLT, IFM_none), (RET1, IFM_R), (RETN, IFM_R), (JMP, IFM_J),
     (EVAL, IFM_none), (CASE, IFM_none), (CASE_S, IFM_none),
     (RAISE, IFM_R),
     (NEWBYTEA, IFM_RRN), (GETA1, IFM_RRR), (GETA2, IFM_RRR), (GETA4, IFM_RRR),
     (GETA8, IFM_RRR), (SETA1, IFM_RRR), (SETA2, IFM_RRR), (SETA4, IFM_RRR), (SETA8, IFM_RRR),
     (FUNC, IFM_R), (IFUNC, IFM_R), (JFUNC, IFM_RN), (FUNCPAP, IFM_none), (JRET, IFM_RN),
     (IRET, IFM_RN), (SYNC, IFM_none), (STOP, IFM_none)]"

definition opcode_num :: "opcode \<Rightarrow> nat" where
  "opcode_num op = length (takeWhile (\<lambda>x. x \<noteq> op) (map fst BCDEF))"

definition opcode_of_num :: "nat \<Rightarrow> opcode option" where
  "opcode_of_num n = (if n < length BCDEF then Some (fst (BCDEF ! n)) else None)"

section \<open>Instruction words\<close>

text \<open>\<^verbatim>\<open>BcIns\<close> wraps one \<^verbatim>\<open>uint32_t\<close>: opcode, A, C, B from the least significant byte up.\<close>

type_synonym bcins = u4

definition kBranchBias :: u4 where
  "kBranchBias = 0x8000"

definition kMaxCallArgs :: nat where
  "kMaxCallArgs = 13"

definition opc_byte :: "opcode \<Rightarrow> u1" where
  "opc_byte op = of_nat (opcode_num op)"

definition bc_abc :: "opcode \<Rightarrow> u1 \<Rightarrow> u1 \<Rightarrow> u1 \<Rightarrow> bcins" where
  "bc_abc op a b c =
     ucast (opc_byte op) OR push_bit 8 (ucast a) OR push_bit 24 (ucast b)
       OR push_bit 16 (ucast c)"

definition bc_ad :: "opcode \<Rightarrow> u1 \<Rightarrow> u2 \<Rightarrow> bcins" where
  "bc_ad op a d = ucast (opc_byte op) OR push_bit 8 (ucast a) OR push_bit 16 (ucast d)"

definition bc_asd :: "opcode \<Rightarrow> u1 \<Rightarrow> u2 \<Rightarrow> bcins" where
  "bc_asd op a sd = ucast (opc_byte op) OR push_bit 8 (ucast a) OR push_bit 16 (scast sd)"

definition bc_aj :: "opcode \<Rightarrow> u1 \<Rightarrow> u2 \<Rightarrow> bcins" where
  "bc_aj op a offset = bc_ad op a (ucast (kBranchBias + scast offset))"

definition bc_args :: "u1 \<Rightarrow> u1 \<Rightarrow> u1 \<Rightarrow> u1 \<Rightarrow> bcins" where
  "bc_args arg1 arg2 arg3 arg4 =
     ucast arg1 OR push_bit 8 (ucast arg2) OR push_bit 16 (ucast arg3)
       OR push_bit 24 (ucast arg4)"

definition bc_a :: "bcins \<Rightarrow> u1" where
  "bc_a ins = ucast (drop_bit 8 ins AND 0xff)"

definition bc_b :: "bcins \<Rightarrow> u1" where
  "bc_b ins = ucast (drop_bit 24 ins)"

definition bc_c :: "bcins \<Rightarrow> u1" where
  "bc_c ins = ucast (drop_bit 16 ins AND 0xff)"

definition bc_d :: "bcins \<Rightarrow> u2" where
  "bc_d ins = ucast (drop_bit 16 ins)"

definition bc_sd :: "bcins \<Rightarrow> u2" where
  "bc_sd ins = ucast (drop_bit 16 ins)"

definition bc_j :: "bcins \<Rightarrow> u2" where
  "bc_j ins = ucast (drop_bit 16 ins - kBranchBias)"

definition bc_opcode :: "bcins \<Rightarrow> opcode option" where
  "bc_opcode ins = opcode_of_num (unat (ins AND 0xff))"

text \<open>\<^verbatim>\<open>format\<close> asserts that the opcode is at most \<^verbatim>\<open>kSTOP\<close>, the last one of the table.\<close>

definition bc_format :: "bcins \<Rightarrow> ins_format result" where
  "bc_format ins =
     (let opc = unat (ins AND 0xff)
      in res_bind (lc_assert (opc \<le> opcode_num STOP)) (\<lambda>_. Inr (snd (BCDEF ! opc))))"

section \<open>Code memory\<close>

text \<open>
  A piece of code is an array of instruction words.  The interpreter and the decoder also read
  argument registers as bytes (\<^verbatim>\<open>u1 *\<close>) and jump tables and bitmaps as half words
  (\<^verbatim>\<open>u2 *\<close>) from it; the machine is little endian.  Addresses count bytes from the start
  of the code, program counters count instruction words.
\<close>

type_synonym code_mem = "nat \<Rightarrow> u4"

definition code_u1 :: "code_mem \<Rightarrow> nat \<Rightarrow> u1" where
  "code_u1 code addr = ucast (drop_bit (8 * (addr mod 4)) (code (addr div 4)))"

definition code_u2 :: "code_mem \<Rightarrow> nat \<Rightarrow> u2" where
  "code_u2 code addr =
     ucast (code_u1 code addr) OR push_bit 8 (ucast (code_u1 code (addr + 1)))"

definition arg_regs :: "code_mem \<Rightarrow> nat \<Rightarrow> nat \<Rightarrow> nat list" where
  "arg_regs code pc n = map (\<lambda>j. unat (code_u1 code (4 * pc + j))) [0..<n]"

section \<open>Decoding one instruction\<close>

text \<open>
  What \<^verbatim>\<open>debugPrint\<close> shows of an instruction, without the layout of the text: registers
  (with a mark on pointer arguments), literals, jump targets, the range and the alternatives of
  a case, and the place of the liveness bitmaps.
\<close>

datatype operand =
    Reg nat
  | RegPtr nat
  | Lit nat
  | SLit int
  | Target int
  | Alt nat int
  | Range nat nat
  | Bitmaps nat u4

fun mark_args :: "nat list \<Rightarrow> u4 \<Rightarrow> operand list" where
  "mark_args [] m = []"
| "mark_args (r # rs) m =
     (if m AND 1 \<noteq> 0 then RegPtr r else Reg r) # mark_args rs (drop_bit 1 m)"

definition disasm_none :: "code_mem \<Rightarrow> nat \<Rightarrow> opcode \<Rightarrow> operand list \<times> nat" where
  "disasm_none code pc op =
     (let i = code pc; a = unat (bc_a i); b = unat (bc_b i); c = unat (bc_c i);
          d = unat (bc_d i)
      in case op of
        EVAL \<Rightarrow> ([Reg a, Bitmaps (pc + 1) (code (pc + 1))], pc + 2)
      | CASE \<Rightarrow>
          let end_pc = pc + 1 + (d + 1) div 2
          in (Reg a # map (\<lambda>j. Alt (j + 1)
                (int end_pc + int (unat (code_u2 code (4 * (pc + 1) + 2 * j))))) [0..<d], end_pc)
      | CASE_S \<Rightarrow>
          let minmax = code (pc + 1); end_pc = pc + 2 + d
          in (Reg a # Range (unat (minmax AND 0xffff)) (unat (drop_bit 16 minmax))
                # map (\<lambda>j. let alt = code (pc + 2 + j)
                             in Alt (unat (drop_bit 16 alt))
                                  (int end_pc + int (unat (alt AND 0xffff)) + 1)) [0..<d], end_pc)
      | ALLOC1 \<Rightarrow> ([Reg a, Reg b, Reg c, Bitmaps (pc + 1) (code (pc + 1))], pc + 2)
      | ALLOC \<Rightarrow>
          let bm = pc + 1 + BC_ROUND c
          in (Reg a # Reg b # map Reg (arg_regs code (pc + 1) c) @ [Bitmaps bm (code bm)], bm + 1)
      | ALLOCAP \<Rightarrow>
          let bm = pc + 1 + BC_ROUND (c + 1); args = arg_regs code (pc + 1) (c + 1)
          in (Reg a # Reg (hd args) # mark_args (tl args) (ucast (bc_b i))
                @ [Bitmaps bm (code bm)], bm + 1)
      | CALL \<Rightarrow>
          let bm = pc + 2 + BC_ROUND c
          in (Reg a # mark_args (arg_regs code (pc + 2) c) (code (pc + 1))
                @ [Bitmaps bm (code bm)], bm + 1)
      | CALLT \<Rightarrow> (Reg a # mark_args [0..<c] (code (pc + 1)), pc + 2)
      | _ \<Rightarrow> ([], pc + 1))"

definition disasm :: "code_mem \<Rightarrow> nat \<Rightarrow> (opcode \<times> operand list \<times> nat) result" where
  "disasm code pc =
     (let i = code pc; a = unat (bc_a i); b = unat (bc_b i); c = unat (bc_c i);
          d = unat (bc_d i)
      in res_bind (of_option AssertFailed (bc_opcode i)) (\<lambda>op.
         res_bind (bc_format i) (\<lambda>fm.
           Inr (op, case fm of
             IFM_R \<Rightarrow> ([Reg a], pc + 1)
           | IFM_RR \<Rightarrow> ([Reg a, Reg d], pc + 1)
           | IFM_RRR \<Rightarrow> ([Reg a, Reg b, Reg c], pc + 1)
           | IFM_RN \<Rightarrow> ([Reg a, Lit d], pc + 1)
           | IFM_RS \<Rightarrow> ([Reg a, SLit (sint (bc_sd i))], pc + 1)
           | IFM_RRN \<Rightarrow> ([Reg a, Reg b, Lit c], pc + 1)
           | IFM_J \<Rightarrow> ([Target (int (pc + 1) + sint (bc_j i))], pc + 1)
           | IFM_RRJ \<Rightarrow> ([Reg a, Reg d, Target (int (pc + 2) + sint (bc_j (code (pc + 1))))], pc + 2)
           | IFM_none \<Rightarrow> disasm_none code pc op))))"

section \<open>Facts about the opcode table\<close>

lemma length_BCDEF [simp]: "length BCDEF = 77"
  by (simp add: BCDEF_def)

lemma opcodes_complete: "op \<in> fst ` set BCDEF"
  by (cases op) (simp_all add: BCDEF_def)

lemma distinct_opcodes: "distinct (map fst BCDEF)"
  by (simp add: BCDEF_def)

lemma opcode_num_index:
  "opcode_num op < length BCDEF \<and> fst (BCDEF ! opcode_num op) = op"
proof -
  let ?xs = "map fst BCDEF"
  have "op \<in> set ?xs" using opcodes_complete [of op] by simp
  then obtain ys zs where "?xs = ys @ op # zs" and "op \<notin> set ys"
    by (meson split_list_first)
  then have n: "opcode_num op = length ys" and "length ys < length ?xs"
    unfolding opcode_num_def by (simp_all add: takeWhile_neq_first)
  moreover have "?xs ! length ys = op" using \<open>?xs = ys @ op # zs\<close> by simp
  ultimately show ?thesis by simp
qed

lemma opcode_of_num_opcode_num [simp]: "opcode_of_num (opcode_num op) = Some op"
  using opcode_num_index [of op] by (simp add: opcode_of_num_def)

lemma opcode_num_inj: "opcode_num op = opcode_num op' \<Longrightarrow> op = op'"
  by (metis opcode_of_num_opcode_num option.inject)

lemma opcode_num_STOP: "opcode_num STOP = 76"
  by (simp add: opcode_num_def BCDEF_def)

lemma opcode_num_lt: "opcode_num op < 77"
  using opcode_num_index [of op] by simp

lemma unat_opc_byte: "unat (opc_byte op) = opcode_num op"
  unfolding opc_byte_def using opcode_num_lt [of op] by (intro unat_of_nat_small) simp

section \<open>Field extraction\<close>

lemmas packed = bc_abc_def bc_ad_def bc_asd_def bc_args_def bc_a_def bc_b_def bc_c_def
  bc_d_def bc_sd_def and_0xff

lemma abc_fields [bytes]:
  "bc_a (bc_abc op a b c) = a"
  "bc_b (bc_abc op a b c) = b"
  "bc_c (bc_abc op a b c) = c"
  unfolding packed
  by (rule bit_word_eqI, auto simp: bit_simps dest: bit_imp_le_length)+

lemma ad_fields [bytes]:
  "bc_a (bc_ad op a d) = a"
  "bc_d (bc_ad op a d) = d"
  "bc_a (bc_asd op a d) = a"
  "bc_sd (bc_asd op a d) = d"
  unfolding packed
  by (rule bit_word_eqI, auto simp: bit_simps dest: bit_imp_le_length)+

lemma opcode_field [bytes]:
  "bc_abc op a b c AND 0xff = ucast (opc_byte op)"
  "bc_ad op a d AND 0xff = ucast (opc_byte op)"
  "bc_asd op a d AND 0xff = ucast (opc_byte op)"
  unfolding packed
  by (rule bit_word_eqI, auto simp: bit_simps dest: bit_imp_le_length)+

lemma unat_ucast_opc: "unat (ucast (opc_byte op) :: u4) = opcode_num op"
  by (simp add: unat_ucast_widen unat_opc_byte)

lemma bc_opcode_packed [bytes]:
  "bc_opcode (bc_abc op a b c) = Some op"
  "bc_opcode (bc_ad op a d) = Some op"
  "bc_opcode (bc_asd op a d) = Some op"
  by (simp_all add: bc_opcode_def bytes unat_ucast_opc)

lemma bc_j_aj [bytes]: "bc_j (bc_aj op a offset) = offset"
proof -
  have "drop_bit 16 (bc_ad op a d) = (ucast d :: u4)" for d :: u2
    unfolding packed by (rule bit_word_eqI) (auto simp: bit_simps dest: bit_imp_le_length)
  then show ?thesis
    by (simp add: bc_j_def bc_aj_def kBranchBias_def ucast_down)
qed

section \<open>Facts about decoding\<close>

lemma bc_format_opcode:
  assumes "bc_opcode i = Some op"
  shows "bc_format i = Inr (snd (BCDEF ! opcode_num op))"
proof -
  let ?n = "unat (i AND 0xff)"
  from assms have n: "?n < 77" and op: "fst (BCDEF ! ?n) = op"
    by (auto simp: bc_opcode_def opcode_of_num_def split: if_splits)
  have "?n = opcode_num op"
    using distinct_opcodes opcode_num_index [of op] n op
    by (metis length_BCDEF length_map nth_eq_iff_index_eq nth_map)
  with n show ?thesis by (simp add: bc_format_def opcode_num_STOP)
qed

text \<open>
  The format of every opcode, as the decoder looks it up: the facts a proof by cases on the
  opcode needs.
\<close>

definition opcode_format :: "opcode \<Rightarrow> ins_format" where
  "opcode_format op = snd (BCDEF ! opcode_num op)"

lemma map_of_BCDEF: "map_of BCDEF op = Some (opcode_format op)"
proof -
  have "BCDEF ! opcode_num op \<in> set BCDEF"
    using opcode_num_index [of op] by (intro nth_mem) simp
  then have "(op, opcode_format op) \<in> set BCDEF"
    using opcode_num_index [of op] by (metis opcode_format_def prod.collapse)
  with distinct_opcodes show ?thesis by (rule map_of_is_SomeI)
qed

lemma opcode_formatI: "map_of BCDEF op = Some fm \<Longrightarrow> opcode_format op = fm"
  by (simp add: map_of_BCDEF)

lemma disasm_eq:
  assumes "bc_opcode (code pc) = Some op"
  shows "disasm code pc =
    (let i = code pc; a = unat (bc_a i); b = unat (bc_b i); c = unat (bc_c i); d = unat (bc_d i)
     in Inr (op, case opcode_format op of
             IFM_R \<Rightarrow> ([Reg a], pc + 1)
           | IFM_RR \<Rightarrow> ([Reg a, Reg d], pc + 1)
           | IFM_RRR \<Rightarrow> ([Reg a, Reg b, Reg c], pc + 1)
           | IFM_RN \<Rightarrow> ([Reg a, Lit d], pc + 1)
           | IFM_RS \<Rightarrow> ([Reg a, SLit (sint (bc_sd i))], pc + 1)
           | IFM_RRN \<Rightarrow> ([Reg a, Reg b, Lit c], pc + 1)
           | IFM_J \<Rightarrow> ([Target (int (pc + 1) + sint (bc_j i))], pc + 1)
           | IFM_RRJ \<Rightarrow> ([Reg a, Reg d, Target (int (pc + 2) + sint (bc_j (code (pc + 1))))], pc + 2)
           | IFM_none \<Rightarrow> disasm_none code pc op))"
  using assms by (simp add: disasm_def bc_format_opcode opcode_format_def Let_def)

end
