(* ===== verification/HotCounters.thy ===== *)
theory HotCounters
  imports Utils
begin

text \<open>
  The trace selector's hot counters and the pseudo random number generator of
  \<^verbatim>\<open>src/vm/jit.hh\<close>.  A branch target is hashed into a table of 1024 16-bit counters that
  count down from the threshold; the tick that reaches zero reports the target as hot and rearms
  the counter.
\<close>

section \<open>HotCounters\<close>

record hot_counters =
  counters :: "u2 list"
  threshold :: u2

definition kNumCounters :: nat where
  "kNumCounters = 1024"

definition hotCountHash :: "u8 \<Rightarrow> nat" where
  "hotCountHash pc = unat ((drop_bit 12 pc XOR drop_bit 4 pc) AND (of_nat kNumCounters - 1))"

definition hc_init :: "u2 \<Rightarrow> hot_counters" where
  "hc_init thr = \<lparr>counters = replicate kNumCounters thr, threshold = thr\<rparr>"

definition hc_get :: "hot_counters \<Rightarrow> u8 \<Rightarrow> u2" where
  "hc_get h pc = counters h ! hotCountHash pc"

definition hc_set :: "hot_counters \<Rightarrow> u8 \<Rightarrow> u2 \<Rightarrow> hot_counters" where
  "hc_set h pc val = h\<lparr>counters := (counters h)[hotCountHash pc := val]\<rparr>"

definition hc_reset :: "hot_counters \<Rightarrow> u8 \<Rightarrow> hot_counters" where
  "hc_reset h pc = h\<lparr>counters := (counters h)[hotCountHash pc := threshold h]\<rparr>"

definition hc_tick :: "hot_counters \<Rightarrow> u8 \<Rightarrow> bool \<times> hot_counters" where
  "hc_tick h pc =
     (let c = counters h ! hotCountHash pc - 1;
          h' = h\<lparr>counters := (counters h)[hotCountHash pc := c]\<rparr>
      in if c = 0 then (True, hc_set h' pc (threshold h')) else (False, h'))"

text \<open>A sequence of branches to the given targets, with the verdict of each tick.\<close>

fun hc_ticks :: "hot_counters \<Rightarrow> u8 list \<Rightarrow> bool list \<times> hot_counters" where
  "hc_ticks h [] = ([], h)"
| "hc_ticks h (pc # pcs) =
     (let (hot, h') = hc_tick h pc; (hots, h'') = hc_ticks h' pcs in (hot # hots, h''))"

section \<open>Prng\<close>

definition prng_init :: u4 where
  "prng_init = 0x72ba83e"

definition prng_bits :: "u4 \<Rightarrow> nat \<Rightarrow> u4 \<times> u4" where
  "prng_bits state nbits =
     (let state' = state * 1103515245 + 12345 in (drop_bit (32 - nbits) state', state'))"

section \<open>Facts\<close>

definition hc_wf :: "hot_counters \<Rightarrow> bool" where
  "hc_wf h \<longleftrightarrow> length (counters h) = kNumCounters"

lemma hotCountHash_less [simp]: "hotCountHash pc < kNumCounters"
proof -
  have "(of_nat kNumCounters - 1 :: u8) = mask 10"
    by (simp add: kNumCounters_def mask_eq_exp_minus_1)
  then have "hotCountHash pc = unat (drop_bit 12 pc XOR drop_bit 4 pc) mod 2 ^ 10"
    by (simp only: hotCountHash_def unat_and_mask)
  then show ?thesis by (simp add: kNumCounters_def)
qed

lemma hc_wf_init [simp]: "hc_wf (hc_init t)"
  by (simp add: hc_wf_def hc_init_def)

lemma hc_wf_tick [simp]: "hc_wf (snd (hc_tick h pc)) = hc_wf h"
  by (simp add: hc_wf_def hc_tick_def hc_set_def Let_def)

lemma threshold_tick [frame]: "threshold (snd (hc_tick h pc)) = threshold h"
  by (simp add: hc_tick_def hc_set_def Let_def)

lemma hc_get_reset:
  "hc_wf h \<Longrightarrow> hc_get (hc_reset h pc) pc' =
     (if hotCountHash pc' = hotCountHash pc then threshold h else hc_get h pc')"
  by (simp add: hc_get_def hc_reset_def hc_wf_def)

lemma hc_tick_spec:
  assumes "hc_wf h"
  shows "fst (hc_tick h pc) \<longleftrightarrow> hc_get h pc = 1"
    and "hc_get (snd (hc_tick h pc)) pc =
      (if hc_get h pc = 1 then threshold h else hc_get h pc - 1)"
    and "hotCountHash pc' \<noteq> hotCountHash pc \<Longrightarrow> hc_get (snd (hc_tick h pc)) pc' = hc_get h pc'"
  using assms by (auto simp: hc_tick_def hc_get_def hc_set_def hc_wf_def Let_def)

lemma hc_ticks_length: "length (fst (hc_ticks h pcs)) = length pcs"
  by (induction pcs arbitrary: h) (simp_all add: case_prod_beta Let_def)

text \<open>
  The verdicts of a run of ticks on one target whose counter holds \<open>c\<close>: the tick number \<open>c\<close> is
  hot, and from there on every \<open>threshold\<close>-th one.
\<close>

fun hot_schedule :: "nat \<Rightarrow> nat \<Rightarrow> nat \<Rightarrow> bool list" where
  "hot_schedule thr c 0 = []"
| "hot_schedule thr c (Suc n) = (c = 1) # hot_schedule thr (if c = 1 then thr else c - 1) n"

lemma hc_ticks_schedule:
  assumes "hc_wf h" and "hc_get h pc \<noteq> 0" and "threshold h \<noteq> 0"
  shows "fst (hc_ticks h (replicate n pc)) =
    hot_schedule (unat (threshold h)) (unat (hc_get h pc)) n"
  using assms
proof (induction n arbitrary: h)
  case 0
  then show ?case by simp
next
  case (Suc n)
  let ?h = "snd (hc_tick h pc)" and ?c = "hc_get h pc"
  have one: "unat ?c = 1 \<longleftrightarrow> ?c = 1"
    by (metis unat_1 word_unat_eq_iff)
  have next_c: "hc_get ?h pc = (if ?c = 1 then threshold h else ?c - 1)"
    using Suc.prems hc_tick_spec(2) by blast
  have "unat (?c - 1) = unat ?c - 1"
    using Suc.prems(2) by (simp add: unat_minus_one)
  moreover have "?c \<noteq> 1 \<Longrightarrow> ?c - 1 \<noteq> 0" by simp
  ultimately have nxt: "unat (hc_get ?h pc) =
      (if unat ?c = 1 then unat (threshold h) else unat ?c - 1)"
    and nz: "hc_get ?h pc \<noteq> 0"
    using next_c one Suc.prems(3) by auto
  have "fst (hc_ticks ?h (replicate n pc)) =
      hot_schedule (unat (threshold ?h)) (unat (hc_get ?h pc)) n"
    using Suc.prems nz by (intro Suc.IH) (simp_all add: frame)
  then show ?case
    using nxt one hc_tick_spec(1) [OF Suc.prems(1), of pc]
    by (simp add: frame case_prod_beta Let_def)
qed

lemma hot_schedule_nth:
  assumes "0 < c" and "c \<le> t" and "i < n"
  shows "hot_schedule t c n ! i \<longleftrightarrow> (i + 1 + t - c) mod t = 0"
  using assms
proof (induction n arbitrary: c i)
  case 0
  then show ?case by simp
next
  case (Suc n)
  show ?case
  proof (cases i)
    case 0
    with Suc.prems show ?thesis
      by (cases "c = 1") (auto simp: mod_if)
  next
    case (Suc j)
    show ?thesis
    proof (cases "c = 1")
      case True
      with Suc Suc.prems Suc.IH [of t j] show ?thesis
        using mod_add_self2 [of "Suc j" t] by simp
    next
      case False
      with Suc Suc.prems Suc.IH [of "c - 1" j] show ?thesis by simp
    qed
  qed
qed

text \<open>
  \<^bold>\<open>C37.\<close>  Branch targets become hot periodically: a target whose counter has just been armed
  with a non-zero threshold \<open>t\<close> is reported hot by exactly the ticks number \<open>t\<close>, \<open>2t\<close>, \<open>3t\<close>, ...,
  however long the run, and never in between.
\<close>

theorem hot_exactly_every_threshold:
  assumes "hc_wf h" and "threshold h \<noteq> 0" and "hc_get h pc = threshold h" and "i < n"
  shows "fst (hc_ticks h (replicate n pc)) ! i \<longleftrightarrow> unat (threshold h) dvd i + 1"
proof -
  let ?t = "unat (threshold h)"
  have "0 < ?t" using assms(2) by (simp add: unat_gt_0)
  then have "fst (hc_ticks h (replicate n pc)) ! i \<longleftrightarrow> (i + 1 + ?t - ?t) mod ?t = 0"
    using assms hot_schedule_nth [of ?t ?t i n] by (simp add: hc_ticks_schedule)
  then show ?thesis by (simp add: dvd_eq_mod_eq_0)
qed

theorem hot_exactly_every_threshold_witness:
  "fst (hc_ticks (hc_init 53) (replicate 60 0x7f00)) ! 52"
  using hot_exactly_every_threshold [of "hc_init 53" "0x7f00" 52 60]
  by (simp add: hc_init_def hc_get_def hc_wf_def)

lemma prng_bits_bound:
  assumes "nbits \<le> 32"
  shows "unat (fst (prng_bits state nbits)) < 2 ^ nbits"
proof -
  let ?s = "state * 1103515245 + 12345"
  have "unat ?s < 2 ^ (nbits + (32 - nbits))"
    using assms unsigned_less [of ?s] by (simp add: le_add_diff_inverse)
  then have "unat ?s div 2 ^ (32 - nbits) < 2 ^ nbits"
    by (simp add: power_add less_mult_imp_div_less)
  then show ?thesis
    by (simp add: prng_bits_def Let_def unat_drop_bit_eq drop_bit_eq_div [where 'a = nat])
qed

end
