(* ===== verification/CallStack.thy ===== *)
theory CallStack
  imports HotCounters "HOL-Library.Sublist"
begin

text \<open>
  The abstract call stack and the branch target buffer of the trace recorder
  (\<^verbatim>\<open>CallStack\<close> and \<^verbatim>\<open>BranchTargetBuffer\<close> of \<^verbatim>\<open>src/vm/ir.hh\<close> and \<^verbatim>\<open>src/vm/ir.cc\<close>),
  which together filter false loops out of the recorded branches.

  A call stack is a node in a growing array; every node has a return address and a parent.  The
  part of the stack below the start of the trace is unknown: its last node has address 0, and a
  return from it discovers one more frame.
\<close>

section \<open>CallStack\<close>

definition STACK_NO_REF :: nat where
  "STACK_NO_REF = 0xffff"

record call_stack_node =
  node_parent :: u2
  node_return_addr :: u2

text \<open>
  The allocated array has \<^verbatim>\<open>size_\<close> elements, of which the first \<^verbatim>\<open>next_\<close> are initialised;
  \<open>cs_buf\<close> holds the initialised ones, so that \<^verbatim>\<open>next_\<close> is its length.
\<close>

record call_stack =
  cs_curr :: nat
  cs_size :: nat
  cs_buf :: "call_stack_node list"

definition cs_parent :: "call_stack \<Rightarrow> nat \<Rightarrow> nat result" where
  "cs_parent s node =
     res_bind (lc_assert (node < length (cs_buf s)))
       (\<lambda>_. Inr (unat (node_parent (cs_buf s ! node))))"

definition cs_address :: "call_stack \<Rightarrow> nat \<Rightarrow> nat result" where
  "cs_address s node =
     res_bind (lc_assert (node < length (cs_buf s)))
       (\<lambda>_. Inr (unat (node_return_addr (cs_buf s ! node))))"

definition cs_growBuffer :: "call_stack \<Rightarrow> call_stack result" where
  "cs_growBuffer s =
     (if cs_size s > 1024 then Inl (Exit 1)
      else let size = cs_size s * 2
           in Inr (s\<lparr>cs_size := (if size < 32 then 32 else size)\<rparr>))"

definition cs_createNode :: "call_stack \<Rightarrow> nat \<Rightarrow> nat \<Rightarrow> (nat \<times> call_stack) result" where
  "cs_createNode s parent addr =
     res_bind (if length (cs_buf s) \<ge> cs_size s then cs_growBuffer s else Inr s)
       (\<lambda>s. Inr (length (cs_buf s),
            s\<lparr>cs_buf := cs_buf s @
               [\<lparr>node_parent = of_nat parent, node_return_addr = of_nat addr\<rparr>]\<rparr>))"

definition cs_setParent :: "call_stack \<Rightarrow> nat \<Rightarrow> nat \<Rightarrow> call_stack result" where
  "cs_setParent s node parent =
     res_bind (lc_assert (node < length (cs_buf s))) (\<lambda>_.
       Inr (s\<lparr>cs_buf := (cs_buf s)[node := (cs_buf s ! node)\<lparr>node_parent := of_nat parent\<rparr>]\<rparr>))"

definition cs_setAddress :: "call_stack \<Rightarrow> nat \<Rightarrow> nat \<Rightarrow> call_stack result" where
  "cs_setAddress s node ref =
     res_bind (lc_assert (node < length (cs_buf s))) (\<lambda>_.
       Inr (s\<lparr>cs_buf := (cs_buf s)[node := (cs_buf s ! node)\<lparr>node_return_addr := of_nat ref\<rparr>]\<rparr>))"

definition cs_reset :: "call_stack result" where
  "cs_reset =
     res_bind (cs_createNode \<lparr>cs_curr = 0, cs_size = 0, cs_buf = []\<rparr> STACK_NO_REF 0)
       (\<lambda>(node, s). Inr (s\<lparr>cs_curr := node\<rparr>))"

definition cs_returnTo :: "call_stack \<Rightarrow> nat \<Rightarrow> call_stack result" where
  "cs_returnTo s ret_addr =
     res_bind (cs_parent s (cs_curr s)) (\<lambda>p.
     res_bind
       (if p = STACK_NO_REF
        then res_bind (cs_setAddress s (cs_curr s) ret_addr) (\<lambda>s.
             res_bind (cs_createNode s STACK_NO_REF 0) (\<lambda>(newp, s).
             cs_setParent s (cs_curr s) newp))
        else Inr s) (\<lambda>s.
     res_bind (cs_address s (cs_curr s)) (\<lambda>a.
     res_bind (lc_assert (a = ret_addr)) (\<lambda>_.
     res_bind (cs_parent s (cs_curr s)) (\<lambda>p. Inr (s\<lparr>cs_curr := p\<rparr>))))))"

definition cs_pushFrame :: "call_stack \<Rightarrow> nat \<Rightarrow> call_stack result" where
  "cs_pushFrame s ret_addr =
     res_bind (cs_createNode s (cs_curr s) ret_addr) (\<lambda>(newc, s). Inr (s\<lparr>cs_curr := newc\<rparr>))"

text \<open>The two loops follow the parent links; on a cyclic buffer they would not return.\<close>

partial_function (option) cs_depth_loop :: "call_stack \<Rightarrow> nat \<Rightarrow> nat \<Rightarrow> nat result option" where
  "cs_depth_loop s ref d =
     (if ref = STACK_NO_REF then Some (Inr d)
      else case cs_parent s ref of
             Inl e \<Rightarrow> Some (Inl e)
           | Inr p \<Rightarrow> cs_depth_loop s p (d + 1))"

definition cs_depth :: "call_stack \<Rightarrow> nat \<Rightarrow> nat result option" where
  "cs_depth s ref = cs_depth_loop s ref 0"

partial_function (option) cs_compare_loop ::
  "call_stack \<Rightarrow> nat \<Rightarrow> nat \<Rightarrow> int \<Rightarrow> int result option" where
  "cs_compare_loop s stack1 stack2 d =
     (if stack1 = stack2 then Some (Inr (-1))
      else if stack1 = STACK_NO_REF \<or> stack2 = STACK_NO_REF then Some (Inr d)
      else case res_bind (cs_address s stack1) (\<lambda>a1. res_bind (cs_address s stack2) (\<lambda>a2.
                res_bind (cs_parent s stack1) (\<lambda>p1. res_bind (cs_parent s stack2) (\<lambda>p2.
                Inr (a1, a2, p1, p2))))) of
             Inl e \<Rightarrow> Some (Inl e)
           | Inr (a1, a2, p1, p2) \<Rightarrow>
               (if a1 \<noteq> a2 then Some (Inr d) else cs_compare_loop s p1 p2 (d + 1)))"

definition cs_compare :: "call_stack \<Rightarrow> nat \<Rightarrow> nat \<Rightarrow> int result option" where
  "cs_compare s stack1 stack2 = cs_compare_loop s stack1 stack2 0"

section \<open>BranchTargetBuffer\<close>

record btb_entry =
  entry_addr :: u8
  entry_stack :: nat

record btb =
  btb_size :: nat
  btb_buf :: "btb_entry list"

definition btb_growBuffer :: "btb \<Rightarrow> btb result" where
  "btb_growBuffer b =
     (if btb_size b > 256 then Inl (Exit 1)
      else let size = btb_size b * 2
           in Inr (b\<lparr>btb_size := (if size < 16 then 16 else size)\<rparr>))"

definition btb_emit :: "btb \<Rightarrow> call_stack \<Rightarrow> u8 \<Rightarrow> btb result" where
  "btb_emit b s pc =
     res_bind (if length (btb_buf b) \<ge> btb_size b then btb_growBuffer b else Inr b) (\<lambda>b.
       Inr (b\<lparr>btb_buf := btb_buf b @ [\<lparr>entry_addr = pc, entry_stack = cs_curr s\<rparr>]\<rparr>))"

definition btb_reset :: "u8 \<Rightarrow> call_stack \<Rightarrow> btb result" where
  "btb_reset entryPc s =
     res_bind (lc_assert (cs_curr s = 0)) (\<lambda>_.
       btb_emit \<lparr>btb_size = 0, btb_buf = []\<rparr> s entryPc)"

text \<open>
  The loop filter, over the two call stack operations it uses.  An operation that does not
  return, or fails, makes the filter do so.  Depths are unsigned 32 bit integers, so the
  subtraction of the minimum wraps around.
\<close>

fun min_depth :: "('s \<Rightarrow> nat \<Rightarrow> nat result option) \<Rightarrow> 's \<Rightarrow> btb_entry list \<Rightarrow> nat \<Rightarrow> nat result option" where
  "min_depth depth s [] m = Some (Inr m)"
| "min_depth depth s (e # es) m =
     ro_bind (depth s (entry_stack e)) (\<lambda>d. min_depth depth s es (if d < m then d else m))"

definition common_depth :: "nat \<Rightarrow> nat \<Rightarrow> nat \<Rightarrow> int" where
  "common_depth k1 k2 m =
     (let k1 = of_nat k1 - of_nat m :: u4; k2 = of_nat k2 - of_nat m :: u4
      in sint (if k1 < k2 then k1 else k2))"

fun isTrueLoop_from ::
  "('s \<Rightarrow> nat \<Rightarrow> nat \<Rightarrow> int result option) \<Rightarrow> ('s \<Rightarrow> nat \<Rightarrow> nat result option) \<Rightarrow> 's \<Rightarrow> nat \<Rightarrow>
     u8 \<Rightarrow> btb_entry list \<Rightarrow> int \<Rightarrow> int result option" where
  "isTrueLoop_from compare depth s cur pc [] i = Some (Inr (-1))"
| "isTrueLoop_from compare depth s cur pc (e # es) i =
     (if entry_addr e = pc
      then ro_bind (compare s (entry_stack e) cur) (\<lambda>n.
        if n = -1 then Some (Inr i)
        else ro_bind (depth s (entry_stack e)) (\<lambda>k1.
             ro_bind (depth s cur) (\<lambda>k2.
             ro_bind (min_depth depth s (e # es) k1) (\<lambda>m.
               if n \<ge> common_depth k1 k2 m then Some (Inr i)
               else isTrueLoop_from compare depth s cur pc es (i + 1)))))
      else isTrueLoop_from compare depth s cur pc es (i + 1))"

definition btb_isTrueLoop :: "btb \<Rightarrow> call_stack \<Rightarrow> u8 \<Rightarrow> int result option" where
  "btb_isTrueLoop b s pc = isTrueLoop_from cs_compare cs_depth s (cs_curr s) pc (btb_buf b) 0"

text \<open>
  Targets reached by a backward branch get their hot counter rearmed; the comparison with the
  previous target starts from \<^verbatim>\<open>NULL\<close>.
\<close>

fun resetDominated :: "btb_entry list \<Rightarrow> u8 \<Rightarrow> hot_counters \<Rightarrow> hot_counters" where
  "resetDominated [] tgt h = h"
| "resetDominated (e # es) tgt h =
     resetDominated es (entry_addr e)
       (if entry_addr e < tgt then hc_reset h (entry_addr e) else h)"

definition btb_resetDominatedCounters :: "btb \<Rightarrow> hot_counters \<Rightarrow> hot_counters" where
  "btb_resetDominatedCounters b h = resetDominated (btb_buf b) 0 h"

section \<open>Call stacks as lists\<close>

text \<open>
  A node denotes the list of return addresses from it down to the last node; the list exists
  exactly when the parent links from the node end.
\<close>

primrec Chain :: "call_stack_node list \<Rightarrow> nat \<Rightarrow> nat list \<Rightarrow> bool" where
  "Chain buf r [] \<longleftrightarrow> r = STACK_NO_REF"
| "Chain buf r (a # as) \<longleftrightarrow>
     r \<noteq> STACK_NO_REF \<and> r < length buf \<and> unat (node_return_addr (buf ! r)) = a \<and>
     Chain buf (unat (node_parent (buf ! r))) as"

lemma Chain_NO_REF [simp]: "Chain buf STACK_NO_REF as \<longleftrightarrow> as = []"
  by (cases as) auto

lemma Chain_node:
  "r \<noteq> STACK_NO_REF \<Longrightarrow> Chain buf r as \<longleftrightarrow>
    r < length buf \<and> (\<exists>bs. as = unat (node_return_addr (buf ! r)) # bs \<and>
      Chain buf (unat (node_parent (buf ! r))) bs)"
  by (cases as) auto

lemma Chain_unique: "Chain buf r as \<Longrightarrow> Chain buf r bs \<Longrightarrow> as = bs"
  by (induction as arbitrary: r bs) (auto simp: Chain_node)

lemma Chain_append: "Chain buf r as \<Longrightarrow> Chain (buf @ nodes) r as"
  by (induction as arbitrary: r) (auto simp: nth_append)

lemma cs_parent_node:
  "r < length (cs_buf s) \<Longrightarrow> cs_parent s r = Inr (unat (node_parent (cs_buf s ! r)))"
  by (simp add: cs_parent_def lc_assert_def)

lemma cs_address_node:
  "r < length (cs_buf s) \<Longrightarrow> cs_address s r = Inr (unat (node_return_addr (cs_buf s ! r)))"
  by (simp add: cs_address_def lc_assert_def)

lemma cs_depth_loop_Chain:
  "Chain (cs_buf s) r as \<Longrightarrow> cs_depth_loop s r d = Some (Inr (d + length as))"
  by (induction as arbitrary: r d)
    (subst cs_depth_loop.simps, simp add: cs_parent_node)+

lemma cs_depth_Chain: "Chain (cs_buf s) r as \<Longrightarrow> cs_depth s r = Some (Inr (length as))"
  by (simp add: cs_depth_def cs_depth_loop_Chain)

fun first_difference :: "nat list \<Rightarrow> nat list \<Rightarrow> int" where
  "first_difference as bs =
     (if as = bs then -1 else int (length (longest_common_prefix as bs)))"

lemma cs_compare_loop_Chain:
  assumes "Chain (cs_buf s) r as" and "Chain (cs_buf s) q bs"
  shows "cs_compare_loop s r q d = Some (Inr
    (if as = bs then -1 else d + int (length (longest_common_prefix as bs))))"
  using assms
proof (induction as arbitrary: r q bs d)
  case Nil
  then have r: "r = STACK_NO_REF" by simp
  show ?case
  proof (cases "q = STACK_NO_REF")
    case True
    with r Nil show ?thesis by (subst cs_compare_loop.simps) simp
  next
    case False
    with Nil obtain b bs' where "bs = b # bs'" by (cases bs) auto
    with r False show ?thesis by (subst cs_compare_loop.simps) auto
  qed
next
  case (Cons a as)
  show ?case
  proof (cases "r = q")
    case True
    with Cons.prems have "a # as = bs" using Chain_unique by blast
    with True show ?thesis by (subst cs_compare_loop.simps) simp
  next
    case rq: False
    show ?thesis
    proof (cases bs)
      case Nil
      with Cons.prems rq show ?thesis by (subst cs_compare_loop.simps) simp
    next
      case (Cons b bs')
      let ?pr = "unat (node_parent (cs_buf s ! r))" and ?pq = "unat (node_parent (cs_buf s ! q))"
      have "cs_compare_loop s ?pr ?pq (d + 1) = Some (Inr
          (if as = bs' then -1 else d + 1 + int (length (longest_common_prefix as bs'))))"
        using Cons.IH [of ?pr ?pq bs'] Cons.prems Cons by simp
      with Cons.prems Cons rq show ?thesis
        by (subst cs_compare_loop.simps) (auto simp: cs_parent_node cs_address_node)
    qed
  qed
qed

lemma cs_compare_Chain:
  assumes "Chain (cs_buf s) r as" and "Chain (cs_buf s) q bs"
  shows "cs_compare s r q = Some (Inr (first_difference as bs))"
  using cs_compare_loop_Chain [OF assms, of 0] by (simp add: cs_compare_def)

section \<open>Invariant and refinement\<close>

text \<open>
  Every node of a well-formed call stack ends in the unknown frame (address 0), and the buffer
  stays small enough for node numbers to be distinct from \<^verbatim>\<open>STACK_NO_REF\<close>.
\<close>

definition cs_size_ok :: "nat \<Rightarrow> bool" where
  "cs_size_ok n \<longleftrightarrow> n \<in> {32, 64, 128, 256, 512, 1024, 2048}"

definition cs_inv :: "call_stack \<Rightarrow> bool" where
  "cs_inv s \<longleftrightarrow> cs_curr s < length (cs_buf s) \<and> length (cs_buf s) \<le> cs_size s \<and>
     cs_size_ok (cs_size s) \<and> (\<forall>r < length (cs_buf s). \<exists>as. Chain (cs_buf s) r (as @ [0]))"

definition cs_frames :: "call_stack \<Rightarrow> nat list \<Rightarrow> bool" where
  "cs_frames s fs \<longleftrightarrow> Chain (cs_buf s) (cs_curr s) (fs @ [0])"

lemma cs_frames_ex: "cs_inv s \<Longrightarrow> \<exists>fs. cs_frames s fs"
  by (auto simp: cs_inv_def cs_frames_def)

lemma cs_size_ok_le: "cs_size_ok n \<Longrightarrow> n \<le> 2048"
  by (auto simp: cs_size_ok_def)

lemma cs_inv_chain: "cs_inv s \<Longrightarrow> r < length (cs_buf s) \<Longrightarrow> \<exists>as. Chain (cs_buf s) r (as @ [0])"
  by (simp add: cs_inv_def)

lemma cs_inv_small: "cs_inv s \<Longrightarrow> length (cs_buf s) \<le> 2048"
  by (auto simp: cs_inv_def dest!: cs_size_ok_le)

lemma cs_createNode_Inr:
  assumes "cs_createNode s p a = Inr (n, s')"
  shows "n = length (cs_buf s)" "cs_curr s' = cs_curr s"
    "cs_buf s' = cs_buf s @ [\<lparr>node_parent = of_nat p, node_return_addr = of_nat a\<rparr>]"
    "length (cs_buf s) \<le> cs_size s \<Longrightarrow> cs_size_ok (cs_size s) \<Longrightarrow>
      length (cs_buf s') \<le> cs_size s' \<and> cs_size_ok (cs_size s')"
  using assms
  by (auto simp: cs_createNode_def cs_growBuffer_def cs_size_ok_def result Let_def split: if_splits)

lemma cs_createNode_ok:
  "length (cs_buf s) < 2048 \<Longrightarrow> length (cs_buf s) \<le> cs_size s \<Longrightarrow>
     cs_size_ok (cs_size s) \<Longrightarrow> \<exists>n s'. cs_createNode s p a = Inr (n, s')"
  by (auto simp: cs_createNode_def cs_growBuffer_def cs_size_ok_def Let_def)

lemma unat_small_u2: "n < 65536 \<Longrightarrow> unat (of_nat n :: u2) = n"
  by (rule unat_of_nat_small) simp

lemma cs_inv_reset: "cs_reset = Inr s \<Longrightarrow> cs_inv s \<and> cs_frames s [] \<and> length (cs_buf s) = 1"
  by (auto simp: cs_reset_def cs_createNode_def cs_growBuffer_def cs_inv_def cs_frames_def
      cs_size_ok_def STACK_NO_REF_def intro: exI [of _ "[]"])

lemma node_eqI: "n\<lparr>node_return_addr := a, node_parent := p\<rparr> =
    \<lparr>node_parent = p, node_return_addr = a\<rparr>"
  by (cases n) simp

lemma of_nat_u2_fixed: "unat (of_nat a :: u2) = a \<Longrightarrow> a < 65536"
proof -
  have "unat (of_nat a :: u2) < 2 ^ LENGTH(16)" by (rule unsigned_less)
  then show "unat (of_nat a :: u2) = a \<Longrightarrow> a < 65536" by simp
qed

lemma cs_reset_ok: "\<exists>s. cs_reset = Inr s"
  by (simp add: cs_reset_def cs_createNode_def cs_growBuffer_def)

lemma cs_pushFrame_Inr:
  assumes inv: "cs_inv s" and fs: "cs_frames s fs" and a: "a < 65536"
    and push: "cs_pushFrame s a = Inr s'"
  shows "cs_inv s' \<and> cs_frames s' (a # fs) \<and> length (cs_buf s') = Suc (length (cs_buf s))"
proof -
  from push obtain n s1 where c: "cs_createNode s (cs_curr s) a = Inr (n, s1)"
    and s': "s' = s1\<lparr>cs_curr := n\<rparr>"
    by (auto simp: cs_pushFrame_def result)
  note cn = cs_createNode_Inr [OF c]
  let ?node = "\<lparr>node_parent = of_nat (cs_curr s), node_return_addr = of_nat a :: u2\<rparr>"
  have small: "length (cs_buf s) < 65535" "cs_curr s < length (cs_buf s)"
    using inv cs_inv_small [OF inv] by (auto simp: cs_inv_def)
  have new: "Chain (cs_buf s @ [?node]) (length (cs_buf s)) (a # fs @ [0])"
    using small a fs Chain_append [of "cs_buf s" "cs_curr s" "fs @ [0]" "[?node]"]
    by (simp add: unat_small_u2 STACK_NO_REF_def cs_frames_def)
  have "\<exists>as. Chain (cs_buf s @ [?node]) r (as @ [0])" if "r < Suc (length (cs_buf s))" for r
  proof (cases "r = length (cs_buf s)")
    case True
    with new show ?thesis by (metis append_Cons)
  next
    case False
    with that obtain as where "Chain (cs_buf s) r (as @ [0])"
      using cs_inv_chain [OF inv, of r] by auto
    then show ?thesis using Chain_append by blast
  qed
  with new s' cn inv show ?thesis by (auto simp: cs_inv_def cs_frames_def)
qed

text \<open>
  Discovering a frame: the last node gets an address and a fresh last node as its parent.  The
  chains that end in it grow by one element, all others stay.
\<close>

lemma Chain_extend:
  assumes "Chain buf r (as @ [0])" and "c < length buf" and "length buf < 65535" and "a < 65536"
    and "unat (node_parent (buf ! c)) = STACK_NO_REF"
    and "buf' = buf[c := \<lparr>node_parent = of_nat (length buf), node_return_addr = of_nat a\<rparr>] @
      [\<lparr>node_parent = of_nat STACK_NO_REF, node_return_addr = of_nat 0\<rparr>]"
  shows "\<exists>as'. Chain buf' r (as' @ [0])"
proof -
  have last: "Chain buf' (length buf) [0]"
    using assms(3,6) by (simp add: STACK_NO_REF_def nth_append)
  have c: "Chain buf' c [a, 0]"
    using assms(2-4,6) last by (simp add: nth_append unat_small_u2 STACK_NO_REF_def)
  from assms(1) show ?thesis
  proof (induction as arbitrary: r)
    case Nil
    then show ?case
      using c assms(6) by (cases "r = c") (auto simp: nth_append intro: exI [of _ "[]"] exI [of _ "[a]"])
  next
    case (Cons x xs)
    then obtain as' where "Chain buf' (unat (node_parent (buf ! r))) (as' @ [0])" by auto
    then have "r \<noteq> c \<Longrightarrow> Chain buf' r ((x # as') @ [0])"
      using Cons.prems assms(6) by (simp add: nth_append)
    with c show ?case by (metis append_Cons append_Nil)
  qed
qed

lemma cs_returnTo_known:
  assumes inv: "cs_inv s" and fs: "cs_frames s (f # fs)" and ret: "cs_returnTo s a = Inr s'"
  shows "a = f \<and> s' = s\<lparr>cs_curr := unat (node_parent (cs_buf s ! cs_curr s))\<rparr> \<and>
    cs_inv s' \<and> cs_frames s' fs"
proof -
  let ?p = "unat (node_parent (cs_buf s ! cs_curr s))"
  have p: "Chain (cs_buf s) ?p (fs @ [0])" and c: "cs_curr s < length (cs_buf s)"
    and f: "unat (node_return_addr (cs_buf s ! cs_curr s)) = f"
    using fs by (auto simp: cs_frames_def)
  from p have "?p \<noteq> STACK_NO_REF" and "?p < length (cs_buf s)" by (cases fs, auto)+
  with ret c f p inv show ?thesis
    by (auto simp: cs_returnTo_def cs_parent_node cs_address_node result cs_inv_def cs_frames_def)
qed

lemma cs_returnTo_unknown:
  assumes inv: "cs_inv s" and fs: "cs_frames s []" and ret: "cs_returnTo s a = Inr s'"
  shows "cs_inv s' \<and> cs_frames s' [] \<and> length (cs_buf s') = Suc (length (cs_buf s))"
proof -
  let ?c = "cs_curr s" and ?n = "length (cs_buf s)"
  let ?node = "(cs_buf s ! ?c)\<lparr>node_return_addr := of_nat a\<rparr>"
  have c: "?c < ?n" and par: "unat (node_parent (cs_buf s ! ?c)) = STACK_NO_REF"
    using fs by (auto simp: cs_frames_def)
  define s1 where "s1 = s\<lparr>cs_buf := (cs_buf s)[?c := ?node]\<rparr>"
  from ret c par obtain n s2 where s2: "cs_createNode s1 STACK_NO_REF 0 = Inr (n, s2)"
    and s': "res_bind (cs_setParent s2 (cs_curr s2) n) (\<lambda>s. res_bind (cs_address s (cs_curr s)) (\<lambda>x.
      res_bind (lc_assert (x = a)) (\<lambda>_. res_bind (cs_parent s (cs_curr s)) (\<lambda>p. Inr (s\<lparr>cs_curr := p\<rparr>)))))
      = Inr s'"
    by (auto simp: cs_returnTo_def cs_parent_node cs_setAddress_def result lc_assert_def s1_def
        res_bind_assoc)
  note cn = cs_createNode_Inr [OF s2]
  have small: "?n \<le> 2048" "?n \<le> cs_size s" "cs_size_ok (cs_size s)"
    using inv cs_inv_small [OF inv] by (auto simp: cs_inv_def)
  let ?buf' = "(cs_buf s)[?c := \<lparr>node_parent = of_nat ?n, node_return_addr = of_nat a\<rparr>] @
      [\<lparr>node_parent = of_nat STACK_NO_REF, node_return_addr = of_nat 0\<rparr>]"
  have buf: "cs_buf s' = ?buf'" and cur: "cs_curr s' = ?n" and a: "a < 65536"
    and sz: "cs_size s' = cs_size s2"
    using s' cn(1-3) c small
    by (auto simp: cs_setParent_def cs_parent_node cs_address_node result s1_def nth_append
        list_update_append unat_small_u2 node_eqI dest: of_nat_u2_fixed)
  have "\<exists>as. Chain ?buf' r (as @ [0])" if "r < Suc ?n" for r
  proof (cases "r = ?n")
    case True
    then show ?thesis
      using small by (intro exI [of _ "[]"]) (simp add: STACK_NO_REF_def nth_append)
  next
    case False
    with that obtain as where "Chain (cs_buf s) r (as @ [0])"
      using cs_inv_chain [OF inv, of r] by auto
    then show ?thesis using c small a par by (intro Chain_extend [where c = ?c]) simp_all
  qed
  then show ?thesis
    using cn(4) small s1_def buf cur sz
    by (auto simp: cs_inv_def cs_frames_def STACK_NO_REF_def nth_append cn)
qed

lemma cs_returnTo_ok:
  assumes inv: "cs_inv s" and len: "length (cs_buf s) < 2048" and a: "a < 65536"
    and fs: "cs_frames s [] \<or> (\<exists>fs. cs_frames s (a # fs))"
  shows "\<exists>s'. cs_returnTo s a = Inr s'"
  using fs
proof
  assume "\<exists>fs. cs_frames s (a # fs)"
  then obtain fs where fs: "cs_frames s (a # fs)" ..
  then have "Chain (cs_buf s) (unat (node_parent (cs_buf s ! cs_curr s))) (fs @ [0])"
    by (simp add: cs_frames_def)
  then have "unat (node_parent (cs_buf s ! cs_curr s)) \<noteq> STACK_NO_REF" by (cases fs) auto
  with fs show ?thesis
    by (auto simp: cs_returnTo_def cs_frames_def cs_parent_node cs_address_node)
next
  assume fs: "cs_frames s []"
  let ?c = "cs_curr s"
  define s1 where
    "s1 = s\<lparr>cs_buf := (cs_buf s)[?c := (cs_buf s ! ?c)\<lparr>node_return_addr := of_nat a\<rparr>]\<rparr>"
  have c: "?c < length (cs_buf s)" "unat (node_parent (cs_buf s ! ?c)) = STACK_NO_REF"
    using fs by (auto simp: cs_frames_def)
  obtain n s2 where s2: "cs_createNode s1 STACK_NO_REF 0 = Inr (n, s2)"
    using cs_createNode_ok [of s1 STACK_NO_REF 0] inv len by (auto simp: s1_def cs_inv_def)
  then show ?thesis
    using c a cs_createNode_Inr [OF s2]
    by (auto simp: cs_returnTo_def cs_parent_node cs_address_node cs_setAddress_def
        cs_setParent_def lc_assert_def s1_def nth_append list_update_append unat_small_u2)
qed

lemma cs_pushFrame_ok:
  "cs_inv s \<Longrightarrow> length (cs_buf s) < 2048 \<Longrightarrow> \<exists>s'. cs_pushFrame s a = Inr s'"
  using cs_createNode_ok [of s "cs_curr s" a] by (auto simp: cs_pushFrame_def cs_inv_def)

text \<open>
  The specification: a recording is a sequence of calls and returns, and the known part of the
  stack is the list of the return addresses pushed and not yet returned to.  A return below the
  start of the trace leaves the known part empty; a return to any other address than the one on
  top does not occur.
\<close>

datatype cs_event = CallTo nat | ReturnTo nat

fun event_addr :: "cs_event \<Rightarrow> nat" where
  "event_addr (CallTo a) = a"
| "event_addr (ReturnTo a) = a"

fun cs_step :: "call_stack \<Rightarrow> cs_event \<Rightarrow> call_stack result" where
  "cs_step s (CallTo a) = cs_pushFrame s a"
| "cs_step s (ReturnTo a) = cs_returnTo s a"

fun cs_run :: "call_stack \<Rightarrow> cs_event list \<Rightarrow> call_stack result" where
  "cs_run s [] = Inr s"
| "cs_run s (e # es) = res_bind (cs_step s e) (\<lambda>s. cs_run s es)"

fun frames_step :: "nat list \<Rightarrow> cs_event \<Rightarrow> nat list option" where
  "frames_step fs (CallTo a) = Some (a # fs)"
| "frames_step [] (ReturnTo a) = Some []"
| "frames_step (f # fs) (ReturnTo a) = (if a = f then Some fs else None)"

fun frames_run :: "nat list \<Rightarrow> cs_event list \<Rightarrow> nat list option" where
  "frames_run fs [] = Some fs"
| "frames_run fs (e # es) = Option.bind (frames_step fs e) (\<lambda>fs. frames_run fs es)"

lemma cs_step_refines:
  assumes "cs_inv s" and "cs_frames s fs" and "event_addr e < 65536" and "cs_step s e = Inr s'"
  shows "cs_inv s' \<and> length (cs_buf s') \<le> Suc (length (cs_buf s)) \<and>
    (\<exists>fs'. frames_step fs e = Some fs' \<and> cs_frames s' fs')"
proof (cases e)
  case (CallTo a)
  with assms cs_pushFrame_Inr [of s fs a s'] show ?thesis by simp
next
  case (ReturnTo a)
  show ?thesis
  proof (cases fs)
    case Nil
    with assms ReturnTo cs_returnTo_unknown [of s a s'] show ?thesis by simp
  next
    case (Cons f fs')
    with assms ReturnTo cs_returnTo_known [of s f fs' a s'] show ?thesis by auto
  qed
qed

lemma cs_step_complete:
  assumes "cs_inv s" and "cs_frames s fs" and "event_addr e < 65536"
    and "frames_step fs e = Some fs'" and "length (cs_buf s) < 2048"
  shows "\<exists>s'. cs_step s e = Inr s'"
proof (cases e)
  case (CallTo a)
  with assms show ?thesis by (simp add: cs_pushFrame_ok)
next
  case (ReturnTo a)
  with assms have "cs_frames s [] \<or> (\<exists>fs. cs_frames s (a # fs))"
    by (cases fs) (auto split: if_splits)
  with assms ReturnTo show ?thesis by (auto intro: cs_returnTo_ok)
qed

lemma cs_run_refines:
  assumes "cs_inv s" and "cs_frames s fs" and "\<forall>e \<in> set es. event_addr e < 65536"
  shows "(\<forall>s'. cs_run s es = Inr s' \<longrightarrow>
        cs_inv s' \<and> (\<exists>fs'. frames_run fs es = Some fs' \<and> cs_frames s' fs'))
    \<and> (frames_run fs es \<noteq> None \<and> length (cs_buf s) + length es \<le> 2048 \<longrightarrow>
        (\<exists>s'. cs_run s es = Inr s'))"
  using assms
proof (induction es arbitrary: s fs)
  case Nil
  then show ?case by auto
next
  case (Cons e es)
  have e: "event_addr e < 65536" using Cons.prems by simp
  show ?case
  proof (cases "cs_step s e")
    case (Inl err)
    then have "frames_step fs e = None \<or> \<not> length (cs_buf s) < 2048"
      using cs_step_complete [OF Cons.prems(1,2) e] by (cases "frames_step fs e") auto
    with Inl show ?thesis by auto
  next
    case (Inr s1)
    with cs_step_refines [OF Cons.prems(1,2) e] obtain fs1 where
      "cs_inv s1" "frames_step fs e = Some fs1" "cs_frames s1 fs1"
      "length (cs_buf s1) \<le> Suc (length (cs_buf s))" by blast
    with Inr Cons.IH [of s1 fs1] Cons.prems(3) show ?thesis by auto
  qed
qed

text \<open>
  \<^bold>\<open>C18.\<close>  The call stack refines its specification: after any sequence of recorded calls and
  returns (addresses are 16-bit references) the buffer is well formed, and the current node
  denotes the return addresses that the calls pushed and no return has consumed, above one
  unknown frame.  Conversely every sequence whose returns go to the frame on top is processed
  without an assertion failure or exhaustion of the buffer, as long as it has fewer than 2048
  events.
\<close>

theorem call_stack_refines_frames:
  assumes "cs_reset = Inr s0" and "\<forall>e \<in> set es. event_addr e < 65536"
  shows "(\<forall>s. cs_run s0 es = Inr s \<longrightarrow>
        cs_inv s \<and> (\<exists>fs. frames_run [] es = Some fs \<and> cs_frames s fs))
    \<and> (frames_run [] es \<noteq> None \<and> length es < 2048 \<longrightarrow> (\<exists>s. cs_run s0 es = Inr s))"
  using cs_run_refines [of s0 "[]" es] cs_inv_reset [OF assms(1)] assms(2) by auto

theorem call_stack_refines_frames_witness:
  "\<exists>s0 s. cs_reset = Inr s0 \<and> cs_run s0 [CallTo 7, CallTo 9, ReturnTo 9, ReturnTo 7, ReturnTo 4] = Inr s
     \<and> cs_frames s []"
proof -
  obtain s0 where s0: "cs_reset = Inr s0" using cs_reset_ok by blast
  let ?es = "[CallTo 7, CallTo 9, ReturnTo 9, ReturnTo 7, ReturnTo 4]"
  have "(\<forall>s. cs_run s0 ?es = Inr s \<longrightarrow>
        cs_inv s \<and> (\<exists>fs. frames_run [] ?es = Some fs \<and> cs_frames s fs))
    \<and> (frames_run [] ?es \<noteq> None \<and> length ?es < 2048 \<longrightarrow> (\<exists>s. cs_run s0 ?es = Inr s))"
    by (rule call_stack_refines_frames [OF s0]) simp
  with s0 show ?thesis by auto
qed

section \<open>False loop filtering\<close>

text \<open>
  How many frames the filter compares: the frames of the candidate and of the current stack above
  the lowest point the stack has reached since the candidate.  When the current stack is below
  that point (which no entry of the buffer recorded), the unsigned subtraction wraps around and
  only the candidate counts.
\<close>

definition compared_frames :: "nat \<Rightarrow> nat \<Rightarrow> nat \<Rightarrow> nat" where
  "compared_frames k1 k2 m = (if k2 < m then k1 - m else min (k1 - m) (k2 - m))"

lemma u4_diff:
  assumes "m < 2 ^ 32" and "k < 2 ^ 32"
  shows "unat (of_nat k - of_nat m :: u4) = (if m \<le> k then k - m else k + 2 ^ 32 - m)"
proof -
  have u: "unat (of_nat n :: u4) = n" if "n < 2 ^ 32" for n
    using that by (intro unat_of_nat_small) simp
  show ?thesis
    by (simp add: unat_sub_if' word_le_nat_alt u [OF assms(1)] u [OF assms(2)])
qed

lemma common_depth_eq:
  assumes "m \<le> k1" and "k1 < 2 ^ 31" and "k2 < 2 ^ 31"
  shows "common_depth k1 k2 m = int (compared_frames k1 k2 m)"
proof -
  let ?w1 = "of_nat k1 - of_nat m :: u4" and ?w2 = "of_nat k2 - of_nat m :: u4"
  have u1: "unat ?w1 = k1 - m" using assms by (subst u4_diff) auto
  show ?thesis
  proof (cases "k2 < m")
    case True
    then have "unat ?w2 = k2 + 2 ^ 32 - m" using assms by (subst u4_diff) auto
    then have "?w1 < ?w2" using u1 True assms by (simp add: word_less_nat_alt)
    then show ?thesis
      using True u1 assms by (simp add: common_depth_def compared_frames_def Let_def sint_u4_small)
  next
    case False
    then have "unat ?w2 = k2 - m" using assms by (subst u4_diff) auto
    with False u1 assms show ?thesis
      by (auto simp: common_depth_def compared_frames_def word_less_nat_alt Let_def sint_u4_small)
  qed
qed

definition loop_candidate :: "(u8 \<times> nat list) list \<Rightarrow> nat list \<Rightarrow> u8 \<Rightarrow> nat \<Rightarrow> bool" where
  "loop_candidate es cur pc j \<longleftrightarrow>
     fst (es ! j) = pc \<and>
     (let st = snd (es ! j); m = Min (length ` snd ` set (drop j es))
      in st = cur \<or>
         compared_frames (length st) (length cur) m \<le> length (longest_common_prefix st cur))"

text \<open>The interface of the call stack that the filter relies on, and the filter's correctness.\<close>

locale call_stack_view =
  fixes view :: "'s \<Rightarrow> nat \<Rightarrow> nat list \<Rightarrow> bool"
    and compare :: "'s \<Rightarrow> nat \<Rightarrow> nat \<Rightarrow> int result option"
    and depth :: "'s \<Rightarrow> nat \<Rightarrow> nat result option"
  assumes compare_view:
      "view s r as \<Longrightarrow> view s q bs \<Longrightarrow> compare s r q = Some (Inr (first_difference as bs))"
    and depth_view: "view s r as \<Longrightarrow> depth s r = Some (Inr (length as))"
begin

definition entries_view :: "'s \<Rightarrow> btb_entry list \<Rightarrow> (u8 \<times> nat list) list \<Rightarrow> bool" where
  "entries_view s es vs \<longleftrightarrow>
     list_all2 (\<lambda>e v. entry_addr e = fst v \<and> view s (entry_stack e) (snd v)) es vs"

lemma min_depth_view:
  "entries_view s es vs \<Longrightarrow>
     min_depth depth s es m = Some (Inr (Min (insert m (length ` snd ` set vs))))"
proof (induction es arbitrary: vs m)
  case Nil
  then show ?case by (simp add: entries_view_def)
next
  case (Cons e es)
  then obtain v vs' where vs: "vs = v # vs'" "view s (entry_stack e) (snd v)"
    "entries_view s es vs'"
    by (auto simp: entries_view_def list_all2_Cons1)
  let ?d = "length (snd v)" and ?T = "length ` snd ` set vs'"
  have "Min (insert (if ?d < m then ?d else m) ?T) = Min (insert m (insert ?d ?T))"
    by (cases "?T = {}") (auto simp: min_def)
  with Cons.IH [OF vs(3)] vs show ?case by (simp add: depth_view)
qed

lemma isTrueLoop_from_view:
  assumes "entries_view s es vs" and "view s cur cs" and "length cs < 2 ^ 31"
    and "\<forall>v \<in> set vs. length (snd v) < 2 ^ 31"
  shows "isTrueLoop_from compare depth s cur pc es i =
    Some (Inr (case find (loop_candidate vs cs pc) [0..<length vs] of
                 None \<Rightarrow> -1 | Some j \<Rightarrow> i + int j))"
  using assms
proof (induction es arbitrary: vs i)
  case Nil
  then show ?case by (simp add: entries_view_def)
next
  case (Cons e es)
  then obtain v vs' where vs: "vs = v # vs'" "entry_addr e = fst v" "view s (entry_stack e) (snd v)"
    "entries_view s es vs'"
    by (auto simp: entries_view_def list_all2_Cons1)
  let ?k = "length (snd v)" and ?m = "Min (length ` snd ` set (v # vs'))"
  have IH: "isTrueLoop_from compare depth s cur pc es (i + 1) =
    Some (Inr (case find (loop_candidate vs' cs pc) [0..<length vs'] of
                 None \<Rightarrow> -1 | Some j \<Rightarrow> i + 1 + int j))"
    using Cons.IH [OF vs(4)] Cons.prems vs(1) by simp
  have cand: "loop_candidate vs cs pc (Suc j) = loop_candidate vs' cs pc j" for j
    by (simp add: loop_candidate_def vs(1))
  have shift: "find P [Suc a..<Suc b] = map_option Suc (find (\<lambda>j. P (Suc j)) [a..<b])" for P a b
    by (induction "b - a" arbitrary: a) (auto simp: upt_rec)
  have idx: "find (loop_candidate vs cs pc) [0..<length vs] =
      (if loop_candidate vs cs pc 0 then Some 0
       else map_option Suc (find (loop_candidate vs' cs pc) [0..<length vs']))"
    using shift [of "loop_candidate vs cs pc" 0 "length vs'"] cand
    by (simp add: vs(1) upt_conv_Cons del: upt_Suc)
  have m: "min_depth depth s (e # es) ?k = Some (Inr ?m)"
    using min_depth_view [OF Cons.prems(1), of ?k] vs(1) by simp
  have "?m \<le> ?k" by simp
  then have cd: "common_depth ?k (length cs) ?m = int (compared_frames ?k (length cs) ?m)"
    using Cons.prems vs(1) by (intro common_depth_eq) auto
  have zero: "loop_candidate vs cs pc 0 \<longleftrightarrow> fst v = pc \<and> (snd v = cs \<or>
      compared_frames ?k (length cs) ?m \<le> length (longest_common_prefix (snd v) cs))"
    by (simp add: loop_candidate_def vs(1) Let_def)
  have "isTrueLoop_from compare depth s cur pc (e # es) i =
      (if loop_candidate vs cs pc 0 then Some (Inr i)
       else isTrueLoop_from compare depth s cur pc es (i + 1))"
    using vs(2) compare_view [OF vs(3) Cons.prems(2)] depth_view [OF vs(3)]
      depth_view [OF Cons.prems(2)] m cd
    by (simp add: zero del: min_depth.simps)
  then show ?case
    unfolding idx IH by (auto split: option.splits)
qed

end

interpretation cs: call_stack_view "\<lambda>s. Chain (cs_buf s)" cs_compare cs_depth
  by unfold_locales (simp_all add: cs_compare_Chain cs_depth_Chain)

text \<open>
  \<^bold>\<open>C27.\<close>  The false loop filter is exact: for a branch target buffer whose entries and current
  node denote stacks of return addresses, \<^verbatim>\<open>isTrueLoop\<close> always returns, with the index of the
  first entry that has the branch's target and whose stack agrees with the current one in all
  frames that are compared, and with -1 exactly when there is none.
\<close>

theorem isTrueLoop_first_candidate:
  assumes "list_all2 (\<lambda>e v. entry_addr e = fst v \<and> Chain (cs_buf s) (entry_stack e) (snd v))
      (btb_buf b) vs"
    and "Chain (cs_buf s) (cs_curr s) cs" and "length cs < 2 ^ 31"
    and "\<forall>v \<in> set vs. length (snd v) < 2 ^ 31"
  shows "btb_isTrueLoop b s pc =
    Some (Inr (case find (loop_candidate vs cs pc) [0..<length vs] of
                 None \<Rightarrow> -1 | Some j \<Rightarrow> int j))"
  using cs.isTrueLoop_from_view [of s "btb_buf b" vs "cs_curr s" cs pc 0] assms
  by (simp add: btb_isTrueLoop_def cs.entries_view_def cong: option.case_cong)

theorem isTrueLoop_first_candidate_witness:
  "btb_isTrueLoop
     \<lparr>btb_size = 16, btb_buf = [\<lparr>entry_addr = 0x100, entry_stack = 1\<rparr>,
        \<lparr>entry_addr = 0x200, entry_stack = 0\<rparr>]\<rparr>
     \<lparr>cs_curr = 0, cs_size = 32, cs_buf = [\<lparr>node_parent = 0xffff, node_return_addr = 0\<rparr>,
        \<lparr>node_parent = 0, node_return_addr = 7\<rparr>]\<rparr> 0x200 = Some (Inr 1)"
  using isTrueLoop_first_candidate [of
      "\<lparr>cs_curr = 0, cs_size = 32, cs_buf = [\<lparr>node_parent = 0xffff, node_return_addr = 0\<rparr>,
        \<lparr>node_parent = 0, node_return_addr = 7\<rparr>]\<rparr>"
      "\<lparr>btb_size = 16, btb_buf = [\<lparr>entry_addr = 0x100, entry_stack = 1\<rparr>,
        \<lparr>entry_addr = 0x200, entry_stack = 0\<rparr>]\<rparr>"
      "[(0x100, [7, 0]), (0x200, [0])]" "[0]" "0x200"]
  by (simp add: STACK_NO_REF_def loop_candidate_def upt_rec)

section \<open>Counters of dominated targets\<close>

lemma resetDominated_get:
  assumes "hc_wf h"
  shows "hc_get (resetDominated es tgt h) pc =
    (if \<exists>i < length es. hotCountHash (entry_addr (es ! i)) = hotCountHash pc \<and>
          entry_addr (es ! i) < (if i = 0 then tgt else entry_addr (es ! (i - 1)))
     then threshold h else hc_get h pc)"
  using assms
proof (induction es arbitrary: tgt h)
  case Nil
  then show ?case by simp
next
  case (Cons e es)
  let ?h = "if entry_addr e < tgt then hc_reset h (entry_addr e) else h"
  have wf: "hc_wf ?h" and th: "threshold ?h = threshold h"
    using Cons.prems by (simp_all add: hc_wf_def hc_reset_def)
  have ex: "(\<exists>i < length (e # es). P i) \<longleftrightarrow> P 0 \<or> (\<exists>i < length es. P (Suc i))" for P
    by (auto simp: less_Suc_eq_0_disj)
  have prev: "(if i = 0 then entry_addr e else entry_addr (es ! (i - 1))) = entry_addr ((e # es) ! i)"
    for i by (cases i) auto
  show ?case
    unfolding ex using Cons.IH [OF wf, of "entry_addr e"] th Cons.prems
    by (auto simp: hc_get_reset prev)
qed

lemma btb_resetDominatedCounters_forward:
  assumes "hc_wf h" and "\<forall>i. Suc i < length (btb_buf b) \<longrightarrow>
      entry_addr (btb_buf b ! i) \<le> entry_addr (btb_buf b ! Suc i)"
  shows "hc_get (btb_resetDominatedCounters b h) pc = hc_get h pc"
proof -
  have "\<not> entry_addr (btb_buf b ! i) < (if i = 0 then 0 else entry_addr (btb_buf b ! (i - 1)))"
    if "i < length (btb_buf b)" for i
    using that assms(2) by (cases i) (auto simp: not_less)
  then have "\<not> (\<exists>i < length (btb_buf b). hotCountHash (entry_addr (btb_buf b ! i)) = hotCountHash pc \<and>
      entry_addr (btb_buf b ! i) < (if i = 0 then 0 else entry_addr (btb_buf b ! (i - 1))))"
    by blast
  then show ?thesis
    unfolding btb_resetDominatedCounters_def resetDominated_get [OF assms(1)] by (simp only: if_False)
qed

end
