(* ===== verification/AbstractStack.thy ===== *)
theory AbstractStack
  imports Utils
begin

text \<open>
  The recorder's view of the stack (\<^verbatim>\<open>TRef\<close>, \<^verbatim>\<open>AbstractStack\<close>) and the snapshots taken of it
  (\<^verbatim>\<open>Snapshot\<close>, \<^verbatim>\<open>SnapshotData\<close>) of \<^verbatim>\<open>src/vm/ir.hh\<close> and \<^verbatim>\<open>src/vm/ir.cc\<close>.

  The abstract stack maps stack slots around the base pointer at the start of the trace to
  references into the IR buffer; slot 250 of the array is the base at trace entry.  A snapshot
  is the list of the written slots with their references, packed into a shared array.
\<close>

section \<open>Tagged references\<close>

definition REF_BIAS :: nat where "REF_BIAS = 0x8000"
definition REF_BASE :: nat where "REF_BASE = REF_BIAS"
definition REF_FIRST :: nat where "REF_FIRST = REF_BIAS + 1"
definition REF_IND :: nat where "REF_IND = REF_BIAS - 1"
definition REF_DROP :: nat where "REF_DROP = 0xffff"

definition irref_islit :: "nat \<Rightarrow> bool" where
  "irref_islit ref \<longleftrightarrow> ref < REF_BIAS"

type_synonym tref = u4

definition kWritten :: u4 where "kWritten = 0x10000"

definition tref_mk :: "nat \<Rightarrow> u1 \<Rightarrow> tref" where
  "tref_mk ref ty = ucast (of_nat ref :: u2) + push_bit 24 (ucast ty)"

definition tref_none :: tref where "tref_none = 0"

definition tref_ref :: "tref \<Rightarrow> nat" where
  "tref_ref tr = unat (ucast tr :: u2)"

definition tref_t :: "tref \<Rightarrow> u1" where
  "tref_t tr = ucast (drop_bit 24 tr)"

definition tref_isNone :: "tref \<Rightarrow> bool" where
  "tref_isNone tr \<longleftrightarrow> tr = 0"

definition tref_isLiteral :: "tref \<Rightarrow> bool" where
  "tref_isLiteral tr \<longleftrightarrow> tref_ref tr < REF_BASE"

definition tref_markWritten :: "tref \<Rightarrow> tref" where
  "tref_markWritten tr = tr OR kWritten"

definition tref_isWritten :: "tref \<Rightarrow> bool" where
  "tref_isWritten tr \<longleftrightarrow> tr AND kWritten \<noteq> 0"

section \<open>AbstractStack\<close>

definition kSlots :: nat where "kSlots = 500"
definition kInitialBase :: nat where "kInitialBase = 250"

record abstract_stack =
  as_slots :: "tref list"
  as_base :: nat
  as_top :: nat
  as_low :: nat
  as_high :: nat
  as_origBase :: u8

text \<open>Differences of \<^verbatim>\<open>Word *\<close> pointers, and their sum with an \<^verbatim>\<open>unsigned int\<close>.\<close>

definition ptr_diff :: "u8 \<Rightarrow> u8 \<Rightarrow> int" where
  "ptr_diff p q = sint (p - q) div 8"

definition uint_add :: "nat \<Rightarrow> int \<Rightarrow> nat" where
  "uint_add n d = nat ((int n + d) mod 2 ^ 32)"

definition as_reset :: "u8 \<Rightarrow> u8 \<Rightarrow> abstract_stack result" where
  "as_reset base tp =
     res_bind (lc_assert (base \<le> tp)) (\<lambda>_.
       let t = uint_add kInitialBase (ptr_diff tp base)
       in res_bind (lc_assert (t < kSlots)) (\<lambda>_.
          Inr \<lparr>as_slots = replicate kSlots tref_none, as_base = kInitialBase, as_top = t,
               as_low = kInitialBase, as_high = t, as_origBase = base\<rparr>))"

definition as_inRange :: "abstract_stack \<Rightarrow> int \<Rightarrow> bool" where
  "as_inRange s n \<longleftrightarrow> int (as_base s) + n \<ge> 0 \<and> int (as_base s) + n < int kSlots"

definition as_get :: "abstract_stack \<Rightarrow> int \<Rightarrow> tref result" where
  "as_get s n =
     res_bind (lc_assert (as_inRange s n)) (\<lambda>_. Inr (as_slots s ! nat (int (as_base s) + n)))"

definition as_clear :: "abstract_stack \<Rightarrow> int \<Rightarrow> abstract_stack result" where
  "as_clear s n =
     res_bind (lc_assert (as_inRange s n)) (\<lambda>_.
       Inr (s\<lparr>as_slots := (as_slots s)[nat (int (as_base s) + n) := tref_none]\<rparr>))"

definition as_set :: "abstract_stack \<Rightarrow> int \<Rightarrow> tref \<Rightarrow> abstract_stack result" where
  "as_set s n val =
     res_bind (lc_assert (as_inRange s n)) (\<lambda>_.
       let slot = nat (int (as_base s) + n)
       in Inr (s\<lparr>as_slots := (as_slots s)[slot := val],
                 as_low := (if slot < as_low s then slot else as_low s),
                 as_high := (if slot > as_high s then slot else as_high s)\<rparr>))"

definition as_absolute :: "abstract_stack \<Rightarrow> int \<Rightarrow> int" where
  "as_absolute s n = int (as_base s) + n - int kInitialBase"

definition as_frame :: "abstract_stack \<Rightarrow> u8 \<Rightarrow> u8 \<Rightarrow> bool \<times> abstract_stack" where
  "as_frame s base tp =
     (let new_base = int kInitialBase + ptr_diff base (as_origBase s)
      in if new_base < 3 then (False, s)
         else let b = nat (new_base mod 2 ^ 32);
                  t = uint_add b (ptr_diff tp base);
                  s' = s\<lparr>as_base := b, as_low := min (as_low s) b, as_top := t,
                         as_high := max (as_high s) (uint_add t (-1))\<rparr>
              in (t < kSlots - 4, s'))"

definition as_baseOffset :: "abstract_stack \<Rightarrow> u8 \<Rightarrow> int" where
  "as_baseOffset s p = ptr_diff p (as_origBase s)"

definition as_highestSlot :: "abstract_stack \<Rightarrow> int" where
  "as_highestSlot s = int (as_high s) - int kInitialBase"

section \<open>Snapshots\<close>

record snapshot =
  sn_ref :: u2
  sn_mapofs :: u2
  sn_relbase :: u2
  sn_entries :: u1
  sn_framesize :: u1
  sn_exitCounter :: u2
  sn_steps :: u2
  sn_lastHeapEntry :: u2
  sn_pc :: u8
  sn_mcode :: u8

record snapshot_data =
  sd_data :: "u4 list"
  sd_index :: nat

definition HOT_SIDE_EXIT_THRESHOLD :: nat where "HOT_SIDE_EXIT_THRESHOLD = 7"

definition sd_init :: snapshot_data where
  "sd_init = \<lparr>sd_data = [], sd_index = 0\<rparr>"

definition sd_at :: "snapshot_data \<Rightarrow> nat \<Rightarrow> u4 result" where
  "sd_at sd index =
     (if index < length (sd_data sd) then Inr (sd_data sd ! index) else Inl BadAccess)"

definition sd_slotId :: "snapshot_data \<Rightarrow> nat \<Rightarrow> int result" where
  "sd_slotId sd index = res_bind (sd_at sd index) (\<lambda>w. Inr (sint (signed_drop_bit 16 w)))"

definition sd_slotRef :: "snapshot_data \<Rightarrow> nat \<Rightarrow> nat result" where
  "sd_slotRef sd index = res_bind (sd_at sd index) (\<lambda>w. Inr (unat (ucast w :: u2)))"

definition sn_begin :: "snapshot \<Rightarrow> nat" where
  "sn_begin sn = unat (sn_mapofs sn)"

definition sn_end :: "snapshot \<Rightarrow> nat" where
  "sn_end sn = unat (sn_mapofs sn) + unat (sn_entries sn)"

definition vec_resize :: "nat \<Rightarrow> u4 list \<Rightarrow> u4 list" where
  "vec_resize n xs = take n xs @ replicate (n - length xs) 0"

definition snap_word :: "nat \<Rightarrow> tref \<Rightarrow> u4" where
  "snap_word slot tr =
     push_bit 16 (scast (of_int (int slot - int kInitialBase) :: u2)) OR ucast (ucast tr :: u2)"

text \<open>The loop over the slots from \<^verbatim>\<open>low_\<close> to \<^verbatim>\<open>high_\<close>; it returns the next free offset.\<close>

fun snapshot_loop :: "abstract_stack \<Rightarrow> nat list \<Rightarrow> u4 list \<Rightarrow> nat \<Rightarrow> (u4 list \<times> nat) result" where
  "snapshot_loop s [] data ofs = Inr (data, ofs)"
| "snapshot_loop s (slot # slots) data ofs =
     (if slot < length (as_slots s)
      then let tr = as_slots s ! slot
           in if tref_isWritten tr
              then if ofs < length data
                   then snapshot_loop s slots (data[ofs := snap_word slot tr]) (ofs + 1)
                   else Inl BadAccess
              else snapshot_loop s slots data ofs
      else Inl BadAccess)"

definition as_snapshot ::
  "abstract_stack \<Rightarrow> snapshot \<Rightarrow> snapshot_data \<Rightarrow> nat \<Rightarrow> u8
     \<Rightarrow> (snapshot \<times> snapshot_data) result" where
  "as_snapshot s snap sd ref pc =
     (let ofs = sd_index sd;
          data = vec_resize (ofs + as_high s - as_low s + 1) (sd_data sd)
      in res_bind (snapshot_loop s [as_low s..<Suc (as_high s)] data ofs) (\<lambda>(data', ofs').
         Inr (snap\<lparr>sn_ref := of_nat ref, sn_mapofs := of_nat ofs,
                   sn_relbase := of_int (int (as_base s) - int kInitialBase),
                   sn_entries := of_nat (ofs' - ofs),
                   sn_framesize := of_int (int (as_top s) - int (as_base s)),
                   sn_exitCounter := of_nat HOT_SIDE_EXIT_THRESHOLD,
                   sn_pc := pc, sn_mcode := 0\<rparr>,
              \<lparr>sd_data = data', sd_index = ofs'\<rparr>)))"

text \<open>
  The lookup of a slot by binary search.  The slot of an entry is read as an unsigned value, and
  \<open>mid\<close> is the mean of two indices; the search returns 0 when there is no entry.
\<close>

function slot_search :: "snapshot_data \<Rightarrow> int \<Rightarrow> int \<Rightarrow> int \<Rightarrow> nat result" where
  "slot_search sd n lo hi =
     (if lo \<le> hi
      then let mid = (lo + hi) div 2
           in if mid < 0 then Inl BadAccess
              else case sd_at sd (nat mid) of
                     Inl e \<Rightarrow> Inl e
                   | Inr w \<Rightarrow>
                       let slot = uint (drop_bit 16 w)
                       in if n > slot then slot_search sd n (mid + 1) hi
                          else if n < slot then slot_search sd n lo (mid - 1)
                          else Inr (unat (ucast w :: u2))
      else Inr 0)"
  by pat_completeness auto
termination
  by (relation "measure (\<lambda>(sd, n, lo, hi). nat (hi + 1 - lo))") auto

declare slot_search.simps [simp del]

definition sn_slot :: "snapshot \<Rightarrow> int \<Rightarrow> snapshot_data \<Rightarrow> nat result" where
  "sn_slot sn n sd =
     (let lo = uint (sn_mapofs sn); hi = uint (sn_mapofs sn) + uint (sn_entries sn) - 1
      in res_bind (lc_assert (hi < 1073741823)) (\<lambda>_. slot_search sd n lo hi))"

definition sn_bumpExitCounter :: "snapshot \<Rightarrow> bool \<times> snapshot" where
  "sn_bumpExitCounter sn =
     (let c = sn_exitCounter sn - 1
      in if c = 0 then (True, sn\<lparr>sn_exitCounter := of_nat HOT_SIDE_EXIT_THRESHOLD\<rparr>)
         else (False, sn\<lparr>sn_exitCounter := c\<rparr>))"

section \<open>Well-formed stacks\<close>

definition as_wf :: "abstract_stack \<Rightarrow> bool" where
  "as_wf s \<longleftrightarrow> length (as_slots s) = kSlots \<and> as_low s \<le> as_high s \<and> as_high s < kSlots"

lemma uint_add_nonneg:
  "0 \<le> d \<Longrightarrow> int n + d < 2 ^ 32 \<Longrightarrow> int (uint_add n d) = int n + d"
  by (simp add: uint_add_def)

lemma ptr_diff_bound: "ptr_diff p q < 2 ^ 60"
proof -
  have "sint (p - q) < 2 ^ 63"
    using sint_lt [of "p - q"] by simp
  then show ?thesis
    by (simp add: ptr_diff_def)
qed

lemma as_reset_wf:
  assumes "as_reset base tp = Inr s" and "0 \<le> ptr_diff tp base" and "ptr_diff tp base < 2 ^ 31"
  shows "as_wf s"
proof -
  have "int (uint_add 250 (ptr_diff tp base)) = 250 + ptr_diff tp base"
    using assms(2,3) uint_add_nonneg [of "ptr_diff tp base" 250] by simp
  then show ?thesis
    using assms by (auto simp: as_reset_def as_wf_def Let_def result kSlots_def kInitialBase_def)
qed

lemma as_set_wf: "as_wf s \<Longrightarrow> as_set s n v = Inr s' \<Longrightarrow> as_wf s'"
  by (auto simp: as_set_def as_wf_def as_inRange_def Let_def result)

lemma as_clear_wf: "as_wf s \<Longrightarrow> as_clear s n = Inr s' \<Longrightarrow> as_wf s'"
  by (auto simp: as_clear_def as_wf_def result)

lemma as_frame_wf:
  assumes "as_wf s" and "as_frame s base tp = (True, s')"
    and "0 \<le> ptr_diff tp base" and "ptr_diff tp base < 2 ^ 31"
    and "ptr_diff base (as_origBase s) < 2 ^ 30"
  shows "as_wf s'"
proof -
  define b where "b = nat ((int kInitialBase + ptr_diff base (as_origBase s)) mod 2 ^ 32)"
  have nb: "3 \<le> int kInitialBase + ptr_diff base (as_origBase s)"
    using assms(2) by (auto simp: as_frame_def Let_def split: if_splits)
  have b: "int b = int kInitialBase + ptr_diff base (as_origBase s)"
    using nb assms(5) by (simp add: b_def kInitialBase_def)
  have t: "int (uint_add b (ptr_diff tp base)) = int b + ptr_diff tp base"
    using assms(3,4,5) b by (intro uint_add_nonneg) (auto simp: kInitialBase_def)
  have pred: "uint_add t (-1) = t - 1" if "0 < t" "t < 2 ^ 32" for t
    using that by (simp add: uint_add_def of_nat_diff)
  have "uint_add b (ptr_diff tp base) < kSlots - 4"
    using assms(2) nb by (auto simp: as_frame_def Let_def b_def split: if_splits)
  then have "uint_add (uint_add b (ptr_diff tp base)) (-1) < kSlots"
    using t b nb assms(3) by (subst pred) (auto simp: kSlots_def)
  then show ?thesis
    using assms(1,2) nb unfolding as_frame_def Let_def b_def [symmetric] as_wf_def
    by (auto split: if_splits)
qed

lemma as_get_set:
  assumes "as_wf s" and "as_set s n v = Inr s'" and "as_inRange s m"
  shows "as_get s' m = (if m = n then Inr v else as_get s m)"
  using assms
  by (auto simp: as_set_def as_get_def as_wf_def as_inRange_def Let_def result nth_list_update
      res_bind_lc_assert)

section \<open>Snapshots hold the written slots\<close>

definition snap_entry :: "u4 \<Rightarrow> int \<times> nat" where
  "snap_entry w = (sint (signed_drop_bit 16 w), unat (ucast w :: u2))"

definition snap_map :: "snapshot \<Rightarrow> snapshot_data \<Rightarrow> (int \<times> nat) list" where
  "snap_map sn sd = map (\<lambda>i. snap_entry (sd_data sd ! i)) [sn_begin sn..<sn_end sn]"

definition written_slots :: "abstract_stack \<Rightarrow> (int \<times> nat) list" where
  "written_slots s =
     map (\<lambda>slot. (int slot - int kInitialBase, tref_ref (as_slots s ! slot)))
       (filter (\<lambda>slot. tref_isWritten (as_slots s ! slot)) [as_low s..<Suc (as_high s)])"

lemma snap_entry_snap_word:
  assumes "slot < kSlots"
  shows "snap_entry (snap_word slot tr) = (int slot - int kInitialBase, tref_ref tr)"
proof -
  let ?d = "of_int (int slot - int kInitialBase) :: u2"
  have "signed_drop_bit 16 (push_bit 16 (scast ?d) OR ucast (ucast tr :: u2) :: u4) = scast ?d"
    by (rule bit_word_eqI) (auto simp: bit_simps)
  moreover have "sint (scast ?d :: u4) = sint ?d"
    by (simp add: sint_up_scast is_up)
  moreover have "sint ?d = int slot - int kInitialBase"
    using assms by (simp only: kSlots_def kInitialBase_def sint_sbintrunc') (simp add: signed_take_bit_int_eq_self)
  moreover have "ucast (push_bit 16 (scast ?d) OR ucast (ucast tr :: u2) :: u4) = (ucast tr :: u2)"
    by (rule bit_word_eqI) (auto simp: bit_simps)
  ultimately show ?thesis
    by (simp add: snap_entry_def snap_word_def tref_ref_def)
qed

lemma snapshot_loop_writes:
  assumes "\<And>x. x \<in> set slots \<Longrightarrow> x < length (as_slots s)"
    and "ofs + length (filter (\<lambda>x. tref_isWritten (as_slots s ! x)) slots) \<le> length data"
  shows "snapshot_loop s slots data ofs =
    (let ws = map (\<lambda>x. snap_word x (as_slots s ! x))
                (filter (\<lambda>x. tref_isWritten (as_slots s ! x)) slots)
     in Inr (take ofs data @ ws @ drop (ofs + length ws) data, ofs + length ws))"
  using assms
proof (induction slots arbitrary: data ofs)
  case (Cons x xs)
  show ?case
  proof (cases "tref_isWritten (as_slots s ! x)")
    case True
    with Cons.prems show ?thesis
      by (subst snapshot_loop.simps, subst Let_def)
        (simp add: Cons.IH Let_def take_Suc_conv_app_nth del: snapshot_loop.simps)
  next
    case False
    with Cons show ?thesis by simp
  qed
qed simp

lemma length_vec_resize [simp]: "length (vec_resize n xs) = n"
  by (simp add: vec_resize_def)

lemma take_vec_resize: "m \<le> n \<Longrightarrow> m \<le> length xs \<Longrightarrow> take m (vec_resize n xs) = take m xs"
  by (simp add: vec_resize_def min_def)

lemma as_snapshot_eq:
  assumes wf: "as_wf s" and idx: "sd_index sd \<le> length (sd_data sd)"
    and fits: "sd_index sd < 2 ^ 16" "length (written_slots s) < 2 ^ 8"
  shows "\<exists>sn sd'. as_snapshot s snap sd ref pc = Inr (sn, sd') \<and>
    snap_map sn sd' = written_slots s \<and>
    take (sd_index sd) (sd_data sd') = take (sd_index sd) (sd_data sd) \<and>
    sd_index sd' = sd_index sd + length (written_slots s) \<and>
    sd_index sd' \<le> length (sd_data sd') \<and> sn_end sn \<le> sd_index sd' \<and>
    sn_ref sn = of_nat ref \<and> sn_pc sn = pc \<and>
    sn_relbase sn = of_int (int (as_base s) - int kInitialBase)"
proof -
  let ?sel = "filter (\<lambda>x. tref_isWritten (as_slots s ! x)) [as_low s..<Suc (as_high s)]"
  let ?ws = "map (\<lambda>x. snap_word x (as_slots s ! x)) ?sel"
  let ?data = "vec_resize (sd_index sd + as_high s - as_low s + 1) (sd_data sd)"
  have room: "sd_index sd + length ?sel \<le> length ?data"
    using wf length_filter_le [of "\<lambda>x. tref_isWritten (as_slots s ! x)" "[as_low s..<Suc (as_high s)]"]
    by (simp add: as_wf_def del: upt_Suc) linarith
  have len: "length ?sel = length (written_slots s)"
    by (simp add: written_slots_def)
  let ?d' = "take (sd_index sd) ?data @ ?ws @ drop (sd_index sd + length ?ws) ?data"
  have loop: "snapshot_loop s [as_low s..<Suc (as_high s)] ?data (sd_index sd)
    = Inr (?d', sd_index sd + length ?ws)"
    using wf room by (subst snapshot_loop_writes) (auto simp: as_wf_def Let_def simp del: upt_Suc)
  define sd' where "sd' = \<lparr>sd_data = ?d', sd_index = sd_index sd + length ?ws\<rparr>"
  obtain sn where sn: "as_snapshot s snap sd ref pc = Inr (sn, sd')"
      "sn_begin sn = sd_index sd" "sn_end sn = sd_index sd + length ?ws"
      "sn_ref sn = of_nat ref" "sn_pc sn = pc"
      "sn_relbase sn = of_int (int (as_base s) - int kInitialBase)"
    using fits len unfolding as_snapshot_def Let_def loop sd'_def
    by (simp add: sn_begin_def sn_end_def unat_of_nat_small del: upt_Suc)
  have "map (\<lambda>i. snap_entry (?d' ! i)) [sd_index sd..<sd_index sd + length ?ws]
     = map snap_entry ?ws"
    using room by (intro nth_equalityI) (auto simp: nth_append del: upt_Suc)
  also have "\<dots> = written_slots s"
    using wf by (auto simp: written_slots_def snap_entry_snap_word as_wf_def simp del: upt_Suc)
  finally show ?thesis
    using sn idx room wf len
    by (auto simp: snap_map_def sd'_def take_vec_resize as_wf_def simp del: upt_Suc)
qed

section \<open>Looking up a slot of a snapshot\<close>

definition sd_key :: "snapshot_data \<Rightarrow> int \<Rightarrow> int" where
  "sd_key sd i = uint (drop_bit 16 (sd_data sd ! nat i))"

lemma slot_search_mid:
  fixes lo hi :: int
  defines "mid \<equiv> (lo + hi) div 2"
  assumes "lo \<le> hi" and "{lo..hi} \<subseteq> {0..<int (length (sd_data sd))}"
  shows "slot_search sd n lo hi =
        (if n > sd_key sd mid then slot_search sd n (mid + 1) hi
         else if n < sd_key sd mid then slot_search sd n lo (mid - 1)
         else Inr (snd (snap_entry (sd_data sd ! nat mid))))"
    and "lo \<le> mid" and "mid \<le> hi"
proof -
  show mid: "lo \<le> mid" "mid \<le> hi"
    using assms(2) by (auto simp: mid_def)
  have ok: "0 \<le> mid" "nat mid < length (sd_data sd)"
    using subsetD [OF assms(3), of mid] mid by auto
  then show "slot_search sd n lo hi =
        (if n > sd_key sd mid then slot_search sd n (mid + 1) hi
         else if n < sd_key sd mid then slot_search sd n lo (mid - 1)
         else Inr (snd (snap_entry (sd_data sd ! nat mid))))"
    using assms(2)
    by (subst slot_search.simps) (simp add: mid_def [symmetric] sd_at_def sd_key_def snap_entry_def)
qed

lemma slot_search_empty: "hi < lo \<Longrightarrow> slot_search sd n lo hi = Inr 0"
  by (subst slot_search.simps) simp

lemma slot_search_cases:
  assumes "{lo..hi} \<subseteq> {0..<int (length (sd_data sd))}"
    and "\<And>i j. lo \<le> i \<Longrightarrow> i < j \<Longrightarrow> j \<le> hi \<Longrightarrow> sd_key sd i < sd_key sd j"
  shows "(\<exists>i\<in>{lo..hi}. sd_key sd i = n \<and>
            slot_search sd n lo hi = Inr (snd (snap_entry (sd_data sd ! nat i)))) \<or>
         (\<forall>i\<in>{lo..hi}. sd_key sd i \<noteq> n) \<and> slot_search sd n lo hi = Inr 0"
  using assms
proof (induction "nat (hi + 1 - lo)" arbitrary: lo hi rule: less_induct)
  case less
  show ?case
  proof (cases "lo \<le> hi")
    case True
    define mid where "mid = (lo + hi) div 2"
    note step = slot_search_mid(1) [where n = n, OF True less.prems(1), folded mid_def]
      slot_search_mid(2,3) [OF True less.prems(1), folded mid_def]
    consider "n > sd_key sd mid" | "n < sd_key sd mid" | "n = sd_key sd mid"
      by linarith
    then show ?thesis
    proof cases
      case 1
      have no: "\<forall>i\<in>{lo..mid}. sd_key sd i \<noteq> n"
      proof
        fix i assume "i \<in> {lo..mid}"
        then show "sd_key sd i \<noteq> n"
          using 1 less.prems(2) [of i mid] step(2,3) by (cases "i = mid") auto
      qed
      have split: "{lo..hi} = {lo..mid} \<union> {mid + 1..hi}"
        using step(2,3) by auto
      have eq: "slot_search sd n lo hi = slot_search sd n (mid + 1) hi"
        using step(1) 1 by simp
      have "{mid + 1..hi} \<subseteq> {0..<int (length (sd_data sd))}"
        using less.prems(1) split by blast
      then show ?thesis
        using less.hyps [of "hi" "mid + 1"] less.prems(2) step(2,3) no
        unfolding eq split bex_Un ball_Un by simp
    next
      case 2
      have no: "\<forall>i\<in>{mid..hi}. sd_key sd i \<noteq> n"
      proof
        fix i assume "i \<in> {mid..hi}"
        then show "sd_key sd i \<noteq> n"
          using 2 less.prems(2) [of mid i] step(2,3) by (cases "i = mid") auto
      qed
      have split: "{lo..hi} = {lo..mid - 1} \<union> {mid..hi}"
        using step(2,3) by auto
      have eq: "slot_search sd n lo hi = slot_search sd n lo (mid - 1)"
        using step(1) 2 by simp
      have "{lo..mid - 1} \<subseteq> {0..<int (length (sd_data sd))}"
        using less.prems(1) split by blast
      then show ?thesis
        using less.hyps [of "mid - 1" "lo"] less.prems(2) step(2,3) no
        unfolding eq split bex_Un ball_Un by simp
    next
      case 3
      then show ?thesis using step by auto
    qed
  next
    case False
    then show ?thesis by (simp add: slot_search_empty)
  qed
qed

lemma slot_search_below:
  assumes "n < 0" and "{lo..hi} \<subseteq> {0..<int (length (sd_data sd))}"
  shows "slot_search sd n lo hi = Inr 0"
  using assms(2)
proof (induction "nat (hi + 1 - lo)" arbitrary: lo hi rule: less_induct)
  case less
  show ?case
  proof (cases "lo \<le> hi")
    case True
    define mid where "mid = (lo + hi) div 2"
    note step = slot_search_mid(1) [where n = n, OF True less.prems, folded mid_def]
      slot_search_mid(2,3) [OF True less.prems, folded mid_def]
    have "n < sd_key sd mid"
      using assms(1) by (simp add: sd_key_def order.strict_trans2)
    moreover have "slot_search sd n lo (mid - 1) = Inr 0"
      using step(2,3) less.prems by (intro less.hyps) auto
    ultimately show ?thesis
      using step(1) by simp
  qed (simp add: slot_search_empty)
qed

lemma slot_search_found:
  assumes "{lo..hi} \<subseteq> {0..<int (length (sd_data sd))}"
  shows "slot_search sd n lo hi = Inr 0 \<or>
    (\<exists>i\<in>{lo..hi}. sd_key sd i = n \<and> slot_search sd n lo hi = Inr (snd (snap_entry (sd_data sd ! nat i))))"
  using assms
proof (induction "nat (hi + 1 - lo)" arbitrary: lo hi rule: less_induct)
  case less
  show ?case
  proof (cases "lo \<le> hi")
    case True
    define mid where "mid = (lo + hi) div 2"
    note step = slot_search_mid(1) [where n = n, OF True less.prems, folded mid_def]
      slot_search_mid(2,3) [OF True less.prems, folded mid_def]
    have sub: "{mid + 1..hi} \<subseteq> {lo..hi}" "{lo..mid - 1} \<subseteq> {lo..hi}" using step(2,3) by auto
    have "slot_search sd n (mid + 1) hi = Inr 0 \<or> (\<exists>i\<in>{mid + 1..hi}. sd_key sd i = n \<and>
        slot_search sd n (mid + 1) hi = Inr (snd (snap_entry (sd_data sd ! nat i))))"
      using step(2,3) less.prems sub by (intro less.hyps) auto
    moreover have "slot_search sd n lo (mid - 1) = Inr 0 \<or> (\<exists>i\<in>{lo..mid - 1}. sd_key sd i = n \<and>
        slot_search sd n lo (mid - 1) = Inr (snd (snap_entry (sd_data sd ! nat i))))"
      using step(2,3) less.prems sub by (intro less.hyps) auto
    ultimately show ?thesis using step sub by (auto dest: subsetD split: if_splits)
  qed (simp add: slot_search_empty)
qed

lemma uint_of_sint_nonneg:
  fixes w :: "'a::len word"
  assumes "0 \<le> sint w"
  shows "uint w = sint w"
proof -
  have "sint w < 2 ^ LENGTH('a)"
    using sint_lt [of w] power_increasing [of "LENGTH('a) - 1" "LENGTH('a)" "2::int"] by linarith
  then show ?thesis
    using assms by (subst uint_sint) (simp add: take_bit_int_eq_self)
qed

lemma signed_drop_bit_nonneg:
  fixes w :: u4
  assumes "0 \<le> sint (signed_drop_bit 16 w)"
  shows "uint (drop_bit 16 w) = sint (signed_drop_bit 16 w)"
proof -
  have "0 \<le> sint w"
    using assms by (simp add: sint_signed_drop_bit_eq)
  then have "sint w = uint w"
    by (simp add: uint_of_sint_nonneg)
  moreover have "take_bit 32 (uint w) = uint w"
    using uint_bounded [of w] by (simp add: take_bit_int_eq_self)
  ultimately show ?thesis
    by (simp add: sint_signed_drop_bit_eq unsigned_drop_bit_eq)
qed

lemma signed_drop_bit_small:
  fixes w :: u4
  assumes "uint (drop_bit 16 w) < 2 ^ 15"
  shows "sint (signed_drop_bit 16 w) = uint (drop_bit 16 w)"
proof -
  have "uint w div 2 ^ 16 < 2 ^ 15"
    using assms by (simp add: drop_bit_eq_div uint_div_distrib)
  then have "uint w < 2 ^ 31" by simp
  moreover have "- (2 ^ 31) \<le> uint w" by (rule order_trans [of _ 0]) simp_all
  ultimately have "sint w = uint w"
    using signed_take_bit_int_eq_self [of 31 "uint w"] by (simp add: sint_uint)
  then have "0 \<le> sint w" by simp
  then show ?thesis
    by (intro signed_drop_bit_nonneg [symmetric]) (simp add: sint_signed_drop_bit_eq)
qed

lemma int_range_iff:
  "int a \<le> i \<and> i \<le> int a + int b - 1 \<longleftrightarrow> 0 \<le> i \<and> nat i \<in> {a..<a + b}"
  by auto

lemma int_range_subset: "a + b \<le> n \<Longrightarrow> {int a..int a + int b - 1} \<subseteq> {0..<int n}"
  by auto

lemma sn_range_subset:
  assumes "sn_end sn \<le> length (sd_data sd)"
  shows "{uint (sn_mapofs sn)..uint (sn_mapofs sn) + uint (sn_entries sn) - 1}
    \<subseteq> {0..<int (length (sd_data sd))}"
  unfolding uint_nat using assms [unfolded sn_end_def] by (rule int_range_subset)

lemma sn_slot_eq:
  "sn_slot sn n sd = slot_search sd n (uint (sn_mapofs sn))
     (uint (sn_mapofs sn) + uint (sn_entries sn) - 1)"
  using uint_bounded [of "sn_mapofs sn"] uint_bounded [of "sn_entries sn"]
  by (simp add: sn_slot_def Let_def res_bind_lc_assert)

lemma sn_slot_map_of:
  assumes valid: "sn_end sn \<le> length (sd_data sd)"
    and sorted: "sorted_wrt (<) (map fst (snap_map sn sd))"
    and nonneg: "\<And>e. e \<in> set (snap_map sn sd) \<Longrightarrow> 0 \<le> fst e"
  shows "sn_slot sn n sd = Inr (case map_of (snap_map sn sd) n of None \<Rightarrow> 0 | Some r \<Rightarrow> r)"
proof -
  let ?lo = "uint (sn_mapofs sn)" and ?hi = "uint (sn_mapofs sn) + uint (sn_entries sn) - 1"
  let ?e = "\<lambda>i. snap_entry (sd_data sd ! i)"
  have rng: "?lo \<le> i \<and> i \<le> ?hi \<longleftrightarrow> 0 \<le> i \<and> nat i \<in> {sn_begin sn..<sn_end sn}" for i
    unfolding sn_begin_def sn_end_def uint_nat by (rule int_range_iff)
  have key: "sd_key sd i = fst (?e (nat i))" if "?lo \<le> i" "i \<le> ?hi" for i
    using nonneg [of "?e (nat i)"] that rng [of i]
    by (auto simp: sd_key_def snap_map_def snap_entry_def signed_drop_bit_nonneg)
  have mono: "fst (?e i) < fst (?e j)" if "sn_begin sn \<le> i" "i < j" "j < sn_end sn" for i j
    using sorted that sorted_wrt_nth_less [OF sorted, of "i - sn_begin sn" "j - sn_begin sn"]
    by (simp add: snap_map_def)
  have mono': "sd_key sd i < sd_key sd j" if "?lo \<le> i" "i < j" "j \<le> ?hi" for i j
    using mono [of "nat i" "nat j"] key [of i] key [of j] rng [of i] rng [of j] that by auto
  have dist: "distinct (map fst (snap_map sn sd))"
    using sorted by (simp add: strict_sorted_iff)
  have ok: "{?lo..?hi} \<subseteq> {0..<int (length (sd_data sd))}"
    using sn_range_subset [OF valid] .
  from slot_search_cases [of ?lo ?hi sd n, OF ok mono']
  consider i where "?lo \<le> i" "i \<le> ?hi" "sd_key sd i = n"
      "slot_search sd n ?lo ?hi = Inr (snd (?e (nat i)))"
    | "\<forall>i\<in>{?lo..?hi}. sd_key sd i \<noteq> n" "slot_search sd n ?lo ?hi = Inr 0"
    by force
  then show ?thesis
  proof cases
    case 1
    then have "?e (nat i) \<in> set (snap_map sn sd)"
      using rng [of i] by (auto simp: snap_map_def)
    moreover have "fst (?e (nat i)) = n"
      using key 1 by simp
    ultimately have "map_of (snap_map sn sd) n = Some (snd (?e (nat i)))"
      using dist by (metis map_of_eq_Some_iff prod.collapse)
    then show ?thesis
      using 1 by (simp add: sn_slot_eq)
  next
    case 2
    have "n \<notin> fst ` set (snap_map sn sd)"
    proof
      assume "n \<in> fst ` set (snap_map sn sd)"
      then obtain j where "sn_begin sn \<le> j" "j < sn_end sn" "fst (?e j) = n"
        by (auto simp: snap_map_def)
      then show False
        using 2(1) key [of "int j"] rng [of "int j"] by force
    qed
    then have "map_of (snap_map sn sd) n = None"
      by (simp add: map_of_eq_None_iff)
    then show ?thesis
      using 2 by (simp add: sn_slot_eq)
  qed
qed

lemma sn_slot_sound:
  assumes valid: "sn_end sn \<le> length (sd_data sd)" and n: "n < 2 ^ 15"
  obtains r where "sn_slot sn n sd = Inr r" and "r = 0 \<or> (n, r) \<in> set (snap_map sn sd)"
proof -
  let ?lo = "uint (sn_mapofs sn)" and ?hi = "uint (sn_mapofs sn) + uint (sn_entries sn) - 1"
  have rng: "i \<in> {?lo..?hi} \<longleftrightarrow> 0 \<le> i \<and> nat i \<in> {sn_begin sn..<sn_end sn}" for i
    using int_range_iff [of "unat (sn_mapofs sn)" i "unat (sn_entries sn)"]
    by (simp add: sn_begin_def sn_end_def)
  consider "slot_search sd n ?lo ?hi = Inr 0"
    | i where "i \<in> {?lo..?hi}" "sd_key sd i = n"
        "slot_search sd n ?lo ?hi = Inr (snd (snap_entry (sd_data sd ! nat i)))"
    using slot_search_found [OF sn_range_subset [OF valid], of n] by blast
  then show thesis
  proof cases
    case 1
    then show thesis using that by (simp add: sn_slot_eq)
  next
    case 2
    have "fst (snap_entry (sd_data sd ! nat i)) = n"
      using 2(2) n signed_drop_bit_small [of "sd_data sd ! nat i"] by (simp add: sd_key_def snap_entry_def)
    moreover have "snap_entry (sd_data sd ! nat i) \<in> set (snap_map sn sd)"
      using 2(1) rng [of i] by (simp add: snap_map_def)
    ultimately have "(n, snd (snap_entry (sd_data sd ! nat i))) \<in> set (snap_map sn sd)"
      by (metis prod.collapse)
    then show thesis using that 2(3) by (simp add: sn_slot_eq)
  qed
qed

lemma written_slots_sorted: "sorted_wrt (<) (map fst (written_slots s))"
  by (simp add: written_slots_def sorted_wrt_map sorted_wrt_filter del: upt_Suc)

lemma map_of_written_slots:
  "map_of (written_slots s) n =
     (if int (as_low s) \<le> n + int kInitialBase \<and> n + int kInitialBase \<le> int (as_high s) \<and>
         tref_isWritten (as_slots s ! nat (n + int kInitialBase))
      then Some (tref_ref (as_slots s ! nat (n + int kInitialBase))) else None)"
proof -
  have dist: "distinct (map fst (written_slots s))"
    using written_slots_sorted by (simp add: strict_sorted_iff)
  have mem: "(n, r) \<in> set (written_slots s) \<longleftrightarrow>
      int (as_low s) \<le> n + int kInitialBase \<and> n + int kInitialBase \<le> int (as_high s) \<and>
      tref_isWritten (as_slots s ! nat (n + int kInitialBase)) \<and>
      r = tref_ref (as_slots s ! nat (n + int kInitialBase))" for r
    by (auto simp: written_slots_def image_iff simp del: upt_Suc
        intro!: exI [of _ "nat (n + int kInitialBase)"])
  show ?thesis
  proof (cases "map_of (written_slots s) n")
    case None
    then show ?thesis
      using mem [of "tref_ref (as_slots s ! nat (n + int kInitialBase))"]
      by (auto simp: map_of_eq_None_iff rev_image_eqI)
  next
    case (Some r)
    then show ?thesis
      using mem [of r] map_of_eq_Some_iff [OF dist] by auto
  qed
qed

section \<open>Properties\<close>

text \<open>
  \<^bold>\<open>C12.\<close> With fewer than 256 written slots (the number of entries is stored in 8 bits) a
  snapshot records exactly the written slots between the lowest and the highest modified slot, in ascending order and each with the reference it held; it appends to
  the shared snapshot array and changes none of the entries of earlier snapshots.
\<close>

theorem snapshot_captures_written_slots:
  assumes "as_wf s" and "sd_index sd \<le> length (sd_data sd)"
    and "sd_index sd < 2 ^ 16" and "length (written_slots s) < 2 ^ 8"
  shows "\<exists>sn sd'. as_snapshot s snap sd ref pc = Inr (sn, sd') \<and>
    snap_map sn sd' = written_slots s \<and>
    take (sd_index sd) (sd_data sd') = take (sd_index sd) (sd_data sd) \<and>
    sd_index sd' = sd_index sd + length (written_slots s) \<and>
    sn_ref sn = of_nat ref \<and> sn_pc sn = pc \<and>
    sn_relbase sn = of_int (int (as_base s) - int kInitialBase)"
  using as_snapshot_eq [OF assms] by blast

definition demo_stack :: abstract_stack where
  "demo_stack = \<lparr>as_slots = (replicate kSlots tref_none)
       [250 := tref_markWritten (tref_mk 0x8003 2), 252 := tref_mk 0x8004 2,
        253 := tref_markWritten (tref_mk 0x7ffe 13)],
     as_base = 250, as_top = 254, as_low = 250, as_high = 254, as_origBase = 0x1000\<rparr>"

definition demo_snap :: snapshot where
  "demo_snap = \<lparr>sn_ref = 0, sn_mapofs = 0, sn_relbase = 0, sn_entries = 0, sn_framesize = 0,
     sn_exitCounter = 7, sn_steps = 0, sn_lastHeapEntry = 0, sn_pc = 0, sn_mcode = 0\<rparr>"

lemma demo_stack_wf: "as_wf demo_stack"
  by (simp add: as_wf_def demo_stack_def kSlots_def)

lemma demo_stack_written: "written_slots demo_stack = [(0, 0x8003), (3, 0x7ffe)]"
  by (simp add: written_slots_def demo_stack_def kSlots_def kInitialBase_def upt_rec
      nth_list_update tref_isWritten_def tref_markWritten_def tref_mk_def tref_none_def
      kWritten_def tref_ref_def)

theorem snapshot_captures_written_slots_witness:
  "\<exists>sn sd'. as_snapshot demo_stack demo_snap sd_init 0x8005 0x40 = Inr (sn, sd') \<and>
    snap_map sn sd' = [(0, 0x8003), (3, 0x7ffe)]"
  using snapshot_captures_written_slots [OF demo_stack_wf, of sd_init demo_snap "0x8005" "0x40"]
  by (simp add: demo_stack_written sd_init_def) blast

text \<open>
  \<^bold>\<open>C29.\<close> Looking a slot (a number below \<open>2^15\<close>; the stack has 500) up in a freshly taken
  snapshot (of fewer than 256 entries) always returns, and what
  it returns is 0 or the reference the abstract stack held in that slot, which was written.  If no
  modified slot lies below the base of the trace, it is that reference for every written slot and 0 for
  every other one.
\<close>

theorem snapshot_slot_lookup:
  assumes "as_wf s" and "sd_index sd \<le> length (sd_data sd)"
    and "sd_index sd < 2 ^ 16" and "length (written_slots s) < 2 ^ 8"
  shows "\<exists>sn sd'. as_snapshot s snap sd ref pc = Inr (sn, sd') \<and>
    (\<forall>n < 2 ^ 15. \<exists>r. sn_slot sn n sd' = Inr r \<and> (r = 0 \<or> map_of (written_slots s) n = Some r)) \<and>
    (kInitialBase \<le> as_low s \<longrightarrow> (\<forall>n. sn_slot sn n sd' = Inr
      (if int (as_low s) \<le> n + int kInitialBase \<and> n + int kInitialBase \<le> int (as_high s) \<and>
          tref_isWritten (as_slots s ! nat (n + int kInitialBase))
       then tref_ref (as_slots s ! nat (n + int kInitialBase)) else 0)))"
proof -
  obtain sn sd' where snap: "as_snapshot s snap sd ref pc = Inr (sn, sd')"
    and map: "snap_map sn sd' = written_slots s"
    and len: "sn_end sn \<le> length (sd_data sd')"
    using as_snapshot_eq [OF assms, of snap ref pc] by auto
  have dist: "distinct (map fst (written_slots s))"
    using written_slots_sorted by (simp add: strict_sorted_iff)
  have sound: "\<exists>r. sn_slot sn n sd' = Inr r \<and> (r = 0 \<or> map_of (written_slots s) n = Some r)"
    if "n < 2 ^ 15" for n
    by (rule sn_slot_sound [OF len that]) (use map map_of_eq_Some_iff [OF dist] in auto)
  have complete: "sn_slot sn n sd' = Inr (case map_of (written_slots s) n of None \<Rightarrow> 0 | Some r \<Rightarrow> r)"
    if low: "kInitialBase \<le> as_low s" for n
  proof -
    have "0 \<le> fst e" if "e \<in> set (snap_map sn sd')" for e
      using that low by (auto simp: map written_slots_def simp del: upt_Suc)
    then show ?thesis
      using sn_slot_map_of [OF len, of n] written_slots_sorted by (simp add: map)
  qed
  show ?thesis
  proof (rule exI [of _ sn], rule exI [of _ sd'], intro conjI allI impI)
    show "as_snapshot s snap sd ref pc = Inr (sn, sd')" by (rule snap)
  next
    fix n :: int assume "n < 2 ^ 15"
    then show "\<exists>r. sn_slot sn n sd' = Inr r \<and> (r = 0 \<or> map_of (written_slots s) n = Some r)" by (rule sound)
  next
    fix n assume "kInitialBase \<le> as_low s"
    from complete [OF this, of n] show "sn_slot sn n sd' = Inr
      (if int (as_low s) \<le> n + int kInitialBase \<and> n + int kInitialBase \<le> int (as_high s) \<and>
          tref_isWritten (as_slots s ! nat (n + int kInitialBase))
       then tref_ref (as_slots s ! nat (n + int kInitialBase)) else 0)"
      by (simp add: map_of_written_slots)
  qed
qed

theorem snapshot_slot_lookup_witness:
  "\<exists>sn sd'. as_snapshot demo_stack demo_snap sd_init 0x8005 0x40 = Inr (sn, sd') \<and>
    sn_slot sn 3 sd' = Inr 0x7ffe"
proof -
  have low: "kInitialBase \<le> as_low demo_stack" by (simp add: demo_stack_def kInitialBase_def)
  from snapshot_slot_lookup [OF demo_stack_wf, of sd_init demo_snap "0x8005" "0x40"] low
  obtain sn sd' where s: "as_snapshot demo_stack demo_snap sd_init 0x8005 0x40 = Inr (sn, sd')"
      and l: "\<And>n. sn_slot sn n sd' = Inr
      (if int (as_low demo_stack) \<le> n + int kInitialBase \<and>
          n + int kInitialBase \<le> int (as_high demo_stack) \<and>
          tref_isWritten (as_slots demo_stack ! nat (n + int kInitialBase))
       then tref_ref (as_slots demo_stack ! nat (n + int kInitialBase)) else 0)"
    by (auto simp: sd_init_def demo_stack_written)
  have "map_of (written_slots demo_stack) 3 = Some 0x7ffe"
    by (simp add: demo_stack_written)
  then show ?thesis
    using s l [of 3] unfolding map_of_written_slots by (auto split: if_splits)
qed

text \<open>
  The condition of the second part is needed: with entries for the slots -2, -1 and 0, the entry in the
  middle reads as slot 65535, the search goes to the left, and the written slot 0 is not found.
\<close>

lemma snapshot_slot_missed:
  defines "sd \<equiv> \<lparr>sd_data = [snap_word 248 0x18003, snap_word 249 0x18004, snap_word 250 0x18005], sd_index = 3\<rparr>"
  shows "snap_map (demo_snap\<lparr>sn_entries := 3\<rparr>) sd = [(-2, 0x8003), (-1, 0x8004), (0, 0x8005)] \<and>
    sn_slot (demo_snap\<lparr>sn_entries := 3\<rparr>) 0 sd = Inr 0"
proof
  show "snap_map (demo_snap\<lparr>sn_entries := 3\<rparr>) sd = [(-2, 0x8003), (-1, 0x8004), (0, 0x8005)]"
    by (simp add: sd_def demo_snap_def sn_end_def sn_begin_def snap_map_def snap_entry_snap_word kSlots_def
      kInitialBase_def tref_ref_def upt_rec)
  show "sn_slot (demo_snap\<lparr>sn_entries := 3\<rparr>) 0 sd = Inr 0"
  proof -
    have w: "0 < uint (drop_bit 16 (snap_word 249 0x18004))" "0 < uint (drop_bit 16 (snap_word 248 0x18003))"
      by code_simp+
    show ?thesis
      using w by (simp add: sn_slot_def sd_def demo_snap_def Let_def slot_search.simps [of _ 0 0] slot_search.simps [of _ 0 0 2]
          slot_search.simps [of _ 0 0 "-1"] sd_at_def)
  qed
qed

text \<open>
  A slot below the base of the trace is never found: the search compares the
  slot with the entry's upper half read as an unsigned number.
\<close>

theorem snapshot_slot_negative:
  assumes "n < 0" and "sn_end sn \<le> length (sd_data sd)"
  shows "sn_slot sn n sd = Inr 0"
  unfolding sn_slot_eq
  by (rule slot_search_below [OF assms(1) sn_range_subset [OF assms(2)]])

theorem snapshot_slot_negative_witness:
  "\<exists>sn. snap_map sn \<lparr>sd_data = [snap_word 249 0x18003], sd_index = 1\<rparr> = [(-1, 0x8003)] \<and>
     sn_slot sn (-1) \<lparr>sd_data = [snap_word 249 0x18003], sd_index = 1\<rparr> = Inr 0"
  using snapshot_slot_negative [of "-1" "demo_snap\<lparr>sn_entries := 1\<rparr>"
      "\<lparr>sd_data = [snap_word 249 0x18003], sd_index = 1\<rparr>"]
  by (intro exI [of _ "demo_snap\<lparr>sn_entries := 1\<rparr>"])
    (simp add: demo_snap_def sn_end_def sn_begin_def snap_map_def snap_entry_snap_word kSlots_def
      kInitialBase_def tref_ref_def)
end
