(* ===== verification/IR.thy ===== *)
theory IR
  imports AbstractStack
begin

text \<open>
  The intermediate representation of \<^verbatim>\<open>src/vm/ir.hh\<close>: the opcode table \<^verbatim>\<open>IRDEF\<close> with its
  modes, the IR types, the instruction word \<^verbatim>\<open>IRIns\<close>, and the heap part of a trace
  (\<^verbatim>\<open>HeapSnapData\<close>, \<^verbatim>\<open>AbstractHeapEntry\<close>, \<^verbatim>\<open>AbstractHeap\<close>).

  References are natural numbers; a store into a field of 16 bits reduces modulo \<open>2^16\<close>.
\<close>

section \<open>Opcodes and modes\<close>

datatype (plugins only: size code) irop =
    kLT | kGE | kLE | kGT | kEQ | kNE | kLTU | kGEU | kLEU | kGTU
  | kEQRET | kEQINFO | kNEINFO | kHEAPCHK
  | kNOP | kBASE | kFRAME | kRET | kLOOP | kPHI | kRENAME
  | kKINT | kKWORD | kKWORDHI | kKBASEO
  | kBNOT | kBAND | kBOR | kBXOR | kBSHL | kBSHR | kBSAR | kBROL | kBROR
  | kADD | kSUB | kMUL | kDIV | kREM | kNEG
  | kFREF | kFLOAD | kSLOAD | kILOAD | kRLOAD | kPLOAD | kNEW | kFSTORE | kUPDATE | kSAVE

datatype irm_operand = IRMref | IRMlit | IRMcst | IRMnone

datatype irm_flag = IRM_N | IRM_R | IRM_C | IRM_A | IRM_L | IRM_S | IRM_G

definition IRDEF :: "(irop \<times> irm_flag \<times> irm_operand \<times> irm_operand) list" where
  "IRDEF =
    [(kLT, IRM_G, IRMref, IRMref), (kGE, IRM_G, IRMref, IRMref), (kLE, IRM_G, IRMref, IRMref),
     (kGT, IRM_G, IRMref, IRMref), (kEQ, IRM_G, IRMref, IRMref), (kNE, IRM_G, IRMref, IRMref),
     (kLTU, IRM_G, IRMref, IRMref), (kGEU, IRM_G, IRMref, IRMref), (kLEU, IRM_G, IRMref, IRMref),
     (kGTU, IRM_G, IRMref, IRMref), (kEQRET, IRM_G, IRMref, IRMref),
     (kEQINFO, IRM_G, IRMref, IRMref), (kNEINFO, IRM_G, IRMref, IRMref),
     (kHEAPCHK, IRM_S, IRMlit, IRMnone),
     (kNOP, IRM_N, IRMnone, IRMnone), (kBASE, IRM_N, IRMlit, IRMlit),
     (kFRAME, IRM_S, IRMlit, IRMlit), (kRET, IRM_S, IRMlit, IRMlit),
     (kLOOP, IRM_N, IRMnone, IRMnone), (kPHI, IRM_N, IRMref, IRMref),
     (kRENAME, IRM_S, IRMref, IRMlit),
     (kKINT, IRM_N, IRMcst, IRMnone), (kKWORD, IRM_N, IRMcst, IRMnone),
     (kKWORDHI, IRM_N, IRMcst, IRMnone), (kKBASEO, IRM_N, IRMcst, IRMnone),
     (kBNOT, IRM_N, IRMref, IRMnone), (kBAND, IRM_C, IRMref, IRMref),
     (kBOR, IRM_C, IRMref, IRMref), (kBXOR, IRM_C, IRMref, IRMref),
     (kBSHL, IRM_N, IRMref, IRMref), (kBSHR, IRM_N, IRMref, IRMref),
     (kBSAR, IRM_N, IRMref, IRMref), (kBROL, IRM_N, IRMref, IRMref),
     (kBROR, IRM_N, IRMref, IRMref),
     (kADD, IRM_C, IRMref, IRMref), (kSUB, IRM_N, IRMref, IRMref), (kMUL, IRM_C, IRMref, IRMref),
     (kDIV, IRM_N, IRMref, IRMref), (kREM, IRM_N, IRMref, IRMref), (kNEG, IRM_N, IRMref, IRMnone),
     (kFREF, IRM_R, IRMref, IRMlit), (kFLOAD, IRM_L, IRMref, IRMnone),
     (kSLOAD, IRM_L, IRMlit, IRMlit), (kILOAD, IRM_L, IRMref, IRMnone),
     (kRLOAD, IRM_L, IRMnone, IRMnone), (kPLOAD, IRM_L, IRMref, IRMref),
     (kNEW, IRM_A, IRMref, IRMlit), (kFSTORE, IRM_S, IRMref, IRMref),
     (kUPDATE, IRM_S, IRMref, IRMref), (kSAVE, IRM_S, IRMlit, IRMlit)]"

definition irop_num :: "irop \<Rightarrow> nat" where
  "irop_num op = length (takeWhile (\<lambda>x. x \<noteq> op) (map fst IRDEF))"

fun irm_flag_bits :: "irm_flag \<Rightarrow> u1" where
  "irm_flag_bits IRM_N = 0x00"
| "irm_flag_bits IRM_R = 0x00"
| "irm_flag_bits IRM_C = 0x10"
| "irm_flag_bits IRM_A = 0x20"
| "irm_flag_bits IRM_L = 0x40"
| "irm_flag_bits IRM_S = 0x60"
| "irm_flag_bits IRM_G = 0x80"

fun irm_operand_bits :: "irm_operand \<Rightarrow> u1" where
  "irm_operand_bits IRMref = 0"
| "irm_operand_bits IRMlit = 1"
| "irm_operand_bits IRMcst = 2"
| "irm_operand_bits IRMnone = 3"

text \<open>The table \<^verbatim>\<open>mode_\<close> as the macro \<^verbatim>\<open>IRMODE\<close> builds it.\<close>

definition ir_mode :: "irop \<Rightarrow> u1" where
  "ir_mode op =
     (case map_of IRDEF op of
        Some (flags, left, right) \<Rightarrow>
          irm_operand_bits left OR push_bit 2 (irm_operand_bits right) OR irm_flag_bits flags
      | None \<Rightarrow> 0)"

definition irmode_left :: "u1 \<Rightarrow> u1" where "irmode_left md = md AND 3"
definition irmode_right :: "u1 \<Rightarrow> u1" where "irmode_right md = drop_bit 2 md AND 3"

definition isCommutative :: "irop \<Rightarrow> bool" where
  "isCommutative op \<longleftrightarrow> ir_mode op AND 0x10 \<noteq> 0"

definition hasSideEffect :: "irop \<Rightarrow> bool" where
  "hasSideEffect op \<longleftrightarrow> ir_mode op AND 0x60 \<noteq> 0"

section \<open>Types\<close>

definition IRT_UNKNOWN :: u1 where "IRT_UNKNOWN = 0"
definition IRT_VOID :: u1 where "IRT_VOID = 1"
definition IRT_I64 :: u1 where "IRT_I64 = 2"
definition IRT_U64 :: u1 where "IRT_U64 = 3"
definition IRT_I32 :: u1 where "IRT_I32 = 4"
definition IRT_U32 :: u1 where "IRT_U32 = 5"
definition IRT_I16 :: u1 where "IRT_I16 = 6"
definition IRT_U16 :: u1 where "IRT_U16 = 7"
definition IRT_I8 :: u1 where "IRT_I8 = 8"
definition IRT_U8 :: u1 where "IRT_U8 = 9"
definition IRT_F64 :: u1 where "IRT_F64 = 10"
definition IRT_F32 :: u1 where "IRT_F32 = 11"
definition IRT_CHR :: u1 where "IRT_CHR = 12"
definition IRT_CLOS :: u1 where "IRT_CLOS = 13"
definition IRT_INFO :: u1 where "IRT_INFO = 14"
definition IRT_PC :: u1 where "IRT_PC = 15"
definition IRT_PTR :: u1 where "IRT_PTR = 16"
definition IRT_MARK :: u1 where "IRT_MARK = 0x20"
definition IRT_ISPHI :: u1 where "IRT_ISPHI = 0x40"
definition IRT_GUARD :: u1 where "IRT_GUARD = 0x80"
definition IRT_TYPE :: u1 where "IRT_TYPE = 0x1f"

lemmas irt_defs = IRT_UNKNOWN_def IRT_VOID_def IRT_I64_def IRT_U64_def IRT_I32_def IRT_U32_def
  IRT_I16_def IRT_U16_def IRT_I8_def IRT_U8_def IRT_F64_def IRT_F32_def IRT_CHR_def IRT_CLOS_def
  IRT_INFO_def IRT_PC_def IRT_PTR_def IRT_MARK_def IRT_ISPHI_def IRT_GUARD_def IRT_TYPE_def

definition typebit :: "u1 \<Rightarrow> u4" where
  "typebit t = push_bit (unat t) 1"

definition kOpIsSigned :: u4 where
  "kOpIsSigned = typebit IRT_I64 OR typebit IRT_I32 OR typebit IRT_I16 OR typebit IRT_I8"

definition kOpIsInteger :: u4 where
  "kOpIsInteger =
     typebit IRT_CHR OR typebit IRT_U64 OR typebit IRT_U32 OR typebit IRT_U16 OR typebit IRT_U8
       OR typebit IRT_I64 OR typebit IRT_I32 OR typebit IRT_I16 OR typebit IRT_I8"

definition kOpIsFloat :: u4 where
  "kOpIsFloat = typebit IRT_F32 OR typebit IRT_F64"

definition isIntegerType :: "u1 \<Rightarrow> bool" where
  "isIntegerType t \<longleftrightarrow> kOpIsInteger AND typebit t \<noteq> 0"

definition isSigned :: "u1 \<Rightarrow> bool" where
  "isSigned t \<longleftrightarrow> kOpIsSigned AND typebit t \<noteq> 0"

definition isFloatType :: "u1 \<Rightarrow> bool" where
  "isFloatType t \<longleftrightarrow> kOpIsFloat AND typebit t \<noteq> 0"

section \<open>Instructions\<close>

text \<open>
  \<^verbatim>\<open>IRIns\<close>.  The two operands overlay the 32 bit literal (\<^verbatim>\<open>op12\<close>, \<^verbatim>\<open>i\<close>, \<^verbatim>\<open>u\<close>), and
  \<^verbatim>\<open>prev\<close> overlays the register and the spill slot.
\<close>

record ir =
  ir_op1 :: nat
  ir_op2 :: nat
  ir_t :: u1
  ir_o :: irop
  ir_prev :: nat

definition ir_zero :: ir where
  "ir_zero = \<lparr>ir_op1 = 0, ir_op2 = 0, ir_t = 0, ir_o = kLT, ir_prev = 0\<rparr>"

definition ir_type :: "ir \<Rightarrow> u1" where
  "ir_type i = ir_t i AND IRT_TYPE"

definition ir_isGuard :: "ir \<Rightarrow> bool" where
  "ir_isGuard i \<longleftrightarrow> ir_t i AND IRT_GUARD \<noteq> 0"

definition ir_op12 :: "ir \<Rightarrow> u4" where
  "ir_op12 i = of_nat (ir_op1 i + 65536 * ir_op2 i)"

definition ir_setOp1 :: "nat \<Rightarrow> ir \<Rightarrow> ir" where
  "ir_setOp1 r i = i\<lparr>ir_op1 := r mod 65536\<rparr>"

definition ir_setOp2 :: "nat \<Rightarrow> ir \<Rightarrow> ir" where
  "ir_setOp2 r i = i\<lparr>ir_op2 := r mod 65536\<rparr>"

definition ir_setOp12 :: "u4 \<Rightarrow> ir \<Rightarrow> ir" where
  "ir_setOp12 w i = i\<lparr>ir_op1 := unat w mod 65536, ir_op2 := unat w div 65536\<rparr>"

definition ir_setPrev :: "nat \<Rightarrow> ir \<Rightarrow> ir" where
  "ir_setPrev r i = i\<lparr>ir_prev := r mod 65536\<rparr>"

definition ir_reg :: "ir \<Rightarrow> nat" where
  "ir_reg i = ir_prev i mod 256"

definition ir_spill :: "ir \<Rightarrow> nat" where
  "ir_spill i = ir_prev i div 256"

definition ir_setReg :: "nat \<Rightarrow> ir \<Rightarrow> ir" where
  "ir_setReg r i = i\<lparr>ir_prev := r mod 256 + 256 * ir_spill i\<rparr>"

definition ir_setSpill :: "nat \<Rightarrow> ir \<Rightarrow> ir" where
  "ir_setSpill s i = i\<lparr>ir_prev := ir_reg i + 256 * (s mod 256)\<rparr>"

section \<open>The heap of a trace\<close>

text \<open>
  \<^verbatim>\<open>HeapSnapData\<close>: an array of references that grows by doubling and stops the process
  beyond 50000 words.  Words that were reserved and not yet written have no value.
\<close>

record heap_snap_data =
  hs_data :: "nat \<rightharpoonup> nat"
  hs_size :: nat
  hs_next :: nat

definition hs_init :: heap_snap_data where
  "hs_init = \<lparr>hs_data = (\<lambda>_. None), hs_size = 0, hs_next = 0\<rparr>"

definition hs_growTop :: "heap_snap_data \<Rightarrow> heap_snap_data result" where
  "hs_growTop h =
     (if hs_size h > 50000 then Inl (Exit 2)
      else Inr (h\<lparr>hs_size := (let s = hs_size h * 2 in if s < 32 then 32 else s)\<rparr>))"

definition hs_at :: "heap_snap_data \<Rightarrow> nat \<Rightarrow> nat result" where
  "hs_at h idx =
     res_bind (lc_assert (idx < hs_size h)) (\<lambda>_. of_option BadAccess (hs_data h idx))"

definition hs_push_back :: "heap_snap_data \<Rightarrow> nat \<Rightarrow> (nat \<times> heap_snap_data) result" where
  "hs_push_back h ref =
     res_bind (if hs_next h \<ge> hs_size h then hs_growTop h else Inr h) (\<lambda>h.
       Inr (hs_next h, h\<lparr>hs_data := (hs_data h)(hs_next h \<mapsto> ref mod 65536),
                         hs_next := hs_next h + 1\<rparr>))"

text \<open>The loop of \<^verbatim>\<open>reserve\<close> ends: each turn doubles the size, and it stops beyond 50000.\<close>

function hs_reserve_loop :: "heap_snap_data \<Rightarrow> nat \<Rightarrow> heap_snap_data result" where
  "hs_reserve_loop h n =
     (if hs_next h + n \<ge> hs_size h
      then case hs_growTop h of Inl e \<Rightarrow> Inl e | Inr h' \<Rightarrow> hs_reserve_loop h' n
      else Inr h)"
  by pat_completeness auto
termination
  by (relation "measure (\<lambda>(h, n). 100001 - hs_size h)")
    (auto simp: hs_growTop_def Let_def split: if_splits)

declare hs_reserve_loop.simps [simp del]

definition hs_reserve :: "heap_snap_data \<Rightarrow> nat \<Rightarrow> (nat \<times> heap_snap_data) result" where
  "hs_reserve h n =
     res_bind (hs_reserve_loop h n) (\<lambda>h. Inr (hs_next h, h\<lparr>hs_next := hs_next h + n\<rparr>))"

definition hs_set :: "heap_snap_data \<Rightarrow> nat \<Rightarrow> nat \<Rightarrow> heap_snap_data result" where
  "hs_set h n ref =
     res_bind (lc_assert (n < hs_next h)) (\<lambda>_.
       Inr (h\<lparr>hs_data := (hs_data h)(n \<mapsto> ref mod 65536)\<rparr>))"

definition hs_compactCopyInto :: "heap_snap_data \<Rightarrow> heap_snap_data" where
  "hs_compactCopyInto src =
     \<lparr>hs_data = (\<lambda>i. if i < hs_next src then hs_data src i else None),
      hs_size = hs_next src, hs_next = hs_next src\<rparr>"

record ah_entry =
  ahe_ref :: nat
  ahe_size :: nat
  ahe_ofs :: nat
  ahe_hpofs :: int
  ahe_overallocated :: nat
  ahe_fwdref :: nat

definition i2 :: "int \<Rightarrow> int" where
  "i2 x = signed_take_bit 15 x"

definition MAX_HEAP_ENTRIES :: nat where "MAX_HEAP_ENTRIES = 300"

record abstract_heap =
  ah_entries :: "ah_entry list"
  ah_nentries :: nat
  ah_data :: heap_snap_data
  ah_reserved :: int

definition ah_init :: abstract_heap where
  "ah_init = \<lparr>ah_entries = [], ah_nentries = 0, ah_data = hs_init, ah_reserved = 0\<rparr>"

definition ah_grow :: "abstract_heap \<Rightarrow> abstract_heap result" where
  "ah_grow h =
     (if ah_nentries h \<ge> 32 \<and> ah_nentries h \<ge> MAX_HEAP_ENTRIES then Inl (Exit 2)
      else let n = (if ah_nentries h < 32 then 32 else ah_nentries h) * 2
           in Inr (h\<lparr>ah_nentries := (if n > MAX_HEAP_ENTRIES then MAX_HEAP_ENTRIES else n)\<rparr>))"

definition ah_heapCheck :: "abstract_heap \<Rightarrow> int \<Rightarrow> abstract_heap" where
  "ah_heapCheck h nwords = h\<lparr>ah_reserved := ah_reserved h + nwords\<rparr>"

definition ah_entry_at :: "abstract_heap \<Rightarrow> nat \<Rightarrow> ah_entry result" where
  "ah_entry_at h n =
     res_bind (lc_assert (n < length (ah_entries h))) (\<lambda>_. Inr (ah_entries h ! n))"

definition ah_newEntry :: "abstract_heap \<Rightarrow> nat \<Rightarrow> nat \<Rightarrow> (nat \<times> abstract_heap) result" where
  "ah_newEntry h ref nfields =
     res_bind (if length (ah_entries h) \<ge> ah_nentries h then ah_grow h else Inr h) (\<lambda>h.
     res_bind (lc_assert (ah_reserved h \<ge> int nfields + 1)) (\<lambda>_.
     res_bind (hs_reserve (ah_data h) nfields) (\<lambda>(ofs, d).
       let e = \<lparr>ahe_ref = ref, ahe_size = nfields mod 65536, ahe_ofs = ofs mod 65536,
                ahe_hpofs = i2 (- ah_reserved h), ahe_overallocated = 0, ahe_fwdref = 0\<rparr>
       in Inr (length (ah_entries h),
               h\<lparr>ah_entries := ah_entries h @ [e], ah_data := d,
                 ah_reserved := ah_reserved h - (int nfields + 1)\<rparr>))))"

definition ah_compactCopyInto :: "abstract_heap \<Rightarrow> abstract_heap" where
  "ah_compactCopyInto src =
     \<lparr>ah_entries = ah_entries src, ah_nentries = length (ah_entries src),
      ah_data = hs_compactCopyInto (ah_data src), ah_reserved = 0\<rparr>"

end
