(* ===== verification/IRBuffer.thy ===== *)
theory IRBuffer
  imports IR
begin

text \<open>
  The instruction buffer of a trace (\<^verbatim>\<open>IRBuffer\<close> of \<^verbatim>\<open>src/vm/ir.hh\<close> and \<^verbatim>\<open>src/vm/ir.cc\<close>):
  emission of instructions and literals, the per-opcode chains, common subexpression
  elimination, snapshots, allocation and the recalculation of heap offsets.  The fold engine is
  in theory \<open>Fold\<close>.

  An operation maps a buffer to an error or to its result and the new buffer.  The array
  \<^verbatim>\<open>buffer_\<close> is biased, so a reference indexes it directly; it holds zero instructions where
  nothing was written.
\<close>

section \<open>State\<close>

record fold_state =
  fs_ins :: ir
  fs_left :: ir
  fs_right :: ir
  fs_literal :: u8

record irbuffer =
  ib_pc :: u8
  ib_buffer :: "nat \<Rightarrow> ir"
  ib_flags :: flags32
  ib_bufmin :: nat
  ib_bufmax :: nat
  ib_bufstart :: nat
  ib_bufend :: nat
  ib_size :: nat
  ib_fold :: fold_state
  ib_chain :: "irop \<Rightarrow> nat"
  ib_slots :: abstract_stack
  ib_snapmap :: snapshot_data
  ib_snaps :: "snapshot list"
  ib_heap :: abstract_heap
  ib_steps :: nat
  ib_stopins :: nat
  ib_parentmap :: "nat list"
  ib_parent :: "nat option"
  ib_parentHeapReserved :: int
  ib_entry_relbase :: int

type_synonym 'a ib_result = "('a \<times> irbuffer) result"

definition kOptCSE :: nat where "kOptCSE = 0"
definition kOptFold :: nat where "kOptFold = 1"
definition kRegsAllocated :: nat where "kRegsAllocated = 16"

definition ib_setIns :: "irop \<Rightarrow> u1 \<Rightarrow> nat \<Rightarrow> nat \<Rightarrow> irbuffer \<Rightarrow> irbuffer" where
  "ib_setIns op ty op1 op2 b =
     b\<lparr>ib_fold := (ib_fold b)\<lparr>fs_ins := (fs_ins (ib_fold b))
         \<lparr>ir_o := op, ir_t := ty, ir_op1 := op1 mod 65536, ir_op2 := op2 mod 65536\<rparr>\<rparr>\<rparr>"

definition fins :: "irbuffer \<Rightarrow> ir" where
  "fins b = fs_ins (ib_fold b)"

section \<open>Access and growth\<close>

definition ib_ir :: "irbuffer \<Rightarrow> nat \<Rightarrow> ir result" where
  "ib_ir b ref =
     res_bind (lc_assert (ib_bufmin b \<le> ref \<and> ref \<le> ib_bufmax b)) (\<lambda>_. Inr (ib_buffer b ref))"

definition ib_put :: "nat \<Rightarrow> ir \<Rightarrow> irbuffer \<Rightarrow> irbuffer" where
  "ib_put ref i b = b\<lparr>ib_buffer := (ib_buffer b)(ref := i)\<rparr>"

definition ib_setChain :: "irop \<Rightarrow> nat \<Rightarrow> irbuffer \<Rightarrow> irbuffer" where
  "ib_setChain op ref b = b\<lparr>ib_chain := (ib_chain b)(op := ref mod 65536)\<rparr>"

definition ib_growTop :: "irbuffer \<Rightarrow> unit ib_result" where
  "ib_growTop b = Inl (Exit 3)"

definition ib_growBottom :: "irbuffer \<Rightarrow> unit ib_result" where
  "ib_growBottom b = Inl (Exit 3)"

definition ib_nextIns :: "irbuffer \<Rightarrow> nat ib_result" where
  "ib_nextIns b =
     (let ref = ib_bufmax b
      in res_bind (if ref \<ge> ib_bufend b then ib_growTop b else Inr ((), b)) (\<lambda>(_, b).
         Inr (ref, b\<lparr>ib_bufmax := ref + 1\<rparr>)))"

definition ib_nextLit :: "irbuffer \<Rightarrow> nat ib_result" where
  "ib_nextLit b =
     (let ref = ib_bufmin b
      in res_bind (if ref \<le> ib_bufstart b then ib_growBottom b else Inr ((), b)) (\<lambda>(_, b).
         Inr (ref - 1, b\<lparr>ib_bufmin := ref - 1\<rparr>)))"

section \<open>Snapshots and emission\<close>

text \<open>
  The default constructor leaves the fields it does not set uninitialised; every one of them is
  assigned before the snapshot is stored.
\<close>

definition sn_default :: snapshot where
  "sn_default = \<lparr>sn_ref = 0, sn_mapofs = 0, sn_relbase = 0, sn_entries = 0, sn_framesize = 0,
     sn_exitCounter = of_nat HOT_SIDE_EXIT_THRESHOLD, sn_steps = 0, sn_lastHeapEntry = 0,
     sn_pc = 0, sn_mcode = 0\<rparr>"

definition ib_snapshot :: "nat \<Rightarrow> u8 \<Rightarrow> irbuffer \<Rightarrow> unit ib_result" where
  "ib_snapshot ref pc b =
     res_bind (as_snapshot (ib_slots b) sn_default (ib_snapmap b) ref pc) (\<lambda>(snap, sd).
     res_bind (if ib_chain b kNEW \<noteq> 0
               then res_bind (ib_ir b (ib_chain b kNEW)) (\<lambda>i. Inr (of_nat (ir_op2 i) :: u2))
               else Inr (-1)) (\<lambda>last.
       Inr ((), b\<lparr>ib_snapmap := sd,
                  ib_snaps := ib_snaps b @
                    [snap\<lparr>sn_steps := of_int (int (ib_steps b) - 1), sn_lastHeapEntry := last\<rparr>]\<rparr>)))"

definition ib_snapshot_now :: "u8 \<Rightarrow> irbuffer \<Rightarrow> nat ib_result" where
  "ib_snapshot_now pc b =
     res_bind (ib_snapshot (ib_bufmax b) pc b) (\<lambda>(_, b).
       Inr ((length (ib_snaps b) - 1) mod 65536, b))"

definition ib_emit :: "irbuffer \<Rightarrow> tref ib_result" where
  "ib_emit b =
     res_bind (ib_nextIns b) (\<lambda>(ref, b).
     res_bind (ib_ir b ref) (\<lambda>ir1.
       let op = ir_o (fins b); ty = ir_t (fins b);
           ir1 = ir1\<lparr>ir_prev := ib_chain b op, ir_o := op, ir_op1 := ir_op1 (fins b),
                     ir_op2 := ir_op2 (fins b), ir_t := ty\<rparr>;
           b = ib_setChain op ref (ib_put ref ir1 b)
       in res_bind (if ty AND IRT_GUARD \<noteq> 0 then ib_snapshot ref (ib_pc b) b else Inr ((), b))
            (\<lambda>(_, b). Inr (tref_mk ref ty, b))))"

definition ib_emitRaw :: "irop \<Rightarrow> u1 \<Rightarrow> nat \<Rightarrow> nat \<Rightarrow> irbuffer \<Rightarrow> tref ib_result" where
  "ib_emitRaw op ty op1 op2 b = ib_emit (ib_setIns op ty op1 op2 b)"

section \<open>Literals\<close>

text \<open>
  A chain is followed through the \<^verbatim>\<open>prev\<close> links until a matching instruction or reference 0
  is found.  References have 16 bits, so a loop that has not ended after \<open>2^16\<close> turns has met a
  reference twice and never ends; \<open>chain_fuel\<close> therefore cuts off no terminating loop.
\<close>

definition chain_fuel :: nat where "chain_fuel = 65537"

fun chain_find :: "(nat \<Rightarrow> ir) \<Rightarrow> (nat \<Rightarrow> bool) \<Rightarrow> nat \<Rightarrow> nat \<Rightarrow> nat result" where
  "chain_find buf P 0 ref = Inl Diverge"
| "chain_find buf P (Suc fuel) ref =
     (if ref = 0 then Inr 0
      else if P ref then Inr ref
      else chain_find buf P fuel (ir_prev (buf ref)))"

definition chain_search :: "irbuffer \<Rightarrow> irop \<Rightarrow> (nat \<Rightarrow> bool) \<Rightarrow> nat result" where
  "chain_search b op P = chain_find (ib_buffer b) P chain_fuel (ib_chain b op)"

definition ib_newLit :: "irop \<Rightarrow> u4 \<Rightarrow> u1 \<Rightarrow> irbuffer \<Rightarrow> nat ib_result" where
  "ib_newLit op w ty b =
     res_bind (ib_nextLit b) (\<lambda>(ref, b).
     res_bind (ib_ir b ref) (\<lambda>tir.
       Inr (ref, ib_setChain op ref
         (ib_put ref ((ir_setOp12 w tir)\<lparr>ir_t := ty, ir_o := op, ir_prev := ib_chain b op\<rparr>) b))))"

definition ib_newLit64 :: "u4 \<Rightarrow> u4 \<Rightarrow> u1 \<Rightarrow> irbuffer \<Rightarrow> nat ib_result" where
  "ib_newLit64 klo khi ty b =
     res_bind (ib_nextLit b) (\<lambda>(reflo, b).
     res_bind (ib_nextLit b) (\<lambda>(refhi, b).
     res_bind (lc_assert (refhi = reflo - 1)) (\<lambda>_.
     res_bind (ib_ir b reflo) (\<lambda>inslo.
     res_bind (ib_ir b refhi) (\<lambda>inshi.
       let b = ib_put reflo ((ir_setOp12 klo inslo)
                 \<lparr>ir_t := ty, ir_o := kKWORD, ir_prev := ib_chain b kKWORD\<rparr>) b;
           b = ib_put refhi ((ir_setOp12 khi inshi)
                 \<lparr>ir_t := ty, ir_o := kKWORDHI, ir_prev := ib_chain b kKWORDHI\<rparr>) b
       in Inr (reflo, ib_setChain kKWORDHI refhi (ib_setChain kKWORD reflo b)))))))"

definition ib_literal :: "u1 \<Rightarrow> u8 \<Rightarrow> irbuffer \<Rightarrow> tref ib_result" where
  "ib_literal ty lit b =
     (if checki32 lit
      then let k = ucast lit :: u4
           in res_bind (chain_search b kKINT
                (\<lambda>ref. ir_op12 (ib_buffer b ref) = k \<and> ir_type (ib_buffer b ref) = ty)) (\<lambda>ref.
              if ref \<noteq> 0 then Inr (tref_mk ref ty, b)
              else res_bind (ib_newLit kKINT k ty b) (\<lambda>(ref, b). Inr (tref_mk ref ty, b)))
      else let klo = ucast lit :: u4; khi = ucast (drop_bit 32 lit) :: u4
           in res_bind (chain_search b kKWORD
                (\<lambda>ref. ir_type (ib_buffer b ref) = ty \<and> ir_op12 (ib_buffer b ref) = klo \<and>
                       ir_op12 (ib_buffer b (ref - 1)) = khi)) (\<lambda>ref.
              if ref \<noteq> 0 then Inr (tref_mk ref ty, b)
              else res_bind (ib_newLit64 klo khi ty b) (\<lambda>(ref, b). Inr (tref_mk ref ty, b))))"

definition ib_baseLiteral :: "u8 \<Rightarrow> irbuffer \<Rightarrow> tref ib_result" where
  "ib_baseLiteral p b =
     (let offset = of_int (as_baseOffset (ib_slots b) p) :: u4
      in res_bind (chain_search b kKBASEO (\<lambda>ref. ir_op12 (ib_buffer b ref) = offset)) (\<lambda>ref.
         if ref \<noteq> 0 then Inr (tref_mk ref IRT_PTR, b)
         else res_bind (ib_newLit kKBASEO offset IRT_PTR b) (\<lambda>(ref, b).
           Inr (tref_mk ref IRT_PTR, b))))"

definition ib_literalValue :: "irbuffer \<Rightarrow> nat \<Rightarrow> u8 result" where
  "ib_literalValue b ref =
     res_bind (ib_ir b ref) (\<lambda>tir.
       if ir_o tir = kKINT
       then Inr (if kOpIsSigned AND typebit (ir_type tir) \<noteq> 0
                 then scast (ir_op12 tir) else ucast (ir_op12 tir))
       else if ir_o tir = kKWORD
       then res_bind (ib_ir b (ref - 1)) (\<lambda>hi.
              Inr (ucast (ir_op12 tir) OR push_bit 32 (ucast (ir_op12 hi))))
       else if ir_o tir = kKBASEO
       then Inr (as_origBase (ib_slots b) + 8 * scast (ir_op12 tir))
       else Inl AssertFailed)"

section \<open>Reset\<close>

definition ib_reset :: "u8 \<Rightarrow> u8 \<Rightarrow> u8 \<Rightarrow> irbuffer \<Rightarrow> unit ib_result" where
  "ib_reset stg_IND_info base tp b =
     res_bind (as_reset base tp) (\<lambda>slots.
       let nliterals = ib_size b div 4;
           bufstart = REF_BIAS - nliterals;
           b = b\<lparr>ib_slots := slots, ib_buffer := (\<lambda>_. ir_zero), ib_heap := ah_init,
                 ib_snaps := [], ib_snapmap := sd_init, ib_steps := 0,
                 ib_bufstart := bufstart, ib_bufend := bufstart + ib_size b,
                 ib_bufmin := REF_BIAS, ib_bufmax := REF_BASE, ib_stopins := REF_FIRST,
                 ib_entry_relbase := 0, ib_parent := None, ib_parentHeapReserved := 0,
                 ib_flags := flag_set (flag_set (flags_clear (ib_flags b)) kOptCSE) kOptFold,
                 ib_chain := (\<lambda>_. 0)\<rparr>
       in res_bind (ib_emitRaw kBASE IRT_PTR 0 0 b) (\<lambda>(_, b).
          res_bind (ib_literal IRT_INFO stg_IND_info b) (\<lambda>(upd_itbl, b).
          res_bind (lc_assert (tref_ref upd_itbl = REF_IND)) (\<lambda>_. Inr ((), b)))))"

section \<open>Common subexpressions\<close>

fun cse_find :: "irbuffer \<Rightarrow> nat \<Rightarrow> u4 \<Rightarrow> nat \<Rightarrow> nat \<Rightarrow> nat result" where
  "cse_find b lim op12 0 ref = Inl Diverge"
| "cse_find b lim op12 (Suc fuel) ref =
     (if ref > lim
      then res_bind (ib_ir b ref) (\<lambda>i.
             if ir_op12 i = op12 then Inr ref else cse_find b lim op12 fuel (ir_prev i))
      else Inr 0)"

definition ib_optCSE :: "irbuffer \<Rightarrow> tref ib_result" where
  "ib_optCSE b =
     (if flag_get (ib_flags b) kOptCSE
      then let op12 = of_nat (ir_op1 (fins b)) + push_bit 16 (of_nat (ir_op2 (fins b))) :: u4;
               lim = (if ir_op2 (fins b) > ir_op1 (fins b) then ir_op2 (fins b) else ir_op1 (fins b))
           in res_bind (cse_find b lim op12 chain_fuel (ib_chain b (ir_o (fins b)))) (\<lambda>ref.
              if ref \<noteq> 0 then res_bind (ib_ir b ref) (\<lambda>i. Inr (tref_mk ref (ir_t i), b))
              else ib_emit b)
      else ib_emit b)"

section \<open>Stack slots\<close>

definition IR_SLOAD_DEFAULT :: nat where "IR_SLOAD_DEFAULT = 0"
definition IR_SLOAD_INHERIT :: nat where "IR_SLOAD_INHERIT = 1"

definition u2_of_int :: "int \<Rightarrow> nat" where
  "u2_of_int n = nat (n mod 65536)"

definition ib_slot :: "int \<Rightarrow> irbuffer \<Rightarrow> tref ib_result" where
  "ib_slot n b =
     res_bind (as_get (ib_slots b) n) (\<lambda>s.
       if tref_isNone s
       then res_bind (ib_emitRaw kSLOAD IRT_UNKNOWN (u2_of_int (as_absolute (ib_slots b) n))
                        IR_SLOAD_DEFAULT b) (\<lambda>(s, b).
            res_bind (as_set (ib_slots b) n s) (\<lambda>slots. Inr (s, b\<lparr>ib_slots := slots\<rparr>)))
       else Inr (s, b))"

definition ib_setSlot :: "int \<Rightarrow> tref \<Rightarrow> irbuffer \<Rightarrow> unit ib_result" where
  "ib_setSlot n tr b =
     (let tr = (if tref_ref tr \<noteq> 0 then tref_markWritten tr else tr)
      in res_bind (as_set (ib_slots b) n tr) (\<lambda>slots. Inr ((), b\<lparr>ib_slots := slots\<rparr>)))"

section \<open>Allocation\<close>

definition ib_emitNEW :: "nat \<Rightarrow> nat \<Rightarrow> irbuffer \<Rightarrow> (tref \<times> nat) ib_result" where
  "ib_emitNEW itblref nfields b =
     res_bind (ib_emitRaw kNEW IRT_CLOS itblref 0 b) (\<lambda>(tref, b).
     res_bind (ah_newEntry (ib_heap b) (tref_ref tref) nfields) (\<lambda>(entry, heap).
     res_bind (ib_ir b (tref_ref tref)) (\<lambda>i.
       Inr ((tref, entry),
            ib_put (tref_ref tref) (ir_setOp2 entry i) (b\<lparr>ib_heap := heap\<rparr>)))))"

text \<open>\<^verbatim>\<open>getHeapEntry\<close> gives no entry (\<^verbatim>\<open>kInvalidHeapEntry\<close>) for anything but an allocation.\<close>

definition ib_getHeapEntry :: "irbuffer \<Rightarrow> nat \<Rightarrow> nat option result" where
  "ib_getHeapEntry b ref =
     res_bind (ib_ir b ref) (\<lambda>i. Inr (if ir_o i \<noteq> kNEW then None else Some (ir_op2 i)))"

text \<open>\<^verbatim>\<open>heap_.entries_[entry]\<close>: an unchecked array access.\<close>

definition heap_entry :: "irbuffer \<Rightarrow> nat \<Rightarrow> ah_entry result" where
  "heap_entry b entry =
     (if entry < length (ah_entries (ib_heap b)) then Inr (ah_entries (ib_heap b) ! entry)
      else Inl BadAccess)"

definition ib_setField :: "nat \<Rightarrow> nat \<Rightarrow> nat \<Rightarrow> irbuffer \<Rightarrow> unit ib_result" where
  "ib_setField entry field ref b =
     res_bind (heap_entry b entry) (\<lambda>e.
     res_bind (hs_set (ah_data (ib_heap b)) (ahe_ofs e + field) ref) (\<lambda>d.
       Inr ((), b\<lparr>ib_heap := (ib_heap b)\<lparr>ah_data := d\<rparr>\<rparr>)))"

definition ib_getField :: "irbuffer \<Rightarrow> nat \<Rightarrow> nat \<Rightarrow> nat result" where
  "ib_getField b entry field =
     res_bind (heap_entry b entry) (\<lambda>e. hs_at (ah_data (ib_heap b)) (ahe_ofs e + field))"

definition ib_numFields :: "irbuffer \<Rightarrow> nat \<Rightarrow> nat result" where
  "ib_numFields b entry = res_bind (heap_entry b entry) (\<lambda>e. Inr (ahe_size e))"

definition ib_update :: "nat \<Rightarrow> nat \<Rightarrow> irbuffer \<Rightarrow> unit ib_result" where
  "ib_update entry fwdref b =
     res_bind (heap_entry b entry) (\<lambda>e.
       Inr ((), b\<lparr>ib_heap := (ib_heap b)\<lparr>ah_entries :=
         (ah_entries (ib_heap b))[entry := e\<lparr>ahe_fwdref := fwdref mod 65536\<rparr>]\<rparr>\<rparr>))"

definition ib_isIndirection :: "irbuffer \<Rightarrow> nat \<Rightarrow> nat result" where
  "ib_isIndirection b entry = res_bind (heap_entry b entry) (\<lambda>e. Inr (ahe_fwdref e))"

definition sn_overallocated :: "snapshot \<Rightarrow> abstract_heap \<Rightarrow> nat result" where
  "sn_overallocated sn heap =
     (if sint (sn_lastHeapEntry sn) < 0 then Inr 0
      else res_bind (ah_entry_at heap (nat (sint (sn_lastHeapEntry sn)))) (\<lambda>e.
        Inr (ahe_overallocated e)))"

section \<open>Heap offsets\<close>

text \<open>
  \<^verbatim>\<open>setHeapOffsets\<close> walks the allocations and the heap checks backwards.  The inner loop
  passes the heap checks after the current allocation, each of which must cover what was
  allocated since.
\<close>

fun heapchk_loop :: "irbuffer \<Rightarrow> nat \<Rightarrow> nat \<Rightarrow> nat \<times> int \<times> nat \<Rightarrow> (nat \<times> int \<times> nat) result" where
  "heapchk_loop b cur 0 st = Inl Diverge"
| "heapchk_loop b cur (Suc fuel) (chkref, offset, heapchecks) =
     (if chkref > cur
      then res_bind (ib_ir b chkref) (\<lambda>i.
           res_bind (lc_assert (int (ir_op1 i) = - offset)) (\<lambda>_.
             heapchk_loop b cur fuel (ir_prev i, 0, heapchecks + 1)))
      else Inr (chkref, offset, heapchecks))"

fun heapofs_loop :: "nat \<Rightarrow> nat \<Rightarrow> nat \<times> int \<times> nat \<Rightarrow> irbuffer \<Rightarrow> (int \<times> nat) ib_result" where
  "heapofs_loop 0 cur st b = Inl Diverge"
| "heapofs_loop (Suc fuel) cur st b =
     res_bind (heapchk_loop b cur chain_fuel st) (\<lambda>(chkref, offset, heapchecks).
       if cur = 0 then Inr ((offset, heapchecks), b)
       else
         res_bind (ib_ir b cur) (\<lambda>i.
         res_bind (ah_entry_at (ib_heap b) (ir_op2 i)) (\<lambda>e.
         res_bind (lc_assert (offset \<le> 0)) (\<lambda>_.
           let sz = int (ahe_size e) + 1;
               e' = e\<lparr>ahe_overallocated := u2_of_int (- offset), ahe_hpofs := i2 (offset - sz)\<rparr>;
               b' = b\<lparr>ib_heap := (ib_heap b)\<lparr>ah_entries :=
                        (ah_entries (ib_heap b))[ir_op2 i := e']\<rparr>\<rparr>
           in heapofs_loop fuel (ir_prev i) (chkref, offset - sz, heapchecks) b'))))"

definition ib_setHeapOffsets :: "irbuffer \<Rightarrow> nat ib_result" where
  "ib_setHeapOffsets b =
     res_bind (heapofs_loop chain_fuel (ib_chain b kNEW) (ib_chain b kHEAPCHK, 0, 0) b)
       (\<lambda>((offset, heapchecks), b).
         res_bind (lc_assert (offset = 0)) (\<lambda>_. Inr (heapchecks, b)))"

section \<open>Well-formed buffers\<close>

definition is_lit_op :: "irop \<Rightarrow> bool" where
  "is_lit_op op \<longleftrightarrow> op = kKINT \<or> op = kKWORD \<or> op = kKWORDHI \<or> op = kKBASEO"

definition ir_ok :: "ir \<Rightarrow> bool" where
  "ir_ok i \<longleftrightarrow> ir_op1 i < 65536 \<and> ir_op2 i < 65536"

text \<open>
  A link of a chain is 0 or the reference of an instruction with the opcode of the chain, among
  the literals at least \<open>lo\<close>, among the instructions below \<open>hi\<close>.
\<close>

definition lit_link :: "irbuffer \<Rightarrow> irop \<Rightarrow> nat \<Rightarrow> nat \<Rightarrow> bool" where
  "lit_link b op lo r \<longleftrightarrow> r = 0 \<or> lo \<le> r \<and> r < REF_BIAS \<and> ir_o (ib_buffer b r) = op"

definition ins_link :: "irbuffer \<Rightarrow> irop \<Rightarrow> nat \<Rightarrow> nat \<Rightarrow> bool" where
  "ins_link b op hi r \<longleftrightarrow> r = 0 \<or> REF_BASE \<le> r \<and> r < hi \<and> ir_o (ib_buffer b r) = op"

definition wf_bounds :: "irbuffer \<Rightarrow> bool" where
  "wf_bounds b \<longleftrightarrow> 5 \<le> ib_bufstart b \<and> ib_bufstart b \<le> ib_bufmin b \<and> ib_bufmin b \<le> REF_BIAS \<and>
     REF_BASE \<le> ib_bufmax b \<and> ib_bufmax b \<le> ib_bufend b \<and> ib_bufend b < 65536"

definition wf_lit :: "irbuffer \<Rightarrow> nat \<Rightarrow> bool" where
  "wf_lit b ref \<longleftrightarrow>
     is_lit_op (ir_o (ib_buffer b ref)) \<and>
     lit_link b (ir_o (ib_buffer b ref)) (ref + 1) (ir_prev (ib_buffer b ref)) \<and>
     (ir_o (ib_buffer b ref) = kKWORD \<longrightarrow>
        ib_bufmin b < ref \<and> ir_o (ib_buffer b (ref - 1)) = kKWORDHI)"

definition wf_ins :: "irbuffer \<Rightarrow> nat \<Rightarrow> bool" where
  "wf_ins b ref \<longleftrightarrow>
     \<not> is_lit_op (ir_o (ib_buffer b ref)) \<and>
     ins_link b (ir_o (ib_buffer b ref)) ref (ir_prev (ib_buffer b ref))"

definition wf_chain :: "irbuffer \<Rightarrow> irop \<Rightarrow> bool" where
  "wf_chain b op \<longleftrightarrow>
     (if is_lit_op op then lit_link b op (ib_bufmin b) (ib_chain b op)
      else ins_link b op (ib_bufmax b) (ib_chain b op))"

definition ib_wf :: "irbuffer \<Rightarrow> bool" where
  "ib_wf b \<longleftrightarrow> wf_bounds b \<and>
     (\<forall>ref. ib_bufmin b \<le> ref \<and> ref < REF_BIAS \<longrightarrow> wf_lit b ref) \<and>
     (\<forall>ref. REF_BASE \<le> ref \<and> ref < ib_bufmax b \<longrightarrow> wf_ins b ref) \<and>
     (\<forall>op. wf_chain b op) \<and> (\<forall>ref. ir_ok (ib_buffer b ref))"

lemma ib_wfD:
  assumes "ib_wf b"
  shows "wf_bounds b" and "ib_bufmin b \<le> ref \<Longrightarrow> ref < REF_BIAS \<Longrightarrow> wf_lit b ref"
    and "REF_BASE \<le> ref \<Longrightarrow> ref < ib_bufmax b \<Longrightarrow> wf_ins b ref" and "wf_chain b op"
    and "ir_ok (ib_buffer b ref)"
  using assms by (auto simp: ib_wf_def)

lemma REF_BASE_BIAS: "REF_BASE = REF_BIAS"
  by (simp add: REF_BASE_def)

text \<open>What a buffer keeps when another one extends it.\<close>

definition ib_extends :: "irbuffer \<Rightarrow> irbuffer \<Rightarrow> bool" where
  "ib_extends b b' \<longleftrightarrow>
     ib_bufmin b' \<le> ib_bufmin b \<and> ib_bufmax b \<le> ib_bufmax b' \<and>
     (\<forall>ref. ib_bufmin b \<le> ref \<and> ref < ib_bufmax b \<longrightarrow> ib_buffer b' ref = ib_buffer b ref) \<and>
     as_origBase (ib_slots b') = as_origBase (ib_slots b)"

lemma ib_extends_refl [simp]: "ib_extends b b"
  by (simp add: ib_extends_def)

lemma ib_extends_trans: "ib_extends a b \<Longrightarrow> ib_extends b c \<Longrightarrow> ib_extends a c"
  by (auto simp: ib_extends_def)

lemma ib_ir_Inr_iff [result]:
  "ib_ir b ref = Inr i \<longleftrightarrow> ib_bufmin b \<le> ref \<and> ref \<le> ib_bufmax b \<and> i = ib_buffer b ref"
  by (auto simp: ib_ir_def result)

lemma ib_literalValue_extends:
  assumes "ib_extends b b'" and "ib_wf b" and "ib_bufmin b \<le> ref" and "ref < REF_BIAS"
  shows "ib_literalValue b' ref = ib_literalValue b ref"
proof -
  have r: "ib_ir b' ref = Inr (ib_buffer b ref)" "ib_ir b ref = Inr (ib_buffer b ref)"
    using assms by (auto simp: result ib_extends_def ib_wf_def wf_bounds_def REF_BASE_BIAS)
  have "ib_ir b' (ref - 1) = ib_ir b (ref - 1)" if "ir_o (ib_buffer b ref) = kKWORD"
  proof -
    have "ib_bufmin b < ref"
      using ib_wfD(2) [OF assms(2-4)] that by (simp add: wf_lit_def)
    then have "ib_bufmin b \<le> ref - 1" "ref - 1 < ib_bufmax b"
      using assms by (auto simp: ib_wf_def wf_bounds_def REF_BASE_BIAS)
    then show ?thesis
      using assms(1) by (auto simp: ib_extends_def ib_ir_def res_bind_lc_assert)
  qed
  with r assms(1) show ?thesis
    by (simp add: ib_literalValue_def ib_extends_def)
qed

text \<open>Facts that depend on the buffer only.\<close>

definition same_code :: "irbuffer \<Rightarrow> irbuffer \<Rightarrow> bool" where
  "same_code b b' \<longleftrightarrow> ib_buffer b' = ib_buffer b \<and> ib_bufmin b' = ib_bufmin b \<and>
     ib_bufmax b' = ib_bufmax b \<and> ib_slots b' = ib_slots b \<and> ib_chain b' = ib_chain b \<and>
     ib_bufstart b' = ib_bufstart b \<and> ib_bufend b' = ib_bufend b"

lemma same_code_wf: "same_code b b' \<Longrightarrow> ib_wf b' = ib_wf b"
  by (simp add: same_code_def ib_wf_def wf_bounds_def wf_lit_def wf_ins_def wf_chain_def lit_link_def
      ins_link_def)

lemma same_code_literalValue:
  assumes "same_code b b'"
  shows "ib_literalValue b' ref = ib_literalValue b ref"
proof -
  have "ib_ir b' = ib_ir b" "ib_slots b' = ib_slots b"
    using assms by (auto simp: same_code_def ib_ir_def fun_eq_iff)
  then show ?thesis by (simp only: ib_literalValue_def)
qed

lemma same_code_extends: "same_code b b' \<Longrightarrow> ib_extends b b'"
  by (simp add: same_code_def ib_extends_def)

lemma fins_setIns [simp]:
  "ir_o (fins (ib_setIns op ty x y b)) = op" "ir_t (fins (ib_setIns op ty x y b)) = ty"
  "ir_op1 (fins (ib_setIns op ty x y b)) = x mod 65536"
  "ir_op2 (fins (ib_setIns op ty x y b)) = y mod 65536"
  "ir_type (fins (ib_setIns op ty x y b)) = ty AND IRT_TYPE"
  "same_code b (ib_setIns op ty x y b)" "ib_flags (ib_setIns op ty x y b) = ib_flags b"
  by (simp_all add: ib_setIns_def fins_def ir_type_def same_code_def)

section \<open>Searching a chain\<close>

text \<open>
  The literal chains ascend towards the base, the instruction chains descend towards it, so a
  search of a well-formed buffer ends, with 0 or with a matching instruction of the opcode.
\<close>

lemma chain_find_lit:
  assumes wf: "ib_wf b" and op: "is_lit_op op"
    and link: "lit_link b op (ib_bufmin b) ref" and "0 < fuel" and "REF_BIAS - ref < fuel"
  shows "\<exists>r. chain_find (ib_buffer b) P fuel ref = Inr r \<and>
    (r \<noteq> 0 \<longrightarrow> P r \<and> ib_bufmin b \<le> r \<and> r < REF_BIAS \<and> ir_o (ib_buffer b r) = op)"
  using assms(3-5)
proof (induction fuel arbitrary: ref)
  case (Suc fuel)
  show ?case
  proof (cases "ref = 0 \<or> P ref")
    case False
    then have r: "ib_bufmin b \<le> ref" "ref < REF_BIAS" "ir_o (ib_buffer b ref) = op"
      using Suc.prems(1) by (auto simp: lit_link_def)
    from ib_wfD(2) [OF wf r(1,2)] r
    have next_: "lit_link b op (ref + 1) (ir_prev (ib_buffer b ref))"
      by (simp add: wf_lit_def)
    then have "lit_link b op (ib_bufmin b) (ir_prev (ib_buffer b ref))"
      using r by (auto simp: lit_link_def)
    moreover have "0 < fuel"
      using Suc.prems r by simp
    show ?thesis
    proof (cases "ir_prev (ib_buffer b ref) = 0")
      case True
      with False \<open>0 < fuel\<close> show ?thesis
        by (cases fuel) auto
    next
      case nz: False
      with next_ have "REF_BIAS - ir_prev (ib_buffer b ref) < fuel"
        using Suc.prems(3) r(1,2) by (auto simp: lit_link_def)
      with False Suc.IH [OF calculation \<open>0 < fuel\<close>] show ?thesis by simp
    qed
  qed (use Suc.prems in \<open>auto simp: lit_link_def\<close>)
qed simp

section \<open>Adding literals\<close>

lemma ib_wf_add_literals:
  assumes wf: "ib_wf b" and ext: "ib_extends b b'" and bnd: "wf_bounds b'"
    and same: "ib_bufmax b' = ib_bufmax b" "\<And>op. \<not> is_lit_op op \<Longrightarrow> ib_chain b' op = ib_chain b op"
    and new: "\<And>ref. ib_bufmin b' \<le> ref \<Longrightarrow> ref < ib_bufmin b \<Longrightarrow> wf_lit b' ref"
    and chain: "\<And>op. is_lit_op op \<Longrightarrow> lit_link b' op (ib_bufmin b') (ib_chain b' op)"
    and ok: "\<And>ref. ir_ok (ib_buffer b' ref)"
  shows "ib_wf b'"
proof -
  have bb: "REF_BASE \<le> ib_bufmax b" "ib_bufmin b \<le> REF_BIAS" "ib_bufmin b' \<le> ib_bufmin b"
    using ib_wfD(1) [OF wf] ext by (auto simp: wf_bounds_def ib_extends_def)
  have eq: "ib_buffer b' ref = ib_buffer b ref" if "ib_bufmin b \<le> ref" "ref < ib_bufmax b" for ref
    using ext that by (simp add: ib_extends_def)
  have lits: "wf_lit b' ref" if "ib_bufmin b \<le> ref" "ref < REF_BIAS" for ref
  proof -
    have "lit_link b' op (ref + 1) r" if "lit_link b op (ref + 1) r" for op r
      using that eq \<open>ib_bufmin b \<le> ref\<close> bb by (auto simp: lit_link_def REF_BASE_BIAS)
    then show ?thesis
      using ib_wfD(2) [OF wf that] eq [of ref] eq [of "ref - 1"] that bb
      by (auto simp: wf_lit_def REF_BASE_BIAS)
  qed
  have ins: "wf_ins b' ref" if "REF_BASE \<le> ref" "ref < ib_bufmax b" for ref
    using ib_wfD(3) [OF wf that] eq that bb by (auto simp: wf_ins_def ins_link_def REF_BASE_BIAS)
  have chains: "wf_chain b' op" for op
    using ib_wfD(4) [OF wf, of op] chain [of op] same eq bb
    by (auto simp: wf_chain_def ins_link_def REF_BASE_BIAS)
  show ?thesis
    unfolding ib_wf_def using bnd new lits ins chains ok same(1) by (metis not_le)
qed

lemma ir_ok_setOp12 [simp]: "ir_ok ((ir_setOp12 w i)\<lparr>ir_t := t, ir_o := op, ir_prev := p\<rparr>)"
proof -
  have "unat w < 2 ^ LENGTH(32)"
    by (rule unsigned_less)
  then show ?thesis
    by (simp add: ir_ok_def ir_setOp12_def)
qed

lemma op12_setOp12 [simp]: "ir_op12 (ir_setOp12 w i) = w"
proof -
  have "unat w mod 65536 + 65536 * (unat w div 65536) = unat w"
    by presburger
  then show ?thesis
    by (simp add: ir_op12_def ir_setOp12_def)
qed

lemma op12_update [simp]:
  "ir_op12 (i\<lparr>ir_t := t\<rparr>) = ir_op12 i" "ir_op12 (i\<lparr>ir_o := op\<rparr>) = ir_op12 i"
  "ir_op12 (i\<lparr>ir_prev := p\<rparr>) = ir_op12 i"
  by (simp_all add: ir_op12_def)

lemma type_update [simp]:
  "ir_type (i\<lparr>ir_t := t\<rparr>) = t AND IRT_TYPE" "ir_type (i\<lparr>ir_o := op\<rparr>) = ir_type i"
  "ir_type (i\<lparr>ir_prev := p\<rparr>) = ir_type i"
  by (simp_all add: ir_type_def)

lemma ib_nextLit_Inr_iff [result]:
  "ib_nextLit b = Inr (ref, b') \<longleftrightarrow>
     ib_bufstart b < ib_bufmin b \<and> ref = ib_bufmin b - 1 \<and> b' = b\<lparr>ib_bufmin := ref\<rparr>"
  by (auto simp: ib_nextLit_def ib_growBottom_def Let_def result)

lemma ib_nextIns_Inr_iff [result]:
  "ib_nextIns b = Inr (ref, b') \<longleftrightarrow>
     ib_bufmax b < ib_bufend b \<and> ref = ib_bufmax b \<and> b' = b\<lparr>ib_bufmax := ref + 1\<rparr>"
  by (auto simp: ib_nextIns_def ib_growTop_def Let_def result)

lemma ib_newLit_correct:
  assumes wf: "ib_wf b" and op: "op = kKINT \<or> op = kKBASEO"
    and call: "ib_newLit op w ty b = Inr (ref, b')"
  shows "ib_wf b'" and "ib_extends b b'" and "ib_bufmin b' = ref" and "ref < REF_BIAS"
    and "ir_op12 (ib_buffer b' ref) = w" and "ir_o (ib_buffer b' ref) = op"
    and "ir_t (ib_buffer b' ref) = ty" and "ib_bufmax b' = ib_bufmax b" and "ib_slots b' = ib_slots b"
    and "ib_chain b' op = ref"
proof -
  let ?i = "(ir_setOp12 w (ib_buffer b ref))\<lparr>ir_t := ty, ir_o := op, ir_prev := ib_chain b op\<rparr>"
  have room: "ib_bufstart b < ib_bufmin b" and ref: "ref = ib_bufmin b - 1"
    and b': "b' = ib_setChain op ref (ib_put ref ?i (b\<lparr>ib_bufmin := ref\<rparr>))"
    using call unfolding ib_newLit_def by (auto simp: result)
  have bnd: "5 \<le> ib_bufstart b" "ib_bufmin b \<le> REF_BIAS" "REF_BIAS \<le> ib_bufmax b"
      "ib_bufmax b \<le> ib_bufend b" "ib_bufend b < 65536"
    using ib_wfD(1) [OF wf] by (auto simp: wf_bounds_def REF_BASE_BIAS)
  have ref': "ref < ib_bufmin b" "0 < ref" "ref < REF_BIAS" "ref < 65536" "ib_bufstart b \<le> ref"
    using room ref bnd by auto
  show ext: "ib_extends b b'"
    using ref' by (auto simp: ib_extends_def b' ib_put_def ib_setChain_def)
  show mn: "ib_bufmin b' = ref" and "ib_bufmax b' = ib_bufmax b" and "ib_slots b' = ib_slots b"
    and ch: "ib_chain b' op = ref"
    using ref' by (simp_all add: b' ib_put_def ib_setChain_def)
  show "ref < REF_BIAS" by (rule ref'(3))
  show "ir_op12 (ib_buffer b' ref) = w" and "ir_o (ib_buffer b' ref) = op"
    and "ir_t (ib_buffer b' ref) = ty"
    by (simp_all add: b' ib_put_def ib_setChain_def)
  have lit: "is_lit_op op"
    using op by (auto simp: is_lit_op_def)
  have link: "lit_link b' op' (ref + 1) r" if "lit_link b op' (ib_bufmin b) r" for op' r
    using that ref' ref by (auto simp: lit_link_def b' ib_put_def ib_setChain_def)
  show "ib_wf b'"
  proof (rule ib_wf_add_literals [OF wf ext])
    show "wf_bounds b'"
      using bnd ref' ref by (simp add: wf_bounds_def b' ib_put_def ib_setChain_def REF_BASE_BIAS)
    show "ib_chain b' op' = ib_chain b op'" if "\<not> is_lit_op op'" for op'
      using that lit by (auto simp: b' ib_put_def ib_setChain_def)
    show "wf_lit b' r" if "ib_bufmin b' \<le> r" "r < ib_bufmin b" for r
    proof -
      have "r = ref" using that mn ref by simp
      moreover have "lit_link b' op (ref + 1) (ib_chain b op)"
        using ib_wfD(4) [OF wf, of op] lit by (intro link) (simp add: wf_chain_def)
      ultimately show ?thesis
        using lit op by (auto simp: wf_lit_def b' ib_put_def ib_setChain_def)
    qed
    show "lit_link b' op' (ib_bufmin b') (ib_chain b' op')" if "is_lit_op op'" for op'
    proof (cases "op' = op")
      case True
      then show ?thesis
        using ref' by (simp add: lit_link_def b' ib_put_def ib_setChain_def)
    next
      case False
      then have "ib_chain b' op' = ib_chain b op'"
        by (simp add: b' ib_setChain_def ib_put_def)
      moreover have "lit_link b' op' (ref + 1) (ib_chain b op')"
        using ib_wfD(4) [OF wf, of op'] that by (intro link) (simp add: wf_chain_def)
      ultimately show ?thesis
        using mn by (auto simp: lit_link_def)
    qed
    show "ir_ok (ib_buffer b' r)" for r
      using ib_wfD(5) [OF wf] by (simp add: b' ib_put_def ib_setChain_def)
  qed (simp add: b' ib_put_def ib_setChain_def)
qed

lemma ib_newLit64_correct:
  assumes wf: "ib_wf b" and call: "ib_newLit64 klo khi ty b = Inr (ref, b')"
  shows "ib_wf b'" and "ib_extends b b'" and "ib_bufmin b' < ref" and "ref < REF_BIAS"
    and "ir_op12 (ib_buffer b' ref) = klo" and "ir_op12 (ib_buffer b' (ref - 1)) = khi"
    and "ir_o (ib_buffer b' ref) = kKWORD" and "ir_t (ib_buffer b' ref) = ty"
    and "ib_bufmax b' = ib_bufmax b" and "ib_slots b' = ib_slots b"
    and "ib_chain b' kKWORD = ref"
proof -
  let ?lo = "(ir_setOp12 klo (ib_buffer b ref))\<lparr>ir_t := ty, ir_o := kKWORD, ir_prev := ib_chain b kKWORD\<rparr>"
  let ?hi = "(ir_setOp12 khi (ib_buffer b (ref - 1)))
      \<lparr>ir_t := ty, ir_o := kKWORDHI, ir_prev := ib_chain b kKWORDHI\<rparr>"
  have room: "ib_bufstart b < ib_bufmin b - 1" and ref: "ref = ib_bufmin b - 1"
    and b': "b' = ib_setChain kKWORDHI (ref - 1) (ib_setChain kKWORD ref
        (ib_put (ref - 1) ?hi (ib_put ref ?lo (b\<lparr>ib_bufmin := ref - 1\<rparr>))))"
    using call unfolding ib_newLit64_def Let_def by (auto simp: result ib_put_def)
  have bnd: "5 \<le> ib_bufstart b" "ib_bufmin b \<le> REF_BIAS" "REF_BIAS \<le> ib_bufmax b"
      "ib_bufmax b \<le> ib_bufend b" "ib_bufend b < 65536"
    using ib_wfD(1) [OF wf] by (auto simp: wf_bounds_def REF_BASE_BIAS)
  have ref': "ref < ib_bufmin b" "1 < ref" "ref < REF_BIAS" "ref < 65536" "ib_bufstart b \<le> ref - 1"
    using room ref bnd by auto
  show ext: "ib_extends b b'"
    using ref' by (auto simp: ib_extends_def b' ib_put_def ib_setChain_def)
  have mn: "ib_bufmin b' = ref - 1"
    by (simp add: b' ib_put_def ib_setChain_def)
  then show "ib_bufmin b' < ref" using ref' by simp
  show "ib_bufmax b' = ib_bufmax b" and "ib_slots b' = ib_slots b" and "ib_chain b' kKWORD = ref"
    using ref' by (simp_all add: b' ib_put_def ib_setChain_def)
  show "ref < REF_BIAS" by (rule ref'(3))
  have buf: "ib_buffer b' ref = ?lo" "ib_buffer b' (ref - 1) = ?hi"
    using ref' by (simp_all add: b' ib_put_def ib_setChain_def)
  then show "ir_op12 (ib_buffer b' ref) = klo" and "ir_op12 (ib_buffer b' (ref - 1)) = khi"
    and "ir_o (ib_buffer b' ref) = kKWORD" and "ir_t (ib_buffer b' ref) = ty"
    by simp_all
  have link: "lit_link b' op (ref + 1) r" if "lit_link b op (ib_bufmin b) r" for op r
    using that ref' ref by (auto simp: lit_link_def b' ib_put_def ib_setChain_def)
  have old: "lit_link b' op (ref + 1) (ib_chain b op)" if "is_lit_op op" for op
    using ib_wfD(4) [OF wf, of op] that by (intro link) (simp add: wf_chain_def)
  show "ib_wf b'"
  proof (rule ib_wf_add_literals [OF wf ext])
    show "wf_bounds b'"
      using bnd ref' ref by (simp add: wf_bounds_def b' ib_put_def ib_setChain_def REF_BASE_BIAS)
    show "ib_chain b' op = ib_chain b op" if "\<not> is_lit_op op" for op
      using that by (auto simp: b' ib_put_def ib_setChain_def is_lit_op_def)
    show "wf_lit b' r" if "ib_bufmin b' \<le> r" "r < ib_bufmin b" for r
    proof -
      have "r = ref \<or> r = ref - 1" using that mn ref by auto
      then show ?thesis
        using old [of kKWORD] old [of kKWORDHI] ref' mn buf
        by (auto simp: wf_lit_def is_lit_op_def lit_link_def)
    qed
    show "lit_link b' op (ib_bufmin b') (ib_chain b' op)" if "is_lit_op op" for op
    proof (cases "op = kKWORD \<or> op = kKWORDHI")
      case True
      then show ?thesis
        using ref' buf mn by (auto simp: lit_link_def b' ib_put_def ib_setChain_def)
    next
      case False
      then have "ib_chain b' op = ib_chain b op"
        by (simp add: b' ib_setChain_def ib_put_def)
      then show ?thesis
        using mn old [OF that] by (auto simp: lit_link_def)
    qed
    show "ir_ok (ib_buffer b' r)" for r
      using ib_wfD(5) [OF wf] by (simp add: b' ib_put_def ib_setChain_def)
  qed (simp add: b' ib_put_def ib_setChain_def)
qed

lemma tref_ref_mk [simp]: "ref < 65536 \<Longrightarrow> tref_ref (tref_mk ref ty) = ref"
proof -
  assume "ref < 65536"
  have "ucast (ucast (of_nat ref :: u2) + push_bit 24 (ucast ty) :: u4) = (of_nat ref :: u2)"
  proof -
    have "ucast (of_nat ref :: u2) AND push_bit 24 (ucast ty) = (0 :: u4)"
      by (rule bit_word_eqI) (auto simp: bit_simps dest: bit_imp_le_length)
    then have "ucast (of_nat ref :: u2) + push_bit 24 (ucast ty) =
        (ucast (of_nat ref :: u2) OR push_bit 24 (ucast ty) :: u4)"
      by (rule disjunctive_add_eq_or)
    moreover have "ucast (ucast (of_nat ref :: u2) OR push_bit 24 (ucast ty) :: u4) = (of_nat ref :: u2)"
      by (rule bit_word_eqI) (auto simp: bit_simps)
    ultimately show ?thesis by simp
  qed
  with \<open>ref < 65536\<close> show ?thesis
    by (simp add: tref_ref_def tref_mk_def unat_of_nat_small)
qed

lemma chain_search_lit:
  assumes "ib_wf b" and "is_lit_op op"
  shows "\<exists>r. chain_search b op P = Inr r \<and>
    (r \<noteq> 0 \<longrightarrow> P r \<and> ib_bufmin b \<le> r \<and> r < REF_BIAS \<and> ir_o (ib_buffer b r) = op)"
  unfolding chain_search_def
  using assms ib_wfD(4) [OF assms(1), of op]
  by (intro chain_find_lit) (auto simp: wf_chain_def chain_fuel_def REF_BIAS_def)

text \<open>The value a literal of the given type is read back as.\<close>

definition lit_norm :: "u1 \<Rightarrow> u8 \<Rightarrow> u8" where
  "lit_norm ty lit = (if checki32 lit \<and> \<not> isSigned ty then ucast (ucast lit :: u4) else lit)"

lemma literalValue_KINT:
  assumes "ib_bufmin b \<le> ref" "ref \<le> ib_bufmax b" "ir_o (ib_buffer b ref) = kKINT"
    "ir_op12 (ib_buffer b ref) = ucast lit" "ir_type (ib_buffer b ref) = ty" "checki32 lit"
  shows "ib_literalValue b ref = Inr (lit_norm ty lit)"
  using assms by (simp add: ib_literalValue_def ib_ir_def res_bind_lc_assert lit_norm_def
      isSigned_def checki32_def)

lemma ucast_split64: "ucast (ucast lit :: u4) OR push_bit 32 (ucast (ucast (drop_bit 32 lit) :: u4)) = (lit :: u8)"
  by (rule bit_word_eqI) (auto simp: bit_simps)

lemma literalValue_KWORD:
  assumes "ib_bufmin b < ref" "ref \<le> ib_bufmax b" "ir_o (ib_buffer b ref) = kKWORD"
    "ir_op12 (ib_buffer b ref) = ucast lit"
    "ir_op12 (ib_buffer b (ref - 1)) = ucast (drop_bit 32 lit)" "\<not> checki32 lit"
  shows "ib_literalValue b ref = Inr (lit_norm ty lit)"
proof -
  have "ib_ir b ref = Inr (ib_buffer b ref)" "ib_ir b (ref - 1) = Inr (ib_buffer b (ref - 1))"
    using assms by (auto simp: result)
  with assms show ?thesis
    by (simp add: ib_literalValue_def lit_norm_def ucast_split64)
qed

lemma ib_literal_correct:
  assumes wf: "ib_wf b" and ty: "ty AND IRT_TYPE = ty"
    and call: "ib_literal ty lit b = Inr (tr, b')"
  shows "ib_wf b' \<and> ib_extends b b' \<and> ib_bufmin b' \<le> tref_ref tr \<and> tref_ref tr < REF_BIAS \<and>
    ib_literalValue b' (tref_ref tr) = Inr (lit_norm ty lit) \<and>
    ib_bufmax b' = ib_bufmax b \<and> ib_slots b' = ib_slots b \<and> ir_type (ib_buffer b' (tref_ref tr)) = ty"
proof -
  have bnd: "ib_bufmin b \<le> REF_BIAS" "REF_BIAS \<le> ib_bufmax b"
    using ib_wfD(1) [OF wf] by (auto simp: wf_bounds_def REF_BASE_BIAS)
  have small: "r < 65536" if "r < REF_BIAS" for r
    using that by (simp add: REF_BIAS_def)
  show ?thesis
  proof (cases "checki32 lit")
    case True
    let ?P = "\<lambda>ref. ir_op12 (ib_buffer b ref) = ucast lit \<and> ir_type (ib_buffer b ref) = ty"
    obtain r where r: "chain_search b kKINT ?P = Inr r"
      "r \<noteq> 0 \<longrightarrow> ?P r \<and> ib_bufmin b \<le> r \<and> r < REF_BIAS \<and> ir_o (ib_buffer b r) = kKINT"
      using chain_search_lit [OF wf, of kKINT ?P] by (auto simp: is_lit_op_def)
    show ?thesis
    proof (cases "r = 0")
      case False
      then have "tr = tref_mk r ty" "b' = b"
        using call True r by (auto simp: ib_literal_def)
      then show ?thesis
        using False r wf small [of r] literalValue_KINT [of b r lit ty] True bnd by simp
    next
      case z: True
      then obtain ref where new: "ib_newLit kKINT (ucast lit) ty b = Inr (ref, b')" "tr = tref_mk ref ty"
        using call True r by (auto simp: ib_literal_def result)
      note c = ib_newLit_correct [OF wf disjI1 [OF refl] new(1)]
      have "ir_type (ib_buffer b' ref) = ty"
        using c ty by (simp add: ir_type_def)
      then show ?thesis
        using c new(2) small [of ref] literalValue_KINT [of b' ref lit ty] True bnd by simp
    qed
  next
    case False
    let ?P = "\<lambda>ref. ir_type (ib_buffer b ref) = ty \<and> ir_op12 (ib_buffer b ref) = ucast lit \<and>
                       ir_op12 (ib_buffer b (ref - 1)) = ucast (drop_bit 32 lit)"
    obtain r where r: "chain_search b kKWORD ?P = Inr r"
      "r \<noteq> 0 \<longrightarrow> ?P r \<and> ib_bufmin b \<le> r \<and> r < REF_BIAS \<and> ir_o (ib_buffer b r) = kKWORD"
      using chain_search_lit [OF wf, of kKWORD ?P] by (auto simp: is_lit_op_def)
    show ?thesis
    proof (cases "r = 0")
      case nz: False
      then have "tr = tref_mk r ty" "b' = b"
        using call False r by (auto simp: ib_literal_def)
      moreover have "ib_bufmin b < r"
        using ib_wfD(2) [OF wf, of r] r nz by (simp add: wf_lit_def)
      ultimately show ?thesis
        using nz r wf small [of r] literalValue_KWORD [of b r lit ty] False bnd by simp
    next
      case z: True
      then obtain ref where new: "ib_newLit64 (ucast lit) (ucast (drop_bit 32 lit)) ty b = Inr (ref, b')"
          "tr = tref_mk ref ty"
        using call False r by (auto simp: ib_literal_def result)
      note c = ib_newLit64_correct [OF wf new(1)]
      then show ?thesis
        using new(2) small [of ref] literalValue_KWORD [of b' ref lit ty] False bnd ty
        by (simp add: ir_type_def)
    qed
  qed
qed

lemma chain_fuel_Suc: "chain_fuel = Suc 65536"
  by (simp add: chain_fuel_def)

lemma chain_search_head:
  "ib_chain b op = r \<Longrightarrow> r \<noteq> 0 \<Longrightarrow> P r \<Longrightarrow> chain_search b op P = Inr r"
  unfolding chain_search_def chain_fuel_Suc by (subst chain_find.simps) simp

lemma ib_literal_again:
  assumes wf: "ib_wf b" and ty: "ty AND IRT_TYPE = ty"
    and call: "ib_literal ty lit b = Inr (tr, b')"
  shows "ib_literal ty lit b' = Inr (tr, b')"
proof (cases "b' = b")
  case True
  with call show ?thesis by simp
next
  case False
  show ?thesis
  proof (cases "checki32 lit")
    case True
    then obtain ref where new: "ib_newLit kKINT (ucast lit) ty b = Inr (ref, b')" "tr = tref_mk ref ty"
      using call False by (auto simp: ib_literal_def Let_def result split: if_splits)
    note c = ib_newLit_correct [OF wf disjI1 [OF refl] new(1)]
    moreover have "0 < ref"
      using c(1,3) by (auto simp: ib_wf_def wf_bounds_def)
    ultimately show ?thesis
      using True ty new(2) by (simp add: ib_literal_def chain_search_head ir_type_def)
  next
    case big: False
    then obtain ref where new: "ib_newLit64 (ucast lit) (ucast (drop_bit 32 lit)) ty b = Inr (ref, b')"
        "tr = tref_mk ref ty"
      using call False by (auto simp: ib_literal_def Let_def result split: if_splits)
    note c = ib_newLit64_correct [OF wf new(1)]
    then show ?thesis
      using big ty new(2) by (simp add: ib_literal_def chain_search_head ir_type_def)
  qed
qed

lemma ib_literal_total:
  assumes wf: "ib_wf b" and room: "ib_bufstart b + 2 \<le> ib_bufmin b"
  shows "\<exists>tr b'. ib_literal ty lit b = Inr (tr, b')"
proof -
  have "REF_BIAS \<le> ib_bufmax b" "ib_bufmin b \<le> REF_BIAS"
    using ib_wfD(1) [OF wf] by (auto simp: wf_bounds_def REF_BASE_BIAS)
  then have n1: "\<exists>x. ib_newLit kKINT w ty b = Inr x"
    and n2: "\<exists>x. ib_newLit64 w w' ty b = Inr x" for w w'
    using room
    by (auto simp: ib_newLit_def ib_newLit64_def ib_nextLit_def ib_ir_def Let_def lc_assert_def)
  show ?thesis
  proof (cases "checki32 lit")
    case True
    obtain r where "chain_search b kKINT (\<lambda>ref. ir_op12 (ib_buffer b ref) = ucast lit \<and>
        ir_type (ib_buffer b ref) = ty) = Inr r"
      using chain_search_lit [OF wf, of kKINT] by (auto simp: is_lit_op_def)
    with True n1 [of "ucast lit"] show ?thesis
      by (auto simp: ib_literal_def Let_def)
  next
    case False
    obtain r where "chain_search b kKWORD (\<lambda>ref. ir_type (ib_buffer b ref) = ty \<and>
        ir_op12 (ib_buffer b ref) = ucast lit \<and>
        ir_op12 (ib_buffer b (ref - 1)) = ucast (drop_bit 32 lit)) = Inr r"
      using chain_search_lit [OF wf, of kKWORD] by (auto simp: is_lit_op_def)
    with False n2 [of "ucast lit" "ucast (drop_bit 32 lit)"] show ?thesis
      by (auto simp: ib_literal_def Let_def)
  qed
qed

lemma ib_baseLiteral_correct:
  assumes wf: "ib_wf b" and call: "ib_baseLiteral p b = Inr (tr, b')"
    and p: "as_origBase (ib_slots b) + 8 * scast (of_int (as_baseOffset (ib_slots b) p) :: u4) = p"
  shows "ib_wf b' \<and> ib_extends b b' \<and> ib_bufmin b' \<le> tref_ref tr \<and> tref_ref tr < REF_BIAS \<and>
    ib_literalValue b' (tref_ref tr) = Inr p"
proof -
  let ?o = "of_int (as_baseOffset (ib_slots b) p) :: u4"
  have bnd: "ib_bufmin b \<le> REF_BIAS" "REF_BIAS \<le> ib_bufmax b"
    using ib_wfD(1) [OF wf] by (auto simp: wf_bounds_def REF_BASE_BIAS)
  have small: "r < 65536" if "r < REF_BIAS" for r
    using that by (simp add: REF_BIAS_def)
  have val: "ib_literalValue c r = Inr p"
    if "ib_bufmin c \<le> r" "r \<le> ib_bufmax c" "ir_o (ib_buffer c r) = kKBASEO"
      "ir_op12 (ib_buffer c r) = ?o" "ib_slots c = ib_slots b" for c r
    using that p by (simp add: ib_literalValue_def ib_ir_def res_bind_lc_assert)
  let ?P = "\<lambda>ref. ir_op12 (ib_buffer b ref) = ?o"
  obtain r where r: "chain_search b kKBASEO ?P = Inr r"
    "r \<noteq> 0 \<longrightarrow> ?P r \<and> ib_bufmin b \<le> r \<and> r < REF_BIAS \<and> ir_o (ib_buffer b r) = kKBASEO"
    using chain_search_lit [OF wf, of kKBASEO ?P] by (auto simp: is_lit_op_def)
  show ?thesis
  proof (cases "r = 0")
    case False
    then have "tr = tref_mk r IRT_PTR" "b' = b"
      using call r by (auto simp: ib_baseLiteral_def)
    then show ?thesis
      using False r wf small [of r] bnd val [of b r] by simp
  next
    case True
    then obtain ref where new: "ib_newLit kKBASEO ?o IRT_PTR b = Inr (ref, b')"
        "tr = tref_mk ref IRT_PTR"
      using call r by (auto simp: ib_baseLiteral_def result)
    note c = ib_newLit_correct [OF wf disjI2 [OF refl] new(1)]
    then show ?thesis
      using new(2) small [of ref] bnd val [of b' ref] by simp
  qed
qed

section \<open>Emitting instructions\<close>

text \<open>A buffer after emission: the instruction is appended and heads its chain; a guard also
  takes a snapshot.\<close>

lemma ib_snapshot_frame:
  "ib_snapshot ref pc b = Inr ((), b') \<Longrightarrow>
     \<exists>sd sns. b' = b\<lparr>ib_snapmap := sd, ib_snaps := sns\<rparr>"
  by (auto simp: ib_snapshot_def result)

lemma ib_emit_shape:
  assumes "ib_emit b = Inr (tr, b')"
  shows "ib_bufmax b < ib_bufend b \<and> tr = tref_mk (ib_bufmax b) (ir_t (fins b)) \<and>
    (\<exists>sd sns. b' = b\<lparr>ib_bufmax := ib_bufmax b + 1,
       ib_buffer := (ib_buffer b)(ib_bufmax b := (fins b)\<lparr>ir_prev := ib_chain b (ir_o (fins b))\<rparr>),
       ib_chain := (ib_chain b)(ir_o (fins b) := ib_bufmax b mod 65536),
       ib_snapmap := sd, ib_snaps := sns\<rparr>)"
proof -
  have eta: "i\<lparr>ir_prev := p, ir_o := ir_o (fins b), ir_op1 := ir_op1 (fins b),
      ir_op2 := ir_op2 (fins b), ir_t := ir_t (fins b)\<rparr> = (fins b)\<lparr>ir_prev := p\<rparr>" for i :: ir and p
    by simp
  have [simp]: "fins (b\<lparr>ib_bufmax := n\<rparr>) = fins b" for n
    by (simp add: fins_def)
  show ?thesis
  proof (cases "ir_t (fins b) AND IRT_GUARD = 0")
    case True
    then show ?thesis
      using assms unfolding ib_emit_def Let_def
      by (auto simp: result eta ib_put_def ib_setChain_def
          intro!: exI [of _ "ib_snapmap b"] exI [of _ "ib_snaps b"])
  next
    case False
    then show ?thesis
      using assms unfolding ib_emit_def Let_def
      by (auto simp: result eta ib_put_def ib_setChain_def dest!: ib_snapshot_frame)
  qed
qed

lemma ib_wf_emit:
  assumes wf: "ib_wf b" and op: "\<not> is_lit_op (ir_o (fins b))" and ok: "ir_ok (fins b)"
    and call: "ib_emit b = Inr (tr, b')"
  shows "ib_wf b'" and "ib_extends b b'" and "tref_ref tr = ib_bufmax b"
    and "ib_bufmax b' = ib_bufmax b + 1" and "ib_bufmin b' = ib_bufmin b"
    and "ib_buffer b' (ib_bufmax b) = (fins b)\<lparr>ir_prev := ib_chain b (ir_o (fins b))\<rparr>"
    and "ib_slots b' = ib_slots b" and "ib_heap b' = ib_heap b" and "ib_flags b' = ib_flags b"
proof -
  let ?n = "ib_bufmax b"
  obtain sd sns where room: "?n < ib_bufend b" and tr: "tr = tref_mk ?n (ir_t (fins b))"
    and b': "b' = b\<lparr>ib_bufmax := ?n + 1,
       ib_buffer := (ib_buffer b)(?n := (fins b)\<lparr>ir_prev := ib_chain b (ir_o (fins b))\<rparr>),
       ib_chain := (ib_chain b)(ir_o (fins b) := ?n mod 65536),
       ib_snapmap := sd, ib_snaps := sns\<rparr>"
    using ib_emit_shape [OF call] by blast
  have bnd: "5 \<le> ib_bufstart b" "ib_bufstart b \<le> ib_bufmin b" "ib_bufmin b \<le> REF_BIAS"
    "REF_BASE \<le> ?n" "ib_bufend b < 65536" "?n < 65536"
    using ib_wfD(1) [OF wf] room by (auto simp: wf_bounds_def)
  show "tref_ref tr = ?n" using tr bnd by simp
  show "ib_extends b b'" by (simp add: b' ib_extends_def)
  show "ib_bufmax b' = ?n + 1" "ib_bufmin b' = ib_bufmin b"
    "ib_buffer b' ?n = (fins b)\<lparr>ir_prev := ib_chain b (ir_o (fins b))\<rparr>"
    "ib_slots b' = ib_slots b" "ib_heap b' = ib_heap b" "ib_flags b' = ib_flags b"
    by (simp_all add: b')
  have ilink: "ins_link b' op' hi r" if "ins_link b op' hi r" "hi \<le> ?n" for op' hi r
    using that by (auto simp: ins_link_def b')
  have llink: "lit_link b' op' lo r" if "lit_link b op' lo r" for op' lo r
    using that bnd by (auto simp: lit_link_def b' REF_BASE_BIAS)
  have lits: "wf_lit b' ref" if "ib_bufmin b \<le> ref" "ref < REF_BIAS" for ref
    using ib_wfD(2) [OF wf that] llink that bnd by (auto simp: wf_lit_def b' REF_BASE_BIAS)
  have ins: "wf_ins b' ref" if "REF_BASE \<le> ref" "ref < ?n + 1" for ref
  proof (cases "ref = ?n")
    case True
    have "ins_link b' (ir_o (fins b)) ?n (ib_chain b (ir_o (fins b)))"
      using ib_wfD(4) [OF wf, of "ir_o (fins b)"] op by (intro ilink) (simp_all add: wf_chain_def)
    with True op show ?thesis by (simp add: wf_ins_def b')
  next
    case False
    with that have "ref < ?n" by simp
    then show ?thesis
      using ib_wfD(3) [OF wf that(1)] ilink [of _ ref] by (auto simp: wf_ins_def b')
  qed
  have chains: "wf_chain b' op'" for op'
  proof (cases "op' = ir_o (fins b)")
    case True
    then show ?thesis using op bnd by (simp add: wf_chain_def b' ins_link_def)
  next
    case False
    then show ?thesis
      using ib_wfD(4) [OF wf, of op'] ilink [of op' ?n] llink by (auto simp: wf_chain_def b' ins_link_def)
  qed
  have "wf_bounds b'"
    using ib_wfD(1) [OF wf] room by (simp add: wf_bounds_def b')
  moreover have "ir_ok (ib_buffer b' ref)" for ref
    using ib_wfD(5) [OF wf, of ref] ok by (simp add: b' ir_ok_def)
  ultimately show "ib_wf b'"
    unfolding ib_wf_def using lits ins chains
    by (intro conjI allI impI) (simp_all add: b')
qed

section \<open>Common subexpressions\<close>

lemma of_nat_u4_inject:
  assumes "(of_nat m :: u4) = of_nat n" and "m < 2 ^ 32" and "n < 2 ^ 32"
  shows "m = n"
proof -
  have "unat (of_nat m :: u4) = m" "unat (of_nat n :: u4) = n"
    using assms(2,3) by (simp_all add: unat_of_nat_small)
  with assms(1) show ?thesis by metis
qed

lemma digit_inject:
  assumes "a + k * c = x + k * y" and "a < k" and "x < (k::nat)"
  shows "a = x \<and> c = y"
proof
  show "a = x"
    using arg_cong [OF assms(1), of "\<lambda>n. n mod k"] assms(2,3) by simp
  with assms show "c = y" by simp
qed

lemma op12_inject:
  assumes "ir_ok i" and "ir_op12 i = of_nat a + push_bit 16 (of_nat c)" and "a < 65536" "c < 65536"
  shows "ir_op1 i = a \<and> ir_op2 i = c"
proof -
  have "push_bit 16 (of_nat c :: u4) = of_nat (65536 * c)"
    by (simp add: push_bit_eq_mult)
  then have "(of_nat (ir_op1 i + 65536 * ir_op2 i) :: u4) = of_nat (a + 65536 * c)"
    using assms(2) by (simp add: ir_op12_def)
  then have "ir_op1 i + 65536 * ir_op2 i = a + 65536 * c"
    using assms by (intro of_nat_u4_inject) (auto simp: ir_ok_def)
  then show ?thesis
    using assms(1,3) by (intro digit_inject) (simp_all add: ir_ok_def)
qed

lemma cse_find_correct:
  assumes wf: "ib_wf b" and op: "\<not> is_lit_op op"
    and link: "ins_link b op (ib_bufmax b) ref" and "ref < fuel"
  shows "\<exists>r. cse_find b lim w fuel ref = Inr r \<and>
    (r \<noteq> 0 \<longrightarrow> lim < r \<and> REF_BASE \<le> r \<and> r < ib_bufmax b \<and>
      ir_o (ib_buffer b r) = op \<and> ir_op12 (ib_buffer b r) = w)"
  using link \<open>ref < fuel\<close>
proof (induction fuel arbitrary: ref)
  case (Suc fuel)
  show ?case
  proof (cases "lim < ref")
    case True
    then have r: "REF_BASE \<le> ref" "ref < ib_bufmax b" "ir_o (ib_buffer b ref) = op"
      using Suc.prems by (auto simp: ins_link_def)
    then have acc: "ib_ir b ref = Inr (ib_buffer b ref)"
      using ib_wfD(1) [OF wf] by (auto simp: result wf_bounds_def REF_BASE_BIAS)
    have prev: "ins_link b op ref (ir_prev (ib_buffer b ref))"
      using ib_wfD(3) [OF wf r(1,2)] r by (simp add: wf_ins_def)
    then have "ins_link b op (ib_bufmax b) (ir_prev (ib_buffer b ref))"
      and "ir_prev (ib_buffer b ref) < fuel"
      using r Suc.prems True by (auto simp: ins_link_def)
    from Suc.IH [OF this] show ?thesis
      using True r acc by auto
  qed simp
qed simp

lemma ib_optCSE_correct:
  assumes wf: "ib_wf b" and op: "\<not> is_lit_op (ir_o (fins b))" and ok: "ir_ok (fins b)"
    and call: "ib_optCSE b = Inr (tr, b')"
  shows "ib_wf b' \<and> ib_extends b b' \<and> REF_BASE \<le> tref_ref tr \<and> tref_ref tr < ib_bufmax b' \<and>
    ir_o (ib_buffer b' (tref_ref tr)) = ir_o (fins b) \<and>
    ir_op1 (ib_buffer b' (tref_ref tr)) = ir_op1 (fins b) \<and>
    ir_op2 (ib_buffer b' (tref_ref tr)) = ir_op2 (fins b) \<and>
    (b' = b \<or> tref_ref tr = ib_bufmax b \<and> ib_bufmax b' = ib_bufmax b + 1)"
proof -
  let ?op = "ir_o (fins b)"
  let ?w = "of_nat (ir_op1 (fins b)) + push_bit 16 (of_nat (ir_op2 (fins b))) :: u4"
  let ?lim = "if ir_op2 (fins b) > ir_op1 (fins b) then ir_op2 (fins b) else ir_op1 (fins b)"
  have emitted: ?thesis if "ib_emit b = Inr (tr, b')"
    using ib_wf_emit [OF wf op ok that] ib_wfD(1) [OF wf] by (auto simp: wf_bounds_def)
  have bnd: "ib_bufend b < 65536" "ib_bufmax b \<le> ib_bufend b"
    using ib_wfD(1) [OF wf] by (auto simp: wf_bounds_def)
  have link: "ins_link b ?op (ib_bufmax b) (ib_chain b ?op)"
    using ib_wfD(4) [OF wf, of ?op] op by (simp add: wf_chain_def)
  then have "ib_chain b ?op < chain_fuel"
    using bnd by (auto simp: ins_link_def chain_fuel_def)
  from cse_find_correct [OF wf op link this]
  obtain r where r: "cse_find b ?lim ?w chain_fuel (ib_chain b ?op) = Inr r"
    "r \<noteq> 0 \<longrightarrow> ?lim < r \<and> REF_BASE \<le> r \<and> r < ib_bufmax b \<and>
      ir_o (ib_buffer b r) = ?op \<and> ir_op12 (ib_buffer b r) = ?w"
    by blast
  show ?thesis
  proof (cases "flag_get (ib_flags b) kOptCSE \<and> r \<noteq> 0")
    case True
    then have r': "REF_BASE \<le> r" "r < ib_bufmax b" "ir_o (ib_buffer b r) = ?op"
        "ir_op12 (ib_buffer b r) = ?w"
      using r(2) by auto
    then have "tr = tref_mk r (ir_t (ib_buffer b r))" "b' = b"
      using call True r(1) by (auto simp: ib_optCSE_def Let_def result)
    then show ?thesis
      using r' bnd op12_inject [OF ib_wfD(5) [OF wf] r'(4)] ok wf by (auto simp: ir_ok_def)
  next
    case False
    then have "ib_emit b = Inr (tr, b')"
      using call r(1) by (auto simp: ib_optCSE_def Let_def split: if_splits)
    then show ?thesis by (rule emitted)
  qed
qed

section \<open>The heap of a trace\<close>

definition hs_ok :: "heap_snap_data \<Rightarrow> bool" where
  "hs_ok d \<longleftrightarrow> hs_next d \<le> hs_size d \<and> (hs_size d = 0 \<or> (\<exists>k\<le>11. hs_size d = 32 * 2 ^ k))"

text \<open>The fields of the entries occupy disjoint, ascending ranges of the reserved words.\<close>

definition ah_wf :: "abstract_heap \<Rightarrow> bool" where
  "ah_wf h \<longleftrightarrow> hs_ok (ah_data h) \<and>
     (\<forall>i j. i < j \<and> j < length (ah_entries h) \<longrightarrow>
        ahe_ofs (ah_entries h ! i) + ahe_size (ah_entries h ! i) \<le> ahe_ofs (ah_entries h ! j)) \<and>
     (\<forall>i < length (ah_entries h).
        ahe_ofs (ah_entries h ! i) + ahe_size (ah_entries h ! i) \<le> hs_next (ah_data h))"

lemma hs_ok_size: "hs_ok d \<Longrightarrow> hs_size d \<le> 65536"
proof -
  have "k \<le> 11 \<Longrightarrow> 32 * 2 ^ k \<le> (65536::nat)" for k
    using power_increasing [of k 11 "2::nat"] by simp
  then show "hs_ok d \<Longrightarrow> hs_size d \<le> 65536"
    by (auto simp: hs_ok_def)
qed

lemma hs_growTop_ok:
  assumes "hs_ok d" and "hs_growTop d = Inr d'"
  shows "hs_ok d' \<and> hs_next d' = hs_next d \<and> hs_data d' = hs_data d"
proof -
  have small: "hs_size d \<le> 50000" and d': "d' = d\<lparr>hs_size := (let s = hs_size d * 2 in if s < 32 then 32 else s)\<rparr>"
    using assms(2) by (auto simp: hs_growTop_def split: if_splits)
  show ?thesis
  proof (cases "hs_size d = 0")
    case True
    then show ?thesis
      using assms(1) d' by (auto simp: hs_ok_def intro!: exI [of _ 0])
  next
    case False
    then obtain k where k: "k \<le> 11" "hs_size d = 32 * 2 ^ k"
      using assms(1) by (auto simp: hs_ok_def)
    have "k \<noteq> 11" using k(2) small by auto
    with k(1) have "k < 11" by simp
    moreover have "\<not> hs_size d * 2 < 32" using k(2) by simp
    ultimately show ?thesis
      using assms(1) d' k by (auto simp: hs_ok_def Let_def intro!: exI [of _ "Suc k"])
  qed
qed

lemma hs_reserve_loop_ok:
  assumes "hs_ok d" and "hs_reserve_loop d n = Inr d'"
  shows "hs_ok d' \<and> hs_next d' = hs_next d \<and> hs_data d' = hs_data d \<and> hs_next d' + n < hs_size d'"
  using assms
proof (induction d n rule: hs_reserve_loop.induct)
  case (1 d n)
  show ?case
  proof (cases "hs_next d + n \<ge> hs_size d")
    case True
    then obtain d1 where g: "hs_growTop d = Inr d1" "hs_reserve_loop d1 n = Inr d'"
      using 1(3) by (subst (asm) hs_reserve_loop.simps) (auto split: sum.splits)
    show ?thesis
      using 1(1) [OF True g(1) _ g(2)] hs_growTop_ok [OF 1(2) g(1)] by simp
  next
    case False
    then show ?thesis
      using 1(2,3) by (subst (asm) hs_reserve_loop.simps) auto
  qed
qed

lemma ah_newEntry_wf:
  assumes wf: "ah_wf h" and call: "ah_newEntry h ref n = Inr (e, h')"
  shows "ah_wf h'" and "e = length (ah_entries h)" and "length (ah_entries h') = e + 1"
    and "ahe_size (ah_entries h' ! e) = n" and "ahe_fwdref (ah_entries h' ! e) = 0"
    and "i < e \<Longrightarrow> ah_entries h' ! i = ah_entries h ! i"
proof -
  obtain d where d: "hs_reserve_loop (ah_data h) n = Inr d" and e: "e = length (ah_entries h)"
    and es: "ah_entries h' = ah_entries h @ [\<lparr>ahe_ref = ref, ahe_size = n mod 65536,
        ahe_ofs = hs_next d mod 65536, ahe_hpofs = i2 (- ah_reserved h), ahe_overallocated = 0,
        ahe_fwdref = 0\<rparr>]" and data: "ah_data h' = d\<lparr>hs_next := hs_next d + n\<rparr>"
    using call
    by (auto simp: ah_newEntry_def hs_reserve_def Let_def result ah_grow_def split: if_splits)
  have ok: "hs_ok (ah_data h)" using wf by (simp add: ah_wf_def)
  note r = hs_reserve_loop_ok [OF ok d]
  have small: "hs_next d + n < 65536"
    using r hs_ok_size [of d] by linarith
  show "e = length (ah_entries h)" "length (ah_entries h') = e + 1"
    "ahe_size (ah_entries h' ! e) = n" "ahe_fwdref (ah_entries h' ! e) = 0"
    "i < e \<Longrightarrow> ah_entries h' ! i = ah_entries h ! i"
    using e es small by (auto simp: nth_append)
  show "ah_wf h'"
    using wf r small unfolding ah_wf_def es data
    by (auto simp: nth_append less_Suc_eq hs_ok_def intro: order_trans)
qed

lemma heap_field_range:
  assumes "ah_wf h" and "e < length (ah_entries h)" and "f < ahe_size (ah_entries h ! e)"
    and "e' < length (ah_entries h)" and "f' < ahe_size (ah_entries h ! e')"
  shows "ahe_ofs (ah_entries h ! e) + f < hs_next (ah_data h)"
    and "ahe_ofs (ah_entries h ! e) + f = ahe_ofs (ah_entries h ! e') + f' \<longleftrightarrow> e = e' \<and> f = f'"
proof -
  have last: "ahe_ofs (ah_entries h ! i) + ahe_size (ah_entries h ! i) \<le> hs_next (ah_data h)"
    if "i < length (ah_entries h)" for i
    using assms(1) that by (simp add: ah_wf_def)
  have ord: "ahe_ofs (ah_entries h ! i) + ahe_size (ah_entries h ! i) \<le> ahe_ofs (ah_entries h ! j)"
    if "i < j" "j < length (ah_entries h)" for i j
    using assms(1) that by (simp add: ah_wf_def)
  show "ahe_ofs (ah_entries h ! e) + f < hs_next (ah_data h)"
    using last [OF assms(2)] assms(3) by linarith
  show "ahe_ofs (ah_entries h ! e) + f = ahe_ofs (ah_entries h ! e') + f' \<longleftrightarrow> e = e' \<and> f = f'"
  proof (cases e e' rule: linorder_cases)
    case less
    then show ?thesis using ord [OF less assms(4)] assms(3) by auto
  next
    case greater
    then show ?thesis using ord [OF greater assms(2)] assms(5) by auto
  qed auto
qed

lemma setField_eq:
  assumes "ah_wf (ib_heap b)" and "e < length (ah_entries (ib_heap b))"
    and "f < ahe_size (ah_entries (ib_heap b) ! e)"
  shows "ib_setField e f x b = Inr ((), b\<lparr>ib_heap := (ib_heap b)\<lparr>ah_data := (ah_data (ib_heap b))
     \<lparr>hs_data := (hs_data (ah_data (ib_heap b)))(ahe_ofs (ah_entries (ib_heap b) ! e) + f \<mapsto> x mod 65536)\<rparr>\<rparr>\<rparr>)"
  using assms heap_field_range(1) [OF assms assms(2,3)]
  by (simp add: ib_setField_def heap_entry_def hs_set_def res_bind_lc_assert)

section \<open>Properties\<close>

text \<open>
  The buffer right after \<^verbatim>\<open>reset\<close>, with one more literal, 5: the base instruction, the info
  table of indirections and the literal.
\<close>

definition lit_ins :: "nat \<Rightarrow> u1 \<Rightarrow> nat \<Rightarrow> ir" where
  "lit_ins k ty prev = \<lparr>ir_op1 = k, ir_op2 = 0, ir_t = ty, ir_o = kKINT, ir_prev = prev\<rparr>"

definition demo_buf :: irbuffer where
  "demo_buf = \<lparr>ib_pc = 0,
     ib_buffer = (\<lambda>_. ir_zero)(0x8000 := ir_zero\<lparr>ir_t := IRT_PTR, ir_o := kBASE\<rparr>,
        0x7fff := lit_ins 0x1000 IRT_INFO 0, 0x7ffe := lit_ins 5 IRT_I64 0x7fff),
     ib_flags = \<lparr>raw_flags = 3\<rparr>, ib_bufmin = 0x7ffe, ib_bufmax = 0x8001,
     ib_bufstart = 0x7f00, ib_bufend = 0x8300, ib_size = 1024,
     ib_fold = \<lparr>fs_ins = ir_zero, fs_left = ir_zero, fs_right = ir_zero, fs_literal = 0\<rparr>,
     ib_chain = (\<lambda>_. 0)(kBASE := 0x8000, kKINT := 0x7ffe), ib_slots = demo_stack,
     ib_snapmap = sd_init, ib_snaps = [], ib_heap = ah_init, ib_steps = 0, ib_stopins = 0x8001,
     ib_parentmap = [], ib_parent = None, ib_parentHeapReserved = 0, ib_entry_relbase = 0\<rparr>"

lemma demo_buf_simps [simp]:
  "ib_bufmin demo_buf = 0x7ffe" "ib_bufmax demo_buf = 0x8001" "ib_bufstart demo_buf = 0x7f00"
  "ib_bufend demo_buf = 0x8300" "ib_flags demo_buf = \<lparr>raw_flags = 3\<rparr>"
  "ib_buffer demo_buf 0x8000 = ir_zero\<lparr>ir_t := IRT_PTR, ir_o := kBASE\<rparr>"
  "ib_buffer demo_buf 0x7fff = lit_ins 0x1000 IRT_INFO 0"
  "ib_buffer demo_buf 0x7ffe = lit_ins 5 IRT_I64 0x7fff"
  "ib_chain demo_buf kKINT = 0x7ffe" "ib_chain demo_buf kADD = 0" "ib_chain demo_buf kBASE = 0x8000"
  by (simp_all add: demo_buf_def)

lemma lit_ins_simps [simp]:
  "ir_op1 (lit_ins k ty p) = k" "ir_op2 (lit_ins k ty p) = 0" "ir_t (lit_ins k ty p) = ty"
  "ir_o (lit_ins k ty p) = kKINT" "ir_prev (lit_ins k ty p) = p"
  "ir_type (lit_ins k ty p) = ty AND IRT_TYPE" "ir_op12 (lit_ins k ty p) = of_nat k"
  by (simp_all add: lit_ins_def ir_type_def ir_op12_def)

lemma demo_buf_lit_range:
  "ib_bufmin demo_buf \<le> ref \<and> ref < REF_BIAS \<longleftrightarrow> ref = 0x7ffe \<or> ref = 0x7fff"
  "REF_BASE \<le> ref \<and> ref < ib_bufmax demo_buf \<longleftrightarrow> ref = 0x8000"
  by (auto simp: REF_BIAS_def REF_BASE_def)

lemma demo_buf_wf: "ib_wf demo_buf"
proof -
  have "wf_lit demo_buf 0x7ffe" "wf_lit demo_buf 0x7fff"
    by (simp_all add: wf_lit_def is_lit_op_def lit_link_def REF_BIAS_def)
  moreover have "wf_ins demo_buf 0x8000"
    by (simp add: wf_ins_def is_lit_op_def ins_link_def ir_zero_def)
  moreover have "wf_bounds demo_buf"
    by (simp add: wf_bounds_def REF_BIAS_def REF_BASE_def)
  moreover have "wf_chain demo_buf op" for op
  proof (cases "op = kKINT \<or> op = kBASE")
    case True
    then show ?thesis
      by (auto simp: wf_chain_def is_lit_op_def lit_link_def ins_link_def REF_BIAS_def REF_BASE_def
          ir_zero_def)
  next
    case False
    then have "ib_chain demo_buf op = 0" by (simp add: demo_buf_def)
    then show ?thesis by (simp add: wf_chain_def lit_link_def ins_link_def)
  qed
  moreover have "ir_ok (ib_buffer demo_buf ref)" for ref
    by (simp add: demo_buf_def ir_ok_def ir_zero_def lit_ins_def)
  ultimately show ?thesis
    unfolding ib_wf_def demo_buf_lit_range by blast
qed

text \<open>
  \<^bold>\<open>C26.\<close> With room for two more words, \<^verbatim>\<open>literal\<close> returns a reference whose value is read
  back as the literal it was created for (for a type without sign, a literal that fits in 32 bits
  as a signed number is read back zero-extended); asking again gives the same reference and
  changes nothing, and the values of all earlier literals stay the same.
\<close>

theorem literal_roundtrip:
  assumes "ib_wf b" and "ty AND IRT_TYPE = ty" and "ib_bufstart b + 2 \<le> ib_bufmin b"
  shows "\<exists>tr b'. ib_literal ty lit b = Inr (tr, b') \<and> ib_wf b' \<and>
    ib_literalValue b' (tref_ref tr) =
      Inr (if checki32 lit \<and> \<not> isSigned ty then ucast (ucast lit :: u4) else lit) \<and>
    ib_literal ty lit b' = Inr (tr, b') \<and>
    (\<forall>ref. ib_bufmin b \<le> ref \<and> ref < REF_BIAS \<longrightarrow> ib_literalValue b' ref = ib_literalValue b ref)"
proof -
  obtain tr b' where call: "ib_literal ty lit b = Inr (tr, b')"
    using ib_literal_total [OF assms(1,3)] by blast
  note c = ib_literal_correct [OF assms(1,2) call]
  have "\<forall>ref. ib_bufmin b \<le> ref \<and> ref < REF_BIAS \<longrightarrow> ib_literalValue b' ref = ib_literalValue b ref"
    using c assms(1) ib_literalValue_extends by blast
  then show ?thesis
    using c call ib_literal_again [OF assms(1,2) call] unfolding lit_norm_def by blast
qed

theorem literal_roundtrip_witness:
  "\<exists>tr b'. ib_literal IRT_I64 (-7) demo_buf = Inr (tr, b') \<and>
     ib_literalValue b' (tref_ref tr) = Inr (-7)"
proof -
  have "IRT_I64 AND IRT_TYPE = IRT_I64" "isSigned IRT_I64"
    by (simp_all add: irt_defs isSigned_def kOpIsSigned_def typebit_def)
  then show ?thesis
    using literal_roundtrip [OF demo_buf_wf, of IRT_I64 "-7"] by auto
qed

text \<open>
  The 64 bit unsigned literal with all bits set is read back as \<open>2^32 - 1\<close>: it
  passes the test for a signed 32 bit number, and the reading of a 32 bit literal of a type
  without sign does not extend the sign.
\<close>

theorem literal_u64_all_ones:
  assumes "ib_wf b" and "ib_bufstart b + 2 \<le> ib_bufmin b"
  shows "\<exists>tr b'. ib_literal IRT_U64 0xffffffffffffffff b = Inr (tr, b') \<and>
    ib_literalValue b' (tref_ref tr) = Inr 0xffffffff"
proof -
  have ty: "IRT_U64 AND IRT_TYPE = IRT_U64" and ns: "\<not> isSigned IRT_U64"
    and c: "checki32 0xffffffffffffffff"
    by (simp_all add: irt_defs isSigned_def kOpIsSigned_def typebit_def checki32_def)
  obtain tr b' where call: "ib_literal IRT_U64 0xffffffffffffffff b = Inr (tr, b')"
    using ib_literal_total [OF assms] by blast
  then show ?thesis
    using ib_literal_correct [OF assms(1) ty call] ns c by (auto simp: lit_norm_def)
qed

theorem literal_u64_all_ones_witness:
  "\<exists>tr b'. ib_literal IRT_U64 0xffffffffffffffff demo_buf = Inr (tr, b') \<and>
    ib_literalValue b' (tref_ref tr) = Inr 0xffffffff"
  by (rule literal_u64_all_ones [OF demo_buf_wf]) simp

text \<open>
  \<^bold>\<open>C30.\<close> Common subexpression elimination returns the reference of an instruction with
  the opcode and the operands asked for: an existing one, and then the buffer is unchanged, or a
  new one at the end of the buffer.
\<close>

theorem cse_same_instruction:
  assumes "ib_wf b" and "\<not> is_lit_op (ir_o (fins b))" and "ir_ok (fins b)"
    and "ib_optCSE b = Inr (tr, b')"
  shows "ib_wf b' \<and> ib_extends b b' \<and>
    ir_o (ib_buffer b' (tref_ref tr)) = ir_o (fins b) \<and>
    ir_op1 (ib_buffer b' (tref_ref tr)) = ir_op1 (fins b) \<and>
    ir_op2 (ib_buffer b' (tref_ref tr)) = ir_op2 (fins b) \<and>
    (b' = b \<or> tref_ref tr = ib_bufmax b \<and> ib_bufmax b' = ib_bufmax b + 1)"
  using ib_optCSE_correct [OF assms] by blast

theorem cse_same_instruction_witness:
  "\<exists>tr b'. ib_optCSE (ib_setIns kADD IRT_I64 0x7ffe 0x7ffe demo_buf) = Inr (tr, b') \<and>
     ir_o (ib_buffer b' (tref_ref tr)) = kADD"
proof -
  let ?b = "ib_setIns kADD IRT_I64 0x7ffe 0x7ffe demo_buf"
  have wf: "ib_wf ?b"
    using demo_buf_wf same_code_wf [OF fins_setIns(6)] by blast
  have "cse_find ?b lim w chain_fuel 0 = Inr 0" for lim w
    unfolding chain_fuel_Suc by (subst cse_find.simps) simp
  then have cse: "ib_optCSE ?b = ib_emit ?b"
    unfolding ib_optCSE_def fins_setIns by (simp add: ib_setIns_def Let_def)
  obtain tr b' where "ib_emit ?b = Inr (tr, b')"
    by (simp add: ib_emit_def ib_nextIns_def Let_def ib_ir_def ib_setIns_def fins_def irt_defs
        lc_assert_def)
  then show ?thesis
    using cse_same_instruction [OF wf, of tr b'] cse by (auto simp: is_lit_op_def ir_ok_def)
qed

text \<open>
  \<^bold>\<open>C20.\<close> Storing a field of an allocated object and reading it back gives the stored
  reference, and the store changes no other field of any object of the trace.
\<close>

theorem field_store_load:
  assumes "ah_wf (ib_heap b)" and "e < length (ah_entries (ib_heap b))"
    and "f < ahe_size (ah_entries (ib_heap b) ! e)" and "x < 65536"
  shows "\<exists>b'. ib_setField e f x b = Inr ((), b') \<and> ib_getField b' e f = Inr x \<and>
    ah_wf (ib_heap b') \<and>
    (\<forall>e' f'. e' < length (ah_entries (ib_heap b)) \<and> f' < ahe_size (ah_entries (ib_heap b) ! e') \<and>
       (e', f') \<noteq> (e, f) \<longrightarrow> ib_getField b' e' f' = ib_getField b e' f')"
proof -
  let ?h = "ib_heap b"
  let ?b' = "b\<lparr>ib_heap := ?h\<lparr>ah_data := (ah_data ?h)\<lparr>hs_data :=
      (hs_data (ah_data ?h))(ahe_ofs (ah_entries ?h ! e) + f \<mapsto> x)\<rparr>\<rparr>\<rparr>"
  have "ahe_ofs (ah_entries ?h ! e) + f < hs_size (ah_data ?h)"
    using heap_field_range(1) [OF assms(1-3,2,3)] assms(1) by (auto simp: ah_wf_def hs_ok_def)
  then have "ib_getField ?b' e f = Inr x"
    using assms by (simp add: ib_getField_def heap_entry_def hs_at_def res_bind_lc_assert)
  moreover have "ib_getField ?b' e' f' = ib_getField b e' f'"
    if "e' < length (ah_entries ?h)" "f' < ahe_size (ah_entries ?h ! e')" "(e', f') \<noteq> (e, f)" for e' f'
    using heap_field_range(2) [OF assms(1) that(1,2) assms(2,3)] that
    by (auto simp: ib_getField_def heap_entry_def hs_at_def)
  moreover have "ah_wf (ib_heap ?b')"
    using assms(1) by (simp add: ah_wf_def hs_ok_def)
  moreover have "ib_setField e f x b = Inr ((), ?b')"
    using setField_eq [OF assms(1-3), of x] assms(4) by simp
  ultimately show ?thesis by blast
qed

definition demo_heap :: abstract_heap where
  "demo_heap = \<lparr>ah_entries = [\<lparr>ahe_ref = 0x8001, ahe_size = 2, ahe_ofs = 0, ahe_hpofs = -3,
       ahe_overallocated = 0, ahe_fwdref = 0\<rparr>],
     ah_nentries = 64, ah_data = \<lparr>hs_data = (\<lambda>_. None), hs_size = 32, hs_next = 2\<rparr>, ah_reserved = 0\<rparr>"

theorem field_store_load_witness:
  "\<exists>b'. ib_setField 0 1 0x8003 (demo_buf\<lparr>ib_heap := demo_heap\<rparr>) = Inr ((), b') \<and>
     ib_getField b' 0 1 = Inr 0x8003"
proof -
  have "ah_wf demo_heap"
    by (auto simp: demo_heap_def ah_wf_def hs_ok_def intro!: exI [of _ 0])
  then show ?thesis
    using field_store_load [of "demo_buf\<lparr>ib_heap := demo_heap\<rparr>" 0 1 "0x8003"]
    by (auto simp: demo_heap_def)
qed
end
