(* ===== verification/Fold.thy ===== *)
theory Fold
  imports IRBuffer
begin

text \<open>
  The fold engine of \<^verbatim>\<open>src/vm/ir_fold.cc\<close>.  Every fold rule of the file is a definition of the
  same name; \<open>do_fold_loop\<close> is the dispatch with its retry counter, \<open>optFold\<close> the entry point
  that \<^verbatim>\<open>IRBuffer::emit\<close> calls.  The rule on info table guards reads the heap, which is the
  parameter \<open>mem\<close>, a map from addresses to words.
\<close>

section \<open>Outcomes\<close>

definition NEXTFOLD :: nat where "NEXTFOLD = 0"
definition RETRYFOLD :: nat where "RETRYFOLD = 1"
definition KLITFOLD :: nat where "KLITFOLD = 2"
definition FAILFOLD :: nat where "FAILFOLD = 3"
definition DROPFOLD :: nat where "DROPFOLD = 4"
definition MAX_FOLD :: nat where "MAX_FOLD = 5"

definition IROPTERR_FAILING_GUARD :: int where "IROPTERR_FAILING_GUARD = 1"

lemmas fold_codes = NEXTFOLD_def RETRYFOLD_def KLITFOLD_def FAILFOLD_def DROPFOLD_def MAX_FOLD_def

type_synonym fold_rule = "irbuffer \<Rightarrow> nat ib_result"

definition fleft :: "irbuffer \<Rightarrow> ir" where "fleft b = fs_left (ib_fold b)"
definition fright :: "irbuffer \<Rightarrow> ir" where "fright b = fs_right (ib_fold b)"

definition upd_fins :: "(ir \<Rightarrow> ir) \<Rightarrow> irbuffer \<Rightarrow> irbuffer" where
  "upd_fins f b = b\<lparr>ib_fold := (ib_fold b)\<lparr>fs_ins := f (fins b)\<rparr>\<rparr>"

definition next_fold :: "nat ib_result \<Rightarrow> bool" where
  "next_fold r \<longleftrightarrow> (\<exists>b. r = Inr (NEXTFOLD, b))"

definition isPhi :: "ir \<Rightarrow> bool" where
  "isPhi i \<longleftrightarrow> ir_t i AND IRT_ISPHI \<noteq> 0"

definition LITFOLD :: "u8 \<Rightarrow> fold_rule" where
  "LITFOLD val b = Inr (KLITFOLD, b\<lparr>ib_fold := (ib_fold b)\<lparr>fs_literal := val\<rparr>\<rparr>)"

section \<open>Rules\<close>

definition kfold_intop :: "u8 \<Rightarrow> u8 \<Rightarrow> irop \<Rightarrow> u8 result" where
  "kfold_intop k1 k2 op =
     (if op = kADD then Inr (k1 + k2)
      else if op = kSUB then Inr (k1 - k2)
      else if op = kMUL then Inr (k1 * k2)
      else if op = kNEG then Inr (- k1)
      else Inl AssertFailed)"

definition kfold_arith :: fold_rule where
  "kfold_arith b =
     (if ir_type (fins b) = IRT_I64
      then res_bind (ib_literalValue b (ir_op1 (fins b))) (\<lambda>k1.
           res_bind (ib_literalValue b (ir_op2 (fins b))) (\<lambda>k2.
           res_bind (kfold_intop k1 k2 (ir_o (fins b))) (\<lambda>k. LITFOLD k b)))
      else Inr (NEXTFOLD, b))"

definition simplify_intadd_k :: fold_rule where
  "simplify_intadd_k b =
     (if ir_type (fins b) = IRT_I64
      then res_bind (ib_literalValue b (ir_op2 (fins b))) (\<lambda>k.
           if k = 0 then Inr (ir_op1 (fins b), b) else Inr (NEXTFOLD, b))
      else Inr (NEXTFOLD, b))"

definition comm_swap :: fold_rule where
  "comm_swap b =
     (if ir_op1 (fins b) < ir_op2 (fins b)
      then let tmp = ir_op1 (fins b)
           in Inr (RETRYFOLD, upd_fins (\<lambda>i. i\<lparr>ir_op1 := ir_op2 i, ir_op2 := tmp\<rparr>) b)
      else Inr (NEXTFOLD, b))"

definition reassoc_int_arith :: fold_rule where
  "reassoc_int_arith b =
     (if ir_type (fins b) = IRT_I64 \<and> irref_islit (ir_op2 (fleft b))
      then res_bind (ib_literalValue b (ir_op2 (fleft b))) (\<lambda>k1.
           res_bind (ib_literalValue b (ir_op2 (fins b))) (\<lambda>k2.
           res_bind (kfold_intop k1 k2 (ir_o (fins b))) (\<lambda>k.
             if k = k1 then Inr (ir_op1 (fins b), b)
             else if isPhi (fleft b) then Inr (NEXTFOLD, b)
             else
               let b = upd_fins (ir_setOp1 (ir_op1 (fleft b))) b
               in res_bind (ib_literal (ir_type (fins b)) k b) (\<lambda>(tr, b).
                  Inr (RETRYFOLD, upd_fins (ir_setOp2 (tref_ref tr)) b)))))
      else Inr (NEXTFOLD, b))"

definition simplify_sub_k :: fold_rule where
  "simplify_sub_k b =
     (if isIntegerType (ir_type (fins b))
      then res_bind (ib_literalValue b (ir_op2 (fins b))) (\<lambda>k.
           if k = 0 then Inr (ir_op1 (fins b), b)
           else
             let k2 = - k
             in res_bind (ib_literal (ir_type (fins b)) k2 b) (\<lambda>(tr, b).
                Inr (RETRYFOLD, upd_fins (\<lambda>i. ir_setOp2 (tref_ref tr) (i\<lparr>ir_o := kADD\<rparr>)) b)))
      else Inr (NEXTFOLD, b))"

definition simplify_intsub_kleft :: fold_rule where
  "simplify_intsub_kleft b =
     (if isIntegerType (ir_type (fins b))
      then res_bind (ib_literalValue b (ir_op1 (fins b))) (\<lambda>k.
           if k = 0
           then Inr (RETRYFOLD, upd_fins (\<lambda>i. i\<lparr>ir_o := kNEG, ir_op1 := ir_op2 i\<rparr>) b)
           else Inr (NEXTFOLD, b))
      else Inr (NEXTFOLD, b))"

definition simplify_intsub :: fold_rule where
  "simplify_intsub b =
     (if ir_op1 (fins b) = ir_op2 (fins b) \<and> \<not> isFloatType (ir_type (fins b))
      then LITFOLD 0 b
      else Inr (NEXTFOLD, b))"

definition simplify_intsubadd_leftcancel :: fold_rule where
  "simplify_intsubadd_leftcancel b =
     (if \<not> isFloatType (ir_type (fins b))
      then if ir_op2 (fins b) = ir_op1 (fleft b) then Inr (ir_op2 (fleft b), b)
           else if ir_op2 (fins b) = ir_op2 (fleft b) then Inr (ir_op1 (fleft b), b)
           else Inr (NEXTFOLD, b)
      else Inr (NEXTFOLD, b))"

definition simplify_intsubsub_leftcancel :: fold_rule where
  "simplify_intsubsub_leftcancel b =
     (if \<not> isFloatType (ir_type (fins b))
      then if isPhi (fleft b) then Inr (NEXTFOLD, b)
           else if ir_op1 (fleft b) = ir_op2 (fins b)
           then res_bind (ib_literal (ir_type (fins b)) 0 b) (\<lambda>(tr, b).
                Inr (RETRYFOLD,
                     upd_fins (\<lambda>i. ir_setOp2 (ir_op2 (fleft b)) (ir_setOp1 (tref_ref tr) i)) b))
           else Inr (NEXTFOLD, b)
      else Inr (NEXTFOLD, b))"

definition simplify_intsubsub_rightcancel :: fold_rule where
  "simplify_intsubsub_rightcancel b =
     (if \<not> isFloatType (ir_type (fins b))
      then if isPhi (fleft b) then Inr (NEXTFOLD, b)
           else if ir_op1 (fins b) = ir_op1 (fright b) then Inr (ir_op2 (fright b), b)
           else Inr (NEXTFOLD, b)
      else Inr (NEXTFOLD, b))"

definition simplify_intsubadd_rightcancel :: fold_rule where
  "simplify_intsubadd_rightcancel b =
     (if \<not> isFloatType (ir_type (fins b))
      then if isPhi (fright b) then Inr (NEXTFOLD, b)
           else if ir_op1 (fins b) = ir_op1 (fright b)
           then let b = upd_fins (ir_setOp2 (ir_op2 (fright b))) b
                in res_bind (ib_literal (ir_type (fins b)) 0 b) (\<lambda>(tr, b).
                   Inr (RETRYFOLD, upd_fins (ir_setOp1 (tref_ref tr)) b))
           else if ir_op1 (fins b) = ir_op2 (fright b)
           then let b = upd_fins (ir_setOp2 (ir_op1 (fright b))) b
                in res_bind (ib_literal (ir_type (fins b)) 0 b) (\<lambda>(tr, b).
                   Inr (RETRYFOLD, upd_fins (ir_setOp1 (tref_ref tr)) b))
           else Inr (NEXTFOLD, b)
      else Inr (NEXTFOLD, b))"

definition simplify_intsubaddadd_cancel :: fold_rule where
  "simplify_intsubaddadd_cancel b =
     (let l = fleft b; r = fright b;
          set = (\<lambda>x y. Inr (RETRYFOLD, upd_fins (\<lambda>i. ir_setOp2 y (ir_setOp1 x i)) b))
      in if \<not> isFloatType (ir_type (fins b))
         then if isPhi l then Inr (NEXTFOLD, b)
              else if isPhi r then Inr (NEXTFOLD, b)
              else if ir_op1 l = ir_op1 r then set (ir_op2 l) (ir_op2 r)
              else if ir_op1 l = ir_op2 r then set (ir_op2 l) (ir_op1 r)
              else if ir_op2 l = ir_op1 r then set (ir_op1 l) (ir_op2 r)
              else if ir_op2 l = ir_op2 r then set (ir_op1 l) (ir_op1 r)
              else Inr (NEXTFOLD, b)
         else Inr (NEXTFOLD, b))"

definition foldHeapcheck :: fold_rule where
  "foldHeapcheck b =
     (let hpchkref = ib_chain b kHEAPCHK
      in if hpchkref \<noteq> 0
         then res_bind (ib_ir b hpchkref) (\<lambda>hpchk.
              let nwords = (ir_op1 hpchk + ir_op1 (fins b)) mod 65536
              in Inr (DROPFOLD, ib_put hpchkref (ir_setOp1 nwords hpchk) b))
         else Inr (NEXTFOLD, b))"

definition kfold_eqinfo :: "(u8 \<rightharpoonup> u8) \<Rightarrow> fold_rule" where
  "kfold_eqinfo mem b =
     res_bind (ib_literalValue b (ir_op1 (fins b))) (\<lambda>cl.
     res_bind (ib_literalValue b (ir_op2 (fins b))) (\<lambda>itbl.
     res_bind (of_option BadAccess (mem cl)) (\<lambda>info.
       if ir_o (fins b) = kEQINFO
       then Inr (if info = itbl then DROPFOLD else FAILFOLD, b)
       else Inr (if info \<noteq> itbl then DROPFOLD else FAILFOLD, b))))"

definition kfold_cmp :: fold_rule where
  "kfold_cmp b =
     res_bind (ib_literalValue b (ir_op1 (fins b))) (\<lambda>k1.
     res_bind (ib_literalValue b (ir_op2 (fins b))) (\<lambda>k2.
       if ir_o (fins b) = kEQ then Inr (if k1 = k2 then DROPFOLD else FAILFOLD, b)
       else if ir_o (fins b) = kNE then Inr (if k1 \<noteq> k2 then DROPFOLD else FAILFOLD, b)
       else Inl (Exit 3)))"

text \<open>\<^verbatim>\<open>field_id\<close> is an \<^verbatim>\<open>int\<close>; a negative one would address the word before the entry's fields.\<close>

definition load_fwd :: fold_rule where
  "load_fwd b =
     res_bind (lc_assert (ir_o (fleft b) = kFREF)) (\<lambda>_.
     res_bind (ib_getHeapEntry b (ir_op1 (fleft b))) (\<lambda>entry.
       case entry of
         None \<Rightarrow> Inr (NEXTFOLD, b)
       | Some e \<Rightarrow>
           let field_id = int (ir_op2 (fleft b)) - 1
           in res_bind (ib_isIndirection b e) (\<lambda>ind.
              if ind \<noteq> 0
              then res_bind (lc_assert (field_id = 0)) (\<lambda>_. Inr (ind, b))
              else if field_id < 0 then Inl BadAccess
              else res_bind (ib_getField b e (nat field_id)) (\<lambda>field. Inr (field, b)))))"

definition kfold_update_new :: fold_rule where
  "kfold_update_new b =
     res_bind (ib_getHeapEntry b (ir_op1 (fins b))) (\<lambda>entry.
       case entry of
         None \<Rightarrow> Inl AssertFailed
       | Some e \<Rightarrow> res_bind (ib_update e (ir_op2 (fins b)) b) (\<lambda>(_, b). Inr (NEXTFOLD, b)))"

definition kfold_eqinfo_new :: fold_rule where
  "kfold_eqinfo_new b =
     (let b = upd_fins (\<lambda>i. i\<lparr>ir_o := (if ir_o i = kEQINFO then kEQ else kNE)\<rparr>) b
      in res_bind (ib_getHeapEntry b (ir_op1 (fins b))) (\<lambda>entry.
         case entry of
           None \<Rightarrow> Inl AssertFailed
         | Some e \<Rightarrow>
             res_bind (ib_isIndirection b e) (\<lambda>ind.
               Inr (RETRYFOLD,
                 if ind \<noteq> 0 then upd_fins (ir_setOp1 REF_IND) b
                 else upd_fins (ir_setOp1 (ir_op1 (fleft b))) b))))"

section \<open>Dispatch\<close>

text \<open>
  \<^verbatim>\<open>PATTERN\<close>: the predicates look at the operand references \<open>left\<close> and \<open>right\<close> and at the
  opcodes of the operand instructions; the first rule that does not answer \<^verbatim>\<open>NEXTFOLD\<close> ends
  the list.
\<close>

type_synonym operand_pat = "nat \<Rightarrow> irop \<Rightarrow> bool"

definition p_any :: operand_pat where "p_any ref opc = True"
definition p_lit :: operand_pat where "p_lit ref opc = irref_islit ref"
definition p_op :: "irop \<Rightarrow> operand_pat" where "p_op op ref opc \<longleftrightarrow> opc = op"

fun try_patterns :: "nat \<Rightarrow> nat \<Rightarrow> (operand_pat \<times> operand_pat \<times> fold_rule) list \<Rightarrow> fold_rule" where
  "try_patterns left right [] b = Inr (NEXTFOLD, b)"
| "try_patterns left right ((p1, p2, handler) # rest) b =
     (if p1 left (ir_o (fleft b)) \<and> p2 right (ir_o (fright b))
      then res_bind (handler b) (\<lambda>(ref, b).
             if ref \<noteq> NEXTFOLD then Inr (ref, b) else try_patterns left right rest b)
      else try_patterns left right rest b)"

definition ADD_patterns :: "(operand_pat \<times> operand_pat \<times> fold_rule) list" where
  "ADD_patterns =
    [(p_lit, p_lit, kfold_arith), (p_op kADD, p_lit, reassoc_int_arith),
     (p_any, p_lit, simplify_intadd_k), (p_any, p_any, comm_swap)]"

definition SUB_patterns :: "(operand_pat \<times> operand_pat \<times> fold_rule) list" where
  "SUB_patterns =
    [(p_lit, p_lit, kfold_arith), (p_any, p_lit, simplify_sub_k),
     (p_lit, p_any, simplify_intsub_kleft), (p_any, p_any, simplify_intsub),
     (p_op kADD, p_any, simplify_intsubadd_leftcancel),
     (p_op kSUB, p_any, simplify_intsubsub_leftcancel),
     (p_any, p_op kSUB, simplify_intsubsub_rightcancel),
     (p_any, p_op kADD, simplify_intsubadd_rightcancel),
     (p_op kADD, p_op kADD, simplify_intsubaddadd_cancel)]"

definition fold_dispatch :: "(u8 \<rightharpoonup> u8) \<Rightarrow> irop \<Rightarrow> nat \<Rightarrow> nat \<Rightarrow> fold_rule" where
  "fold_dispatch mem op left right b =
     (if op = kADD then try_patterns left right ADD_patterns b
      else if op = kSUB then try_patterns left right SUB_patterns b
      else if op = kUPDATE then try_patterns left right [(p_op kNEW, p_any, kfold_update_new)] b
      else if op = kEQINFO \<or> op = kNEINFO
      then try_patterns left right
             [(p_lit, p_lit, kfold_eqinfo mem), (p_op kNEW, p_lit, kfold_eqinfo_new)] b
      else if op = kHEAPCHK then foldHeapcheck b
      else if op = kEQ \<or> op = kNE then try_patterns left right [(p_lit, p_lit, kfold_cmp)] b
      else if op = kFLOAD then try_patterns left right [(p_any, p_any, load_fwd)] b
      else Inr (NEXTFOLD, b))"

text \<open>The operands of the instruction are copied into the fold state before the rules run.\<close>

definition fold_left :: "irbuffer \<Rightarrow> nat" where
  "fold_left b = (if irmode_left (ir_mode (ir_o (fins b))) = irm_operand_bits IRMref
                  then ir_op1 (fins b) else 0)"

definition fold_right :: "irbuffer \<Rightarrow> nat" where
  "fold_right b = (if irmode_right (ir_mode (ir_o (fins b))) = irm_operand_bits IRMref
                   then ir_op2 (fins b) else 0)"

definition load_operands :: "irbuffer \<Rightarrow> unit ib_result" where
  "load_operands b =
     (let left = fold_left b; right = fold_right b
      in res_bind (if left \<noteq> 0
                   then res_bind (ib_ir b left) (\<lambda>i.
                          Inr (b\<lparr>ib_fold := (ib_fold b)\<lparr>fs_left := i\<rparr>\<rparr>))
                   else Inr b) (\<lambda>b.
         res_bind (if right \<noteq> 0
                   then res_bind (ib_ir b right) (\<lambda>i.
                          Inr (b\<lparr>ib_fold := (ib_fold b)\<lparr>fs_right := i\<rparr>\<rparr>))
                   else Inr b) (\<lambda>b. Inr ((), b))))"

definition fold_step :: "(u8 \<rightharpoonup> u8) \<Rightarrow> fold_rule" where
  "fold_step mem b =
     res_bind (load_operands b) (\<lambda>(_, b).
       fold_dispatch mem (ir_o (fins b)) (fold_left b) (fold_right b) b)"

text \<open>
  \<^verbatim>\<open>doFold\<close> retries while the rules ask for it; after the 130th request it gives up and the
  instruction is emitted as it is.
\<close>

fun do_fold_loop :: "(u8 \<rightharpoonup> u8) \<Rightarrow> nat \<Rightarrow> fold_rule" where
  "do_fold_loop mem 0 b = Inr (NEXTFOLD, b)"
| "do_fold_loop mem (Suc n) b =
     res_bind (fold_step mem b) (\<lambda>(ref, b).
       if ref = RETRYFOLD then do_fold_loop mem n b else Inr (ref, b))"

definition doFold :: "(u8 \<rightharpoonup> u8) \<Rightarrow> fold_rule" where
  "doFold mem = do_fold_loop mem 130"

definition optFold :: "(u8 \<rightharpoonup> u8) \<Rightarrow> irbuffer \<Rightarrow> tref ib_result" where
  "optFold mem b =
     (let op = ir_o (fins b); irmode = ir_mode op
      in if op = kSAVE then ib_emit b
         else
           res_bind (if flag_get (ib_flags b) kOptFold then doFold mem b else Inr (NEXTFOLD, b))
             (\<lambda>(ref, b).
               if ref = NEXTFOLD
               then if irmode AND 0x60 = 0 then ib_optCSE b else ib_emit b
               else if ref \<ge> MAX_FOLD
               then res_bind (ib_ir b ref) (\<lambda>i. Inr (tref_mk ref (ir_t i), b))
               else if ref = KLITFOLD
               then ib_literal (ir_type (fins b)) (fs_literal (ib_fold b)) b
               else if ref = FAILFOLD then Inl (Throw IROPTERR_FAILING_GUARD)
               else res_bind (lc_assert (ref = DROPFOLD)) (\<lambda>_. Inr (tref_none, b))))"

definition ib_emitIns :: "(u8 \<rightharpoonup> u8) \<Rightarrow> irop \<Rightarrow> u1 \<Rightarrow> nat \<Rightarrow> nat \<Rightarrow> irbuffer \<Rightarrow> tref ib_result" where
  "ib_emitIns mem op ty op1 op2 b = optFold mem (ib_setIns op ty op1 op2 b)"

definition ib_emitHeapCheck :: "(u8 \<rightharpoonup> u8) \<Rightarrow> nat \<Rightarrow> irbuffer \<Rightarrow> unit ib_result" where
  "ib_emitHeapCheck mem nwords b =
     res_bind (ib_emitIns mem kHEAPCHK (IRT_VOID OR IRT_GUARD) nwords 0 b) (\<lambda>(_, b).
       Inr ((), b\<lparr>ib_heap := ah_heapCheck (ib_heap b) (int nwords)\<rparr>))"

section \<open>Meaning of a trace\<close>

text \<open>
  The meaning of a trace is a valuation \<open>env\<close> that gives every reference its 64 bit value.
  \<open>sem_ok\<close> says that the valuation agrees with the literals and with the integer operations of
  the buffer, and that the operands of an operation precede it.
\<close>

definition arith_val :: "irop \<Rightarrow> u8 \<Rightarrow> u8 \<Rightarrow> u8 option" where
  "arith_val op x y =
     (if op = kADD then Some (x + y)
      else if op = kSUB then Some (x - y)
      else if op = kMUL then Some (x * y)
      else if op = kNEG then Some (- x)
      else if op = kBNOT then Some (NOT x)
      else if op = kBAND then Some (x AND y)
      else if op = kBOR then Some (x OR y)
      else if op = kBXOR then Some (x XOR y)
      else None)"

definition unary_op :: "irop \<Rightarrow> bool" where
  "unary_op op \<longleftrightarrow> op = kNEG \<or> op = kBNOT"

definition ins_val :: "(nat \<Rightarrow> u8) \<Rightarrow> ir \<Rightarrow> u8 option" where
  "ins_val env i = arith_val (ir_o i) (env (ir_op1 i)) (env (ir_op2 i))"

definition operands_below :: "irbuffer \<Rightarrow> nat \<Rightarrow> ir \<Rightarrow> bool" where
  "operands_below b hi i \<longleftrightarrow>
     ib_bufmin b \<le> ir_op1 i \<and> ir_op1 i < hi \<and>
     (\<not> unary_op (ir_o i) \<longrightarrow> ib_bufmin b \<le> ir_op2 i \<and> ir_op2 i < hi)"

definition sem_ok :: "(nat \<Rightarrow> u8) \<Rightarrow> irbuffer \<Rightarrow> bool" where
  "sem_ok env b \<longleftrightarrow>
     (\<forall>ref k. ib_bufmin b \<le> ref \<and> ref < REF_BIAS \<and> ib_literalValue b ref = Inr k \<longrightarrow> env ref = k) \<and>
     (\<forall>ref v. REF_BASE \<le> ref \<and> ref < ib_bufmax b \<and> ins_val env (ib_buffer b ref) = Some v \<longrightarrow>
        operands_below b ref (ib_buffer b ref) \<and> env ref = v)"

definition env_extends :: "irbuffer \<Rightarrow> (nat \<Rightarrow> u8) \<Rightarrow> (nat \<Rightarrow> u8) \<Rightarrow> bool" where
  "env_extends b env env' \<longleftrightarrow> (\<forall>ref. ib_bufmin b \<le> ref \<and> ref < ib_bufmax b \<longrightarrow> env' ref = env ref)"

lemma env_extends_refl [simp]: "env_extends b env env"
  by (simp add: env_extends_def)

lemma env_extends_trans:
  "env_extends b env env' \<Longrightarrow> ib_extends b b' \<Longrightarrow> env_extends b' env' env'' \<Longrightarrow> env_extends b env env''"
  by (auto simp: env_extends_def ib_extends_def)

lemma arith_val_unary: "unary_op op \<Longrightarrow> arith_val op x y = arith_val op x z"
  by (auto simp: unary_op_def arith_val_def)

lemma ins_val_cong:
  assumes "env' (ir_op1 i) = env (ir_op1 i)"
    and "\<not> unary_op (ir_o i) \<Longrightarrow> env' (ir_op2 i) = env (ir_op2 i)"
  shows "ins_val env' i = ins_val env i"
  using assms arith_val_unary [of "ir_o i"] by (cases "unary_op (ir_o i)") (auto simp: ins_val_def)

lemma ins_val_defined: "ins_val env i = Some v \<Longrightarrow> \<exists>v'. ins_val env' i = Some v'"
  by (auto simp: ins_val_def arith_val_def split: if_splits)

text \<open>Values of valid instructions do not change when the valuation is extended.\<close>

lemma ins_val_extends:
  assumes "env_extends b env env'" and "operands_below b hi i" and "hi \<le> ib_bufmax b"
  shows "ins_val env' i = ins_val env i"
  using assms by (intro ins_val_cong) (auto simp: env_extends_def operands_below_def)

lemma operands_below_mono:
  "operands_below b hi i \<Longrightarrow> ib_bufmin b' \<le> ib_bufmin b \<Longrightarrow> hi \<le> hi' \<Longrightarrow> operands_below b' hi' i"
  by (auto simp: operands_below_def)

lemma sem_ok_ins:
  assumes "sem_ok env b" and "REF_BASE \<le> ref" and "ref < ib_bufmax b"
    and "ins_val env' (ib_buffer b ref) = Some v'"
  shows "operands_below b ref (ib_buffer b ref)" and "ins_val env (ib_buffer b ref) = Some (env ref)"
proof -
  obtain v where "ins_val env (ib_buffer b ref) = Some v"
    using ins_val_defined [OF assms(4)] by blast
  then show "operands_below b ref (ib_buffer b ref)"
    and "ins_val env (ib_buffer b ref) = Some (env ref)"
    using assms by (auto simp: sem_ok_def)
qed

lemma ib_literal_frame:
  "ib_literal ty k b = Inr (tr, b') \<Longrightarrow>
     ib_fold b' = ib_fold b \<and> ib_flags b' = ib_flags b \<and> ib_heap b' = ib_heap b"
  by (auto simp: ib_literal_def ib_newLit_def ib_newLit64_def Let_def result ib_put_def
      ib_setChain_def split: if_splits)

lemma isSigned_lit_norm [simp]: "isSigned ty \<Longrightarrow> lit_norm ty k = k"
  by (simp add: lit_norm_def)

lemma lit_norm_0 [simp]: "lit_norm ty 0 = 0"
  by (simp add: lit_norm_def)

lemma sem_literal:
  assumes wf: "ib_wf b" and sem: "sem_ok env b" and ty: "ty AND IRT_TYPE = ty"
    and call: "ib_literal ty k b = Inr (tr, b')" and norm: "lit_norm ty k = k"
  shows "\<exists>env'. env_extends b env env' \<and> sem_ok env' b' \<and> env' (tref_ref tr) = k"
proof -
  note c = ib_literal_correct [OF wf ty call]
  then have ext: "ib_extends b b'" and mx: "ib_bufmax b' = ib_bufmax b"
    by auto
  define env' where "env' ref = (if ib_bufmin b \<le> ref \<and> ref < ib_bufmax b then env ref
      else case ib_literalValue b' ref of Inl _ \<Rightarrow> 0 | Inr k \<Rightarrow> k)" for ref
  have ee: "env_extends b env env'"
    by (simp add: env_extends_def env'_def)
  have bnd: "REF_BASE \<le> ib_bufmax b" "ib_bufmin b \<le> REF_BIAS"
    using ib_wfD(1) [OF wf] by (auto simp: wf_bounds_def)
  have lits: "env' ref = v" if "ref < REF_BIAS" "ib_literalValue b' ref = Inr v" for ref v
  proof (cases "ib_bufmin b \<le> ref")
    case True
    then have "ib_literalValue b ref = Inr v"
      using ib_literalValue_extends [OF ext wf True that(1)] that by simp
    then have "env ref = v"
      using sem True that(1) by (auto simp: sem_ok_def)
    then show ?thesis using True that bnd by (simp add: env'_def REF_BASE_BIAS)
  qed (simp add: env'_def that)
  have "operands_below b' ref (ib_buffer b' ref) \<and> env' ref = v"
    if r: "REF_BASE \<le> ref" "ref < ib_bufmax b" and v: "ins_val env' (ib_buffer b' ref) = Some v"
    for ref v
  proof -
    have same: "ib_buffer b' ref = ib_buffer b ref"
      using ext r bnd by (auto simp: ib_extends_def REF_BASE_BIAS)
    note o = sem_ok_ins [OF sem r v [unfolded same]]
    then have "ins_val env' (ib_buffer b ref) = Some (env ref)"
      using ins_val_extends [OF ee o(1)] r by simp
    moreover have "env' ref = env ref"
      using ee r bnd by (auto simp: env_extends_def REF_BASE_BIAS)
    ultimately show ?thesis
      using v same operands_below_mono [OF o(1)] ext by (auto simp: ib_extends_def)
  qed
  then have "sem_ok env' b'"
    using lits mx by (auto simp: sem_ok_def)
  moreover have "env' (tref_ref tr) = k"
    using c norm lits [of "tref_ref tr" k] by simp
  ultimately show ?thesis
    using ee by blast
qed

section \<open>Sound rules\<close>

definition fold_inv :: "(nat \<Rightarrow> u8) \<Rightarrow> u8 \<Rightarrow> irbuffer \<Rightarrow> bool" where
  "fold_inv env v b \<longleftrightarrow> ib_wf b \<and> sem_ok env b \<and> ir_ok (fins b) \<and>
     operands_below b (ib_bufmax b) (fins b) \<and> ins_val env (fins b) = Some v \<and>
     isSigned (ir_type (fins b))"

definition fold_loaded :: "irbuffer \<Rightarrow> bool" where
  "fold_loaded b \<longleftrightarrow> fleft b = ib_buffer b (ir_op1 (fins b)) \<and>
     (\<not> unary_op (ir_o (fins b)) \<longrightarrow> fright b = ib_buffer b (ir_op2 (fins b)))"

definition fold_post :: "(nat \<Rightarrow> u8) \<Rightarrow> u8 \<Rightarrow> irbuffer \<Rightarrow> nat \<Rightarrow> irbuffer \<Rightarrow> bool" where
  "fold_post env v b ref b' \<longleftrightarrow>
     (\<exists>env'. env_extends b env env' \<and> ib_extends b b' \<and> ib_wf b' \<and> sem_ok env' b' \<and>
        ir_type (fins b') = ir_type (fins b) \<and> ib_flags b' = ib_flags b \<and>
        (ref = NEXTFOLD \<and> b' = b \<or> ref = RETRYFOLD \<and> fold_inv env' v b' \<or>
         ref = KLITFOLD \<and> fs_literal (ib_fold b') = v \<or>
         MAX_FOLD \<le> ref \<and> ib_bufmin b' \<le> ref \<and> ref < ib_bufmax b' \<and> env' ref = v))"

definition pattern_sound :: "irop \<Rightarrow> operand_pat \<times> operand_pat \<times> fold_rule \<Rightarrow> bool" where
  "pattern_sound op p \<longleftrightarrow> (case p of (p1, p2, rule) \<Rightarrow>
     \<forall>env v b ref b'. fold_inv env v b \<longrightarrow> fold_loaded b \<longrightarrow> ir_o (fins b) = op \<longrightarrow>
       p1 (ir_op1 (fins b)) (ir_o (fleft b)) \<longrightarrow> p2 (ir_op2 (fins b)) (ir_o (fright b)) \<longrightarrow>
       Inr (ref, b') = rule b \<longrightarrow> fold_post env v b ref b')"

lemma pattern_soundI:
  assumes "\<And>env v b ref b'. fold_inv env v b \<Longrightarrow> fold_loaded b \<Longrightarrow> ir_o (fins b) = op \<Longrightarrow>
       p1 (ir_op1 (fins b)) (ir_o (fleft b)) \<Longrightarrow> p2 (ir_op2 (fins b)) (ir_o (fright b)) \<Longrightarrow>
       Inr (ref, b') = rule b \<Longrightarrow> fold_post env v b ref b'"
  shows "pattern_sound op (p1, p2, rule)"
  using assms by (auto simp: pattern_sound_def)

lemma Inr_eq_res_bind_iff [result]:
  "Inr y = res_bind m f \<longleftrightarrow> (\<exists>x. m = Inr x \<and> Inr y = f x)"
  by (cases m) auto

lemma ir_type_mask [simp]: "ir_type i AND IRT_TYPE = ir_type i"
  by (simp add: ir_type_def and.assoc)

text \<open>The four ways a rule can end.\<close>

lemma post_next: "fold_inv env v b \<Longrightarrow> fold_post env v b NEXTFOLD b"
  unfolding fold_post_def fold_inv_def by (intro exI [of _ env]) simp

lemma post_ref:
  assumes inv: "fold_inv env v b" and "env ref = v" and "ib_bufmin b \<le> ref" and "ref < ib_bufmax b"
  shows "fold_post env v b ref b"
proof -
  have "5 \<le> ref"
    using assms by (auto simp: fold_inv_def ib_wf_def wf_bounds_def)
  then show ?thesis
    unfolding fold_post_def using assms by (intro exI [of _ env]) (simp add: MAX_FOLD_def fold_inv_def)
qed

text \<open>Rewriting the instruction leaves everything else alone.\<close>

lemma upd_fins_frame [simp]:
  "fins (upd_fins f b) = f (fins b)" "ib_buffer (upd_fins f b) = ib_buffer b"
  "ib_bufmin (upd_fins f b) = ib_bufmin b" "ib_bufmax (upd_fins f b) = ib_bufmax b"
  "ib_flags (upd_fins f b) = ib_flags b" "fleft (upd_fins f b) = fleft b"
  "fright (upd_fins f b) = fright b" "ib_slots (upd_fins f b) = ib_slots b"
  "ib_chain (upd_fins f b) = ib_chain b" "ib_bufstart (upd_fins f b) = ib_bufstart b"
  "ib_bufend (upd_fins f b) = ib_bufend b"
  by (simp_all add: upd_fins_def fins_def fleft_def fright_def)

lemma same_code_sem: "same_code b b' \<Longrightarrow> sem_ok env b' = sem_ok env b"
  by (simp add: sem_ok_def operands_below_def same_code_literalValue) (simp add: same_code_def)

lemma same_code_upd_fins [simp]: "same_code b (upd_fins f b)"
  by (simp add: same_code_def)

lemma post_lit:
  assumes inv: "fold_inv env v b" and "Inr (ref, b') = LITFOLD v b"
  shows "fold_post env v b ref b'"
proof -
  have b': "ref = KLITFOLD" "b' = b\<lparr>ib_fold := (ib_fold b)\<lparr>fs_literal := v\<rparr>\<rparr>"
    using assms(2) by (auto simp: LITFOLD_def)
  then have "same_code b b'" by (simp add: same_code_def)
  with inv b' show ?thesis
    unfolding fold_post_def
    by (intro exI [of _ env])
      (simp add: fold_inv_def same_code_wf same_code_sem same_code_extends fins_def)
qed

lemma post_retry:
  assumes "ib_wf bx" "sem_ok envx bx" "env_extends b env envx" "ib_extends b bx"
    "ib_flags bx = ib_flags b" "ir_type (f (fins bx)) = ir_type (fins b)" "isSigned (ir_type (fins b))"
    "ir_ok (f (fins bx))" "operands_below bx (ib_bufmax bx) (f (fins bx))"
    "ins_val envx (f (fins bx)) = Some v"
  shows "fold_post env v b RETRYFOLD (upd_fins f bx)"
proof -
  have sc: "same_code bx (upd_fins f bx)" by simp
  have "fold_inv envx v (upd_fins f bx)"
    using assms same_code_wf [OF sc] same_code_sem [OF sc]
    by (simp add: fold_inv_def operands_below_def)
  then show ?thesis
    unfolding fold_post_def using assms same_code_wf [OF sc] same_code_sem [OF sc]
    by (intro exI [of _ envx]) (auto simp: ib_extends_def)
qed

text \<open>What is known about an operand that is itself an integer operation, or a literal.\<close>

lemma operand_ins:
  assumes inv: "fold_inv env v b" and r: "ib_bufmin b \<le> r" "r < ib_bufmax b"
    and op: "arith_val (ir_o (ib_buffer b r)) x y \<noteq> None"
  shows "ib_bufmin b \<le> ir_op1 (ib_buffer b r)" "ir_op1 (ib_buffer b r) < ib_bufmax b"
    "\<not> unary_op (ir_o (ib_buffer b r)) \<Longrightarrow> ib_bufmin b \<le> ir_op2 (ib_buffer b r)"
    "\<not> unary_op (ir_o (ib_buffer b r)) \<Longrightarrow> ir_op2 (ib_buffer b r) < ib_bufmax b"
    "ins_val env (ib_buffer b r) = Some (env r)" "ir_ok (ib_buffer b r)"
proof -
  have wf: "ib_wf b" and sem: "sem_ok env b"
    using inv by (auto simp: fold_inv_def)
  have "REF_BASE \<le> r"
  proof (rule ccontr)
    assume "\<not> REF_BASE \<le> r"
    then have "is_lit_op (ir_o (ib_buffer b r))"
      using ib_wfD(2) [OF wf r(1)] by (simp add: wf_lit_def REF_BASE_BIAS)
    then show False
      using op by (auto simp: is_lit_op_def arith_val_def)
  qed
  moreover obtain w where "ins_val env (ib_buffer b r) = Some w"
    using op by (auto simp: ins_val_def arith_val_def split: if_splits)
  ultimately have "operands_below b r (ib_buffer b r)" "ins_val env (ib_buffer b r) = Some (env r)"
    using sem_ok_ins [OF sem _ r(2)] by auto
  then show "ib_bufmin b \<le> ir_op1 (ib_buffer b r)" "ir_op1 (ib_buffer b r) < ib_bufmax b"
    "\<not> unary_op (ir_o (ib_buffer b r)) \<Longrightarrow> ib_bufmin b \<le> ir_op2 (ib_buffer b r)"
    "\<not> unary_op (ir_o (ib_buffer b r)) \<Longrightarrow> ir_op2 (ib_buffer b r) < ib_bufmax b"
    "ins_val env (ib_buffer b r) = Some (env r)"
    using r by (auto simp: operands_below_def)
  show "ir_ok (ib_buffer b r)"
    using ib_wfD(5) [OF wf] .
qed

lemma operand_lit:
  assumes "fold_inv env v b" and "ib_bufmin b \<le> r" and "irref_islit r"
    and "ib_literalValue b r = Inr k"
  shows "env r = k"
  using assms by (auto simp: fold_inv_def sem_ok_def irref_islit_def)

lemma arith_op_simps [simp]:
  "arith_val kADD x y = Some (x + y)" "arith_val kSUB x y = Some (x - y)"
  "arith_val kNEG x y = Some (- x)" "\<not> unary_op kADD" "\<not> unary_op kSUB" "unary_op kNEG"
  by (simp_all add: arith_val_def unary_op_def)

lemma setOp_simps [simp]:
  "ir_o (ir_setOp1 r i) = ir_o i" "ir_o (ir_setOp2 r i) = ir_o i"
  "ir_t (ir_setOp1 r i) = ir_t i" "ir_t (ir_setOp2 r i) = ir_t i"
  "ir_type (ir_setOp1 r i) = ir_type i" "ir_type (ir_setOp2 r i) = ir_type i"
  "r < 65536 \<Longrightarrow> ir_op1 (ir_setOp1 r i) = r" "r < 65536 \<Longrightarrow> ir_op2 (ir_setOp2 r i) = r"
  "ir_op2 (ir_setOp1 r i) = ir_op2 i" "ir_op1 (ir_setOp2 r i) = ir_op1 i"
  by (simp_all add: ir_setOp1_def ir_setOp2_def ir_type_def)

lemma fold_inv_bounds:
  assumes "fold_inv env v b"
  shows "ib_bufmax b < 65536" "5 \<le> ib_bufmin b" "REF_BIAS \<le> ib_bufmax b" "ib_wf b" "sem_ok env b"
    "ib_bufmin b \<le> ir_op1 (fins b)" "ir_op1 (fins b) < ib_bufmax b"
    "\<not> unary_op (ir_o (fins b)) \<Longrightarrow> ib_bufmin b \<le> ir_op2 (fins b)"
    "\<not> unary_op (ir_o (fins b)) \<Longrightarrow> ir_op2 (fins b) < ib_bufmax b"
    "ir_op1 (fins b) < 65536" "ir_op2 (fins b) < 65536"
    "arith_val (ir_o (fins b)) (env (ir_op1 (fins b))) (env (ir_op2 (fins b))) = Some v"
    "isSigned (ir_type (fins b))"
  using assms
  by (auto simp: fold_inv_def ib_wf_def wf_bounds_def operands_below_def ir_ok_def ins_val_def
      REF_BASE_BIAS)

lemma fold_literal:
  assumes "ib_wf b" and "sem_ok env b" and "isSigned ty" and "ty AND IRT_TYPE = ty"
    and call: "ib_literal ty k b = Inr (tr, b')"
  obtains env' where "env_extends b env env'" "ib_extends b b'" "ib_wf b'" "sem_ok env' b'"
    "ib_flags b' = ib_flags b" "fins b' = fins b" "fleft b' = fleft b" "fright b' = fright b"
    "ib_bufmax b' = ib_bufmax b" "ib_bufmin b' \<le> ib_bufmin b" "ib_bufmin b' \<le> tref_ref tr"
    "tref_ref tr < REF_BIAS" "env' (tref_ref tr) = k"
  using sem_literal [OF assms(1,2,4,5)] ib_literal_correct [OF assms(1,4,5)]
    ib_literal_frame [OF call] assms(3)
  by (auto simp: fins_def fleft_def fright_def ib_extends_def)

lemma sound_kfold_arith:
  "op = kADD \<or> op = kSUB \<Longrightarrow> pattern_sound op (p_lit, p_lit, kfold_arith)"
proof (rule pattern_soundI)
  fix env v b ref b'
  assume op: "op = kADD \<or> op = kSUB" and inv: "fold_inv env v b" and o: "ir_o (fins b) = op"
    and l: "p_lit (ir_op1 (fins b)) (ir_o (fleft b))" and r: "p_lit (ir_op2 (fins b)) (ir_o (fright b))"
    and call: "Inr (ref, b') = kfold_arith b"
  note bd = fold_inv_bounds [OF inv]
  show "fold_post env v b ref b'"
  proof (cases "ir_type (fins b) = IRT_I64")
    case True
    then obtain k1 k2 k where k: "ib_literalValue b (ir_op1 (fins b)) = Inr k1"
        "ib_literalValue b (ir_op2 (fins b)) = Inr k2" "kfold_intop k1 k2 op = Inr k"
        "Inr (ref, b') = LITFOLD k b"
      using call o by (auto simp: kfold_arith_def result)
    have "env (ir_op1 (fins b)) = k1"
      using operand_lit [OF inv bd(6) _ k(1)] l by (simp add: p_lit_def)
    moreover have "env (ir_op2 (fins b)) = k2"
      using operand_lit [OF inv bd(8) _ k(2)] r o op by (auto simp: p_lit_def)
    ultimately have "k = v"
      using bd(12) k(3) o op by (auto simp: kfold_intop_def)
    then show ?thesis
      using post_lit [OF inv] k(4) by simp
  next
    case False
    then show ?thesis
      using call post_next [OF inv] by (auto simp: kfold_arith_def)
  qed
qed

lemma sound_simplify_intadd_k: "pattern_sound kADD (p_any, p_lit, simplify_intadd_k)"
proof (rule pattern_soundI)
  fix env v b ref b'
  assume inv: "fold_inv env v b" and o: "ir_o (fins b) = kADD"
    and r: "p_lit (ir_op2 (fins b)) (ir_o (fright b))"
    and call: "Inr (ref, b') = simplify_intadd_k b"
  note bd = fold_inv_bounds [OF inv]
  consider (nxt) "ref = NEXTFOLD" "b' = b"
    | (ref) "ib_literalValue b (ir_op2 (fins b)) = Inr 0" "ref = ir_op1 (fins b)" "b' = b"
    using call by (cases "ib_literalValue b (ir_op2 (fins b))")
      (auto simp: simplify_intadd_k_def split: if_splits)
  then show "fold_post env v b ref b'"
  proof cases
    case ref
    have "env (ir_op2 (fins b)) = 0"
      using operand_lit [OF inv bd(8) _ ref(1)] r o by (simp add: p_lit_def)
    then show ?thesis
      using post_ref [OF inv _ bd(6,7)] bd(12) o ref by simp
  qed (simp add: post_next [OF inv])
qed

lemma sound_comm_swap: "pattern_sound kADD (p_any, p_any, comm_swap)"
proof (rule pattern_soundI)
  fix env v b ref b'
  assume inv: "fold_inv env v b" and o: "ir_o (fins b) = kADD" and call: "Inr (ref, b') = comm_swap b"
  note bd = fold_inv_bounds [OF inv]
  show "fold_post env v b ref b'"
  proof (cases "ir_op1 (fins b) < ir_op2 (fins b)")
    case True
    let ?f = "\<lambda>i. i\<lparr>ir_op1 := ir_op2 i, ir_op2 := ir_op1 (fins b)\<rparr>"
    have "fold_post env v b RETRYFOLD (upd_fins ?f b)"
      using bd o by (intro post_retry [where envx = env])
        (auto simp: ir_ok_def operands_below_def ins_val_def ir_type_def add.commute)
    then show ?thesis
      using call True by (simp add: comm_swap_def)
  next
    case False
    then show ?thesis
      using call post_next [OF inv] by (simp add: comm_swap_def)
  qed
qed

lemma sound_reassoc: "pattern_sound kADD (p_op kADD, p_lit, reassoc_int_arith)"
proof (rule pattern_soundI)
  fix env v b ref b'
  assume inv: "fold_inv env v b" and ld: "fold_loaded b" and o: "ir_o (fins b) = kADD"
    and l: "p_op kADD (ir_op1 (fins b)) (ir_o (fleft b))"
    and r: "p_lit (ir_op2 (fins b)) (ir_o (fright b))"
    and call: "Inr (ref, b') = reassoc_int_arith b"
  note bd = fold_inv_bounds [OF inv]
  have fl: "fleft b = ib_buffer b (ir_op1 (fins b))" "ir_o (fleft b) = kADD"
    using ld l by (auto simp: fold_loaded_def p_op_def)
  note li = operand_ins [OF inv bd(6,7), folded fl(1), unfolded fl(2), of 0 0, simplified]
  consider (nxt) "ref = NEXTFOLD" "b' = b"
    | (go) k1 k2 where "ib_literalValue b (ir_op2 (fleft b)) = Inr k1" "irref_islit (ir_op2 (fleft b))"
      "ib_literalValue b (ir_op2 (fins b)) = Inr k2"
      "ref = ir_op1 (fins b) \<and> b' = b \<and> k1 + k2 = k1 \<or>
       (\<exists>tr b1. ib_literal (ir_type (fins b)) (k1 + k2) (upd_fins (ir_setOp1 (ir_op1 (fleft b))) b)
                 = Inr (tr, b1) \<and> ref = RETRYFOLD \<and> b' = upd_fins (ir_setOp2 (tref_ref tr)) b1)"
    using call o by (auto simp: reassoc_int_arith_def result kfold_intop_def Let_def split: if_splits)
  then show "fold_post env v b ref b'"
  proof cases
    case go
    have k1: "env (ir_op2 (fleft b)) = k1"
      using operand_lit [OF inv li(3) go(2,1)] .
    have k2: "env (ir_op2 (fins b)) = k2"
      using operand_lit [OF inv bd(8) _ go(3)] r o by (simp add: p_lit_def)
    have "env (ir_op1 (fins b)) = env (ir_op1 (fleft b)) + k1"
      using li(5) k1 fl(2) by (simp add: ins_val_def)
    moreover have "v = env (ir_op1 (fins b)) + k2"
      using bd(12) o k2 by simp
    ultimately have v: "v = env (ir_op1 (fleft b)) + (k1 + k2)"
      by (simp add: add.assoc)
    from go(4) show ?thesis
    proof (elim disjE exE conjE)
      assume "ref = ir_op1 (fins b)" "b' = b" "k1 + k2 = k1"
      then show ?thesis
        using post_ref [OF inv _ bd(6,7)] bd(12) o k2 by simp
    next
      fix tr b1
      assume lit: "ib_literal (ir_type (fins b)) (k1 + k2)
          (upd_fins (ir_setOp1 (ir_op1 (fleft b))) b) = Inr (tr, b1)"
        and res: "ref = RETRYFOLD" "b' = upd_fins (ir_setOp2 (tref_ref tr)) b1"
      let ?b = "upd_fins (ir_setOp1 (ir_op1 (fleft b))) b"
      have sc: "same_code b ?b" by simp
      obtain env' where e: "env_extends ?b env env'" "ib_extends ?b b1" "ib_wf b1" "sem_ok env' b1"
        "ib_flags b1 = ib_flags ?b" "fins b1 = fins ?b"
        "ib_bufmax b1 = ib_bufmax ?b" "ib_bufmin b1 \<le> ib_bufmin ?b" "ib_bufmin b1 \<le> tref_ref tr"
        "tref_ref tr < REF_BIAS" "env' (tref_ref tr) = k1 + k2"
        using fold_literal [OF _ _ bd(13) ir_type_mask lit, of env] bd(4,5) same_code_wf [OF sc]
          same_code_sem [OF sc] by blast
      have small: "ir_op1 (fleft b) < 65536" "tref_ref tr < 65536"
        using li(6) e(10) by (auto simp: ir_ok_def REF_BIAS_def)
      have env: "env' (ir_op1 (fleft b)) = env (ir_op1 (fleft b))"
        using e(1) li(1,2) by (simp add: env_extends_def)
      have ee: "env_extends b env env'" "ib_extends b b1"
        using e(1,2) by (auto simp: env_extends_def ib_extends_def)
      show ?thesis
        unfolding res using e bd li small env v o ee
        by (intro post_retry [where envx = env'])
          (auto simp: ir_ok_def operands_below_def ins_val_def REF_BASE_BIAS)
    qed
  qed (simp add: post_next [OF inv])
qed

lemma sound_simplify_sub_k: "pattern_sound kSUB (p_any, p_lit, simplify_sub_k)"
proof (rule pattern_soundI)
  fix env v b ref b'
  assume inv: "fold_inv env v b" and o: "ir_o (fins b) = kSUB"
    and r: "p_lit (ir_op2 (fins b)) (ir_o (fright b))"
    and call: "Inr (ref, b') = simplify_sub_k b"
  note bd = fold_inv_bounds [OF inv]
  consider (nxt) "ref = NEXTFOLD" "b' = b"
    | (left) "ib_literalValue b (ir_op2 (fins b)) = Inr 0" "ref = ir_op1 (fins b)" "b' = b"
    | (add) k tr bx where "ib_literalValue b (ir_op2 (fins b)) = Inr k"
      "ib_literal (ir_type (fins b)) (- k) b = Inr (tr, bx)" "ref = RETRYFOLD"
      "b' = upd_fins (\<lambda>i. ir_setOp2 (tref_ref tr) (i\<lparr>ir_o := kADD\<rparr>)) bx"
    using call by (auto simp: simplify_sub_k_def result Let_def split: if_splits)
  then show "fold_post env v b ref b'"
  proof cases
    case left
    have "env (ir_op2 (fins b)) = 0"
      using operand_lit [OF inv bd(8) _ left(1)] r o by (simp add: p_lit_def)
    then show ?thesis
      using post_ref [OF inv _ bd(6,7)] bd(12) o left by simp
  next
    case add
    have k: "env (ir_op2 (fins b)) = k"
      using operand_lit [OF inv bd(8) _ add(1)] r o by (simp add: p_lit_def)
    obtain env' where e: "env_extends b env env'" "ib_extends b bx" "ib_wf bx" "sem_ok env' bx"
      "ib_flags bx = ib_flags b" "fins bx = fins b" "ib_bufmax bx = ib_bufmax b"
      "ib_bufmin bx \<le> ib_bufmin b" "ib_bufmin bx \<le> tref_ref tr"
      "tref_ref tr < REF_BIAS" "env' (tref_ref tr) = - k"
      using fold_literal [OF bd(4,5,13) ir_type_mask add(2)] by blast
    have "tref_ref tr < 65536"
      using e(10) by (simp add: REF_BIAS_def)
    moreover have "env' (ir_op1 (fins b)) = env (ir_op1 (fins b))"
      using e(1) bd(6,7) by (simp add: env_extends_def)
    ultimately show ?thesis
      unfolding add(3,4) using e bd k o
      by (intro post_retry [where envx = env'])
        (auto simp: ir_ok_def operands_below_def ins_val_def)
  qed (simp add: post_next [OF inv])
qed

lemma sound_simplify_intsub_kleft: "pattern_sound kSUB (p_lit, p_any, simplify_intsub_kleft)"
proof (rule pattern_soundI)
  fix env v b ref b'
  assume inv: "fold_inv env v b" and o: "ir_o (fins b) = kSUB"
    and l: "p_lit (ir_op1 (fins b)) (ir_o (fleft b))"
    and call: "Inr (ref, b') = simplify_intsub_kleft b"
  note bd = fold_inv_bounds [OF inv]
  let ?f = "\<lambda>i. i\<lparr>ir_o := kNEG, ir_op1 := ir_op2 i\<rparr>"
  consider (nxt) "ref = NEXTFOLD" "b' = b"
    | (neg) "ib_literalValue b (ir_op1 (fins b)) = Inr 0" "ref = RETRYFOLD" "b' = upd_fins ?f b"
    using call by (auto simp: simplify_intsub_kleft_def result split: if_splits)
  then show "fold_post env v b ref b'"
  proof cases
    case neg
    have "env (ir_op1 (fins b)) = 0"
      using operand_lit [OF inv bd(6) _ neg(1)] l by (simp add: p_lit_def)
    then show ?thesis
      unfolding neg(2,3) using bd o
      by (intro post_retry [where envx = env])
        (auto simp: ir_ok_def operands_below_def ins_val_def ir_type_def)
  qed (simp add: post_next [OF inv])
qed

lemma sound_simplify_intsub: "pattern_sound kSUB (p_any, p_any, simplify_intsub)"
proof (rule pattern_soundI)
  fix env v b ref b'
  assume inv: "fold_inv env v b" and o: "ir_o (fins b) = kSUB"
    and call: "Inr (ref, b') = simplify_intsub b"
  note bd = fold_inv_bounds [OF inv]
  consider (nxt) "ref = NEXTFOLD" "b' = b"
    | (lit) "ir_op1 (fins b) = ir_op2 (fins b)" "Inr (ref, b') = LITFOLD 0 b"
    using call by (auto simp: simplify_intsub_def split: if_splits)
  then show "fold_post env v b ref b'"
  proof cases
    case lit
    then have "v = 0" using bd(12) o by simp
    then show ?thesis using post_lit [OF inv] lit by simp
  qed (simp add: post_next [OF inv])
qed

lemma sound_subadd_leftcancel: "pattern_sound kSUB (p_op kADD, p_any, simplify_intsubadd_leftcancel)"
proof (rule pattern_soundI)
  fix env v b ref b'
  assume inv: "fold_inv env v b" and ld: "fold_loaded b" and o: "ir_o (fins b) = kSUB"
    and l: "p_op kADD (ir_op1 (fins b)) (ir_o (fleft b))"
    and call: "Inr (ref, b') = simplify_intsubadd_leftcancel b"
  note bd = fold_inv_bounds [OF inv]
  have fl: "fleft b = ib_buffer b (ir_op1 (fins b))" "ir_o (fleft b) = kADD"
    using ld l by (auto simp: fold_loaded_def p_op_def)
  note li = operand_ins [OF inv bd(6,7), folded fl(1), unfolded fl(2), of 0 0, simplified]
  have v: "v = env (ir_op1 (fleft b)) + env (ir_op2 (fleft b)) - env (ir_op2 (fins b))"
    using bd(12) o li(5) fl(2) by (simp add: ins_val_def)
  consider (nxt) "ref = NEXTFOLD" "b' = b"
    | (j) "ir_op2 (fins b) = ir_op1 (fleft b)" "ref = ir_op2 (fleft b)" "b' = b"
    | (i) "ir_op2 (fins b) = ir_op2 (fleft b)" "ref = ir_op1 (fleft b)" "b' = b"
    using call by (auto simp: simplify_intsubadd_leftcancel_def split: if_splits)
  then show "fold_post env v b ref b'"
  proof cases
    case j
    then show ?thesis using post_ref [OF inv _ li(3,4)] v by simp
  next
    case i
    then show ?thesis using post_ref [OF inv _ li(1,2)] v by simp
  qed (simp add: post_next [OF inv])
qed

lemma sound_subsub_leftcancel: "pattern_sound kSUB (p_op kSUB, p_any, simplify_intsubsub_leftcancel)"
proof (rule pattern_soundI)
  fix env v b ref b'
  assume inv: "fold_inv env v b" and ld: "fold_loaded b" and o: "ir_o (fins b) = kSUB"
    and l: "p_op kSUB (ir_op1 (fins b)) (ir_o (fleft b))"
    and call: "Inr (ref, b') = simplify_intsubsub_leftcancel b"
  note bd = fold_inv_bounds [OF inv]
  have fl: "fleft b = ib_buffer b (ir_op1 (fins b))" "ir_o (fleft b) = kSUB"
    using ld l by (auto simp: fold_loaded_def p_op_def)
  note li = operand_ins [OF inv bd(6,7), folded fl(1), unfolded fl(2), of 0 0, simplified]
  have v: "v = env (ir_op1 (fleft b)) - env (ir_op2 (fleft b)) - env (ir_op2 (fins b))"
    using bd(12) o li(5) fl(2) by (simp add: ins_val_def)
  consider (nxt) "ref = NEXTFOLD" "b' = b"
    | (neg) tr bx where "ir_op1 (fleft b) = ir_op2 (fins b)"
      "ib_literal (ir_type (fins b)) 0 b = Inr (tr, bx)" "ref = RETRYFOLD"
      "b' = upd_fins (\<lambda>i. ir_setOp2 (ir_op2 (fleft bx)) (ir_setOp1 (tref_ref tr) i)) bx"
    using call by (auto simp: simplify_intsubsub_leftcancel_def result split: if_splits)
  then show "fold_post env v b ref b'"
  proof cases
    case neg
    obtain env' where e: "env_extends b env env'" "ib_extends b bx" "ib_wf bx" "sem_ok env' bx"
      "ib_flags bx = ib_flags b" "fins bx = fins b" "fleft bx = fleft b" "ib_bufmax bx = ib_bufmax b"
      "ib_bufmin bx \<le> ib_bufmin b" "ib_bufmin bx \<le> tref_ref tr"
      "tref_ref tr < REF_BIAS" "env' (tref_ref tr) = 0"
      using fold_literal [OF bd(4,5,13) ir_type_mask neg(2)] by blast
    have small: "tref_ref tr < 65536" "ir_op2 (fleft b) < 65536"
      using e(11) li(6) by (auto simp: REF_BIAS_def ir_ok_def)
    moreover have "env' (ir_op2 (fleft b)) = env (ir_op2 (fleft b))"
      using e(1) li(3,4) by (simp add: env_extends_def)
    ultimately show ?thesis
      unfolding neg(3,4) using e bd li v neg(1) o
      by (intro post_retry [where envx = env'])
        (auto simp: ir_ok_def operands_below_def ins_val_def)
  qed (simp add: post_next [OF inv])
qed

lemma sound_subsub_rightcancel:
  "pattern_sound kSUB (p_any, p_op kSUB, simplify_intsubsub_rightcancel)"
proof (rule pattern_soundI)
  fix env v b ref b'
  assume inv: "fold_inv env v b" and ld: "fold_loaded b" and o: "ir_o (fins b) = kSUB"
    and r: "p_op kSUB (ir_op2 (fins b)) (ir_o (fright b))"
    and call: "Inr (ref, b') = simplify_intsubsub_rightcancel b"
  note bd = fold_inv_bounds [OF inv]
  have nu: "\<not> unary_op (ir_o (fins b))" using o by simp
  have fr: "fright b = ib_buffer b (ir_op2 (fins b))" "ir_o (fright b) = kSUB"
    using ld r o by (auto simp: fold_loaded_def p_op_def)
  note ri = operand_ins [OF inv bd(8) [OF nu] bd(9) [OF nu], folded fr(1), unfolded fr(2), of 0 0, simplified]
  have v: "v = env (ir_op1 (fins b)) - (env (ir_op1 (fright b)) - env (ir_op2 (fright b)))"
    using bd(12) o ri(5) fr(2) by (simp add: ins_val_def)
  consider (nxt) "ref = NEXTFOLD" "b' = b"
    | (j) "ir_op1 (fins b) = ir_op1 (fright b)" "ref = ir_op2 (fright b)" "b' = b"
    using call by (auto simp: simplify_intsubsub_rightcancel_def split: if_splits)
  then show "fold_post env v b ref b'"
  proof cases
    case j
    then show ?thesis using post_ref [OF inv _ ri(3,4)] v by simp
  qed (simp add: post_next [OF inv])
qed

text \<open>\<open>i - (i + j) = 0 - j\<close>: both branches rewrite the right operand, then the left one.\<close>

lemma retry_zero_sub:
  assumes inv: "fold_inv env v b" and o: "ir_o (fins b) = kSUB"
    and x: "ib_bufmin b \<le> x" "x < ib_bufmax b" and v: "v = - env x"
    and lit: "ib_literal (ir_type (fins b)) 0 (upd_fins (ir_setOp2 x) b) = Inr (tr, bx)"
  shows "fold_post env v b RETRYFOLD (upd_fins (ir_setOp1 (tref_ref tr)) bx)"
proof -
  note bd = fold_inv_bounds [OF inv]
  let ?b = "upd_fins (ir_setOp2 x) b"
  have sc: "same_code b ?b" by simp
  obtain env' where e: "env_extends ?b env env'" "ib_extends ?b bx" "ib_wf bx" "sem_ok env' bx"
    "ib_flags bx = ib_flags ?b" "fins bx = fins ?b" "ib_bufmax bx = ib_bufmax ?b"
    "ib_bufmin bx \<le> ib_bufmin ?b" "ib_bufmin bx \<le> tref_ref tr"
    "tref_ref tr < REF_BIAS" "env' (tref_ref tr) = 0"
    using fold_literal [OF _ _ bd(13) ir_type_mask lit, of env] bd(4,5) same_code_wf [OF sc]
      same_code_sem [OF sc] by blast
  have ee: "env_extends b env env'" "ib_extends b bx"
    using e(1,2) by (auto simp: env_extends_def ib_extends_def)
  moreover have "tref_ref tr < 65536" "x < 65536"
    using e(10) x bd(1) by (auto simp: REF_BIAS_def)
  moreover have "env' x = env x"
    using ee(1) x by (simp add: env_extends_def)
  ultimately show ?thesis
    using e bd x v o
    by (intro post_retry [where envx = env'])
      (auto simp: ir_ok_def operands_below_def ins_val_def)
qed

lemma sound_subadd_rightcancel:
  "pattern_sound kSUB (p_any, p_op kADD, simplify_intsubadd_rightcancel)"
proof (rule pattern_soundI)
  fix env v b ref b'
  assume inv: "fold_inv env v b" and ld: "fold_loaded b" and o: "ir_o (fins b) = kSUB"
    and r: "p_op kADD (ir_op2 (fins b)) (ir_o (fright b))"
    and call: "Inr (ref, b') = simplify_intsubadd_rightcancel b"
  note bd = fold_inv_bounds [OF inv]
  have nu: "\<not> unary_op (ir_o (fins b))" using o by simp
  have fr: "fright b = ib_buffer b (ir_op2 (fins b))" "ir_o (fright b) = kADD"
    using ld r o by (auto simp: fold_loaded_def p_op_def)
  note ri = operand_ins [OF inv bd(8) [OF nu] bd(9) [OF nu], folded fr(1), unfolded fr(2), of 0 0, simplified]
  have v: "v = env (ir_op1 (fins b)) - (env (ir_op1 (fright b)) + env (ir_op2 (fright b)))"
    using bd(12) o ri(5) fr(2) by (simp add: ins_val_def)
  consider (nxt) "ref = NEXTFOLD" "b' = b"
    | (i) tr bx where "ir_op1 (fins b) = ir_op1 (fright b)"
      "ib_literal (ir_type (fins b)) 0 (upd_fins (ir_setOp2 (ir_op2 (fright b))) b) = Inr (tr, bx)"
      "ref = RETRYFOLD" "b' = upd_fins (ir_setOp1 (tref_ref tr)) bx"
    | (j) tr bx where "ir_op1 (fins b) = ir_op2 (fright b)"
      "ib_literal (ir_type (fins b)) 0 (upd_fins (ir_setOp2 (ir_op1 (fright b))) b) = Inr (tr, bx)"
      "ref = RETRYFOLD" "b' = upd_fins (ir_setOp1 (tref_ref tr)) bx"
    using call by (auto simp: simplify_intsubadd_rightcancel_def result Let_def split: if_splits)
  then show "fold_post env v b ref b'"
  proof cases
    case i
    then show ?thesis using retry_zero_sub [OF inv o ri(3,4) _ i(2)] v by simp
  next
    case j
    then show ?thesis using retry_zero_sub [OF inv o ri(1,2) _ j(2)] v by simp
  qed (simp add: post_next [OF inv])
qed

lemma sound_subaddadd:
  "pattern_sound kSUB (p_op kADD, p_op kADD, simplify_intsubaddadd_cancel)"
proof (rule pattern_soundI)
  fix env v b ref b'
  assume inv: "fold_inv env v b" and ld: "fold_loaded b" and o: "ir_o (fins b) = kSUB"
    and l: "p_op kADD (ir_op1 (fins b)) (ir_o (fleft b))"
    and r: "p_op kADD (ir_op2 (fins b)) (ir_o (fright b))"
    and call: "Inr (ref, b') = simplify_intsubaddadd_cancel b"
  note bd = fold_inv_bounds [OF inv]
  have nu: "\<not> unary_op (ir_o (fins b))" using o by simp
  have fl: "fleft b = ib_buffer b (ir_op1 (fins b))" "ir_o (fleft b) = kADD"
    and fr: "fright b = ib_buffer b (ir_op2 (fins b))" "ir_o (fright b) = kADD"
    using ld l r o by (auto simp: fold_loaded_def p_op_def)
  note li = operand_ins [OF inv bd(6,7), folded fl(1), unfolded fl(2), of 0 0, simplified]
  note ri = operand_ins [OF inv bd(8) [OF nu] bd(9) [OF nu], folded fr(1), unfolded fr(2), of 0 0, simplified]
  have v: "v = env (ir_op1 (fleft b)) + env (ir_op2 (fleft b))
      - (env (ir_op1 (fright b)) + env (ir_op2 (fright b)))"
    using bd(12) o ri(5) fr(2) li(5) fl(2) by (simp add: ins_val_def)
  have small: "ir_op1 (fleft b) < 65536" "ir_op2 (fleft b) < 65536"
      "ir_op1 (fright b) < 65536" "ir_op2 (fright b) < 65536"
    using li(6) ri(6) by (auto simp: ir_ok_def)
  let ?f = "\<lambda>x y i. ir_setOp2 y (ir_setOp1 x i)"
  have step: "fold_post env v b RETRYFOLD (upd_fins (?f x y) b)"
    if "v = env x - env y" "ib_bufmin b \<le> x" "x < ib_bufmax b" "ib_bufmin b \<le> y" "y < ib_bufmax b"
      "x < 65536" "y < 65536" for x y
    using bd o that
    by (intro post_retry [where envx = env]) (auto simp: ir_ok_def operands_below_def ins_val_def)
  consider (nxt) "ref = NEXTFOLD" "b' = b"
    | (a) "ir_op1 (fleft b) = ir_op1 (fright b)" "ref = RETRYFOLD"
      "b' = upd_fins (?f (ir_op2 (fleft b)) (ir_op2 (fright b))) b"
    | (c) "ir_op1 (fleft b) = ir_op2 (fright b)" "ref = RETRYFOLD"
      "b' = upd_fins (?f (ir_op2 (fleft b)) (ir_op1 (fright b))) b"
    | (d) "ir_op2 (fleft b) = ir_op1 (fright b)" "ref = RETRYFOLD"
      "b' = upd_fins (?f (ir_op1 (fleft b)) (ir_op2 (fright b))) b"
    | (e) "ir_op2 (fleft b) = ir_op2 (fright b)" "ref = RETRYFOLD"
      "b' = upd_fins (?f (ir_op1 (fleft b)) (ir_op1 (fright b))) b"
    using call by (auto simp: simplify_intsubaddadd_cancel_def Let_def split: if_splits)
  then show "fold_post env v b ref b'"
  proof cases
    case a
    then show ?thesis using step [of "ir_op2 (fleft b)" "ir_op2 (fright b)"] v li ri small by simp
  next
    case c
    then show ?thesis using step [of "ir_op2 (fleft b)" "ir_op1 (fright b)"] v li ri small by simp
  next
    case d
    then show ?thesis using step [of "ir_op1 (fleft b)" "ir_op2 (fright b)"] v li ri small by simp
  next
    case e
    then show ?thesis using step [of "ir_op1 (fleft b)" "ir_op1 (fright b)"] v li ri small by simp
  qed (simp add: post_next [OF inv])
qed

section \<open>The engine\<close>

lemma try_patterns_sound:
  assumes "\<forall>p \<in> set ps. pattern_sound op p" and "fold_inv env v b" and "fold_loaded b"
    and "ir_o (fins b) = op"
    and "try_patterns (ir_op1 (fins b)) (ir_op2 (fins b)) ps b = Inr (ref, b')"
  shows "fold_post env v b ref b'"
  using assms
proof (induction ps)
  case (Cons p ps)
  obtain p1 p2 rule where p: "p = (p1, p2, rule)" by (cases p)
  show ?case
  proof (cases "p1 (ir_op1 (fins b)) (ir_o (fleft b)) \<and> p2 (ir_op2 (fins b)) (ir_o (fright b))")
    case True
    obtain r c where rc: "rule b = Inr (r, c)"
      using Cons.prems(5) True by (auto simp: p result)
    then have post: "fold_post env v b r c"
      using Cons.prems True by (auto simp: p pattern_sound_def)
    show ?thesis
    proof (cases "r = NEXTFOLD")
      case nx: True
      then have "c = b"
        using post by (auto simp: fold_post_def fold_codes)
      then show ?thesis
        using Cons True rc nx by (simp add: p)
    next
      case False
      then show ?thesis
        using Cons.prems(5) True rc post by (simp add: p)
    qed
  qed (use Cons in \<open>auto simp: p\<close>)
qed (simp add: post_next)

lemma patterns_sound:
  "\<forall>p \<in> set ADD_patterns. pattern_sound kADD p" "\<forall>p \<in> set SUB_patterns. pattern_sound kSUB p"
  using sound_kfold_arith
  by (auto simp: ADD_patterns_def SUB_patterns_def sound_simplify_intadd_k sound_comm_swap
      sound_reassoc sound_simplify_sub_k sound_simplify_intsub_kleft sound_simplify_intsub
      sound_subadd_leftcancel sound_subsub_leftcancel sound_subsub_rightcancel
      sound_subadd_rightcancel sound_subaddadd)

lemma arith_mode:
  assumes "arith_val op x y = Some v"
  shows "irmode_left (ir_mode op) = irm_operand_bits IRMref"
    and "\<not> unary_op op \<Longrightarrow> irmode_right (ir_mode op) = irm_operand_bits IRMref"
    and "ir_mode op AND 0x60 = 0" and "\<not> is_lit_op op" and "op \<noteq> kSAVE"
proof -
  have "op \<in> {kADD, kSUB, kMUL, kNEG, kBNOT, kBAND, kBOR, kBXOR}"
    using assms by (auto simp: arith_val_def split: if_splits)
  then show "irmode_left (ir_mode op) = irm_operand_bits IRMref"
    "\<not> unary_op op \<Longrightarrow> irmode_right (ir_mode op) = irm_operand_bits IRMref"
    "ir_mode op AND 0x60 = 0" "\<not> is_lit_op op" "op \<noteq> kSAVE"
    by (auto simp: ir_mode_def IRDEF_def irmode_left_def irmode_right_def unary_op_def is_lit_op_def)
qed

lemma load_operands_loaded:
  assumes inv: "fold_inv env v b" and call: "load_operands b = Inr (u, c)"
  shows "fold_inv env v c" and "fold_loaded c" and "same_code b c" and "fins c = fins b"
    and "ib_flags c = ib_flags b"
proof -
  note bd = fold_inv_bounds [OF inv]
  note md = arith_mode [OF bd(12)]
  have l: "fold_left b = ir_op1 (fins b)" "fold_left b \<noteq> 0"
    using md bd(2,6) by (auto simp: fold_left_def)
  define b1 where "b1 = b\<lparr>ib_fold := (ib_fold b)\<lparr>fs_left := ib_buffer b (ir_op1 (fins b))\<rparr>\<rparr>"
  have sc1: "same_code b b1" and f1: "fins b1 = fins b" "fleft b1 = ib_buffer b (ir_op1 (fins b))"
      "ib_flags b1 = ib_flags b"
    by (simp_all add: b1_def same_code_def fins_def fleft_def)
  have c: "c = b1 \<and> unary_op (ir_o (fins b)) \<or>
      c = b1\<lparr>ib_fold := (ib_fold b1)\<lparr>fs_right := ib_buffer b (ir_op2 (fins b))\<rparr>\<rparr>"
  proof (cases "unary_op (ir_o (fins b)) \<and> fold_right b = 0")
    case True
    then show ?thesis
      using call l by (auto simp: load_operands_def Let_def result b1_def)
  next
    case False
    then have "fold_right b \<noteq> 0" "fold_right b = ir_op2 (fins b)"
      using md(2) bd(2,8) by (auto simp: fold_right_def split: if_splits)
    then show ?thesis
      using call l by (auto simp: load_operands_def Let_def result b1_def)
  qed
  then show sc: "same_code b c" and fc: "fins c = fins b" and "ib_flags c = ib_flags b"
    using sc1 f1 by (auto simp: same_code_def fins_def)
  show "fold_loaded c"
    using c f1 sc fc by (auto simp: fold_loaded_def fleft_def fright_def fins_def same_code_def)
  show "fold_inv env v c"
    using inv same_code_wf [OF sc] same_code_sem [OF sc] fc sc
    by (simp add: fold_inv_def operands_below_def same_code_def)
qed

definition fold_done :: "(nat \<Rightarrow> u8) \<Rightarrow> u8 \<Rightarrow> irbuffer \<Rightarrow> nat \<Rightarrow> irbuffer \<Rightarrow> bool" where
  "fold_done env v b ref b' \<longleftrightarrow>
     (\<exists>env'. env_extends b env env' \<and> ib_extends b b' \<and> ib_wf b' \<and> sem_ok env' b' \<and>
        ir_type (fins b') = ir_type (fins b) \<and> ib_flags b' = ib_flags b \<and>
        (ref = NEXTFOLD \<and> fold_inv env' v b' \<or> ref = RETRYFOLD \<and> fold_inv env' v b' \<or>
         ref = KLITFOLD \<and> fs_literal (ib_fold b') = v \<or>
         MAX_FOLD \<le> ref \<and> ib_bufmin b' \<le> ref \<and> ref < ib_bufmax b' \<and> env' ref = v))"

lemma fold_step_sound:
  assumes inv: "fold_inv env v b" and call: "fold_step mem b = Inr (ref, b')"
  shows "fold_done env v b ref b'"
proof -
  note bd = fold_inv_bounds [OF inv]
  note md = arith_mode [OF bd(12)]
  obtain u c where ld: "load_operands b = Inr (u, c)"
    and disp: "fold_dispatch mem (ir_o (fins c)) (fold_left c) (fold_right c) c = Inr (ref, b')"
    using call by (auto simp: fold_step_def result)
  note L = load_operands_loaded [OF inv ld]
  have post: "fold_post env v c ref b'"
  proof (cases "ir_o (fins b) = kADD \<or> ir_o (fins b) = kSUB")
    case True
    then have nu: "\<not> unary_op (ir_o (fins b))" by auto
    have "fold_left c = ir_op1 (fins c)" "fold_right c = ir_op2 (fins c)"
      using md(1) md(2) [OF nu] L(4) by (simp_all add: fold_left_def fold_right_def)
    with True disp L(4) patterns_sound show ?thesis
      by (auto simp: fold_dispatch_def intro: try_patterns_sound [OF _ L(1,2)])
  next
    case False
    have ops: "ir_o (fins b) \<notin> {kUPDATE, kEQINFO, kNEINFO, kHEAPCHK, kEQ, kNE, kFLOAD}"
      using bd(12) by (auto simp: arith_val_def split: if_splits)
    then have "ref = NEXTFOLD" "b' = c"
      using disp False L(4) by (auto simp: fold_dispatch_def)
    then show ?thesis using post_next [OF L(1)] by simp
  qed
  have ext: "ib_extends b c" using same_code_extends [OF L(3)] .
  from post obtain env' where e: "env_extends c env env'" "ib_extends c b'" "ib_wf b'" "sem_ok env' b'"
      "ir_type (fins b') = ir_type (fins c)" "ib_flags b' = ib_flags c"
      "ref = NEXTFOLD \<and> b' = c \<or> ref = RETRYFOLD \<and> fold_inv env' v b' \<or>
         ref = KLITFOLD \<and> fs_literal (ib_fold b') = v \<or>
         MAX_FOLD \<le> ref \<and> ib_bufmin b' \<le> ref \<and> ref < ib_bufmax b' \<and> env' ref = v"
    unfolding fold_post_def by blast
  have "fold_inv env' v c" if "b' = c"
    using that e(4) L(1) ins_val_extends [OF e(1), of "ib_bufmax c" "fins c"]
    by (simp add: fold_inv_def)
  moreover have "env_extends b env env'"
    using e(1) L(3) by (simp add: env_extends_def same_code_def)
  ultimately show ?thesis
    unfolding fold_done_def using e L(4,5) ib_extends_trans [OF ext e(2)]
    by (intro exI [of _ env']) auto
qed

lemma fold_done_trans:
  assumes "env_extends b env env'" "ib_extends b c" "ir_type (fins c) = ir_type (fins b)"
    "ib_flags c = ib_flags b" and "fold_done env' v c ref b'"
  shows "fold_done env v b ref b'"
proof -
  obtain env'' where "env_extends c env' env''" "ib_extends c b'" "ib_wf b'" "sem_ok env'' b'"
      "ir_type (fins b') = ir_type (fins c)" "ib_flags b' = ib_flags c"
      "ref = NEXTFOLD \<and> fold_inv env'' v b' \<or> ref = RETRYFOLD \<and> fold_inv env'' v b' \<or>
         ref = KLITFOLD \<and> fs_literal (ib_fold b') = v \<or>
         MAX_FOLD \<le> ref \<and> ib_bufmin b' \<le> ref \<and> ref < ib_bufmax b' \<and> env'' ref = v"
    using assms(5) unfolding fold_done_def by blast
  then show ?thesis
    unfolding fold_done_def using assms env_extends_trans [OF assms(1,2)] ib_extends_trans [OF assms(2)]
    by (intro exI [of _ env'']) simp
qed

lemma do_fold_sound:
  assumes "fold_inv env v b" and "do_fold_loop mem n b = Inr (ref, b')"
  shows "fold_done env v b ref b' \<and> ref \<noteq> RETRYFOLD"
  using assms
proof (induction n arbitrary: env b)
  case 0
  then show ?case
    by (auto simp: fold_done_def fold_codes fold_inv_def intro!: exI [of _ env])
next
  case (Suc n)
  obtain r c where st: "fold_step mem b = Inr (r, c)"
    using Suc.prems(2) by (auto simp: result)
  note dn = fold_step_sound [OF Suc.prems(1) st]
  show ?case
  proof (cases "r = RETRYFOLD")
    case True
    then obtain env' where e: "env_extends b env env'" "ib_extends b c"
      "ir_type (fins c) = ir_type (fins b)" "ib_flags c = ib_flags b" "fold_inv env' v c"
      using dn by (auto simp: fold_done_def fold_codes)
    have "do_fold_loop mem n c = Inr (ref, b')"
      using Suc.prems(2) st True by simp
    from Suc.IH [OF e(5) this] show ?thesis
      using fold_done_trans [OF e(1-4)] by blast
  next
    case False
    then show ?thesis using Suc.prems(2) st dn by auto
  qed
qed

section \<open>Emission through the engine\<close>

lemma sem_cse:
  assumes inv: "fold_inv env v b" and call: "ib_optCSE b = Inr (tr, b')"
  shows "\<exists>env'. env_extends b env env' \<and> ib_extends b b' \<and> ib_wf b' \<and> sem_ok env' b' \<and>
    ib_bufmin b' \<le> tref_ref tr \<and> tref_ref tr < ib_bufmax b' \<and> env' (tref_ref tr) = v"
proof -
  note bd = fold_inv_bounds [OF inv]
  note nl = arith_mode(4) [OF bd(12)]
  have ok: "ir_ok (fins b)" and ob: "operands_below b (ib_bufmax b) (fins b)"
    using inv by (auto simp: fold_inv_def)
  note c = ib_optCSE_correct [OF bd(4) nl ok call]
  have low: "ib_bufmin b' \<le> tref_ref tr"
    using c by (auto simp: ib_wf_def wf_bounds_def REF_BASE_BIAS)
  let ?i = "ib_buffer b' (tref_ref tr)"
  have iv: "ins_val e ?i = ins_val e (fins b)" for e
    using c by (simp add: ins_val_def)
  show ?thesis
  proof (cases "b' = b")
    case True
    then have "ins_val env ?i = Some (env (tref_ref tr))"
      using sem_ok_ins(2) [OF bd(5), of "tref_ref tr" env v] c iv bd(12) by (auto simp: ins_val_def)
    then have "env (tref_ref tr) = v"
      using iv [of env] bd(12) by (simp add: ins_val_def)
    then show ?thesis using True c low bd(4,5) by (intro exI [of _ env]) simp
  next
    case False
    then have tr: "tref_ref tr = ib_bufmax b" and mx: "ib_bufmax b' = ib_bufmax b + 1"
      and ext: "ib_extends b b'" and wf': "ib_wf b'"
      using c by auto
    define env' where "env' = (\<lambda>r. if r < ib_bufmin b then
        (case ib_literalValue b' r of Inl _ \<Rightarrow> 0 | Inr k \<Rightarrow> k) else (env(ib_bufmax b := v)) r)"
    have bmin: "ib_bufmin b \<le> ib_bufmax b"
      using bd(4) by (auto simp: ib_wf_def wf_bounds_def REF_BASE_BIAS)
    have ee: "env_extends b env env'"
      by (simp add: env_extends_def env'_def)
    have at: "env' (ib_bufmax b) = v" using bmin by (simp add: env'_def)
    have lits: "env' ref = k" if "ref < REF_BIAS" "ib_literalValue b' ref = Inr k" for ref k
    proof (cases "ib_bufmin b \<le> ref")
      case True
      then have "env ref = k"
        using ib_literalValue_extends [OF ext bd(4) True that(1)] that bd(5) by (auto simp: sem_ok_def)
      then show ?thesis using True that(1) bd(3) by (simp add: env'_def)
    qed (simp add: env'_def that)
    have "operands_below b' ref (ib_buffer b' ref) \<and> env' ref = w"
      if r: "REF_BASE \<le> ref" "ref < ib_bufmax b'" and w: "ins_val env' (ib_buffer b' ref) = Some w"
      for ref w
    proof (cases "ref = ib_bufmax b")
      case True
      have "ins_val env' (fins b) = Some v"
        using ins_val_extends [OF ee ob] bd(12) by (simp add: ins_val_def)
      then have "w = v" using w iv [of env'] tr True by simp
      moreover have "operands_below b' ref (ib_buffer b' ref)"
        using ob ext c True tr by (auto simp: operands_below_def ib_extends_def)
      ultimately show ?thesis using True at by simp
    next
      case False
      then have lt: "ref < ib_bufmax b" using r mx by simp
      have same: "ib_buffer b' ref = ib_buffer b ref"
        using ext r(1) lt bd(4) by (auto simp: ib_extends_def REF_BASE_BIAS ib_wf_def wf_bounds_def)
      note so = sem_ok_ins [OF bd(5) r(1) lt w [unfolded same]]
      then have "w = env ref"
        using w same ins_val_extends [OF ee so(1)] lt by simp
      moreover have "env' ref = env ref"
        using lt r(1) bd(4) by (auto simp: env'_def ib_wf_def wf_bounds_def REF_BASE_BIAS)
      ultimately show ?thesis
        using so(1) same ext operands_below_mono [OF so(1)] by (auto simp: ib_extends_def)
    qed
    then have "sem_ok env' b'"
      unfolding sem_ok_def using lits by blast
    then show ?thesis
      using ee ext wf' at tr mx low by (intro exI [of _ env']) simp
  qed
qed

lemma optFold_value:
  assumes inv: "fold_inv env v b" and call: "optFold mem b = Inr (tr, b')"
  shows "\<exists>env'. env_extends b env env' \<and> ib_extends b b' \<and> ib_wf b' \<and> sem_ok env' b' \<and>
    ib_bufmin b' \<le> tref_ref tr \<and> tref_ref tr < ib_bufmax b' \<and> env' (tref_ref tr) = v"
proof -
  note bd = fold_inv_bounds [OF inv]
  note md = arith_mode [OF bd(12)]
  obtain ref c where st: "(if flag_get (ib_flags b) kOptFold then doFold mem b else Inr (NEXTFOLD, b))
      = Inr (ref, c)"
    using call md(5) by (auto simp: optFold_def Let_def result)
  have "fold_done env v b ref c \<and> ref \<noteq> RETRYFOLD"
  proof (cases "flag_get (ib_flags b) kOptFold")
    case True
    then show ?thesis using st do_fold_sound [OF inv] by (simp add: doFold_def)
  next
    case False
    then show ?thesis
      using st inv by (auto simp: fold_done_def fold_codes fold_inv_def intro!: exI [of _ env])
  qed
  then obtain env' where e: "env_extends b env env'" "ib_extends b c" "ib_wf c" "sem_ok env' c"
      "ir_type (fins c) = ir_type (fins b)"
      "ref = NEXTFOLD \<and> fold_inv env' v c \<or>
         ref = KLITFOLD \<and> fs_literal (ib_fold c) = v \<or>
         MAX_FOLD \<le> ref \<and> ib_bufmin c \<le> ref \<and> ref < ib_bufmax c \<and> env' ref = v"
    unfolding fold_done_def by blast
  have rest: "(if ref = NEXTFOLD then if ir_mode (ir_o (fins b)) AND 0x60 = 0 then ib_optCSE c else ib_emit c
      else if ref \<ge> MAX_FOLD then res_bind (ib_ir c ref) (\<lambda>i. Inr (tref_mk ref (ir_t i), c))
      else if ref = KLITFOLD then ib_literal (ir_type (fins c)) (fs_literal (ib_fold c)) c
      else if ref = FAILFOLD then Inl (Throw IROPTERR_FAILING_GUARD)
      else res_bind (lc_assert (ref = DROPFOLD)) (\<lambda>_. Inr (tref_none, c))) = Inr (tr, b')"
    using call st md(5) by (simp add: optFold_def Let_def)
  have lift: ?thesis if "\<exists>env''. env_extends c env' env'' \<and> ib_extends c b' \<and> ib_wf b' \<and> sem_ok env'' b' \<and>
    ib_bufmin b' \<le> tref_ref tr \<and> tref_ref tr < ib_bufmax b' \<and> env'' (tref_ref tr) = v"
    using that env_extends_trans [OF e(1,2)] ib_extends_trans [OF e(2)] by blast
  from e(6) consider (nxt) "ref = NEXTFOLD" "fold_inv env' v c"
    | (lit) "ref = KLITFOLD" "fs_literal (ib_fold c) = v"
    | (ref) "MAX_FOLD \<le> ref" "ib_bufmin c \<le> ref" "ref < ib_bufmax c" "env' ref = v" by blast
  then show ?thesis
  proof cases
    case nxt
    then have "ib_optCSE c = Inr (tr, b')" using rest md(3) by simp
    then show ?thesis using sem_cse [OF nxt(2)] lift by blast
  next
    case lit
    then have l: "ib_literal (ir_type (fins b)) v c = Inr (tr, b')"
      using rest e(5) by (simp add: fold_codes)
    from fold_literal [OF e(3,4) bd(13) ir_type_mask l] obtain env'' where
      "env_extends c env' env''" "ib_extends c b'" "ib_wf b'" "sem_ok env'' b'"
      "ib_bufmin b' \<le> tref_ref tr" "tref_ref tr < REF_BIAS" "env'' (tref_ref tr) = v" by blast
    then show ?thesis
      by (intro lift exI [of _ env'']) (auto simp: ib_wf_def wf_bounds_def REF_BASE_BIAS)
  next
    case ref
    have small: "ref < 65536" using ref(3) e(3) by (auto simp: ib_wf_def wf_bounds_def)
    have acc: "ib_ir c ref = Inr (ib_buffer c ref)" using ref by (simp add: ib_ir_def res_bind_lc_assert)
    have "ref \<noteq> NEXTFOLD" using ref(1) by (auto simp: fold_codes)
    then have "tref_ref tr = ref" "b' = c"
      using rest acc ref(1) small by auto
    then show ?thesis using ref e by (intro lift exI [of _ env']) simp
  qed
qed

section \<open>Properties\<close>

text \<open>
  \<^bold>\<open>C4.\<close> Emitting an integer operation of a signed type (the recorder emits arithmetic at
  \<^verbatim>\<open>IRT_I64\<close> only) through the fold engine and common subexpression elimination yields a reference whose value is that of the operation, for every valuation that
  agrees with the trace: whatever rules apply, in whatever order and however often they retry,
  the trace keeps its meaning and only grows.
\<close>

theorem emit_preserves_value:
  assumes "ib_wf b" and "sem_ok env b" and "isSigned (ty AND IRT_TYPE)"
    and "arith_val op (env x) (env y) = Some v"
    and "ib_bufmin b \<le> x" "x < ib_bufmax b" and "ib_bufmin b \<le> y" "y < ib_bufmax b"
    and "ib_emitIns mem op ty x y b = Inr (tr, b')"
  shows "\<exists>env'. env_extends b env env' \<and> ib_extends b b' \<and> ib_wf b' \<and> sem_ok env' b' \<and>
    ib_bufmin b' \<le> tref_ref tr \<and> tref_ref tr < ib_bufmax b' \<and> env' (tref_ref tr) = v"
proof -
  let ?b = "ib_setIns op ty x y b"
  have sc: "same_code b ?b" by simp
  have small: "x < 65536" "y < 65536"
    using assms(1,6,8) by (auto simp: ib_wf_def wf_bounds_def)
  have "fold_inv env v ?b"
    using assms small same_code_wf [OF sc] same_code_sem [OF sc] sc
    by (simp add: fold_inv_def ir_ok_def operands_below_def ins_val_def same_code_def)
  from optFold_value [OF this assms(9) [unfolded ib_emitIns_def]] show ?thesis
    using sc by (simp add: env_extends_def ib_extends_def same_code_def)
qed

definition demo_env :: "nat \<Rightarrow> u8" where
  "demo_env ref = (if ref = 0x7fff then 0x1000 else if ref = 0x7ffe then 5 else 0x2000)"

lemma demo_lit: "ib_literalValue demo_buf 0x7ffe = Inr 5" "ib_literalValue demo_buf 0x7fff = Inr 0x1000"
  by (simp_all add: ib_literalValue_def ib_ir_def kOpIsSigned_def typebit_def irt_defs lc_assert_def)

lemma demo_buf_sem: "sem_ok demo_env demo_buf"
  unfolding sem_ok_def
proof (intro conjI allI impI)
  fix ref k assume *: "ib_bufmin demo_buf \<le> ref \<and> ref < REF_BIAS \<and> ib_literalValue demo_buf ref = Inr k"
  then have "ref = 0x7ffe \<or> ref = 0x7fff" using demo_buf_lit_range(1) [of ref] by blast
  then show "demo_env ref = k" using * by (auto simp: demo_lit demo_env_def)
next
  fix ref v assume *: "REF_BASE \<le> ref \<and> ref < ib_bufmax demo_buf \<and>
      ins_val demo_env (ib_buffer demo_buf ref) = Some v"
  then have "ref = 0x8000" using demo_buf_lit_range(2) [of ref] by blast
  then show "operands_below demo_buf ref (ib_buffer demo_buf ref)" "demo_env ref = v"
    using * by (auto simp: ins_val_def arith_val_def)
qed

lemma demo_emit:
  "\<exists>tr b'. ib_emitIns mem kADD IRT_I64 0x7ffe 0x7ffe demo_buf = Inr (tr, b')"
proof -
  define b where "b = ib_setIns kADD IRT_I64 0x7ffe 0x7ffe demo_buf"
  define c where "c = b\<lparr>ib_fold := (ib_fold b)\<lparr>fs_left := lit_ins 5 IRT_I64 0x7fff,
      fs_right := lit_ins 5 IRT_I64 0x7fff\<rparr>\<rparr>"
  define d where "d = c\<lparr>ib_fold := (ib_fold c)\<lparr>fs_literal := 10\<rparr>\<rparr>"
  note am = arith_mode [where op = kADD and x = 0 and y = 0 and v = 0, simplified]
  have sc1: "same_code demo_buf b"
    unfolding b_def by (rule fins_setIns(6))
  have sc2: "same_code b c" "same_code b d"
    by (simp_all add: c_def d_def same_code_def)
  note sc = sc1 sc2
  have fb: "ir_o (fins b) = kADD" "ir_op1 (fins b) = 0x7ffe" "ir_op2 (fins b) = 0x7ffe"
      "ib_flags b = \<lparr>raw_flags = 3\<rparr>"
    by (simp_all add: b_def)
  have ty: "ir_type (fins b) = IRT_I64"
    by (simp add: b_def irt_defs)
  have fc: "fins c = fins b" "fleft c = lit_ins 5 IRT_I64 0x7fff" "fright c = lit_ins 5 IRT_I64 0x7fff"
    by (simp_all add: c_def fins_def fleft_def fright_def)
  have acc: "ib_ir b' 0x7ffe = Inr (lit_ins 5 IRT_I64 0x7fff)"
    if "ib_buffer b' = ib_buffer demo_buf" "ib_bufmin b' = 0x7ffe" "ib_bufmax b' = 0x8001" for b'
    using that by (simp add: ib_ir_def lc_assert_def)
  have lr: "fold_left b = 0x7ffe" "fold_right b = 0x7ffe" "fold_left c = 0x7ffe" "fold_right c = 0x7ffe"
    using am fb fc by (simp_all add: fold_left_def fold_right_def)
  have ld: "load_operands b = Inr ((), c)"
    using lr sc(1) by (simp add: load_operands_def acc same_code_def c_def)
  have lv: "ib_literalValue c 0x7ffe = Inr 5"
    using same_code_literalValue sc demo_lit by metis
  have "kfold_arith c = Inr (KLITFOLD, d)"
    unfolding kfold_arith_def fc(1) fb(2,3) lv ty d_def LITFOLD_def kfold_intop_def
    using fb(1) by simp
  then have st: "fold_step mem b = Inr (KLITFOLD, d)"
    using ld fb fc lr by (simp add: fold_step_def fold_dispatch_def ADD_patterns_def p_lit_def
        irref_islit_def REF_BIAS_def fold_codes)
  have wfd: "ib_wf d"
    using demo_buf_wf same_code_wf [OF sc(1)] same_code_wf [OF sc(3)] by simp
  have "doFold mem b = Inr (KLITFOLD, d)"
    unfolding doFold_def using do_fold_loop.simps(2) [of mem 129 b] st by (simp add: fold_codes)
  moreover have "flag_get \<lparr>raw_flags = 3\<rparr> kOptFold"
    by (simp add: flag_get_def kOptFold_def)
  moreover obtain tr b' where "ib_literal (ir_type (fins d)) (fs_literal (ib_fold d)) d = Inr (tr, b')"
    using ib_literal_total [OF wfd, of "ir_type (fins d)" "fs_literal (ib_fold d)"] sc by (auto simp: same_code_def)
  ultimately have "optFold mem b = Inr (tr, b')"
    using fb by (simp add: optFold_def Let_def fold_codes)
  then show ?thesis
    unfolding ib_emitIns_def b_def by blast
qed

theorem emit_preserves_value_witness:
  "\<exists>tr b' env'. ib_emitIns (\<lambda>_. None) kADD IRT_I64 0x7ffe 0x7ffe demo_buf = Inr (tr, b') \<and>
     sem_ok env' b' \<and> env' (tref_ref tr) = 10"
proof -
  obtain tr b' where call: "ib_emitIns (\<lambda>_. None) kADD IRT_I64 0x7ffe 0x7ffe demo_buf = Inr (tr, b')"
    using demo_emit by blast
  have "isSigned (IRT_I64 AND IRT_TYPE)"
    by (simp add: isSigned_def kOpIsSigned_def typebit_def irt_defs)
  moreover have "arith_val kADD (demo_env 0x7ffe) (demo_env 0x7ffe) = Some 10"
    by (simp add: demo_env_def)
  ultimately show ?thesis
    using emit_preserves_value [OF demo_buf_wf demo_buf_sem _ _ _ _ _ _ call] call by auto
qed
end
