(* ===== verification/Objects.thy ===== *)
theory Objects
  imports Bytecode
begin

text \<open>
  Heap objects and the memory they live in (\<^verbatim>\<open>src/vm/objects.hh\<close>, \<^verbatim>\<open>src/vm/objects.cc\<close>):
  closure types and their flags, info tables, code objects, closures, partial applications,
  byte arrays and the doubly linked list of large objects.

  The memory of the process is a record of three maps, all indexed by byte addresses: 64 bit
  words (stack, closures, large objects), info tables, and the 16 bit halves of the bytecode
  segments.  An access outside the mapped addresses is the error \<^const>\<open>BadAccess\<close>.
\<close>

section \<open>Types\<close>

datatype closure_type =
    INVALID_OBJECT | CONSTR | FUN | THUNK | IND | CAF | PAP | LARGE | AP_CONT | STATIC_IND
  | UPDATE_FRAME | BLACKHOLE

definition CF_HNF :: u2 where "CF_HNF = 1"
definition CF_THU :: u2 where "CF_THU = 2"
definition CF_IND :: u2 where "CF_IND = 4"

fun closureFlags :: "closure_type \<Rightarrow> u2" where
  "closureFlags INVALID_OBJECT = 0"
| "closureFlags CONSTR = CF_HNF"
| "closureFlags FUN = CF_HNF"
| "closureFlags THUNK = CF_THU"
| "closureFlags IND = CF_IND"
| "closureFlags CAF = CF_THU"
| "closureFlags PAP = CF_HNF"
| "closureFlags LARGE = CF_HNF"
| "closureFlags AP_CONT = CF_HNF"
| "closureFlags STATIC_IND = CF_IND"
| "closureFlags UPDATE_FRAME = 0"
| "closureFlags BLACKHOLE = 0"

record code =
  c_framesize :: nat
  c_arity :: nat
  c_sizecode :: nat
  c_sizelits :: nat
  c_sizebitmaps :: nat
  c_lits :: "u8 list"
  c_littypes :: "u1 list"
  c_code :: u8

record info_table =
  it_bitmap :: u4
  it_type :: closure_type
  it_size :: nat
  it_tagOrBitmap :: u2
  it_code :: "code option"

definition it_hasCode :: "info_table \<Rightarrow> bool" where
  "it_hasCode i \<longleftrightarrow> it_type i \<in> {FUN, THUNK, CAF, AP_CONT, UPDATE_FRAME, PAP}"

section \<open>Memory\<close>

record world =
  w_mem :: "u8 \<rightharpoonup> u8"
  w_infos :: "u8 \<rightharpoonup> info_table"
  w_code :: "u8 \<rightharpoonup> u2"

definition rd :: "world \<Rightarrow> u8 \<Rightarrow> u8 result" where
  "rd w a = of_option BadAccess (w_mem w a)"

definition wr :: "u8 \<Rightarrow> u8 \<Rightarrow> world \<Rightarrow> world result" where
  "wr a v w =
     (if w_mem w a = None then Inl BadAccess else Inr (w\<lparr>w_mem := (w_mem w)(a \<mapsto> v)\<rparr>))"

text \<open>The word at index \<open>n\<close> of an array of words.\<close>

definition word_at :: "u8 \<Rightarrow> int \<Rightarrow> u8" where
  "word_at p n = p + of_int (8 * n)"

definition w_u2 :: "world \<Rightarrow> u8 \<Rightarrow> u2 result" where
  "w_u2 w a = of_option BadAccess (w_code w a)"

definition w_u4 :: "world \<Rightarrow> u8 \<Rightarrow> u4 result" where
  "w_u4 w a = res_bind (w_u2 w a) (\<lambda>lo. res_bind (w_u2 w (a + 2)) (\<lambda>hi.
     Inr (ucast lo OR push_bit 16 (ucast hi))))"

definition w_u1 :: "world \<Rightarrow> u8 \<Rightarrow> u1 result" where
  "w_u1 w a = res_bind (w_u2 w (a AND NOT 1)) (\<lambda>h.
     Inr (if a AND 1 = 0 then ucast h else ucast (drop_bit 8 h)))"

section \<open>Closures\<close>

definition cl_info :: "world \<Rightarrow> u8 \<Rightarrow> u8 result" where
  "cl_info w cl = rd w cl"

definition cl_setInfo :: "u8 \<Rightarrow> u8 \<Rightarrow> world \<Rightarrow> world result" where
  "cl_setInfo cl info w = wr cl info w"

definition cl_payload :: "world \<Rightarrow> u8 \<Rightarrow> int \<Rightarrow> u8 result" where
  "cl_payload w cl i = rd w (word_at cl (i + 1))"

definition cl_setPayload :: "u8 \<Rightarrow> int \<Rightarrow> u8 \<Rightarrow> world \<Rightarrow> world result" where
  "cl_setPayload cl i v w = wr (word_at cl (i + 1)) v w"

definition info_at :: "world \<Rightarrow> u8 \<Rightarrow> info_table result" where
  "info_at w p = of_option BadAccess (w_infos w p)"

definition cl_itbl :: "world \<Rightarrow> u8 \<Rightarrow> info_table result" where
  "cl_itbl w cl = res_bind (cl_info w cl) (info_at w)"

definition itbl_code :: "info_table \<Rightarrow> code result" where
  "itbl_code i = of_option BadAccess (it_code i)"

definition cl_isIndirection :: "world \<Rightarrow> u8 \<Rightarrow> bool result" where
  "cl_isIndirection w cl =
     res_bind (cl_itbl w cl) (\<lambda>i. Inr (closureFlags (it_type i) AND CF_IND \<noteq> 0))"

definition cl_isHNF :: "world \<Rightarrow> u8 \<Rightarrow> bool result" where
  "cl_isHNF w cl =
     res_bind (cl_itbl w cl) (\<lambda>i. Inr (closureFlags (it_type i) AND CF_HNF \<noteq> 0))"

definition cl_tag :: "world \<Rightarrow> u8 \<Rightarrow> u2 result" where
  "cl_tag w cl =
     res_bind (cl_itbl w cl) (\<lambda>i.
     res_bind (lc_assert (it_type i = CONSTR)) (\<lambda>_. Inr (it_tagOrBitmap i)))"

text \<open>
  \<^verbatim>\<open>while (cl->isIndirection()) cl = cl->payload(0)\<close>.  There are \<open>2^64\<close> addresses, so a chain
  that has not ended after as many steps is a cycle and the loop does not end.
\<close>

definition ind_fuel :: nat where "ind_fuel = 2 ^ 64"

fun skip_ind_loop :: "world \<Rightarrow> nat \<Rightarrow> u8 \<Rightarrow> u8 result" where
  "skip_ind_loop w 0 cl = Inl Diverge"
| "skip_ind_loop w (Suc fuel) cl =
     res_bind (cl_isIndirection w cl) (\<lambda>ind.
       if ind then res_bind (cl_payload w cl 0) (skip_ind_loop w fuel) else Inr cl)"

definition skip_ind :: "world \<Rightarrow> u8 \<Rightarrow> u8 result" where
  "skip_ind w cl = skip_ind_loop w ind_fuel cl"

definition isConstructor :: "world \<Rightarrow> u8 \<Rightarrow> bool result" where
  "isConstructor w cl =
     res_bind (skip_ind w cl) (\<lambda>c. res_bind (cl_itbl w c) (\<lambda>i. Inr (it_type i = CONSTR)))"

section \<open>Partial applications and byte arrays\<close>

text \<open>
  \<^verbatim>\<open>PapClosure\<close>: the word after the header holds the number of arguments (low half) and the
  pointer mask (high half), then comes the function, then the arguments.
\<close>

definition wordsof_PapClosure :: nat where "wordsof_PapClosure = 3"
definition wordsof_ClosureHeader :: nat where "wordsof_ClosureHeader = 1"

definition pap_nargs :: "world \<Rightarrow> u8 \<Rightarrow> nat result" where
  "pap_nargs w p = res_bind (rd w (p + 8)) (\<lambda>x. Inr (unat (ucast x :: u4)))"

definition pap_pointerMask :: "world \<Rightarrow> u8 \<Rightarrow> u4 result" where
  "pap_pointerMask w p = res_bind (rd w (p + 8)) (\<lambda>x. Inr (ucast (drop_bit 32 x)))"

definition pap_fun :: "world \<Rightarrow> u8 \<Rightarrow> u8 result" where
  "pap_fun w p = rd w (p + 16)"

definition pap_payload :: "world \<Rightarrow> u8 \<Rightarrow> nat \<Rightarrow> u8 result" where
  "pap_payload w p i = rd w (word_at p (int i + 3))"

definition pap_setPayload :: "u8 \<Rightarrow> nat \<Rightarrow> u8 \<Rightarrow> world \<Rightarrow> world result" where
  "pap_setPayload p i v w = wr (word_at p (int i + 3)) v w"

definition pap_init :: "u8 \<Rightarrow> u8 \<Rightarrow> u4 \<Rightarrow> u4 \<Rightarrow> u8 \<Rightarrow> world \<Rightarrow> world result" where
  "pap_init p info ptrMask nargs fn w =
     res_bind (wr p info w) (\<lambda>w.
     res_bind (wr (p + 8) (ucast nargs OR push_bit 32 (ucast ptrMask)) w) (\<lambda>w.
       wr (p + 16) fn w))"

section \<open>Large objects\<close>

text \<open>\<^verbatim>\<open>LargeObject\<close>: previous, next, flags, payload size, then the closure header.\<close>

definition sizeof_LargeObject :: nat where "sizeof_LargeObject = 40"

definition closureFromLargeObject :: "u8 \<Rightarrow> u8" where
  "closureFromLargeObject lobj = lobj + 32"

definition largeObjectFromClosure :: "u8 \<Rightarrow> u8" where
  "largeObjectFromClosure c = c - 32"

definition lo_prev :: "world \<Rightarrow> u8 \<Rightarrow> u8 result" where "lo_prev w o' = rd w o'"
definition lo_next :: "world \<Rightarrow> u8 \<Rightarrow> u8 result" where "lo_next w o' = rd w (o' + 8)"
definition lo_flags :: "world \<Rightarrow> u8 \<Rightarrow> u8 result" where "lo_flags w o' = rd w (o' + 16)"
definition lo_setPrev :: "u8 \<Rightarrow> u8 \<Rightarrow> world \<Rightarrow> world result" where "lo_setPrev o' v w = wr o' v w"
definition lo_setNext :: "u8 \<Rightarrow> u8 \<Rightarrow> world \<Rightarrow> world result" where "lo_setNext o' v w = wr (o' + 8) v w"
definition lo_setFlags :: "u8 \<Rightarrow> u8 \<Rightarrow> world \<Rightarrow> world result" where
  "lo_setFlags o' v w = wr (o' + 16) v w"

definition lo_getMark :: "world \<Rightarrow> u8 \<Rightarrow> bool result" where
  "lo_getMark w o' = res_bind (lo_flags w o') (\<lambda>f. Inr (f AND 1 \<noteq> 0))"

definition lo_setMark :: "u8 \<Rightarrow> world \<Rightarrow> world result" where
  "lo_setMark o' w = res_bind (lo_flags w o') (\<lambda>f. lo_setFlags o' (f OR 1) w)"

definition lo_clearMark :: "u8 \<Rightarrow> world \<Rightarrow> world result" where
  "lo_clearMark o' w = res_bind (lo_flags w o') (\<lambda>f. lo_setFlags o' (f AND NOT 1) w)"

text \<open>The list head is passed in and out.\<close>

definition linkLargeObject :: "u8 \<Rightarrow> u8 \<Rightarrow> world \<Rightarrow> (u8 \<times> world) result" where
  "linkLargeObject obj list w =
     res_bind (lo_setNext obj list w) (\<lambda>w.
     res_bind (lo_setPrev obj 0 w) (\<lambda>w.
     res_bind (if list \<noteq> 0 then lo_setPrev list obj w else Inr w) (\<lambda>w. Inr (obj, w))))"

definition unlinkLargeObject :: "u8 \<Rightarrow> u8 \<Rightarrow> world \<Rightarrow> (u8 \<times> world) result" where
  "unlinkLargeObject obj list w =
     res_bind (lo_prev w obj) (\<lambda>p.
     res_bind (lo_next w obj) (\<lambda>n.
     res_bind (if p \<noteq> 0 then res_bind (lo_setNext p n w) (\<lambda>w. Inr (list, w)) else Inr (n, w))
       (\<lambda>(list, w).
     res_bind (lo_prev w obj) (\<lambda>p.
     res_bind (lo_next w obj) (\<lambda>n.
     res_bind (if n \<noteq> 0 then lo_setPrev n p w else Inr w) (\<lambda>w. Inr (list, w)))))))"

section \<open>Facts about memory\<close>

lemma rd_wr:
  assumes "wr a v w = Inr w'"
  shows "rd w' b = (if b = a then Inr v else rd w b)"
  using assms by (auto simp: wr_def rd_def split: if_splits)

lemma wr_frame [frame]:
  "wr a v w = Inr w' \<Longrightarrow> w_infos w' = w_infos w \<and> w_code w' = w_code w \<and> dom (w_mem w') = dom (w_mem w)"
  by (auto simp: wr_def split: if_splits)

lemma wr_total: "(\<exists>w'. wr a v w = Inr w') \<longleftrightarrow> a \<in> dom (w_mem w)"
  by (auto simp: wr_def)

lemma rd_total: "(\<exists>v. rd w a = Inr v) \<longleftrightarrow> a \<in> dom (w_mem w)"
  by (auto simp: rd_def)

lemma word_at_inject:
  assumes "\<bar>m - n\<bar> < 2 ^ 61"
  shows "word_at p m = word_at p n \<longleftrightarrow> m = n"
proof
  assume "word_at p m = word_at p n"
  then have "(word_of_int (8 * m) :: u8) = word_of_int (8 * n)"
    unfolding word_at_def by (rule add_left_imp_eq)
  then have "take_bit 64 (8 * m) = take_bit 64 (8 * n)"
    by (simp only: word_of_int_eq_iff) simp
  then have "2 ^ 64 dvd 8 * m - 8 * n"
    by (simp only: take_bit_eq_mod mod_eq_dvd_iff)
  moreover have "\<bar>8 * m - 8 * n\<bar> < 2 ^ 64"
  proof -
    have "8 * m - 8 * n = 8 * (m - n)" by simp
    then show ?thesis using assms by (simp only: abs_mult) simp
  qed
  ultimately show "m = n"
    using dvd_imp_le_int [of "8 * m - 8 * n" "2 ^ 64"] by (cases "8 * m - 8 * n = 0") auto
qed simp


section \<open>The list of large objects\<close>

text \<open>
  \<open>lo_list w prev xs hd\<close>: starting at \<open>hd\<close> the large objects \<open>xs\<close> are linked in both directions;
  \<open>prev\<close> is the predecessor of the first one.
\<close>

fun lo_list :: "world \<Rightarrow> u8 \<Rightarrow> u8 list \<Rightarrow> u8 \<Rightarrow> bool" where
  "lo_list w prev [] hd' \<longleftrightarrow> hd' = 0"
| "lo_list w prev (x # xs) hd' \<longleftrightarrow>
     hd' = x \<and> x \<noteq> 0 \<and> lo_prev w x = Inr prev \<and> (\<exists>n. lo_next w x = Inr n \<and> lo_list w x xs n)"

text \<open>The link words of different objects are different words.\<close>

definition lo_sep :: "u8 list \<Rightarrow> bool" where
  "lo_sep xs \<longleftrightarrow> distinct xs \<and> (\<forall>x \<in> set xs. \<forall>y \<in> set xs. x + 8 \<noteq> y)"

lemmas lo_access = lo_prev_def lo_next_def lo_setPrev_def lo_setNext_def

lemma lo_list_frame:
  assumes "lo_list w prev xs hd'" and "\<And>x. x \<in> set xs \<Longrightarrow> rd w' x = rd w x \<and> rd w' (x + 8) = rd w (x + 8)"
  shows "lo_list w' prev xs hd'"
  using assms by (induction xs arbitrary: prev hd') (auto simp: lo_access)

lemma lo_list_wr:
  assumes "lo_list w prev xs hd'" and "wr a v w = Inr w'" and "\<And>x. x \<in> set xs \<Longrightarrow> a \<noteq> x \<and> a \<noteq> x + 8"
  shows "lo_list w' prev xs hd'"
  by (rule lo_list_frame [OF assms(1)]) (use assms(3) rd_wr [OF assms(2)] in auto)

lemma lo_list_setPrev_head:
  assumes "lo_list w prev xs hd'" and "hd' \<noteq> 0" and "lo_setPrev hd' p w = Inr w'" and "lo_sep xs"
  shows "lo_list w' p xs hd'"
proof (cases xs)
  case (Cons x ys)
  then obtain n where n: "hd' = x" "x \<noteq> 0" "rd w (x + 8) = Inr n" "lo_list w x ys n"
    using assms(1) by (auto simp: lo_access)
  have "\<And>y. y \<in> set ys \<Longrightarrow> x \<noteq> y \<and> x \<noteq> y + 8"
    using assms(4) Cons by (auto simp: lo_sep_def)
  then have "lo_list w' x ys n"
    using lo_list_wr [OF n(4)] assms(3) n(1) by (auto simp: lo_access)
  moreover have "x + 8 \<noteq> x" by simp
  ultimately show ?thesis
    using Cons n rd_wr [OF assms(3) [unfolded lo_setPrev_def]] by (simp add: lo_access)
qed (use assms in simp)

lemma lo_list_head_mapped:
  "lo_list w prev xs hd' \<Longrightarrow> hd' \<noteq> 0 \<Longrightarrow> hd' \<in> set xs \<and> hd' \<in> dom (w_mem w) \<and> hd' + 8 \<in> dom (w_mem w)"
  by (cases xs) (auto simp: lo_access rd_def)

lemma lo_list_suffix:
  assumes "lo_list w prev (xs @ ys) hd'" and "xs \<noteq> []"
  shows "last xs \<noteq> 0 \<and> (\<exists>n. rd w (last xs + 8) = Inr n \<and> lo_list w (last xs) ys n)"
  using assms by (induction xs arbitrary: prev hd') (fastforce simp: lo_access split: if_splits)+

text \<open>Replacing the tail behind a segment.\<close>

lemma lo_list_splice:
  assumes "lo_list w prev (xs @ ys) hd'" and "xs \<noteq> []"
    and "\<And>x. x \<in> set xs \<Longrightarrow> rd w' x = rd w x"
    and "\<And>x. x \<in> set xs \<Longrightarrow> x \<noteq> last xs \<Longrightarrow> rd w' (x + 8) = rd w (x + 8)"
    and "rd w' (last xs + 8) = Inr n" and "lo_list w' (last xs) zs n" and "distinct xs"
  shows "lo_list w' prev (xs @ zs) hd'"
  using assms
proof (induction xs arbitrary: prev hd')
  case (Cons x xs)
  show ?case
  proof (cases "xs = []")
    case True
    then show ?thesis
      using Cons.prems by (auto simp: lo_access)
  next
    case False
    obtain m where m: "rd w (x + 8) = Inr m" "lo_list w x (xs @ ys) m"
      using Cons.prems(1) by (auto simp: lo_access)
    have "x \<noteq> last xs"
      using Cons.prems(7) False last_in_set [OF False] by auto
    then have "rd w' (x + 8) = Inr m" "rd w' x = rd w x"
      using Cons.prems(3,4) [of x] False m(1) by auto
    moreover have "lo_list w' x (xs @ zs) m"
      by (rule Cons.IH [OF m(2) False]) (use Cons.prems False in auto)
    ultimately show ?thesis
      using Cons.prems(1) by (auto simp: lo_access)
  qed
qed simp

lemma wr_Inr_iff: "wr a v w = Inr w' \<longleftrightarrow> a \<in> dom (w_mem w) \<and> w' = w\<lparr>w_mem := (w_mem w)(a \<mapsto> v)\<rparr>"
  by (auto simp: wr_def)

lemma unlink_first:
  assumes "lo_sep (obj # ys)" and "lo_list w 0 (obj # ys) list"
  shows "\<exists>list' w'. unlinkLargeObject obj list w = Inr (list', w') \<and> lo_list w' 0 ys list'"
proof -
  obtain n where o: "rd w obj = Inr 0" "rd w (obj + 8) = Inr n" "lo_list w obj ys n"
    using assms(2) by (auto simp: lo_access)
  show ?thesis
  proof (cases "n = 0")
    case True
    then show ?thesis
      using o by (cases ys) (auto simp: unlinkLargeObject_def lo_access)
  next
    case False
    then obtain w' where w': "wr n 0 w = Inr w'"
      using lo_list_head_mapped [OF o(3)] wr_total by blast
    have "lo_sep ys"
      using assms(1) by (auto simp: lo_sep_def)
    then have "lo_list w' 0 ys n"
      by (intro lo_list_setPrev_head [OF o(3) False]) (simp_all add: lo_access w')
    then show ?thesis
      using o False w' by (auto simp: unlinkLargeObject_def lo_access)
  qed
qed

lemma unlink_inner:
  assumes "lo_sep (xs @ obj # ys)" and "lo_list w 0 (xs @ obj # ys) list" and "xs \<noteq> []"
  shows "\<exists>w'. unlinkLargeObject obj list w = Inr (list, w') \<and> lo_list w' 0 (xs @ ys) list"
proof -
  let ?p = "last xs"
  have p: "?p \<noteq> 0" "?p \<in> set xs"
    using lo_list_suffix [OF assms(2,3)] assms(3) by auto
  obtain n where o: "rd w obj = Inr ?p" "rd w (obj + 8) = Inr n" "lo_list w obj ys n"
    using lo_list_suffix [OF assms(2,3)] by (auto simp: lo_access)
  obtain w1 where w1: "wr (?p + 8) n w = Inr w1"
    using lo_list_suffix [OF assms(2,3)] wr_total [of "?p + 8" n w] by (auto simp: rd_def)
  note r1 = rd_wr [OF w1]
  have ne: "?p \<noteq> obj" "?p + 8 \<noteq> obj"
    using assms(1) p(2) by (auto simp: lo_sep_def)
  have o1: "rd w1 obj = Inr ?p" "rd w1 (obj + 8) = Inr n"
    using r1 o ne by auto
  have y: "y \<noteq> ?p \<and> ?p + 8 \<noteq> y" if "y \<in> set ys" for y
    using assms(1) p(2) that by (auto simp: lo_sep_def)
  have l1: "lo_list w1 obj ys n"
    by (rule lo_list_wr [OF o(3) w1]) (use y in auto)
  have sy: "lo_sep ys"
    using assms(1) by (auto simp: lo_sep_def)
  obtain w2 where w2: "(if n \<noteq> 0 then wr n ?p w1 else Inr w1) = Inr w2" and l2: "lo_list w2 ?p ys n"
    and r2: "\<And>a. a \<noteq> n \<Longrightarrow> rd w2 a = rd w1 a" and n: "n \<noteq> 0 \<longrightarrow> n \<in> set ys"
  proof (cases "n = 0")
    case True
    then show ?thesis using that [of w1] l1 by (cases ys) auto
  next
    case False
    then obtain w2 where w2: "wr n ?p w1 = Inr w2"
      using lo_list_head_mapped [OF l1] wr_total by blast
    have "lo_list w2 ?p ys n"
      by (rule lo_list_setPrev_head [OF l1 False _ sy]) (simp add: lo_access w2)
    then show ?thesis
      using that [of w2] False w2 rd_wr [OF w2] lo_list_head_mapped [OF l1] by auto
  qed
  have nx: "x \<noteq> n \<and> x + 8 \<noteq> n" if "x \<in> set xs" "n \<noteq> 0" for x
    using assms(1) n that by (auto simp: lo_sep_def)
  have xx: "?p + 8 \<noteq> x \<and> (x \<noteq> ?p \<longrightarrow> x + 8 \<noteq> ?p + 8)" if "x \<in> set xs" for x
    using assms(1) p(2) that by (auto simp: lo_sep_def)
  have "lo_list w2 0 (xs @ ys) list"
  proof (cases "n = 0")
    case True
    then have "w2 = w1" using w2 by simp
    show ?thesis
      by (rule lo_list_splice [OF assms(2,3) _ _ _ l2])
        (use \<open>w2 = w1\<close> r1 xx assms(1) in \<open>auto simp: lo_sep_def\<close>)
  next
    case False
    show ?thesis
      by (rule lo_list_splice [OF assms(2,3) _ _ _ l2])
        (use r2 nx [OF _ False] r1 xx p(2) assms(1) in \<open>auto simp: lo_sep_def\<close>)
  qed
  moreover have "unlinkLargeObject obj list w = Inr (list, w2)"
    using o p(1) w1 o1 w2 by (auto simp: unlinkLargeObject_def lo_access split: if_splits)
  ultimately show ?thesis by blast
qed

lemma link_front:
  assumes "lo_sep (obj # ys)" and "lo_list w 0 ys list" and "obj \<noteq> 0"
    and "obj \<in> dom (w_mem w)" and "obj + 8 \<in> dom (w_mem w)"
  shows "\<exists>w'. linkLargeObject obj list w = Inr (obj, w') \<and> lo_list w' 0 (obj # ys) obj"
proof -
  have ne: "y \<noteq> obj \<and> y + 8 \<noteq> obj \<and> obj + 8 \<noteq> y" if "y \<in> set ys" for y
    using assms(1) that by (auto simp: lo_sep_def)
  obtain w1 where w1: "wr (obj + 8) list w = Inr w1"
    using assms(5) wr_total by blast
  obtain w2 where w2: "wr obj 0 w1 = Inr w2"
    using assms(4) wr_frame [OF w1] wr_total by metis
  have l2: "lo_list w2 0 ys list"
    by (rule lo_list_wr [OF lo_list_wr [OF assms(2) w1] w2]) (use ne in force)+
  have o2: "rd w2 obj = Inr 0" "rd w2 (obj + 8) = Inr list"
    using rd_wr [OF w1] rd_wr [OF w2] by auto
  show ?thesis
  proof (cases "list = 0")
    case True
    then show ?thesis
      using w1 w2 o2 l2 assms(3) by (cases ys) (auto simp: linkLargeObject_def lo_access)
  next
    case False
    then obtain w3 where w3: "wr list obj w2 = Inr w3"
      using lo_list_head_mapped [OF l2] wr_total by blast
    have "lo_list w3 obj ys list"
      by (rule lo_list_setPrev_head [OF l2 False])
        (use assms(1) w3 in \<open>auto simp: lo_sep_def lo_access\<close>)
    moreover have "list \<noteq> obj" "list \<noteq> obj + 8"
      using ne lo_list_head_mapped [OF l2 False] by auto
    ultimately show ?thesis
      using w1 w2 w3 False o2 rd_wr [OF w3] assms(3)
      by (auto simp: linkLargeObject_def lo_access)
  qed
qed

text \<open>
  \<^bold>\<open>C21.\<close> \<^verbatim>\<open>linkLargeObject\<close> and \<^verbatim>\<open>unlinkLargeObject\<close> implement insertion at the front and
  removal of a doubly linked list: on a well linked list they succeed, and the result is the
  well linked list with the object added in front, or taken out wherever it was.
\<close>

theorem large_object_list:
  assumes "lo_sep (xs @ obj # ys)"
  shows "(lo_list w 0 (xs @ obj # ys) list \<longrightarrow>
      (\<exists>list' w'. unlinkLargeObject obj list w = Inr (list', w') \<and> lo_list w' 0 (xs @ ys) list')) \<and>
    (lo_list w 0 (xs @ ys) list \<and> obj \<noteq> 0 \<and> obj \<in> dom (w_mem w) \<and> obj + 8 \<in> dom (w_mem w) \<longrightarrow>
      (\<exists>w'. linkLargeObject obj list w = Inr (obj, w') \<and> lo_list w' 0 (obj # xs @ ys) obj))"
proof (intro conjI impI)
  assume l: "lo_list w 0 (xs @ obj # ys) list"
  show "\<exists>list' w'. unlinkLargeObject obj list w = Inr (list', w') \<and> lo_list w' 0 (xs @ ys) list'"
  proof (cases "xs = []")
    case True
    then show ?thesis using unlink_first [of obj ys w list] assms l by simp
  next
    case False
    then show ?thesis using unlink_inner [OF assms l] by blast
  qed
next
  have "lo_sep (obj # xs @ ys)"
    using assms by (auto simp: lo_sep_def)
  moreover assume "lo_list w 0 (xs @ ys) list \<and> obj \<noteq> 0 \<and> obj \<in> dom (w_mem w) \<and> obj + 8 \<in> dom (w_mem w)"
  ultimately show "\<exists>w'. linkLargeObject obj list w = Inr (obj, w') \<and> lo_list w' 0 (obj # xs @ ys) obj"
    using link_front by blast
qed

definition demo_large :: world where
  "demo_large = \<lparr>w_mem = [100 \<mapsto> 0, 108 \<mapsto> 200, 200 \<mapsto> 100, 208 \<mapsto> 300, 300 \<mapsto> 200, 308 \<mapsto> 0],
     w_infos = Map.empty, w_code = Map.empty\<rparr>"

theorem large_object_list_witness:
  "\<exists>w'. unlinkLargeObject 200 100 demo_large = Inr (100, w') \<and> lo_list w' 0 [100, 300] 100"
proof -
  have "lo_sep ([100] @ 200 # [300])"
    by (simp add: lo_sep_def)
  moreover have "lo_list demo_large 0 ([100] @ 200 # [300]) 100"
    by (simp add: demo_large_def lo_access rd_def)
  ultimately obtain l w' where "unlinkLargeObject 200 100 demo_large = Inr (l, w')"
      "lo_list w' 0 ([100] @ [300]) l"
    using large_object_list [of "[100]" 200 "[300]" demo_large 100] by blast
  then show ?thesis by auto
qed
end
