(* ===== verification/MemoryManager.thy ===== *)
theory MemoryManager
  imports Objects
begin

text \<open>
  The memory manager of \<^verbatim>\<open>src/vm/memorymanager.hh\<close> and \<^verbatim>\<open>src/vm/memorymanager.cc\<close>: regions
  obtained from the operating system, their division into blocks, bump allocation into blocks,
  the free lists, and large objects.  The collector is in theory \<open>GC\<close>.

  The operating system is the parameter \<open>os\<close>: the results of \<^verbatim>\<open>mmap\<close> (by number of the call,
  hint and size) and of \<^verbatim>\<open>mprotect\<close>.  A block is named by the address of its region and its
  index; the descriptors, which the program keeps at the start of a region, are a map of the
  state.  Freshly mapped memory is zero.
\<close>

section \<open>Blocks\<close>

type_synonym bref = "u8 \<times> nat"

record block =
  bl_start :: u8
  bl_end :: u8
  bl_free :: u8
  bl_link :: "bref option"
  bl_flags :: u4

definition kBlockSizeLog2 :: nat where "kBlockSizeLog2 = 15"
definition kBlockSize :: nat where "kBlockSize = 2 ^ kBlockSizeLog2"

definition kUninitialized :: u4 where "kUninitialized = 0"
definition kClosures :: u4 where "kClosures = 1"
definition kStaticClosures :: u4 where "kStaticClosures = 2"
definition kInfoTables :: u4 where "kInfoTables = 3"
definition kStrings :: u4 where "kStrings = 4"
definition kBytecode :: u4 where "kBytecode = 5"
definition kMetadata :: u4 where "kMetadata = 6"
definition kContentsMask :: u4 where "kContentsMask = 0xff"
definition kScavenged :: u4 where "kScavenged = 0x100"

definition bl_alloc :: "u8 \<Rightarrow> block \<Rightarrow> u8 \<times> block" where
  "bl_alloc bytes b =
     (let ptr = bl_free b; b' = b\<lparr>bl_free := bl_free b + bytes\<rparr>
      in if bl_free b' > bl_end b' then (0, b'\<lparr>bl_free := ptr\<rparr>) else (ptr, b'))"

definition bl_size :: "block \<Rightarrow> u8" where
  "bl_size b = bl_end b - bl_start b"

definition bl_getFlag :: "u4 \<Rightarrow> block \<Rightarrow> bool" where
  "bl_getFlag flag b \<longleftrightarrow> bl_flags b AND flag \<noteq> 0"

definition bl_contents :: "block \<Rightarrow> u4" where
  "bl_contents b = bl_flags b AND kContentsMask"

definition bl_setFlag :: "u4 \<Rightarrow> block \<Rightarrow> block" where
  "bl_setFlag flag b = b\<lparr>bl_flags := bl_flags b OR flag\<rparr>"

definition bl_clearFlag :: "u4 \<Rightarrow> block \<Rightarrow> block" where
  "bl_clearFlag flag b = b\<lparr>bl_flags := bl_flags b AND NOT flag\<rparr>"

definition bl_markAsFree :: "block \<Rightarrow> block" where
  "bl_markAsFree b = b\<lparr>bl_flags := kUninitialized, bl_free := bl_start b\<rparr>"

section \<open>Regions\<close>

datatype region_type = kSmallObjectRegion | kLargeObjectRegion

definition kRegionSizeLog2 :: nat where "kRegionSizeLog2 = 20"
definition kRegionSize :: nat where "kRegionSize = 2 ^ kRegionSizeLog2"
definition kBlocksPerRegion :: nat where "kBlocksPerRegion = kRegionSize div kBlockSize"

text \<open>Three words of header, 40 bytes for each of the block descriptors, and one pointer.\<close>

definition sizeof_SmallObjectRegionData :: nat where
  "sizeof_SmallObjectRegionData = 24 + 40 * kBlocksPerRegion + 8"

definition sizeof_LargeObjectRegionData :: nat where "sizeof_LargeObjectRegionData = 40"

definition maxLargeObjectSize :: nat where
  "maxLargeObjectSize = kRegionSize - sizeof_LargeObjectRegionData - sizeof_LargeObject"

record region =
  rg_type :: region_type
  rg_link :: u8
  rg_blocks :: "block list"
  rg_next_free :: "bref option"
  rg_end :: u8
  rg_free :: u8

definition alignToRegionBoundary :: "u8 \<Rightarrow> u8" where
  "alignToRegionBoundary p = roundUpToPowerOf2 kRegionSizeLog2 p"

definition alignToBlockBoundary :: "u8 \<Rightarrow> u8" where
  "alignToBlockBoundary p = roundUpToPowerOf2 kBlockSizeLog2 p"

definition regionFromPointer :: "u8 \<Rightarrow> u8" where
  "regionFromPointer p = p AND NOT (of_nat kRegionSize - 1)"

definition inRegion :: "u8 \<Rightarrow> u8 \<Rightarrow> bool" where
  "inRegion r p \<longleftrightarrow> r \<le> p \<and> p < r + of_nat kRegionSize"

text \<open>The two loops of \<^verbatim>\<open>initBlocks\<close>; \<open>n\<close> blocks are left to initialise, the next one is \<open>i\<close>.\<close>

fun initBlocks_meta :: "nat \<Rightarrow> u8 \<Rightarrow> block list" where
  "initBlocks_meta 0 metadata = []"
| "initBlocks_meta (Suc n) metadata =
     (let e = alignToBlockBoundary (metadata + 1)
      in \<lparr>bl_start = metadata, bl_end = e, bl_free = e, bl_link = None, bl_flags = kMetadata\<rparr>
         # initBlocks_meta n e)"

fun initBlocks_avail :: "u8 \<Rightarrow> nat \<Rightarrow> nat \<Rightarrow> u8 \<Rightarrow> block list" where
  "initBlocks_avail r 0 i ptr = []"
| "initBlocks_avail r (Suc n) i ptr =
     (let e = alignToBlockBoundary (ptr + 1)
      in \<lparr>bl_start = ptr, bl_end = e, bl_free = ptr,
          bl_link = (if n = 0 then None else Some (r, i + 1)), bl_flags = kUninitialized\<rparr>
         # initBlocks_avail r n (i + 1) e)"

definition first_avail :: nat where
  "first_avail = sizeof_SmallObjectRegionData div kBlockSize"

definition initBlocks :: "u8 \<Rightarrow> region \<Rightarrow> region" where
  "initBlocks r rg =
     rg\<lparr>rg_blocks := initBlocks_meta first_avail r @
          initBlocks_avail r (kBlocksPerRegion - first_avail) first_avail
            (r + of_nat sizeof_SmallObjectRegionData),
        rg_next_free := Some (r, first_avail)\<rparr>"

section \<open>State\<close>

record os =
  os_mmap :: "nat \<Rightarrow> u8 \<Rightarrow> u8 \<Rightarrow> u8 option"
  os_mprotect :: "u8 \<Rightarrow> u8 \<Rightarrow> bool"

datatype area = A_info_tables | A_static_closures | A_closures | A_strings | A_bytecode

record mm =
  mm_world :: world
  mm_regions :: "u8 \<rightharpoonup> region"
  mm_region :: u8
  mm_largeObjectRegion :: u8
  mm_free :: "bref option"
  mm_area :: "area \<Rightarrow> bref"
  mm_old_heap :: "bref option"
  mm_topOfStackMask :: u4
  mm_beginAllocInfoTableLevel :: int
  mm_largeObjects :: u8
  mm_evacuatedLargeObjects :: u8
  mm_scavengedLargeObjects :: u8
  mm_freeLargeRegions :: u8
  mm_minHeapSize :: u8
  mm_nextGC :: u4
  mm_allocated :: u8
  mm_num_gcs :: u8
  mm_alloc_hint :: u8
  mm_mmap_calls :: nat

type_synonym 'a mm_result = "('a \<times> mm) result"

definition kNoMask :: u4 where "kNoMask = -1"

definition kMMapRegionStart :: u8 where "kMMapRegionStart = 0x100000000"
definition kMMapRegionEnd :: u8 where "kMMapRegionEnd = push_bit 40 1"

definition mm_regionAt :: "mm \<Rightarrow> u8 \<Rightarrow> region result" where
  "mm_regionAt m r = of_option BadAccess (mm_regions m r)"

definition mm_setRegion :: "u8 \<Rightarrow> region \<Rightarrow> mm \<Rightarrow> mm" where
  "mm_setRegion r rg m = m\<lparr>mm_regions := (mm_regions m)(r \<mapsto> rg)\<rparr>"

definition mm_block :: "mm \<Rightarrow> bref \<Rightarrow> block result" where
  "mm_block m b =
     res_bind (mm_regionAt m (fst b)) (\<lambda>rg.
       if snd b < length (rg_blocks rg) then Inr (rg_blocks rg ! snd b) else Inl BadAccess)"

definition mm_setBlock :: "bref \<Rightarrow> block \<Rightarrow> mm \<Rightarrow> mm" where
  "mm_setBlock b bl m =
     (case mm_regions m (fst b) of
        None \<Rightarrow> m
      | Some rg \<Rightarrow> mm_setRegion (fst b) (rg\<lparr>rg_blocks := (rg_blocks rg)[snd b := bl]\<rparr>) m)"

definition mm_updBlock :: "bref \<Rightarrow> (block \<Rightarrow> block) \<Rightarrow> mm \<Rightarrow> mm result" where
  "mm_updBlock b f m = res_bind (mm_block m b) (\<lambda>bl. Inr (mm_setBlock b (f bl) m))"

definition blockFromPointer :: "mm \<Rightarrow> u8 \<Rightarrow> bref result" where
  "blockFromPointer m p =
     (let r = regionFromPointer p
      in res_bind (mm_regionAt m r) (\<lambda>rg.
         res_bind (lc_assert (rg_type rg = kSmallObjectRegion)) (\<lambda>_.
           let index = unat (drop_bit kBlockSizeLog2 (p AND (of_nat kRegionSize - 1)))
           in res_bind (lc_assert (index < kBlocksPerRegion)) (\<lambda>_. Inr (r, index)))))"

section \<open>Regions from the operating system\<close>

text \<open>
  The loop of \<^verbatim>\<open>newRegion\<close>; \<open>k\<close> attempts are left.  The result is the address of the region,
  the new value of the static variable \<^verbatim>\<open>alloc_hint\<close> and the number of \<^verbatim>\<open>mmap\<close> calls so far.
  \<^verbatim>\<open>abort\<close> is exit status 134.
\<close>

fun new_region_loop :: "os \<Rightarrow> nat \<Rightarrow> u8 \<Rightarrow> u8 \<Rightarrow> nat \<Rightarrow> (u8 \<times> u8 \<times> nat) result" where
  "new_region_loop os 0 hint sz calls = Inl (Exit 1)"
| "new_region_loop os (Suc k) hint sz calls =
     (let retry = (\<lambda>hint sz.
          if k = 0 then Inl (Exit 1)
          else if hint \<ge> kMMapRegionEnd then Inl (Exit 134)
          else new_region_loop os k hint sz (calls + 1))
      in case os_mmap os calls hint sz of
           None \<Rightarrow> retry hint sz
         | Some ptr \<Rightarrow>
             if isAlignedAtPowerOf2 kRegionSizeLog2 ptr
             then Inr (ptr, hint + sz, calls + 1)
             else
               let next_aligned = alignToRegionBoundary ptr;
                   region_end = next_aligned + of_nat kRegionSize;
                   alloc_end = ptr + sz
               in if region_end \<le> alloc_end
                  then Inr (next_aligned, region_end, calls + 1)
                  else retry ptr (region_end - ptr))"

definition map_zero :: "u8 \<Rightarrow> world \<Rightarrow> world" where
  "map_zero r w = w\<lparr>w_mem := (\<lambda>a. if inRegion r a \<and> a AND 7 = 0 then Some 0 else w_mem w a)\<rparr>"

definition newRegion :: "os \<Rightarrow> region_type \<Rightarrow> mm \<Rightarrow> u8 mm_result" where
  "newRegion os ty m =
     res_bind (new_region_loop os 33 (mm_alloc_hint m) (of_nat kRegionSize) (mm_mmap_calls m))
       (\<lambda>(ptr, hint, calls).
         let rg = \<lparr>rg_type = ty, rg_link = 0, rg_blocks = [], rg_next_free = None,
                   rg_end = 0, rg_free = 0\<rparr>;
             rg = (case ty of
                     kSmallObjectRegion \<Rightarrow> initBlocks ptr rg
                   | kLargeObjectRegion \<Rightarrow>
                       let fr = ptr + of_nat sizeof_LargeObjectRegionData
                       in rg\<lparr>rg_free := fr, rg_end := fr + of_nat kRegionSize\<rparr>)
         in Inr (ptr, mm_setRegion ptr rg
              (m\<lparr>mm_world := map_zero ptr (mm_world m), mm_alloc_hint := hint,
                 mm_mmap_calls := calls\<rparr>)))"

definition rg_grabFreeBlock :: "u8 \<Rightarrow> mm \<Rightarrow> bref option mm_result" where
  "rg_grabFreeBlock r m =
     res_bind (mm_regionAt m r) (\<lambda>rg.
     res_bind (lc_assert (rg_type rg = kSmallObjectRegion)) (\<lambda>_.
       case rg_next_free rg of
         None \<Rightarrow> Inr (None, m)
       | Some b \<Rightarrow>
           res_bind (mm_block m b) (\<lambda>bl.
             Inr (Some b, mm_setBlock b (bl\<lparr>bl_link := None\<rparr>)
                    (mm_setRegion r (rg\<lparr>rg_next_free := bl_link bl\<rparr>) m)))))"

text \<open>
  A new region always has a free block, so the loop of \<^verbatim>\<open>grabFreeBlock\<close> asks the operating
  system at most once; a second turn would not end.
\<close>

definition grabFreeBlock :: "os \<Rightarrow> u4 \<Rightarrow> mm \<Rightarrow> bref mm_result" where
  "grabFreeBlock os flags m =
     (case mm_free m of
        Some b \<Rightarrow>
          res_bind (mm_block m b) (\<lambda>bl.
            Inr (b, mm_setBlock b (bl\<lparr>bl_link := None, bl_flags := flags\<rparr>)
                      (m\<lparr>mm_free := bl_link bl\<rparr>)))
      | None \<Rightarrow>
          res_bind (rg_grabFreeBlock (mm_region m) m) (\<lambda>(b, m).
          res_bind
            (case b of
               Some b \<Rightarrow> Inr (b, m)
             | None \<Rightarrow>
                 res_bind (newRegion os kSmallObjectRegion m) (\<lambda>(r, m).
                 res_bind (mm_regionAt m r) (\<lambda>rg.
                   let m = (mm_setRegion r (rg\<lparr>rg_link := mm_region m\<rparr>) m)\<lparr>mm_region := r\<rparr>
                   in res_bind (rg_grabFreeBlock r m) (\<lambda>(b, m).
                      case b of Some b \<Rightarrow> Inr (b, m) | None \<Rightarrow> Inl Diverge))))
            (\<lambda>(b, m). res_bind (mm_updBlock b (\<lambda>bl. bl\<lparr>bl_flags := flags\<rparr>) m) (\<lambda>m. Inr (b, m)))))"

definition blockFull :: "os \<Rightarrow> area \<Rightarrow> mm \<Rightarrow> unit mm_result" where
  "blockFull os a m =
     res_bind (mm_block m (mm_area m a)) (\<lambda>fullBlock.
     res_bind (grabFreeBlock os (bl_contents fullBlock) m) (\<lambda>(emptyBlock, m).
     res_bind (mm_updBlock emptyBlock (\<lambda>bl. bl\<lparr>bl_link := Some (mm_area m a)\<rparr>) m) (\<lambda>m.
       Inr ((), m\<lparr>mm_area := (mm_area m)(a := emptyBlock)\<rparr>))))"

section \<open>Allocation\<close>

text \<open>
  \<^verbatim>\<open>allocInto\<close> tries the current block of the area and takes a new block until the request
  fits.  A request that fits into no block is never satisfied; the loop then goes on as long as
  the operating system gives memory (\<^const>\<open>Diverge\<close> when the fuel is used up).
\<close>

fun allocInto_loop :: "os \<Rightarrow> nat \<Rightarrow> area \<Rightarrow> u8 \<Rightarrow> mm \<Rightarrow> u8 mm_result" where
  "allocInto_loop os 0 a bytes m = Inl Diverge"
| "allocInto_loop os (Suc fuel) a bytes m =
     res_bind (mm_block m (mm_area m a)) (\<lambda>bl.
       case bl_alloc bytes bl of (ptr, bl') \<Rightarrow>
         let m = mm_setBlock (mm_area m a) bl' m
         in if ptr = 0
            then res_bind (blockFull os a m) (\<lambda>(_, m). allocInto_loop os fuel a bytes m)
            else Inr (ptr, m\<lparr>mm_allocated := mm_allocated m + bytes\<rparr>))"

definition alloc_fuel :: nat where "alloc_fuel = 2 ^ 64"

definition allocInto :: "os \<Rightarrow> area \<Rightarrow> u8 \<Rightarrow> mm \<Rightarrow> u8 mm_result" where
  "allocInto os a bytes m = allocInto_loop os alloc_fuel a bytes m"

definition allocString :: "os \<Rightarrow> u8 \<Rightarrow> mm \<Rightarrow> u8 mm_result" where
  "allocString os len m = allocInto os A_strings (len + 1) m"

definition allocStaticClosure :: "os \<Rightarrow> u8 \<Rightarrow> mm \<Rightarrow> u8 mm_result" where
  "allocStaticClosure os payloadSize m =
     allocInto os A_static_closures ((of_nat wordsof_ClosureHeader + payloadSize) * 8) m"

definition allocCode :: "os \<Rightarrow> u8 \<Rightarrow> u8 \<Rightarrow> mm \<Rightarrow> u8 mm_result" where
  "allocCode os instrs bitmaps m = allocInto os A_bytecode (4 * instrs + 2 * bitmaps) m"

definition allocClosure :: "os \<Rightarrow> u8 \<Rightarrow> u8 \<Rightarrow> mm \<Rightarrow> u8 mm_result" where
  "allocClosure os info payloadWords m =
     res_bind (allocInto os A_closures ((of_nat wordsof_ClosureHeader + payloadWords) * 8) m)
       (\<lambda>(cl, m). res_bind (cl_setInfo cl info (mm_world m)) (\<lambda>w. Inr (cl, m\<lparr>mm_world := w\<rparr>)))"

definition markBlock :: "os \<Rightarrow> bref \<Rightarrow> mm \<Rightarrow> bool result" where
  "markBlock os b m = res_bind (mm_block m b) (\<lambda>bl. Inr (os_mprotect os (bl_start bl) (bl_size bl)))"

definition isPageAligned :: "u8 \<Rightarrow> bool" where
  "isPageAligned p \<longleftrightarrow> p AND 0xfff = 0"

fun allocInfoTable_loop :: "os \<Rightarrow> nat \<Rightarrow> u8 \<Rightarrow> bool \<Rightarrow> mm \<Rightarrow> u8 mm_result" where
  "allocInfoTable_loop os 0 bytes try_it m = Inl Diverge"
| "allocInfoTable_loop os (Suc fuel) bytes try_it m =
     res_bind (if try_it
               then res_bind (mm_block m (mm_area m A_info_tables)) (\<lambda>bl.
                      case bl_alloc bytes bl of (ptr, bl') \<Rightarrow>
                        Inr (ptr, mm_setBlock (mm_area m A_info_tables) bl' m))
               else Inr (0, m)) (\<lambda>(ptr, m).
       if ptr = 0
       then res_bind (markBlock os (mm_area m A_info_tables) m) (\<lambda>ok.
            res_bind (lc_assert ok) (\<lambda>_.
            res_bind (blockFull os A_info_tables m) (\<lambda>(_, m).
            res_bind (mm_block m (mm_area m A_info_tables)) (\<lambda>bl.
              allocInfoTable_loop os fuel bytes (isPageAligned (bl_start bl)) m))))
       else Inr (ptr, m\<lparr>mm_allocated := mm_allocated m + bytes\<rparr>))"

definition allocInfoTable :: "os \<Rightarrow> u8 \<Rightarrow> mm \<Rightarrow> u8 mm_result" where
  "allocInfoTable os nwords m =
     res_bind (lc_assert (mm_beginAllocInfoTableLevel m > 0)) (\<lambda>_.
       allocInfoTable_loop os alloc_fuel (nwords * 8) True m)"

definition beginAllocInfoTable :: "os \<Rightarrow> mm \<Rightarrow> unit mm_result" where
  "beginAllocInfoTable os m =
     res_bind (if mm_beginAllocInfoTableLevel m = 0
               then res_bind (markBlock os (mm_area m A_info_tables) m) lc_assert else Inr ())
       (\<lambda>_. Inr ((), m\<lparr>mm_beginAllocInfoTableLevel := mm_beginAllocInfoTableLevel m + 1\<rparr>))"

definition endAllocInfoTable :: "os \<Rightarrow> mm \<Rightarrow> unit mm_result" where
  "endAllocInfoTable os m =
     (let m = m\<lparr>mm_beginAllocInfoTableLevel := mm_beginAllocInfoTableLevel m - 1\<rparr>
      in res_bind (if mm_beginAllocInfoTableLevel m = 0
                   then res_bind (markBlock os (mm_area m A_info_tables) m) lc_assert else Inr ())
           (\<lambda>_. Inr ((), m)))"

section \<open>Construction\<close>

definition mm_empty :: mm where
  "mm_empty = \<lparr>mm_world = \<lparr>w_mem = Map.empty, w_infos = Map.empty, w_code = Map.empty\<rparr>,
     mm_regions = Map.empty, mm_region = 0, mm_largeObjectRegion = 0, mm_free = None,
     mm_area = (\<lambda>_. (0, 0)), mm_old_heap = None, mm_topOfStackMask = kNoMask,
     mm_beginAllocInfoTableLevel = 0, mm_largeObjects = 0, mm_evacuatedLargeObjects = 0,
     mm_scavengedLargeObjects = 0, mm_freeLargeRegions = 0, mm_minHeapSize = 2, mm_nextGC = 2,
     mm_allocated = 0, mm_num_gcs = 0,
     mm_alloc_hint = alignToRegionBoundary kMMapRegionStart, mm_mmap_calls = 0\<rparr>"

definition grab_area :: "os \<Rightarrow> area \<Rightarrow> u4 \<Rightarrow> mm \<Rightarrow> mm result" where
  "grab_area os a flags m =
     res_bind (grabFreeBlock os flags m) (\<lambda>(b, m). Inr (m\<lparr>mm_area := (mm_area m)(a := b)\<rparr>))"

definition mm_new :: "os \<Rightarrow> mm result" where
  "mm_new os =
     res_bind (newRegion os kSmallObjectRegion mm_empty) (\<lambda>(r, m).
     res_bind (grab_area os A_static_closures kStaticClosures (m\<lparr>mm_region := r\<rparr>)) (\<lambda>m.
     res_bind (grab_area os A_info_tables kInfoTables m) (\<lambda>m.
     res_bind (markBlock os (mm_area m A_info_tables) m) (\<lambda>ok.
     res_bind (lc_assert ok) (\<lambda>_.
     res_bind (grab_area os A_closures kClosures m) (\<lambda>m.
     res_bind (grab_area os A_strings kStrings m) (\<lambda>m.
       grab_area os A_bytecode kBytecode m)))))))"

definition setMinHeapSize :: "u8 \<Rightarrow> mm \<Rightarrow> mm" where
  "setMinHeapSize bytes m =
     (let n = of_nat (idivCeil (unat bytes) kBlockSize)
      in m\<lparr>mm_minHeapSize := (if n < 2 then 2 else n)\<rparr>)"

section \<open>The bump allocator of the mutator\<close>

definition getBumpAllocatorBounds :: "mm \<Rightarrow> (u8 \<times> u8) result" where
  "getBumpAllocatorBounds m =
     res_bind (mm_block m (mm_area m A_closures)) (\<lambda>bl.
     res_bind (lc_assert (isWordAligned (bl_free bl))) (\<lambda>_.
     res_bind (lc_assert (isWordAligned (bl_end bl))) (\<lambda>_. Inr (bl_free bl, bl_end bl))))"

definition mm_sync :: "u8 \<Rightarrow> u8 \<Rightarrow> mm \<Rightarrow> mm result" where
  "mm_sync heap heaplim m =
     res_bind (mm_block m (mm_area m A_closures)) (\<lambda>bl.
     res_bind (lc_assert (heaplim = 0 \<or> heaplim = bl_end bl)) (\<lambda>_.
     res_bind (lc_assert (bl_free bl \<le> heap \<and> heap \<le> bl_end bl)) (\<lambda>_.
       Inr (mm_setBlock (mm_area m A_closures) (bl\<lparr>bl_free := heap\<rparr>)
              (m\<lparr>mm_allocated := mm_allocated m + (heap - bl_free bl)\<rparr>)))))"

definition bumpAllocatorFullNoGC ::
  "os \<Rightarrow> u8 \<Rightarrow> u8 \<Rightarrow> mm \<Rightarrow> (nat \<times> u8 \<times> u8) mm_result" where
  "bumpAllocatorFullNoGC os heap heaplim m =
     res_bind (mm_sync heap heaplim m) (\<lambda>m.
       let m = m\<lparr>mm_nextGC := mm_nextGC m - 1\<rparr>
       in if mm_nextGC m = 0 then Inr ((1, heap, heaplim), m\<lparr>mm_nextGC := mm_nextGC m + 1\<rparr>)
          else res_bind (blockFull os A_closures m) (\<lambda>(_, m).
               res_bind (getBumpAllocatorBounds m) (\<lambda>(h, l). Inr ((0, h, l), m))))"

section \<open>Large objects\<close>

fun allocLarge_find :: "nat \<Rightarrow> u8 \<Rightarrow> u8 \<Rightarrow> mm \<Rightarrow> u8 option mm_result" where
  "allocLarge_find 0 large nbytes m = Inl Diverge"
| "allocLarge_find (Suc fuel) large nbytes m =
     (if large = 0 then Inr (None, m)
      else
        res_bind (mm_regionAt m large) (\<lambda>rg.
        res_bind (lc_assert (rg_type rg \<noteq> kSmallObjectRegion)) (\<lambda>_.
        res_bind (mm_regionAt m (mm_largeObjectRegion m)) (\<lambda>rg0.
        res_bind (lc_assert (rg_type rg0 \<noteq> kSmallObjectRegion)) (\<lambda>_.
          let start = rg_free rg; e = start + nbytes
          in if e \<le> rg_end rg0
             then Inr (Some start, mm_setRegion (mm_largeObjectRegion m) (rg0\<lparr>rg_free := e\<rparr>) m)
             else allocLarge_find fuel (rg_link rg) nbytes m)))))"

definition allocLarge :: "os \<Rightarrow> u8 \<Rightarrow> mm \<Rightarrow> u8 mm_result" where
  "allocLarge os nbytes m =
     (if nbytes > of_nat maxLargeObjectSize then Inl (Exit 1)
      else
        let nbytesWithMeta = of_nat sizeof_LargeObject + nbytes
        in res_bind (allocLarge_find alloc_fuel (mm_largeObjectRegion m) nbytesWithMeta m)
             (\<lambda>(found, m).
           res_bind
             (case found of
                Some res \<Rightarrow> Inr (res, m)
              | None \<Rightarrow>
                  res_bind (newRegion os kLargeObjectRegion m) (\<lambda>(large, m).
                  res_bind (mm_regionAt m large) (\<lambda>rg.
                    Inr (rg_free rg,
                         (mm_setRegion large (rg\<lparr>rg_free := rg_free rg + nbytesWithMeta,
                            rg_link := mm_largeObjectRegion m\<rparr>) m)\<lparr>mm_largeObjectRegion := large\<rparr>))))
             (\<lambda>(res, m).
               res_bind (lc_assert (res \<noteq> 0)) (\<lambda>_.
               res_bind (lo_setPrev res 0 (mm_world m)) (\<lambda>w.
               res_bind (lo_setNext res (mm_largeObjects m) w) (\<lambda>w.
               res_bind (lo_setFlags res 0 w) (\<lambda>w.
               res_bind (wr (res + 24) nbytes w) (\<lambda>w.
                 Inr (closureFromLargeObject res, m\<lparr>mm_world := w, mm_largeObjects := res\<rparr>)))))))))"

section \<open>Queries\<close>

definition looksLikeInfoTable :: "mm \<Rightarrow> u8 \<Rightarrow> bool result" where
  "looksLikeInfoTable m p =
     res_bind (blockFromPointer m p) (\<lambda>b.
     res_bind (mm_block m b) (\<lambda>bl. Inr (bl_contents bl = kInfoTables)))"

definition looksLikeClosure :: "mm \<Rightarrow> u8 \<Rightarrow> bool result" where
  "looksLikeClosure m p =
     res_bind (mm_regionAt m (regionFromPointer p)) (\<lambda>rg.
       if rg_type rg = kLargeObjectRegion then Inr True
       else
         res_bind (blockFromPointer m p) (\<lambda>b.
         res_bind (mm_block m b) (\<lambda>bl.
           if \<not> (bl_contents bl = kStaticClosures \<or> bl_contents bl = kClosures) then Inr False
           else res_bind (cl_info (mm_world m) p) (\<lambda>info.
                if info = 0 then Inr False else looksLikeInfoTable m info))))"

fun in_region_list :: "mm \<Rightarrow> nat \<Rightarrow> u8 \<Rightarrow> u8 \<Rightarrow> bool result" where
  "in_region_list m 0 r p = Inl Diverge"
| "in_region_list m (Suc fuel) r p =
     (if r = 0 then Inr False
      else if inRegion r p then Inr True
      else res_bind (mm_regionAt m r) (\<lambda>rg. in_region_list m fuel (rg_link rg) p))"

definition inRegions :: "mm \<Rightarrow> u8 \<Rightarrow> bool result" where
  "inRegions m p =
     res_bind (in_region_list m alloc_fuel (mm_region m) p) (\<lambda>found.
       if found then Inr True else in_region_list m alloc_fuel (mm_largeObjectRegion m) p)"

section \<open>Bump allocation as an interface\<close>

text \<open>
  What a bump allocator promises: a successful request of \<open>n\<close> bytes returns the old free pointer
  and advances it by \<open>n\<close>; a request fails exactly when it does not fit below the limit.
\<close>

locale bump_allocator =
  fixes ok :: "'s \<Rightarrow> bool" and free :: "'s \<Rightarrow> nat" and limit :: "'s \<Rightarrow> nat"
    and alloc :: "nat \<Rightarrow> 's \<Rightarrow> (nat \<times> 's) option"
  assumes alloc_Some: "ok s \<Longrightarrow> alloc n s = Some (p, s') \<Longrightarrow>
      p = free s \<and> free s' = free s + n \<and> limit s' = limit s \<and> ok s'"
    and alloc_None: "ok s \<Longrightarrow> alloc n s = None \<longleftrightarrow> limit s < free s + n"
    and free_limit: "ok s \<Longrightarrow> free s \<le> limit s"
begin

fun allocs :: "nat list \<Rightarrow> 's \<Rightarrow> (nat list \<times> 's) option" where
  "allocs [] s = Some ([], s)"
| "allocs (n # ns) s =
     (case alloc n s of
        None \<Rightarrow> None
      | Some (p, s') \<Rightarrow> (case allocs ns s' of None \<Rightarrow> None | Some (ps, s'') \<Rightarrow> Some (p # ps, s'')))"

text \<open>Consecutive requests receive consecutive pieces of the free space.\<close>

lemma allocs_layout:
  assumes "ok s" and "allocs ns s = Some (ps, s')"
  shows "ok s' \<and> length ps = length ns \<and> free s' = free s + sum_list ns \<and> limit s' = limit s \<and>
    (\<forall>i < length ns. ps ! i = free s + sum_list (take i ns))"
  using assms
proof (induction ns arbitrary: s ps)
  case (Cons n ns)
  then obtain p s1 ps' where p: "alloc n s = Some (p, s1)" "allocs ns s1 = Some (ps', s')"
      "ps = p # ps'"
    by (auto split: option.splits)
  note a = alloc_Some [OF Cons.prems(1) p(1)]
  then have ih: "ok s' \<and> length ps' = length ns \<and> free s' = free s1 + sum_list ns \<and>
      limit s' = limit s1 \<and> (\<forall>i < length ns. ps' ! i = free s1 + sum_list (take i ns))"
    using Cons.IH [OF _ p(2)] by blast
  have "ps ! i = free s + sum_list (take i (n # ns))" if "i < length (n # ns)" for i
    using that ih a p(3) by (cases i) auto
  then show ?case
    using ih a p(3) by simp
qed simp

lemma allocs_disjoint:
  assumes "ok s" and "allocs ns s = Some (ps, s')" and "i < j" and "j < length ns"
  shows "ps ! i + ns ! i \<le> ps ! j" and "ps ! j + ns ! j \<le> limit s"
proof -
  have L: "ok s'" "free s' = free s + sum_list ns" "limit s' = limit s"
    and nth: "\<And>i. i < length ns \<Longrightarrow> ps ! i = free s + sum_list (take i ns)"
    using allocs_layout [OF assms(1,2)] by auto
  have mono: "sum_list (take a ns) \<le> sum_list (take b ns)" if "a \<le> b" for a b
    using that by (metis le_add1 min.absorb1 sum_list_append take_take append_take_drop_id)
  have "ps ! i + ns ! i = free s + sum_list (take (Suc i) ns)" if "i < length ns" for i
    using nth [OF that] that by (simp add: take_Suc_conv_app_nth)
  note e = this
  show "ps ! i + ns ! i \<le> ps ! j"
    using e [of i] nth [OF assms(4)] assms(3,4) mono [of "Suc i" j] by simp
  show "ps ! j + ns ! j \<le> limit s"
    using e [OF assms(4)] mono [of "Suc j" "length ns"] assms(4) L free_limit [OF L(1)] by simp
qed

lemma allocs_total:
  assumes "ok s" and "free s + sum_list ns \<le> limit s"
  shows "\<exists>ps s'. allocs ns s = Some (ps, s')"
  using assms
proof (induction ns arbitrary: s)
  case (Cons n ns)
  obtain p s1 where a: "alloc n s = Some (p, s1)"
    using alloc_None [OF Cons.prems(1), of n] Cons.prems(2) by (cases "alloc n s") auto
  then show ?case
    using Cons.IH [of s1] alloc_Some [OF Cons.prems(1) a] Cons.prems(2) by fastforce
qed simp

end

text \<open>\<^verbatim>\<open>Block::alloc\<close> is one, for blocks that do not reach the end of the address space.\<close>

definition bl_ok :: "block \<Rightarrow> bool" where
  "bl_ok b \<longleftrightarrow> bl_start b \<le> bl_free b \<and> bl_free b \<le> bl_end b \<and> 0 < bl_start b \<and> bl_end b < 2 ^ 63"

definition bl_allocN :: "nat \<Rightarrow> block \<Rightarrow> (nat \<times> block) option" where
  "bl_allocN n b =
     (if n < 2 ^ 63
      then case bl_alloc (of_nat n) b of (p, b') \<Rightarrow> if p = 0 then None else Some (unat p, b')
      else None)"

lemma bl_alloc_cases:
  assumes "bl_ok b" and "unat bytes < 2 ^ 63"
  shows "bl_alloc bytes b =
    (if unat (bl_free b) + unat bytes \<le> unat (bl_end b)
     then (bl_free b, b\<lparr>bl_free := bl_free b + bytes\<rparr>) else (0, b))"
    and "unat (bl_free b) + unat bytes \<le> unat (bl_end b) \<Longrightarrow>
      unat (bl_free b + bytes) = unat (bl_free b) + unat bytes"
proof -
  have "unat (bl_free b) < 2 ^ 63"
    using assms(1) by (auto simp: bl_ok_def word_le_nat_alt word_less_nat_alt)
  then have s: "unat (bl_free b + bytes) = unat (bl_free b) + unat bytes"
    using assms(2) by (simp add: unat_word_ariths)
  then show "unat (bl_free b + bytes) = unat (bl_free b) + unat bytes" .
  show "bl_alloc bytes b =
    (if unat (bl_free b) + unat bytes \<le> unat (bl_end b)
     then (bl_free b, b\<lparr>bl_free := bl_free b + bytes\<rparr>) else (0, b))"
    using s by (auto simp: bl_alloc_def Let_def word_less_nat_alt)
qed

interpretation blk: bump_allocator bl_ok "\<lambda>b. unat (bl_free b)" "\<lambda>b. unat (bl_end b)" bl_allocN
proof
  fix s n p s'
  assume ok: "bl_ok s" and a: "bl_allocN n s = Some (p, s')"
  then have n: "n < 2 ^ 63"
    by (auto simp: bl_allocN_def split: if_splits)
  then have un: "unat (of_nat n :: u8) = n"
    by (simp add: unat_of_nat_small)
  note c = bl_alloc_cases [OF ok, of "of_nat n", unfolded un, OF n]
  show "p = unat (bl_free s) \<and> unat (bl_free s') = unat (bl_free s) + n \<and>
      unat (bl_end s') = unat (bl_end s) \<and> bl_ok s'"
    using a n c ok by (auto simp: bl_allocN_def bl_ok_def word_le_nat_alt split: if_splits)
next
  fix s n assume ok: "bl_ok s"
  show "bl_allocN n s = None \<longleftrightarrow> unat (bl_end s) < unat (bl_free s) + n"
  proof (cases "n < 2 ^ 63")
    case True
    then have un: "unat (of_nat n :: u8) = n"
      by (simp add: unat_of_nat_small)
    note c = bl_alloc_cases(1) [OF ok, of "of_nat n", unfolded un, OF True]
    have "bl_free s \<noteq> 0"
      using ok by (auto simp: bl_ok_def)
    then show ?thesis
      using c True by (auto simp: bl_allocN_def)
  next
    case False
    moreover have "unat (bl_end s) < 2 ^ 63"
      using ok by (simp add: bl_ok_def word_less_nat_alt)
    ultimately show ?thesis by (simp add: bl_allocN_def)
  qed
next
  fix s assume "bl_ok s"
  then show "unat (bl_free s) \<le> unat (bl_end s)"
    by (simp add: bl_ok_def word_le_nat_alt)
qed

section \<open>The layout of a region\<close>

lemmas mm_sizes = kBlockSizeLog2_def kBlockSize_def kRegionSizeLog2_def kRegionSize_def
  kBlocksPerRegion_def sizeof_SmallObjectRegionData_def first_avail_def

lemma unat_alignToBlock:
  assumes "unat p + 2 ^ 16 \<le> 2 ^ 64"
  shows "unat (alignToBlockBoundary (p + 1)) = (unat p div 2 ^ 15 + 1) * 2 ^ 15"
proof -
  have u: "unat (p + 1) = unat p + 1"
    using assms by (simp add: unat_word_ariths)
  have "unat (roundUpToPowerOf2 15 (p + 1)) =
      (unat (p + 1) + 2 ^ 15 - 1) - (unat (p + 1) + 2 ^ 15 - 1) mod 2 ^ 15"
    by (rule unat_roundUp) (use assms u in auto)
  also have "\<dots> = (unat p + 2 ^ 15) div 2 ^ 15 * 2 ^ 15"
    unfolding u minus_mod_eq_div_mult by (simp only: add_Suc_right plus_1_eq_Suc add_Suc diff_Suc_1 Suc_eq_plus1 [symmetric])
  also have "\<dots> = (unat p div 2 ^ 15 + 1) * 2 ^ 15"
    by (metis div_add_self2 power_not_zero zero_neq_numeral)
  finally show ?thesis
    by (simp add: alignToBlockBoundary_def kBlockSizeLog2_def)
qed

lemma length_initBlocks_avail [simp]: "length (initBlocks_avail r n i ptr) = n"
  by (induction n arbitrary: i ptr) (auto simp: Let_def)

lemma initBlocks_avail_nth:
  assumes "k < n" and "unat ptr + n * 2 ^ 15 + 2 ^ 16 \<le> 2 ^ 64"
  shows "unat (bl_start (initBlocks_avail r n i ptr ! k)) =
      (if k = 0 then unat ptr else (unat ptr div 2 ^ 15 + k) * 2 ^ 15) \<and>
    unat (bl_end (initBlocks_avail r n i ptr ! k)) = (unat ptr div 2 ^ 15 + k + 1) * 2 ^ 15 \<and>
    bl_free (initBlocks_avail r n i ptr ! k) = bl_start (initBlocks_avail r n i ptr ! k) \<and>
    bl_link (initBlocks_avail r n i ptr ! k) = (if k = n - 1 then None else Some (r, i + k + 1))"
  using assms
proof (induction n arbitrary: i ptr k)
  case (Suc n)
  let ?e = "alignToBlockBoundary (ptr + 1)"
  have e: "unat ?e = (unat ptr div 2 ^ 15 + 1) * 2 ^ 15"
    by (rule unat_alignToBlock) (use Suc.prems in simp)
  show ?case
  proof (cases k)
    case 0
    then show ?thesis using e by (simp add: Let_def)
  next
    case (Suc k')
    have d: "unat ?e div 2 ^ 15 = unat ptr div 2 ^ 15 + 1"
      by (simp only: e) simp
    have "unat ?e \<le> unat ptr + 2 ^ 15"
      unfolding e by simp
    then have "unat ?e + n * 2 ^ 15 + 2 ^ 16 \<le> 2 ^ 64"
      using Suc.prems(2) by simp
    note ih = Suc.IH [OF _ this, of k' "i + 1", unfolded d]
    have "k' < n" and "k' = n - 1 \<longleftrightarrow> k = Suc n - 1"
      using Suc.prems(1) Suc by auto
    with ih Suc show ?thesis
      by (simp add: Let_def e add_mult_distrib)
  qed
qed simp

text \<open>The blocks of a fresh region tile it behind the descriptors and form one free list.\<close>

lemma initBlocks_nth:
  assumes "isAlignedAtPowerOf2 20 r" and "unat r + 2 ^ 21 \<le> 2 ^ 64" and "k < 32"
  shows "length (rg_blocks (initBlocks r rg)) = 32"
    and "unat (bl_start (rg_blocks (initBlocks r rg) ! k)) =
      unat r + (if k = 0 then 1312 else k * 2 ^ 15)"
    and "unat (bl_end (rg_blocks (initBlocks r rg) ! k)) = unat r + (k + 1) * 2 ^ 15"
    and "bl_free (rg_blocks (initBlocks r rg) ! k) = bl_start (rg_blocks (initBlocks r rg) ! k)"
    and "bl_link (rg_blocks (initBlocks r rg) ! k) = (if k = 31 then None else Some (r, k + 1))"
    and "rg_next_free (initBlocks r rg) = Some (r, 0)"
proof -
  have u: "unat (r + 1312) = unat r + 1312"
    using assms(2) by (simp add: unat_word_ariths)
  have dvd: "2 ^ 15 dvd unat r"
    using assms(1) le_imp_power_dvd [of 15 20 "2::nat"]
    by (simp only: isAligned_iff_dvd) (rule dvd_trans, simp_all)
  have d: "(unat r + 1312) div 2 ^ 15 = unat r div 2 ^ 15" "unat r div 2 ^ 15 * 2 ^ 15 = unat r"
    using dvd by (auto elim!: dvdE)
  note N = initBlocks_avail_nth [OF assms(3), of "r + 1312" r 0]
  have "unat (r + 1312) + 32 * 2 ^ 15 + 2 ^ 16 \<le> 2 ^ 64"
    using assms(2) by (simp add: u)
  note N = N [OF this, unfolded u d]
  have b: "rg_blocks (initBlocks r rg) = initBlocks_avail r 32 0 (r + 1312)"
    by (simp add: initBlocks_def mm_sizes)
  show "length (rg_blocks (initBlocks r rg)) = 32" unfolding b by simp
  show "unat (bl_start (rg_blocks (initBlocks r rg) ! k)) =
      unat r + (if k = 0 then 1312 else k * 2 ^ 15)"
    unfolding b using N d(2) by (auto simp: add_mult_distrib)
  show "unat (bl_end (rg_blocks (initBlocks r rg) ! k)) = unat r + (k + 1) * 2 ^ 15"
    unfolding b using N d(2) by (auto simp: add_mult_distrib)
  show "bl_free (rg_blocks (initBlocks r rg) ! k) = bl_start (rg_blocks (initBlocks r rg) ! k)"
    unfolding b using N by blast
  show "bl_link (rg_blocks (initBlocks r rg) ! k) = (if k = 31 then None else Some (r, k + 1))"
    unfolding b using N by simp
  show "rg_next_free (initBlocks r rg) = Some (r, 0)"
    by (simp add: initBlocks_def mm_sizes)
qed

section \<open>What the operating system promises\<close>

text \<open>
  A successful \<^verbatim>\<open>mmap\<close> returns a range of the lower half of the address space, and not the
  null pointer.
\<close>

definition os_ok :: "os \<Rightarrow> bool" where
  "os_ok os \<longleftrightarrow>
     (\<forall>c h s p. os_mmap os c h s = Some p \<longrightarrow> p \<noteq> 0 \<and> unat p + unat s \<le> 2 ^ 47)"

lemma os_okD: "os_ok os \<Longrightarrow> os_mmap os c h s = Some p \<Longrightarrow> p \<noteq> 0 \<and> unat p + unat s \<le> 2 ^ 47"
  by (simp add: os_ok_def)

lemma new_region_loop_result:
  assumes "os_ok os" and "new_region_loop os k hint sz calls = Inr (r, hint', calls')"
  shows "isAlignedAtPowerOf2 20 r \<and> r \<noteq> 0 \<and> unat r \<le> 2 ^ 48"
  using assms(2)
proof (induction k arbitrary: hint sz calls)
  case (Suc k)
  show ?case
  proof (cases "os_mmap os calls hint sz")
    case None
    then show ?thesis using Suc by (auto simp: Let_def split: if_splits)
  next
    case (Some p)
    note p = os_okD [OF assms(1) Some]
    have lt: "unat p + 2 ^ 20 \<le> 2 ^ 64"
      using p by simp
    note al = roundUp_least [of 20 p, OF _ lt, simplified]
    let ?r = "roundUpToPowerOf2 20 p"
    have "unat ?r \<le> 2 ^ 48" "?r \<noteq> 0"
      using al(2,3) p by (auto simp: word_le_nat_alt unat_eq_0)
    note al = al(1) this
    show ?thesis
    proof (cases "isAlignedAtPowerOf2 20 p")
      case True
      then show ?thesis
        using Suc.prems Some p by (simp add: Let_def kRegionSizeLog2_def)
    next
      case False
      show ?thesis
        using False Suc.prems Some al Suc.IH [of p "?r + 2 ^ 20 - p" "calls + 1"]
        by (auto simp: Let_def kRegionSizeLog2_def kRegionSize_def alignToRegionBoundary_def
            split: if_splits)
    qed
  qed
qed simp

section \<open>The invariant of the block descriptors\<close>

definition bl_wf :: "block \<Rightarrow> bool" where
  "bl_wf b \<longleftrightarrow> bl_ok b \<and> unat (bl_end b) \<le> unat (bl_start b) + kBlockSize"

definition mm_ok :: "mm \<Rightarrow> bool" where
  "mm_ok m \<longleftrightarrow> (\<forall>r rg. mm_regions m r = Some rg \<longrightarrow> (\<forall>bl \<in> set (rg_blocks rg). bl_wf bl))"

lemma mm_okD: "mm_ok m \<Longrightarrow> mm_block m b = Inr bl \<Longrightarrow> bl_wf bl"
  by (auto simp: mm_ok_def mm_block_def mm_regionAt_def result split: if_splits)

lemma mm_ok_regions: "mm_regions m' = mm_regions m \<Longrightarrow> mm_ok m' = mm_ok m"
  by (simp add: mm_ok_def)

lemma mm_ok_update [simp]:
  "mm_ok (m\<lparr>mm_free := x\<rparr>) = mm_ok m"
  "mm_ok (m\<lparr>mm_area := y\<rparr>) = mm_ok m"
  "mm_ok (m\<lparr>mm_region := r\<rparr>) = mm_ok m"
  "mm_ok (m\<lparr>mm_allocated := n\<rparr>) = mm_ok m"
  by (simp_all add: mm_ok_def)

lemma mm_ok_setRegion: "mm_ok m \<Longrightarrow> \<forall>bl \<in> set (rg_blocks rg). bl_wf bl \<Longrightarrow> mm_ok (mm_setRegion r rg m)"
  by (auto simp: mm_ok_def mm_setRegion_def)

lemma mm_ok_region: "mm_ok m \<Longrightarrow> mm_regionAt m r = Inr rg \<Longrightarrow> \<forall>bl \<in> set (rg_blocks rg). bl_wf bl"
  by (auto simp: mm_ok_def mm_regionAt_def)

lemma mm_ok_setBlock: "mm_ok m \<Longrightarrow> bl_wf bl \<Longrightarrow> mm_ok (mm_setBlock b bl m)"
  by (auto simp: mm_setBlock_def mm_ok_def mm_setRegion_def dest!: set_update_subset_insert [THEN subsetD]
      split: option.splits)

lemma bl_wf_update [simp]:
  "bl_wf (bl\<lparr>bl_link := l\<rparr>) = bl_wf bl"
  "bl_wf (bl\<lparr>bl_flags := f\<rparr>) = bl_wf bl"
  by (simp_all add: bl_wf_def bl_ok_def)

lemma bl_wf_initBlocks:
  assumes "isAlignedAtPowerOf2 20 r" and "r \<noteq> 0" and "unat r \<le> 2 ^ 48"
    and "bl \<in> set (rg_blocks (initBlocks r rg))"
  shows "bl_wf bl"
proof -
  have lt: "unat r + 2 ^ 21 \<le> 2 ^ 64"
    using assms(3) by simp
  note N = initBlocks_nth [OF assms(1) lt]
  obtain k where k: "k < 32" and bl: "bl = rg_blocks (initBlocks r rg) ! k"
    using assms(4) N(1) [of 0 rg] by (auto simp: in_set_conv_nth)
  have "(k + 1) * 2 ^ 15 \<le> 32 * 2 ^ 15" and "(if k = 0 then 1312 else k * 2 ^ 15) \<le> (k + 1) * 2 ^ 15"
    "(k + 1) * 2 ^ 15 \<le> (if k = 0 then 1312 else k * 2 ^ 15) + 2 ^ 15"
    using k by auto
  moreover have "unat r > 0"
    using assms(2) by (simp add: unat_gt_0)
  ultimately show ?thesis
    using N(2-4) [OF k, of rg] assms(3)
    unfolding bl_wf_def bl_ok_def kBlockSize_def kBlockSizeLog2_def
      word_le_nat_alt word_less_nat_alt bl [symmetric] by auto
qed

lemma newRegion_ok:
  assumes "os_ok os" and "newRegion os ty m = Inr (r, m')"
  shows "isAlignedAtPowerOf2 20 r" and "r \<noteq> 0" and "unat r \<le> 2 ^ 48"
    and "mm_ok m \<Longrightarrow> mm_ok m'" and "mm_area m' = mm_area m"
proof -
  obtain hint calls where l: "new_region_loop os 33 (mm_alloc_hint m) (of_nat kRegionSize)
      (mm_mmap_calls m) = Inr (r, hint, calls)"
    using assms(2) by (auto simp: newRegion_def Let_def result)
  note R = new_region_loop_result [OF assms(1) l]
  then show "isAlignedAtPowerOf2 20 r" "r \<noteq> 0" "unat r \<le> 2 ^ 48" by auto
  show "mm_ok m \<Longrightarrow> mm_ok m'"
    using assms(2) l R bl_wf_initBlocks
    by (auto simp: newRegion_def Let_def result mm_ok_def mm_setRegion_def split: region_type.splits if_splits)
  show "mm_area m' = mm_area m"
    using assms(2) l by (auto simp: newRegion_def Let_def mm_setRegion_def)
qed

lemma mm_setBlock_area [simp]: "mm_area (mm_setBlock b bl m) = mm_area m"
  by (simp add: mm_setBlock_def mm_setRegion_def split: option.splits)

lemma rg_grabFreeBlock_ok:
  assumes "rg_grabFreeBlock r m = Inr (b, m')" and "mm_ok m"
  shows "mm_ok m' \<and> mm_area m' = mm_area m"
  using assms mm_ok_region [OF assms(2)]
  by (auto simp: rg_grabFreeBlock_def result intro!: mm_ok_setBlock mm_ok_setRegion
      intro: mm_okD split: option.splits) (auto simp: mm_setRegion_def dest: mm_okD)

lemma mm_updBlock_ok:
  assumes "mm_updBlock b f m = Inr m'" and "mm_ok m" and "\<And>bl. bl_wf bl \<Longrightarrow> bl_wf (f bl)"
  shows "mm_ok m' \<and> mm_area m' = mm_area m"
  using assms(1,2) by (auto simp: mm_updBlock_def result intro!: mm_ok_setBlock assms(3) intro: mm_okD)

lemma mm_updBlock_flags_ok:
  "mm_updBlock b (\<lambda>bl. bl\<lparr>bl_flags := flags\<rparr>) m = Inr m' \<Longrightarrow> mm_ok m \<Longrightarrow>
    mm_ok m' \<and> mm_area m' = mm_area m"
  using mm_updBlock_ok [of b "\<lambda>bl. bl\<lparr>bl_flags := flags\<rparr>" m m'] by simp

lemma grabFreeBlock_ok:
  assumes "os_ok os" and "grabFreeBlock os flags m = Inr (b, m')" and "mm_ok m"
  shows "mm_ok m' \<and> mm_area m' = mm_area m"
proof (cases "mm_free m")
  case (Some b')
  then show ?thesis
    using assms by (auto simp: grabFreeBlock_def result intro!: mm_ok_setBlock intro: mm_okD)
next
  case None
  obtain b1 m1 where g: "rg_grabFreeBlock (mm_region m) m = Inr (b1, m1)"
    using assms(2) None by (auto simp: grabFreeBlock_def result)
  note ok1 = rg_grabFreeBlock_ok [OF g assms(3)]
  show ?thesis
  proof (cases b1)
    case (Some b2)
    then show ?thesis
      using assms(2) None g ok1
      by (auto simp: grabFreeBlock_def result dest!: mm_updBlock_flags_ok)
  next
    case N: None
    obtain r m2 rg where n: "newRegion os kSmallObjectRegion m1 = Inr (r, m2)"
        "mm_regionAt m2 r = Inr rg"
      using assms(2) None g N by (auto simp: grabFreeBlock_def result)
    let ?m3 = "(mm_setRegion r (rg\<lparr>rg_link := mm_region m2\<rparr>) m2)\<lparr>mm_region := r\<rparr>"
    note nr = newRegion_ok(4,5) [OF assms(1) n(1)]
    have ok3: "mm_ok ?m3"
      using nr(1) ok1 mm_ok_region [OF _ n(2)]
      by (auto intro!: mm_ok_setRegion)
    obtain b4 m4 where g4: "rg_grabFreeBlock r ?m3 = Inr (b4, m4)"
      using assms(2) None g N n by (auto simp: grabFreeBlock_def result)
    note ok4 = rg_grabFreeBlock_ok [OF g4 ok3]
    then have a4: "mm_area m4 = mm_area m"
      using nr(2) ok1 by (simp add: mm_setRegion_def)
    show ?thesis
      using assms(2) None g N n g4 a4 ok4
      by (auto simp: grabFreeBlock_def result split: option.splits dest!: mm_updBlock_flags_ok)
  qed
qed

lemma blockFull_ok:
  assumes "os_ok os" and "blockFull os a m = Inr (u, m')" and "mm_ok m"
  shows "mm_ok m'"
proof -
  obtain bl b m1 m2 where g: "grabFreeBlock os (bl_contents bl) m = Inr (b, m1)"
      "mm_updBlock b (\<lambda>bl. bl\<lparr>bl_link := Some (mm_area m1 a)\<rparr>) m1 = Inr m2"
      "m' = m2\<lparr>mm_area := (mm_area m2)(a := b)\<rparr>"
    using assms(2) by (auto simp: blockFull_def result)
  show ?thesis
    using mm_updBlock_ok [OF g(2) conjunct1 [OF grabFreeBlock_ok [OF assms(1) g(1) assms(3)]]]
    by (simp add: g(3))
qed

lemma mm_block_setBlock: "mm_block m b = Inr bl \<Longrightarrow> mm_block (mm_setBlock b bl' m) b = Inr bl'"
  by (auto simp: mm_block_def mm_setBlock_def mm_setRegion_def mm_regionAt_def result split: if_splits)

lemma bl_wf_alloc:
  assumes "bl_wf bl" and "unat bytes < 2 ^ 63" and "bl_alloc bytes bl = (p, bl')"
  shows "bl_wf bl'"
    and "p \<noteq> 0 \<Longrightarrow> p = bl_free bl \<and> unat (bl_free bl') = unat p + unat bytes \<and>
      unat p + unat bytes \<le> unat (bl_end bl') \<and> bl_start bl' \<le> p"
    and "p = 0 \<longleftrightarrow> unat (bl_end bl) < unat (bl_free bl) + unat bytes"
proof -
  have ok: "bl_ok bl" and nz: "bl_free bl \<noteq> 0"
    using assms(1) by (auto simp: bl_wf_def bl_ok_def)
  note c = bl_alloc_cases [OF ok assms(2)]
  show "bl_wf bl'"
    using assms c ok by (auto simp: bl_wf_def bl_ok_def word_le_nat_alt split: if_splits)
  show "p \<noteq> 0 \<Longrightarrow> p = bl_free bl \<and> unat (bl_free bl') = unat p + unat bytes \<and>
      unat p + unat bytes \<le> unat (bl_end bl') \<and> bl_start bl' \<le> p"
    using assms(3) c ok by (auto simp: bl_ok_def split: if_splits)
  show "p = 0 \<longleftrightarrow> unat (bl_end bl) < unat (bl_free bl) + unat bytes"
    using assms(3) c(1) nz by (auto split: if_splits)
qed

lemma allocInto_loop_ok:
  assumes "os_ok os" and "mm_ok m" and "unat bytes < 2 ^ 63"
    and "allocInto_loop os fuel a bytes m = Inr (p, m')"
  shows "mm_ok m'"
    and "\<exists>bl. mm_block m' (mm_area m' a) = Inr bl \<and> bl_start bl \<le> p \<and>
      unat p + unat bytes = unat (bl_free bl) \<and> bl_free bl \<le> bl_end bl"
    and "unat bytes \<le> kBlockSize"
proof -
  have "mm_ok m' \<and> (\<exists>bl. mm_block m' (mm_area m' a) = Inr bl \<and> bl_start bl \<le> p \<and>
      unat p + unat bytes = unat (bl_free bl) \<and> bl_free bl \<le> bl_end bl)"
    using assms(2,4)
  proof (induction fuel arbitrary: m)
    case (Suc fuel)
    obtain bl where b0: "mm_block m (mm_area m a) = Inr bl"
      using Suc.prems(2) by (auto simp: result)
    obtain q bl' where b: "mm_block m (mm_area m a) = Inr bl" "bl_alloc bytes bl = (q, bl')"
      using b0 by (cases "bl_alloc bytes bl") auto
    note W = bl_wf_alloc [OF mm_okD [OF Suc.prems(1) b(1)] assms(3) b(2)]
    let ?m1 = "mm_setBlock (mm_area m a) bl' m"
    have ok1: "mm_ok ?m1"
      by (rule mm_ok_setBlock [OF Suc.prems(1) W(1)])
    show ?case
    proof (cases "q = 0")
      case True
      then obtain u m2 where "blockFull os a ?m1 = Inr (u, m2)"
          "allocInto_loop os fuel a bytes m2 = Inr (p, m')"
        using Suc.prems(2) b by (auto simp: Let_def result)
      then show ?thesis
        using Suc.IH blockFull_ok [OF assms(1) _ ok1] by blast
    next
      case False
      then have e: "p = q" "m' = ?m1\<lparr>mm_allocated := mm_allocated ?m1 + bytes\<rparr>"
        using Suc.prems(2) b by (auto simp: Let_def)
      have "mm_block m' (mm_area m' a) = Inr bl'"
        using mm_block_setBlock [OF b(1), of bl'] by (simp add: e mm_block_def mm_regionAt_def)
      then show ?thesis
        using W(2) [OF False] ok1 by (auto simp: e word_le_nat_alt)
    qed
  qed simp
  then show "mm_ok m'" and ex: "\<exists>bl. mm_block m' (mm_area m' a) = Inr bl \<and> bl_start bl \<le> p \<and>
      unat p + unat bytes = unat (bl_free bl) \<and> bl_free bl \<le> bl_end bl" by auto
  from ex obtain bl where b: "mm_block m' (mm_area m' a) = Inr bl" "bl_start bl \<le> p"
      "unat p + unat bytes = unat (bl_free bl)" "bl_free bl \<le> bl_end bl" by auto
  show "unat bytes \<le> kBlockSize"
    using mm_okD [OF \<open>mm_ok m'\<close> b(1)] b by (auto simp: bl_wf_def word_le_nat_alt)
qed

text \<open>A request that fits into the current block of the area.\<close>

lemma mm_setBlock_allocated [simp]: "mm_allocated (mm_setBlock b bl m) = mm_allocated m"
  by (simp add: mm_setBlock_def mm_setRegion_def split: option.splits)

lemma bl_alloc_fits:
  assumes "bl_wf bl" and "unat bytes < 2 ^ 63" and "unat (bl_free bl) + unat bytes \<le> unat (bl_end bl)"
  shows "bl_alloc bytes bl = (bl_free bl, bl\<lparr>bl_free := bl_free bl + bytes\<rparr>)" and "bl_free bl \<noteq> 0"
proof -
  have ok: "bl_ok bl" and "bl_free bl \<noteq> 0"
    using assms(1) by (auto simp: bl_wf_def bl_ok_def)
  then show "bl_alloc bytes bl = (bl_free bl, bl\<lparr>bl_free := bl_free bl + bytes\<rparr>)" "bl_free bl \<noteq> 0"
    using bl_alloc_cases(1) [OF ok assms(2)] assms(3) by auto
qed

lemma alloc_fuel_Suc: "\<exists>k. alloc_fuel = Suc k"
  by (cases alloc_fuel) (auto simp: alloc_fuel_def)

lemma allocInto_fits:
  assumes "mm_block m (mm_area m a) = Inr bl" and "bl_wf bl" and "unat bytes < 2 ^ 63"
    and "unat (bl_free bl) + unat bytes \<le> unat (bl_end bl)"
  shows "allocInto os a bytes m = Inr (bl_free bl,
    (mm_setBlock (mm_area m a) (bl\<lparr>bl_free := bl_free bl + bytes\<rparr>) m)
      \<lparr>mm_allocated := mm_allocated m + bytes\<rparr>)"
proof -
  obtain k where k: "alloc_fuel = Suc k"
    using alloc_fuel_Suc by blast
  show ?thesis
    unfolding allocInto_def k
    using bl_alloc_fits [OF assms(2-4)] assms(1) by (simp add: Let_def)
qed

lemma allocInfoTable_fits:
  assumes "mm_block m (mm_area m A_info_tables) = Inr bl" and "bl_wf bl" and "unat (n * 8) < 2 ^ 63"
    and "unat (bl_free bl) + unat (n * 8) \<le> unat (bl_end bl)" and "0 < mm_beginAllocInfoTableLevel m"
  shows "allocInfoTable os n m = Inr (bl_free bl,
    (mm_setBlock (mm_area m A_info_tables) (bl\<lparr>bl_free := bl_free bl + n * 8\<rparr>) m)
      \<lparr>mm_allocated := mm_allocated m + n * 8\<rparr>)"
proof -
  obtain k where k: "alloc_fuel = Suc k"
    using alloc_fuel_Suc by blast
  show ?thesis
    unfolding allocInfoTable_def k
    using bl_alloc_fits [OF assms(2-4)] assms(1,5) by (simp add: Let_def)
qed

section \<open>Properties\<close>

text \<open>A host that gives exactly the memory asked for, up to \<open>2^47\<close>.\<close>

definition demo_os :: os where
  "demo_os = \<lparr>os_mmap = (\<lambda>c h s. if h \<noteq> 0 \<and> unat h + unat s \<le> 2 ^ 47 then Some h else None),
     os_mprotect = (\<lambda>_ _. True)\<rparr>"

lemma demo_os_ok: "os_ok demo_os"
  by (auto simp: os_ok_def demo_os_def split: if_splits)

lemma region_of_pointer:
  assumes "isAlignedAtPowerOf2 20 r" and "unat r \<le> unat p" and "unat p < unat r + 2 ^ 20"
  shows "regionFromPointer p = r"
    and "unat (drop_bit 15 (p AND (2 ^ 20 - 1))) = (unat p - unat r) div 2 ^ 15"
proof -
  have dvd: "2 ^ 20 dvd unat r"
    using assms(1) by (simp only: isAligned_iff_dvd)
  have m: "unat p mod 2 ^ 20 = unat p - unat r"
  proof -
    obtain j where p: "unat p = unat r + j" and j: "j < 2 ^ 20"
      using assms(2,3) by (metis le_Suc_ex nat_add_left_cancel_less)
    have "(unat r + j) mod 2 ^ 20 = j mod 2 ^ 20"
      using dvd by (metis mod_add_left_eq dvd_imp_mod_0 add_0)
    then show ?thesis
      using p j by simp
  qed
  have k: "(2 ^ 20 - 1 :: u8) = mask 20"
    by (simp add: mask_eq_exp_minus_1)
  have "unat (regionFromPointer p) = unat r"
    unfolding regionFromPointer_def kRegionSize_def kRegionSizeLog2_def
    using m assms(2) k by (simp only: of_nat_power of_nat_numeral unat_and_not_mask)
  then show "regionFromPointer p = r"
    by (simp add: word_unat_eq_iff)
  show "unat (drop_bit 15 (p AND (2 ^ 20 - 1))) = (unat p - unat r) div 2 ^ 15"
    unfolding k unat_drop_bit_eq unat_and_mask m by (rule drop_bit_eq_div)
qed

text \<open>
  \<^bold>\<open>C24.\<close> A region obtained from the operating system is 1 MB aligned and divided into 32
  blocks that tile the space behind the descriptors, each free and linked to the next one; and
  \<^verbatim>\<open>blockFromPointer\<close> maps every address of a block back to that block.
\<close>

theorem newRegion_blocks:
  assumes "os_ok os" and "newRegion os kSmallObjectRegion m = Inr (r, m')" and "k < 32"
  shows "isAlignedAtPowerOf2 kRegionSizeLog2 r \<and>
    (\<exists>bl. mm_block m' (r, k) = Inr bl \<and>
      unat (bl_start bl) = unat r + (if k = 0 then sizeof_SmallObjectRegionData else k * kBlockSize) \<and>
      unat (bl_end bl) = unat r + (k + 1) * kBlockSize \<and>
      bl_free bl = bl_start bl \<and>
      bl_link bl = (if k = 31 then None else Some (r, k + 1)) \<and>
      (\<forall>p. bl_start bl \<le> p \<longrightarrow> p < bl_end bl \<longrightarrow> blockFromPointer m' p = Inr (r, k)))"
proof -
  note R = newRegion_ok(1-3) [OF assms(1,2)]
  have lt: "unat r + 2 ^ 21 \<le> 2 ^ 64"
    using R(3) by simp
  obtain rg where rg: "mm_regions m' r = Some (initBlocks r rg)"
      and ty: "rg_type rg = kSmallObjectRegion"
    using assms(2) by (auto simp: newRegion_def Let_def result mm_setRegion_def)
  define bl where "bl = rg_blocks (initBlocks r rg) ! k"
  note N = initBlocks_nth [OF R(1) lt assms(3), of rg, folded bl_def]
  have "blockFromPointer m' p = Inr (r, k)" if p: "bl_start bl \<le> p" "p < bl_end bl" for p
  proof -
    let ?d = "unat p - unat r"
    have "unat r + k * 2 ^ 15 \<le> unat p" "unat p < unat r + (k + 1) * 2 ^ 15"
      using p N(2,3) by (auto simp: word_le_nat_alt word_less_nat_alt split: if_splits)
    moreover have "(k + 1) * 2 ^ 15 \<le> 2 ^ 20"
      using assms(3) by simp
    ultimately have "unat r \<le> unat p" "unat p < unat r + 2 ^ 20" "?d div 2 ^ 15 = k"
      by (auto intro!: div_nat_eqI)
    then have r: "regionFromPointer p = r" "unat (drop_bit 15 (p AND (2 ^ 20 - 1))) = k"
      using region_of_pointer [OF R(1), of p] by auto
    then show ?thesis
      using rg ty assms(3)
      by (simp add: blockFromPointer_def mm_regionAt_def initBlocks_def mm_sizes Let_def)
  qed
  moreover have "mm_block m' (r, k) = Inr bl"
    using rg N(1) assms(3) by (simp add: mm_block_def mm_regionAt_def bl_def)
  ultimately show ?thesis
    using R(1) N by (auto simp: mm_sizes)
qed

lemma newRegion_demo:
  "newRegion demo_os kSmallObjectRegion mm_empty =
     Inr (0x100000000, snd (projr (newRegion demo_os kSmallObjectRegion mm_empty)))"
proof -
  have h: "mm_alloc_hint mm_empty = 0x100000000"
    by (simp add: mm_empty_def alignToRegionBoundary_def roundUpToPowerOf2_def kMMapRegionStart_def
        kRegionSizeLog2_def)
  have "new_region_loop demo_os (Suc 32) 0x100000000 (of_nat kRegionSize) c =
      Inr (0x100000000, 0x100000000 + of_nat kRegionSize, c + 1)" for c
    unfolding new_region_loop.simps(2)
    by (simp add: demo_os_def isAlignedAtPowerOf2_def kRegionSize_def kRegionSizeLog2_def Let_def)
  then show ?thesis
    by (simp add: newRegion_def h Let_def)
qed

theorem newRegion_blocks_witness:
  "\<exists>r m'. newRegion demo_os kSmallObjectRegion mm_empty = Inr (r, m') \<and>
     blockFromPointer m' (r + 0x8008) = Inr (r, 1)"
proof -
  define m' where "m' = snd (projr (newRegion demo_os kSmallObjectRegion mm_empty))"
  note e = newRegion_demo [folded m'_def]
  obtain bl :: block where "unat (bl_start bl) = unat (0x100000000 :: u8) + kBlockSize"
      "unat (bl_end bl) = unat (0x100000000 :: u8) + 2 * kBlockSize"
      "\<And>p. bl_start bl \<le> p \<Longrightarrow> p < bl_end bl \<Longrightarrow> blockFromPointer m' p = Inr (0x100000000, 1)"
    using newRegion_blocks [OF demo_os_ok e, of 1] by auto
  then have "blockFromPointer m' (0x100000000 + 0x8008) = Inr (0x100000000, 1)"
    by (simp add: kBlockSize_def kBlockSizeLog2_def word_le_nat_alt word_less_nat_alt)
  with e show ?thesis by blast
qed

text \<open>
  \<^bold>\<open>C15.\<close> Objects allocated from one block do not overlap: when a sequence of requests
  succeeds, each result begins where the previous one ended or later, and all lie below the end
  of the block.  A sequence of requests that fits succeeds.
\<close>

theorem block_allocs_disjoint:
  assumes "bl_ok b"
  shows "(\<forall>ps b' i j. blk.allocs ns b = Some (ps, b') \<and> i < j \<and> j < length ns \<longrightarrow>
      unat (bl_free b) \<le> ps ! i \<and> ps ! i + ns ! i \<le> ps ! j \<and> ps ! j + ns ! j \<le> unat (bl_end b)) \<and>
    (unat (bl_free b) + sum_list ns \<le> unat (bl_end b) \<longrightarrow> (\<exists>ps b'. blk.allocs ns b = Some (ps, b')))"
proof (intro conjI allI impI; (elim conjE)?)
  fix ps b' i j
  assume a: "blk.allocs ns b = Some (ps, b')" "i < j" "j < length ns"
  show "unat (bl_free b) \<le> ps ! i" "ps ! i + ns ! i \<le> ps ! j" "ps ! j + ns ! j \<le> unat (bl_end b)"
    using blk.allocs_disjoint [OF assms a] blk.allocs_layout [OF assms a(1)] a(2,3) by auto
qed (rule blk.allocs_total [OF assms])

definition demo_block :: block where
  "demo_block = \<lparr>bl_start = 0x1000, bl_end = 0x1020, bl_free = 0x1000, bl_link = None,
     bl_flags = kClosures\<rparr>"

theorem block_allocs_disjoint_witness:
  "\<exists>ps b'. blk.allocs [16, 8, 8] demo_block = Some (ps, b') \<and> ps ! 0 + 16 \<le> ps ! 2 \<and>
     ps ! 2 + 8 \<le> 0x1020"
proof -
  have ok: "bl_ok demo_block"
    by (simp add: bl_ok_def demo_block_def)
  obtain ps b' where a: "blk.allocs [16, 8, 8] demo_block = Some (ps, b')"
    using block_allocs_disjoint [OF ok, of "[16, 8, 8]"] by (auto simp: demo_block_def)
  have "ps ! 0 + [16, 8, 8] ! 0 \<le> ps ! 2 \<and> ps ! 2 + [16, 8, 8] ! 2 \<le> unat (bl_end demo_block)"
    using block_allocs_disjoint [OF ok, of "[16, 8, 8]"] a by (metis length_Cons list.size(3) lessI zero_less_numeral numeral_3_eq_3 numeral_2_eq_2)
  then show ?thesis
    using a by (auto simp: demo_block_def)
qed

text \<open>
  \<^bold>\<open>C32.\<close> \<^verbatim>\<open>allocInto\<close> keeps the block descriptors well formed, and the memory it returns
  lies in the current block of the area, directly below the free pointer.  When the request fits
  into the current block it succeeds, without asking for a new block.
\<close>

theorem allocInto_in_block:
  assumes "os_ok os" and "mm_ok m" and "unat bytes < 2 ^ 63"
  shows "(\<forall>p m'. allocInto os a bytes m = Inr (p, m') \<longrightarrow> mm_ok m' \<and>
      (\<exists>bl. mm_block m' (mm_area m' a) = Inr bl \<and> bl_start bl \<le> p \<and>
        unat p + unat bytes = unat (bl_free bl) \<and> bl_free bl \<le> bl_end bl)) \<and>
    (\<forall>bl. mm_block m (mm_area m a) = Inr bl \<and> unat (bl_free bl) + unat bytes \<le> unat (bl_end bl) \<longrightarrow>
      (\<exists>m'. allocInto os a bytes m = Inr (bl_free bl, m') \<and> mm_area m' = mm_area m \<and>
        mm_allocated m' = mm_allocated m + bytes))"
proof (intro conjI allI impI, goal_cases)
  case (1 p m')
  then show ?case
    using allocInto_loop_ok(1) [OF assms] by (simp add: allocInto_def)
next
  case (2 p m')
  then show ?case
    using allocInto_loop_ok(2) [OF assms] by (simp add: allocInto_def)
next
  case (3 bl)
  then have "allocInto os a bytes m = Inr (bl_free bl,
      (mm_setBlock (mm_area m a) (bl\<lparr>bl_free := bl_free bl + bytes\<rparr>) m)
        \<lparr>mm_allocated := mm_allocated m + bytes\<rparr>)"
    using mm_okD [OF assms(2), of "mm_area m a" bl] assms(3) by (intro allocInto_fits) auto
  then show ?case by simp
qed

definition demo_mm :: mm where
  "demo_mm = mm_empty\<lparr>mm_regions := [0x100000 \<mapsto> \<lparr>rg_type = kSmallObjectRegion, rg_link = 0,
     rg_blocks = [demo_block], rg_next_free = None, rg_end = 0, rg_free = 0\<rparr>],
     mm_region := 0x100000, mm_area := (\<lambda>_. (0x100000, 0))\<rparr>"

lemma demo_mm_ok: "mm_ok demo_mm"
  by (auto simp: mm_ok_def demo_mm_def bl_wf_def bl_ok_def demo_block_def mm_sizes split: if_splits)

theorem allocInto_in_block_witness:
  "\<exists>m'. allocInto demo_os A_closures 24 demo_mm = Inr (0x1000, m') \<and> mm_ok m'"
proof -
  have b: "mm_block demo_mm (mm_area demo_mm A_closures) = Inr demo_block"
    by (simp add: demo_mm_def mm_block_def mm_regionAt_def)
  then obtain m' where m: "allocInto demo_os A_closures 24 demo_mm = Inr (0x1000, m')"
    using allocInto_in_block [OF demo_os_ok demo_mm_ok, of 24 A_closures] by (auto simp: demo_block_def)
  then show ?thesis
    using allocInto_in_block [OF demo_os_ok demo_mm_ok, of 24 A_closures] by auto
qed

text \<open>
  \<^bold>\<open>C40.\<close> A request for more than the size of a block is never satisfied by \<^verbatim>\<open>allocInto\<close>,
  whatever the operating system does: the loop takes one block after the other until memory is
  exhausted.  Nothing in the function rejects such a request.
\<close>

theorem allocInto_oversized:
  assumes "os_ok os" and "mm_ok m" and "kBlockSize < unat bytes" and "unat bytes < 2 ^ 63"
  shows "allocInto os a bytes m \<noteq> Inr (p, m')"
proof
  assume "allocInto os a bytes m = Inr (p, m')"
  then show False
    using allocInto_loop_ok(3) [OF assms(1,2,4)] assms(3) by (simp add: allocInto_def)
qed

theorem allocInto_oversized_witness:
  "allocInto demo_os A_closures 0x10000 demo_mm \<noteq> Inr (0x1000, demo_mm)"
  using allocInto_oversized [OF demo_os_ok demo_mm_ok, of "0x10000"] by (simp add: mm_sizes)

text \<open>
  \<^bold>\<open>C39.\<close> The mutator's bump allocator: after \<^verbatim>\<open>getBumpAllocatorBounds\<close> hands out the free
  part of the current block, \<^verbatim>\<open>sync\<close> accepts any new heap pointer within these bounds, counts
  the bytes the mutator has used, and the next \<^verbatim>\<open>getBumpAllocatorBounds\<close> continues from there.
  Every other heap pointer, and every other non-zero limit, is an assertion failure.
\<close>

theorem bump_bounds_sync:
  assumes "getBumpAllocatorBounds m = Inr (heap, lim)"
  shows "(heap \<le> heap' \<and> heap' \<le> lim \<and> isWordAligned heap' \<longrightarrow>
      (\<exists>m'. mm_sync heap' lim m = Inr m' \<and> mm_allocated m' = mm_allocated m + (heap' - heap) \<and>
        getBumpAllocatorBounds m' = Inr (heap', lim))) \<and>
    (\<not> (heap \<le> heap' \<and> heap' \<le> lim) \<or> (lim' \<noteq> 0 \<and> lim' \<noteq> lim) \<longrightarrow>
      mm_sync heap' lim' m = Inl AssertFailed)"
proof -
  obtain bl where b: "mm_block m (mm_area m A_closures) = Inr bl" "heap = bl_free bl" "lim = bl_end bl"
      "isWordAligned (bl_end bl)"
    using assms by (auto simp: getBumpAllocatorBounds_def result)
  have b': "mm_block (mm_setBlock (mm_area m A_closures) (bl\<lparr>bl_free := heap'\<rparr>)
      (m\<lparr>mm_allocated := mm_allocated m + (heap' - heap)\<rparr>)) (mm_area m A_closures) =
        Inr (bl\<lparr>bl_free := heap'\<rparr>)"
    by (rule mm_block_setBlock [where bl = bl]) (use b in \<open>simp add: mm_block_def mm_regionAt_def\<close>)
  have "\<exists>m'. mm_sync heap' lim m = Inr m' \<and> mm_allocated m' = mm_allocated m + (heap' - heap) \<and>
        getBumpAllocatorBounds m' = Inr (heap', lim)"
    if "heap \<le> heap'" "heap' \<le> lim" "isWordAligned heap'"
    using that b b' by (auto simp: mm_sync_def getBumpAllocatorBounds_def)
  moreover have "mm_sync heap' lim' m = Inl AssertFailed"
    if "\<not> (heap \<le> heap' \<and> heap' \<le> lim) \<or> (lim' \<noteq> 0 \<and> lim' \<noteq> lim)"
    using that b by (auto simp: mm_sync_def lc_assert_def)
  ultimately show ?thesis by blast
qed

theorem bump_bounds_sync_witness:
  "(\<exists>m'. mm_sync 0x1010 0x1020 demo_mm = Inr m' \<and> getBumpAllocatorBounds m' = Inr (0x1010, 0x1020)) \<and>
   mm_sync 0x1028 0x1020 demo_mm = Inl AssertFailed"
proof -
  have g: "getBumpAllocatorBounds demo_mm = Inr (0x1000, 0x1020)"
    by (simp add: getBumpAllocatorBounds_def demo_mm_def mm_block_def mm_regionAt_def demo_block_def
        isWordAligned_def isAlignedAtPowerOf2_def)
  have "isWordAligned 0x1010"
    by (simp add: isWordAligned_def isAlignedAtPowerOf2_def)
  then show ?thesis
    using bump_bounds_sync [OF g, of "0x1010" "0"] bump_bounds_sync [OF g, of "0x1028" "0x1020"]
    by auto
qed
end
