(* ===== verification/GC.thy ===== *)
theory GC
  imports MemoryManager
begin

text \<open>
  The copying collector of \<^verbatim>\<open>src/vm/memorymanager.cc\<close>: forwarding pointers, evacuation,
  the roots on the stack with their liveness bitmaps, scavenging, the large object lists, the
  whole collection \<^verbatim>\<open>performGC\<close>, and the sanity checker.

  Loops whose bound is data in memory take fuel; \<^const>\<open>Diverge\<close> means that the loop has not ended
  after as many turns as there are addresses.
\<close>

section \<open>Forwarding pointers and copying\<close>

definition isForwardingPointer :: "u8 \<Rightarrow> bool" where
  "isForwardingPointer p \<longleftrightarrow> p AND 1 \<noteq> 0"

definition getForwardingPointer :: "u8 \<Rightarrow> u8" where
  "getForwardingPointer p = p XOR 1"

definition makeForwardingPointer :: "u8 \<Rightarrow> u8" where
  "makeForwardingPointer p = p OR 1"

definition mm_liftW :: "(world \<Rightarrow> world result) \<Rightarrow> mm \<Rightarrow> mm result" where
  "mm_liftW f m = res_bind (f (mm_world m)) (\<lambda>w. Inr (m\<lparr>mm_world := w\<rparr>))"

text \<open>The loop of \<^verbatim>\<open>copy\<close>; \<open>n\<close> payload words are left, the next one is \<open>i\<close>.\<close>

fun copy_payload :: "nat \<Rightarrow> nat \<Rightarrow> u8 \<Rightarrow> u8 \<Rightarrow> world \<Rightarrow> world result" where
  "copy_payload 0 i from to w = Inr w"
| "copy_payload (Suc n) i from to w =
     res_bind (cl_payload w from (int i)) (\<lambda>v.
     res_bind (cl_setPayload to (int i) v w) (copy_payload n (i + 1) from to))"

definition gc_copy :: "os \<Rightarrow> u8 \<Rightarrow> u8 \<Rightarrow> nat \<Rightarrow> mm \<Rightarrow> mm result" where
  "gc_copy os src info payloadSize m =
     res_bind (rd (mm_world m) src) (\<lambda>from.
     res_bind (allocClosure os info (of_nat payloadSize) m) (\<lambda>(to, m).
       mm_liftW (\<lambda>w.
         res_bind (wr src to w) (\<lambda>w.
         res_bind (copy_payload payloadSize 0 from to w) (\<lambda>w.
           cl_setInfo from (makeForwardingPointer to) w))) m))"

section \<open>Large objects\<close>

definition evacuateLarge :: "u8 \<Rightarrow> mm \<Rightarrow> mm result" where
  "evacuateLarge c m =
     (let q = largeObjectFromClosure c
      in res_bind (lo_getMark (mm_world m) q) (\<lambda>marked.
         if marked then Inr m
         else
           res_bind (lo_setMark q (mm_world m)) (\<lambda>w.
           res_bind (unlinkLargeObject q (mm_largeObjects m) w) (\<lambda>(list, w).
           res_bind (lo_setNext q (mm_evacuatedLargeObjects m) w) (\<lambda>w.
           res_bind (lo_setPrev q 0 w) (\<lambda>w.
             Inr (m\<lparr>mm_world := w, mm_largeObjects := list, mm_evacuatedLargeObjects := q\<rparr>)))))))"

fun scavengeLarge_loop :: "nat \<Rightarrow> mm \<Rightarrow> mm result" where
  "scavengeLarge_loop 0 m = Inl Diverge"
| "scavengeLarge_loop (Suc fuel) m =
     (let obj = mm_evacuatedLargeObjects m
      in if obj = 0 then Inr m
         else
           res_bind (lo_next (mm_world m) obj) (\<lambda>n.
           res_bind (lo_setNext obj (mm_scavengedLargeObjects m) (mm_world m)) (\<lambda>w.
             scavengeLarge_loop fuel
               (m\<lparr>mm_world := w, mm_evacuatedLargeObjects := n, mm_scavengedLargeObjects := obj\<rparr>))))"

definition scavengeLarge :: "mm \<Rightarrow> mm result" where
  "scavengeLarge m = scavengeLarge_loop alloc_fuel m"

fun lo_last :: "nat \<Rightarrow> world \<Rightarrow> u8 \<Rightarrow> u8 result" where
  "lo_last 0 w p = Inl Diverge"
| "lo_last (Suc fuel) w p =
     res_bind (lo_next w p) (\<lambda>n. if n \<noteq> 0 then lo_last fuel w n else Inr p)"

fun sweep_relink :: "nat \<Rightarrow> u8 \<Rightarrow> mm \<Rightarrow> mm result" where
  "sweep_relink 0 p m = Inl Diverge"
| "sweep_relink (Suc fuel) p m =
     (if p = 0 then Inr m
      else
        res_bind (lo_next (mm_world m) p) (\<lambda>n.
        res_bind (linkLargeObject p (mm_largeObjects m) (mm_world m)) (\<lambda>(list, w).
        res_bind (lo_clearMark p w) (\<lambda>w.
          sweep_relink fuel n (m\<lparr>mm_world := w, mm_largeObjects := list\<rparr>)))))"

definition sweepLargeObjects :: "mm \<Rightarrow> mm result" where
  "sweepLargeObjects m =
     res_bind
       (if mm_largeObjects m \<noteq> 0 then
          res_bind
            (if mm_freeLargeRegions m \<noteq> 0 then
               res_bind (lo_last alloc_fuel (mm_world m) (mm_largeObjects m)) (\<lambda>p.
               res_bind (lo_setPrev (mm_freeLargeRegions m) p (mm_world m)) (\<lambda>w.
               res_bind (lo_setNext p (mm_freeLargeRegions m) w) (\<lambda>w.
                 Inr (m\<lparr>mm_world := w, mm_freeLargeRegions := p\<rparr>))))
             else Inr (m\<lparr>mm_freeLargeRegions := mm_largeObjects m\<rparr>))
            (\<lambda>m. Inr (m\<lparr>mm_largeObjects := 0\<rparr>))
        else Inr m)
       (\<lambda>m. sweep_relink alloc_fuel (mm_scavengedLargeObjects m) m)"

section \<open>Evacuation\<close>

text \<open>
  \<open>p\<close> is the address of the pointer that is updated; \<open>q\<close> the object reached so far.  The case
  \<^const>\<open>IND\<close> goes round the loop.
\<close>

definition pap_payload_words :: "u4 \<Rightarrow> u4" where
  "pap_payload_words nargs = nargs + of_nat wordsof_PapClosure - of_nat wordsof_ClosureHeader"

fun evacuate_loop :: "os \<Rightarrow> nat \<Rightarrow> u8 \<Rightarrow> u8 \<Rightarrow> mm \<Rightarrow> mm result" where
  "evacuate_loop os 0 p q m = Inl Diverge"
| "evacuate_loop os (Suc fuel) p q m =
     res_bind (cl_info (mm_world m) q) (\<lambda>info.
       if isForwardingPointer info then mm_liftW (wr p (getForwardingPointer info)) m
       else
         res_bind (blockFromPointer m q) (\<lambda>b.
         res_bind (mm_block m b) (\<lambda>bl.
           if bl_contents bl \<noteq> kClosures then Inr m
           else
             res_bind (info_at (mm_world m) info) (\<lambda>it.
               if it_type it = CONSTR \<or> it_type it = THUNK \<or> it_type it = FUN
               then gc_copy os p info (it_size it) m
               else if it_type it = IND
               then res_bind (cl_payload (mm_world m) q 0) (\<lambda>q'.
                    res_bind (mm_liftW (wr p q') m) (evacuate_loop os fuel p q'))
               else if it_type it = PAP
               then res_bind (pap_nargs (mm_world m) q) (\<lambda>n.
                      gc_copy os p info (unat (pap_payload_words (of_nat n))) m)
               else if it_type it = LARGE then evacuateLarge q m
               else Inl (Exit 44)))))"

definition evacuate :: "os \<Rightarrow> u8 \<Rightarrow> mm \<Rightarrow> mm result" where
  "evacuate os p m =
     res_bind (rd (mm_world m) p) (\<lambda>q.
     res_bind (lc_assert (q \<noteq> 0)) (\<lambda>_. evacuate_loop os ind_fuel p q m))"

section \<open>Stack frames\<close>

text \<open>
  Liveness bitmaps are sequences of half words: the low 15 bits describe 15 stack slots, the
  sign bit says that another half word follows.  The two loops that read them are shared by the
  collector and the sanity checker; \<open>f\<close> is what is done with a live slot.
\<close>

fun frame_inner ::
  "(nat \<Rightarrow> 's \<Rightarrow> 's result) \<Rightarrow> int \<Rightarrow> nat \<Rightarrow> u2 \<Rightarrow> nat \<Rightarrow> 's \<Rightarrow> (u2 \<times> nat \<times> 's) result" where
  "frame_inner f slots 0 bitmap slot s = Inr (bitmap, slot, s)"
| "frame_inner f slots (Suc k) bitmap slot s =
     (if bitmap = 0 then Inr (bitmap, slot, s)
      else
        res_bind (if bitmap AND 1 \<noteq> 0
                  then res_bind (lc_assert (int slot < slots)) (\<lambda>_. f slot s) else Inr s)
          (\<lambda>s. frame_inner f slots k (drop_bit 1 bitmap) (slot + 1) s))"

fun frame_outer ::
  "(nat \<Rightarrow> 's \<Rightarrow> 's result) \<Rightarrow> int \<Rightarrow> (nat \<Rightarrow> u2 result) \<Rightarrow> nat \<Rightarrow> nat \<Rightarrow> nat \<Rightarrow> 's \<Rightarrow> 's result" where
  "frame_outer f slots masks 0 i slot s = Inl Diverge"
| "frame_outer f slots masks (Suc fuel) i slot s =
     res_bind (masks i) (\<lambda>bitmap.
     res_bind (frame_inner f slots 15 bitmap slot s) (\<lambda>(bitmap, slot, s).
       if bitmap \<noteq> 0 then frame_outer f slots masks fuel (i + 1) slot s else Inr s))"

definition frame_slots_count :: "u8 \<Rightarrow> u8 \<Rightarrow> int" where
  "frame_slots_count base tp = sint (tp - base) div 8"

definition scavengeFrame :: "os \<Rightarrow> u8 \<Rightarrow> u8 \<Rightarrow> (nat \<Rightarrow> u2 result) option \<Rightarrow> mm \<Rightarrow> mm result" where
  "scavengeFrame os base tp bitmaps m =
     res_bind (evacuate os (word_at base (-1)) m) (\<lambda>m.
       case bitmaps of
         None \<Rightarrow> Inr m
       | Some masks \<Rightarrow>
           frame_outer (\<lambda>slot. evacuate os (word_at base (int slot))) (frame_slots_count base tp)
             masks alloc_fuel 0 0 m)"

definition offsetToBitmask :: "world \<Rightarrow> u8 \<Rightarrow> (nat \<Rightarrow> u2 result) option result" where
  "offsetToBitmask w pc =
     res_bind (w_u4 w pc) (\<lambda>offset.
       Inr (if offset = 0 then None
            else Some (\<lambda>i. w_u2 w (pc + ucast offset + of_nat (2 * i)))))"

definition topFrameBitmask :: "world \<Rightarrow> u8 \<Rightarrow> (nat \<Rightarrow> u2 result) option result" where
  "topFrameBitmask w pc =
     res_bind (w_u4 w pc) (\<lambda>ins.
       if bc_opcode ins = Some ALLOC1 then offsetToBitmask w (pc + 4)
       else if bc_opcode ins = Some ALLOC
       then offsetToBitmask w (pc + of_nat (4 * (1 + BC_ROUND (unat (bc_c ins)))))
       else if bc_opcode ins = Some ALLOCAP
       then offsetToBitmask w (pc + of_nat (4 * (1 + BC_ROUND (unat (bc_c ins) + 1))))
       else Inl (Exit 1))"

text \<open>The translation of \<^verbatim>\<open>topOfStackMask_\<close> into three half words of the standard format.\<close>

definition dummy_mask :: "u4 \<Rightarrow> u2 list" where
  "dummy_mask tmask =
     (let m0 = ucast (tmask AND 0x7fff);
          m1 = ucast (drop_bit 15 tmask AND 0x7fff);
          m2 = ucast (drop_bit 30 tmask);
          m1 = (if m2 \<noteq> 0 then m1 OR 0x8000 else m1);
          m0 = (if m1 \<noteq> 0 then m0 OR 0x8000 else m0)
      in [m0, m1, m2])"

definition array_masks :: "u2 list \<Rightarrow> nat \<Rightarrow> u2 result" where
  "array_masks xs i = (if i < length xs then Inr (xs ! i) else Inl BadAccess)"

definition top_masks :: "mm \<Rightarrow> u8 \<Rightarrow> (nat \<Rightarrow> u2 result) option result" where
  "top_masks m pc =
     (if mm_topOfStackMask m \<noteq> kNoMask
      then Inr (Some (array_masks (dummy_mask (mm_topOfStackMask m))))
      else topFrameBitmask (mm_world m) pc)"

fun scavenge_frames :: "os \<Rightarrow> nat \<Rightarrow> u8 \<Rightarrow> u8 \<Rightarrow> u8 \<Rightarrow> mm \<Rightarrow> mm result" where
  "scavenge_frames os 0 base tp pc m = Inl Diverge"
| "scavenge_frames os (Suc fuel) base tp pc m =
     (if base = 0 then Inr m
      else
        res_bind (offsetToBitmask (mm_world m) (pc - 4)) (\<lambda>masks.
        res_bind (scavengeFrame os base tp masks m) (\<lambda>m.
        res_bind (rd (mm_world m) (word_at base (-2))) (\<lambda>pc'.
        res_bind (rd (mm_world m) (word_at base (-3))) (\<lambda>base'.
          scavenge_frames os fuel base' (word_at base (-3)) pc' m)))))"

definition scavengeStack :: "os \<Rightarrow> u8 \<Rightarrow> u8 \<Rightarrow> u8 \<Rightarrow> mm \<Rightarrow> mm result" where
  "scavengeStack os base tp pc m =
     res_bind (top_masks m pc) (\<lambda>masks.
     res_bind (scavengeFrame os base tp masks m) (\<lambda>m.
     res_bind (rd (mm_world m) (word_at base (-2))) (\<lambda>pc'.
     res_bind (rd (mm_world m) (word_at base (-3))) (\<lambda>base'.
       scavenge_frames os alloc_fuel base' (word_at base (-3)) pc' m))))"

fun scavenge_roots :: "os \<Rightarrow> nat \<Rightarrow> u8 \<Rightarrow> mm \<Rightarrow> mm result" where
  "scavenge_roots os 0 cl m = Inl Diverge"
| "scavenge_roots os (Suc fuel) cl m =
     (if cl = 0 then Inr m
      else
        res_bind (evacuate os (word_at cl 1) m) (\<lambda>m.
        res_bind (cl_payload (mm_world m) cl 1) (\<lambda>cl'. scavenge_roots os fuel cl' m)))"

definition scavengeStaticRoots :: "os \<Rightarrow> u8 \<Rightarrow> mm \<Rightarrow> mm result" where
  "scavengeStaticRoots os cl m = scavenge_roots os alloc_fuel cl m"

section \<open>Scavenging\<close>

text \<open>The payload loop: \<open>a\<close> is the address of payload word \<open>i\<close>, \<open>n\<close> words are left.\<close>

fun payload_loop :: "(u8 \<Rightarrow> 's \<Rightarrow> 's result) \<Rightarrow> nat \<Rightarrow> u4 \<Rightarrow> u8 \<Rightarrow> 's \<Rightarrow> 's result" where
  "payload_loop f 0 bitmap a s = Inr s"
| "payload_loop f (Suc n) bitmap a s =
     (if bitmap = 0 then Inr s
      else res_bind (if bitmap AND 1 \<noteq> 0 then f a s else Inr s)
             (payload_loop f n (drop_bit 1 bitmap) (a + 8)))"

text \<open>\<^verbatim>\<open>bitmap < (1UL << size)\<close>; the hardware takes the shift count modulo 64.\<close>

definition bitmap_fits :: "u4 \<Rightarrow> nat \<Rightarrow> bool" where
  "bitmap_fits bitmap n \<longleftrightarrow> unat bitmap < 2 ^ (n mod 64)"

fun scavengeBlock_loop :: "os \<Rightarrow> nat \<Rightarrow> bref \<Rightarrow> u8 \<Rightarrow> mm \<Rightarrow> mm result" where
  "scavengeBlock_loop os 0 b p m = Inl Diverge"
| "scavengeBlock_loop os (Suc fuel) b p m =
     res_bind (mm_block m b) (\<lambda>bl.
       if \<not> p < bl_free bl then Inr m
       else
         res_bind (cl_info (mm_world m) p) (\<lambda>info.
         res_bind (lc_assert (\<not> isForwardingPointer info)) (\<lambda>_.
         res_bind (info_at (mm_world m) info) (\<lambda>it.
           if it_type it = CONSTR \<or> it_type it = THUNK \<or> it_type it = FUN
           then
             res_bind (lc_assert (bitmap_fits (it_bitmap it) (it_size it))) (\<lambda>_.
             res_bind (payload_loop (evacuate os) (it_size it) (it_bitmap it) (p + 8) m) (\<lambda>m.
               scavengeBlock_loop os fuel b (p + of_nat ((wordsof_ClosureHeader + it_size it) * 8)) m))
           else if it_type it = PAP
           then
             res_bind (pap_pointerMask (mm_world m) p) (\<lambda>bitmap.
             res_bind (pap_nargs (mm_world m) p) (\<lambda>n.
             res_bind (evacuate os (p + 16) m) (\<lambda>m.
             res_bind (lc_assert (bitmap_fits bitmap n)) (\<lambda>_.
             res_bind (payload_loop (evacuate os) n bitmap (p + 24) m) (\<lambda>m.
               scavengeBlock_loop os fuel b (p + of_nat ((wordsof_PapClosure + n) * 8)) m)))))
           else Inl (Exit 43)))))"

definition scavengeBlock :: "os \<Rightarrow> bref \<Rightarrow> mm \<Rightarrow> mm result" where
  "scavengeBlock os b m =
     res_bind (mm_block m b) (\<lambda>bl.
     res_bind (scavengeBlock_loop os alloc_fuel b (bl_start bl) m) (\<lambda>m.
       mm_updBlock b (bl_setFlag kScavenged) m))"

section \<open>The whole collection\<close>

fun scavenge_chain :: "os \<Rightarrow> nat \<Rightarrow> bref option \<Rightarrow> mm \<Rightarrow> mm result" where
  "scavenge_chain os 0 blk m = Inl Diverge"
| "scavenge_chain os (Suc fuel) blk m =
     (case blk of
        None \<Rightarrow> Inr m
      | Some b \<Rightarrow>
          res_bind (mm_block m b) (\<lambda>bl.
            if bl_getFlag kScavenged bl then Inr m
            else
              res_bind (scavengeBlock os b m) (\<lambda>m.
              res_bind (mm_block m b) (\<lambda>bl. scavenge_chain os fuel (bl_link bl) m))))"

fun scavenge_all :: "os \<Rightarrow> nat \<Rightarrow> mm \<Rightarrow> mm result" where
  "scavenge_all os 0 m = Inl Diverge"
| "scavenge_all os (Suc fuel) m =
     (let b = mm_area m A_closures
      in res_bind (mm_block m b) (\<lambda>bl.
         if bl_getFlag kScavenged bl then Inr m
         else
           res_bind
             (case bl_link bl of
                None \<Rightarrow> Inr b
              | Some l \<Rightarrow> res_bind (mm_block m l) (\<lambda>lb.
                  Inr (if \<not> bl_getFlag kScavenged lb then l else b)))
             (\<lambda>b. res_bind (scavenge_chain os alloc_fuel (Some b) m) (scavenge_all os fuel))))"

fun clear_scavenged :: "nat \<Rightarrow> bref option \<Rightarrow> u4 \<Rightarrow> mm \<Rightarrow> (u4 \<times> mm) result" where
  "clear_scavenged 0 blk fullBlocks m = Inl Diverge"
| "clear_scavenged (Suc fuel) blk fullBlocks m =
     (case blk of
        None \<Rightarrow> Inr (fullBlocks, m)
      | Some b \<Rightarrow>
          res_bind (mm_block m b) (\<lambda>bl.
            clear_scavenged fuel (bl_link bl) (fullBlocks + 1)
              (mm_setBlock b (bl_clearFlag kScavenged bl) m)))"

text \<open>In debug builds \<^verbatim>\<open>markAsFree\<close> also clears the memory of the block.\<close>

definition zero_range :: "u8 \<Rightarrow> u8 \<Rightarrow> world \<Rightarrow> world" where
  "zero_range s e w =
     w\<lparr>w_mem := (\<lambda>a. if s \<le> a \<and> a < e \<and> w_mem w a \<noteq> None then Some 0 else w_mem w a)\<rparr>"

fun free_old_heap :: "nat \<Rightarrow> bref option \<Rightarrow> mm \<Rightarrow> mm result" where
  "free_old_heap 0 blk m = Inl Diverge"
| "free_old_heap (Suc fuel) blk m =
     (case blk of
        None \<Rightarrow> Inr m
      | Some b \<Rightarrow>
          res_bind (mm_block m b) (\<lambda>bl.
            free_old_heap fuel (bl_link bl)
              ((mm_setBlock b ((bl_markAsFree bl)\<lparr>bl_link := mm_free m\<rparr>)
                 (m\<lparr>mm_world := zero_range (bl_start bl) (bl_end bl) (mm_world m)\<rparr>))\<lparr>mm_free := Some b\<rparr>)))"

text \<open>\<open>base\<close>, \<open>tp\<close> and \<open>pc\<close> are those of the current thread, \<open>roots\<close> the static roots.\<close>

definition performGC :: "os \<Rightarrow> u8 \<Rightarrow> u8 \<Rightarrow> u8 \<Rightarrow> u8 \<Rightarrow> mm \<Rightarrow> mm result" where
  "performGC os base tp pc roots m =
     (let m = m\<lparr>mm_num_gcs := mm_num_gcs m + 1\<rparr>
      in res_bind (lc_assert (mm_old_heap m = None)) (\<lambda>_.
         let old = mm_area m A_closures; m = m\<lparr>mm_old_heap := Some old\<rparr>
         in res_bind (mm_block m old) (\<lambda>bl.
            res_bind (grabFreeBlock os (bl_contents bl) m) (\<lambda>(b, m).
            res_bind (mm_updBlock b (\<lambda>bl. bl\<lparr>bl_link := None\<rparr>)
                        (m\<lparr>mm_area := (mm_area m)(A_closures := b)\<rparr>)) (\<lambda>m.
            res_bind (scavengeStack os base tp pc m) (\<lambda>m.
            res_bind (scavengeStaticRoots os roots m) (\<lambda>m.
            res_bind (scavenge_all os alloc_fuel m) (\<lambda>m.
            res_bind (clear_scavenged alloc_fuel (Some (mm_area m A_closures)) 0 m) (\<lambda>(fullBlocks, m).
            res_bind (free_old_heap alloc_fuel (mm_old_heap m) m) (\<lambda>m.
              let full = ucast fullBlocks :: u8;
                  n = (if full > mm_minHeapSize m then full else mm_minHeapSize m) + 1
              in Inr (m\<lparr>mm_old_heap := None, mm_nextGC := ucast n\<rparr>)))))))))))"

definition bumpAllocatorFull ::
  "os \<Rightarrow> u8 \<Rightarrow> u8 \<Rightarrow> u8 \<Rightarrow> u8 \<Rightarrow> u8 \<Rightarrow> u8 \<Rightarrow> mm \<Rightarrow> (u8 \<times> u8) mm_result" where
  "bumpAllocatorFull os heap heaplim base tp pc roots m =
     res_bind (mm_sync heap heaplim m) (\<lambda>m.
       let m = m\<lparr>mm_nextGC := mm_nextGC m - 1\<rparr>
       in res_bind (if mm_nextGC m = 0 then performGC os base tp pc roots m
                    else res_bind (blockFull os A_closures m) (\<lambda>(_, m). Inr m)) (\<lambda>m.
          res_bind (getBumpAllocatorBounds m) (\<lambda>bounds. Inr (bounds, m))))"

section \<open>Sanity checking\<close>

text \<open>
  The checker walks the heap depth first; \<open>seen\<close> is the hash set of visited closures.  A result
  \<open>Inr (ok, seen)\<close> is the returned flag with the set as it is then.
\<close>

definition check_then :: "(bool \<times> 'a) result \<Rightarrow> ('a \<Rightarrow> (bool \<times> 'a) result) \<Rightarrow> (bool \<times> 'a) result" where
  "check_then r f = res_bind r (\<lambda>(ok, seen). if ok then f seen else Inr (False, seen))"

fun check_payload ::
  "(u8 \<Rightarrow> u8 list \<Rightarrow> (bool \<times> u8 list) result) \<Rightarrow> world \<Rightarrow> nat \<Rightarrow> u4 \<Rightarrow> u8 \<Rightarrow> u8 list \<Rightarrow>
    (bool \<times> u8 list) result" where
  "check_payload f w 0 bitmap a seen = Inr (True, seen)"
| "check_payload f w (Suc n) bitmap a seen =
     (if bitmap = 0 then Inr (True, seen)
      else check_then
             (if bitmap AND 1 \<noteq> 0 then res_bind (rd w a) (\<lambda>cl. f cl seen) else Inr (True, seen))
             (check_payload f w n (drop_bit 1 bitmap) (a + 8)))"

text \<open>Each call that recurses has added a closure to \<open>seen\<close>, so the depth is at most \<open>2^64\<close>.\<close>

fun sanityCheckClosure :: "mm \<Rightarrow> nat \<Rightarrow> u8 \<Rightarrow> u8 list \<Rightarrow> (bool \<times> u8 list) result" where
  "sanityCheckClosure m 0 cl seen = Inl Diverge"
| "sanityCheckClosure m (Suc fuel) cl seen =
     (let w = mm_world m
      in if cl \<in> set seen then Inr (True, seen)
      else
        res_bind (looksLikeClosure m cl) (\<lambda>ok.
          if \<not> ok then Inr (False, seen)
          else
            let seen = cl # seen
            in res_bind (cl_info w cl) (\<lambda>info.
               if isForwardingPointer info then Inr (False, seen)
               else
                 res_bind (info_at w info) (\<lambda>it.
                   if it_type it = CONSTR \<or> it_type it = THUNK \<or> it_type it = CAF \<or> it_type it = FUN
                   then
                     if \<not> bitmap_fits (it_bitmap it) (it_size it) then Inr (False, seen)
                     else check_payload (sanityCheckClosure m fuel) w (it_size it) (it_bitmap it)
                            (cl + 8) seen
                   else if it_type it = IND
                   then res_bind (cl_payload w cl 0) (\<lambda>c. sanityCheckClosure m fuel c seen)
                   else if it_type it = UPDATE_FRAME \<or> it_type it = AP_CONT then Inr (True, seen)
                   else if it_type it = PAP
                   then
                     res_bind (pap_pointerMask w cl) (\<lambda>bitmap.
                     res_bind (pap_nargs w cl) (\<lambda>n.
                     res_bind (pap_fun w cl) (\<lambda>fn.
                       check_then (sanityCheckClosure m fuel fn seen) (\<lambda>seen.
                         if \<not> bitmap_fits bitmap n then Inr (False, seen)
                         else check_payload (sanityCheckClosure m fuel) w n bitmap (cl + 24) seen))))
                   else Inr (False, seen)))))"

definition check_closure :: "mm \<Rightarrow> u8 \<Rightarrow> u8 list \<Rightarrow> (bool \<times> u8 list) result" where
  "check_closure m = sanityCheckClosure m (Suc (2 ^ 64))"

fun check_inner ::
  "(nat \<Rightarrow> u8 list \<Rightarrow> (bool \<times> u8 list) result) \<Rightarrow> int \<Rightarrow> nat \<Rightarrow> u2 \<Rightarrow> nat \<Rightarrow> u8 list \<Rightarrow>
    (bool \<times> u2 \<times> nat \<times> u8 list) result" where
  "check_inner f slots 0 bitmap slot seen = Inr (True, bitmap, slot, seen)"
| "check_inner f slots (Suc k) bitmap slot seen =
     (if bitmap = 0 then Inr (True, bitmap, slot, seen)
      else
        res_bind (if bitmap AND 1 \<noteq> 0
                  then if \<not> int slot < slots then Inr (False, seen) else f slot seen
                  else Inr (True, seen))
          (\<lambda>(ok, seen).
            if ok then check_inner f slots k (drop_bit 1 bitmap) (slot + 1) seen
            else Inr (False, bitmap, slot, seen)))"

fun check_outer ::
  "(nat \<Rightarrow> u8 list \<Rightarrow> (bool \<times> u8 list) result) \<Rightarrow> int \<Rightarrow> (nat \<Rightarrow> u2 result) \<Rightarrow> nat \<Rightarrow> nat \<Rightarrow>
    nat \<Rightarrow> u8 list \<Rightarrow> (bool \<times> u8 list) result" where
  "check_outer f slots masks 0 i slot seen = Inl Diverge"
| "check_outer f slots masks (Suc fuel) i slot seen =
     res_bind (masks i) (\<lambda>bitmap.
     res_bind (check_inner f slots 15 bitmap slot seen) (\<lambda>(ok, bitmap, slot, seen).
       if \<not> ok then Inr (False, seen)
       else if bitmap \<noteq> 0 then check_outer f slots masks fuel (i + 1) slot seen
       else Inr (True, seen)))"

definition sanityCheckFrame ::
  "mm \<Rightarrow> u8 \<Rightarrow> u8 \<Rightarrow> (nat \<Rightarrow> u2 result) option \<Rightarrow> u8 list \<Rightarrow> (bool \<times> u8 list) result" where
  "sanityCheckFrame m base tp bitmaps seen =
     res_bind (rd (mm_world m) (word_at base (-1))) (\<lambda>node.
       check_then (check_closure m node seen) (\<lambda>seen.
         case bitmaps of
           None \<Rightarrow> Inr (False, seen)
         | Some masks \<Rightarrow>
             check_outer
               (\<lambda>slot seen. res_bind (rd (mm_world m) (word_at base (int slot))) (\<lambda>cl. check_closure m cl seen))
               (frame_slots_count base tp) masks alloc_fuel 0 0 seen))"

fun check_frames :: "mm \<Rightarrow> nat \<Rightarrow> u8 \<Rightarrow> u8 \<Rightarrow> u8 \<Rightarrow> u8 list \<Rightarrow> (bool \<times> u8 list) result" where
  "check_frames m 0 base tp pc seen = Inl Diverge"
| "check_frames m (Suc fuel) base tp pc seen =
     (if base = 0 then Inr (True, seen)
      else
        res_bind (offsetToBitmask (mm_world m) (pc - 4)) (\<lambda>masks.
        check_then (sanityCheckFrame m base tp masks seen) (\<lambda>seen.
        res_bind (rd (mm_world m) (word_at base (-2))) (\<lambda>pc'.
        res_bind (rd (mm_world m) (word_at base (-3))) (\<lambda>base'.
          check_frames m fuel base' (word_at base (-3)) pc' seen)))))"

definition sanityCheckStack :: "mm \<Rightarrow> u8 \<Rightarrow> u8 \<Rightarrow> u8 \<Rightarrow> u8 list \<Rightarrow> (bool \<times> u8 list) result" where
  "sanityCheckStack m base tp pc seen =
     res_bind (top_masks m pc) (\<lambda>masks.
     check_then (sanityCheckFrame m base tp masks seen) (\<lambda>seen.
     res_bind (rd (mm_world m) (word_at base (-2))) (\<lambda>pc'.
     res_bind (rd (mm_world m) (word_at base (-3))) (\<lambda>base'.
       check_frames m alloc_fuel base' (word_at base (-3)) pc' seen))))"

fun check_roots :: "mm \<Rightarrow> nat \<Rightarrow> u8 \<Rightarrow> u8 list \<Rightarrow> (bool \<times> u8 list) result" where
  "check_roots m 0 cl seen = Inl Diverge"
| "check_roots m (Suc fuel) cl seen =
     (if cl = 0 then Inr (True, seen)
      else
        res_bind (cl_payload (mm_world m) cl 0) (\<lambda>p.
        check_then (check_closure m p seen) (\<lambda>seen.
        res_bind (cl_payload (mm_world m) cl 1) (\<lambda>cl'. check_roots m fuel cl' seen))))"

definition sanityCheckStaticRoots :: "mm \<Rightarrow> u8 \<Rightarrow> u8 list \<Rightarrow> (bool \<times> u8 list) result" where
  "sanityCheckStaticRoots m cl seen = check_roots m alloc_fuel cl seen"

definition sanityCheckHeap :: "mm \<Rightarrow> u8 \<Rightarrow> u8 \<Rightarrow> u8 \<Rightarrow> u8 \<Rightarrow> unit result" where
  "sanityCheckHeap m base tp pc roots =
     res_bind (check_then (sanityCheckStack m base tp pc []) (sanityCheckStaticRoots m roots))
       (\<lambda>(ok, _). if ok then Inr () else Inl (Exit 42))"

section \<open>Decoding of liveness bitmaps\<close>

fun res_fold :: "('a \<Rightarrow> 's \<Rightarrow> 's result) \<Rightarrow> 'a list \<Rightarrow> 's \<Rightarrow> 's result" where
  "res_fold f [] s = Inr s"
| "res_fold f (x # xs) s = res_bind (f x s) (res_fold f xs)"

lemma res_fold_append: "res_fold f (xs @ ys) s = res_bind (res_fold f xs s) (res_fold f ys)"
proof (induction xs arbitrary: s)
  case (Cons x xs)
  then show ?case by (cases "f x s") auto
qed simp

text \<open>The slots from \<open>b\<close> on that the low \<open>k\<close> bits of a half word describe.\<close>

definition mask_slots :: "'a::len word \<Rightarrow> nat \<Rightarrow> nat \<Rightarrow> nat list" where
  "mask_slots x b k = map (\<lambda>i. b + i) (filter (bit x) [0..<k])"

text \<open>The live slots a sequence of half words describes, from slot \<open>b\<close> on.\<close>

fun decode_masks :: "u2 list \<Rightarrow> nat \<Rightarrow> nat list" where
  "decode_masks [] b = []"
| "decode_masks (x # xs) b =
     mask_slots x b 15 @ (if bit x 15 then decode_masks xs (b + 15) else [])"

text \<open>The sequence ends with a half word whose sign bit is clear.\<close>

fun masks_end :: "u2 list \<Rightarrow> bool" where
  "masks_end [] = False"
| "masks_end (x # xs) = (bit x 15 \<longrightarrow> masks_end xs)"

definition live_slot :: "(nat \<Rightarrow> 's \<Rightarrow> 's result) \<Rightarrow> int \<Rightarrow> nat \<Rightarrow> 's \<Rightarrow> 's result" where
  "live_slot f slots n s = res_bind (lc_assert (int n < slots)) (\<lambda>_. f n s)"

lemma and_1_bit: "(w :: 'a::len word) AND 1 \<noteq> 0 \<longleftrightarrow> bit w 0"
  by (simp add: and_one_eq bit_0 odd_iff_mod_2_eq_one)

lemma mask_slots_0 [simp]: "mask_slots x b 0 = []"
  by (simp add: mask_slots_def)

lemma mask_slots_zero [simp]: "mask_slots 0 b k = []"
  by (simp add: mask_slots_def)

lemma mask_slots_Suc:
  "mask_slots x b (Suc k) = (if bit x 0 then [b] else []) @ mask_slots (drop_bit 1 x) (b + 1) k"
proof -
  have "[0..<Suc k] = 0 # map Suc [0..<k]"
    by (simp add: upt_conv_Cons map_Suc_upt del: upt_Suc)
  then show ?thesis
    by (simp add: mask_slots_def filter_map o_def bit_drop_bit_eq del: upt_Suc)
qed

lemma frame_inner_fold:
  assumes "\<And>sl sl' s. g (0, sl, s) = g (0, sl', s)"
  shows "res_bind (frame_inner f slots k x b s) g =
    res_bind (res_fold (live_slot f slots) (mask_slots x b k) s)
      (\<lambda>s. g (drop_bit k x, b + k, s))"
proof (induction k arbitrary: x b s)
  case (Suc k)
  show ?case
  proof (cases "x = 0")
    case True
    then show ?thesis using assms by simp
  next
    case False
    have d: "drop_bit k (drop_bit 1 x) = drop_bit (Suc k) x"
      by (simp add: drop_bit_drop_bit)
    show ?thesis
      using False Suc.IH [of "drop_bit 1 x" "b + 1"]
      by (cases "bit x 0") (simp_all add: mask_slots_Suc and_1_bit live_slot_def res_bind_assoc d)
  qed
qed simp

lemma drop_bit_15_u2: "drop_bit 15 (x :: u2) \<noteq> 0 \<longleftrightarrow> bit x 15"
proof
  assume "drop_bit 15 x \<noteq> 0"
  then obtain n where "bit (drop_bit 15 x) n"
    using bit_eq_iff [of "drop_bit 15 x" 0] by auto
  then have b: "bit x (15 + n)" by (simp add: bit_drop_bit_eq)
  then have "15 + n < 16" using bit_imp_le_length by fastforce
  with b show "bit x 15" by simp
next
  assume "bit x 15"
  then have "bit (drop_bit 15 x) 0" by (simp add: bit_drop_bit_eq)
  then show "drop_bit 15 x \<noteq> 0" by (metis bit_0_eq bot_apply bot_bool_def)
qed

lemma frame_outer_fold:
  assumes "\<And>j. j < length xs \<Longrightarrow> masks (i + j) = Inr (xs ! j)" and "masks_end xs" and "length xs \<le> fuel"
  shows "frame_outer f slots masks fuel i b s = res_fold (live_slot f slots) (decode_masks xs b) s"
  using assms
proof (induction xs arbitrary: fuel i b s)
  case (Cons x xs)
  then obtain fuel' where fuel: "fuel = Suc fuel'" by (cases fuel) auto
  have m: "masks i = Inr x" using Cons.prems(1) [of 0] by simp
  have ih: "bit x 15 \<Longrightarrow> frame_outer f slots masks fuel' (i + 1) (b + 15) s' =
      res_fold (live_slot f slots) (decode_masks xs (b + 15)) s'" for s'
    using Cons.IH [of "i + 1" fuel' "b + 15" s'] Cons.prems(1) [of "Suc _"] Cons.prems(2,3) fuel by simp
  show ?case
    unfolding fuel frame_outer.simps m res_bind.simps
    by (subst frame_inner_fold)
      (use ih in \<open>auto simp: drop_bit_15_u2 res_fold_append intro!: arg_cong [where f = "res_bind _"]\<close>)
qed simp

lemma mask_slots_filter:
  assumes "\<And>i. i < k \<Longrightarrow> bit x i = bit y (b + i)"
  shows "mask_slots x b k = filter (bit (y :: 'a::len word)) [b..<b + k]"
  using assms
proof (induction k)
  case (Suc k)
  then show ?case by (simp add: mask_slots_def)
qed simp

lemma no_bits_filter: "(\<And>i. i \<in> set xs \<Longrightarrow> \<not> bit y i) \<Longrightarrow> filter (bit y) xs = []"
  by (induction xs) auto

lemma and_0x7fff: "(w :: 'a::len word) AND 0x7fff = take_bit 15 w"
  by (simp add: take_bit_eq_mask mask_eq_exp_minus_1)

lemma bit_or_0x8000: "bit ((x :: u2) OR 0x8000) i \<longleftrightarrow> bit x i \<or> i = 15"
proof -
  have "(0x8000 :: u2) = push_bit 15 1" by (simp add: push_bit_eq_mult)
  then show ?thesis
    by (simp only: bit_or_iff bit_push_bit_iff bit_1_iff) (auto simp: bit_imp_le_length)
qed

lemma dummy_mask_decode:
  "decode_masks (dummy_mask m) 0 = filter (bit m) [0..<32] \<and> masks_end (dummy_mask m)"
proof -
  define m0 m1 m2 where "m0 = (ucast (m AND 0x7fff) :: u2)"
    and "m1 = (ucast (drop_bit 15 m AND 0x7fff) :: u2)" and "m2 = (ucast (drop_bit 30 m) :: u2)"
  define n1 where "n1 = (if m2 \<noteq> 0 then m1 OR 0x8000 else m1)"
  define n0 where "n0 = (if n1 \<noteq> 0 then m0 OR 0x8000 else m0)"
  have d: "dummy_mask m = [n0, n1, m2]"
    unfolding dummy_mask_def m0_def m1_def m2_def n1_def n0_def Let_def by (rule refl)
  have b0: "bit m0 i \<longleftrightarrow> i < 15 \<and> bit m i" and b1: "bit m1 i \<longleftrightarrow> i < 15 \<and> bit m (15 + i)"
    and b2: "bit m2 i \<longleftrightarrow> i < 16 \<and> bit m (30 + i)" for i
    unfolding m0_def m1_def m2_def and_0x7fff by (auto simp: bit_simps)
  have hi: "\<not> bit m i" if "32 \<le> i" for i
    using that bit_imp_le_length [of m i] by auto
  have c0: "bit n0 i \<longleftrightarrow> (i < 15 \<and> bit m i) \<or> (i = 15 \<and> n1 \<noteq> 0)"
    and c1: "bit n1 i \<longleftrightarrow> (i < 15 \<and> bit m (15 + i)) \<or> (i = 15 \<and> m2 \<noteq> 0)" for i
    by (auto simp: n0_def n1_def bit_or_0x8000 b0 b1)
  have s0: "mask_slots n0 0 15 = filter (bit m) [0..<15]"
    using mask_slots_filter [of 15 n0 m 0] c0 by auto
  have s1: "mask_slots n1 15 15 = filter (bit m) [15..<30]"
    using mask_slots_filter [of 15 n1 m 15] c1 by auto
  have "mask_slots m2 30 15 = filter (bit m) [30..<45]"
    using mask_slots_filter [of 15 m2 m 30] b2 by auto
  moreover have "[30..<45] = [30..<32] @ [32..<45]"
    using upt_add_eq_append [of 30 32 13] by simp
  ultimately have s2: "mask_slots m2 30 15 = filter (bit m) [30..<32]"
    using hi by (simp add: no_bits_filter del: upt_Suc)
  have u: "[0..<32] = [0..<15] @ [15..<30] @ [30..<32]"
    using upt_add_eq_append [of 0 15 17] by (simp add: upt_rec_numeral)
  have e: "filter (bit m) [0..<32] =
      filter (bit m) [0..<15] @ filter (bit m) [15..<30] @ filter (bit m) [30..<32]"
    by (simp only: u filter_append)
  have z2: "filter (bit m) [30..<32] = []" if "m2 = 0"
    using that s2 by simp
  have z1: "m2 = 0 \<and> filter (bit m) [15..<30] = []" if "n1 = 0"
  proof -
    have "m2 = 0" using that c1 [of 15] by auto
    then show ?thesis using that s1 by simp
  qed
  have f15: "\<not> bit m2 15"
    using b2 [of 15] hi by simp
  have "decode_masks (dummy_mask m) 0 = filter (bit m) [0..<32]"
    unfolding e d using s0 s1 s2 z1 z2 f15 c0 [of 15] c1 [of 15]
    by (cases "n1 = 0"; cases "m2 = 0") (simp_all del: filter.simps upt_rec_numeral)
  moreover have "masks_end (dummy_mask m)"
    unfolding d using f15 by simp
  ultimately show ?thesis by blast
qed

lemma scavengeFrame_masks:
  assumes "\<And>j. j < length xs \<Longrightarrow> masks j = Inr (xs ! j)" and "masks_end xs" and "length xs \<le> 3"
  shows "scavengeFrame os base tp (Some masks) m =
    res_bind (evacuate os (word_at base (-1)) m)
      (res_fold (live_slot (\<lambda>slot. evacuate os (word_at base (int slot))) (frame_slots_count base tp))
        (decode_masks xs 0))"
proof -
  have "length xs \<le> alloc_fuel"
    using assms(3) by (simp add: alloc_fuel_def)
  then have "frame_outer f slots masks alloc_fuel 0 0 s =
      res_fold (live_slot f slots) (decode_masks xs 0) s" for f slots and s :: mm
    using assms by (intro frame_outer_fold) auto
  then show ?thesis
    by (simp add: scavengeFrame_def)
qed

text \<open>
  \<^bold>\<open>C13.\<close> The live slots of the top frame: for every pointer mask that the mutator leaves in
  \<^verbatim>\<open>topOfStackMask_\<close>, its translation into liveness bitmaps makes \<^verbatim>\<open>scavengeFrame\<close> evacuate
  the frame node and then exactly the slots whose bit is set in the mask, in increasing order,
  each after the check that it belongs to the frame.
\<close>

theorem scavengeFrame_top_mask:
  "scavengeFrame os base tp (Some (array_masks (dummy_mask tmask))) m =
     res_bind (evacuate os (word_at base (-1)) m)
       (res_fold (live_slot (\<lambda>slot. evacuate os (word_at base (int slot))) (frame_slots_count base tp))
          (filter (bit tmask) [0..<32]))"
proof -
  have "length (dummy_mask tmask) = 3"
    by (simp add: dummy_mask_def Let_def)
  then show ?thesis
    using scavengeFrame_masks [of "dummy_mask tmask" "array_masks (dummy_mask tmask)"]
      dummy_mask_decode [of tmask] by (simp add: array_masks_def del: upt_Suc)
qed

section \<open>Evacuation\<close>

lemma forwarding_roundtrip:
  assumes "p AND 1 = 0"
  shows "isForwardingPointer (makeForwardingPointer p)"
    and "getForwardingPointer (makeForwardingPointer p) = p"
proof -
  have "\<not> bit p 0"
    using assms and_1_bit [of p] by auto
  then show "getForwardingPointer (makeForwardingPointer p) = p"
    unfolding getForwardingPointer_def makeForwardingPointer_def
    by (intro bit_word_eqI) (auto simp: bit_simps intro!: gr0I)
  show "isForwardingPointer (makeForwardingPointer p)"
    by (simp add: isForwardingPointer_def makeForwardingPointer_def and_1_bit bit_simps)
qed

lemma copy_payload_result:
  assumes "copy_payload n i from to w = Inr w'"
    and "\<And>j k. j < n \<Longrightarrow> k < n \<Longrightarrow> word_at to (int (i + j) + 1) \<noteq> word_at from (int (i + k) + 1)"
    and "i + n < 2 ^ 60"
  shows "(\<forall>j < n. rd w' (word_at to (int (i + j) + 1)) = rd w (word_at from (int (i + j) + 1))) \<and>
    (\<forall>a. (\<forall>j < n. a \<noteq> word_at to (int (i + j) + 1)) \<longrightarrow> rd w' a = rd w a) \<and>
    w_infos w' = w_infos w"
  using assms
proof (induction n arbitrary: i w)
  case (Suc n)
  obtain v w1 where v: "rd w (word_at from (int i + 1)) = Inr v"
      and w1: "wr (word_at to (int i + 1)) v w = Inr w1"
      and c: "copy_payload n (i + 1) from to w1 = Inr w'"
    using Suc.prems(1) by (auto simp: result cl_payload_def cl_setPayload_def)
  note r1 = rd_wr [OF w1]
  have ih: "(\<forall>j < n. rd w' (word_at to (int (i + 1 + j) + 1)) = rd w1 (word_at from (int (i + 1 + j) + 1))) \<and>
    (\<forall>a. (\<forall>j < n. a \<noteq> word_at to (int (i + 1 + j) + 1)) \<longrightarrow> rd w' a = rd w1 a) \<and> w_infos w' = w_infos w1"
    by (rule Suc.IH [OF c]) (use Suc.prems(2) [of "Suc _" "Suc _"] Suc.prems(3) in auto)
  have n0: "word_at to (int i + 1) \<noteq> word_at to (int (i + 1 + j) + 1)" if "j < n" for j
    using that Suc.prems(3) by (simp add: word_at_inject)
  have "rd w' (word_at to (int (i + j) + 1)) = rd w (word_at from (int (i + j) + 1))" if "j < Suc n" for j
  proof (cases j)
    case 0
    then show ?thesis using ih n0 r1 v by simp
  next
    case (Suc k)
    then show ?thesis
      using ih that r1 Suc.prems(2) [of 0 j] by (auto simp: add.assoc)
  qed
  moreover have "rd w' a = rd w a" if "\<forall>j < Suc n. a \<noteq> word_at to (int (i + j) + 1)" for a
  proof -
    have "a \<noteq> word_at to (int i + 1)" "\<forall>j < n. a \<noteq> word_at to (int (i + 1 + j) + 1)"
      using that [rule_format, of 0] that [rule_format, of "Suc _"] by auto
    then show ?thesis using ih r1 by auto
  qed
  moreover have "w_infos w' = w_infos w"
    using ih wr_frame [OF w1] by simp
  ultimately show ?case by blast
qed simp

text \<open>What evacuation of an object does whose type is copied with \<open>n\<close> payload words.\<close>

lemma gc_copy_result:
  assumes "gc_copy os p info n m = Inr m'" and "rd (mm_world m) p = Inr q"
    and "allocClosure os info (of_nat n) m = Inr (to, m1)"
    and "\<forall>a \<in> {p} \<union> {word_at q (int i) |i. i \<le> n}. \<forall>j \<le> n. a \<noteq> word_at to (int j)"
    and "p \<notin> {word_at q (int i) |i. i \<le> n}" and "n < 2 ^ 32"
  shows "rd (mm_world m') p = Inr to"
    and "rd (mm_world m') q = Inr (makeForwardingPointer to)"
    and "rd (mm_world m') to = rd (mm_world m1) to"
    and "\<forall>i < n. cl_payload (mm_world m') to (int i) = cl_payload (mm_world m1) q (int i)"
    and "w_infos (mm_world m') = w_infos (mm_world m1)"
proof -
  obtain w1 w2 w3 where w1: "wr p to (mm_world m1) = Inr w1" and w2: "copy_payload n 0 q to w1 = Inr w2"
      and w3: "wr q (makeForwardingPointer to) w2 = Inr w3" and m': "mm_world m' = w3"
    using assms(1,2,3) by (auto simp: gc_copy_def mm_liftW_def result cl_setInfo_def)
  have q: "word_at q (int i) \<noteq> word_at to (int j)" if "i \<le> n" "j \<le> n" for i j
    using assms(4) that by blast
  have p: "p \<noteq> word_at to (int j)" if "j \<le> n" for j
    using assms(4) that by blast
  have pq: "p \<noteq> word_at q (int i)" if "i \<le> n" for i
    using assms(5) that by blast
  have w0: "word_at a 0 = a" for a by (simp add: word_at_def)
  have qq: "word_at to (int (0 + j) + 1) \<noteq> word_at q (int (0 + k) + 1)" if "j < n" "k < n" for j k
    using q [of "Suc k" "Suc j"] that by (auto simp: add.commute)
  have C: "(\<forall>j < n. rd w2 (word_at to (int j + 1)) = rd w1 (word_at q (int j + 1))) \<and>
    (\<forall>a. (\<forall>j < n. a \<noteq> word_at to (int j + 1)) \<longrightarrow> rd w2 a = rd w1 a) \<and> w_infos w2 = w_infos w1"
    using copy_payload_result [OF w2] qq assms(6) by simp
  have sep: "q \<noteq> word_at to (int j + 1)" "p \<noteq> word_at to (int j + 1)" "to \<noteq> word_at to (int j + 1)"
    if "j < n" for j
    using q [of 0 "Suc j"] p [of "Suc j"] that word_at_inject [of 0 "int j + 1" to] assms(6)
    by (auto simp: w0 add.commute)
  note r1 = rd_wr [OF w1] and r3 = rd_wr [OF w3]
  have ne: "q \<noteq> p" "q \<noteq> to" "p \<noteq> to"
    using pq [of 0] q [of 0 0] p [of 0] by (auto simp: w0)
  show "rd (mm_world m') p = Inr to"
    using r3 r1 C sep ne m' by auto
  show "rd (mm_world m') q = Inr (makeForwardingPointer to)"
    using r3 m' by simp
  show "rd (mm_world m') to = rd (mm_world m1) to"
    using r3 r1 C sep ne m' by auto
  show "\<forall>i < n. cl_payload (mm_world m') to (int i) = cl_payload (mm_world m1) q (int i)"
  proof (intro allI impI)
    fix i assume i: "i < n"
    have "word_at to (int i + 1) \<noteq> q" "word_at q (int i + 1) \<noteq> p"
      using q [of 0 "Suc i"] pq [of "Suc i"] i by (auto simp: w0 add.commute)
    then show "cl_payload (mm_world m') to (int i) = cl_payload (mm_world m1) q (int i)"
      using r3 r1 C i m' by (simp add: cl_payload_def)
  qed
  show "w_infos (mm_world m') = w_infos (mm_world m1)"
    using C wr_frame [OF w1] wr_frame [OF w3] m' by simp
qed

lemma copy_payload_total:
  assumes "\<And>j. j < n \<Longrightarrow> word_at from (int (i + j) + 1) \<in> dom (w_mem w) \<and>
      word_at to (int (i + j) + 1) \<in> dom (w_mem w)"
  shows "\<exists>w'. copy_payload n i from to w = Inr w' \<and> dom (w_mem w') = dom (w_mem w)"
  using assms
proof (induction n arbitrary: i w)
  case (Suc n)
  obtain v where v: "rd w (word_at from (int i + 1)) = Inr v"
    using Suc.prems [of 0] rd_total [of w] by auto
  obtain w1 where w1: "wr (word_at to (int i + 1)) v w = Inr w1"
    using Suc.prems [of 0] wr_total [of _ v w] by auto
  have d: "dom (w_mem w1) = dom (w_mem w)"
    using wr_frame [OF w1] by simp
  obtain w' where "copy_payload n (i + 1) from to w1 = Inr w'" "dom (w_mem w') = dom (w_mem w1)"
    using Suc.IH [of "i + 1" w1] Suc.prems [of "Suc _"] d by auto
  then show ?case
    using v w1 d by (simp add: cl_payload_def cl_setPayload_def)
qed simp

lemma mm_setBlock_world [simp]: "mm_world (mm_setBlock b bl m) = mm_world m"
  by (simp add: mm_setBlock_def mm_setRegion_def split: option.splits)

text \<open>Allocation of a closure that fits into the current block.\<close>

definition closure_fits :: "nat \<Rightarrow> mm \<Rightarrow> u8 \<Rightarrow> bool" where
  "closure_fits n m to \<longleftrightarrow>
     (\<exists>bl. mm_block m (mm_area m A_closures) = Inr bl \<and> bl_wf bl \<and> bl_free bl = to \<and>
        unat to + 8 * (1 + n) \<le> unat (bl_end bl))"

lemma allocClosure_fits:
  assumes "closure_fits n m to" and "to \<in> dom (w_mem (mm_world m))" and "n < 2 ^ 32"
  shows "\<exists>m1 w1. allocClosure os info (of_nat n) m = Inr (to, m1) \<and> wr to info (mm_world m) = Inr w1 \<and>
    mm_world m1 = w1"
proof -
  obtain bl where bl: "mm_block m (mm_area m A_closures) = Inr bl" "bl_wf bl" "bl_free bl = to"
      "unat to + 8 * (1 + n) \<le> unat (bl_end bl)"
    using assms(1) by (auto simp: closure_fits_def)
  let ?bytes = "(of_nat wordsof_ClosureHeader + of_nat n) * 8 :: u8"
  have "?bytes = of_nat (8 * (1 + n))"
    by (simp add: wordsof_ClosureHeader_def algebra_simps)
  then have b: "unat ?bytes = 8 * (1 + n)"
    using assms(3) by (simp only:) (rule unat_of_nat_small, simp)
  obtain m2 where "allocInto os A_closures ?bytes m = Inr (to, m2)" "mm_world m2 = mm_world m"
    using allocInto_fits [OF bl(1,2), of ?bytes os] b bl(3,4) assms(3) by auto
  moreover obtain w1 where "wr to info (mm_world m) = Inr w1"
    using assms(2) wr_total by blast
  ultimately show ?thesis
    by (simp add: allocClosure_def cl_setInfo_def)
qed

text \<open>The objects that evacuation copies, with the number of their payload words.\<close>

definition movable :: "world \<Rightarrow> u8 \<Rightarrow> info_table \<Rightarrow> nat \<Rightarrow> bool" where
  "movable w q it n \<longleftrightarrow>
     (it_type it \<in> {CONSTR, THUNK, FUN} \<and> n = it_size it) \<or>
     (it_type it = PAP \<and> (\<exists>k. pap_nargs w q = Inr k \<and> n = unat (pap_payload_words (of_nat k))))"

text \<open>A pointer \<open>p\<close> to such an object \<open>q\<close> of the collected heap, which fits at \<open>to\<close>.\<close>

definition evac_ready :: "mm \<Rightarrow> u8 \<Rightarrow> u8 \<Rightarrow> u8 \<Rightarrow> nat \<Rightarrow> u8 \<Rightarrow> bool" where
  "evac_ready m p q info n to \<longleftrightarrow>
     rd (mm_world m) p = Inr q \<and> q \<noteq> 0 \<and> rd (mm_world m) q = Inr info \<and>
     \<not> isForwardingPointer info \<and>
     (\<exists>b bl. blockFromPointer m q = Inr b \<and> mm_block m b = Inr bl \<and> bl_contents bl = kClosures) \<and>
     (\<exists>it. info_at (mm_world m) info = Inr it \<and> movable (mm_world m) q it n) \<and> n < 2 ^ 32 \<and>
     closure_fits n m to \<and> to AND 1 = 0 \<and>
     (\<forall>i \<le> n. word_at q (int i) \<in> dom (w_mem (mm_world m)) \<and> word_at to (int i) \<in> dom (w_mem (mm_world m))) \<and>
     (\<forall>a \<in> {p} \<union> {word_at q (int i) |i. i \<le> n}. \<forall>j \<le> n. a \<noteq> word_at to (int j)) \<and>
     p \<notin> {word_at q (int i) |i. i \<le> n}"

lemma word_at_0 [simp]: "word_at a 0 = a"
  by (simp add: word_at_def)

lemma gc_copy_total:
  assumes "evac_ready m p q info n to"
  shows "\<exists>m'. gc_copy os p info n m = Inr m'"
proof -
  note A = assms [unfolded evac_ready_def]
  have dq: "word_at q (int i) \<in> dom (w_mem (mm_world m))" and dt: "word_at to (int i) \<in> dom (w_mem (mm_world m))"
    if "i \<le> n" for i
    using A that by auto
  obtain m1 w1 where m1: "allocClosure os info (of_nat n) m = Inr (to, m1)"
      "wr to info (mm_world m) = Inr w1" "mm_world m1 = w1"
    using allocClosure_fits [of n m to os info] A dt [of 0] by auto
  have d1: "dom (w_mem (mm_world m1)) = dom (w_mem (mm_world m))"
    using wr_frame [OF m1(2)] m1(3) by simp
  have "p \<in> dom (w_mem (mm_world m))"
    using A rd_total [of "mm_world m" p] by auto
  then obtain w2 where w2: "wr p to (mm_world m1) = Inr w2"
    using d1 wr_total by metis
  have d2: "dom (w_mem w2) = dom (w_mem (mm_world m))"
    using wr_frame [OF w2] d1 by simp
  have "word_at q (int (0 + j) + 1) \<in> dom (w_mem w2) \<and> word_at to (int (0 + j) + 1) \<in> dom (w_mem w2)"
    if "j < n" for j
    using dq [of "Suc j"] dt [of "Suc j"] that by (simp add: d2 add.commute)
  then obtain w3 where w3: "copy_payload n 0 q to w2 = Inr w3" "dom (w_mem w3) = dom (w_mem w2)"
    using copy_payload_total [of n q 0 w2 to] by auto
  then obtain w4 where w4: "wr q (makeForwardingPointer to) w3 = Inr w4"
    using dq [of 0] d2 wr_total [of q "makeForwardingPointer to" w3] by auto
  show ?thesis
    using A m1 w2 w3 w4 by (simp add: gc_copy_def mm_liftW_def cl_setInfo_def)
qed

lemma evacuate_ready:
  assumes "evac_ready m p q info n to"
  shows "evacuate os p m = gc_copy os p info n m"
proof -
  note A = assms [unfolded evac_ready_def]
  obtain k where "ind_fuel = Suc k"
    by (cases ind_fuel) (auto simp: ind_fuel_def)
  then have "evacuate os p m = evacuate_loop os (Suc k) p q m"
    using A by (simp only: evacuate_def) simp
  then show ?thesis
    using A by (auto simp: cl_info_def movable_def)
qed

lemma evacuate_forwarded:
  assumes "rd (mm_world m) p = Inr q" and "q \<noteq> 0" and "rd (mm_world m) q = Inr f" and "isForwardingPointer f"
  shows "evacuate os p m = mm_liftW (wr p (getForwardingPointer f)) m"
proof -
  obtain k where "ind_fuel = Suc k"
    by (cases ind_fuel) (auto simp: ind_fuel_def)
  then have "evacuate os p m = evacuate_loop os (Suc k) p q m"
    using assms by (simp only: evacuate_def) simp
  then show ?thesis
    using assms by (simp add: cl_info_def)
qed

text \<open>
  \<^bold>\<open>C8.\<close> Evacuation moves an object once.  For a constructor, thunk, function or partial
  application of the collected heap for which the current block has room, \<^verbatim>\<open>evacuate\<close> succeeds,
  redirects the pointer to the copy, copies header and payload unchanged, and leaves a
  forwarding pointer behind; every later evacuation of a pointer to the old object yields the
  same copy and changes nothing else.
\<close>

theorem evacuate_moves_once:
  assumes "evac_ready m p q info n to"
  shows "\<exists>m'. evacuate os p m = Inr m' \<and> rd (mm_world m') p = Inr to \<and> rd (mm_world m') to = Inr info \<and>
    (\<forall>i < n. cl_payload (mm_world m') to (int i) = cl_payload (mm_world m) q (int i)) \<and>
    (\<forall>p'. rd (mm_world m') p' = Inr q \<longrightarrow>
      (\<exists>w'. wr p' to (mm_world m') = Inr w' \<and> evacuate os p' m' = Inr (m'\<lparr>mm_world := w'\<rparr>)))"
proof -
  note A = assms [unfolded evac_ready_def]
  have rdp: "rd (mm_world m) p = Inr q" and n32: "n < 2 ^ 32"
    and sep: "\<forall>a \<in> {p} \<union> {word_at q (int i) |i. i \<le> n}. \<forall>j \<le> n. a \<noteq> word_at to (int j)"
    and pq: "p \<notin> {word_at q (int i) |i. i \<le> n}" and fits: "closure_fits n m to"
    and d: "\<forall>i \<le> n. word_at q (int i) \<in> dom (w_mem (mm_world m)) \<and> word_at to (int i) \<in> dom (w_mem (mm_world m))"
    using A by blast+
  have "to \<in> dom (w_mem (mm_world m))"
    using d [rule_format, of 0] by simp
  then obtain m1 w1 where m1: "allocClosure os info (of_nat n) m = Inr (to, m1)"
      "wr to info (mm_world m) = Inr w1" "mm_world m1 = w1"
    using allocClosure_fits [OF fits _ n32] by blast
  obtain m' where c: "gc_copy os p info n m = Inr m'"
    using gc_copy_total [OF assms] by blast
  have R: "rd (mm_world m') p = Inr to" "rd (mm_world m') q = Inr (makeForwardingPointer to)"
    "rd (mm_world m') to = rd (mm_world m1) to"
    "\<forall>i < n. cl_payload (mm_world m') to (int i) = cl_payload (mm_world m1) q (int i)"
    using gc_copy_result [OF c rdp m1(1) sep pq n32] by blast+
  have q: "word_at q (int i) \<noteq> to" if "i \<le> n" for i
  proof -
    have "word_at q (int i) \<noteq> word_at to (int 0)"
      using sep that by blast
    then show ?thesis by simp
  qed
  have "cl_payload (mm_world m1) q (int i) = cl_payload (mm_world m) q (int i)" if "i < n" for i
    using q [of "Suc i"] that rd_wr [OF m1(2)] m1(3) by (simp add: cl_payload_def add.commute)
  moreover have "rd (mm_world m1) to = Inr info"
    using rd_wr [OF m1(2)] m1(3) by simp
  moreover have "\<exists>w'. wr p' to (mm_world m') = Inr w' \<and> evacuate os p' m' = Inr (m'\<lparr>mm_world := w'\<rparr>)"
    if "rd (mm_world m') p' = Inr q" for p'
  proof -
    have "p' \<in> dom (w_mem (mm_world m'))"
      using that rd_total [of "mm_world m'" p'] by auto
    then obtain w' where "wr p' to (mm_world m') = Inr w'"
      using wr_total by blast
    then show ?thesis
      using evacuate_forwarded [OF that _ R(2)] forwarding_roundtrip [of to] A
      by (auto simp: mm_liftW_def)
  qed
  ultimately show ?thesis
    using R c evacuate_ready [OF assms, of os] by auto
qed

definition demo_gc :: mm where
  "demo_gc = mm_empty\<lparr>mm_world := \<lparr>w_mem = [0x50 \<mapsto> 0x100520, 0x100520 \<mapsto> 0x200, 0x100528 \<mapsto> 7,
       0x108000 \<mapsto> 0, 0x108008 \<mapsto> 0],
     w_infos = [0x200 \<mapsto> \<lparr>it_bitmap = 0, it_type = CONSTR, it_size = 1, it_tagOrBitmap = 1, it_code = None\<rparr>],
     w_code = Map.empty\<rparr>,
     mm_regions := [0x100000 \<mapsto> \<lparr>rg_type = kSmallObjectRegion, rg_link = 0, rg_blocks =
       [\<lparr>bl_start = 0x100520, bl_end = 0x108000, bl_free = 0x100530, bl_link = None, bl_flags = kClosures\<rparr>,
        \<lparr>bl_start = 0x108000, bl_end = 0x110000, bl_free = 0x108000, bl_link = None, bl_flags = kClosures\<rparr>],
       rg_next_free = None, rg_end = 0, rg_free = 0\<rparr>],
     mm_area := (\<lambda>_. (0x100000, 1))\<rparr>"

lemma demo_gc_ready: "evac_ready demo_gc 0x50 0x100520 0x200 1 0x108000"
proof -
  have le: "i \<le> 1 \<longleftrightarrow> i = 0 \<or> i = 1" for i :: nat by auto
  have "closure_fits 1 demo_gc 0x108000"
    by (simp add: closure_fits_def demo_gc_def mm_block_def mm_regionAt_def bl_wf_def bl_ok_def mm_sizes)
  moreover have "blockFromPointer demo_gc 0x100520 = Inr (0x100000, 0)"
    by (simp add: blockFromPointer_def regionFromPointer_def demo_gc_def mm_regionAt_def mm_sizes Let_def)
  moreover have "mm_block demo_gc (0x100000, 0) =
      Inr \<lparr>bl_start = 0x100520, bl_end = 0x108000, bl_free = 0x100530, bl_link = None, bl_flags = kClosures\<rparr>"
    by (simp add: demo_gc_def mm_block_def mm_regionAt_def)
  moreover have "kClosures AND kContentsMask = kClosures"
    by (simp add: kClosures_def kContentsMask_def)
  ultimately show ?thesis
    unfolding evac_ready_def le
    by (auto simp: demo_gc_def rd_def info_at_def movable_def isForwardingPointer_def
        bl_contents_def word_at_def conj_disj_distribR ex_disj_distrib all_conj_distrib)
      (rule ccontr, simp)
qed

theorem evacuate_moves_once_witness:
  "\<exists>m'. evacuate demo_os 0x50 demo_gc = Inr m' \<and> rd (mm_world m') 0x50 = Inr 0x108000 \<and>
     cl_payload (mm_world m') 0x108000 0 = Inr 7"
proof -
  have "cl_payload (mm_world demo_gc) 0x100520 0 = Inr 7"
    by (simp add: demo_gc_def cl_payload_def rd_def word_at_def)
  then show ?thesis
    using evacuate_moves_once [OF demo_gc_ready, of demo_os] by fastforce
qed

section \<open>The sanity checker\<close>

text \<open>The pointers of a closure, as the collector sees them.\<close>

inductive points_to :: "mm \<Rightarrow> u8 \<Rightarrow> u8 \<Rightarrow> bool" for m where
  payload: "cl_itbl (mm_world m) cl = Inr it \<Longrightarrow> it_type it \<in> {CONSTR, THUNK, CAF, FUN} \<Longrightarrow>
    i < it_size it \<Longrightarrow> bit (it_bitmap it) i \<Longrightarrow> cl_payload (mm_world m) cl (int i) = Inr c \<Longrightarrow>
    points_to m cl c"
| ind: "cl_itbl (mm_world m) cl = Inr it \<Longrightarrow> it_type it = IND \<Longrightarrow>
    cl_payload (mm_world m) cl 0 = Inr c \<Longrightarrow> points_to m cl c"
| pap_fun: "cl_itbl (mm_world m) cl = Inr it \<Longrightarrow> it_type it = PAP \<Longrightarrow>
    Objects.pap_fun (mm_world m) cl = Inr c \<Longrightarrow> points_to m cl c"
| pap_arg: "cl_itbl (mm_world m) cl = Inr it \<Longrightarrow> it_type it = PAP \<Longrightarrow>
    pap_nargs (mm_world m) cl = Inr n \<Longrightarrow> pap_pointerMask (mm_world m) cl = Inr b \<Longrightarrow>
    i < n \<Longrightarrow> bit b i \<Longrightarrow> pap_payload (mm_world m) cl i = Inr c \<Longrightarrow> points_to m cl c"

text \<open>A closure of known type whose header and pointer mask make sense.\<close>

definition closure_ok :: "mm \<Rightarrow> u8 \<Rightarrow> bool" where
  "closure_ok m cl \<longleftrightarrow> looksLikeClosure m cl = Inr True \<and>
     (\<exists>info it. cl_info (mm_world m) cl = Inr info \<and> \<not> isForwardingPointer info \<and>
        info_at (mm_world m) info = Inr it \<and>
        it_type it \<in> {CONSTR, THUNK, CAF, FUN, IND, UPDATE_FRAME, AP_CONT, PAP} \<and>
        (it_type it \<in> {CONSTR, THUNK, CAF, FUN} \<longrightarrow> bitmap_fits (it_bitmap it) (it_size it)) \<and>
        (it_type it = PAP \<longrightarrow> (\<exists>b n. pap_pointerMask (mm_world m) cl = Inr b \<and>
           pap_nargs (mm_world m) cl = Inr n \<and> bitmap_fits b n)))"

definition visited :: "mm \<Rightarrow> u8 list \<Rightarrow> u8 list \<Rightarrow> bool" where
  "visited m seen seen' \<longleftrightarrow> set seen \<subseteq> set seen' \<and>
     (\<forall>x \<in> set seen' - set seen. closure_ok m x \<and> (\<forall>c. points_to m x c \<longrightarrow> c \<in> set seen'))"

lemma visited_refl [simp]: "visited m s s"
  by (simp add: visited_def)

lemma visited_trans: "visited m s1 s2 \<Longrightarrow> visited m s2 s3 \<Longrightarrow> visited m s1 s3"
  unfolding visited_def by blast

lemma visited_step:
  assumes "visited m (cl # s) s'" and "closure_ok m cl" and "\<And>c. points_to m cl c \<Longrightarrow> c \<in> set s'"
  shows "visited m s s' \<and> cl \<in> set s'"
  using assms by (auto simp: visited_def)

lemma check_then_True:
  "check_then r f = Inr (True, y) \<longleftrightarrow> (\<exists>x. r = Inr (True, x) \<and> f x = Inr (True, y))"
  by (auto simp: check_then_def result split: if_splits)

lemma check_payload_visits:
  assumes "\<And>c s s'. f c s = Inr (True, s') \<Longrightarrow> visited m s s' \<and> c \<in> set s'"
    and "check_payload f w n b a s = Inr (True, s')"
  shows "visited m s s' \<and> (\<forall>i < n. bit b i \<longrightarrow> (\<forall>c. rd w (a + of_nat (8 * i)) = Inr c \<longrightarrow> c \<in> set s'))"
  using assms(2)
proof (induction n arbitrary: b a s)
  case (Suc n)
  show ?case
  proof (cases "b = 0")
    case True
    then show ?thesis using Suc.prems by simp
  next
    case False
    then obtain s1 where s1: "(if bit b 0 then res_bind (rd w a) (\<lambda>cl. f cl s) else Inr (True, s)) = Inr (True, s1)"
        and r: "check_payload f w n (drop_bit 1 b) (a + 8) s1 = Inr (True, s')"
      using Suc.prems by (auto simp: check_then_True and_1_bit)
    have v1: "visited m s s1" and c1: "bit b 0 \<Longrightarrow> rd w a = Inr c \<Longrightarrow> c \<in> set s1" for c
      using s1 assms(1) by (auto simp: result split: if_splits)
    note ih = Suc.IH [OF r]
    have "c \<in> set s'" if "i < Suc n" "bit b i" "rd w (a + of_nat (8 * i)) = Inr c" for i c
    proof (cases i)
      case 0
      then show ?thesis using that c1 ih by (auto simp: visited_def)
    next
      case (Suc j)
      then show ?thesis using that ih by (auto simp: bit_drop_bit_eq algebra_simps)
    qed
    then show ?thesis using visited_trans [OF v1] ih by blast
  qed
qed simp

lemma word_at_offset: "word_at cl (int i + int k) = cl + of_nat (8 * k) + of_nat (8 * i)"
  by (simp add: word_at_def algebra_simps)

lemma sanityCheckClosure_visits:
  assumes "sanityCheckClosure m fuel cl s = Inr (True, s')"
  shows "visited m s s' \<and> cl \<in> set s'"
  using assms
proof (induction fuel arbitrary: cl s s')
  case (Suc fuel)
  show ?case
  proof (cases "cl \<in> set s")
    case True
    then show ?thesis using Suc.prems by simp
  next
    case False
    let ?w = "mm_world m"
    obtain info it where l: "looksLikeClosure m cl = Inr True" and i: "cl_info ?w cl = Inr info"
        "\<not> isForwardingPointer info" "info_at ?w info = Inr it"
      using Suc.prems False by (auto simp: Let_def result split: if_splits)
    have t: "cl_itbl ?w cl = Inr it"
      using i by (simp add: cl_itbl_def)
    note P = Suc.prems False l i
    have pay: "visited m s1 s2 \<and> (\<forall>i < n. bit b i \<longrightarrow> (\<forall>c. rd ?w (a + of_nat (8 * i)) = Inr c \<longrightarrow> c \<in> set s2))"
      if "check_payload (sanityCheckClosure m fuel) ?w n b a s1 = Inr (True, s2)" for n b a s1 s2
      by (rule check_payload_visits [OF _ that]) (rule Suc.IH)
    consider (con) "it_type it \<in> {CONSTR, THUNK, CAF, FUN}" | (ind) "it_type it = IND"
      | (other) "it_type it \<in> {UPDATE_FRAME, AP_CONT}" | (pap) "it_type it = PAP"
      using P by (auto simp: Let_def split: if_splits)
    then show ?thesis
    proof cases
      case con
      then have b: "bitmap_fits (it_bitmap it) (it_size it)"
          and c: "check_payload (sanityCheckClosure m fuel) ?w (it_size it) (it_bitmap it) (cl + 8) (cl # s) = Inr (True, s')"
        using P by (auto simp: Let_def split: if_splits)
      have "c \<in> set s'" if "points_to m cl c" for c
        using that con t pay [OF c] word_at_offset [of cl _ 1]
        by cases (auto simp: cl_payload_def add.commute)
      then show ?thesis
        using pay [OF c] b con l i by (intro visited_step) (auto simp: closure_ok_def)
    next
      case ind
      then obtain c where c: "cl_payload ?w cl 0 = Inr c" "sanityCheckClosure m fuel c (cl # s) = Inr (True, s')"
        using P by (auto simp: Let_def result)
      have "c' \<in> set s'" if "points_to m cl c'" for c'
        using that ind t Suc.IH [OF c(2)] c(1) by cases auto
      then show ?thesis
        using Suc.IH [OF c(2)] ind l i by (intro visited_step) (auto simp: closure_ok_def)
    next
      case other
      then have "s' = cl # s"
        using P by (auto simp: Let_def)
      moreover have "\<not> points_to m cl c" for c
        using other t by (auto elim: points_to.cases)
      ultimately show ?thesis
        using other l i by (intro visited_step) (auto simp: closure_ok_def)
    next
      case pap
      then obtain b n fn s1 where a: "pap_pointerMask ?w cl = Inr b" "pap_nargs ?w cl = Inr n" "pap_fun ?w cl = Inr fn"
          and f: "sanityCheckClosure m fuel fn (cl # s) = Inr (True, s1)" and b: "bitmap_fits b n"
          and c: "check_payload (sanityCheckClosure m fuel) ?w n b (cl + 24) s1 = Inr (True, s')"
        using P by (auto simp: Let_def result check_then_True split: if_splits)
      have "c \<in> set s'" if "points_to m cl c" for c
        using that pap t a pay [OF c] Suc.IH [OF f] word_at_offset [of cl _ 3]
        by cases (auto simp: pap_payload_def visited_def add.commute)
      then show ?thesis
        using visited_trans [OF conjunct1 [OF Suc.IH [OF f]] conjunct1 [OF pay [OF c]]] a b pap l i
        by (intro visited_step) (auto simp: closure_ok_def)
    qed
  qed
qed simp

text \<open>
  \<^bold>\<open>C19.\<close> Soundness of the sanity checker: when \<^verbatim>\<open>sanityCheckClosure\<close> accepts a closure,
  every closure reachable from it through pointers of the heap has a valid header, a known type,
  a pointer mask that fits its size, and is not a forwarding pointer.
\<close>

theorem sanityCheckClosure_sound:
  assumes "check_closure m cl [] = Inr (True, seen)" and "(points_to m)\<^sup>*\<^sup>* cl c"
  shows "closure_ok m c"
proof -
  have v: "visited m [] seen" "cl \<in> set seen"
    using sanityCheckClosure_visits assms(1) by (auto simp: check_closure_def)
  have "c \<in> set seen"
    using assms(2) v by (induction rule: rtranclp_induct) (auto simp: visited_def)
  then show ?thesis
    using v(1) by (auto simp: visited_def)
qed

definition demo_sanity :: mm where
  "demo_sanity = mm_empty\<lparr>mm_world := \<lparr>w_mem = [0x100520 \<mapsto> 0x110000, 0x100528 \<mapsto> 0x100530, 0x100530 \<mapsto> 0x110020],
     w_infos = [0x110000 \<mapsto> \<lparr>it_bitmap = 1, it_type = CONSTR, it_size = 1, it_tagOrBitmap = 1, it_code = None\<rparr>,
       0x110020 \<mapsto> \<lparr>it_bitmap = 0, it_type = CONSTR, it_size = 0, it_tagOrBitmap = 2, it_code = None\<rparr>],
     w_code = Map.empty\<rparr>,
     mm_regions := [0x100000 \<mapsto> \<lparr>rg_type = kSmallObjectRegion, rg_link = 0, rg_blocks =
       [\<lparr>bl_start = 0x100520, bl_end = 0x108000, bl_free = 0x100538, bl_link = None, bl_flags = kClosures\<rparr>,
        \<lparr>bl_start = 0x108000, bl_end = 0x110000, bl_free = 0x108000, bl_link = None, bl_flags = kUninitialized\<rparr>,
        \<lparr>bl_start = 0x110000, bl_end = 0x118000, bl_free = 0x110040, bl_link = None, bl_flags = kInfoTables\<rparr>],
       rg_next_free = None, rg_end = 0, rg_free = 0\<rparr>]\<rparr>"

lemma demo_sanity_heap:
  "cl_info (mm_world demo_sanity) 0x100520 = Inr 0x110000"
  "cl_info (mm_world demo_sanity) 0x100530 = Inr 0x110020"
  "info_at (mm_world demo_sanity) 0x110000 =
     Inr \<lparr>it_bitmap = 1, it_type = CONSTR, it_size = 1, it_tagOrBitmap = 1, it_code = None\<rparr>"
  "info_at (mm_world demo_sanity) 0x110020 =
     Inr \<lparr>it_bitmap = 0, it_type = CONSTR, it_size = 0, it_tagOrBitmap = 2, it_code = None\<rparr>"
  "rd (mm_world demo_sanity) 0x100528 = Inr 0x100530"
  by (simp_all add: demo_sanity_def cl_info_def rd_def info_at_def)

lemma demo_sanity_region:
  "mm_regionAt demo_sanity 0x100000 = Inr \<lparr>rg_type = kSmallObjectRegion, rg_link = 0, rg_blocks =
       [\<lparr>bl_start = 0x100520, bl_end = 0x108000, bl_free = 0x100538, bl_link = None, bl_flags = kClosures\<rparr>,
        \<lparr>bl_start = 0x108000, bl_end = 0x110000, bl_free = 0x108000, bl_link = None, bl_flags = kUninitialized\<rparr>,
        \<lparr>bl_start = 0x110000, bl_end = 0x118000, bl_free = 0x110040, bl_link = None, bl_flags = kInfoTables\<rparr>],
       rg_next_free = None, rg_end = 0, rg_free = 0\<rparr>"
  by (simp add: demo_sanity_def mm_regionAt_def)

lemma demo_sanity_blocks:
  "blockFromPointer demo_sanity 0x100520 = Inr (0x100000, 0)"
  "blockFromPointer demo_sanity 0x100530 = Inr (0x100000, 0)"
  "blockFromPointer demo_sanity 0x110000 = Inr (0x100000, 2)"
  "blockFromPointer demo_sanity 0x110020 = Inr (0x100000, 2)"
  by (simp_all add: blockFromPointer_def regionFromPointer_def mm_sizes Let_def demo_sanity_region)

lemma demo_sanity_looks:
  "looksLikeClosure demo_sanity 0x100520 = Inr True"
  "looksLikeClosure demo_sanity 0x100530 = Inr True"
proof -
  have r: "regionFromPointer 0x100520 = 0x100000" "regionFromPointer 0x100530 = 0x100000"
    by (simp_all add: regionFromPointer_def mm_sizes)
  show "looksLikeClosure demo_sanity 0x100520 = Inr True" "looksLikeClosure demo_sanity 0x100530 = Inr True"
    by (simp_all add: looksLikeClosure_def r demo_sanity_region demo_sanity_blocks demo_sanity_heap
        looksLikeInfoTable_def mm_block_def bl_contents_def kClosures_def kStaticClosures_def
        kInfoTables_def kContentsMask_def)
qed

theorem sanityCheckClosure_sound_witness: "closure_ok demo_sanity 0x100530"
proof -
  obtain k :: nat where k: "2 ^ 64 = Suc k"
    by (cases "2 ^ 64 :: nat") auto
  have "check_closure demo_sanity = sanityCheckClosure demo_sanity (Suc (Suc k))"
    by (simp only: check_closure_def k)
  then have "check_closure demo_sanity 0x100520 [] = Inr (True, [0x100530, 0x100520])"
    by (simp add: Let_def demo_sanity_looks demo_sanity_heap isForwardingPointer_def bitmap_fits_def
        check_then_def)
  moreover have "points_to demo_sanity 0x100520 0x100530"
    by (rule points_to.payload [where i = 0 and it = "\<lparr>it_bitmap = 1, it_type = CONSTR, it_size = 1,
          it_tagOrBitmap = 1, it_code = None\<rparr>"])
      (simp_all add: cl_itbl_def demo_sanity_heap cl_payload_def word_at_def)
  ultimately show ?thesis
    by (intro sanityCheckClosure_sound) auto
qed

text \<open>Termination: every level of the recursion adds a new address to the set.\<close>

definition dfs_good :: "(bool \<times> u8 list) result \<Rightarrow> u8 list \<Rightarrow> bool" where
  "dfs_good r s \<longleftrightarrow> r \<noteq> Inl Diverge \<and>
     (\<forall>ok s'. r = Inr (ok, s') \<longrightarrow> distinct s' \<and> length s \<le> length s')"

lemma dfs_good_Inr [simp]: "dfs_good (Inr (ok, s')) s \<longleftrightarrow> distinct s' \<and> length s \<le> length s'"
  by (auto simp: dfs_good_def)

lemma dfs_good_mono: "dfs_good r s \<Longrightarrow> length s0 \<le> length s \<Longrightarrow> dfs_good r s0"
  by (auto simp: dfs_good_def)

lemma dfs_good_bind:
  "r \<noteq> Inl Diverge \<Longrightarrow> (\<And>x. r = Inr x \<Longrightarrow> dfs_good (f x) s) \<Longrightarrow> dfs_good (res_bind r f) s"
  by (cases r) (auto simp: dfs_good_def)

lemma dfs_good_check_then:
  assumes "dfs_good r s" and "\<And>s'. distinct s' \<Longrightarrow> length s \<le> length s' \<Longrightarrow> dfs_good (f s') s'"
  shows "dfs_good (check_then r f) s"
proof (cases r)
  case (Inl e)
  then show ?thesis using assms(1) by (simp add: check_then_def dfs_good_def)
next
  case (Inr x)
  obtain ok s' where x: "x = (ok, s')" by (cases x)
  have "distinct s'" "length s \<le> length s'"
    using assms(1) Inr x by auto
  then show ?thesis
    using dfs_good_mono [OF assms(2) [of s'], of s] Inr x by (simp add: check_then_def)
qed

lemma access_not_diverge:
  "rd w a \<noteq> Inl Diverge" "cl_info w a \<noteq> Inl Diverge" "info_at w a \<noteq> Inl Diverge"
  "cl_payload w a i \<noteq> Inl Diverge" "pap_nargs w a \<noteq> Inl Diverge" "pap_pointerMask w a \<noteq> Inl Diverge"
  "pap_fun w a \<noteq> Inl Diverge" "mm_regionAt m a \<noteq> Inl Diverge" "mm_block m b \<noteq> Inl Diverge"
  "blockFromPointer m a \<noteq> Inl Diverge"
  by (auto simp: rd_def cl_info_def info_at_def cl_payload_def pap_nargs_def pap_pointerMask_def
      pap_fun_def mm_regionAt_def mm_block_def blockFromPointer_def of_option_def result Let_def
      split: option.splits if_splits)

lemma looksLikeClosure_not_diverge: "looksLikeClosure m p \<noteq> Inl Diverge"
  using access_not_diverge
  by (auto simp: looksLikeClosure_def looksLikeInfoTable_def result split: if_splits)

lemma check_payload_good:
  assumes "\<And>c s. distinct s \<Longrightarrow> N \<le> length s \<Longrightarrow> dfs_good (f c s) s" and "distinct s" and "N \<le> length s"
  shows "dfs_good (check_payload f w n b a s) s"
  using assms(2,3)
proof (induction n arbitrary: b a s)
  case (Suc n)
  have g: "dfs_good (if b AND 1 \<noteq> 0 then res_bind (rd w a) (\<lambda>cl. f cl s) else Inr (True, s)) s"
    using Suc.prems assms(1) by (auto simp: access_not_diverge intro!: dfs_good_bind)
  have "dfs_good (check_payload f w n (drop_bit 1 b) (a + 8) s') s'"
    if "distinct s'" "length s \<le> length s'" for s'
    using Suc.IH that Suc.prems(2) by simp
  then show ?case
    using Suc.prems dfs_good_check_then [OF g] by simp
qed simp

lemma distinct_u8_length: "distinct (s :: u8 list) \<Longrightarrow> length s \<le> 2 ^ 64"
  using card_mono [of "UNIV :: u8 set" "set s"] distinct_card [of s] by (simp add: card_word)

lemma sanityCheckClosure_good:
  assumes "distinct s" and "2 ^ 64 < fuel + length s"
  shows "dfs_good (sanityCheckClosure m fuel cl s) s"
  using assms
proof (induction fuel arbitrary: cl s)
  case 0
  then show ?case using distinct_u8_length [of s] by simp
next
  case (Suc fuel)
  show ?case
  proof (cases "cl \<in> set s")
    case True
    then show ?thesis using Suc.prems by simp
  next
    case False
    then have d: "distinct (cl # s)" using Suc.prems by simp
    let ?N = "Suc (length s)"
    have ih: "dfs_good (sanityCheckClosure m fuel c s1) s1" if "distinct s1" "?N \<le> length s1" for c s1
      using Suc.IH that Suc.prems(2) by simp
    note pay = check_payload_good [where f = "sanityCheckClosure m fuel" and N = ?N, OF ih]
    have p1: "dfs_good (check_payload (sanityCheckClosure m fuel) w n b a (cl # s)) s" for w n b a
      by (rule dfs_good_mono [OF pay]) (use d in auto)
    have i1: "dfs_good (sanityCheckClosure m fuel c (cl # s)) (cl # s)" for c
      using ih [OF d] by simp
    have p2: "dfs_good (check_then (sanityCheckClosure m fuel fn (cl # s)) (\<lambda>seen.
        if \<not> bitmap_fits bm n then Inr (False, seen)
        else check_payload (sanityCheckClosure m fuel) w n bm a seen)) s" for fn bm n w a
      by (rule dfs_good_mono [OF dfs_good_check_then [OF i1]]) (auto intro!: pay)
    show ?thesis
      using False d p1 p2 dfs_good_mono [OF i1, of s]
      by (auto simp: Let_def access_not_diverge looksLikeClosure_not_diverge intro!: dfs_good_bind)
  qed
qed

text \<open>
  \<^bold>\<open>C22.\<close> The sanity checker terminates on every heap, cyclic ones included: the recursion is
  never deeper than the number of addresses, because each level has added a closure to the set of
  visited ones.
\<close>

theorem sanityCheckClosure_terminates:
  "sanityCheckClosure m (Suc (2 ^ 64)) cl [] \<noteq> Inl Diverge"
  using sanityCheckClosure_good [of "[]" "Suc (2 ^ 64)" m cl] by (simp add: dfs_good_def)
end
