(* ===== verification/MiscClosures.thy ===== *)
theory MiscClosures
  imports GC
begin

text \<open>
  The closures the runtime builds for itself (\<^verbatim>\<open>src/vm/miscclosures.hh\<close> and
  \<^verbatim>\<open>src/vm/miscclosures.cc\<close>): the stop, black hole and update closures, the info tables of
  indirections, byte arrays and partial applications, and the tables of application
  continuations and application thunks, which are built per number of arguments and pointer
  mask.  Their code and liveness bitmaps are written into the code area.

  The static members of the class are the record \<open>misc\<close>.  Names of info tables are only
  allocated, not represented.
\<close>

section \<open>State\<close>

record misc =
  stg_UPD_closure_addr :: u8
  stg_UPD_return_pc :: u8
  stg_STOP_closure_addr :: u8
  stg_BLACKHOLE_closure_addr :: u8
  stg_IND_info :: u8
  stg_PAP_info :: u8
  stg_BYTEARR_info :: u8
  smallApConts :: "nat \<rightharpoonup> u8 \<times> u8"
  otherApConts :: "u4 \<rightharpoonup> u8 \<times> u8"
  smallApInfos :: "nat \<rightharpoonup> u8"
  otherApInfos :: "u4 \<rightharpoonup> u8"

definition misc_reset :: misc where
  "misc_reset = \<lparr>stg_UPD_closure_addr = 0, stg_UPD_return_pc = 0, stg_STOP_closure_addr = 0,
     stg_BLACKHOLE_closure_addr = 0, stg_IND_info = 0, stg_PAP_info = 0, stg_BYTEARR_info = 0,
     smallApConts = Map.empty, otherApConts = Map.empty, smallApInfos = Map.empty,
     otherApInfos = Map.empty\<rparr>"

definition UPD_frame_size :: nat where "UPD_frame_size = 2"
definition kMaxSmallArity :: nat where "kMaxSmallArity = 4"

definition apContFrameSize :: "nat \<Rightarrow> nat" where
  "apContFrameSize nargs = nargs + 1"

definition apContIndex :: "nat \<Rightarrow> u4 \<Rightarrow> u4" where
  "apContIndex nargs pointerMask = push_bit nargs 1 - 2 + pointerMask"

section \<open>Bitmasks\<close>

definition bitmapSize :: "u4 \<Rightarrow> nat" where
  "bitmapSize bitmap =
     (if bitmap < push_bit 15 1 then 1 else if bitmap < push_bit 30 1 then 2 else 3)"

definition BITMASK_MASK :: u4 where "BITMASK_MASK = push_bit 15 1 - 1"
definition BITMASK_CONT :: u4 where "BITMASK_CONT = push_bit 15 1"

text \<open>The loop of \<^verbatim>\<open>encodeBitmask\<close>: the half words written, with \<open>n\<close> still to write.\<close>

fun encode_loop :: "nat \<Rightarrow> u4 \<Rightarrow> u2 list" where
  "encode_loop 0 bitmap = []"
| "encode_loop (Suc n) bitmap =
     (let x = ucast (bitmap AND BITMASK_MASK) :: u2
      in (if n > 0 then x OR ucast BITMASK_CONT else x) # encode_loop n (drop_bit 15 bitmap))"

definition encodeBitmask :: "u4 \<Rightarrow> u2 list" where
  "encodeBitmask bitmap = encode_loop (bitmapSize bitmap) bitmap"

definition formatBitmap :: "nat \<Rightarrow> u4 \<Rightarrow> string" where
  "formatBitmap nargs pointerMask =
     map (\<lambda>i. if bit pointerMask i then CHR ''p'' else CHR ''n'') [0..<min nargs 32]"

definition decimal2 :: "nat \<Rightarrow> string" where
  "decimal2 n =
     (if n < 10 then [char_of (48 + n)] else [char_of (48 + n div 10), char_of (48 + n mod 10)])"

definition ap_name :: "string \<Rightarrow> nat \<Rightarrow> u4 \<Rightarrow> string" where
  "ap_name prefix nargs pointerMask =
     prefix @ decimal2 nargs @ ''_'' @ formatBitmap nargs pointerMask @ ''`info''"

section \<open>Writing code and info tables\<close>

definition wr_u2s :: "u8 \<Rightarrow> u2 list \<Rightarrow> world \<Rightarrow> world" where
  "wr_u2s a hs w =
     w\<lparr>w_code := fold (\<lambda>(i, h) c. c(a + of_nat (2 * i) \<mapsto> h)) (enumerate 0 hs) (w_code w)\<rparr>"

definition ins_halves :: "bcins \<Rightarrow> u2 list" where
  "ins_halves i = [ucast i, ucast (drop_bit 16 i)]"

definition wr_code :: "u8 \<Rightarrow> bcins list \<Rightarrow> u2 list \<Rightarrow> world \<Rightarrow> world" where
  "wr_code code ins bitmasks w = wr_u2s code (concat (map ins_halves ins) @ bitmasks) w"

definition mm_mapW :: "(world \<Rightarrow> world) \<Rightarrow> mm \<Rightarrow> mm" where
  "mm_mapW f m = m\<lparr>mm_world := f (mm_world m)\<rparr>"

definition wordsof_InfoTable :: nat where "wordsof_InfoTable = 2"
definition wordsof_CodeInfoTable :: nat where "wordsof_CodeInfoTable = 6"

definition with_handle :: "os \<Rightarrow> (mm \<Rightarrow> 'a mm_result) \<Rightarrow> mm \<Rightarrow> 'a mm_result" where
  "with_handle os f m =
     res_bind (beginAllocInfoTable os m) (\<lambda>(_, m).
     res_bind (f m) (\<lambda>(x, m).
     res_bind (endAllocInfoTable os m) (\<lambda>(_, m). Inr (x, m))))"

definition new_info :: "os \<Rightarrow> closure_type \<Rightarrow> nat \<Rightarrow> u2 \<Rightarrow> u4 \<Rightarrow> mm \<Rightarrow> u8 mm_result" where
  "new_info os ty sz tag bitmap m =
     res_bind (allocInfoTable os (of_nat wordsof_InfoTable) m) (\<lambda>(info, m).
       Inr (info, mm_mapW (\<lambda>w. w\<lparr>w_infos := (w_infos w)(info \<mapsto>
         \<lparr>it_bitmap = bitmap, it_type = ty, it_size = sz, it_tagOrBitmap = tag, it_code = None\<rparr>)\<rparr>) m))"

text \<open>
  An info table with code: \<open>body\<close> computes the instructions from the address of the code, so
  that offsets to the bitmasks, which follow the code, can be computed.  \<open>name\<close> is the string
  that is allocated for the name of the table, if any.
\<close>

definition new_code_info ::
  "os \<Rightarrow> closure_type \<Rightarrow> nat \<Rightarrow> u2 \<Rightarrow> u4 \<Rightarrow> string option \<Rightarrow> nat \<Rightarrow> nat \<Rightarrow> bcins list \<Rightarrow> u2 list \<Rightarrow>
    mm \<Rightarrow> (u8 \<times> u8) mm_result" where
  "new_code_info os ty sz tag bitmap name framesize arity ins bitmasks m =
     res_bind (allocInfoTable os (of_nat wordsof_CodeInfoTable) m) (\<lambda>(info, m).
     res_bind (case name of
                 None \<Rightarrow> Inr ((), m)
               | Some s \<Rightarrow> res_bind (allocString os (of_nat (length s)) m) (\<lambda>(_, m). Inr ((), m)))
       (\<lambda>(_, m).
     res_bind (allocCode os (of_nat (length ins)) (of_nat (length bitmasks)) m) (\<lambda>(code, m).
       let c = \<lparr>c_framesize = framesize, c_arity = arity, c_sizecode = length ins, c_sizelits = 0,
                c_sizebitmaps = length bitmasks, c_lits = [], c_littypes = [], c_code = code\<rparr>;
           it = \<lparr>it_bitmap = bitmap, it_type = ty, it_size = sz, it_tagOrBitmap = tag,
                 it_code = Some c\<rparr>
       in Inr ((info, code), mm_mapW (\<lambda>w.
            wr_code code ins bitmasks (w\<lparr>w_infos := (w_infos w)(info \<mapsto> it)\<rparr>)) m))))"

definition new_static :: "os \<Rightarrow> u8 \<Rightarrow> mm \<Rightarrow> u8 mm_result" where
  "new_static os info m =
     res_bind (allocStaticClosure os 0 m) (\<lambda>(cl, m).
     res_bind (mm_liftW (cl_setInfo cl info) m) (\<lambda>m. Inr (cl, m)))"

text \<open>\<^verbatim>\<open>byteOffset32(&code[i], bitmasks)\<close>, where the bitmasks follow \<open>n\<close> instructions.\<close>

definition bitmask_offset :: "nat \<Rightarrow> nat \<Rightarrow> bcins" where
  "bitmask_offset i n = of_nat (4 * (n - i))"

section \<open>The fixed closures\<close>

definition initStopClosure :: "os \<Rightarrow> misc \<Rightarrow> mm \<Rightarrow> misc mm_result" where
  "initStopClosure os mc =
     with_handle os (\<lambda>m.
       res_bind (new_code_info os FUN 1 0 0 None 2 1
                   [bc_ad EVAL 0 0, bitmask_offset 1 3, bc_ad STOP 0 0] [0, 0] m) (\<lambda>((info, _), m).
       res_bind (new_static os info m) (\<lambda>(cl, m). Inr (mc\<lparr>stg_STOP_closure_addr := cl\<rparr>, m))))"

definition initBlackholeClosure :: "os \<Rightarrow> misc \<Rightarrow> mm \<Rightarrow> misc mm_result" where
  "initBlackholeClosure os mc =
     with_handle os (\<lambda>m.
       res_bind (new_code_info os BLACKHOLE 1 0 0 None 1 0 [bc_ad STOP 1 0] [] m) (\<lambda>((info, _), m).
       res_bind (new_static os info m) (\<lambda>(cl, m). Inr (mc\<lparr>stg_BLACKHOLE_closure_addr := cl\<rparr>, m))))"

definition initUpdateClosure :: "os \<Rightarrow> misc \<Rightarrow> mm \<Rightarrow> misc mm_result" where
  "initUpdateClosure os mc =
     with_handle os (\<lambda>m.
       res_bind (new_code_info os UPDATE_FRAME 2 0 0 None 2 1
                   [bc_ad EVAL 0 0, bitmask_offset 1 5, bc_ad MOV_RES 1 0, bc_ad UPDATE 0 1,
                    bc_ad IRET 1 0] [1, 1] m) (\<lambda>((info, code), m).
       res_bind (new_static os info m) (\<lambda>(cl, m).
         Inr (mc\<lparr>stg_UPD_return_pc := code + 8, stg_UPD_closure_addr := cl\<rparr>, m))))"

definition initByteArrInfo :: "os \<Rightarrow> misc \<Rightarrow> mm \<Rightarrow> misc mm_result" where
  "initByteArrInfo os mc =
     with_handle os (\<lambda>m. res_bind (new_info os LARGE 0 0 0 m) (\<lambda>(i, m). Inr (mc\<lparr>stg_BYTEARR_info := i\<rparr>, m)))"

definition initIndirectionItbl :: "os \<Rightarrow> misc \<Rightarrow> mm \<Rightarrow> misc mm_result" where
  "initIndirectionItbl os mc =
     with_handle os (\<lambda>m. res_bind (new_info os IND 1 1 1 m) (\<lambda>(i, m). Inr (mc\<lparr>stg_IND_info := i\<rparr>, m)))"

definition initPapItbl :: "os \<Rightarrow> misc \<Rightarrow> mm \<Rightarrow> misc mm_result" where
  "initPapItbl os mc =
     with_handle os (\<lambda>m.
       res_bind (new_code_info os PAP 0 0 0 None 1 0 [bc_ad FUNCPAP 0 0] [] m) (\<lambda>((info, _), m).
         Inr (mc\<lparr>stg_PAP_info := info\<rparr>, m)))"

section \<open>Application continuations\<close>

text \<open>
  Code of the continuation for \<open>nargs\<close> arguments.  \<^verbatim>\<open>1ul << nargs\<close> and the comparison are on
  values below \<open>2^32\<close> because of the first assertion.
\<close>

definition apcont_code :: "nat \<Rightarrow> u4 \<Rightarrow> bcins list" where
  "apcont_code nargs pointerMask =
     [bc_ad IFUNC (of_nat (nargs + 1)) 0, bc_ad EVAL (of_nat nargs) 0, bitmask_offset 2 6,
      bc_ad MOV_RES (of_nat nargs) 0, bc_abc CALLT (of_nat nargs) 0xff (of_nat nargs), pointerMask]"

definition apcont_livemask :: "nat \<Rightarrow> u4" where
  "apcont_livemask nargs = push_bit nargs 1 - 1"

definition buildApCont :: "os \<Rightarrow> nat \<Rightarrow> u4 \<Rightarrow> mm \<Rightarrow> (u8 \<times> u8) mm_result" where
  "buildApCont os nargs pointerMask m =
     res_bind (lc_assert (nargs < 32)) (\<lambda>_.
     res_bind (lc_assert (pointerMask < push_bit nargs 1)) (\<lambda>_.
       with_handle os (\<lambda>m.
         res_bind (new_code_info os AP_CONT 0 0 0 (Some (ap_name ''ApK'' nargs pointerMask))
                     (nargs + 1) 1 (apcont_code nargs pointerMask)
                     (encodeBitmask pointerMask @ encodeBitmask (apcont_livemask nargs)) m)
           (\<lambda>((info, code), m).
         res_bind (lc_assert (nargs \<le> 8)) (\<lambda>_.
         res_bind (new_static os info m) (\<lambda>(cl, m). Inr ((cl, code + 12), m))))) m))"

text \<open>All pairs of a number of arguments and a pointer mask, in the order of the two loops.\<close>

definition small_args :: "(nat \<times> u4) list" where
  "small_args = concat (map (\<lambda>n. map (\<lambda>p. (n, of_nat p)) [0..<2 ^ n]) [1..<Suc kMaxSmallArity])"

fun build_conts :: "os \<Rightarrow> (nat \<times> u4) list \<Rightarrow> misc \<Rightarrow> mm \<Rightarrow> misc mm_result" where
  "build_conts os [] mc m = Inr (mc, m)"
| "build_conts os ((n, p) # args) mc m =
     res_bind (buildApCont os n p m) (\<lambda>(ac, m).
       build_conts os args (mc\<lparr>smallApConts := (smallApConts mc)(unat (apContIndex n p) \<mapsto> ac)\<rparr>) m)"

definition initApConts :: "os \<Rightarrow> misc \<Rightarrow> mm \<Rightarrow> misc mm_result" where
  "initApConts os mc m =
     res_bind (build_conts os small_args mc m) (\<lambda>(mc, m). Inr (mc\<lparr>otherApConts := Map.empty\<rparr>, m))"

definition getApCont :: "os \<Rightarrow> nat \<Rightarrow> u4 \<Rightarrow> misc \<Rightarrow> mm \<Rightarrow> ((u8 \<times> u8) \<times> misc) mm_result" where
  "getApCont os nargs pointerMask mc m =
     res_bind (lc_assert (nargs > 0)) (\<lambda>_.
       let index = apContIndex nargs pointerMask
       in if nargs \<le> kMaxSmallArity
          then res_bind (of_option BadAccess (smallApConts mc (unat index))) (\<lambda>ac. Inr ((ac, mc), m))
          else case otherApConts mc index of
                 Some ac \<Rightarrow> Inr ((ac, mc), m)
               | None \<Rightarrow>
                   res_bind (buildApCont os nargs pointerMask m) (\<lambda>(ac, m).
                     Inr ((ac, mc\<lparr>otherApConts := (otherApConts mc)(index \<mapsto> ac)\<rparr>), m)))"

section \<open>Application thunks\<close>

definition apinfo_code :: "nat \<Rightarrow> u4 \<Rightarrow> bcins list" where
  "apinfo_code nargs pointerMask =
     [bc_ad IFUNC (of_nat (1 + nargs)) 0, bc_ad LOADFV (of_nat nargs) 1] @
     map (\<lambda>i. bc_ad LOADFV (of_nat i) (of_nat (i + 2))) [0..<nargs] @
     [bc_abc CALLT (of_nat nargs) 0xff (of_nat nargs), pointerMask]"

definition buildApInfo :: "os \<Rightarrow> nat \<Rightarrow> u4 \<Rightarrow> mm \<Rightarrow> u8 mm_result" where
  "buildApInfo os nargs pointerMask m =
     res_bind (lc_assert (nargs \<le> 8)) (\<lambda>_.
       with_handle os (\<lambda>m.
         res_bind (new_code_info os THUNK (1 + nargs) (ucast (push_bit 1 pointerMask OR 1))
                     (push_bit 1 pointerMask OR 1) (Some (ap_name ''Ap'' nargs pointerMask))
                     (1 + nargs) 0 (apinfo_code nargs pointerMask) [] m)
           (\<lambda>((info, _), m). Inr (info, m))) m)"

fun build_infos :: "os \<Rightarrow> (nat \<times> u4) list \<Rightarrow> misc \<Rightarrow> mm \<Rightarrow> misc mm_result" where
  "build_infos os [] mc m = Inr (mc, m)"
| "build_infos os ((n, p) # args) mc m =
     res_bind (buildApInfo os n p m) (\<lambda>(info, m).
       build_infos os args (mc\<lparr>smallApInfos := (smallApInfos mc)(unat (apContIndex n p) \<mapsto> info)\<rparr>) m)"

definition initApInfos :: "os \<Rightarrow> misc \<Rightarrow> mm \<Rightarrow> misc mm_result" where
  "initApInfos os mc m =
     res_bind (build_infos os small_args mc m) (\<lambda>(mc, m). Inr (mc\<lparr>otherApInfos := Map.empty\<rparr>, m))"

text \<open>\<^verbatim>\<open>operator[]\<close> of the hash map inserts a null pointer for a missing key.\<close>

definition getApInfo :: "os \<Rightarrow> nat \<Rightarrow> u4 \<Rightarrow> misc \<Rightarrow> mm \<Rightarrow> (u8 \<times> misc) mm_result" where
  "getApInfo os nargs pointerMask mc m =
     (let index = apContIndex nargs pointerMask
      in if nargs \<le> kMaxSmallArity
         then res_bind (of_option BadAccess (smallApInfos mc (unat index))) (\<lambda>i. Inr ((i, mc), m))
         else
           let mc = (if otherApInfos mc index = None
                     then mc\<lparr>otherApInfos := (otherApInfos mc)(index \<mapsto> 0)\<rparr> else mc);
               itbl = (case otherApInfos mc index of Some i \<Rightarrow> i | None \<Rightarrow> 0)
           in if itbl \<noteq> 0 then Inr ((itbl, mc), m)
              else
                res_bind (buildApInfo os nargs pointerMask m) (\<lambda>(itbl, m).
                res_bind (lc_assert (itbl \<noteq> 0)) (\<lambda>_.
                  Inr ((itbl, mc\<lparr>otherApInfos := (otherApInfos mc)(index \<mapsto> itbl)\<rparr>), m))))"

definition misc_init :: "os \<Rightarrow> misc \<Rightarrow> mm \<Rightarrow> misc mm_result" where
  "misc_init os mc =
     with_handle os (\<lambda>m.
       res_bind (initStopClosure os mc m) (\<lambda>(mc, m).
       res_bind (initBlackholeClosure os mc m) (\<lambda>(mc, m).
       res_bind (initByteArrInfo os mc m) (\<lambda>(mc, m).
       res_bind (initUpdateClosure os mc m) (\<lambda>(mc, m).
       res_bind (initIndirectionItbl os mc m) (\<lambda>(mc, m).
       res_bind (initApConts os mc m) (\<lambda>(mc, m).
       res_bind (initPapItbl os mc m) (\<lambda>(mc, m). initApInfos os mc m))))))))"

section \<open>Bitmask encoding\<close>

lemma bit_BITMASK_CONT: "bit BITMASK_CONT i \<longleftrightarrow> i = 15"
  unfolding BITMASK_CONT_def bit_push_bit_iff bit_1_iff by auto

lemma unat_push_bit_1: "n < 32 \<Longrightarrow> unat (push_bit n 1 :: u4) = 2 ^ n"
proof -
  assume "n < 32"
  then have "(2::nat) ^ n < 2 ^ 32" by (intro power_strict_increasing) auto
  moreover have "(push_bit n 1 :: u4) = of_nat (2 ^ n)" by (simp add: push_bit_eq_mult)
  ultimately show ?thesis by (simp only:) (rule unat_of_nat_small, simp)
qed

lemma encode_word: "ucast (b AND BITMASK_MASK) = (ucast (take_bit 15 b) :: u2)"
  by (simp only: BITMASK_MASK_def push_bit_minus_1 take_bit_eq_mask)

lemma encode_loop_decode:
  assumes "\<And>i. 15 * n \<le> i \<Longrightarrow> \<not> bit b i" and "0 < n"
  shows "decode_masks (encode_loop n b) k = map (\<lambda>i. k + i) (filter (bit b) [0..<15 * n]) \<and>
    masks_end (encode_loop n b) \<and> length (encode_loop n b) = n"
  using assms
proof (induction n arbitrary: b k)
  case (Suc n)
  let ?x = "ucast (take_bit 15 b) :: u2"
  let ?y = "if n > 0 then ?x OR ucast BITMASK_CONT else ?x"
  have e: "encode_loop (Suc n) b = ?y # encode_loop n (drop_bit 15 b)"
    by (simp add: Let_def encode_word)
  have y: "bit ?y i \<longleftrightarrow> (i < 15 \<and> bit b i) \<or> (i = 15 \<and> n > 0)" for i
    by (cases "n > 0") (auto simp: bit_or_iff bit_BITMASK_CONT bit_ucast_iff bit_take_bit_iff)
  have s: "mask_slots ?y k 15 = map (\<lambda>i. k + i) (filter (bit b) [0..<15])"
    unfolding mask_slots_def using y by (intro arg_cong [where f = "map _"] filter_cong) auto
  show ?case
  proof (cases "n = 0")
    case True
    then show ?thesis
      using e s y [of 15] by (simp del: encode_loop.simps(2))
  next
    case False
    have ih: "decode_masks (encode_loop n (drop_bit 15 b)) (k + 15) =
        map (\<lambda>i. k + 15 + i) (filter (bit (drop_bit 15 b)) [0..<15 * n]) \<and>
        masks_end (encode_loop n (drop_bit 15 b)) \<and> length (encode_loop n (drop_bit 15 b)) = n"
      by (rule Suc.IH) (use Suc.prems False in \<open>auto simp: bit_drop_bit_eq\<close>)
    have "[0..<15 * Suc n] = [0..<15] @ map (\<lambda>i. 15 + i) [0..<15 * n]"
      using upt_add_eq_append [of 0 15 "15 * n"] map_add_upt [of 15 "15 * n"] by (simp add: add.commute)
    then have "filter (bit b) [0..<15 * Suc n] =
        filter (bit b) [0..<15] @ map (\<lambda>i. 15 + i) (filter (bit (drop_bit 15 b)) [0..<15 * n])"
      by (simp add: filter_map o_def bit_drop_bit_eq)
    then show ?thesis
      unfolding e using ih s y [of 15] False by (auto simp: o_def add.assoc)
  qed
qed simp

lemma bitmapSize_bits: "15 * bitmapSize b \<le> i \<Longrightarrow> \<not> bit b i" and bitmapSize_pos: "0 < bitmapSize b"
proof -
  have lt: "\<not> bit b i" if "b < push_bit n 1" "n \<le> i" "n < 32" for n i
  proof -
    have "unat b < 2 ^ n"
      using that(1) unat_push_bit_1 [OF that(3)] by (simp add: word_less_nat_alt)
    then have "take_bit n (unat b) = unat b"
      by (rule take_bit_nat_eq_self)
    then have "\<not> bit (unat b) i"
      using that(2) by (metis bit_take_bit_iff leD)
    then show ?thesis
      using bit_imp_le_length [of b i] by (auto simp: bit_unsigned_iff)
  qed
  show "15 * bitmapSize b \<le> i \<Longrightarrow> \<not> bit b i"
    using lt [of 15 i] lt [of 30 i] bit_imp_le_length [of b i]
    by (auto simp: bitmapSize_def split: if_splits)
  show "0 < bitmapSize b"
    by (simp add: bitmapSize_def)
qed

lemma bitmapSize_le: "bitmapSize b \<le> 3"
  by (simp add: bitmapSize_def)

lemma encodeBitmask_decode:
  "decode_masks (encodeBitmask b) 0 = filter (bit b) [0..<32] \<and> masks_end (encodeBitmask b) \<and>
   length (encodeBitmask b) = bitmapSize b"
proof -
  let ?n = "15 * bitmapSize b"
  note E = encode_loop_decode [of "bitmapSize b" b 0, OF bitmapSize_bits bitmapSize_pos]
  have "filter (bit b) [0..<?n] = filter (bit b) [0..<32]"
  proof (cases "?n \<le> 32")
    case True
    then have "[0..<32] = [0..<?n] @ [?n..<32]"
      using upt_add_eq_append [of 0 ?n "32 - ?n"] by simp
    then show ?thesis
      using bitmapSize_bits [of b] by (simp add: no_bits_filter del: upt_Suc)
  next
    case False
    then have "[0..<?n] = [0..<32] @ [32..<?n]"
      using upt_add_eq_append [of 0 32 "?n - 32"] by simp
    moreover have "filter (bit b) [32..<?n] = []"
      by (rule no_bits_filter) (use bit_imp_le_length [of b] in force)
    ultimately show ?thesis
      by (simp del: upt_Suc)
  qed
  then show ?thesis
    using E by (simp add: encodeBitmask_def)
qed

text \<open>
  \<^bold>\<open>C33.\<close> The collector reads what \<^verbatim>\<open>encodeBitmask\<close> writes: for every 32 bit mask, decoding its
  encoding into half words with continuation bits yields exactly the set bits of the mask, the
  encoding is properly terminated, and it has the length \<^verbatim>\<open>bitmapSize\<close> announces.
\<close>

theorem encodeBitmask_roundtrip:
  "decode_masks (encodeBitmask b) 0 = filter (bit b) [0..<32] \<and> masks_end (encodeBitmask b) \<and>
   length (encodeBitmask b) = bitmapSize b"
  by (rule encodeBitmask_decode)

section \<open>Table indices\<close>

lemma unat_apContIndex:
  assumes "0 < n" and "n < 32" and "p < push_bit n 1"
  shows "unat (apContIndex n p) = 2 ^ n - 2 + unat p" and "unat p < 2 ^ n"
proof -
  have u: "unat (push_bit n 1 :: u4) = 2 ^ n"
    using assms(2) by (rule unat_push_bit_1)
  show p: "unat p < 2 ^ n"
    using assms(3) u by (simp add: word_less_nat_alt)
  have two: "(2::nat) \<le> 2 ^ n"
    using assms(1) by (metis One_nat_def Suc_leI one_le_numeral power_increasing power_one_right)
  have "unat (push_bit n 1 - 2 :: u4) = 2 ^ n - 2"
    using u two by (simp add: unat_sub word_le_nat_alt)
  moreover have "2 ^ n - 2 + unat p < (2::nat) ^ 32"
  proof -
    have "(2::nat) ^ n \<le> 2 ^ 31"
      using assms(2) by (intro power_increasing) auto
    then show ?thesis using p two by simp
  qed
  ultimately show "unat (apContIndex n p) = 2 ^ n - 2 + unat p"
    unfolding apContIndex_def by (simp add: unat_word_ariths)
qed

text \<open>
  \<^bold>\<open>C38.\<close> The index of an application continuation determines its number of arguments and its
  pointer mask, and the tables for small arities, with 30 entries, are large enough: no two
  continuations share an entry.
\<close>

theorem apContIndex_injective:
  assumes "0 < n" and "n < 32" and "p < push_bit n 1"
    and "0 < n'" and "n' < 32" and "p' < push_bit n' 1"
  shows "(apContIndex n p = apContIndex n' p' \<longleftrightarrow> n = n' \<and> p = p') \<and>
    (n \<le> kMaxSmallArity \<longrightarrow> apContIndex n p < apContIndex (kMaxSmallArity + 1) 0)"
proof -
  note U = unat_apContIndex [OF assms(1-3)] and U' = unat_apContIndex [OF assms(4-6)]
  have lt: False if "a < b" "2 ^ a - 2 + x = (2::nat) ^ b - 2 + y" "x < 2 ^ a" "0 < a" for a b x y :: nat
  proof -
    have "(2::nat) ^ (a + 1) \<le> 2 ^ b"
      using that(1) by (intro power_increasing) auto
    then have "2 ^ a + 2 ^ a \<le> (2::nat) ^ b" by simp
    moreover have "(2::nat) \<le> 2 ^ a"
      using that(4) by (metis One_nat_def Suc_leI one_le_numeral power_increasing power_one_right)
    ultimately show False using that(2,3) by linarith
  qed
  have "n = n' \<and> p = p'" if "apContIndex n p = apContIndex n' p'"
  proof -
    have e: "2 ^ n - 2 + unat p = 2 ^ n' - 2 + unat p'"
      using U(1) U'(1) that by simp
    then have "n = n'"
      using lt [of n n' "unat p" "unat p'"] lt [of n' n "unat p'" "unat p"] U(2) U'(2) assms(1,4)
      by (metis linorder_neqE_nat)
    then show ?thesis using e by (simp add: word_unat_eq_iff)
  qed
  moreover have "apContIndex n p < apContIndex (kMaxSmallArity + 1) 0" if "n \<le> kMaxSmallArity"
  proof -
    have "unat (apContIndex (kMaxSmallArity + 1) 0) = 30"
      by (simp add: apContIndex_def kMaxSmallArity_def push_bit_eq_mult)
    moreover have "(2::nat) ^ n \<le> 2 ^ 4"
      using that by (intro power_increasing) (auto simp: kMaxSmallArity_def)
    ultimately show ?thesis
      using U by (simp add: word_less_nat_alt)
  qed
  ultimately show ?thesis by blast
qed

theorem apContIndex_injective_witness:
  "apContIndex 2 3 \<noteq> apContIndex 3 1 \<and> apContIndex 2 3 < apContIndex (kMaxSmallArity + 1) 0"
  using apContIndex_injective [of 2 3 3 1] by (simp add: kMaxSmallArity_def push_bit_eq_mult)

section \<open>Code memory\<close>

text \<open>Allocation and writes to the heap do not touch code memory.\<close>

abbreviation code_of :: "mm \<Rightarrow> u8 \<rightharpoonup> u2" where
  "code_of m \<equiv> w_code (mm_world m)"

lemma newRegion_code: "newRegion os ty m = Inr (r, m') \<Longrightarrow> code_of m' = code_of m"
  by (auto simp: newRegion_def Let_def result mm_setRegion_def map_zero_def)

lemma rg_grabFreeBlock_code: "rg_grabFreeBlock r m = Inr (b, m') \<Longrightarrow> code_of m' = code_of m"
  by (auto simp: rg_grabFreeBlock_def result mm_setRegion_def split: option.splits)

lemma mm_updBlock_code: "mm_updBlock b f m = Inr m' \<Longrightarrow> code_of m' = code_of m"
  by (auto simp: mm_updBlock_def result)

lemma grabFreeBlock_code: "grabFreeBlock os flags m = Inr (b, m') \<Longrightarrow> code_of m' = code_of m"
  by (auto simp: grabFreeBlock_def result Let_def mm_setRegion_def split: option.splits
      dest!: newRegion_code rg_grabFreeBlock_code mm_updBlock_code)

lemma blockFull_code: "blockFull os a m = Inr (u, m') \<Longrightarrow> code_of m' = code_of m"
  by (auto simp: blockFull_def result dest!: grabFreeBlock_code mm_updBlock_code)

lemma allocInto_code:
  assumes "allocInto os a bytes m = Inr (p, m')"
  shows "code_of m' = code_of m"
proof -
  have "allocInto_loop os fuel a bytes m = Inr (p, m') \<Longrightarrow> code_of m' = code_of m" for fuel
  proof (induction fuel arbitrary: m)
    case (Suc fuel)
    then obtain bl where b: "mm_block m (mm_area m a) = Inr bl" by (auto simp: result)
    obtain q bl' where q: "bl_alloc bytes bl = (q, bl')" by (cases "bl_alloc bytes bl")
    show ?case
    proof (cases "q = 0")
      case True
      then obtain u m2 where "blockFull os a (mm_setBlock (mm_area m a) bl' m) = Inr (u, m2)"
          "allocInto_loop os fuel a bytes m2 = Inr (p, m')"
        using Suc.prems b q by (auto simp: Let_def result)
      then show ?thesis using Suc.IH [of m2] by (auto dest!: blockFull_code)
    next
      case False
      then show ?thesis using Suc.prems b q by (auto simp: Let_def)
    qed
  qed simp
  then show ?thesis using assms by (simp add: allocInto_def)
qed

lemma new_static_code: "new_static os info m = Inr (cl, m') \<Longrightarrow> code_of m' = code_of m"
  by (auto simp: new_static_def result mm_liftW_def allocStaticClosure_def cl_setInfo_def
      dest!: allocInto_code wr_frame)

lemma endAllocInfoTable_code: "endAllocInfoTable os m = Inr (u, m') \<Longrightarrow> code_of m' = code_of m"
  by (auto simp: endAllocInfoTable_def result Let_def)

lemma fold_code_writes:
  fixes c :: "u8 \<rightharpoonup> u2"
  assumes "i < length hs" and "k + length hs < 2 ^ 62"
  shows "fold (\<lambda>(i, h) c. c(a + of_nat (2 * i) \<mapsto> h)) (enumerate k hs) c (a + of_nat (2 * (k + i))) = Some (hs ! i)"
  using assms
proof (induction hs arbitrary: k i c rule: rev_induct)
  case (snoc h hs)
  show ?case
  proof (cases "i = length hs")
    case True
    then show ?thesis by (simp add: enumerate_append_eq)
  next
    case False
    then have i: "i < length hs" using snoc.prems by simp
    have "(of_nat (2 * (k + i)) :: u8) \<noteq> of_nat (2 * (k + length hs))"
    proof
      assume "(of_nat (2 * (k + i)) :: u8) = of_nat (2 * (k + length hs))"
      then have "unat (of_nat (2 * (k + i)) :: u8) = unat (of_nat (2 * (k + length hs)) :: u8)" by simp
      moreover have "2 * (k + i) < 2 ^ 64" "2 * (k + length hs) < 2 ^ 64"
        using snoc.prems by simp_all
      ultimately show False
        using i by (simp add: unat_of_nat_small del: of_nat_add of_nat_mult)
    qed
    then show ?thesis
      using snoc.IH [OF i, of k c] snoc.prems i by (simp add: enumerate_append_eq nth_append)
  qed
qed simp

lemma wr_code_read:
  assumes "i < length (concat (map ins_halves ins) @ bm)"
    and "length (concat (map ins_halves ins) @ bm) < 2 ^ 62"
  shows "w_code (wr_code code ins bm w) (code + of_nat (2 * i)) =
    Some ((concat (map ins_halves ins) @ bm) ! i)"
  using fold_code_writes [of i "concat (map ins_halves ins) @ bm" 0 code "w_code w"] assms
  by (simp add: wr_code_def wr_u2s_def)

lemma halves_join: "(ucast (ucast i :: u2) :: u4) OR push_bit 16 (ucast (ucast (drop_bit 16 i) :: u2)) = i"
  by (rule bit_word_eqI) (auto simp: bit_simps)

text \<open>
  \<^bold>\<open>C17.\<close> The frame of an application continuation: the code that \<^verbatim>\<open>buildApCont\<close> emits places
  a liveness bitmap in front of the return address so that the collector, when it scans such a
  frame with the saved return address, evacuates the frame node and exactly the arguments that
  the pointer mask marks as pointers.
\<close>

theorem apcont_frame_scanned:
  assumes "buildApCont os nargs pointerMask m = Inr ((cl, returnAddr), m')"
  shows "\<exists>masks. offsetToBitmask (mm_world m') (returnAddr - 4) = Inr (Some masks) \<and>
    scavengeFrame os base tp (Some masks) mg =
      res_bind (evacuate os (word_at base (-1)) mg)
        (res_fold (live_slot (\<lambda>slot. evacuate os (word_at base (int slot))) (frame_slots_count base tp))
          (filter (bit pointerMask) [0..<32]))"
proof -
  let ?ins = "apcont_code nargs pointerMask"
  let ?bm = "encodeBitmask pointerMask @ encodeBitmask (apcont_livemask nargs)"
  let ?hs = "concat (map ins_halves ?ins) @ ?bm"
  obtain code w where c: "code_of m' = w_code (wr_code code ?ins ?bm w)" and r: "returnAddr = code + 12"
    using assms
    by (auto simp: buildApCont_def with_handle_def new_code_info_def result Let_def mm_mapW_def
        dest!: endAllocInfoTable_code new_static_code)
  have ra: "returnAddr - 4 = code + 8" by (simp add: r)
  note E = encodeBitmask_decode [of pointerMask] encodeBitmask_decode [of "apcont_livemask nargs"]
  have len: "length ?hs < 2 ^ 62" "12 + bitmapSize pointerMask \<le> length ?hs"
    using E by (auto simp: apcont_code_def ins_halves_def bitmapSize_def)
  have rd: "w_u2 (mm_world m') (code + of_nat (2 * i)) = Inr (?hs ! i)" if "i < length ?hs" for i
    using wr_code_read [OF that len(1)] c by (simp add: w_u2_def)
  have "w_u4 (mm_world m') (code + 8) = Inr (bitmask_offset 2 6)"
    using rd [of 4] rd [of 5] len(2) halves_join [of "bitmask_offset 2 6"]
    by (simp add: w_u4_def apcont_code_def ins_halves_def add.assoc)
  moreover have "bitmask_offset 2 6 = 16"
    by (simp add: bitmask_offset_def)
  ultimately have "offsetToBitmask (mm_world m') (returnAddr - 4) =
      Inr (Some (\<lambda>i. w_u2 (mm_world m') (code + of_nat (2 * (12 + i)))))"
    by (simp add: ra offsetToBitmask_def add.assoc)
  moreover have "w_u2 (mm_world m') (code + of_nat (2 * (12 + i))) = Inr (encodeBitmask pointerMask ! i)"
    if "i < length (encodeBitmask pointerMask)" for i
  proof -
    have "?hs ! (12 + i) = encodeBitmask pointerMask ! i"
      using that by (simp add: apcont_code_def ins_halves_def nth_append)
    then show ?thesis
      using rd [of "12 + i"] that E len(2) by simp
  qed
  ultimately show ?thesis
    using scavengeFrame_masks [of "encodeBitmask pointerMask"
        "\<lambda>i. w_u2 (mm_world m') (code + of_nat (2 * (12 + i)))" os base tp mg] E(1)
      bitmapSize_le [of pointerMask] by (auto simp del: upt_Suc)
qed

definition demo_mc :: mm where
  "demo_mc = mm_empty\<lparr>mm_world := \<lparr>w_mem = [0x118000 \<mapsto> 0], w_infos = Map.empty, w_code = Map.empty\<rparr>,
     mm_regions := [0x100000 \<mapsto> \<lparr>rg_type = kSmallObjectRegion, rg_link = 0, rg_blocks =
       [\<lparr>bl_start = 0x100520, bl_end = 0x108000, bl_free = 0x100520, bl_link = None, bl_flags = kInfoTables\<rparr>,
        \<lparr>bl_start = 0x108000, bl_end = 0x110000, bl_free = 0x108000, bl_link = None, bl_flags = kStrings\<rparr>,
        \<lparr>bl_start = 0x110000, bl_end = 0x118000, bl_free = 0x110000, bl_link = None, bl_flags = kBytecode\<rparr>,
        \<lparr>bl_start = 0x118000, bl_end = 0x120000, bl_free = 0x118000, bl_link = None, bl_flags = kStaticClosures\<rparr>],
       rg_next_free = None, rg_end = 0, rg_free = 0\<rparr>],
     mm_area := (\<lambda>a. (0x100000, case a of A_info_tables \<Rightarrow> 0 | A_strings \<Rightarrow> 1 | A_bytecode \<Rightarrow> 2 | _ \<Rightarrow> 3))\<rparr>"

lemma res_fold_single: "res_fold f [x] = f x"
proof
  show "res_fold f [x] s = f x s" for s by (cases "f x s") auto
qed

theorem apcont_frame_scanned_witness:
  "\<exists>cl returnAddr m' masks. buildApCont demo_os 1 1 demo_mc = Inr ((cl, returnAddr), m') \<and>
     offsetToBitmask (mm_world m') (returnAddr - 4) = Inr (Some masks) \<and>
     scavengeFrame demo_os 0x2000 0x2010 (Some masks) m' =
       res_bind (evacuate demo_os (word_at 0x2000 (-1)) m')
         (live_slot (\<lambda>slot. evacuate demo_os (word_at 0x2000 (int slot))) (frame_slots_count 0x2000 0x2010) 0)"
proof -
  obtain k where k: "alloc_fuel = Suc k"
    using alloc_fuel_Suc by blast
  have l: "apcont_livemask (Suc 0) = 1" "length (encodeBitmask 1) = 1"
    using encodeBitmask_decode [of 1] by (auto simp: apcont_livemask_def bitmapSize_def)
  have "\<exists>cl ra m'. buildApCont demo_os 1 1 demo_mc = Inr ((cl, ra), m')"
    by (simp add: buildApCont_def with_handle_def beginAllocInfoTable_def endAllocInfoTable_def markBlock_def
        demo_os_def demo_mc_def mm_block_def mm_regionAt_def mm_empty_def new_code_info_def allocInfoTable_def
        allocInto_def allocString_def allocCode_def allocStaticClosure_def new_static_def bl_alloc_def Let_def
        mm_setBlock_def mm_setRegion_def mm_mapW_def mm_liftW_def cl_setInfo_def wr_def
        wordsof_CodeInfoTable_def wordsof_ClosureHeader_def k
        apcont_code_def ap_name_def decimal2_def formatBitmap_def push_bit_eq_mult
        wr_code_def wr_u2s_def l)
  then obtain cl ra m' where b: "buildApCont demo_os 1 1 demo_mc = Inr ((cl, ra), m')" by blast
  have f: "filter (bit (1 :: u4)) [0..<32] = [0]"
    using no_bits_filter [of "[1..<32]" "1 :: u4"] upt_conv_Cons [of 0 32] by (simp add: bit_1_iff del: upt_rec_numeral)
  show ?thesis
    using apcont_frame_scanned [OF b, of "0x2000" "0x2010" m'] b f
    by (auto simp: res_fold_single)
qed
end
