(* ===== verification/Interp.thy ===== *)
theory Interp
  imports MiscClosures HotCounters
begin

text \<open>
  The bytecode interpreter (\<^verbatim>\<open>src/vm/capability.cc\<close>, \<^verbatim>\<open>src/vm/capability.hh\<close>) and threads
  (\<^verbatim>\<open>src/vm/thread.cc\<close>, \<^verbatim>\<open>src/vm/thread.hh\<close>).  One turn of the interpreter loop, from one
  \<^verbatim>\<open>DISPATCH_NEXT\<close> to the next, is the function \<open>step\<close>; \<open>interp\<close> is the relation it
  generates.  Stack, closures and byte arrays live in the memory of the memory manager.

  Stack slots and fields are addressed in words relative to the base pointer.  Integer
  operations are those of the 64 bit machine the code is compiled for: shift counts are taken
  modulo 64, and a division that has no representable result stops the process (status 136).
\<close>

section \<open>Threads\<close>

record thread =
  th_pc :: u8
  th_stackSize :: u8
  th_base :: u8
  th_top :: u8
  th_stack :: u8

definition kMinStackWords :: u8 where "kMinStackWords = 64"

definition th_stackLimit :: "thread \<Rightarrow> u8" where
  "th_stackLimit T = th_stack T + 8 * th_stackSize T"

definition th_sync :: "u8 \<Rightarrow> u8 \<Rightarrow> thread \<Rightarrow> thread" where
  "th_sync pc base T = T\<lparr>th_pc := pc, th_base := base\<rparr>"

definition th_isValid :: "thread \<Rightarrow> bool" where
  "th_isValid T \<longleftrightarrow> th_stackSize T \<ge> kMinStackWords \<and>
     (th_stack T \<noteq> 0 \<longrightarrow> within_range (th_stack T) (th_stackLimit T) (th_base T) \<and>
        within_range (th_stack T) (th_stackLimit T) (th_top T) \<and> th_top T \<ge> th_base T) \<and>
     th_pc T \<noteq> 0"

definition th_isValidSlot :: "thread \<Rightarrow> int \<Rightarrow> bool" where
  "th_isValidSlot T n \<longleftrightarrow> n \<ge> -1 \<and> word_at (th_base T) n < th_top T"

definition th_slot :: "thread \<Rightarrow> int \<Rightarrow> world \<Rightarrow> u8 result" where
  "th_slot T n w = rd w (word_at (th_base T) n)"

definition th_setSlot :: "thread \<Rightarrow> int \<Rightarrow> u8 \<Rightarrow> world \<Rightarrow> world result" where
  "th_setSlot T n v w = wr (word_at (th_base T) n) v w"

fun fill_words :: "u8 \<Rightarrow> nat \<Rightarrow> u8 \<Rightarrow> world \<Rightarrow> world result" where
  "fill_words a 0 v w = Inr w"
| "fill_words a (Suc n) v w = res_bind (wr a v w) (fill_words (a + 8) n v)"

text \<open>
  \<^verbatim>\<open>Thread::initialize\<close>; \<open>stk\<close> is the address of the array that \<^verbatim>\<open>new Word[stackSize_]\<close> returns.
\<close>

definition th_initialize :: "u8 \<Rightarrow> misc \<Rightarrow> u8 \<Rightarrow> world \<Rightarrow> (thread \<times> world) result" where
  "th_initialize stk mc stackSizeInWords w =
     (let n = (if stackSizeInWords < kMinStackWords then kMinStackWords else stackSizeInWords)
      in res_bind (fill_words stk (unat n) 0xf0f0f0f0f0f0f0f0 w) (\<lambda>w.
         res_bind (wr stk 0 w) (\<lambda>w.
         res_bind (wr (stk + 8) 0 w) (\<lambda>w.
         res_bind (wr (stk + 16) (stg_STOP_closure_addr mc) w) (\<lambda>w.
         res_bind (wr (stk + 24) 0 w) (\<lambda>w.
           if stg_STOP_closure_addr mc = 0 then Inl (Exit 1)
           else
             res_bind (cl_itbl w (stg_STOP_closure_addr mc)) (\<lambda>it.
             res_bind (itbl_code it) (\<lambda>c.
               Inr (\<lparr>th_pc = c_code c, th_stackSize = n, th_base = stk + 24, th_top = stk + 32,
                     th_stack = stk\<rparr>, w)))))))))"

definition createTestingThread :: "u8 \<Rightarrow> misc \<Rightarrow> u8 \<Rightarrow> u4 \<Rightarrow> world \<Rightarrow> (thread \<times> world) result" where
  "createTestingThread stk mc pc framesize w =
     res_bind (th_initialize stk mc (ucast framesize) w) (\<lambda>(T, w).
       Inr (T\<lparr>th_base := th_stack T + 8, th_top := th_stack T + 8 + 8 * ucast framesize, th_pc := pc\<rparr>, w))"

section \<open>Interpreter state\<close>

record ist =
  i_T :: thread
  i_base :: u8
  i_pc :: u8
  i_heap :: u8
  i_heaplim :: u8
  i_code :: code
  i_mm :: mm
  i_misc :: misc
  i_static_roots :: u8
  i_flags :: flags32
  i_abort :: bool

datatype exit_code = kInterpOk | kInterpOutOfSteps | kInterpStackOverflow | kInterpUnimplemented

datatype outcome = Next ist | Finished exit_code ist

type_synonym step_result = "outcome result"

text \<open>
  The environment: the operating system, and the machine code of compiled traces, which
  \<^verbatim>\<open>asmEnter\<close> runs (it changes the state of the thread, the heap pointers and the memory).
\<close>

record env =
  e_os :: os
  e_asmEnter :: "u8 \<Rightarrow> ist \<Rightarrow> ist result"

definition kTraceBytecode :: nat where "kTraceBytecode = 0"
definition kRecording :: nat where "kRecording = 1"
definition FRAME_SIZE :: nat where "FRAME_SIZE = 3"
definition kStackFrameWords :: nat where "kStackFrameWords = 3"
definition kUpdateFrameWords :: nat where "kUpdateFrameWords = 5"

definition isRecording :: "ist \<Rightarrow> bool" where
  "isRecording i = flag_get (i_flags i) kRecording"

abbreviation i_w :: "ist \<Rightarrow> world" where
  "i_w i \<equiv> mm_world (i_mm i)"

definition set_w :: "world \<Rightarrow> ist \<Rightarrow> ist" where
  "set_w w i = i\<lparr>i_mm := (i_mm i)\<lparr>mm_world := w\<rparr>\<rparr>"

definition wr_i :: "u8 \<Rightarrow> u8 \<Rightarrow> ist \<Rightarrow> ist result" where
  "wr_i a v i = res_bind (wr a v (i_w i)) (\<lambda>w. Inr (set_w w i))"

text \<open>\<^verbatim>\<open>base[n]\<close> as a value and as the target of an assignment.\<close>

definition slot :: "ist \<Rightarrow> int \<Rightarrow> u8 result" where
  "slot i n = rd (i_w i) (word_at (i_base i) n)"

definition setSlot :: "int \<Rightarrow> u8 \<Rightarrow> ist \<Rightarrow> ist result" where
  "setSlot n v i = wr_i (word_at (i_base i) n) v i"

definition set_top :: "u8 \<Rightarrow> ist \<Rightarrow> ist" where
  "set_top t i = i\<lparr>i_T := (i_T i)\<lparr>th_top := t\<rparr>\<rparr>"

definition sync_T :: "ist \<Rightarrow> ist" where
  "sync_T i = i\<lparr>i_T := th_sync (i_pc i) (i_base i) (i_T i)\<rparr>"

definition skip_ins :: "nat \<Rightarrow> ist \<Rightarrow> ist" where
  "skip_ins n i = i\<lparr>i_pc := i_pc i + of_nat (4 * n)\<rparr>"

text \<open>\<^verbatim>\<open>pc += j\<close> for a signed 16 bit offset.\<close>

definition jump_by :: "u2 \<Rightarrow> ist \<Rightarrow> ist" where
  "jump_by j i = i\<lparr>i_pc := i_pc i + 4 * scast j\<rparr>"

section \<open>Leaving the interpreter\<close>

definition finish :: "exit_code \<Rightarrow> ist \<Rightarrow> step_result" where
  "finish ec i =
     (let i = sync_T i
      in res_bind (mm_sync (i_heap i) (i_heaplim i) (i_mm i)) (\<lambda>m. Inr (Finished ec (i\<lparr>i_mm := m\<rparr>))))"

definition stack_overflow :: "ist \<Rightarrow> step_result" where
  "stack_overflow = finish kInterpStackOverflow"

definition stackOverflow :: "thread \<Rightarrow> u8 \<Rightarrow> nat \<Rightarrow> bool" where
  "stackOverflow T tp increment \<longleftrightarrow>
     th_stackLimit T < tp + of_nat (8 * (increment + (FRAME_SIZE + 1)))"

text \<open>\<^verbatim>\<open>requestAbort\<close> sets a flag of the recorder.\<close>

definition request_abort :: "ist \<Rightarrow> ist" where
  "request_abort i = (if isRecording i then i\<lparr>i_abort := True\<rparr> else i)"

definition collect :: "env \<Rightarrow> ist \<Rightarrow> ist result" where
  "collect e i =
     res_bind (bumpAllocatorFull (e_os e) (i_heap i) (i_heaplim i) (th_base (i_T i)) (th_top (i_T i))
                 (th_pc (i_T i)) (i_static_roots i) (i_mm i))
       (\<lambda>((heap, lim), m). Inr (i\<lparr>i_heap := heap, i_heaplim := lim, i_mm := m\<rparr>))"

text \<open>The label \<^verbatim>\<open>heapOverflow\<close>: the instruction is dispatched again after the collection.\<close>

definition heapOverflow :: "env \<Rightarrow> ist \<Rightarrow> step_result" where
  "heapOverflow e i =
     (let i = request_abort i; i = i\<lparr>i_pc := i_pc i - 4\<rparr>
      in res_bind (collect e (sync_T i)) (\<lambda>i. Inr (Next i)))"

text \<open>\<^verbatim>\<open>BUMP_HEAP\<close>: the new object and the state, or nothing if the block is full.\<close>

definition bump_heap :: "nat \<Rightarrow> ist \<Rightarrow> (u8 \<times> ist) option" where
  "bump_heap payloadWords i =
     (let heap = i_heap i + of_nat ((1 + payloadWords) * 8)
      in if heap > i_heaplim i then None else Some (i_heap i, i\<lparr>i_heap := heap\<rparr>))"

section \<open>Frames\<close>

definition pushFrame :: "u8 \<Rightarrow> u8 \<Rightarrow> u8 \<Rightarrow> u8 \<Rightarrow> nat \<Rightarrow> world \<Rightarrow> (u8 \<times> u8 \<times> world) result" where
  "pushFrame tp base ret clos framesize w =
     res_bind (wr tp base w) (\<lambda>w.
     res_bind (wr (word_at tp 1) ret w) (\<lambda>w.
     res_bind (wr (word_at tp 2) clos w) (\<lambda>w.
       Inr (word_at (word_at tp 3) (int framesize), word_at tp 3, w))))"

definition push_frame :: "u8 \<Rightarrow> u8 \<Rightarrow> u8 \<Rightarrow> nat \<Rightarrow> ist \<Rightarrow> (u8 \<times> ist) result" where
  "push_frame tp ret clos framesize i =
     res_bind (pushFrame tp (i_base i) ret clos framesize (i_w i)) (\<lambda>(tp', base', w).
       Inr (tp', (set_w w i)\<lparr>i_base := base'\<rparr>))"

definition closure_code :: "world \<Rightarrow> u8 \<Rightarrow> code result" where
  "closure_code w cl = res_bind (cl_itbl w cl) itbl_code"

text \<open>
  \<^verbatim>\<open>BRANCH_TO\<close> in the configuration without the tracing compiler; what \<^verbatim>\<open>interpBranch\<close> decides
  with it is \<open>interpBranch\<close> below.
\<close>

definition branch_to :: "u8 \<Rightarrow> ist \<Rightarrow> step_result" where
  "branch_to dst i = Inr (Next (i\<lparr>i_pc := dst\<rparr>))"

definition do_return :: "ist \<Rightarrow> step_result" where
  "do_return i =
     (let i = set_top (word_at (i_base i) (-3)) i
      in res_bind (slot i (-2)) (\<lambda>dst_pc.
         res_bind (slot i (-3)) (\<lambda>base'.
           let i = i\<lparr>i_base := base'\<rparr>
           in res_bind (slot i (-1)) (\<lambda>node.
              res_bind (looksLikeClosure (i_mm i) node) (\<lambda>ok.
              res_bind (lc_assert ok) (\<lambda>_.
              res_bind (closure_code (i_w i) node) (\<lambda>c.
              res_bind (lc_assert (c_code c < dst_pc \<and> dst_pc < c_code c + of_nat (4 * c_sizecode c))) (\<lambda>_.
                branch_to dst_pc (i\<lparr>i_code := c\<rparr>)))))))))"

text \<open>Copying between memory and registers named by the bytes at \<open>args\<close>.\<close>

fun copy_regs :: "(int \<Rightarrow> u8 \<Rightarrow> ist \<Rightarrow> ist result) \<Rightarrow> u8 \<Rightarrow> nat \<Rightarrow> nat \<Rightarrow> u8 \<Rightarrow> ist \<Rightarrow> ist result" where
  "copy_regs put from 0 j args i = Inr i"
| "copy_regs put from (Suc n) j args i =
     res_bind (w_u1 (i_w i) args) (\<lambda>r.
     res_bind (rd (i_w i) (word_at from (int (unat r)))) (\<lambda>v.
     res_bind (put (int j) v i) (copy_regs put from n (j + 1) (args + 1))))"

section \<open>Function application\<close>

text \<open>Moving stack words up, from the last one down (\<^verbatim>\<open>base[papArgs + i] = base[i]\<close>).\<close>

fun move_up :: "nat \<Rightarrow> nat \<Rightarrow> ist \<Rightarrow> ist result" where
  "move_up by 0 i = Inr i"
| "move_up by (Suc n) i =
     res_bind (slot i (int n)) (\<lambda>v. res_bind (setSlot (int (by + n)) v i) (move_up by n))"

fun load_pap :: "u8 \<Rightarrow> nat \<Rightarrow> nat \<Rightarrow> ist \<Rightarrow> ist result" where
  "load_pap pap 0 j i = Inr i"
| "load_pap pap (Suc n) j i =
     res_bind (pap_payload (i_w i) pap j) (\<lambda>v.
     res_bind (setSlot (int j) v i) (load_pap pap n (j + 1)))"

fun store_pap :: "u8 \<Rightarrow> nat \<Rightarrow> nat \<Rightarrow> ist \<Rightarrow> ist result" where
  "store_pap pap 0 j i = Inr i"
| "store_pap pap (Suc n) j i =
     res_bind (slot i (int j)) (\<lambda>v.
     res_bind (pap_setPayload pap j v (i_w i)) (\<lambda>w. store_pap pap n (j + 1) (set_w w i)))"

text \<open>\<^verbatim>\<open>memmove\<close> of \<open>n\<close> words: all are read before the first one is written.\<close>

fun rd_words :: "world \<Rightarrow> u8 \<Rightarrow> nat \<Rightarrow> u8 list result" where
  "rd_words w a 0 = Inr []"
| "rd_words w a (Suc n) =
     res_bind (rd w a) (\<lambda>v. res_bind (rd_words w (a + 8) n) (\<lambda>vs. Inr (v # vs)))"

fun wr_words :: "u8 \<Rightarrow> u8 list \<Rightarrow> world \<Rightarrow> world result" where
  "wr_words a [] w = Inr w"
| "wr_words a (v # vs) w = res_bind (wr a v w) (wr_words (a + 8) vs)"

definition memmove :: "u8 \<Rightarrow> u8 \<Rightarrow> nat \<Rightarrow> ist \<Rightarrow> ist result" where
  "memmove dst src n i =
     res_bind (rd_words (i_w i) src n) (\<lambda>vs.
     res_bind (wr_words dst vs (i_w i)) (\<lambda>w. Inr (set_w w i)))"

definition ap_cont :: "env \<Rightarrow> nat \<Rightarrow> u4 \<Rightarrow> ist \<Rightarrow> ((u8 \<times> u8) \<times> ist) result" where
  "ap_cont e nargs pointerMask i =
     res_bind (getApCont (e_os e) nargs pointerMask (i_misc i) (i_mm i)) (\<lambda>((ac, mc), m).
       Inr (ac, i\<lparr>i_misc := mc, i_mm := m\<rparr>))"

text \<open>The case \<^const>\<open>THUNK\<close> or \<^const>\<open>CAF\<close>: evaluate the function first, then apply its value.\<close>

definition apply_thunk :: "env \<Rightarrow> u8 \<Rightarrow> nat \<Rightarrow> u4 \<Rightarrow> ist \<Rightarrow> step_result" where
  "apply_thunk e fnode given_args pointer_mask i =
     res_bind (ap_cont e given_args pointer_mask i) (\<lambda>((apk_closure, apk_return_addr), i).
       let apk_framesize = apContFrameSize given_args
       in res_bind (setSlot (-1) apk_closure i) (\<lambda>i.
          res_bind (closure_code (i_w i) fnode) (\<lambda>c.
            let tp = word_at (i_base i) (int apk_framesize); i = i\<lparr>i_code := c\<rparr>
            in if stackOverflow (i_T i) (i_base i) (apk_framesize + kStackFrameWords +
                    kUpdateFrameWords + kStackFrameWords + c_framesize c)
               then stack_overflow i
               else
                 res_bind (push_frame tp apk_return_addr (stg_UPD_closure_addr (i_misc i)) 2 i) (\<lambda>(tp, i).
                 res_bind (setSlot 0 fnode i) (\<lambda>i.
                 res_bind (setSlot 1 0xbadbadff i) (\<lambda>i.
                 res_bind (push_frame tp (stg_UPD_return_pc (i_misc i)) fnode (c_framesize c) i) (\<lambda>(tp, i).
                 res_bind (lc_assert (tp = word_at (i_base i) (int (c_framesize c)))) (\<lambda>_.
                   branch_to (c_code c) (set_top tp i)))))))))"

text \<open>More arguments than the function takes: an application continuation for the rest.\<close>

definition over_apply :: "env \<Rightarrow> nat \<Rightarrow> u4 \<Rightarrow> nat \<Rightarrow> ist \<Rightarrow> (ist + ist) result" where
  "over_apply e given_args pointer_mask arity i =
     (let extra_args = given_args - arity; apk_frame_size = apContFrameSize extra_args + 3
      in if stackOverflow (i_T i) (i_base i) (apk_frame_size + given_args) then Inr (Inl i)
         else
           res_bind (ap_cont e extra_args (drop_bit arity pointer_mask) i) (\<lambda>((apk_closure, apk_return_addr), i).
           let base = i_base i
           in res_bind (memmove (word_at base (int apk_frame_size)) base given_args i) (\<lambda>i.
              res_bind (slot i (-1)) (\<lambda>f.
              res_bind (setSlot (int apk_frame_size - 1) f i) (\<lambda>i.
              res_bind (setSlot (int apk_frame_size - 2) apk_return_addr i) (\<lambda>i.
              res_bind (setSlot (int apk_frame_size - 3) base i) (\<lambda>i.
              res_bind (setSlot (-1) apk_closure i) (\<lambda>i.
              res_bind (memmove base (word_at base (int (apk_frame_size + arity))) extra_args i) (\<lambda>i.
                Inr (Inr (i\<lparr>i_base := word_at base (int apk_frame_size)\<rparr>)))))))))))"

text \<open>
  Fewer arguments: allocate a partial application.  The loop asks for memory until the object
  fits; \<open>fnode\<close> is the local variable of the interpreter, which a collection does not update.
\<close>

fun alloc_pap :: "env \<Rightarrow> nat \<Rightarrow> nat \<Rightarrow> u4 \<Rightarrow> ist \<Rightarrow> (u8 \<times> ist) result" where
  "alloc_pap e 0 words pointer_mask i = Inl Diverge"
| "alloc_pap e (Suc fuel) words pointer_mask i =
     (let heap = i_heap i + of_nat (words * 8)
      in if heap > i_heaplim i
         then
           let i = sync_T (request_abort i);
               i = i\<lparr>i_mm := (i_mm i)\<lparr>mm_topOfStackMask := pointer_mask\<rparr>\<rparr>
           in res_bind (collect e i) (\<lambda>i.
                alloc_pap e fuel words pointer_mask
                  (i\<lparr>i_mm := (i_mm i)\<lparr>mm_topOfStackMask := kNoMask\<rparr>\<rparr>))
         else Inr (i_heap i, i\<lparr>i_heap := heap\<rparr>))"

definition under_apply :: "env \<Rightarrow> u8 \<Rightarrow> nat \<Rightarrow> u4 \<Rightarrow> ist \<Rightarrow> step_result" where
  "under_apply e fnode given_args pointer_mask i =
     (let pap_size = 1 + given_args
      in res_bind (alloc_pap e alloc_fuel (wordsof_PapClosure + pap_size) pointer_mask i) (\<lambda>(pap, i).
         res_bind (pap_init pap (stg_PAP_info (i_misc i)) pointer_mask (of_nat given_args) fnode (i_w i)) (\<lambda>w.
         res_bind (store_pap pap given_args 0 (set_w w i)) (\<lambda>i.
         res_bind (setSlot 0 pap i) do_return))))"

definition apply_fun :: "env \<Rightarrow> u8 \<Rightarrow> nat \<Rightarrow> u4 \<Rightarrow> ist \<Rightarrow> step_result" where
  "apply_fun e fnode given_args pointer_mask i =
     res_bind (closure_code (i_w i) fnode) (\<lambda>c.
       let i = i\<lparr>i_code := c\<rparr>;
           enter = (\<lambda>i. branch_to (c_code c) (set_top (word_at (i_base i) (int (c_framesize c))) i))
       in if c_arity c < given_args
          then res_bind (over_apply e given_args pointer_mask (c_arity c) i) (\<lambda>r.
                 case r of Inl i \<Rightarrow> stack_overflow i | Inr i \<Rightarrow> enter i)
          else if given_args < c_arity c then under_apply e fnode given_args pointer_mask i
          else enter i)"

text \<open>The case \<^const>\<open>PAP\<close>: the arguments of the partial application go below the given ones.\<close>

definition unpack_pap :: "u8 \<Rightarrow> nat \<Rightarrow> u4 \<Rightarrow> ist \<Rightarrow> ((u8 \<times> nat \<times> u4 \<times> ist) + ist) result" where
  "unpack_pap fnode given_args pointer_mask i =
     res_bind (pap_nargs (i_w i) fnode) (\<lambda>papArgs.
       let framesize = papArgs + given_args
       in if stackOverflow (i_T i) (i_base i) framesize then Inr (Inr i)
          else
            let i = set_top (word_at (i_base i) (int framesize)) i
            in res_bind (move_up papArgs given_args i) (\<lambda>i.
               res_bind (load_pap fnode papArgs 0 i) (\<lambda>i.
               res_bind (pap_fun (i_w i) fnode) (\<lambda>f.
               res_bind (setSlot (-1) f i) (\<lambda>i.
               res_bind (pap_pointerMask (i_w i) fnode) (\<lambda>pm.
               res_bind (closure_code (i_w i) f) (\<lambda>c.
                 Inr (Inl (f, given_args + papArgs, push_bit papArgs pointer_mask OR pm,
                           i\<lparr>i_code := c\<rparr>)))))))))"

fun generic_apply_retry :: "env \<Rightarrow> nat \<Rightarrow> u8 \<Rightarrow> nat \<Rightarrow> u4 \<Rightarrow> ist \<Rightarrow> step_result" where
  "generic_apply_retry e 0 fnode given_args pointer_mask i = Inl Diverge"
| "generic_apply_retry e (Suc fuel) fnode given_args pointer_mask i =
     res_bind (slot i (-1)) (\<lambda>node.
     res_bind (lc_assert (fnode = node)) (\<lambda>_.
     res_bind (closure_code (i_w i) fnode) (\<lambda>c.
     res_bind (lc_assert (i_code i = c)) (\<lambda>_.
     res_bind (cl_itbl (i_w i) fnode) (\<lambda>it.
       if it_type it = PAP
       then res_bind (unpack_pap fnode given_args pointer_mask i) (\<lambda>r.
              case r of
                Inr i \<Rightarrow> stack_overflow i
              | Inl (f, n, pm, i) \<Rightarrow> generic_apply_retry e fuel f n pm i)
       else if it_type it = THUNK \<or> it_type it = CAF then apply_thunk e fnode given_args pointer_mask i
       else if it_type it = FUN then apply_fun e fnode given_args pointer_mask i
       else Inr (Finished kInterpUnimplemented i))))))"

text \<open>\<open>opC\<close> packs the number of arguments and the low 24 bits of the pointer mask.\<close>

definition generic_apply :: "env \<Rightarrow> u4 \<Rightarrow> ist \<Rightarrow> step_result" where
  "generic_apply e opC i =
     res_bind (slot i (-1)) (\<lambda>fnode.
       generic_apply_retry e ind_fuel fnode (unat (opC AND 0xff)) (drop_bit 8 opC) i)"

section \<open>Arithmetic\<close>

fun branch_cond :: "opcode \<Rightarrow> (u8 \<Rightarrow> u8 \<Rightarrow> bool) option" where
  "branch_cond op =
     (case op of
        ISLT \<Rightarrow> Some (\<lambda>x y. sint x < sint y) | ISGE \<Rightarrow> Some (\<lambda>x y. sint x \<ge> sint y)
      | ISLE \<Rightarrow> Some (\<lambda>x y. sint x \<le> sint y) | ISGT \<Rightarrow> Some (\<lambda>x y. sint x > sint y)
      | ISLTU \<Rightarrow> Some (\<lambda>x y. x < y) | ISGEU \<Rightarrow> Some (\<lambda>x y. x \<ge> y)
      | ISLEU \<Rightarrow> Some (\<lambda>x y. x \<le> y) | ISGTU \<Rightarrow> Some (\<lambda>x y. x > y)
      | ISEQ \<Rightarrow> Some (\<lambda>x y. x = y) | ISNE \<Rightarrow> Some (\<lambda>x y. x \<noteq> y)
      | _ \<Rightarrow> None)"

text \<open>Signed division rounds towards zero.\<close>

definition tdiv :: "int \<Rightarrow> int \<Rightarrow> int" where
  "tdiv x y = sgn x * sgn y * (\<bar>x\<bar> div \<bar>y\<bar>)"

definition div_traps :: "u8 \<Rightarrow> u8 \<Rightarrow> bool" where
  "div_traps x y \<longleftrightarrow> y = 0 \<or> (sint x = - (2 ^ 63) \<and> sint y = -1)"

definition sh :: "u8 \<Rightarrow> nat" where
  "sh c = unat (ucast c :: u4) mod 64"

text \<open>The count of the second shift of a rotation, \<^verbatim>\<open>64 - shift\<close>.\<close>

definition sh' :: "u8 \<Rightarrow> nat" where
  "sh' c = unat (64 - (scast (ucast c :: u4) :: u8)) mod 64"

fun alu :: "opcode \<Rightarrow> (u8 \<Rightarrow> u8 \<Rightarrow> u8 result) option" where
  "alu op =
     (case op of
        ADDRR \<Rightarrow> Some (\<lambda>x y. Inr (x + y)) | SUBRR \<Rightarrow> Some (\<lambda>x y. Inr (x - y))
      | MULRR \<Rightarrow> Some (\<lambda>x y. Inr (x * y))
      | DIVRR \<Rightarrow> Some (\<lambda>x y. if div_traps x y then Inl (Exit 136)
                                else Inr (word_of_int (tdiv (sint x) (sint y))))
      | REMRR \<Rightarrow> Some (\<lambda>x y. if div_traps x y then Inl (Exit 136)
                                else Inr (word_of_int (sint x - tdiv (sint x) (sint y) * sint y)))
      | CMPLT \<Rightarrow> Some (\<lambda>x y. Inr (of_bool (sint x < sint y)))
      | CMPGE \<Rightarrow> Some (\<lambda>x y. Inr (of_bool (sint x \<ge> sint y)))
      | CMPLE \<Rightarrow> Some (\<lambda>x y. Inr (of_bool (sint x \<le> sint y)))
      | CMPGT \<Rightarrow> Some (\<lambda>x y. Inr (of_bool (sint x > sint y)))
      | CMPEQ \<Rightarrow> Some (\<lambda>x y. Inr (of_bool (x = y)))
      | CMPNE \<Rightarrow> Some (\<lambda>x y. Inr (of_bool (x \<noteq> y)))
      | CMPLTU \<Rightarrow> Some (\<lambda>x y. Inr (of_bool (x < y)))
      | CMPGEU \<Rightarrow> Some (\<lambda>x y. Inr (of_bool (x \<ge> y)))
      | CMPLEU \<Rightarrow> Some (\<lambda>x y. Inr (of_bool (x \<le> y)))
      | CMPGTU \<Rightarrow> Some (\<lambda>x y. Inr (of_bool (x > y)))
      | BAND \<Rightarrow> Some (\<lambda>x y. Inr (x AND y)) | BOR \<Rightarrow> Some (\<lambda>x y. Inr (x OR y))
      | BXOR \<Rightarrow> Some (\<lambda>x y. Inr (x XOR y))
      | BSHL \<Rightarrow> Some (\<lambda>x y. Inr (push_bit (sh y) x))
      | BSHR \<Rightarrow> Some (\<lambda>x y. Inr (drop_bit (sh y) x))
      | BSAR \<Rightarrow> Some (\<lambda>x y. Inr (signed_drop_bit (sh y) x))
      | BROL \<Rightarrow> Some (\<lambda>x y. Inr (push_bit (sh y) x OR drop_bit (sh' y) x))
      | BROR \<Rightarrow> Some (\<lambda>x y. Inr (drop_bit (sh y) x OR push_bit (sh' y) x))
      | _ \<Rightarrow> None)"

section \<open>Bytes in memory\<close>

definition rd_byte :: "world \<Rightarrow> u8 \<Rightarrow> u1 result" where
  "rd_byte w a =
     res_bind (rd w (a AND NOT 7)) (\<lambda>v. Inr (ucast (drop_bit (8 * unat (a AND 7)) v)))"

definition wr_byte :: "u8 \<Rightarrow> u1 \<Rightarrow> world \<Rightarrow> world result" where
  "wr_byte a b w =
     (let s = 8 * unat (a AND 7)
      in res_bind (rd w (a AND NOT 7)) (\<lambda>v.
           wr (a AND NOT 7) ((v AND NOT (push_bit s 0xff)) OR push_bit s (ucast b)) w))"

text \<open>The \<open>n\<close> bytes at an address, least significant first.\<close>

fun rd_le :: "world \<Rightarrow> nat \<Rightarrow> u8 \<Rightarrow> u8 result" where
  "rd_le w 0 a = Inr 0"
| "rd_le w (Suc n) a =
     res_bind (rd_byte w a) (\<lambda>b.
     res_bind (rd_le w n (a + 1)) (\<lambda>v. Inr (ucast b OR push_bit 8 v)))"

fun wr_le :: "nat \<Rightarrow> u8 \<Rightarrow> u8 \<Rightarrow> world \<Rightarrow> world result" where
  "wr_le 0 a v w = Inr w"
| "wr_le (Suc n) a v w = res_bind (wr_byte a (ucast v) w) (wr_le n (a + 1) (drop_bit 8 v))"

text \<open>The address of an element of a byte array, after the two assertions.\<close>

definition array_elem :: "world \<Rightarrow> nat \<Rightarrow> u8 \<Rightarrow> u8 \<Rightarrow> u8 result" where
  "array_elem w n arr offset =
     res_bind (lc_assert (arr \<noteq> 0)) (\<lambda>_.
     res_bind (rd w (arr + 8)) (\<lambda>bytes.
     res_bind (lc_assert (offset * of_nat n < bytes)) (\<lambda>_. Inr (arr + 16 + offset * of_nat n))))"

section \<open>Case dispatch\<close>

text \<open>The binary search of \<^verbatim>\<open>CASE_S\<close> over the alternatives at \<open>targets\<close>.\<close>

function case_search :: "(int \<Rightarrow> u4 result) \<Rightarrow> u4 \<Rightarrow> int \<Rightarrow> int \<Rightarrow> u4 result" where
  "case_search targets tag istart iend =
     (if iend - istart \<ge> 0 then
        let imid = istart + (iend - istart) div 2
        in res_bind (targets imid) (\<lambda>alt.
             let alttag = drop_bit 16 alt
             in if tag = alttag then Inr ((alt AND 0xffff) + 1)
                else if tag < alttag then case_search targets tag istart (imid - 1)
                else case_search targets tag (imid + 1) iend)
      else Inr 0)"
  by pat_completeness auto
termination
  by (relation "measure (\<lambda>(t, tag, s, e). nat (e - s + 1))") auto

declare case_search.simps [simp del]

definition op_CASE :: "nat \<Rightarrow> u2 \<Rightarrow> ist \<Rightarrow> step_result" where
  "op_CASE opA num_cases i =
     res_bind (slot i (int opA)) (\<lambda>cl.
       let table = i_pc i; i = skip_ins ((unat num_cases + 1) div 2) i
       in res_bind (looksLikeClosure (i_mm i) cl) (\<lambda>ok.
          res_bind (lc_assert ok) (\<lambda>_.
          res_bind (cl_itbl (i_w i) cl) (\<lambda>it.
          res_bind (lc_assert (it_type it = CONSTR)) (\<lambda>_.
          res_bind (cl_tag (i_w i) cl) (\<lambda>t.
            let tag = t - 1
            in res_bind (lc_assert (tag < num_cases)) (\<lambda>_.
               res_bind (w_u2 (i_w i) (table + 2 * ucast tag)) (\<lambda>offs.
                 Inr (Next (skip_ins (unat offs) i))))))))))"

definition op_CASE_S :: "nat \<Rightarrow> u2 \<Rightarrow> ist \<Rightarrow> step_result" where
  "op_CASE_S opA num_cases i =
     res_bind (slot i (int opA)) (\<lambda>cl.
     res_bind (cl_tag (i_w i) cl) (\<lambda>t.
     res_bind (w_u4 (i_w i) (i_pc i)) (\<lambda>minMax.
       let tag = ucast t :: u4; min_tag = minMax AND 0xffff; max_tag = drop_bit 16 minMax
       in res_bind
            (if tag \<ge> min_tag \<and> tag \<le> max_tag
             then case_search (\<lambda>k. w_u4 (i_w i) (i_pc i + 4 + of_int (4 * k))) tag 0
                    (int (unat num_cases) - 1)
             else Inr 0)
            (\<lambda>offset. Inr (Next (skip_ins (unat num_cases + 1 + unat offset) i))))))"

section \<open>Instructions that call\<close>

definition op_EVAL :: "nat \<Rightarrow> ist \<Rightarrow> step_result" where
  "op_EVAL opA i =
     res_bind (slot i (int opA)) (\<lambda>tnode.
     res_bind (lc_assert (tnode \<noteq> 0)) (\<lambda>_.
     res_bind (looksLikeClosure (i_mm i) tnode) (\<lambda>ok.
     res_bind (lc_assert ok) (\<lambda>_.
     res_bind (skip_ind (i_w i) tnode) (\<lambda>tnode.
     res_bind (cl_info (i_w i) tnode) (\<lambda>info.
     res_bind (lc_assert (info \<noteq> stg_IND_info (i_misc i))) (\<lambda>_.
     res_bind (cl_isHNF (i_w i) tnode) (\<lambda>hnf.
       if hnf
       then res_bind (wr_i (word_at (th_top (i_T i)) (int FRAME_SIZE)) tnode i) (\<lambda>i.
              Inr (Next (skip_ins 1 i)))
       else
         res_bind (closure_code (i_w i) tnode) (\<lambda>c.
           let framesize = c_framesize c; tp = th_top (i_T i)
           in if stackOverflow (i_T i) tp (kStackFrameWords + kUpdateFrameWords + framesize)
              then stack_overflow i
              else
                res_bind (push_frame tp (i_pc i + 4) (stg_UPD_closure_addr (i_misc i)) 2 i) (\<lambda>(tp', i).
                res_bind (setSlot 0 tnode i) (\<lambda>i.
                res_bind (setSlot 1 0xbadbadff i) (\<lambda>i.
                res_bind (push_frame tp' (stg_UPD_return_pc (i_misc i)) tnode framesize i) (\<lambda>(tp', i).
                res_bind (lc_assert (i_base i = word_at tp (int (kStackFrameWords + kUpdateFrameWords)))) (\<lambda>_.
                res_bind (lc_assert (tp' = word_at (i_base i) (int framesize))) (\<lambda>_.
                  branch_to (c_code c) ((set_top tp' i)\<lparr>i_code := c\<rparr>))))))))))))))))"

definition callable :: "world \<Rightarrow> u8 \<Rightarrow> bool result" where
  "callable w f = res_bind (cl_itbl w f) (\<lambda>it. Inr (it_type it \<in> {FUN, CAF, THUNK, PAP}))"

definition apply_opC :: "nat \<Rightarrow> u4 \<Rightarrow> u4" where
  "apply_opC nargs pointer_mask = (of_nat nargs AND 0xff) OR push_bit 8 pointer_mask"

definition op_CALL :: "env \<Rightarrow> nat \<Rightarrow> nat \<Rightarrow> ist \<Rightarrow> step_result" where
  "op_CALL e opA callargs i =
     res_bind (w_u4 (i_w i) (i_pc i)) (\<lambda>pointer_mask.
       let i = skip_ins 1 i; tp = th_top (i_T i)
       in res_bind (slot i (int opA)) (\<lambda>fnode.
          res_bind (skip_ind (i_w i) fnode) (\<lambda>fnode.
          res_bind (lc_assert (fnode \<noteq> 0)) (\<lambda>_.
          res_bind (looksLikeClosure (i_mm i) fnode) (\<lambda>ok.
          res_bind (lc_assert ok) (\<lambda>_.
          res_bind (lc_assert (callargs \<le> kMaxCallArgs)) (\<lambda>_.
          res_bind (callable (i_w i) fnode) (\<lambda>ok.
          res_bind (lc_assert ok) (\<lambda>_.
            if stackOverflow (i_T i) tp (kStackFrameWords + callargs) then stack_overflow i
            else
              let oldbase = i_base i; args = i_pc i;
                  return_pc = i_pc i + of_nat (4 * (BC_ROUND callargs + 1))
              in res_bind (push_frame tp return_pc fnode callargs i) (\<lambda>(tp, i).
                 res_bind (copy_regs setSlot oldbase callargs 0 args i) (\<lambda>i.
                 res_bind (closure_code (i_w i) fnode) (\<lambda>c.
                   generic_apply e (apply_opC callargs pointer_mask)
                     ((set_top tp i)\<lparr>i_code := c\<rparr>)))))))))))))"

definition op_CALLT :: "env \<Rightarrow> nat \<Rightarrow> nat \<Rightarrow> ist \<Rightarrow> step_result" where
  "op_CALLT e opA callargs i =
     res_bind (w_u4 (i_w i) (i_pc i)) (\<lambda>pointer_mask.
       let i = skip_ins 1 i
       in res_bind (slot i (int opA)) (\<lambda>fnode.
          res_bind (lc_assert (fnode \<noteq> 0)) (\<lambda>_.
          res_bind (looksLikeClosure (i_mm i) fnode) (\<lambda>ok.
          res_bind (lc_assert ok) (\<lambda>_.
          res_bind (lc_assert (callargs \<le> kMaxCallArgs)) (\<lambda>_.
          res_bind (skip_ind (i_w i) fnode) (\<lambda>fnode.
          res_bind (callable (i_w i) fnode) (\<lambda>ok.
          res_bind (lc_assert ok) (\<lambda>_.
            if stackOverflow (i_T i) (i_base i) callargs then stack_overflow i
            else
              res_bind (setSlot (-1) fnode i) (\<lambda>i.
              res_bind (closure_code (i_w i) fnode) (\<lambda>c.
                generic_apply e (apply_opC callargs pointer_mask) (i\<lparr>i_code := c\<rparr>))))))))))))"

section \<open>Allocation and update\<close>

definition cl_put :: "u8 \<Rightarrow> int \<Rightarrow> u8 \<Rightarrow> ist \<Rightarrow> ist result" where
  "cl_put cl j v i = wr_i (word_at cl (j + 1)) v i"

definition op_ALLOC1 :: "env \<Rightarrow> nat \<Rightarrow> nat \<Rightarrow> nat \<Rightarrow> ist \<Rightarrow> step_result" where
  "op_ALLOC1 e opA opB opC i =
     (case bump_heap 1 i of
        None \<Rightarrow> heapOverflow e i
      | Some (cl, i) \<Rightarrow>
          let i = skip_ins 1 i
          in res_bind (slot i (int opB)) (\<lambda>info.
             res_bind (wr_i cl info i) (\<lambda>i.
             res_bind (slot i (int opC)) (\<lambda>v.
             res_bind (cl_put cl 0 v i) (\<lambda>i.
             res_bind (setSlot (int opA) cl i) (\<lambda>i. Inr (Next i)))))))"

definition op_ALLOC :: "env \<Rightarrow> nat \<Rightarrow> nat \<Rightarrow> nat \<Rightarrow> ist \<Rightarrow> step_result" where
  "op_ALLOC e opA opB opC i =
     (case bump_heap opC i of
        None \<Rightarrow> heapOverflow e i
      | Some (cl, i) \<Rightarrow>
          res_bind (slot i (int opB)) (\<lambda>info.
          res_bind (wr_i cl info i) (\<lambda>i.
          res_bind (copy_regs (cl_put cl) (i_base i) opC 0 (i_pc i) i) (\<lambda>i.
          res_bind (setSlot (int opA) cl i) (\<lambda>i. Inr (Next (skip_ins (BC_ROUND opC + 1) i)))))))"

definition op_ALLOCAP :: "env \<Rightarrow> nat \<Rightarrow> u4 \<Rightarrow> nat \<Rightarrow> ist \<Rightarrow> step_result" where
  "op_ALLOCAP e opA pointerMask nargs i =
     res_bind (lc_assert (nargs > 0)) (\<lambda>_.
     res_bind (lc_assert (nargs \<le> kMaxCallArgs)) (\<lambda>_.
       case bump_heap (nargs + 1) i of
         None \<Rightarrow> heapOverflow e i
       | Some (cl, i) \<Rightarrow>
           res_bind (getApInfo (e_os e) nargs pointerMask (i_misc i) (i_mm i)) (\<lambda>((info, mc), m).
           res_bind (wr_i cl info (i\<lparr>i_misc := mc, i_mm := m\<rparr>)) (\<lambda>i.
           res_bind (copy_regs (cl_put cl) (i_base i) (nargs + 1) 0 (i_pc i) i) (\<lambda>i.
           res_bind (cl_payload (i_w i) cl 0) (\<lambda>f.
           res_bind (isConstructor (i_w i) f) (\<lambda>con.
           res_bind (lc_assert (\<not> con)) (\<lambda>_.
           res_bind (setSlot (int opA) cl i) (\<lambda>i.
             Inr (Next (skip_ins (BC_ROUND (nargs + 1) + 1) i)))))))))))"

definition op_UPDATE :: "nat \<Rightarrow> nat \<Rightarrow> ist \<Rightarrow> step_result" where
  "op_UPDATE opA opC i =
     res_bind (slot i (int opA)) (\<lambda>oldnode.
     res_bind (slot i (int opC)) (\<lambda>newnode.
     res_bind (cl_itbl (i_w i) oldnode) (\<lambda>it.
     res_bind (looksLikeClosure (i_mm i) oldnode) (\<lambda>ok1.
     res_bind (lc_assert (oldnode \<noteq> 0 \<and> ok1)) (\<lambda>_.
     res_bind (lc_assert (newnode \<noteq> 0)) (\<lambda>_.
     res_bind (looksLikeClosure (i_mm i) newnode) (\<lambda>ok2.
     res_bind (lc_assert ok2) (\<lambda>_.
     res_bind (cl_isHNF (i_w i) oldnode) (\<lambda>hnf.
     res_bind (lc_assert (\<not> hnf)) (\<lambda>_.
     res_bind (wr_i oldnode (stg_IND_info (i_misc i)) i) (\<lambda>i.
     res_bind (cl_put oldnode 0 newnode i) (\<lambda>i.
       if it_type it = CAF
       then res_bind (cl_put oldnode 1 (i_static_roots i) i) (\<lambda>i.
              Inr (Next (i\<lparr>i_static_roots := oldnode\<rparr>)))
       else Inr (Next i)))))))))))))"

definition op_NEWBYTEA :: "env \<Rightarrow> nat \<Rightarrow> nat \<Rightarrow> ist \<Rightarrow> step_result" where
  "op_NEWBYTEA e opA opB i =
     res_bind (slot i (int opB)) (\<lambda>payloadSizeBytes.
     res_bind (allocLarge (e_os e) (16 + roundUpBytesToWords payloadSizeBytes * 8) (i_mm i)) (\<lambda>(cl, m).
     res_bind (wr_i cl (stg_BYTEARR_info (i_misc i)) (i\<lparr>i_mm := m\<rparr>)) (\<lambda>i.
     res_bind (wr_i (cl + 8) payloadSizeBytes i) (\<lambda>i.
     res_bind (setSlot (int opA) cl i) (\<lambda>i. Inr (Next i))))))"

definition op_GETA :: "nat \<Rightarrow> nat \<Rightarrow> nat \<Rightarrow> nat \<Rightarrow> ist \<Rightarrow> step_result" where
  "op_GETA n opA opB opC i =
     res_bind (slot i (int opB)) (\<lambda>arr.
     res_bind (slot i (int opC)) (\<lambda>offset.
     res_bind (array_elem (i_w i) n arr offset) (\<lambda>a.
     res_bind (rd_le (i_w i) n a) (\<lambda>v.
     res_bind (setSlot (int opA) v i) (\<lambda>i. Inr (Next i))))))"

definition op_SETA :: "nat \<Rightarrow> nat \<Rightarrow> nat \<Rightarrow> nat \<Rightarrow> ist \<Rightarrow> step_result" where
  "op_SETA n opA opB opC i =
     res_bind (slot i (int opB)) (\<lambda>arr.
     res_bind (slot i (int opC)) (\<lambda>offset.
     res_bind (array_elem (i_w i) n arr offset) (\<lambda>a.
     res_bind (slot i (int opA)) (\<lambda>v.
     res_bind (wr_le n a v (i_w i)) (\<lambda>w. Inr (Next (set_w w i)))))))"

text \<open>
  \<^verbatim>\<open>pc += opC - BcIns::kBranchBias\<close>: \<^verbatim>\<open>opC\<close> is an unsigned 32 bit variable, so the difference is
  unsigned and is not sign-extended when it is added to the pointer.
\<close>

definition op_JMP :: "u2 \<Rightarrow> ist \<Rightarrow> ist" where
  "op_JMP d i = i\<lparr>i_pc := i_pc i + 4 * ucast (ucast d - kBranchBias :: u4)\<rparr>"

text \<open>Entering a compiled trace, for \<^verbatim>\<open>JFUNC\<close>.\<close>

definition load_state :: "ist \<Rightarrow> ist" where
  "load_state i = i\<lparr>i_base := th_base (i_T i), i_pc := th_pc (i_T i)\<rparr>"

definition op_JFUNC :: "env \<Rightarrow> ist \<Rightarrow> step_result" where
  "op_JFUNC e i =
     (let i = i\<lparr>i_T := th_sync (i_pc i - 4) (i_base i) (i_T i)\<rparr>
      in res_bind (e_asmEnter e (i_pc i - 4) i) (\<lambda>i.
           let i = load_state i
           in res_bind (slot i (-1)) (\<lambda>cl.
              res_bind (closure_code (i_w i) cl) (\<lambda>c. Inr (Next (i\<lparr>i_code := c\<rparr>))))))"

section \<open>One step\<close>

text \<open>Assignments to \<^verbatim>\<open>base[opA]\<close> that only read registers and memory.\<close>

definition assign :: "nat \<Rightarrow> u8 result \<Rightarrow> ist \<Rightarrow> step_result" where
  "assign opA r i =
     res_bind r (\<lambda>v. res_bind (setSlot (int opA) v i) (\<lambda>i. Inr (Next i)))"

definition op_LOADF :: "nat \<Rightarrow> nat \<Rightarrow> ist \<Rightarrow> u8 result" where
  "op_LOADF opB opC i = res_bind (slot i (int opB)) (\<lambda>cl. cl_payload (i_w i) cl (int opC - 1))"

definition op_LOADFV :: "nat \<Rightarrow> ist \<Rightarrow> u8 result" where
  "op_LOADFV opC i = res_bind (slot i (-1)) (\<lambda>node. cl_payload (i_w i) node (int opC - 1))"

text \<open>A \<^verbatim>\<open>char\<close> is signed.\<close>

definition op_PTROFSC :: "nat \<Rightarrow> nat \<Rightarrow> ist \<Rightarrow> u8 result" where
  "op_PTROFSC opB opC i =
     res_bind (slot i (int opB)) (\<lambda>p. res_bind (slot i (int opC)) (\<lambda>ofs.
       res_bind (rd_byte (i_w i) (p + ofs)) (\<lambda>x. Inr (scast x))))"

definition op_LOADK :: "nat \<Rightarrow> ist \<Rightarrow> u8 result" where
  "op_LOADK lit_id i =
     res_bind (lc_assert (lit_id < c_sizelits (i_code i))) (\<lambda>_.
       if lit_id < length (c_lits (i_code i)) then Inr (c_lits (i_code i) ! lit_id) else Inl BadAccess)"

definition op_MOV_RES :: "nat \<Rightarrow> ist \<Rightarrow> u8 result" where
  "op_MOV_RES opC i = rd (i_w i) (word_at (th_top (i_T i)) (int FRAME_SIZE + int opC))"

definition op_LOADBH :: "ist \<Rightarrow> u8 result" where
  "op_LOADBH i = Inr (stg_BLACKHOLE_closure_addr (i_misc i))"

definition op_GETTAG :: "nat \<Rightarrow> ist \<Rightarrow> u8 result" where
  "op_GETTAG opC i =
     res_bind (slot i (int opC)) (\<lambda>cl. res_bind (cl_tag (i_w i) cl) (\<lambda>t. Inr (of_int (int (unat t) - 1))))"

text \<open>The assertion of the function headers and of returns; \<^verbatim>\<open>RET1\<close> falls through to \<^verbatim>\<open>RETN\<close>.\<close>

definition op_FUNC :: "nat \<Rightarrow> ist \<Rightarrow> step_result" where
  "op_FUNC opA i = res_bind (lc_assert (word_at (i_base i) (int opA) = th_top (i_T i))) (\<lambda>_. Inr (Next i))"

definition op_RETN :: "nat \<Rightarrow> ist \<Rightarrow> step_result" where
  "op_RETN opA i = res_bind (lc_assert (word_at (i_base i) (int opA) \<le> th_top (i_T i))) (\<lambda>_. do_return i)"

definition op_RET1 :: "nat \<Rightarrow> ist \<Rightarrow> step_result" where
  "op_RET1 opA i = res_bind (slot i (int opA)) (\<lambda>v. res_bind (setSlot 0 v i) (op_RETN opA))"

definition op_IRET :: "nat \<Rightarrow> ist \<Rightarrow> step_result" where
  "op_IRET opA i = res_bind (slot i (int opA)) (\<lambda>v. res_bind (setSlot 0 v i) do_return)"

definition op_INITF :: "nat \<Rightarrow> nat \<Rightarrow> nat \<Rightarrow> ist \<Rightarrow> step_result" where
  "op_INITF opA opB opC i =
     res_bind (slot i (int opA)) (\<lambda>cl. res_bind (slot i (int opB)) (\<lambda>v.
       res_bind (cl_put cl (int opC - 1) v i) (\<lambda>i. Inr (Next i))))"

text \<open>\<^verbatim>\<open>fprintf\<close> and \<^verbatim>\<open>exit(3)\<close>.\<close>

definition op_RAISE :: "step_result" where
  "op_RAISE = Inl (Exit 3)"

definition exec_simple :: "opcode \<Rightarrow> bcins \<Rightarrow> ist \<Rightarrow> u8 result option" where
  "exec_simple op ins i =
     (let b = unat (bc_b ins); c = unat (bc_c ins); d = unat (bc_d ins)
      in case op of
           NEG \<Rightarrow> Some (res_bind (slot i (int d)) (\<lambda>x. Inr (- x)))
         | MOV \<Rightarrow> Some (slot i (int d))
         | BNOT \<Rightarrow> Some (res_bind (slot i (int d)) (\<lambda>x. Inr (NOT x)))
         | LOADSLF \<Rightarrow> Some (slot i (-1))
         | LOADF \<Rightarrow> Some (op_LOADF b c i)
         | LOADFV \<Rightarrow> Some (op_LOADFV d i)
         | PTROFSC \<Rightarrow> Some (op_PTROFSC b c i)
         | LOADK \<Rightarrow> Some (op_LOADK d i)
         | MOV_RES \<Rightarrow> Some (op_MOV_RES d i)
         | LOADBH \<Rightarrow> Some (op_LOADBH i)
         | GETTAG \<Rightarrow> Some (op_GETTAG d i)
         | _ \<Rightarrow> None)"

definition exec_special :: "env \<Rightarrow> opcode \<Rightarrow> bcins \<Rightarrow> ist \<Rightarrow> step_result" where
  "exec_special e op ins i =
     (let a = unat (bc_a ins); b = unat (bc_b ins); c = unat (bc_c ins); d = unat (bc_d ins)
      in case op of
           ALLOC1 \<Rightarrow> op_ALLOC1 e a b c i
         | ALLOC \<Rightarrow> op_ALLOC e a b c i
         | ALLOCAP \<Rightarrow> op_ALLOCAP e a (ucast (bc_b ins)) c i
         | JMP \<Rightarrow> Inr (Next (op_JMP (bc_d ins) i))
         | EVAL \<Rightarrow> op_EVAL a i
         | RET1 \<Rightarrow> op_RET1 a i
         | RETN \<Rightarrow> op_RETN a i
         | IRET \<Rightarrow> op_IRET a i
         | UPDATE \<Rightarrow> op_UPDATE a d i
         | CALL \<Rightarrow> op_CALL e a c i
         | CALLT \<Rightarrow> op_CALLT e a c i
         | FUNC \<Rightarrow> op_FUNC a i
         | IFUNC \<Rightarrow> op_FUNC a i
         | FUNCPAP \<Rightarrow> op_FUNC a i
         | CASE \<Rightarrow> op_CASE a (bc_d ins) i
         | CASE_S \<Rightarrow> op_CASE_S a (bc_d ins) i
         | SYNC \<Rightarrow> Inr (Next (load_state i))
         | JFUNC \<Rightarrow> op_JFUNC e i
         | RAISE \<Rightarrow> op_RAISE
         | INITF \<Rightarrow> op_INITF a b c i
         | NEWBYTEA \<Rightarrow> op_NEWBYTEA e a b i
         | GETA1 \<Rightarrow> op_GETA 1 a b c i | GETA2 \<Rightarrow> op_GETA 2 a b c i
         | GETA4 \<Rightarrow> op_GETA 4 a b c i | GETA8 \<Rightarrow> op_GETA 8 a b c i
         | SETA1 \<Rightarrow> op_SETA 1 a b c i | SETA2 \<Rightarrow> op_SETA 2 a b c i
         | SETA4 \<Rightarrow> op_SETA 4 a b c i | SETA8 \<Rightarrow> op_SETA 8 a b c i
         | STOP \<Rightarrow> finish kInterpOk i
         | _ \<Rightarrow> finish kInterpUnimplemented i)"

text \<open>\<^verbatim>\<open>DISPATCH_NEXT\<close> and the implementation it jumps to; \<open>i\<close> has the program counter behind the
  instruction already.\<close>

definition exec :: "env \<Rightarrow> opcode \<Rightarrow> bcins \<Rightarrow> ist \<Rightarrow> step_result" where
  "exec e op ins i =
     (case branch_cond op of
        Some f \<Rightarrow>
          res_bind (slot i (int (unat (bc_a ins)))) (\<lambda>x.
          res_bind (slot i (int (unat (bc_d ins)))) (\<lambda>y.
            if f x y
            then res_bind (w_u4 (i_w i) (i_pc i)) (\<lambda>jmp. Inr (Next (jump_by (bc_j jmp) (skip_ins 1 i))))
            else Inr (Next (skip_ins 1 i))))
      | None \<Rightarrow>
          (case alu op of
             Some f \<Rightarrow>
               res_bind (slot i (int (unat (bc_b ins)))) (\<lambda>x.
               res_bind (slot i (int (unat (bc_c ins)))) (\<lambda>y. assign (unat (bc_a ins)) (f x y) i))
           | None \<Rightarrow>
               (case exec_simple op ins i of
                  Some r \<Rightarrow> assign (unat (bc_a ins)) r i
                | None \<Rightarrow> exec_special e op ins i)))"

definition step :: "env \<Rightarrow> ist \<Rightarrow> step_result" where
  "step e i =
     res_bind (w_u4 (i_w i) (i_pc i)) (\<lambda>ins.
     res_bind (of_option BadAccess (bc_opcode ins)) (\<lambda>op. exec e op ins (skip_ins 1 i)))"

text \<open>Running at most \<open>n\<close> instructions.\<close>

fun run_steps :: "env \<Rightarrow> nat \<Rightarrow> ist \<Rightarrow> step_result" where
  "run_steps e 0 i = Inr (Next i)"
| "run_steps e (Suc n) i =
     res_bind (step e i) (\<lambda>r. case r of Next i \<Rightarrow> run_steps e n i | Finished ec i \<Rightarrow> Inr (Finished ec i))"

text \<open>
  \<^verbatim>\<open>interpMsg(kModeRun)\<close>: the state the interpreter starts in (no code object is known before the
  first call), and \<^verbatim>\<open>Capability::run\<close> and \<^verbatim>\<open>Capability::eval\<close> on at most \<open>n\<close> instructions.
\<close>

definition interp_start :: "ist \<Rightarrow> ist result" where
  "interp_start i =
     res_bind (getBumpAllocatorBounds (i_mm i)) (\<lambda>(heap, lim).
       Inr (load_state (i\<lparr>i_heap := heap, i_heaplim := lim\<rparr>)))"

definition cap_run :: "env \<Rightarrow> nat \<Rightarrow> ist \<Rightarrow> (bool \<times> ist) result" where
  "cap_run e n i =
     res_bind (interp_start i) (\<lambda>i.
     res_bind (run_steps e n i) (\<lambda>r.
       case r of Next i \<Rightarrow> Inl Diverge | Finished ec i \<Rightarrow> Inr (ec = kInterpOk, i)))"

definition cap_eval :: "env \<Rightarrow> nat \<Rightarrow> u8 \<Rightarrow> ist \<Rightarrow> (bool \<times> ist) result" where
  "cap_eval e n cl i =
     res_bind (th_setSlot (i_T i) 0 cl (i_w i)) (\<lambda>w. cap_run e n (set_w w i))"

text \<open>\<^verbatim>\<open>setState\<close>, without the timers of the statistics; the dispatch table is the flag \<^const>\<open>kRecording\<close>.\<close>

definition STATE_INTERP :: int where "STATE_INTERP = 0"
definition STATE_RECORD :: int where "STATE_RECORD = 1"

definition setState :: "int \<Rightarrow> ist \<Rightarrow> ist result" where
  "setState st i =
     (if st = STATE_INTERP then Inr (i\<lparr>i_flags := flag_clear (i_flags i) kRecording\<rparr>)
      else if st = STATE_RECORD then Inr (i\<lparr>i_flags := flag_set (i_flags i) kRecording\<rparr>)
      else Inl (Exit 1))"

definition finishRecording :: "ist \<Rightarrow> ist result" where
  "finishRecording i = setState STATE_INTERP i"

inductive interp :: "env \<Rightarrow> ist \<Rightarrow> ist \<Rightarrow> bool" for e where
  interp_refl: "interp e i i"
| interp_step: "step e i = Inr (Next i') \<Longrightarrow> interp e i' i'' \<Longrightarrow> interp e i i''"

section \<open>Trace selection\<close>

definition isStartOfTrace :: "world \<Rightarrow> u8 \<Rightarrow> u8 \<Rightarrow> bool \<Rightarrow> bool result" where
  "isStartOfTrace w srcPc dstPc is_return =
     (if \<not> dstPc < srcPc then Inr False
      else res_bind (w_u4 w dstPc) (\<lambda>ins. Inr (bc_opcode ins = Some FUNC \<or> is_return)))"

datatype branch_decision = Continue | EnterTrace | StartRecording

text \<open>
  What \<^verbatim>\<open>interpBranch\<close> decides with the tracing compiler: \<open>traceAt\<close> says whether a compiled trace
  starts at an address.
\<close>

definition interpBranch ::
  "(u8 \<Rightarrow> bool) \<Rightarrow> misc \<Rightarrow> bool \<Rightarrow> world \<Rightarrow> u8 \<Rightarrow> u8 \<Rightarrow> bool \<Rightarrow> hot_counters \<Rightarrow>
    (branch_decision \<times> hot_counters) result" where
  "interpBranch traceAt mc recording w srcPc dstPc is_return hc =
     (if recording then Inr (Continue, hc)
      else
        res_bind (isStartOfTrace w srcPc dstPc is_return) (\<lambda>st.
          if \<not> st then Inr (Continue, hc)
          else if traceAt dstPc then Inr (EnterTrace, hc)
          else case hc_tick hc dstPc of (hot, hc) \<Rightarrow>
            Inr (if hot \<and> dstPc \<noteq> stg_UPD_return_pc mc then StartRecording else Continue, hc)))"
end
