(* ===== verification/Execution.thy ===== *)
theory Execution
  imports Interp
begin

text \<open>
  What the instructions of the interpreter achieve (\<^verbatim>\<open>src/vm/capability.cc\<close>, modelled in theory
  \<open>Interp\<close>): case dispatch, evaluation of thunks and return through update frames, partial
  applications, allocation, arithmetic, byte arrays, jumps and the choice of trace heads.
\<close>

section \<open>Case dispatch finds the alternative\<close>

text \<open>The alternatives of a sparse case as an association list from tags to offsets.\<close>

definition alt_table :: "u4 list \<Rightarrow> (u4 \<times> u4) list" where
  "alt_table alts = map (\<lambda>alt. (drop_bit 16 alt, alt AND 0xffff)) alts"

definition alt_offset :: "u4 list \<Rightarrow> u4 \<Rightarrow> u4" where
  "alt_offset alts tag = (case map_of (alt_table alts) tag of None \<Rightarrow> 0 | Some ofs \<Rightarrow> ofs + 1)"

definition alts_ascending :: "u4 list \<Rightarrow> bool" where
  "alts_ascending alts \<longleftrightarrow> sorted_wrt (<) (map (drop_bit 16) alts)"

lemma alt_offset_at:
  assumes "alts_ascending alts" and "k < length alts"
  shows "alt_offset alts (drop_bit 16 (alts ! k)) = (alts ! k AND 0xffff) + 1"
proof -
  have "distinct (map fst (alt_table alts))"
    using assms(1) by (simp add: alts_ascending_def alt_table_def comp_def strict_sorted_iff)
  then have "map_of (alt_table alts) (drop_bit 16 (alts ! k)) = Some (alts ! k AND 0xffff)"
    using assms(2) by (intro map_of_is_SomeI) (auto simp: alt_table_def)
  then show ?thesis by (simp add: alt_offset_def)
qed

lemma alt_offset_missing:
  assumes "\<And>k. k < length alts \<Longrightarrow> drop_bit 16 (alts ! k) \<noteq> tag"
  shows "alt_offset alts tag = 0"
proof -
  have "map_of (alt_table alts) tag = None"
    using assms by (fastforce simp: map_of_eq_None_iff alt_table_def in_set_conv_nth)
  then show ?thesis by (simp add: alt_offset_def)
qed

lemma case_search_step:
  assumes "0 \<le> e - s" and "targets (s + (e - s) div 2) = Inr alt"
  shows "case_search targets tag s e =
    (if tag = drop_bit 16 alt then Inr ((alt AND 0xffff) + 1)
     else if tag < drop_bit 16 alt then case_search targets tag s (s + (e - s) div 2 - 1)
     else case_search targets tag (s + (e - s) div 2 + 1) e)"
  using assms by (subst case_search.simps) (simp add: Let_def)

lemma case_search_correct:
  assumes "alts_ascending alts" and "\<And>k. k < length alts \<Longrightarrow> targets (int k) = Inr (alts ! k)"
    and "0 \<le> s" and "e < int (length alts)"
    and "\<And>k. k < length alts \<Longrightarrow> drop_bit 16 (alts ! k) = tag \<Longrightarrow> s \<le> int k \<and> int k \<le> e"
  shows "case_search targets tag s e = Inr (alt_offset alts tag)"
  using assms(3-5)
proof (induction "nat (e - s + 1)" arbitrary: s e rule: less_induct)
  case less
  have mono: "drop_bit 16 (alts ! i) < drop_bit 16 (alts ! j)" if "i < j" "j < length alts" for i j
    using assms(1) that by (auto simp: alts_ascending_def sorted_wrt_iff_nth_less)
  show ?case
  proof (cases "0 \<le> e - s")
    case False
    then have "alt_offset alts tag = 0"
      using less.prems(3) by (intro alt_offset_missing) fastforce
    then show ?thesis
      using False by (subst case_search.simps) simp
  next
    case True
    define m where "m = s + (e - s) div 2"
    have m: "s \<le> m" "m \<le> e" using True by (auto simp: m_def)
    define k where "k = nat m"
    have k: "m = int k" "k < length alts"
      using m less.prems(1,2) by (auto simp: k_def)
    note st = case_search_step [OF True, of targets "alts ! k" tag, folded m_def,
        OF assms(2) [OF k(2), folded k(1)]]
    consider "tag = drop_bit 16 (alts ! k)" | "tag < drop_bit 16 (alts ! k)"
      | "drop_bit 16 (alts ! k) < tag"
      by fastforce
    then show ?thesis
    proof cases
      case 1
      then show ?thesis
        using st alt_offset_at [OF assms(1) k(2)] by simp
    next
      case 2
      have "s \<le> int j \<and> int j \<le> m - 1" if "j < length alts" "drop_bit 16 (alts ! j) = tag" for j
        using less.prems(3) [OF that] mono [of k j] that 2 k by (cases j k rule: linorder_cases) auto
      then have "case_search targets tag s (m - 1) = Inr (alt_offset alts tag)"
        using m less.prems by (intro less.hyps) auto
      then show ?thesis
        by (simp only: st 2 order.strict_implies_not_eq [OF 2] if_True if_False)
    next
      case 3
      have "m + 1 \<le> int j \<and> int j \<le> e" if "j < length alts" "drop_bit 16 (alts ! j) = tag" for j
        using less.prems(3) [OF that] mono [of j k] that 3 k by (cases j k rule: linorder_cases) auto
      then have "case_search targets tag (m + 1) e = Inr (alt_offset alts tag)"
        using m less.prems by (intro less.hyps) auto
      then show ?thesis using st 3 by auto
    qed
  qed
qed

text \<open>
  \<^bold>\<open>C14.\<close> The binary search of \<^verbatim>\<open>CASE_S\<close> selects the alternative a linear search would select.  If the
  alternatives stand in memory in ascending order of their tags, and all tags lie between the
  \<^verbatim>\<open>min_tag\<close> and the \<^verbatim>\<open>max_tag\<close> of the instruction, control goes to the offset listed for the tag of
  the scrutinee, counted from behind the table, and to the default case if the tag is not listed.
\<close>

theorem case_s_selects:
  assumes "slot i (int opA) = Inr cl" and "cl_tag (i_w i) cl = Inr t"
    and "w_u4 (i_w i) (i_pc i) = Inr minMax" and "length alts = unat n"
    and "\<forall>k < length alts. w_u4 (i_w i) (i_pc i + 4 + of_nat (4 * k)) = Inr (alts ! k)"
    and "alts_ascending alts"
    and "\<forall>alt \<in> set alts. minMax AND 0xffff \<le> drop_bit 16 alt \<and> drop_bit 16 alt \<le> drop_bit 16 minMax"
  shows "op_CASE_S opA n i =
    Inr (Next (skip_ins (unat n + 1 + unat (alt_offset alts (ucast t))) i))"
proof -
  let ?t = "ucast t :: u4"
  have ts: "w_u4 (i_w i) (i_pc i + 4 + of_int (4 * int k)) = Inr (alts ! k)" if "k < length alts" for k
    using assms(5) that by simp
  have out: "alt_offset alts ?t = 0" if "\<not> (minMax AND 0xffff \<le> ?t \<and> ?t \<le> drop_bit 16 minMax)"
    using assms(7) that by (intro alt_offset_missing) (metis nth_mem)
  have "case_search (\<lambda>k. w_u4 (i_w i) (i_pc i + 4 + of_int (4 * k))) ?t 0 (int (unat n) - 1) =
      Inr (alt_offset alts ?t)"
    by (intro case_search_correct assms(6) ts) (auto simp only: assms(4) [symmetric])
  then show ?thesis
    using assms(1-3) out by (simp add: op_CASE_S_def Let_def)
qed

text \<open>A state to instantiate the properties of this theory with; the regions are those of \<^const>\<open>demo_sanity\<close>.\<close>

definition demo_misc :: misc where
  "demo_misc = misc_reset\<lparr>stg_UPD_closure_addr := 0x100600, stg_UPD_return_pc := 0x3008, stg_IND_info := 0x110040\<rparr>"

definition demo_code :: "u8 \<Rightarrow> nat \<Rightarrow> nat \<Rightarrow> code" where
  "demo_code a framesize arity = \<lparr>c_framesize = framesize, c_arity = arity, c_sizecode = 8, c_sizelits = 0,
     c_sizebitmaps = 0, c_lits = [], c_littypes = [], c_code = a\<rparr>"

definition demo_itbl :: "closure_type \<Rightarrow> u2 \<Rightarrow> code option \<Rightarrow> info_table" where
  "demo_itbl ty tag c = \<lparr>it_bitmap = 0, it_type = ty, it_size = 1, it_tagOrBitmap = tag, it_code = c\<rparr>"

definition demo_ist :: "world \<Rightarrow> u8 \<Rightarrow> u8 \<Rightarrow> u8 \<Rightarrow> ist" where
  "demo_ist w base tp pc = \<lparr>i_T = \<lparr>th_pc = pc, th_stackSize = 64, th_base = base, th_top = tp, th_stack = 0x1000\<rparr>,
     i_base = base, i_pc = pc, i_heap = 0x108000, i_heaplim = 0x110000, i_code = demo_code 0x2000 1 0,
     i_mm = demo_sanity\<lparr>mm_world := w\<rparr>, i_misc = demo_misc, i_static_roots = 0,
     i_flags = \<lparr>raw_flags = 0\<rparr>, i_abort = False\<rparr>"

lemma demo_ist_sel [simp]:
  "i_w (demo_ist w base tp pc) = w" "i_pc (demo_ist w base tp pc) = pc" "i_base (demo_ist w base tp pc) = base"
  "th_top (i_T (demo_ist w base tp pc)) = tp" "i_misc (demo_ist w base tp pc) = demo_misc"
  "th_stackLimit (i_T (demo_ist w base tp pc)) = 0x1200"
  by (simp_all add: demo_ist_def th_stackLimit_def)

definition demo_case :: world where
  "demo_case = \<lparr>w_mem = [0x1018 \<mapsto> 0x100520, 0x100520 \<mapsto> 0x110000], w_infos = [0x110000 \<mapsto> demo_itbl CONSTR 5 None],
     w_code = [0x2000 \<mapsto> 2, 0x2002 \<mapsto> 5, 0x2004 \<mapsto> 3, 0x2006 \<mapsto> 2, 0x2008 \<mapsto> 1, 0x200a \<mapsto> 5]\<rparr>"

theorem case_s_selects_witness:
  "op_CASE_S 0 2 (demo_ist demo_case 0x1018 0x1020 0x2000) =
     Inr (Next (skip_ins 5 (demo_ist demo_case 0x1018 0x1020 0x2000)))"
proof -
  let ?i = "demo_ist demo_case 0x1018 0x1020 0x2000" and ?alts = "[0x20003, 0x50001] :: u4 list"
  have "op_CASE_S 0 2 ?i = Inr (Next (skip_ins (unat (2 :: u2) + 1 + unat (alt_offset ?alts (ucast (5 :: u2)))) ?i))"
  proof (rule case_s_selects [where cl = "0x100520" and minMax = "0x50002"])
    show "\<forall>k < length ?alts. w_u4 (i_w ?i) (i_pc ?i + 4 + of_nat (4 * k)) = Inr (?alts ! k)"
      by (auto simp: demo_case_def w_u4_def w_u2_def less_Suc_eq push_bit_eq_mult)
  qed (simp_all add: slot_def rd_def cl_tag_def cl_itbl_def cl_info_def info_at_def demo_case_def
      demo_itbl_def w_u4_def w_u2_def alts_ascending_def drop_bit_eq_div push_bit_eq_mult)
  then show ?thesis
    by (simp add: alt_offset_def alt_table_def drop_bit_eq_div)
qed

section \<open>Writes to memory\<close>

text \<open>The state after a write to a mapped address.\<close>

definition poke :: "u8 \<Rightarrow> u8 \<Rightarrow> ist \<Rightarrow> ist" where
  "poke a v i = set_w ((i_w i)\<lparr>w_mem := (w_mem (i_w i))(a \<mapsto> v)\<rparr>) i"

lemma wr_i_poke: "a \<in> dom (w_mem (i_w i)) \<Longrightarrow> wr_i a v i = Inr (poke a v i)"
  by (auto simp: wr_i_def wr_def poke_def)

lemma set_w_sel [simp]:
  "i_base (set_w w i) = i_base i" "i_pc (set_w w i) = i_pc i" "i_T (set_w w i) = i_T i" "i_misc (set_w w i) = i_misc i"
  "i_code (set_w w i) = i_code i" "i_w (set_w w i) = w" "mm_regions (i_mm (set_w w i)) = mm_regions (i_mm i)"
  by (simp_all add: set_w_def)

lemma poke_sel [simp]:
  "i_base (poke a v i) = i_base i" "i_pc (poke a v i) = i_pc i" "i_T (poke a v i) = i_T i"
  "i_misc (poke a v i) = i_misc i" "i_code (poke a v i) = i_code i"
  "w_infos (i_w (poke a v i)) = w_infos (i_w i)" "w_code (i_w (poke a v i)) = w_code (i_w i)"
  "w_mem (i_w (poke a v i)) = (w_mem (i_w i))(a \<mapsto> v)" "mm_regions (i_mm (poke a v i)) = mm_regions (i_mm i)"
  by (simp_all add: poke_def set_w_def)

lemma rd_poke [simp]: "rd (i_w (poke a v i)) b = (if b = a then Inr v else rd (i_w i) b)"
  by (simp add: rd_def)

lemma set_top_sel [simp]:
  "i_base (set_top t i) = i_base i" "i_pc (set_top t i) = i_pc i" "i_mm (set_top t i) = i_mm i"
  "i_misc (set_top t i) = i_misc i" "th_top (i_T (set_top t i)) = t"
  "th_stack (i_T (set_top t i)) = th_stack (i_T i)" "th_stackSize (i_T (set_top t i)) = th_stackSize (i_T i)"
  by (simp_all add: set_top_def)

lemma skip_ins_sel [simp]:
  "i_base (skip_ins n i) = i_base i" "i_pc (skip_ins n i) = i_pc i + of_nat (4 * n)" "i_T (skip_ins n i) = i_T i"
  "i_mm (skip_ins n i) = i_mm i" "i_misc (skip_ins n i) = i_misc i"
  by (simp_all add: skip_ins_def)

lemma word_at_add: "word_at (word_at p m) n = word_at p (m + n)"
  by (simp add: word_at_def distrib_left)

lemma rd_mapped: "rd w a = Inr v \<Longrightarrow> a \<in> dom (w_mem w)"
  by (auto simp: rd_def)

lemma info_at_eq: "w_infos w' = w_infos w \<Longrightarrow> info_at w' = info_at w"
  by (simp add: info_at_def fun_eq_iff)

lemma w_u4_eq: "w_code w' = w_code w \<Longrightarrow> w_u4 w' = w_u4 w"
  by (simp add: w_u4_def w_u2_def fun_eq_iff)

lemma mm_block_eq: "mm_regions m' = mm_regions m \<Longrightarrow> mm_block m' = mm_block m"
  by (simp add: mm_block_def mm_regionAt_def fun_eq_iff)

lemma blockFromPointer_eq: "mm_regions m' = mm_regions m \<Longrightarrow> blockFromPointer m' = blockFromPointer m"
  by (simp add: blockFromPointer_def mm_regionAt_def fun_eq_iff)

lemma looksLikeInfoTable_eq: "mm_regions m' = mm_regions m \<Longrightarrow> looksLikeInfoTable m' = looksLikeInfoTable m"
  by (rule ext) (simp add: looksLikeInfoTable_def mm_block_eq [of m' m] blockFromPointer_eq [of m' m])

lemma looksLikeClosure_eq:
  assumes "mm_regions m' = mm_regions m" and "rd (mm_world m') p = rd (mm_world m) p"
  shows "looksLikeClosure m' p = looksLikeClosure m p"
  unfolding looksLikeClosure_def cl_info_def mm_regionAt_def mm_block_eq [OF assms(1)] assms
    blockFromPointer_eq [OF assms(1)] looksLikeInfoTable_eq [OF assms(1)] by (rule refl)

section \<open>Update frames\<close>

lemma ind_fuel_Suc: "\<exists>k. ind_fuel = Suc (Suc k)"
  by (rule exI [of _ "2 ^ 64 - 2"]) (simp add: ind_fuel_def)

lemma skip_ind_stop: "cl_isIndirection w cl = Inr False \<Longrightarrow> skip_ind w cl = Inr cl"
  using ind_fuel_Suc by (metis if_False res_bind.simps(2) skip_ind_def skip_ind_loop.simps(2))

text \<open>
  The two frames that the evaluation of \<open>tnode\<close> puts on the stack: the update frame with base \<open>U\<close>,
  which returns to \<open>ret\<close> in the frame with base \<open>oldbase\<close>, and above it the frame of the thunk.
\<close>

definition upd_frame :: "ist \<Rightarrow> u8 \<Rightarrow> u8 \<Rightarrow> u8 \<Rightarrow> u8 \<Rightarrow> bool" where
  "upd_frame i U oldbase ret tnode \<longleftrightarrow>
     rd (i_w i) (word_at U (-3)) = Inr oldbase \<and> rd (i_w i) (word_at U (-2)) = Inr ret \<and>
     rd (i_w i) (word_at U (-1)) = Inr (stg_UPD_closure_addr (i_misc i)) \<and>
     rd (i_w i) U = Inr tnode \<and> word_at U 1 \<in> dom (w_mem (i_w i)) \<and>
     rd (i_w i) (word_at U 2) = Inr U \<and> rd (i_w i) (word_at U 3) = Inr (stg_UPD_return_pc (i_misc i)) \<and>
     rd (i_w i) (word_at U 4) = Inr tnode \<and> i_base i = word_at U 5"

lemma word_at_neq [simp]:
  "\<bar>m - n\<bar> < 2 ^ 61 \<Longrightarrow> word_at p m = word_at p n \<longleftrightarrow> m = n"
  "\<bar>n\<bar> < 2 ^ 61 \<Longrightarrow> p = word_at p n \<longleftrightarrow> n = 0"
  "\<bar>n\<bar> < 2 ^ 61 \<Longrightarrow> word_at p n = p \<longleftrightarrow> n = 0"
  using word_at_inject [of m n p] word_at_inject [of 0 n p] word_at_inject [of n 0 p] by auto

lemma push_frame_mapped:
  assumes "tp \<in> dom (w_mem (i_w i))" "word_at tp 1 \<in> dom (w_mem (i_w i))" "word_at tp 2 \<in> dom (w_mem (i_w i))"
  shows "push_frame tp ret clos n i =
    Inr (word_at tp (3 + int n),
      (poke (word_at tp 2) clos (poke (word_at tp 1) ret (poke tp (i_base i) i)))\<lparr>i_base := word_at tp 3\<rparr>)"
  using assms by (auto simp: push_frame_def pushFrame_def wr_def poke_def set_w_def word_at_add)

lemma i_base_update_sel [simp]: "i_w (i\<lparr>i_base := b\<rparr>) = i_w i" by simp

lemma setSlot_mapped:
  "word_at (i_base i) n \<in> dom (w_mem (i_w i)) \<Longrightarrow> setSlot n v i = Inr (poke (word_at (i_base i) n) v i)"
  by (simp add: setSlot_def wr_i_poke)

lemma op_EVAL_thunk:
  assumes "slot i (int opA) = Inr tnode" and "tnode \<noteq> 0" and "looksLikeClosure (i_mm i) tnode = Inr True"
    and "cl_itbl (i_w i) tnode = Inr it" and "it_type it \<in> {THUNK, CAF}" and "it_code it = Some c"
    and "cl_info (i_w i) tnode \<noteq> Inr (stg_IND_info (i_misc i))"
    and "\<not> stackOverflow (i_T i) (th_top (i_T i)) (8 + c_framesize c)"
    and "\<forall>k \<in> {0..7}. word_at (th_top (i_T i)) k \<in> dom (w_mem (i_w i))"
  shows "\<exists>i'. op_EVAL opA i = Inr (Next i') \<and>
    upd_frame i' (word_at (th_top (i_T i)) 3) (i_base i) (i_pc i + 4) tnode \<and>
    i_pc i' = c_code c \<and> i_code i' = c \<and> th_top (i_T i') = word_at (i_base i') (int (c_framesize c)) \<and>
    (\<forall>a. a \<notin> word_at (th_top (i_T i)) ` {0..7} \<longrightarrow> rd (i_w i') a = rd (i_w i) a)"
proof -
  let ?tp = "th_top (i_T i)"
  have "cl_isIndirection (i_w i) tnode = Inr False" "cl_isHNF (i_w i) tnode = Inr False"
    using assms(4,5) by (auto simp: cl_isIndirection_def cl_isHNF_def CF_IND_def CF_HNF_def CF_THU_def)
  moreover obtain info where "cl_info (i_w i) tnode = Inr info" "info \<noteq> stg_IND_info (i_misc i)"
    using assms(4,7) by (auto simp: cl_itbl_def result)
  moreover have "closure_code (i_w i) tnode = Inr c"
    using assms(4,6) by (simp add: closure_code_def itbl_code_def)
  moreover have d: "?tp \<in> dom (w_mem (i_w i))" "word_at ?tp 1 \<in> dom (w_mem (i_w i))"
      "word_at ?tp 2 \<in> dom (w_mem (i_w i))" "word_at ?tp 3 \<in> dom (w_mem (i_w i))"
      "word_at ?tp 4 \<in> dom (w_mem (i_w i))" "word_at ?tp 5 \<in> dom (w_mem (i_w i))"
      "word_at ?tp 6 \<in> dom (w_mem (i_w i))" "word_at ?tp 7 \<in> dom (w_mem (i_w i))"
    using assms(9) bspec [OF assms(9), of 0] by auto
  moreover have "?tp \<in> word_at ?tp ` {0..7}"
    by (rule image_eqI [of _ _ 0]) auto
  ultimately show ?thesis
    using assms(1-3,8)
    by (simp add: op_EVAL_def skip_ind_stop Let_def kStackFrameWords_def kUpdateFrameWords_def
        push_frame_mapped setSlot_mapped word_at_add upd_frame_def branch_to_def)
qed

text \<open>
  \<^bold>\<open>C11.\<close> \<^verbatim>\<open>EVAL\<close> of a thunk: if the stack check passes and the eight words above the top of the stack
  are mapped, the interpreter pushes an update frame for the thunk and a frame for its code, and
  continues with the first instruction of the thunk.  The update frame returns behind the liveness
  mask of the \<^verbatim>\<open>EVAL\<close>, and nothing but those eight words changes in memory.
\<close>

theorem eval_pushes_update_frame:
  assumes "slot i (int opA) = Inr tnode" and "tnode \<noteq> 0" and "looksLikeClosure (i_mm i) tnode = Inr True"
    and "cl_itbl (i_w i) tnode = Inr it" and "it_type it \<in> {THUNK, CAF}" and "it_code it = Some c"
    and "cl_info (i_w i) tnode \<noteq> Inr (stg_IND_info (i_misc i))"
    and "\<not> stackOverflow (i_T i) (th_top (i_T i)) (8 + c_framesize c)"
    and "\<forall>k \<in> {0..7}. word_at (th_top (i_T i)) k \<in> dom (w_mem (i_w i))"
  shows "\<exists>i'. op_EVAL opA i = Inr (Next i') \<and>
    upd_frame i' (word_at (th_top (i_T i)) 3) (i_base i) (i_pc i + 4) tnode \<and>
    i_pc i' = c_code c \<and> i_code i' = c \<and> th_top (i_T i') = word_at (i_base i') (int (c_framesize c)) \<and>
    (\<forall>a. a \<notin> word_at (th_top (i_T i)) ` {0..7} \<longrightarrow> rd (i_w i') a = rd (i_w i) a)"
  using assms by (rule op_EVAL_thunk)

definition demo_stack_mem :: "u8 \<rightharpoonup> u8" where
  "demo_stack_mem = (\<lambda>a. if 0x1000 \<le> a \<and> a < 0x1200 \<and> a mod 8 = 0 then Some 0 else None)"

definition demo_eval :: world where
  "demo_eval = \<lparr>w_mem = demo_stack_mem(0x1018 \<mapsto> 0x100520, 0x100520 \<mapsto> 0x110000, 0x100528 \<mapsto> 0),
     w_infos = [0x110000 \<mapsto> demo_itbl THUNK 0 (Some (demo_code 0x2000 1 0))], w_code = Map.empty\<rparr>"

lemma demo_looks:
  "rd w 0x100520 = Inr 0x110000 \<Longrightarrow> looksLikeClosure (i_mm (demo_ist w base tp pc)) 0x100520 = Inr True"
  using demo_sanity_looks(1) demo_sanity_heap(1)
  by (subst looksLikeClosure_eq [of _ demo_sanity]) (simp_all add: demo_ist_def cl_info_def)

lemma demo_eval_ready:
  "\<forall>k \<in> {0..7}. word_at (th_top (i_T (demo_ist demo_eval 0x1018 0x1020 0x3000))) k \<in> dom (w_mem (i_w (demo_ist demo_eval 0x1018 0x1020 0x3000)))"
  "\<not> stackOverflow (i_T (demo_ist demo_eval 0x1018 0x1020 0x3000)) (th_top (i_T (demo_ist demo_eval 0x1018 0x1020 0x3000)))
     (8 + c_framesize (demo_code 0x2000 1 0))"
proof -
  have s: "{0..7} = {0, 1, 2, 3, 4, 5, 6, 7 :: int}" by auto
  show "\<forall>k \<in> {0..7}. word_at (th_top (i_T (demo_ist demo_eval 0x1018 0x1020 0x3000))) k \<in> dom (w_mem (i_w (demo_ist demo_eval 0x1018 0x1020 0x3000)))"
    unfolding s by (simp add: demo_eval_def demo_stack_mem_def word_at_def dom_def)
  show "\<not> stackOverflow (i_T (demo_ist demo_eval 0x1018 0x1020 0x3000)) (th_top (i_T (demo_ist demo_eval 0x1018 0x1020 0x3000)))
     (8 + c_framesize (demo_code 0x2000 1 0))"
    by (simp add: stackOverflow_def demo_code_def FRAME_SIZE_def)
qed

lemma demo_eval_run:
  "\<exists>i'. op_EVAL 0 (demo_ist demo_eval 0x1018 0x1020 0x3000) = Inr (Next i') \<and>
     upd_frame i' 0x1038 0x1018 0x3004 0x100520 \<and> i_pc i' = 0x2000"
proof -
  let ?i = "demo_ist demo_eval 0x1018 0x1020 0x3000"
  have "\<exists>i'. op_EVAL 0 ?i = Inr (Next i') \<and>
      upd_frame i' (word_at (th_top (i_T ?i)) 3) (i_base ?i) (i_pc ?i + 4) 0x100520 \<and>
      i_pc i' = c_code (demo_code 0x2000 1 0) \<and> i_code i' = demo_code 0x2000 1 0 \<and>
      th_top (i_T i') = word_at (i_base i') (int (c_framesize (demo_code 0x2000 1 0))) \<and>
      (\<forall>a. a \<notin> word_at (th_top (i_T ?i)) ` {0..7} \<longrightarrow> rd (i_w i') a = rd (i_w ?i) a)"
    by (rule op_EVAL_thunk [where it = "demo_itbl THUNK 0 (Some (demo_code 0x2000 1 0))", OF _ _ demo_looks _ _ _ _ demo_eval_ready(2,1)])
      (simp_all add: slot_def rd_def cl_itbl_def cl_info_def info_at_def demo_eval_def demo_itbl_def demo_misc_def)
  then show ?thesis
    by (auto simp: word_at_def demo_code_def)
qed

theorem eval_pushes_update_frame_witness:
  "\<exists>i'. op_EVAL 0 (demo_ist demo_eval 0x1018 0x1020 0x3000) = Inr (Next i') \<and>
     upd_frame i' 0x1038 0x1018 0x3004 0x100520 \<and> i_pc i' = 0x2000"
proof -
  let ?i = "demo_ist demo_eval 0x1018 0x1020 0x3000"
  have "\<exists>i'. op_EVAL 0 ?i = Inr (Next i') \<and>
      upd_frame i' (word_at (th_top (i_T ?i)) 3) (i_base ?i) (i_pc ?i + 4) 0x100520 \<and>
      i_pc i' = c_code (demo_code 0x2000 1 0) \<and> i_code i' = demo_code 0x2000 1 0 \<and>
      th_top (i_T i') = word_at (i_base i') (int (c_framesize (demo_code 0x2000 1 0))) \<and>
      (\<forall>a. a \<notin> word_at (th_top (i_T ?i)) ` {0..7} \<longrightarrow> rd (i_w i') a = rd (i_w ?i) a)"
    by (rule eval_pushes_update_frame [where it = "demo_itbl THUNK 0 (Some (demo_code 0x2000 1 0))", OF _ _ demo_looks _ _ _ _ demo_eval_ready(2,1)])
      (simp_all add: slot_def rd_def cl_itbl_def cl_info_def info_at_def demo_eval_def demo_itbl_def demo_misc_def)
  then show ?thesis
    by (auto simp: word_at_def demo_code_def)
qed

text \<open>The code of \<open>node\<close> contains the return address \<open>ret\<close>, which is what a return asserts.\<close>

definition returns_into :: "ist \<Rightarrow> u8 \<Rightarrow> u8 \<Rightarrow> code \<Rightarrow> bool" where
  "returns_into i node ret c \<longleftrightarrow> looksLikeClosure (i_mm i) node = Inr True \<and>
     closure_code (i_w i) node = Inr c \<and> c_code c < ret \<and> ret < c_code c + of_nat (4 * c_sizecode c)"

text \<open>\<open>i'\<close> differs from \<open>i\<close> in memory at most at the addresses \<open>A\<close>.\<close>

definition only_writes :: "u8 set \<Rightarrow> ist \<Rightarrow> ist \<Rightarrow> bool" where
  "only_writes A i i' \<longleftrightarrow> mm_regions (i_mm i') = mm_regions (i_mm i) \<and>
     w_infos (i_w i') = w_infos (i_w i) \<and> w_code (i_w i') = w_code (i_w i) \<and> i_misc i' = i_misc i \<and>
     dom (w_mem (i_w i')) = dom (w_mem (i_w i)) \<and>
     (\<forall>a. a \<notin> A \<longrightarrow> rd (i_w i') a = rd (i_w i) a)"

lemma only_writes_refl: "only_writes A i i"
  by (simp add: only_writes_def)

lemma only_writes_trans: "only_writes A i i' \<Longrightarrow> only_writes A i' i'' \<Longrightarrow> only_writes A i i''"
  by (auto simp: only_writes_def)

lemma only_writes_poke: "a \<in> A \<Longrightarrow> a \<in> dom (w_mem (i_w i)) \<Longrightarrow> only_writes A i (poke a v i)"
  by (auto simp: only_writes_def)

lemma only_writesD:
  assumes "only_writes A i i'"
  shows "w_u4 (i_w i') = w_u4 (i_w i)" "info_at (i_w i') = info_at (i_w i)" "i_misc i' = i_misc i"
    "a \<notin> A \<Longrightarrow> rd (i_w i') a = rd (i_w i) a" "a \<notin> A \<Longrightarrow> looksLikeClosure (i_mm i') a = looksLikeClosure (i_mm i) a"
    "a \<notin> A \<Longrightarrow> cl_itbl (i_w i') a = cl_itbl (i_w i) a" "a \<notin> A \<Longrightarrow> closure_code (i_w i') a = closure_code (i_w i) a"
    "dom (w_mem (i_w i')) = dom (w_mem (i_w i))"
  using assms info_at_eq [of "i_w i'" "i_w i"] w_u4_eq [of "i_w i'" "i_w i"]
    looksLikeClosure_eq [of "i_mm i'" "i_mm i"]
  by (auto simp: only_writes_def cl_itbl_def cl_info_def closure_code_def)

lemma returns_into_writes:
  "only_writes A i i' \<Longrightarrow> node \<notin> A \<Longrightarrow> returns_into i' node ret c = returns_into i node ret c"
  by (simp add: returns_into_def only_writesD)

lemma do_return_eq:
  assumes "slot i (-2) = Inr ret" and "slot i (-3) = Inr b" and "rd (i_w i) (word_at b (-1)) = Inr node"
    and "returns_into i node ret c"
  shows "do_return i = Inr (Next ((set_top (word_at (i_base i) (-3)) i)\<lparr>i_base := b, i_code := c, i_pc := ret\<rparr>))"
  using assms by (simp add: do_return_def Let_def slot_def returns_into_def branch_to_def)

lemma step_ad:
  "w_u4 (i_w i) (i_pc i) = Inr (bc_ad op a d) \<Longrightarrow> step e i = exec e op (bc_ad op a d) (skip_ins 1 i)"
  by (simp add: step_def bytes)

lemma step_MOV_RES:
  assumes "w_u4 (i_w i) (i_pc i) = Inr (bc_ad MOV_RES a d)"
    and "rd (i_w i) (word_at (th_top (i_T i)) (3 + int (unat d))) = Inr v"
    and "word_at (i_base i) (int (unat a)) \<in> dom (w_mem (i_w i))"
  shows "step e i = Inr (Next (poke (word_at (i_base i) (int (unat a))) v (skip_ins 1 i)))"
  using assms by (simp add: step_ad exec_def exec_simple_def op_MOV_RES_def assign_def bytes FRAME_SIZE_def setSlot_mapped)

lemma step_UPDATE_thunk:
  assumes "w_u4 (i_w i) (i_pc i) = Inr (bc_ad UPDATE a d)"
    and "slot i (int (unat a)) = Inr old" and "slot i (int (unat d)) = Inr new"
    and "old \<noteq> 0" "looksLikeClosure (i_mm i) old = Inr True" and "new \<noteq> 0" "looksLikeClosure (i_mm i) new = Inr True"
    and "cl_itbl (i_w i) old = Inr it" and "it_type it = THUNK" and "word_at old 1 \<in> dom (w_mem (i_w i))"
  shows "step e i = Inr (Next (poke (word_at old 1) new (poke old (stg_IND_info (i_misc i)) (skip_ins 1 i))))"
proof -
  have "cl_isHNF (i_w i) old = Inr False" and "old \<in> dom (w_mem (i_w i))"
    using assms(8,9) rd_mapped [of "i_w i" old]
    by (auto simp: cl_isHNF_def CF_HNF_def CF_THU_def cl_itbl_def cl_info_def result)
  then show ?thesis
    using assms by (simp add: step_ad exec_def exec_simple_def exec_special_def bytes Let_def slot_def
        op_UPDATE_def wr_i_poke cl_put_def)
qed

lemma step_IRET:
  assumes "w_u4 (i_w i) (i_pc i) = Inr (bc_ad IRET a d)" and "slot i (int (unat a)) = Inr v"
    and "i_base i \<in> dom (w_mem (i_w i))"
  shows "step e i = do_return (poke (i_base i) v (skip_ins 1 i))"
  using assms by (simp add: step_ad exec_def exec_simple_def exec_special_def op_IRET_def bytes Let_def slot_def setSlot_mapped)

text \<open>What the return through an update frame relies on, apart from the frames.\<close>

definition upd_ready :: "ist \<Rightarrow> u8 \<Rightarrow> u8 \<Rightarrow> u8 \<Rightarrow> u8 \<Rightarrow> u8 \<Rightarrow> u8 \<Rightarrow> code \<Rightarrow> bool" where
  "upd_ready i U oldbase ret tnode v node c \<longleftrightarrow>
     (let p = stg_UPD_return_pc (i_misc i); A = {U, word_at U 1, tnode, word_at tnode 1}
      in w_u4 (i_w i) p = Inr (bc_ad MOV_RES 1 0) \<and> w_u4 (i_w i) (p + 4) = Inr (bc_ad UPDATE 0 1) \<and>
         w_u4 (i_w i) (p + 8) = Inr (bc_ad IRET 1 0) \<and>
         (\<exists>cu. returns_into i (stg_UPD_closure_addr (i_misc i)) p cu) \<and>
         rd (i_w i) (word_at oldbase (-1)) = Inr node \<and> returns_into i node ret c \<and>
         tnode \<noteq> 0 \<and> looksLikeClosure (i_mm i) tnode = Inr True \<and>
         (\<exists>it. cl_itbl (i_w i) tnode = Inr it \<and> it_type it = THUNK) \<and> word_at tnode 1 \<in> dom (w_mem (i_w i)) \<and>
         v \<noteq> 0 \<and> looksLikeClosure (i_mm i) v = Inr True \<and>
         {v, node, word_at oldbase (-1), word_at U (-3), word_at U (-2)} \<inter> A = {} \<and>
         {U, word_at U 1} \<inter> {tnode, word_at tnode 1} = {})"

lemma update_frame_run:
  assumes "upd_frame i U oldbase ret tnode" and "slot i 0 = Inr v"
    and "upd_ready i U oldbase ret tnode v node c"
  shows "\<exists>i1 i'. do_return i = Inr (Next i1) \<and> run_steps e 3 i1 = Inr (Next i') \<and>
    i_base i' = oldbase \<and> i_pc i' = ret \<and> i_code i' = c \<and> th_top (i_T i') = word_at U (-3) \<and>
    rd (i_w i') U = Inr v \<and> rd (i_w i') tnode = Inr (stg_IND_info (i_misc i)) \<and>
    rd (i_w i') (word_at tnode 1) = Inr v \<and> only_writes {U, word_at U 1, tnode, word_at tnode 1} i i'"
proof -
  let ?A = "{U, word_at U 1, tnode, word_at tnode 1}" and ?p = "stg_UPD_return_pc (i_misc i)"
  note F = assms(1) [unfolded upd_frame_def] and R = assms(3) [unfolded upd_ready_def Let_def]
  obtain cu where cu: "returns_into i (stg_UPD_closure_addr (i_misc i)) ?p cu" using R by blast
  obtain it where it: "cl_itbl (i_w i) tnode = Inr it" "it_type it = THUNK" using R by blast
  have m: "U \<in> dom (w_mem (i_w i))" "tnode \<in> dom (w_mem (i_w i))"
    using F it(1) rd_mapped by (auto simp: cl_itbl_def cl_info_def result)
  define i1 where "i1 = (set_top (word_at (i_base i) (-3)) i)\<lparr>i_base := U, i_code := cu, i_pc := ?p\<rparr>"
  have s1: "do_return i = Inr (Next i1)"
    unfolding i1_def using F cu by (intro do_return_eq) (auto simp: slot_def word_at_add)
  have i1: "i_w i1 = i_w i" "i_mm i1 = i_mm i" "i_base i1 = U" "i_pc i1 = ?p" "i_misc i1 = i_misc i"
      "th_top (i_T i1) = word_at U 2"
    using F by (simp_all add: i1_def set_top_def word_at_add)
  define i2 where "i2 = poke (word_at U 1) v (skip_ins 1 i1)"
  have s2: "step e i1 = Inr (Next i2)"
    using F R assms(2) step_MOV_RES [of i1 1 0 v e] i1 by (simp add: i2_def slot_def word_at_add)
  have w2: "only_writes {U, word_at U 1} i i2"
    using F i1 by (auto simp: only_writes_def i2_def)
  note d2 = only_writesD [OF w2]
  have i2: "i_base i2 = U" "i_pc i2 = ?p + 4" "rd (i_w i2) U = Inr tnode" "rd (i_w i2) (word_at U 1) = Inr v"
    using i1 F by (simp_all add: i2_def)
  define i3 where "i3 = poke (word_at tnode 1) v (poke tnode (stg_IND_info (i_misc i)) (skip_ins 1 i2))"
  have s3: "step e i2 = Inr (Next i3)"
    using step_UPDATE_thunk [of i2 0 1 tnode v it e] i2 R it d2 by (auto simp: slot_def i3_def)
  have w3: "only_writes ?A i i3"
    using w2 R m(2) by (auto simp: only_writes_def i3_def)
  have i3: "i_base i3 = U" "i_pc i3 = ?p + 8" "rd (i_w i3) (word_at U 1) = Inr v"
    using i2 R by (auto simp: i3_def)
  define i4 where "i4 = poke U v (skip_ins 1 i3)"
  have s4: "step e i3 = do_return i4"
    using step_IRET [of i3 1 0 v e] i3 R only_writesD [OF w3] m(1) by (auto simp: slot_def i4_def)
  have w4: "only_writes ?A i i4"
    using w3 m(1) by (auto simp: only_writes_def i4_def)
  note d4 = only_writesD [OF w4]
  define i5 where "i5 = (set_top (word_at U (-3)) i4)\<lparr>i_base := oldbase, i_code := c, i_pc := ret\<rparr>"
  have b4: "i_base i4 = U" using i3 by (simp add: i4_def)
  have "do_return i4 = Inr (Next ((set_top (word_at (i_base i4) (-3)) i4)\<lparr>i_base := oldbase, i_code := c, i_pc := ret\<rparr>))"
    using F R d4(4) returns_into_writes [OF w4, of node ret c] b4
    by (intro do_return_eq) (auto simp: slot_def)
  then have s5: "do_return i4 = Inr (Next i5)" by (simp add: i5_def b4)
  have "run_steps e 3 i1 = Inr (Next i5)"
    using s2 s3 s4 s5 by (simp add: numeral_3_eq_3)
  moreover have "only_writes ?A i i5"
    using w4 by (simp add: only_writes_def i5_def)
  moreover have "rd (i_w i5) U = Inr v" "rd (i_w i5) tnode = Inr (stg_IND_info (i_misc i))"
      "rd (i_w i5) (word_at tnode 1) = Inr v"
    using R by (auto simp: i5_def i4_def i3_def)
  ultimately show ?thesis
    using s1 by (intro exI [of _ i1] exI [of _ i5]) (simp add: i5_def)
qed

lemma skip_ind_once:
  assumes "rd w cl = Inr info" and "info_at w info = Inr it" and "it_type it = IND"
    and "rd w (word_at cl 1) = Inr v" and "cl_isIndirection w v = Inr False"
  shows "skip_ind w cl = Inr v"
proof -
  obtain k where k: "ind_fuel = Suc (Suc k)" using ind_fuel_Suc by blast
  have "cl_isIndirection w cl = Inr True"
    using assms(1-3) by (simp add: cl_isIndirection_def cl_itbl_def cl_info_def CF_IND_def)
  then show ?thesis
    unfolding skip_ind_def k using assms(4,5) by (simp add: cl_payload_def)
qed

text \<open>
  \<^bold>\<open>C3.\<close> Returning from a thunk: when the code of the thunk returns the value \<open>v\<close> through the frames that
  \<^verbatim>\<open>EVAL\<close> pushed (\<open>upd_frame\<close>), the three instructions of the update frame overwrite the thunk by
  an indirection to \<open>v\<close>, return to the instruction behind the \<^verbatim>\<open>EVAL\<close> with the base and the top of
  the evaluating frame, and leave \<open>v\<close> where the \<^verbatim>\<open>MOV_RES\<close> there reads it.  Afterwards following
  indirections from the thunk yields \<open>v\<close>.  Four words of memory change.
\<close>

theorem update_frame_returns:
  assumes "upd_frame i U oldbase ret tnode" and "slot i 0 = Inr v"
    and "upd_ready i U oldbase ret tnode v node c"
    and "info_at (i_w i) (stg_IND_info (i_misc i)) = Inr ind" and "it_type ind = IND"
    and "cl_isIndirection (i_w i) v = Inr False"
  shows "\<exists>i1 i'. do_return i = Inr (Next i1) \<and> run_steps e 3 i1 = Inr (Next i') \<and>
    i_base i' = oldbase \<and> i_pc i' = ret \<and> i_code i' = c \<and> th_top (i_T i') = word_at U (-3) \<and>
    rd (i_w i') (word_at (th_top (i_T i')) (int FRAME_SIZE)) = Inr v \<and> skip_ind (i_w i') tnode = Inr v \<and>
    only_writes {U, word_at U 1, tnode, word_at tnode 1} i i'"
proof -
  obtain i1 i' where r: "do_return i = Inr (Next i1)" "run_steps e 3 i1 = Inr (Next i')" "i_base i' = oldbase"
      "i_pc i' = ret" "i_code i' = c" "th_top (i_T i') = word_at U (-3)"
      "rd (i_w i') U = Inr v" "rd (i_w i') tnode = Inr (stg_IND_info (i_misc i))"
      "rd (i_w i') (word_at tnode 1) = Inr v" "only_writes {U, word_at U 1, tnode, word_at tnode 1} i i'"
    using update_frame_run [OF assms(1-3), of e] by blast
  have "v \<notin> {U, word_at U 1, tnode, word_at tnode 1}"
    using assms(3) by (auto simp: upd_ready_def Let_def)
  then have "cl_isIndirection (i_w i') v = Inr False"
    using assms(6) only_writesD(6) [OF r(10)] by (simp add: cl_isIndirection_def)
  then have "skip_ind (i_w i') tnode = Inr v"
    using assms(4,5) r only_writesD(2) [OF r(10)] by (intro skip_ind_once) auto
  then show ?thesis
    using r by (intro exI [of _ i1] exI [of _ i']) (simp add: word_at_add FRAME_SIZE_def)
qed

text \<open>
  A thunk at \<open>0x100520\<close> under evaluation: the caller's frame at \<open>0x1018\<close>, the update frame at
  \<open>0x1038\<close>, the thunk's frame at \<open>0x1060\<close>, whose result is the constructor at \<open>0x100530\<close>.
\<close>

definition demo_ret :: world where
  "demo_ret = \<lparr>w_mem = demo_stack_mem(0x1010 \<mapsto> 0x100540, 0x1020 \<mapsto> 0x1018, 0x1028 \<mapsto> 0x2008, 0x1030 \<mapsto> 0x100600, 0x1038 \<mapsto> 0x100520,
       0x1048 \<mapsto> 0x1038, 0x1050 \<mapsto> 0x3008, 0x1058 \<mapsto> 0x100520, 0x1060 \<mapsto> 0x100530,
       0x100520 \<mapsto> 0x110000, 0x100528 \<mapsto> 0, 0x100530 \<mapsto> 0x110010, 0x100540 \<mapsto> 0x110020, 0x100600 \<mapsto> 0x110030),
     w_infos = [0x110000 \<mapsto> demo_itbl THUNK 0 (Some (demo_code 0x2100 1 0)), 0x110010 \<mapsto> demo_itbl CONSTR 1 None,
       0x110020 \<mapsto> demo_itbl FUN 0 (Some (demo_code 0x2000 1 0)),
       0x110030 \<mapsto> demo_itbl UPDATE_FRAME 0 (Some (demo_code 0x3000 2 1)), 0x110040 \<mapsto> demo_itbl IND 0 None],
     w_code = w_code (wr_code 0x3008 [bc_ad MOV_RES 1 0, bc_ad UPDATE 0 1, bc_ad IRET 1 0] []
       \<lparr>w_mem = Map.empty, w_infos = Map.empty, w_code = Map.empty\<rparr>)\<rparr>"

lemma demo_ret_code:
  "w_u4 demo_ret 0x3008 = Inr (bc_ad MOV_RES 1 0)" "w_u4 demo_ret 0x300c = Inr (bc_ad UPDATE 0 1)"
  "w_u4 demo_ret 0x3010 = Inr (bc_ad IRET 1 0)"
  by (simp_all add: demo_ret_def w_u4_def w_u2_def wr_code_def wr_u2s_def ins_halves_def halves_join)

lemma demo_ret_looks:
  "looksLikeClosure (i_mm (demo_ist demo_ret 0x1060 0x1068 0x2100)) p = Inr True"
  if "p \<in> {0x100520, 0x100530, 0x100540, 0x100600}"
proof -
  let ?m = "demo_sanity\<lparr>mm_world := demo_ret\<rparr>"
  note s = mm_regionAt_def [of ?m] mm_regionAt_def [of demo_sanity]
  have r: "mm_regionAt ?m = mm_regionAt demo_sanity"
    by (rule ext) (simp add: mm_regionAt_def)
  have "regionFromPointer p = 0x100000" "blockFromPointer ?m p = Inr (0x100000, 0)"
    using that by (auto simp: blockFromPointer_def regionFromPointer_def r mm_sizes Let_def demo_sanity_region)
  moreover have "\<exists>info. cl_info demo_ret p = Inr info \<and> info \<in> {0x110000, 0x110010, 0x110020, 0x110030}"
    using that by (auto simp: cl_info_def rd_def demo_ret_def)
  then obtain info where "cl_info demo_ret p = Inr info" "info \<in> {0x110000, 0x110010, 0x110020, 0x110030}" by blast
  moreover from this(2) have "info \<noteq> 0" "blockFromPointer ?m info = Inr (0x100000, 2)"
    by (auto simp: blockFromPointer_def regionFromPointer_def r mm_sizes Let_def demo_sanity_region)
  ultimately show ?thesis
    by (simp add: looksLikeClosure_def demo_ist_def r demo_sanity_region looksLikeInfoTable_def mm_block_def
        bl_contents_def kClosures_def kStaticClosures_def kInfoTables_def kContentsMask_def)
qed

theorem update_frame_returns_witness:
  "\<exists>i1 i'. do_return (demo_ist demo_ret 0x1060 0x1068 0x2100) = Inr (Next i1) \<and>
     run_steps undefined 3 i1 = Inr (Next i') \<and> i_base i' = 0x1018 \<and> i_pc i' = 0x2008 \<and>
     skip_ind (i_w i') 0x100520 = Inr 0x100530"
proof -
  let ?i = "demo_ist demo_ret 0x1060 0x1068 0x2100" and ?c = "demo_code 0x2000 1 0"
  have mem: "rd demo_ret 0x1010 = Inr 0x100540" "rd demo_ret 0x1020 = Inr 0x1018" "rd demo_ret 0x1028 = Inr 0x2008"
      "rd demo_ret 0x1030 = Inr 0x100600" "rd demo_ret 0x1038 = Inr 0x100520" "rd demo_ret 0x1048 = Inr 0x1038"
      "rd demo_ret 0x1050 = Inr 0x3008" "rd demo_ret 0x1058 = Inr 0x100520" "rd demo_ret 0x1060 = Inr 0x100530"
      "rd demo_ret 0x100520 = Inr 0x110000" "rd demo_ret 0x100530 = Inr 0x110010"
      "rd demo_ret 0x100540 = Inr 0x110020" "rd demo_ret 0x100600 = Inr 0x110030"
      "0x1040 \<in> dom (w_mem demo_ret)" "0x100528 \<in> dom (w_mem demo_ret)"
    by (simp_all add: rd_def demo_ret_def demo_stack_mem_def dom_def)
  have inf: "info_at demo_ret 0x110000 = Inr (demo_itbl THUNK 0 (Some (demo_code 0x2100 1 0)))"
      "info_at demo_ret 0x110010 = Inr (demo_itbl CONSTR 1 None)"
      "info_at demo_ret 0x110020 = Inr (demo_itbl FUN 0 (Some ?c))"
      "info_at demo_ret 0x110030 = Inr (demo_itbl UPDATE_FRAME 0 (Some (demo_code 0x3000 2 1)))"
      "info_at demo_ret 0x110040 = Inr (demo_itbl IND 0 None)"
    by (simp_all add: info_at_def demo_ret_def)
  have "\<exists>i1 i'. do_return ?i = Inr (Next i1) \<and> run_steps undefined 3 i1 = Inr (Next i') \<and>
    i_base i' = 0x1018 \<and> i_pc i' = 0x2008 \<and> i_code i' = ?c \<and> th_top (i_T i') = word_at 0x1038 (-3) \<and>
    rd (i_w i') (word_at (th_top (i_T i')) (int FRAME_SIZE)) = Inr 0x100530 \<and> skip_ind (i_w i') 0x100520 = Inr 0x100530 \<and>
    only_writes {0x1038, word_at 0x1038 1, 0x100520, word_at 0x100520 1} ?i i'"
  proof (rule update_frame_returns [where node = "0x100540" and ind = "demo_itbl IND 0 None"])
    show "upd_frame ?i 0x1038 0x1018 0x2008 0x100520"
      by (simp add: upd_frame_def word_at_def mem demo_misc_def)
    show "upd_ready ?i 0x1038 0x1018 0x2008 0x100520 0x100530 0x100540 ?c"
      using demo_ret_looks
      by (auto simp: upd_ready_def Let_def returns_into_def closure_code_def cl_itbl_def cl_info_def itbl_code_def
          mem inf demo_ret_code demo_misc_def demo_itbl_def demo_code_def word_at_def)
  qed (simp_all add: slot_def mem inf demo_misc_def demo_itbl_def cl_isIndirection_def cl_itbl_def cl_info_def CF_IND_def CF_HNF_def)
  then show ?thesis by blast
qed

section \<open>Application\<close>

text \<open>Operations that only write words of memory, at most at the addresses \<open>A\<close>.\<close>

definition stores :: "u8 set \<Rightarrow> ist \<Rightarrow> ist \<Rightarrow> bool" where
  "stores A i i' \<longleftrightarrow> only_writes A i i' \<and> (\<exists>w. i' = set_w w i)"

lemma set_w_set_w [simp]: "set_w w (set_w w' i) = set_w w i"
  by (simp add: set_w_def)

lemma stores_refl: "stores A i i"
  by (auto simp: stores_def only_writes_refl set_w_def intro: exI [of _ "i_w i"])

lemma stores_poke: "a \<in> A \<Longrightarrow> a \<in> dom (w_mem (i_w i)) \<Longrightarrow> stores A i (poke a v i)"
  using only_writes_poke by (auto simp: stores_def poke_def)

lemma stores_trans: "stores A i i' \<Longrightarrow> stores A i' i'' \<Longrightarrow> stores A i i''"
  using only_writes_trans by (fastforce simp: stores_def)

lemma stores_mono: "stores A i i' \<Longrightarrow> A \<subseteq> B \<Longrightarrow> stores B i i'"
  by (auto simp: stores_def only_writes_def)

lemma storesD:
  assumes "stores A i i'"
  shows "i_base i' = i_base i" "i_T i' = i_T i" "i_pc i' = i_pc i" "i_misc i' = i_misc i" "only_writes A i i'"
    "dom (w_mem (i_w i')) = dom (w_mem (i_w i))" "a \<notin> A \<Longrightarrow> rd (i_w i') a = rd (i_w i) a"
  using assms by (auto simp: stores_def only_writes_def)

text \<open>The addresses of the slots \<open>m, \<dots>, n - 1\<close> of a frame.\<close>

definition slots :: "u8 \<Rightarrow> int \<Rightarrow> int \<Rightarrow> u8 set" where
  "slots b m n = word_at b ` {m..<n}"

lemma slots_mem: "m \<le> k \<Longrightarrow> k < n \<Longrightarrow> word_at b k \<in> slots b m n"
  by (simp add: slots_def)

lemma slots_not_mem:
  "k < m \<or> n \<le> k \<Longrightarrow> - (2 ^ 60) \<le> m \<Longrightarrow> n < 2 ^ 60 \<Longrightarrow> - (2 ^ 60) \<le> k \<Longrightarrow> k < 2 ^ 60 \<Longrightarrow> word_at b k \<notin> slots b m n"
  by (auto simp: slots_def)

lemma slots_mono: "m' \<le> m \<Longrightarrow> n \<le> n' \<Longrightarrow> slots b m n \<subseteq> slots b m' n'"
  by (auto simp: slots_def)

lemma move_up_ok:
  assumes "\<And>k. k < n \<Longrightarrow> slot i (int k) = Inr (xs k)" and "slots (i_base i) by (by + int n) \<subseteq> dom (w_mem (i_w i))"
    and "0 \<le> by" and "by + int n < 2 ^ 60"
  shows "\<exists>i'. move_up (nat by) n i = Inr i' \<and> stores (slots (i_base i) by (by + int n)) i i' \<and>
    (\<forall>k < n. slot i' (by + int k) = Inr (xs k))"
  using assms
proof (induction n arbitrary: i)
  case (Suc n)
  let ?a = "word_at (i_base i) (by + int n)"
  have a: "?a \<in> slots (i_base i) by (by + int (Suc n))"
    using Suc.prems(3) by (intro slots_mem) auto
  then have dom: "?a \<in> dom (w_mem (i_w i))" using Suc.prems(2) by blast
  have sub: "slots (i_base i) by (by + int n) \<subseteq> slots (i_base i) by (by + int (Suc n))"
    by (rule slots_mono) auto
  let ?i = "poke ?a (xs n) i"
  have "\<exists>i'. move_up (nat by) n ?i = Inr i' \<and> stores (slots (i_base ?i) by (by + int n)) ?i i' \<and>
      (\<forall>k < n. slot i' (by + int k) = Inr (xs k))"
  proof (rule Suc.IH)
    show "slot ?i (int k) = Inr (xs k)" if "k < n" for k
      using Suc.prems(1) [of k] Suc.prems(3,4) that by (simp add: slot_def)
    show "slots (i_base ?i) by (by + int n) \<subseteq> dom (w_mem (i_w ?i))"
      using Suc.prems(2) sub by auto
  qed (use Suc.prems in auto)
  then obtain i' where i': "move_up (nat by) n ?i = Inr i'" "stores (slots (i_base i) by (by + int n)) ?i i'"
      "\<forall>k < n. slot i' (by + int k) = Inr (xs k)" by auto
  have "move_up (nat by) (Suc n) i = Inr i'"
    using Suc.prems(1) [of n] Suc.prems(3) dom i'(1) by (simp add: setSlot_mapped)
  moreover have "stores (slots (i_base i) by (by + int (Suc n))) i i'"
    using stores_poke [OF a dom] stores_mono [OF i'(2) sub] by (rule stores_trans)
  moreover have "slot i' (by + int n) = Inr (xs n)"
    using storesD(1,7) [OF i'(2)] slots_not_mem [of "by + int n" "by" "by + int n" "i_base i"] Suc.prems(3,4)
    by (simp add: slot_def)
  ultimately show ?case
    using i'(3) by (auto simp: less_Suc_eq)
qed (simp add: stores_refl)

lemma load_pap_ok:
  assumes "\<And>k. j \<le> k \<Longrightarrow> k < j + n \<Longrightarrow> pap_payload (i_w i) p k = Inr (xs k)"
    and "slots (i_base i) (int j) (int (j + n)) \<subseteq> dom (w_mem (i_w i))" and "int (j + n) < 2 ^ 60"
    and "slots (i_base i) (int j) (int (j + n)) \<inter> slots p (int j + 3) (int (j + n) + 3) = {}"
  shows "\<exists>i'. load_pap p n j i = Inr i' \<and> stores (slots (i_base i) (int j) (int (j + n))) i i' \<and>
    (\<forall>k. j \<le> k \<longrightarrow> k < j + n \<longrightarrow> slot i' (int k) = Inr (xs k))"
  using assms
proof (induction n arbitrary: i j)
  case (Suc n)
  let ?a = "word_at (i_base i) (int j)"
  have a: "?a \<in> slots (i_base i) (int j) (int (j + Suc n))"
    by (intro slots_mem) auto
  then have dom: "?a \<in> dom (w_mem (i_w i))" using Suc.prems(2) by blast
  have sub: "slots (i_base i) (int (Suc j)) (int (Suc j + n)) \<subseteq> slots (i_base i) (int j) (int (j + Suc n))"
      "slots p (int (Suc j) + 3) (int (Suc j + n) + 3) \<subseteq> slots p (int j + 3) (int (j + Suc n) + 3)"
    by (rule slots_mono; simp)+
  let ?i = "poke ?a (xs j) i"
  have "\<exists>i'. load_pap p n (Suc j) ?i = Inr i' \<and> stores (slots (i_base ?i) (int (Suc j)) (int (Suc j + n))) ?i i' \<and>
      (\<forall>k. Suc j \<le> k \<longrightarrow> k < Suc j + n \<longrightarrow> slot i' (int k) = Inr (xs k))"
  proof (rule Suc.IH)
    show "pap_payload (i_w ?i) p k = Inr (xs k)" if "Suc j \<le> k" "k < Suc j + n" for k
    proof -
      have "word_at p (int k + 3) \<in> slots p (int j + 3) (int (j + Suc n) + 3)"
        using that by (intro slots_mem) auto
      then have "word_at p (int k + 3) \<noteq> ?a" using a Suc.prems(4) by auto
      then show ?thesis using Suc.prems(1) [of k] that by (simp add: pap_payload_def)
    qed
    show "slots (i_base ?i) (int (Suc j)) (int (Suc j + n)) \<subseteq> dom (w_mem (i_w ?i))"
      using sub(1) Suc.prems(2) by auto
    show "slots (i_base ?i) (int (Suc j)) (int (Suc j + n)) \<inter> slots p (int (Suc j) + 3) (int (Suc j + n) + 3) = {}"
      using sub Suc.prems(4) by auto
  qed (use Suc.prems in auto)
  then obtain i' where i': "load_pap p n (Suc j) ?i = Inr i'"
      "stores (slots (i_base i) (int (Suc j)) (int (Suc j + n))) ?i i'"
      "\<forall>k. Suc j \<le> k \<longrightarrow> k < Suc j + n \<longrightarrow> slot i' (int k) = Inr (xs k)" by auto
  have "load_pap p (Suc n) j i = Inr i'"
    using Suc.prems(1) [of j] dom i'(1) by (simp add: setSlot_mapped)
  moreover have "stores (slots (i_base i) (int j) (int (j + Suc n))) i i'"
    using stores_poke [OF a dom] stores_mono [OF i'(2) sub(1)] by (rule stores_trans)
  moreover have "slot i' (int j) = Inr (xs j)"
    using storesD(1,7) [OF i'(2)] slots_not_mem [of "int j" "int (Suc j)" "int (Suc j + n)" "i_base i"] Suc.prems(3)
    by (simp add: slot_def)
  ultimately show ?case
    using i'(3) by (metis Suc_leI add_Suc_shift le_neq_implies_less)
qed (simp add: stores_refl)

text \<open>A partial application of \<open>f\<close> to the arguments \<open>xs\<close> at \<open>p\<close>.\<close>

definition pap_at :: "world \<Rightarrow> u8 \<Rightarrow> u8 \<Rightarrow> u4 \<Rightarrow> u8 list \<Rightarrow> bool" where
  "pap_at w p f pm xs \<longleftrightarrow> pap_nargs w p = Inr (length xs) \<and> pap_pointerMask w p = Inr pm \<and>
     pap_fun w p = Inr f \<and> (\<forall>k < length xs. pap_payload w p k = Inr (xs ! k))"

abbreviation pap_words :: "u8 \<Rightarrow> nat \<Rightarrow> u8 set" where
  "pap_words p n \<equiv> slots p 0 (int n + 3)"

lemma word_at_1_2: "p + 8 = word_at p 1" "p + 16 = word_at p 2"
  by (simp_all add: word_at_def)

lemma pap_at_eq:
  assumes "\<And>a. a \<in> pap_words p (length xs) \<Longrightarrow> rd w' a = rd w a"
  shows "pap_at w' p f pm xs = pap_at w p f pm xs"
proof -
  have "rd w' (word_at p k) = rd w (word_at p k)" if "0 \<le> k" "k < int (length xs) + 3" for k
    using that by (intro assms slots_mem)
  then show ?thesis
    by (auto simp: pap_at_def pap_nargs_def pap_pointerMask_def pap_fun_def pap_payload_def word_at_1_2)
qed

lemma store_pap_ok:
  assumes "store_pap p n j i = Inr i'" and "\<And>k. j \<le> k \<Longrightarrow> k < j + n \<Longrightarrow> slot i (int k) = Inr (xs k)"
    and "slots (i_base i) (int j) (int (j + n)) \<inter> slots p (int j + 3) (int (j + n) + 3) = {}" and "int (j + n) < 2 ^ 59"
  shows "stores (slots p (int j + 3) (int (j + n) + 3)) i i' \<and>
    (\<forall>k. j \<le> k \<longrightarrow> k < j + n \<longrightarrow> pap_payload (i_w i') p k = Inr (xs k))"
  using assms
proof (induction n arbitrary: i j)
  case (Suc n)
  let ?a = "word_at p (int j + 3)"
  have v: "slot i (int j) = Inr (xs j)" using Suc.prems(2) by simp
  have dom: "?a \<in> dom (w_mem (i_w i))"
    using Suc.prems(1) v by (auto simp: pap_setPayload_def wr_def split: if_splits)
  let ?i = "poke ?a (xs j) i"
  have st: "store_pap p n (Suc j) ?i = Inr i'"
    using Suc.prems(1) v by (auto simp: pap_setPayload_def wr_def poke_def split: if_splits)
  have a: "?a \<in> slots p (int j + 3) (int (j + Suc n) + 3)"
    by (intro slots_mem) auto
  have sub: "slots (i_base i) (int (Suc j)) (int (Suc j + n)) \<subseteq> slots (i_base i) (int j) (int (j + Suc n))"
      "slots p (int (Suc j) + 3) (int (Suc j + n) + 3) \<subseteq> slots p (int j + 3) (int (j + Suc n) + 3)"
    by (rule slots_mono; simp)+
  have ih: "stores (slots p (int (Suc j) + 3) (int (Suc j + n) + 3)) ?i i' \<and>
      (\<forall>k. Suc j \<le> k \<longrightarrow> k < Suc j + n \<longrightarrow> pap_payload (i_w i') p k = Inr (xs k))"
  proof (rule Suc.IH [OF st])
    show "slot ?i (int k) = Inr (xs k)" if "Suc j \<le> k" "k < Suc j + n" for k
    proof -
      have "word_at (i_base i) (int k) \<in> slots (i_base i) (int j) (int (j + Suc n))"
        using that by (intro slots_mem) auto
      then have "word_at (i_base i) (int k) \<noteq> ?a" using a Suc.prems(3) by auto
      then show ?thesis using Suc.prems(2) [of k] that by (simp add: slot_def)
    qed
    show "slots (i_base ?i) (int (Suc j)) (int (Suc j + n)) \<inter> slots p (int (Suc j) + 3) (int (Suc j + n) + 3) = {}"
      using sub Suc.prems(3) by auto
  qed (use Suc.prems in auto)
  have "stores (slots p (int j + 3) (int (j + Suc n) + 3)) i i'"
    using stores_poke [OF a dom] stores_mono [OF conjunct1 [OF ih] sub(2)] by (rule stores_trans)
  moreover have "pap_payload (i_w i') p j = Inr (xs j)"
    using storesD(7) [OF conjunct1 [OF ih]] slots_not_mem [of "int j + 3" "int (Suc j) + 3" "int (Suc j + n) + 3" p] Suc.prems(4)
    by (simp add: pap_payload_def)
  ultimately show ?case
    using ih by (metis Suc_leI add_Suc_shift le_neq_implies_less)
qed (simp add: stores_refl)

lemma halves_of_word:
  "ucast (ucast (n :: u4) OR push_bit 32 (ucast (pm :: u4)) :: u8) = n"
  "ucast (drop_bit 32 (ucast (n :: u4) OR push_bit 32 (ucast (pm :: u4)) :: u8)) = pm"
  by (rule bit_word_eqI, auto simp: bit_simps dest: bit_imp_le_length)+

lemma pap_init_fields:
  assumes "pap_init p info pm n f w = Inr w'"
  shows "pap_nargs w' p = Inr (unat n)" "pap_pointerMask w' p = Inr pm" "pap_fun w' p = Inr f"
    "\<And>a. a \<notin> slots p 0 3 \<Longrightarrow> rd w' a = rd w a"
proof -
  obtain w1 w2 where w: "wr p info w = Inr w1" "wr (word_at p 1) (ucast n OR push_bit 32 (ucast pm)) w1 = Inr w2"
      "wr (word_at p 2) f w2 = Inr w'"
    using assms by (auto simp: pap_init_def result word_at_1_2)
  note r = rd_wr [OF w(1)] rd_wr [OF w(2)] rd_wr [OF w(3)]
  show "pap_nargs w' p = Inr (unat n)" "pap_pointerMask w' p = Inr pm" "pap_fun w' p = Inr f"
    by (simp_all add: pap_nargs_def pap_pointerMask_def pap_fun_def word_at_1_2 r halves_of_word del: drop_bit_or)
  show "rd w' a = rd w a" if "a \<notin> slots p 0 3" for a
    using that slots_mem [of 0 0 3 p] slots_mem [of 0 1 3 p] slots_mem [of 0 2 3 p] by (auto simp: r)
qed

lemma build_pap_at:
  assumes "pap_init p info pm (of_nat (length xs)) f (i_w i) = Inr w"
    and "store_pap p (length xs) 0 (set_w w i) = Inr i'"
    and "\<And>k. k < length xs \<Longrightarrow> slot i (int k) = Inr (xs ! k)"
    and "slots (i_base i) 0 (int (length xs)) \<inter> pap_words p (length xs) = {}" and "length xs < 2 ^ 32"
  shows "pap_at (i_w i') p f pm xs"
proof -
  let ?n = "length xs"
  note I = pap_init_fields [OF assms(1)]
  have sub: "slots p 3 (int ?n + 3) \<subseteq> pap_words p ?n" "slots p 0 3 \<subseteq> pap_words p ?n"
    by (rule slots_mono; simp)+
  have sl: "slot (set_w w i) (int k) = Inr (xs ! k)" if "k < ?n" for k
  proof -
    have "word_at (i_base i) (int k) \<in> slots (i_base i) 0 (int ?n)" using that by (intro slots_mem) auto
    then have "word_at (i_base i) (int k) \<notin> slots p 0 3" using assms(4) sub(2) by blast
    then show ?thesis using assms(3) [OF that] I(4) by (simp add: slot_def)
  qed
  have S: "stores (slots p (int 0 + 3) (int (0 + ?n) + 3)) (set_w w i) i' \<and>
      (\<forall>k. 0 \<le> k \<longrightarrow> k < 0 + ?n \<longrightarrow> pap_payload (i_w i') p k = Inr (xs ! k))"
    by (rule store_pap_ok [OF assms(2)]) (use sl assms(4,5) sub(1) in auto)
  have "rd (i_w i') (word_at p k) = rd w (word_at p k)" if "k \<in> {1, 2}" for k
    using storesD(7) [OF conjunct1 [OF S]] slots_not_mem [of k 3 "int ?n + 3" p] that assms(5) by auto
  then have "rd (i_w i') (p + 8) = rd w (p + 8)" "rd (i_w i') (p + 16) = rd w (p + 16)"
    by (simp_all add: word_at_1_2)
  then show ?thesis
    using I S unat_of_nat_small [where 'a = 32, of ?n] assms(5)
    by (simp add: pap_at_def pap_nargs_def pap_pointerMask_def pap_fun_def)
qed

lemma unpack_pap_ok:
  assumes "pap_at (i_w i) p f pm xs" and "\<And>k. k < length ys \<Longrightarrow> slot i (int k) = Inr (ys ! k)"
    and "\<not> stackOverflow (i_T i) (i_base i) (length xs + length ys)"
    and "slots (i_base i) (-1) (int (length xs + length ys)) \<subseteq> dom (w_mem (i_w i)) - insert f (pap_words p (length xs))"
    and "length xs + length ys < 2 ^ 59" and "closure_code (i_w i) f = Inr c"
  shows "\<exists>i'. unpack_pap p (length ys) pmask i =
      Inr (Inl (f, length ys + length xs, push_bit (length xs) pmask OR pm, i')) \<and>
    slot i' (-1) = Inr f \<and> (\<forall>k < length xs + length ys. slot i' (int k) = Inr ((xs @ ys) ! k)) \<and>
    i_base i' = i_base i \<and> i_code i' = c \<and> th_top (i_T i') = word_at (i_base i) (int (length xs + length ys)) \<and>
    only_writes (slots (i_base i) (-1) (int (length xs + length ys))) i i'"
proof -
  let ?m = "length xs" and ?n = "length ys" and ?b = "i_base i"
  let ?S = "slots ?b (-1) (int (?m + ?n))"
  let ?i0 = "set_top (word_at ?b (int (?m + ?n))) i"
  have sub: "slots ?b (int ?m) (int ?m + int ?n) \<subseteq> ?S" "slots ?b (int 0) (int (0 + ?m)) \<subseteq> ?S"
      "slots p (int 0 + 3) (int (0 + ?m) + 3) \<subseteq> pap_words p ?m"
    by (rule slots_mono; simp)+
  have m1: "word_at ?b (-1) \<in> ?S" by (intro slots_mem) auto
  have i0: "i_w ?i0 = i_w i" "i_base ?i0 = ?b" by simp_all
  have "\<exists>i1. move_up (nat (int ?m)) ?n ?i0 = Inr i1 \<and> stores (slots (i_base ?i0) (int ?m) (int ?m + int ?n)) ?i0 i1 \<and>
      (\<forall>k < ?n. slot i1 (int ?m + int k) = Inr (ys ! k))"
    by (rule move_up_ok) (use assms(2,4,5) sub(1) in \<open>auto simp: slot_def\<close>)
  then obtain i1 where i1: "move_up ?m ?n ?i0 = Inr i1" "stores ?S ?i0 i1"
      "\<And>k. k < ?n \<Longrightarrow> slot i1 (int ?m + int k) = Inr (ys ! k)"
    using stores_mono [OF _ sub(1)] by auto
  note D1 = storesD [OF i1(2)]
  have p1: "pap_at (i_w i1) p f pm xs"
    using assms(1,4) D1(7) i0 by (subst pap_at_eq [of p xs _ "i_w i"]) auto
  have "\<exists>i2. load_pap p ?m 0 i1 = Inr i2 \<and> stores (slots (i_base i1) (int 0) (int (0 + ?m))) i1 i2 \<and>
      (\<forall>k. 0 \<le> k \<longrightarrow> k < 0 + ?m \<longrightarrow> slot i2 (int k) = Inr (xs ! k))"
  proof (rule load_pap_ok)
    show "slots (i_base i1) (int 0) (int (0 + ?m)) \<subseteq> dom (w_mem (i_w i1))"
      using sub(2) assms(4) unfolding D1(1,6) i0 by blast
    show "slots (i_base i1) (int 0) (int (0 + ?m)) \<inter> slots p (int 0 + 3) (int (0 + ?m) + 3) = {}"
      using sub(2,3) assms(4) unfolding D1(1) i0 by blast
  qed (use p1 assms(5) in \<open>auto simp: pap_at_def\<close>)
  then obtain i2 where i2: "load_pap p ?m 0 i1 = Inr i2" "stores (slots ?b (int 0) (int (0 + ?m))) i1 i2"
      "\<And>k. k < ?m \<Longrightarrow> slot i2 (int k) = Inr (xs ! k)"
    using D1(1) by auto
  note s2 = stores_trans [OF i1(2) stores_mono [OF i2(2) sub(2)]]
  note D2 = storesD [OF s2]
  have p2: "pap_at (i_w i2) p f pm xs"
    using assms(1,4) D2(7) i0 by (subst pap_at_eq [of p xs _ "i_w i"]) auto
  define i3 where "i3 = poke (word_at ?b (-1)) f i2"
  have d: "word_at ?b (-1) \<in> dom (w_mem (i_w i2))"
    using D2(6) m1 assms(4) i0 by auto
  have set3: "setSlot (-1) f i2 = Inr i3"
    using d D2(1) by (simp add: i3_def setSlot_mapped)
  have s3: "stores ?S ?i0 i3"
    using stores_trans [OF s2 stores_poke [OF m1 d]] by (simp add: i3_def)
  note D3 = storesD [OF s3]
  have p3: "pap_at (i_w i3) p f pm xs"
    using assms(1,4) D3(7) i0 by (subst pap_at_eq [of p xs _ "i_w i"]) auto
  have c3: "closure_code (i_w i3) f = Inr c"
    using only_writesD(7) [OF D3(5), of f] assms(4,6) by auto
  have "unpack_pap p ?n pmask i = Inr (Inl (f, ?n + ?m, push_bit ?m pmask OR pm, i3\<lparr>i_code := c\<rparr>))"
    using assms(1,3) i1(1) i2(1) p2 p3 set3 c3 by (simp add: unpack_pap_def pap_at_def Let_def)
  moreover have "slot i3 (int k) = Inr ((xs @ ys) ! k)" if k: "k < ?m + ?n" for k
  proof (cases "k < ?m")
    case True
    then show ?thesis using i2(3) assms(5) D2(1) by (simp add: slot_def i3_def nth_append)
  next
    case False
    then have "word_at ?b (int k) \<notin> slots ?b (int 0) (int (0 + ?m))"
      using k assms(5) by (intro slots_not_mem) auto
    then have "slot i2 (int k) = slot i1 (int k)"
      using storesD(1,7) [OF i2(2)] D1(1) by (simp add: slot_def)
    moreover have e: "int ?m + int (k - ?m) = int k" using False by simp
    moreover have "k - ?m < ?n" using k False by simp
    ultimately have "slot i2 (int k) = Inr (ys ! (k - ?m))"
      using i1(3) [of "k - ?m", unfolded e] by simp
    then show ?thesis using False D2(1) assms(5) k by (simp add: slot_def i3_def nth_append)
  qed
  moreover have "slot i3 (-1) = Inr f" using D2(1) by (simp add: slot_def i3_def)
  moreover have "only_writes ?S i (i3\<lparr>i_code := c\<rparr>)" using D3(5) by (simp add: only_writes_def)
  ultimately show ?thesis
    using D3(1,2) by (intro exI [of _ "i3\<lparr>i_code := c\<rparr>"]) (simp add: slot_def)
qed

text \<open>
  \<^bold>\<open>C6.\<close> A partial application and its use.  The interpreter stores too few arguments \<open>xs\<close> for \<open>f\<close> in
  a \<^verbatim>\<open>PapClosure\<close>.  Whenever that closure, its words unchanged, is later applied to the arguments
  \<open>ys\<close> on the stack, the case \<^verbatim>\<open>PAP\<close> of \<^verbatim>\<open>generic_apply\<close> arranges the frame of a call of \<open>f\<close> with
  \<open>xs @ ys\<close>: node, arguments, number of arguments, and a pointer mask whose low bits are the stored
  ones.  Only the frame changes.
\<close>

theorem partial_application_roundtrip:
  assumes "pap_init p info pm (of_nat (length xs)) f (i_w i) = Inr w"
    and "store_pap p (length xs) 0 (set_w w i) = Inr i'"
    and "\<forall>k < length xs. slot i (int k) = Inr (xs ! k)"
    and "slots (i_base i) 0 (int (length xs)) \<inter> pap_words p (length xs) = {}" and "length xs < 2 ^ 32"
    and "\<forall>a \<in> pap_words p (length xs). rd (i_w j) a = rd (i_w i') a"
    and "\<forall>k < length ys. slot j (int k) = Inr (ys ! k)"
    and "\<not> stackOverflow (i_T j) (i_base j) (length xs + length ys)"
    and "slots (i_base j) (-1) (int (length xs + length ys)) \<subseteq> dom (w_mem (i_w j)) - insert f (pap_words p (length xs))"
    and "length ys < 2 ^ 32" and "closure_code (i_w j) f = Inr c"
  shows "\<exists>j'. unpack_pap p (length ys) pmask j =
      Inr (Inl (f, length ys + length xs, push_bit (length xs) pmask OR pm, j')) \<and>
    slot j' (-1) = Inr f \<and> (\<forall>k < length xs + length ys. slot j' (int k) = Inr ((xs @ ys) ! k)) \<and>
    i_base j' = i_base j \<and> i_code j' = c \<and> th_top (i_T j') = word_at (i_base j) (int (length xs + length ys)) \<and>
    only_writes (slots (i_base j) (-1) (int (length xs + length ys))) j j'"
proof (rule unpack_pap_ok)
  show "pap_at (i_w j) p f pm xs"
    using build_pap_at [OF assms(1,2) _ assms(4,5)] assms(3,6) by (subst pap_at_eq [of p xs _ "i_w i'"]) auto
qed (use assms in auto)

definition demo_pap :: world where
  "demo_pap = \<lparr>w_mem = demo_stack_mem(0x1018 \<mapsto> 7, 0x108000 \<mapsto> 0, 0x108008 \<mapsto> 0, 0x108010 \<mapsto> 0, 0x108018 \<mapsto> 0, 0x100520 \<mapsto> 0x110000),
     w_infos = [0x110000 \<mapsto> demo_itbl FUN 0 (Some (demo_code 0x2000 2 2))], w_code = Map.empty\<rparr>"

theorem partial_application_roundtrip_witness:
  "\<exists>w i' j'. pap_init 0x108000 0x110020 0 1 0x100520 demo_pap = Inr w \<and>
     store_pap 0x108000 1 0 (demo_ist w 0x1018 0x1020 0x2000) = Inr i' \<and>
     unpack_pap 0x108000 1 1 i' = Inr (Inl (0x100520, 2, 2, j')) \<and>
     slot j' 0 = Inr 7 \<and> slot j' 1 = Inr 7"
proof -
  let ?i = "demo_ist demo_pap 0x1018 0x1020 0x2000" and ?c = "demo_code 0x2000 2 2"
  let ?w = "demo_pap\<lparr>w_mem := (w_mem demo_pap)(0x108000 \<mapsto> 0x110020, 0x108008 \<mapsto> 1, 0x108010 \<mapsto> 0x100520)\<rparr>"
  let ?i' = "poke 0x108018 7 (set_w ?w ?i)"
  have d: "w_mem demo_pap 0x108000 = Some 0" "w_mem demo_pap 0x108008 = Some 0" "w_mem demo_pap 0x108010 = Some 0"
      "w_mem demo_pap 0x108018 = Some 0" "w_mem demo_pap 0x1018 = Some 7" "w_mem demo_pap 0x100520 = Some 0x110000"
      "w_mem demo_pap 0x1010 = Some 0" "w_mem demo_pap 0x1020 = Some 0"
    by (simp_all add: demo_pap_def demo_stack_mem_def)
  have w: "pap_init 0x108000 0x110020 0 (of_nat (length [7 :: u8])) 0x100520 (i_w ?i) = Inr ?w"
    by (simp add: pap_init_def wr_def d)
  have i': "store_pap 0x108000 (length [7 :: u8]) 0 (set_w ?w ?i) = Inr ?i'"
    by (simp add: slot_def rd_def pap_setPayload_def wr_def word_at_def d poke_def)
  have s: "slots b 0 (int (length [7 :: u8])) = {b}" "slots b (-1) (int (length [7 :: u8] + length [7 :: u8])) = {word_at b (-1), b, word_at b 1}"
      "pap_words b (length [7 :: u8]) = {b, word_at b 1, word_at b 2, word_at b 3}" for b
  proof -
    have "{0..<1} = {0 :: int}" "{-1..<2} = {-1, 0, 1 :: int}" "{0..<4} = {0, 1, 2, 3 :: int}" by auto
    then show "slots b 0 (int (length [7 :: u8])) = {b}"
        "slots b (-1) (int (length [7 :: u8] + length [7 :: u8])) = {word_at b (-1), b, word_at b 1}"
        "pap_words b (length [7 :: u8]) = {b, word_at b 1, word_at b 2, word_at b 3}"
      by (simp_all add: slots_def)
  qed
  have "\<exists>j'. unpack_pap 0x108000 (length [7 :: u8]) 1 ?i' =
      Inr (Inl (0x100520, length [7 :: u8] + length [7 :: u8], push_bit (length [7 :: u8]) 1 OR 0, j')) \<and>
    slot j' (-1) = Inr 0x100520 \<and>
    (\<forall>k < length [7 :: u8] + length [7 :: u8]. slot j' (int k) = Inr (([7] @ [7]) ! k)) \<and>
    i_base j' = i_base ?i' \<and> i_code j' = ?c \<and>
    th_top (i_T j') = word_at (i_base ?i') (int (length [7 :: u8] + length [7 :: u8])) \<and>
    only_writes (slots (i_base ?i') (-1) (int (length [7 :: u8] + length [7 :: u8]))) ?i' j'"
    by (rule partial_application_roundtrip [OF w i'], unfold s)
      (auto simp: slot_def rd_def word_at_def d stackOverflow_def FRAME_SIZE_def th_stackLimit_def demo_ist_def
        closure_code_def cl_itbl_def cl_info_def info_at_def itbl_code_def demo_pap_def demo_itbl_def demo_stack_mem_def poke_def set_w_def)
  then obtain j' where j': "unpack_pap 0x108000 1 1 ?i' = Inr (Inl (0x100520, 2, 2, j'))"
      "\<forall>k < 2. slot j' (int k) = Inr ([7, 7] ! k)"
    by (auto simp: push_bit_eq_mult numeral_2_eq_2)
  have "slot j' 0 = Inr 7" "slot j' 1 = Inr 7"
    using j'(2) by (force dest: spec [of _ 0] spec [of _ 1])+
  moreover have "set_w ?w ?i = demo_ist ?w 0x1018 0x1020 0x2000" by (simp add: demo_ist_def set_w_def)
  ultimately show ?thesis
    using w i' j'(1) by auto
qed

section \<open>Trace heads\<close>

text \<open>\<open>n\<close> branches from \<open>src\<close> to \<open>dst\<close> in a row, and what is decided at each of them.\<close>

fun branch_run :: "(u8 \<Rightarrow> bool) \<Rightarrow> misc \<Rightarrow> world \<Rightarrow> u8 \<Rightarrow> u8 \<Rightarrow> bool \<Rightarrow> nat \<Rightarrow> hot_counters \<Rightarrow>
    (branch_decision list \<times> hot_counters) result" where
  "branch_run tr mc w src dst ret 0 hc = Inr ([], hc)"
| "branch_run tr mc w src dst ret (Suc n) hc =
     res_bind (interpBranch tr mc False w src dst ret hc) (\<lambda>(d, hc).
     res_bind (branch_run tr mc w src dst ret n hc) (\<lambda>(ds, hc). Inr (d # ds, hc)))"

lemma branch_run_ticks:
  assumes "isStartOfTrace w src dst ret = Inr True" and "\<not> tr dst" and "dst \<noteq> stg_UPD_return_pc mc"
  shows "branch_run tr mc w src dst ret n hc =
    Inr (map (\<lambda>hot. if hot then StartRecording else Continue) (fst (hc_ticks hc (replicate n dst))),
         snd (hc_ticks hc (replicate n dst)))"
  using assms by (induction n arbitrary: hc) (auto simp: interpBranch_def case_prod_beta Let_def)

lemma branch_run_never:
  assumes "isStartOfTrace w src dst ret = Inr False"
  shows "branch_run tr mc w src dst ret n hc = Inr (replicate n Continue, hc)"
  using assms by (induction n) (auto simp: interpBranch_def)

text \<open>
  \<^bold>\<open>C23.\<close> Which branches become trace heads.  A forward branch, and a backward branch that neither
  returns nor targets a \<^verbatim>\<open>FUNC\<close> instruction, never starts a recording and leaves the counters
  alone.  Any other backward branch to a target without a trace (the return address of the update
  frame excepted), whose counter has just been armed with the threshold \<open>t\<close>, starts a recording at
  exactly the executions number \<open>t\<close>, \<open>2t\<close>, \<open>3t\<close> and so on.
\<close>

theorem trace_heads:
  assumes "w_u4 w dst = Inr ins" and "\<not> tr dst" and "dst \<noteq> stg_UPD_return_pc mc"
    and "hc_wf hc" and "threshold hc \<noteq> 0" and "hc_get hc dst = threshold hc"
  shows "if dst < src \<and> (bc_opcode ins = Some FUNC \<or> ret)
    then \<exists>ds hc'. branch_run tr mc w src dst ret n hc = Inr (ds, hc') \<and> length ds = n \<and>
      (\<forall>k < n. ds ! k = (if unat (threshold hc) dvd k + 1 then StartRecording else Continue))
    else branch_run tr mc w src dst ret n hc = Inr (replicate n Continue, hc)"
proof (cases "dst < src \<and> (bc_opcode ins = Some FUNC \<or> ret)")
  case True
  then have s: "isStartOfTrace w src dst ret = Inr True"
    using assms(1) by (simp add: isStartOfTrace_def)
  let ?t = "unat (threshold hc)" and ?l = "fst (hc_ticks hc (replicate n dst))"
  have t: "0 < ?t" using assms(5) by (simp add: unat_gt_0)
  have "?l ! k \<longleftrightarrow> ?t dvd k + 1" if "k < n" for k
    using hc_ticks_schedule [OF assms(4), of dst n] hot_schedule_nth [OF t order_refl that] assms(5,6)
    by (simp add: dvd_eq_mod_eq_0)
  then show ?thesis
    using True branch_run_ticks [OF s, of tr mc n hc] assms(2,3) by (simp add: hc_ticks_length)
next
  case False
  then have "isStartOfTrace w src dst ret = Inr False"
    using assms(1) by (auto simp: isStartOfTrace_def)
  then show ?thesis using False branch_run_never by auto
qed

theorem trace_heads_witness:
  "\<exists>ds hc'. branch_run (\<lambda>_. False) misc_reset demo_ret 0x3020 0x3008 True 5 (hc_init 2) = Inr (ds, hc') \<and>
     ds ! 3 = StartRecording \<and> ds ! 4 = Continue"
proof -
  have "hc_get (hc_init 2) 0x3008 = threshold (hc_init 2)" "hc_wf (hc_init 2)" "threshold (hc_init 2) = 2"
    by (simp_all add: hc_get_def hc_init_def hc_wf_def)
  then show ?thesis
    using trace_heads [of demo_ret "0x3008" _ "\<lambda>_. False" misc_reset "hc_init 2" "0x3020" True 5,
        OF demo_ret_code(1)] by (auto simp: misc_reset_def)
qed

section \<open>Jumps and the stack check\<close>

text \<open>
  \<^bold>\<open>C34.\<close> \<^verbatim>\<open>JMP\<close> goes where the encoded offset says only if the offset is not negative.  For a negative
  offset the unsigned subtraction leaves the program counter \<open>2^34\<close> bytes behind the target.
\<close>

theorem jmp_target:
  "op_JMP (bc_d (bc_aj JMP a offset)) i =
     (if sint offset \<ge> 0 then jump_by offset i
      else (jump_by offset i)\<lparr>i_pc := i_pc (jump_by offset i) + 2 ^ 34\<rparr>)"
proof -
  define x where "x = sint offset"
  have x: "- (2 ^ 15) \<le> x" "x < 2 ^ 15"
    using sint_greater_eq [of offset] sint_less [of offset] by (simp_all add: x_def)
  have d: "bc_d (bc_aj JMP a offset) = of_int (x + 0x8000)"
    by (simp add: bc_aj_def bytes kBranchBias_def ucast_down x_def)
  have "take_bit 16 (x + 0x8000) = x + 0x8000"
    using x by (intro take_bit_int_eq_self) auto
  then have "ucast (bc_d (bc_aj JMP a offset)) = (of_int (x + 0x8000) :: u4)"
    unfolding d using x by (simp only: unsigned_of_int) (simp add: of_nat_nat)
  then have u: "ucast (bc_d (bc_aj JMP a offset)) - kBranchBias = (of_int x :: u4)"
    by (simp add: kBranchBias_def)
  have "take_bit 32 x = (if x \<ge> 0 then x else x + 2 ^ 32)"
    using x take_bit_int_eq_self [of x 32] take_bit_int_eq_self [of "x + 2 ^ 32" 32]
    by (auto simp: take_bit_eq_mod)
  then have "ucast (of_int x :: u4) = (of_int (if x \<ge> 0 then x else x + 2 ^ 32) :: u8)"
    using x by (simp only: unsigned_of_int) (simp add: of_nat_nat)
  moreover have "(scast offset :: u8) = of_int x"
    by (simp add: x_def)
  ultimately show ?thesis
    unfolding op_JMP_def jump_by_def u by (simp add: x_def)
qed

section \<open>Arithmetic\<close>

lemma take_bit_6_count: "take_bit 6 (scast (ucast (y :: u8) :: u4) :: u8) = take_bit 6 y"
  by (rule bit_word_eqI) (auto simp: bit_simps)

lemma unat_mod_64: "unat (y :: u8) mod 64 = unat (take_bit 6 y)"
  by (simp only: unsigned_take_bit_eq) (simp add: take_bit_eq_mod)

lemma sh_eq: "sh y = unat y mod 64"
proof -
  have "unat (ucast y :: u4) = take_bit 32 (unat y)"
    by (simp add: unsigned_ucast_eq)
  then have "sh y = (unat y mod 2 ^ 32) mod 64"
    by (simp only: sh_def take_bit_eq_mod)
  also have "\<dots> = unat y mod 64"
    by (rule mod_mod_cancel) simp
  finally show ?thesis .
qed

lemma sh'_eq: "sh' y = (64 - unat y mod 64) mod 64"
proof -
  let ?s = "scast (ucast y :: u4) :: u8"
  have m: "unat ?s mod 64 = unat y mod 64"
    unfolding unat_mod_64 take_bit_6_count by (rule refl)
  have "int (unat (64 - ?s) mod 64) = uint (64 - ?s) mod 64"
    by (simp only: zmod_int of_nat_numeral uint_nat)
  also have "\<dots> = (64 - uint ?s) mod 2 ^ 64 mod 64"
    by (simp only: uint_word_ariths) (simp add: take_bit_eq_mod)
  also have "\<dots> = (64 - uint ?s) mod 64"
    by (rule mod_mod_cancel) simp
  also have "\<dots> = (64 - uint ?s mod 64) mod 64"
    by (simp only: mod_diff_right_eq)
  also have "uint ?s mod 64 = int (unat y mod 64)"
    using arg_cong [OF m, of int] by (simp only: zmod_int of_nat_numeral uint_nat)
  also have "(64 - int (unat y mod 64)) mod 64 = int ((64 - unat y mod 64) mod 64)"
  proof -
    have "unat y mod 64 \<le> 64" by (simp add: less_imp_le)
    then have "64 - int (unat y mod 64) = int (64 - unat y mod 64)" by (simp only: of_nat_diff of_nat_numeral)
    then show ?thesis by (simp only: zmod_int of_nat_numeral)
  qed
  finally show ?thesis by (simp only: sh'_def of_nat_eq_iff)
qed

lemma rotr_shifts:
  fixes x :: u8
  assumes "0 < k" and "k < 64"
  shows "drop_bit k x OR push_bit (64 - k) x = word_rotr k x"
proof (rule bit_word_eqI)
  fix n assume "n < LENGTH(64)"
  then have n: "n < 64" by simp
  have "bit (word_rotr k x) n = bit x (if n + k < 64 then n + k else n + k - 64)"
    using n assms by (simp add: bit_word_rotr_iff mod_if)
  moreover have "bit (drop_bit k x OR push_bit (64 - k) x) n =
      (bit x (k + n) \<or> 64 - k \<le> n \<and> bit x (n - (64 - k)))"
    using n by (simp add: bit_simps)
  moreover have "bit x (k + n) \<Longrightarrow> n + k < 64"
    using bit_imp_le_length [of x "k + n"] by simp
  ultimately show "bit (drop_bit k x OR push_bit (64 - k) x) n = bit (word_rotr k x) n"
    using assms n by (auto simp: add.commute)
qed

lemma rotl_shifts:
  fixes x :: u8
  assumes "0 < k" and "k < 64"
  shows "push_bit k x OR drop_bit (64 - k) x = word_rotl k x"
  using rotr_shifts [of "64 - k" x] assms by (simp add: word_rotl_eq_word_rotr or.commute)

text \<open>
  \<^bold>\<open>C36.\<close> The rotation instructions rotate: on a machine that takes shift counts modulo 64, the two
  shifts of \<^verbatim>\<open>BROL\<close> and of \<^verbatim>\<open>BROR\<close> combine to the rotation of the word by the count modulo 64, for
  every count, also for 0 and for negative ones.
\<close>

theorem rotate_instructions:
  "\<exists>rol ror. alu BROL = Some rol \<and> alu BROR = Some ror \<and>
     rol x y = Inr (word_rotl (unat y mod 64) x) \<and> ror x y = Inr (word_rotr (unat y mod 64) x)"
proof (cases "unat y mod 64 = 0")
  case True
  then have "sh y = 0" "sh' y = 0" by (simp_all add: sh_eq sh'_eq)
  moreover have "word_rotl 0 x = x" "word_rotr 0 x = x"
    by (rule bit_word_eqI, simp add: bit_word_rotl_iff bit_word_rotr_iff)+
  ultimately show ?thesis using True by simp
next
  case False
  then have "sh' y = 64 - unat y mod 64" by (simp add: sh'_eq)
  then show ?thesis using False by (simp add: sh_eq rotl_shifts rotr_shifts)
qed

lemma tdiv_mod: "tdiv x y * y + (x - tdiv x y * y) = x" by simp

lemma tdiv_rem_bound:
  assumes "y \<noteq> 0"
  shows "\<bar>x - tdiv x y * y\<bar> < \<bar>y\<bar>" and "(x - tdiv x y * y) * x \<ge> 0"
proof -
  have ay: "sgn y * y = \<bar>y\<bar>" by (simp add: abs_sgn mult.commute)
  have ax: "sgn x * \<bar>x\<bar> = x" by (rule sgn_mult_abs)
  have "tdiv x y * y = sgn x * (\<bar>x\<bar> div \<bar>y\<bar> * \<bar>y\<bar>)"
    by (simp add: tdiv_def ay mult.assoc mult.left_commute [of y] mult.commute [of y])
  then have r: "x - tdiv x y * y = sgn x * (\<bar>x\<bar> mod \<bar>y\<bar>)"
    by (metis ax minus_div_mult_eq_mod right_diff_distrib)
  show "\<bar>x - tdiv x y * y\<bar> < \<bar>y\<bar>"
    using assms unfolding r by (simp add: abs_mult abs_sgn_eq)
  have "(x - tdiv x y * y) * x = (\<bar>x\<bar> mod \<bar>y\<bar>) * \<bar>x\<bar>"
    unfolding r by (metis abs_sgn mult.assoc mult.commute)
  then show "(x - tdiv x y * y) * x \<ge> 0"
    using assms by (simp add: pos_mod_sign)
qed

lemma tdiv_range:
  assumes "- (2 ^ 63) \<le> x" and "x < 2 ^ 63" and "y \<noteq> 0" and "\<not> (x = - (2 ^ 63) \<and> y = -1)"
  shows "- (2 ^ 63) \<le> tdiv x y \<and> tdiv x y < 2 ^ 63"
proof -
  consider "y = 1" | "y = -1" | "2 \<le> \<bar>y\<bar>" using assms(3) by linarith
  then show ?thesis
  proof cases
    case 1
    then show ?thesis using assms(1,2) by (simp add: tdiv_def sgn_mult_abs)
  next
    case 2
    then have "tdiv x y = - x" using sgn_mult_abs [of x] by (simp add: tdiv_def)
    then show ?thesis using assms 2 by auto
  next
    case 3
    have "\<bar>x\<bar> div \<bar>y\<bar> \<le> \<bar>x\<bar> div 2"
      using 3 by (intro zdiv_mono2) auto
    moreover have "\<bar>tdiv x y\<bar> \<le> \<bar>x\<bar> div \<bar>y\<bar>"
      by (simp add: tdiv_def abs_mult abs_sgn_eq pos_imp_zdiv_nonneg_iff)
    moreover have "\<bar>x\<bar> div 2 \<le> 2 ^ 63 div 2" using assms(1,2) by (intro zdiv_mono1) auto
    ultimately have "\<bar>tdiv x y\<bar> < 2 ^ 63" by simp
    then show ?thesis by auto
  qed
qed

lemma sint_word_of_int_u8: "- (2 ^ 63) \<le> x \<and> x < 2 ^ 63 \<Longrightarrow> sint (word_of_int x :: u8) = x"
  by (simp add: signed_of_int signed_take_bit_int_eq_self)

text \<open>
  \<^bold>\<open>C35.\<close> Signed division: unless the divisor is 0 or the quotient is not representable, which stops
  the process, \<^verbatim>\<open>DIVRR\<close> and \<^verbatim>\<open>REMRR\<close> compute the quotient and the remainder of the division that
  rounds towards zero: the values recombine exactly to the dividend, the remainder is smaller in
  absolute value than the divisor, and has the sign of the dividend.
\<close>

theorem divide_instructions:
  "\<exists>quo rem. alu DIVRR = Some quo \<and> alu REMRR = Some rem \<and>
     (if div_traps x y then quo x y = Inl (Exit 136) \<and> rem x y = Inl (Exit 136)
      else \<exists>q r. quo x y = Inr q \<and> rem x y = Inr r \<and> sint q * sint y + sint r = sint x \<and>
        \<bar>sint r\<bar> < \<bar>sint y\<bar> \<and> sint r * sint x \<ge> 0)"
proof (cases "div_traps x y")
  case False
  let ?X = "sint x" and ?Y = "sint y"
  let ?Q = "tdiv ?X ?Y" and ?R = "?X - tdiv ?X ?Y * ?Y"
  have y: "?Y \<noteq> 0"
  proof
    assume "?Y = 0"
    then have "(of_int ?Y :: u8) = 0" by (simp only: of_int_0)
    then show False using False by (simp add: div_traps_def)
  qed
  have bx: "- (2 ^ 63) \<le> ?X" "?X < 2 ^ 63" and by': "- (2 ^ 63) \<le> ?Y" "?Y < 2 ^ 63"
    using sint_greater_eq [of x] sint_less [of x] sint_greater_eq [of y] sint_less [of y] by simp_all
  have q: "- (2 ^ 63) \<le> ?Q \<and> ?Q < 2 ^ 63"
    using False bx y by (intro tdiv_range) (auto simp: div_traps_def)
  have r: "- (2 ^ 63) \<le> ?R \<and> ?R < 2 ^ 63"
    using tdiv_rem_bound(1) [OF y, of ?X] by' by linarith
  have "sint (word_of_int ?Q :: u8) = ?Q" "sint (word_of_int ?R :: u8) = ?R"
    using q r by (simp_all only: sint_word_of_int_u8)
  then show ?thesis
    using False tdiv_rem_bound [OF y, of ?X] by simp
qed simp

section \<open>Byte arrays\<close>

definition byte_word :: "u8 \<Rightarrow> u8" where
  "byte_word a = a AND NOT 7"

lemma byte_position:
  assumes "byte_word a = byte_word b" and "a AND 7 = b AND 7"
  shows "a = b"
proof -
  have "x = byte_word x OR (x AND 7)" for x
    unfolding byte_word_def by (rule bit_word_eqI) (auto simp: bit_simps)
  then show ?thesis using assms by metis
qed

lemma byte_offset_less: "unat (a AND 7 :: u8) < 8"
proof -
  have "a AND 7 = take_bit 3 a" by (simp add: take_bit_eq_mask mask_eq_exp_minus_1)
  then show ?thesis using take_bit_nat_less_exp [of 3 "unat a"] by (simp add: unsigned_take_bit_eq)
qed

lemma byte_in_word:
  fixes v :: u8 and b :: u1
  assumes "k < 8" and "j < 8"
  shows "ucast (drop_bit (8 * j) ((v AND NOT (push_bit (8 * k) 0xff)) OR push_bit (8 * k) (ucast b))) =
    (if j = k then b else ucast (drop_bit (8 * j) v))"
proof (rule bit_word_eqI)
  fix n assume "n < LENGTH(8)"
  then have n: "n < 8" by simp
  have ff: "(0xff :: u8) = mask 8" by (simp add: mask_eq_exp_minus_1)
  have b: "bit b (8 * j + n - 8 * k) \<Longrightarrow> j \<le> k" if "8 * k \<le> 8 * j + n"
    using bit_imp_le_length [of b "8 * j + n - 8 * k"] that by (cases "j \<le> k") auto
  show "bit (ucast (drop_bit (8 * j) ((v AND NOT (push_bit (8 * k) 0xff)) OR push_bit (8 * k) (ucast b))) :: u1) n =
      bit (if j = k then b else ucast (drop_bit (8 * j) v)) n"
    unfolding ff using n assms b by (cases j k rule: linorder_cases) (auto simp: bit_simps)
qed

lemma rd_byte_wr:
  assumes "wr_byte a b w = Inr w'"
  shows "rd_byte w' c = (if c = a then Inr b else rd_byte w c)" and "byte_word a \<noteq> c \<Longrightarrow> rd w' c = rd w c"
proof -
  let ?s = "8 * unat (a AND 7)"
  obtain v where v: "rd w (byte_word a) = Inr v"
      "wr (byte_word a) ((v AND NOT (push_bit ?s 0xff)) OR push_bit ?s (ucast b)) w = Inr w'"
    using assms by (auto simp: wr_byte_def byte_word_def result Let_def)
  note r = rd_wr [OF v(2)]
  show "byte_word a \<noteq> c \<Longrightarrow> rd w' c = rd w c" using r by auto
  have B: "rd_byte u c = res_bind (rd u (byte_word c)) (\<lambda>v. Inr (ucast (drop_bit (8 * unat (c AND 7)) v)))" for u
    by (simp add: rd_byte_def byte_word_def)
  show "rd_byte w' c = (if c = a then Inr b else rd_byte w c)"
  proof (cases "byte_word c = byte_word a")
    case True
    then have "unat (c AND 7) = unat (a AND 7) \<longleftrightarrow> c = a"
      using byte_position [OF True] by (metis word_unat_eq_iff)
    then show ?thesis
      using True v(1) byte_in_word [of "unat (a AND 7)" "unat (c AND 7)" v b, OF byte_offset_less byte_offset_less] by (simp add: B r)
  next
    case False
    then show ?thesis by (auto simp: B r)
  qed
qed

lemma wr_le_bytes:
  assumes "wr_le n a v w = Inr w'" and "n \<le> 8"
  shows "(\<forall>c. c \<notin> (\<lambda>k. a + of_nat k) ` {..<n} \<longrightarrow> rd_byte w' c = rd_byte w c) \<and>
    (\<forall>c. c \<notin> (\<lambda>k. byte_word (a + of_nat k)) ` {..<n} \<longrightarrow> rd w' c = rd w c) \<and>
    rd_le w' n a = Inr (take_bit (8 * n) v)"
  using assms
proof (induction n arbitrary: a v w)
  case (Suc n)
  obtain w1 where w1: "wr_byte a (ucast v) w = Inr w1" "wr_le n (a + 1) (drop_bit 8 v) w1 = Inr w'"
    using Suc.prems(1) by (auto simp: result)
  note ih = Suc.IH [OF w1(2)]
  have img: "(\<lambda>k. f (a + of_nat k)) ` {..<Suc n} = insert (f a) ((\<lambda>k. f (a + 1 + of_nat k)) ` {..<n})" for f :: "u8 \<Rightarrow> u8"
  proof -
    have "{..<Suc n} = insert 0 (Suc ` {..<n})" by (auto simp: lessThan_Suc_eq_insert_0)
    then show ?thesis by (simp only: image_insert image_image) (simp add: add.assoc)
  qed
  have "a \<notin> (\<lambda>k. a + 1 + of_nat k) ` {..<n}"
  proof
    assume "a \<in> (\<lambda>k. a + 1 + of_nat k) ` {..<n}"
    then obtain k where k: "k < n" "a = a + 1 + of_nat k" by auto
    then have "(0 :: u8) = of_nat (Suc k)" by (simp add: add.assoc)
    then have "unat (of_nat (Suc k) :: u8) = 0" by simp
    then show False using unat_of_nat_small [where 'a = 64, of "Suc k"] k(1) Suc.prems(2) by simp
  qed
  then have "rd_byte w' a = Inr (ucast v)"
    using ih Suc.prems(2) rd_byte_wr(1) [OF w1(1), of a] by simp
  then have "rd_le w' (Suc n) a = Inr (ucast (ucast v :: u1) OR push_bit 8 (take_bit (8 * n) (drop_bit 8 v)))"
    using ih Suc.prems(2) by simp
  also have "ucast (ucast v :: u1) OR push_bit 8 (take_bit (8 * n) (drop_bit 8 v)) = take_bit (8 * Suc n) v"
    by (rule bit_word_eqI) (auto simp: bit_simps)
  finally have le: "rd_le w' (Suc n) a = Inr (take_bit (8 * Suc n) v)" .
  have "rd_byte w' c = rd_byte w c" if "c \<notin> (\<lambda>k. a + of_nat k) ` {..<Suc n}" for c
    using that ih Suc.prems(2) rd_byte_wr(1) [OF w1(1), of c] img [of "\<lambda>x. x"] by auto
  moreover have "rd w' c = rd w c" if "c \<notin> (\<lambda>k. byte_word (a + of_nat k)) ` {..<Suc n}" for c
    using that ih Suc.prems(2) rd_byte_wr(2) [OF w1(1), of c] img [of byte_word] by auto
  ultimately show ?case using le by blast
qed simp

lemma wr_le_total:
  assumes "\<And>k. k < n \<Longrightarrow> byte_word (a + of_nat k) \<in> dom (w_mem w)"
  shows "\<exists>w'. wr_le n a v w = Inr w'"
  using assms
proof (induction n arbitrary: a v w)
  case (Suc n)
  have "byte_word a \<in> dom (w_mem w)" using Suc.prems [of 0] by simp
  then obtain w1 where w1: "wr_byte a (ucast v) w = Inr w1" "dom (w_mem w1) = dom (w_mem w)"
    by (auto simp: wr_byte_def byte_word_def rd_def wr_def Let_def insert_absorb domI)
  have "byte_word (a + 1 + of_nat k) \<in> dom (w_mem w1)" if "k < n" for k
    using Suc.prems [of "Suc k"] that w1(2) by (simp add: add.assoc)
  then show ?case using Suc.IH [of "a + 1" w1] w1(1) by simp
qed simp

text \<open>
  \<^bold>\<open>C28.\<close> Writing and reading elements of byte arrays: after \<^verbatim>\<open>SETA\<close> with elements of \<open>n\<close> bytes,
  \<^verbatim>\<open>GETA\<close> with the same array and index registers returns the low \<open>8 n\<close> bits of the value stored,
  zero extended, and every byte outside the element is unchanged.
\<close>

theorem byte_array_roundtrip:
  assumes "op_SETA n opA opB opC i = Inr (Next i')" and "n \<in> {1, 2, 4, 8}"
    and "slot i (int opA) = Inr v" and "slot i (int opB) = Inr arr" and "slot i (int opC) = Inr idx"
    and "\<forall>k < n. byte_word (arr + 16 + idx * of_nat n + of_nat k) \<notin>
      {word_at (i_base i) (int opB), word_at (i_base i) (int opC), arr + 8}"
  shows "op_GETA n d opB opC i' = res_bind (setSlot (int d) (take_bit (8 * n) v) i') (\<lambda>j. Inr (Next j)) \<and>
    (\<forall>c. c \<notin> (\<lambda>k. arr + 16 + idx * of_nat n + of_nat k) ` {..<n} \<longrightarrow> rd_byte (i_w i') c = rd_byte (i_w i) c)"
proof -
  let ?e = "arr + 16 + idx * of_nat n"
  obtain w where a: "array_elem (i_w i) n arr idx = Inr ?e" and w: "wr_le n ?e v (i_w i) = Inr w" "i' = set_w w i"
    using assms(1,3-5) by (auto simp: op_SETA_def array_elem_def result)
  have n: "n \<le> 8" using assms(2) by auto
  note W = wr_le_bytes [OF w(1) n]
  have "rd w c = rd (i_w i) c" if "c \<in> {word_at (i_base i) (int opB), word_at (i_base i) (int opC), arr + 8}" for c
    using W assms(6) that by (metis (no_types, lifting) image_iff lessThan_iff)
  then have "slot i' (int opB) = Inr arr" "slot i' (int opC) = Inr idx" "array_elem w n arr idx = Inr ?e"
    using assms(4,5) a w(2) by (simp_all add: slot_def array_elem_def)
  then show ?thesis
    using W w(2) by (simp add: op_GETA_def)
qed

definition demo_bytes :: world where
  "demo_bytes = \<lparr>w_mem = demo_stack_mem(0x1018 \<mapsto> 0x12345, 0x1020 \<mapsto> 0x100700, 0x1028 \<mapsto> 3, 0x100700 \<mapsto> 0x110000, 0x100708 \<mapsto> 8,
     0x100710 \<mapsto> 0), w_infos = Map.empty, w_code = Map.empty\<rparr>"

theorem byte_array_roundtrip_witness:
  "\<exists>i'. op_SETA 2 0 1 2 (demo_ist demo_bytes 0x1018 0x1038 0x2000) = Inr (Next i') \<and>
     op_GETA 2 3 1 2 i' = res_bind (setSlot 3 0x2345 i') (\<lambda>j. Inr (Next j))"
proof -
  let ?i = "demo_ist demo_bytes 0x1018 0x1038 0x2000"
  have m: "w_mem demo_bytes 0x1018 = Some 0x12345" "w_mem demo_bytes 0x1020 = Some 0x100700" "w_mem demo_bytes 0x1028 = Some 3"
      "w_mem demo_bytes 0x100708 = Some 8" "w_mem demo_bytes 0x100710 = Some 0"
    by (simp_all add: demo_bytes_def)
  have s: "slot ?i (int 0) = Inr 0x12345" "slot ?i (int 1) = Inr 0x100700" "slot ?i (int 2) = Inr 3"
    by (simp_all add: slot_def rd_def word_at_def m)
  have r: "rd demo_bytes 0x100708 = Inr 8" by (simp add: rd_def m)
  have "\<exists>w. wr_le 2 0x100716 0x12345 demo_bytes = Inr w"
    by (rule wr_le_total) (auto simp: less_2_cases_iff byte_word_def m)
  then obtain i' where i': "op_SETA 2 0 1 2 ?i = Inr (Next i')"
    using s r by (auto simp: op_SETA_def array_elem_def)
  have "\<forall>k < 2. byte_word (0x100700 + 16 + 3 * of_nat 2 + of_nat k) \<notin>
      {word_at (i_base ?i) (int 1), word_at (i_base ?i) (int 2), 0x100700 + 8}"
    by (auto simp: byte_word_def word_at_def less_2_cases_iff)
  then have "op_GETA 2 3 1 2 i' = res_bind (setSlot (int 3) (take_bit (8 * 2) 0x12345) i') (\<lambda>j. Inr (Next j))"
    using byte_array_roundtrip [OF i' _ s, of 3] by blast
  moreover have "take_bit (8 * 2) (0x12345 :: u8) = 0x2345" by (simp add: take_bit_eq_mask mask_eq_exp_minus_1)
  ultimately show ?thesis using i' by auto
qed

section \<open>Overapplication\<close>

lemma rd_words_ok:
  assumes "\<And>k. k < length xs \<Longrightarrow> rd w (word_at a (int k)) = Inr (xs ! k)"
  shows "rd_words w a (length xs) = Inr xs"
  using assms
proof (induction xs arbitrary: a)
  case (Cons x xs)
  have "rd w (word_at (a + 8) (int k)) = Inr (xs ! k)" if "k < length xs" for k
    using Cons.prems [of "Suc k"] that by (simp add: word_at_def algebra_simps)
  moreover have "rd w a = Inr x" using Cons.prems [of 0] by simp
  ultimately show ?case using Cons.IH [of "a + 8"] by simp
qed simp

lemma slots_shift: "slots (word_at b s) m n = slots b (s + m) (s + n)"
proof -
  have "{s + m..<s + n} = (\<lambda>k. s + k) ` {m..<n}" by (simp add: add.commute)
  then show ?thesis by (simp add: slots_def image_image word_at_add del: image_add_atLeastLessThan)
qed

lemma word_at_step: "word_at (a + 8) k = word_at a (k + 1)"
  by (simp add: word_at_def algebra_simps)

lemma wr_words_ok:
  assumes "slots a 0 (int (length xs)) \<subseteq> dom (w_mem w)" and "length xs < 2 ^ 59"
  shows "\<exists>w'. wr_words a xs w = Inr w' \<and> w_infos w' = w_infos w \<and> w_code w' = w_code w \<and> dom (w_mem w') = dom (w_mem w) \<and>
    (\<forall>b. b \<notin> slots a 0 (int (length xs)) \<longrightarrow> rd w' b = rd w b) \<and>
    (\<forall>k < length xs. rd w' (word_at a (int k)) = Inr (xs ! k))"
  using assms
proof (induction xs arbitrary: a w)
  case (Cons x xs)
  let ?n = "length xs"
  have tail: "slots (a + 8) 0 (int ?n) = slots a 1 (int (Suc ?n))"
    using slots_shift [of a 1 0 "int ?n"] word_at_1_2(1) [of a] by simp
  have all: "slots a 0 (int (length (x # xs))) = insert a (slots (a + 8) 0 (int ?n))"
  proof -
    have "{0..<int (Suc ?n)} = insert 0 {1..<int (Suc ?n)}" by auto
    then show ?thesis unfolding tail by (simp add: slots_def)
  qed
  have a: "a \<in> dom (w_mem w)" using Cons.prems(1) all by auto
  then obtain w1 where w1: "wr a x w = Inr w1" using wr_total [of a x w] by blast
  note f1 = wr_frame [OF w1] and r1 = rd_wr [OF w1]
  obtain w' where w': "wr_words (a + 8) xs w1 = Inr w'" "w_infos w' = w_infos w" "w_code w' = w_code w"
      "dom (w_mem w') = dom (w_mem w)" "\<forall>b. b \<notin> slots (a + 8) 0 (int ?n) \<longrightarrow> rd w' b = rd w1 b"
      "\<forall>k < ?n. rd w' (word_at (a + 8) (int k)) = Inr (xs ! k)"
    using Cons.IH [of "a + 8" w1] Cons.prems f1 all by auto
  have "word_at a 0 \<notin> slots a 1 (int (Suc ?n))"
    using Cons.prems(2) by (intro slots_not_mem) auto
  then have "rd w' a = Inr x" using w'(5) r1 by (simp add: tail)
  moreover have "rd w' (word_at a (int (Suc k))) = Inr (xs ! k)" if "k < ?n" for k
    using w'(6) that by (simp add: word_at_step add.commute)
  ultimately have "rd w' (word_at a (int k)) = Inr ((x # xs) ! k)" if "k < Suc ?n" for k
    using that by (cases k) (simp_all del: of_nat_Suc)
  moreover have "rd w' b = rd w b" if "b \<notin> slots a 0 (int (length (x # xs)))" for b
    using that w'(5) r1 all by auto
  ultimately show ?case using w1 w' by auto
qed auto

lemma memmove_ok:
  assumes "\<And>k. k < length xs \<Longrightarrow> rd (i_w i) (word_at src (int k)) = Inr (xs ! k)"
    and "slots dst 0 (int (length xs)) \<subseteq> dom (w_mem (i_w i))" and "length xs < 2 ^ 59"
  shows "\<exists>i'. memmove dst src (length xs) i = Inr i' \<and> stores (slots dst 0 (int (length xs))) i i' \<and>
    (\<forall>k < length xs. rd (i_w i') (word_at dst (int k)) = Inr (xs ! k))"
proof -
  obtain w' where w': "wr_words dst xs (i_w i) = Inr w'" "w_infos w' = w_infos (i_w i)" "w_code w' = w_code (i_w i)"
      "dom (w_mem w') = dom (w_mem (i_w i))" "\<forall>b. b \<notin> slots dst 0 (int (length xs)) \<longrightarrow> rd w' b = rd (i_w i) b"
      "\<forall>k < length xs. rd w' (word_at dst (int k)) = Inr (xs ! k)"
    using wr_words_ok [OF assms(2,3)] by blast
  have "memmove dst src (length xs) i = Inr (set_w w' i)"
    using rd_words_ok [OF assms(1)] w'(1) by (simp add: memmove_def)
  then show ?thesis using w' by (auto simp: stores_def only_writes_def)
qed

text \<open>What the interpreter state shares before and after an operation that only adds code and closures.\<close>

definition same_frame :: "int \<Rightarrow> int \<Rightarrow> ist \<Rightarrow> ist \<Rightarrow> bool" where
  "same_frame m n i i' \<longleftrightarrow> i_base i' = i_base i \<and> (\<forall>k \<in> {m..<n}. slot i' k = slot i k)"

text \<open>
  \<^bold>\<open>C9.\<close> Overapplication: a call of a function of arity \<open>length xs\<close> with the arguments \<open>xs @ ys\<close>
  replaces its frame by a frame of an application continuation that holds \<open>ys\<close>, and pushes above it
  the frame of the function with exactly the arguments \<open>xs\<close>, which returns to the code of the
  continuation in the frame below.  The continuation is built or looked up for the number and the
  pointer mask of the remaining arguments; that must leave the frame alone.
\<close>

theorem overapplication_frames:
  assumes "\<forall>k < length xs + length ys. slot i (int k) = Inr ((xs @ ys) ! k)" and "slot i (-1) = Inr f"
    and "ap_cont e (length ys) (drop_bit (length xs) pm) i = Inr ((apk, ret), j)"
    and "same_frame (-1) (int (length xs + length ys)) i j" and "length xs + length ys < 2 ^ 57"
    and "\<not> stackOverflow (i_T i) (i_base i) (length ys + 4 + (length xs + length ys))"
    and "slots (i_base i) (-1) (int (length ys + 4 + (length xs + length ys))) \<subseteq> dom (w_mem (i_w j))"
  shows "\<exists>i'. over_apply e (length xs + length ys) pm (length xs) i = Inr (Inr i') \<and>
    i_base i' = word_at (i_base i) (int (length ys + 4)) \<and>
    slot i' (-1) = Inr f \<and> slot i' (-2) = Inr ret \<and> slot i' (-3) = Inr (i_base i) \<and>
    (\<forall>k < length xs. slot i' (int k) = Inr (xs ! k)) \<and>
    rd (i_w i') (word_at (i_base i) (-1)) = Inr apk \<and>
    (\<forall>k < length ys. rd (i_w i') (word_at (i_base i) (int k)) = Inr (ys ! k))"
proof -
  let ?n = "length xs" and ?m = "length ys" and ?b = "i_base i"
  let ?A = "int ?m + 4" and ?all = "slots ?b (-1) (int (?m + 4 + (?n + ?m)))"
  note small = assms(5)
  have bj: "i_base j = ?b" and sj: "\<And>k. -1 \<le> k \<Longrightarrow> k < int (?n + ?m) \<Longrightarrow> rd (i_w j) (word_at ?b k) = slot i k"
    using assms(4) by (auto simp: same_frame_def slot_def)
  have mem: "word_at ?b k \<in> ?all" if "-1 \<le> k" "k < int (?m + 4 + (?n + ?m))" for k
    using that by (intro slots_mem)
  have sub1: "slots (word_at ?b ?A) 0 (int (?n + ?m)) \<subseteq> ?all" and sub2: "slots ?b 0 (int ?m) \<subseteq> ?all"
    unfolding slots_shift by (rule slots_mono; simp)+
  have "\<exists>j1. memmove (word_at ?b ?A) ?b (length (xs @ ys)) j = Inr j1 \<and>
      stores (slots (word_at ?b ?A) 0 (int (length (xs @ ys)))) j j1 \<and>
      (\<forall>k < length (xs @ ys). rd (i_w j1) (word_at (word_at ?b ?A) (int k)) = Inr ((xs @ ys) ! k))"
    by (rule memmove_ok) (use assms(1,7) sj small sub1 in auto)
  then obtain j1 where j1: "memmove (word_at ?b ?A) ?b (?n + ?m) j = Inr j1"
      "stores (slots (word_at ?b ?A) 0 (int (?n + ?m))) j j1"
      "\<And>k. k < ?n + ?m \<Longrightarrow> rd (i_w j1) (word_at ?b (?A + int k)) = Inr ((xs @ ys) ! k)"
    by (auto simp: word_at_add)
  note D1 = storesD [OF j1(2)]
  have dom: "?all \<subseteq> dom (w_mem (i_w j1))" using D1(6) assms(7) by simp
  have "word_at ?b (-1) \<notin> slots (word_at ?b ?A) 0 (int (?n + ?m))"
    unfolding slots_shift using small by (intro slots_not_mem) auto
  then have f: "slot j1 (-1) = Inr f"
    using D1(1,7) bj sj [of "-1"] assms(2) by (simp add: slot_def)
  define j2 where "j2 = poke (word_at ?b (-1)) apk (poke (word_at ?b (?A - 3)) ?b
      (poke (word_at ?b (?A - 2)) ret (poke (word_at ?b (?A - 1)) f j1)))"
  have b2: "i_base j2 = ?b" using D1(1) bj by (simp add: j2_def)
  have dom2: "?all \<subseteq> dom (w_mem (i_w j2))" using dom by (auto simp: j2_def)
  have rest: "rd (i_w j2) (word_at ?b (?A + int k)) = Inr ((xs @ ys) ! k)" if "k < ?n + ?m" for k
    using j1(3) [OF that] that small by (simp add: j2_def)
  have "\<exists>j3. memmove ?b (word_at ?b (?A + int ?n)) (length ys) j2 = Inr j3 \<and>
      stores (slots ?b 0 (int (length ys))) j2 j3 \<and>
      (\<forall>k < length ys. rd (i_w j3) (word_at ?b (int k)) = Inr (ys ! k))"
  proof (rule memmove_ok)
    show "rd (i_w j2) (word_at (word_at ?b (?A + int ?n)) (int k)) = Inr (ys ! k)" if "k < length ys" for k
      using rest [of "?n + k"] that by (simp add: word_at_add add.assoc)
  qed (use sub2 dom2 small in auto)
  then obtain j3 where j3: "memmove ?b (word_at ?b (?A + int ?n)) ?m j2 = Inr j3"
      "stores (slots ?b 0 (int ?m)) j2 j3" "\<And>k. k < ?m \<Longrightarrow> rd (i_w j3) (word_at ?b (int k)) = Inr (ys ! k)"
    by auto
  have keep: "rd (i_w j3) (word_at ?b k) = rd (i_w j2) (word_at ?b k)" if "k = -1 \<or> int ?m \<le> k" "k < 2 ^ 59" for k
    using that small by (intro storesD(7) [OF j3(2)] slots_not_mem) auto
  have d: "word_at ?b (-1) \<in> dom (w_mem (i_w j1))" "word_at ?b (?A - 3) \<in> dom (w_mem (i_w j1))"
      "word_at ?b (?A - 2) \<in> dom (w_mem (i_w j1))" "word_at ?b (?A - 1) \<in> dom (w_mem (i_w j1))"
    by (intro subsetD [OF dom] mem; simp)+
  let ?i' = "j3\<lparr>i_base := word_at ?b ?A\<rparr>"
  have "over_apply e (?n + ?m) pm ?n i = Inr (Inr ?i')"
    using assms(3,6) j1(1) f d j3(1) D1(1) bj
    by (simp add: over_apply_def Let_def apContFrameSize_def setSlot_mapped j2_def algebra_simps)
  moreover have "rd (i_w ?i') (word_at (word_at ?b ?A) (-1)) = Inr f" "rd (i_w ?i') (word_at (word_at ?b ?A) (-2)) = Inr ret"
      "rd (i_w ?i') (word_at (word_at ?b ?A) (-3)) = Inr ?b" "rd (i_w ?i') (word_at ?b (-1)) = Inr apk"
    using keep [of "?A - 1"] keep [of "?A - 2"] keep [of "?A - 3"] keep [of "-1"] small
    by (simp_all add: word_at_add j2_def)
  moreover have "rd (i_w ?i') (word_at (word_at ?b ?A) (int k)) = Inr (xs ! k)" if "k < ?n" for k
    using keep [of "?A + int k"] rest [of k] that small by (simp add: word_at_add nth_append)
  ultimately show ?thesis
    using j3(3) by (intro exI [of _ ?i']) (simp add: slot_def algebra_simps)
qed

definition demo_over :: ist where
  "demo_over = (demo_ist \<lparr>w_mem = demo_stack_mem(0x1010 \<mapsto> 0x100520, 0x1018 \<mapsto> 5, 0x1020 \<mapsto> 6), w_infos = Map.empty, w_code = Map.empty\<rparr>
     0x1018 0x1028 0x2000)\<lparr>i_misc := demo_misc\<lparr>smallApConts := [0 \<mapsto> (0x100700, 0x300c)]\<rparr>\<rparr>"

theorem overapplication_frames_witness:
  "\<exists>i'. over_apply \<lparr>e_os = demo_os, e_asmEnter = (\<lambda>_ _. Inl BadAccess)\<rparr> 2 0 1 demo_over = Inr (Inr i') \<and>
     i_base i' = 0x1040 \<and> slot i' 0 = Inr 5 \<and> rd (i_w i') 0x1018 = Inr 6 \<and> rd (i_w i') 0x1010 = Inr 0x100700"
proof -
  let ?e = "\<lparr>e_os = demo_os, e_asmEnter = (\<lambda>_ _. Inl BadAccess)\<rparr>" and ?w = "i_w demo_over"
  have b: "i_base demo_over = 0x1018" by (simp add: demo_over_def)
  have d: "w_mem ?w a = (demo_stack_mem(0x1010 \<mapsto> 0x100520, 0x1018 \<mapsto> 5, 0x1020 \<mapsto> 6)) a" for a
    by (simp add: demo_over_def)
  have s: "slot demo_over 0 = Inr 5" "slot demo_over 1 = Inr 6" "slot demo_over (-1) = Inr 0x100520"
    by (simp_all add: slot_def b word_at_def rd_def d)
  have a: "ap_cont ?e (length [6 :: u8]) (drop_bit (length [5 :: u8]) 0) demo_over = Inr ((0x100700, 0x300c), demo_over)"
    by (simp add: ap_cont_def getApCont_def apContIndex_def kMaxSmallArity_def push_bit_eq_mult demo_over_def demo_ist_def)
  have i: "{-1..<7} = {-1, 0, 1, 2, 3, 4, 5, 6 :: int}" by auto
  have m: "slots (i_base demo_over) (-1) (int (length [6 :: u8] + 4 + (length [5 :: u8] + length [6 :: u8]))) \<subseteq> dom (w_mem ?w)"
    by (simp add: b slots_def i word_at_def) (simp add: d dom_def demo_stack_mem_def)
  have "\<exists>i'. over_apply ?e (length [5 :: u8] + length [6 :: u8]) 0 (length [5 :: u8]) demo_over = Inr (Inr i') \<and>
    i_base i' = word_at (i_base demo_over) (int (length [6 :: u8] + 4)) \<and>
    slot i' (-1) = Inr 0x100520 \<and> slot i' (-2) = Inr 0x300c \<and> slot i' (-3) = Inr (i_base demo_over) \<and>
    (\<forall>k < length [5 :: u8]. slot i' (int k) = Inr ([5] ! k)) \<and>
    rd (i_w i') (word_at (i_base demo_over) (-1)) = Inr 0x100700 \<and>
    (\<forall>k < length [6 :: u8]. rd (i_w i') (word_at (i_base demo_over) (int k)) = Inr ([6] ! k))"
  proof (rule overapplication_frames [OF _ s(3) a _ _ _ m])
    show "\<not> stackOverflow (i_T demo_over) (i_base demo_over) (length [6 :: u8] + 4 + (length [5 :: u8] + length [6 :: u8]))"
      by (simp add: b stackOverflow_def FRAME_SIZE_def) (simp add: demo_over_def)
  qed (auto simp: s same_frame_def less_Suc_eq)
  then show ?thesis
    by (auto simp: b word_at_def numeral_2_eq_2)
qed

section \<open>Stack bounds\<close>

lemma stackOverflow_iff:
  assumes "unat (th_stackLimit T) < 2 ^ 63" and "unat tp \<le> unat (th_stackLimit T)" and "n < 2 ^ 33"
  shows "stackOverflow T tp n \<longleftrightarrow> unat (th_stackLimit T) < unat tp + 8 * (n + 4)"
proof -
  have k: "unat (of_nat (8 * (n + 4)) :: u8) = 8 * (n + 4)"
    using assms(3) by (intro unat_of_nat_small) simp
  have "unat (tp + of_nat (8 * (n + 4))) = unat tp + 8 * (n + 4)"
    using assms k by (subst unat_plus_if') simp
  then show ?thesis
    by (simp add: stackOverflow_def FRAME_SIZE_def word_less_nat_alt add.commute add.left_commute distrib_left)
qed

lemma unat_word_at: "unat p + 8 * n < 2 ^ 64 \<Longrightarrow> unat (word_at p (int n)) = unat p + 8 * n"
proof -
  assume a: "unat p + 8 * n < 2 ^ 64"
  then have n: "unat (of_nat (8 * n) :: u8) = 8 * n" by (intro unat_of_nat_small) simp
  have "word_at p (int n) = p + of_nat (8 * n)" by (simp add: word_at_def)
  then show ?thesis using a n by (simp only: unat_plus_if') simp
qed

lemma push_frame_shape:
  assumes "push_frame tp ret clos n i = Inr (tp', i')"
  shows "tp' = word_at tp (3 + int n)" "i_base i' = word_at tp 3" "i_T i' = i_T i"
proof -
  obtain tp1 b1 w where "pushFrame tp (i_base i) ret clos n (i_w i) = Inr (tp1, b1, w)" and e: "tp' = tp1" "i' = (set_w w i)\<lparr>i_base := b1\<rparr>"
    using assms unfolding push_frame_def by (auto simp: result)
  then have "tp1 = word_at tp (3 + int n) \<and> b1 = word_at tp 3"
    unfolding pushFrame_def by (auto simp: result word_at_add)
  then show "tp' = word_at tp (3 + int n)" "i_base i' = word_at tp 3" "i_T i' = i_T i" using e by simp_all
qed

lemma setSlot_T: "setSlot n v i = Inr i' \<Longrightarrow> i_T i' = i_T i \<and> i_base i' = i_base i"
  by (auto simp: setSlot_def wr_i_def result)

lemma thunk_entry_top:
  assumes "res_bind (push_frame tp ret clos 2 i) (\<lambda>(tp', i).
                res_bind (setSlot 0 t i) (\<lambda>i.
                res_bind (setSlot 1 0xbadbadff i) (\<lambda>i.
                res_bind (push_frame tp' (ret' i) t n i) (\<lambda>(tp', i).
                res_bind (lc_assert (i_base i = b)) (\<lambda>_.
                res_bind (lc_assert (tp' = word_at (i_base i) (int n))) (\<lambda>_.
                  branch_to pc ((set_top tp' i)\<lparr>i_code := c\<rparr>))))))) = Inr (Next i')"
  shows "th_top (i_T i') = word_at b (int n) \<and> th_stackLimit (i_T i') = th_stackLimit (i_T i)"
proof -
  obtain tp1 i1 i2 i3 tp4 i4 where s: "push_frame tp ret clos 2 i = Inr (tp1, i1)" "setSlot 0 t i1 = Inr i2"
      "setSlot 1 0xbadbadff i2 = Inr i3" "push_frame tp1 (ret' i3) t n i3 = Inr (tp4, i4)" "i_base i4 = b"
      "tp4 = word_at b (int n)" "i' = (set_top tp4 i4)\<lparr>i_code := c, i_pc := pc\<rparr>"
    using assms by (auto simp: res_bind_Inr_iff branch_to_def)
  have "i_T i4 = i_T i"
    using push_frame_shape(3) [OF s(1)] setSlot_T [OF s(2)] setSlot_T [OF s(3)] push_frame_shape(3) [OF s(4)] by simp
  then show ?thesis using s by (simp add: th_stackLimit_def)
qed

text \<open>
  \<^bold>\<open>C16.\<close> \<^verbatim>\<open>EVAL\<close> and the limit of the stack.  If \<^verbatim>\<open>EVAL\<close> of a thunk continues, the new top of the stack, with
  room for a return frame and a result above it, does not exceed the limit.  For a value that is
  already evaluated nothing is checked: base and top stay, and the value is written to the word
  \<^verbatim>\<open>FRAME_SIZE\<close> above the top.  So in both cases the room above the top is kept if it was there before.
\<close>

theorem eval_within_stack:
  assumes "op_EVAL opA i = Inr (Next i')" and "unat (th_stackLimit (i_T i)) < 2 ^ 63"
    and "unat (th_top (i_T i)) \<le> unat (th_stackLimit (i_T i))"
    and "\<forall>p it c. info_at (i_w i) p = Inr it \<longrightarrow> it_code it = Some c \<longrightarrow> c_framesize c < 2 ^ 32"
  shows "\<exists>node t hnf. slot i (int opA) = Inr node \<and> skip_ind (i_w i) node = Inr t \<and> cl_isHNF (i_w i) t = Inr hnf \<and>
    th_stackLimit (i_T i') = th_stackLimit (i_T i) \<and>
    (if hnf then i_base i' = i_base i \<and> th_top (i_T i') = th_top (i_T i) \<and>
                wr (word_at (th_top (i_T i)) (int FRAME_SIZE)) t (i_w i) = Inr (i_w i')
     else unat (th_top (i_T i')) + 8 * 4 \<le> unat (th_stackLimit (i_T i))) \<and>
    (unat (th_top (i_T i)) + 8 * 4 \<le> unat (th_stackLimit (i_T i)) \<longrightarrow>
       unat (th_top (i_T i')) + 8 * 4 \<le> unat (th_stackLimit (i_T i')))"
proof -
  let ?tp = "th_top (i_T i)"
  obtain tnode t' info hnf where t: "slot i (int opA) = Inr tnode" "tnode \<noteq> 0" "looksLikeClosure (i_mm i) tnode = Inr True"
      "skip_ind (i_w i) tnode = Inr t'" "cl_info (i_w i) t' = Inr info" "info \<noteq> stg_IND_info (i_misc i)"
      "cl_isHNF (i_w i) t' = Inr hnf"
    using assms(1) unfolding op_EVAL_def res_bind_Inr_iff lc_assert_Inr_iff by (elim exE conjE) (rule that; (assumption | simp))
  have "th_stackLimit (i_T i') = th_stackLimit (i_T i) \<and>
    (if hnf then i_base i' = i_base i \<and> th_top (i_T i') = th_top (i_T i) \<and>
                wr (word_at ?tp (int FRAME_SIZE)) t' (i_w i) = Inr (i_w i')
     else unat (th_top (i_T i')) + 8 * 4 \<le> unat (th_stackLimit (i_T i)))"
  proof (cases hnf)
    case True
    then show ?thesis
      using assms(1) t by (auto simp: op_EVAL_def wr_i_def th_stackLimit_def result)
  next
    case False
    note ev = op_EVAL_def [of opA i, simplified t False res_bind.simps lc_assert_True if_False if_True simp_thms]
    obtain c where c: "closure_code (i_w i) t' = Inr c"
      using assms(1) unfolding ev res_bind_Inr_iff by blast
    then obtain it where it: "info_at (i_w i) info = Inr it" "it_code it = Some c"
      using t(5) by (auto simp: closure_code_def cl_itbl_def itbl_code_def result)
    let ?n = "8 + c_framesize c"
    have fs: "c_framesize c < 2 ^ 32" using assms(4) it by blast
    have chk: "\<not> stackOverflow (i_T i) ?tp ?n"
      using assms(1) by (auto simp: ev c Let_def kStackFrameWords_def kUpdateFrameWords_def stack_overflow_def finish_def result)
    have "res_bind (push_frame ?tp (i_pc i + 4) (stg_UPD_closure_addr (i_misc i)) 2 i) (\<lambda>(tp', i).
                res_bind (setSlot 0 t' i) (\<lambda>i.
                res_bind (setSlot 1 0xbadbadff i) (\<lambda>i.
                res_bind (push_frame tp' (stg_UPD_return_pc (i_misc i)) t' (c_framesize c) i) (\<lambda>(tp', i).
                res_bind (lc_assert (i_base i = word_at ?tp 8)) (\<lambda>_.
                res_bind (lc_assert (tp' = word_at (i_base i) (int (c_framesize c)))) (\<lambda>_.
                  branch_to (c_code c) ((set_top tp' i)\<lparr>i_code := c\<rparr>))))))) = Inr (Next i')"
      using assms(1) chk by (simp add: ev c Let_def kStackFrameWords_def kUpdateFrameWords_def)
    then have tp': "th_top (i_T i') = word_at (word_at ?tp 8) (int (c_framesize c)) \<and>
        th_stackLimit (i_T i') = th_stackLimit (i_T i)"
      by (rule thunk_entry_top)
    have b: "unat ?tp + 8 * (?n + 4) \<le> unat (th_stackLimit (i_T i))"
      using chk stackOverflow_iff [OF assms(2,3), of ?n] fs by simp
    have "word_at (word_at ?tp 8) (int (c_framesize c)) = word_at ?tp (int ?n)"
      by (simp add: word_at_add)
    moreover have "unat (word_at ?tp (int ?n)) = unat ?tp + 8 * ?n"
      using b assms(2) by (intro unat_word_at) simp
    ultimately have "unat (th_top (i_T i')) = unat ?tp + 8 * ?n"
      using tp' by simp
    then show ?thesis using tp' b False by simp
  qed
  then show ?thesis using t(1,4,7) by (intro exI conjI) (auto split: if_splits)
qed

lemma demo_eval_continues: "\<exists>i'. op_EVAL 0 (demo_ist demo_eval 0x1018 0x1020 0x3000) = Inr (Next i')"
  using demo_eval_run by blast

theorem eval_within_stack_witness:
  "\<exists>i'. op_EVAL 0 (demo_ist demo_eval 0x1018 0x1020 0x3000) = Inr (Next i') \<and>
     unat (th_top (i_T i')) + 32 \<le> unat (th_stackLimit (i_T i'))"
proof -
  obtain i' where i': "op_EVAL 0 (demo_ist demo_eval 0x1018 0x1020 0x3000) = Inr (Next i')"
    using demo_eval_continues by blast
  then show ?thesis
    using eval_within_stack [OF i'] by (fastforce simp: info_at_def demo_eval_def demo_itbl_def demo_code_def split: if_splits)
qed

section \<open>Allocation by the interpreter\<close>

text \<open>
  \<^verbatim>\<open>BUMP_HEAP\<close> as a bump allocator that counts in words: a request for \<open>n\<close> words is an object with
  \<open>n - 1\<close> payload words.
\<close>

definition heap_ok :: "ist \<Rightarrow> bool" where
  "heap_ok i \<longleftrightarrow> 8 dvd unat (i_heap i) \<and> 8 dvd unat (i_heaplim i) \<and> i_heap i \<le> i_heaplim i \<and>
     unat (i_heaplim i) < 2 ^ 62"

definition heap_alloc :: "nat \<Rightarrow> ist \<Rightarrow> (nat \<times> ist) option" where
  "heap_alloc n i =
     (case n of
        0 \<Rightarrow> Some (unat (i_heap i) div 8, i)
      | Suc p \<Rightarrow>
          if n < 2 ^ 60
          then (case bump_heap p i of None \<Rightarrow> None | Some (a, i) \<Rightarrow> Some (unat a div 8, i))
          else None)"

lemma bump_heap_cases:
  assumes "heap_ok i" and "Suc p < 2 ^ 60"
  shows "bump_heap p i = None \<longleftrightarrow> unat (i_heaplim i) div 8 < unat (i_heap i) div 8 + Suc p"
    and "bump_heap p i = Some (a, i') \<Longrightarrow> a = i_heap i \<and> i' = i\<lparr>i_heap := i_heap i'\<rparr> \<and>
      unat (i_heap i') = unat (i_heap i) + 8 * Suc p \<and> heap_ok i'"
proof -
  let ?h = "i_heap i + of_nat ((1 + p) * 8)"
  have k: "unat (of_nat ((1 + p) * 8) :: u8) = 8 * Suc p"
    using assms(2) by (subst unat_of_nat_small) auto
  have le: "unat (i_heap i) \<le> unat (i_heaplim i)" "unat (i_heaplim i) < 2 ^ 62"
    using assms(1) by (auto simp: heap_ok_def word_le_nat_alt)
  have u: "unat ?h = unat (i_heap i) + 8 * Suc p"
    using le assms(2) k by (subst unat_plus_if') simp
  obtain x y where xy: "unat (i_heap i) = 8 * x" "unat (i_heaplim i) = 8 * y"
    using assms(1) by (auto simp: heap_ok_def elim!: dvdE)
  show "bump_heap p i = None \<longleftrightarrow> unat (i_heaplim i) div 8 < unat (i_heap i) div 8 + Suc p"
    using u xy by (auto simp: bump_heap_def Let_def word_less_nat_alt)
  show "a = i_heap i \<and> i' = i\<lparr>i_heap := i_heap i'\<rparr> \<and> unat (i_heap i') = unat (i_heap i) + 8 * Suc p \<and> heap_ok i'"
    if "bump_heap p i = Some (a, i')"
    using that u assms(1) by (auto simp: bump_heap_def Let_def heap_ok_def word_le_nat_alt word_less_nat_alt split: if_splits)
qed

interpretation hp: bump_allocator heap_ok "\<lambda>i. unat (i_heap i) div 8" "\<lambda>i. unat (i_heaplim i) div 8" heap_alloc
proof
  fix s n p s'
  assume ok: "heap_ok s" and a: "heap_alloc n s = Some (p, s')"
  show "p = unat (i_heap s) div 8 \<and> unat (i_heap s') div 8 = unat (i_heap s) div 8 + n \<and>
      unat (i_heaplim s') div 8 = unat (i_heaplim s) div 8 \<and> heap_ok s'"
  proof (cases n)
    case 0
    then show ?thesis using a ok by (auto simp: heap_alloc_def)
  next
    case (Suc q)
    then obtain b where b: "bump_heap q s = Some (b, s')" "p = unat b div 8" "Suc q < 2 ^ 60"
      using a by (auto simp: heap_alloc_def split: if_splits option.splits)
    have "i_heaplim s' = i_heaplim s"
      using b(1) by (auto simp: bump_heap_def Let_def split: if_splits)
    moreover note bump_heap_cases(2) [OF ok b(3,1)]
    ultimately show ?thesis using b(2) Suc by auto
  qed
next
  fix s n assume ok: "heap_ok s"
  show "heap_alloc n s = None \<longleftrightarrow> unat (i_heaplim s) div 8 < unat (i_heap s) div 8 + n"
  proof (cases n)
    case 0
    then show ?thesis using ok by (auto simp: heap_alloc_def heap_ok_def word_le_nat_alt intro: div_le_mono)
  next
    case (Suc q)
    have "unat (i_heaplim s) div 8 < 2 ^ 60"
      using ok by (simp add: heap_ok_def less_mult_imp_div_less)
    then show ?thesis
      using bump_heap_cases(1) [OF ok, of q] Suc by (auto simp: heap_alloc_def split: option.splits)
  qed
next
  fix s assume "heap_ok s"
  then show "unat (i_heap s) div 8 \<le> unat (i_heaplim s) div 8"
    by (auto simp: heap_ok_def word_le_nat_alt intro: div_le_mono)
qed

text \<open>Objects with the payload sizes \<open>ps\<close> allocated one after the other.\<close>

fun bump_all :: "nat list \<Rightarrow> ist \<Rightarrow> (u8 list \<times> ist) option" where
  "bump_all [] i = Some ([], i)"
| "bump_all (p # ps) i =
     (case bump_heap p i of
        None \<Rightarrow> None
      | Some (a, i) \<Rightarrow> (case bump_all ps i of None \<Rightarrow> None | Some (as, i) \<Rightarrow> Some (a # as, i)))"

lemma bump_all_allocs:
  assumes "heap_ok i" and "\<forall>p \<in> set ps. Suc p < 2 ^ 60" and "bump_all ps i = Some (as, i')"
  shows "hp.allocs (map Suc ps) i = Some (map (\<lambda>a. unat a div 8) as, i') \<and> (\<forall>a \<in> set as. 8 dvd unat a)"
  using assms
proof (induction ps arbitrary: i as)
  case (Cons p ps)
  obtain a i1 as' where a: "bump_heap p i = Some (a, i1)" "bump_all ps i1 = Some (as', i')" "as = a # as'"
    using Cons.prems(3) by (auto split: option.splits)
  have p: "Suc p < 2 ^ 60" using Cons.prems(2) by simp
  note b = bump_heap_cases(2) [OF Cons.prems(1) p a(1)]
  have "heap_alloc (Suc p) i = Some (unat a div 8, i1)"
    using a(1) p by (simp add: heap_alloc_def)
  moreover have "8 dvd unat a" using b Cons.prems(1) by (simp add: heap_ok_def)
  ultimately show ?case
    using Cons.IH [OF _ _ a(2)] b Cons.prems(2) a(3) by simp
qed simp

text \<open>
  \<^bold>\<open>C31.\<close> Objects the interpreter allocates without a collection in between do not overlap: the object
  allocated first ends at or before the start of every later one, and all of them end at or before
  the heap limit.
\<close>

theorem interp_allocs_disjoint:
  assumes "heap_ok i" and "\<forall>p \<in> set ps. p < 2 ^ 59" and "bump_all ps i = Some (as, i')"
    and "k < l" and "l < length ps"
  shows "unat (as ! k) + 8 * (1 + ps ! k) \<le> unat (as ! l) \<and>
    unat (as ! l) + 8 * (1 + ps ! l) \<le> unat (i_heaplim i)"
proof -
  have "\<forall>p \<in> set ps. Suc p < 2 ^ 60" using assms(2) by auto
  note A = bump_all_allocs [OF assms(1) this assms(3)]
  note d = hp.allocs_disjoint [OF assms(1) conjunct1 [OF A] assms(4)]
  have len: "length as = length ps"
    using hp.allocs_layout [OF assms(1) conjunct1 [OF A]] by simp
  have "8 dvd unat (as ! k)" "8 dvd unat (as ! l)" "8 dvd unat (i_heaplim i)"
    using A len assms(1,4,5) by (auto simp: heap_ok_def)
  then show ?thesis
    using d assms(4,5) len by (auto elim!: dvdE)
qed

theorem interp_allocs_disjoint_witness:
  "\<exists>as i'. bump_all [2, 3] (demo_ist demo_case 0x1018 0x1020 0x2000) = Some (as, i') \<and> unat (as ! 0) + 24 \<le> unat (as ! 1)"
proof -
  let ?i = "demo_ist demo_case 0x1018 0x1020 0x2000"
  have ok: "heap_ok ?i" by (simp add: heap_ok_def demo_ist_def)
  have "\<exists>as i'. bump_all [2, 3] ?i = Some (as, i')"
    by (simp add: bump_heap_def demo_ist_def Let_def)
  then show ?thesis
    using interp_allocs_disjoint [OF ok, of "[2, 3]" _ _ 0 1] by fastforce
qed

text \<open>
  An exact application sets the top of the stack to the end of the callee's frame without a check;
  \<^verbatim>\<open>CALL\<close> and \<^verbatim>\<open>CALLT\<close> have only checked the room for the arguments.
\<close>

lemma exact_call_unchecked:
  assumes "closure_code (i_w i) f = Inr c" and "c_arity c = n"
  shows "\<exists>i'. apply_fun e f n pm i = Inr (Next i') \<and> i_pc i' = c_code c \<and>
    th_top (i_T i') = word_at (i_base i) (int (c_framesize c))"
  using assms by (simp add: apply_fun_def branch_to_def)
end
