(* ===== verification/X86.thy ===== *)
theory X86
  imports Utils "HOL-Library.Signed_Division"
begin

text \<open>
  A reference for the machine code the assembler writes: a decoder for the part of the x86-64
  instruction set that \<^verbatim>\<open>src/vm/assembler.cc\<close> emits on general purpose registers, and what the
  decoded instructions do to registers, memory and flags.  It is written from the processor's
  manual and independently of the encoder of theory \<open>Encoding\<close>, so that the theorems about
  emitted bytes say what the processor will do with them.  The SSE instructions have no decoding
  here.
\<close>

section \<open>Instructions\<close>

text \<open>An operand: a register, memory at base, scaled index and displacement, or memory relative
  to the end of the instruction.\<close>

datatype rm = Rm_reg nat | Rm_mem "nat option" "(nat \<times> nat) option" u8 | Rm_rip u8

text \<open>A Boolean argument selects the 64 bit form of an instruction.\<close>

datatype xins =
    XLoad bool nat rm
  | XStore bool rm nat
  | XStoreI bool rm u8
  | XMovI nat u8
  | XLea bool nat rm
  | XAlu nat bool nat rm
  | XAluI nat bool rm u8
  | XImul bool nat rm
  | XImulI bool nat rm u8
  | XShiftI nat bool rm nat
  | XShiftCl nat bool rm
  | XGroup3 nat bool rm
  | XCqo bool
  | XMovzxB bool nat rm
  | XInc bool rm
  | XJcc nat u8
  | XJmp u8
  | XCall u8
  | XPush nat
  | XPop nat
  | XPushI u8
  | XRet

section \<open>Decoding\<close>

text \<open>Little-endian words in a byte stream.\<close>

fun of_le :: "u1 list \<Rightarrow> 'a::len word" where
  "of_le [] = 0"
| "of_le (b # bs) = ucast b OR push_bit 8 (of_le bs)"

definition take_byte :: "u1 list \<Rightarrow> (u1 \<times> u1 list) option" where
  "take_byte c = (case c of b # k \<Rightarrow> Some (b, k) | [] \<Rightarrow> None)"

definition take_imm8 :: "u1 list \<Rightarrow> (u8 \<times> u1 list) option" where
  "take_imm8 c = (case c of b # k \<Rightarrow> Some (scast b, k) | [] \<Rightarrow> None)"

definition take_le32 :: "u1 list \<Rightarrow> (u4 \<times> u1 list) option" where
  "take_le32 c = (case c of b0 # b1 # b2 # b3 # k \<Rightarrow> Some (of_le [b0, b1, b2, b3], k) | _ \<Rightarrow> None)"

definition take_imm32 :: "u1 list \<Rightarrow> (u8 \<times> u1 list) option" where
  "take_imm32 c = map_option (\<lambda>(w, k). (scast w, k)) (take_le32 c)"

definition take_le64 :: "u1 list \<Rightarrow> (u8 \<times> u1 list) option" where
  "take_le64 c =
     (case c of b0 # b1 # b2 # b3 # b4 # b5 # b6 # b7 # k \<Rightarrow>
        Some (of_le [b0, b1, b2, b3, b4, b5, b6, b7], k)
      | _ \<Rightarrow> None)"

text \<open>The displacement that goes with the \<open>mod\<close> field.\<close>

definition take_disp :: "nat \<Rightarrow> u1 list \<Rightarrow> (u8 \<times> u1 list) option" where
  "take_disp md c =
     (if md = 0 then Some (0, c) else if md = 1 then take_imm8 c else take_imm32 c)"

definition take_sib :: "nat \<Rightarrow> nat \<Rightarrow> nat \<Rightarrow> u1 list \<Rightarrow> (rm \<times> u1 list) option" where
  "take_sib md x b c =
     (case c of [] \<Rightarrow> None
      | s # k \<Rightarrow>
        let ix = unat (drop_bit 3 s AND 7) + 8 * x;
            bs = unat (s AND 7);
            idx = (if ix = 4 then None else Some (ix, 2 ^ unat (drop_bit 6 s)))
        in if bs = 5 \<and> md = 0
           then map_option (\<lambda>(d, k). (Rm_mem None idx d, k)) (take_imm32 k)
           else map_option (\<lambda>(d, k). (Rm_mem (Some (bs + 8 * b)) idx d, k)) (take_disp md k))"

text \<open>The \<open>ModRM\<close> byte and what follows it: the register field, the operand and the rest.\<close>

definition take_modrm ::
    "nat \<Rightarrow> nat \<Rightarrow> nat \<Rightarrow> u1 list \<Rightarrow> (nat \<times> rm \<times> u1 list) option" where
  "take_modrm r x b c =
     (case c of [] \<Rightarrow> None
      | mb # k \<Rightarrow>
        let md = unat (drop_bit 6 mb);
            rg = unat (drop_bit 3 mb AND 7) + 8 * r;
            m = unat (mb AND 7)
        in if md = 3 then Some (rg, Rm_reg (m + 8 * b), k)
           else if m = 4 then map_option (\<lambda>(v, k). (rg, v, k)) (take_sib md x b k)
           else if m = 5 \<and> md = 0 then map_option (\<lambda>(d, k). (rg, Rm_rip d, k)) (take_imm32 k)
           else map_option (\<lambda>(d, k). (rg, Rm_mem (Some (m + 8 * b)) None d, k)) (take_disp md k))"

text \<open>Opcodes after the \<open>REX\<close> prefix, given as its four bits.\<close>

definition decode_0f :: "bool \<Rightarrow> nat \<Rightarrow> nat \<Rightarrow> nat \<Rightarrow> u1 \<Rightarrow> u1 list \<Rightarrow> (xins \<times> u1 list) option" where
  "decode_0f w r x b op k =
     (if op = 0xaf then map_option (\<lambda>(g, v, k). (XImul w g v, k)) (take_modrm r x b k)
      else if op = 0xb6 then map_option (\<lambda>(g, v, k). (XMovzxB w g v, k)) (take_modrm r x b k)
      else if drop_bit 4 op = 8
        then map_option (\<lambda>(d, k). (XJcc (unat (op AND 15)) d, k)) (take_imm32 k)
      else None)"

definition decode_op :: "bool \<Rightarrow> nat \<Rightarrow> nat \<Rightarrow> nat \<Rightarrow> u1 \<Rightarrow> u1 list \<Rightarrow> (xins \<times> u1 list) option" where
  "decode_op w r x b op k =
     (if op = 0x8b then map_option (\<lambda>(g, v, k). (XLoad w g v, k)) (take_modrm r x b k)
      else if op = 0x89 then map_option (\<lambda>(g, v, k). (XStore w v g, k)) (take_modrm r x b k)
      else if op = 0x8d then map_option (\<lambda>(g, v, k). (XLea w g v, k)) (take_modrm r x b k)
      else if op AND 0xc7 = 0x03
        then map_option (\<lambda>(g, v, k). (XAlu (unat (drop_bit 3 op)) w g v, k)) (take_modrm r x b k)
      else if op = 0xc7
        then Option.bind (take_modrm r x b k) (\<lambda>(g, v, k).
               if g mod 8 = 0 then map_option (\<lambda>(d, k). (XStoreI w v d, k)) (take_imm32 k) else None)
      else if op = 0x83
        then Option.bind (take_modrm r x b k) (\<lambda>(g, v, k).
               map_option (\<lambda>(d, k). (XAluI (g mod 8) w v d, k)) (take_imm8 k))
      else if op = 0x81
        then Option.bind (take_modrm r x b k) (\<lambda>(g, v, k).
               map_option (\<lambda>(d, k). (XAluI (g mod 8) w v d, k)) (take_imm32 k))
      else if op = 0x6b
        then Option.bind (take_modrm r x b k) (\<lambda>(g, v, k).
               map_option (\<lambda>(d, k). (XImulI w g v d, k)) (take_imm8 k))
      else if op = 0x69
        then Option.bind (take_modrm r x b k) (\<lambda>(g, v, k).
               map_option (\<lambda>(d, k). (XImulI w g v d, k)) (take_imm32 k))
      else if op = 0xc1
        then Option.bind (take_modrm r x b k) (\<lambda>(g, v, k).
               map_option (\<lambda>(i, k). (XShiftI (g mod 8) w v (unat i), k)) (take_byte k))
      else if op = 0xd1
        then map_option (\<lambda>(g, v, k). (XShiftI (g mod 8) w v 1, k)) (take_modrm r x b k)
      else if op = 0xd3
        then map_option (\<lambda>(g, v, k). (XShiftCl (g mod 8) w v, k)) (take_modrm r x b k)
      else if op = 0xf7
        then Option.bind (take_modrm r x b k) (\<lambda>(g, v, k).
               if 2 \<le> g mod 8 then Some (XGroup3 (g mod 8) w v, k) else None)
      else if op = 0xff
        then Option.bind (take_modrm r x b k) (\<lambda>(g, v, k).
               if g mod 8 = 0 then Some (XInc w v, k) else None)
      else if op = 0x99 then Some (XCqo w, k)
      else if op = 0xe9 then map_option (\<lambda>(d, k). (XJmp d, k)) (take_imm32 k)
      else if op = 0xeb then map_option (\<lambda>(d, k). (XJmp d, k)) (take_imm8 k)
      else if op = 0xe8 then map_option (\<lambda>(d, k). (XCall d, k)) (take_imm32 k)
      else if op = 0x6a then map_option (\<lambda>(d, k). (XPushI d, k)) (take_imm8 k)
      else if op = 0xc3 then Some (XRet, k)
      else if drop_bit 3 op = 0x17
        then (if w then map_option (\<lambda>(d, k). (XMovI (unat (op AND 7) + 8 * b) d, k)) (take_le64 k)
              else map_option (\<lambda>(d, k). (XMovI (unat (op AND 7) + 8 * b) (ucast d), k)) (take_le32 k))
      else if drop_bit 3 op = 0x0a then Some (XPush (unat (op AND 7) + 8 * b), k)
      else if drop_bit 3 op = 0x0b then Some (XPop (unat (op AND 7) + 8 * b), k)
      else None)"

definition decode_rex :: "bool \<Rightarrow> nat \<Rightarrow> nat \<Rightarrow> nat \<Rightarrow> u1 list \<Rightarrow> (xins \<times> u1 list) option" where
  "decode_rex w r x b c =
     (case c of [] \<Rightarrow> None
      | op # k \<Rightarrow>
        if op = 0x0f then (case k of [] \<Rightarrow> None | op2 # k \<Rightarrow> decode_0f w r x b op2 k)
        else decode_op w r x b op k)"

definition decode :: "u1 list \<Rightarrow> (xins \<times> u1 list) option" where
  "decode c =
     (case c of [] \<Rightarrow> None
      | p # k \<Rightarrow>
        if drop_bit 4 p = 4
        then decode_rex (bit p 3) (of_bool (bit p 2)) (of_bool (bit p 1)) (of_bool (bit p 0)) k
        else decode_rex False 0 0 0 c)"


text \<open>Every instruction takes at least one byte.\<close>

lemma take_byte_length: "take_byte c = Some (d, k) \<Longrightarrow> length k < length c"
  by (auto simp: take_byte_def split: list.splits)

lemma take_imm8_length: "take_imm8 c = Some (d, k) \<Longrightarrow> length k < length c"
  by (auto simp: take_imm8_def split: list.splits)

lemma take_le32_length: "take_le32 c = Some (d, k) \<Longrightarrow> length k < length c"
  by (auto simp: take_le32_def split: list.splits)

lemma take_imm32_length: "take_imm32 c = Some (d, k) \<Longrightarrow> length k < length c"
  by (auto simp: take_imm32_def dest: take_le32_length)

lemma take_le64_length: "take_le64 c = Some (d, k) \<Longrightarrow> length k < length c"
  by (auto simp: take_le64_def split: list.splits)

lemma take_disp_length: "take_disp md c = Some (d, k) \<Longrightarrow> length k \<le> length c"
  by (auto simp: take_disp_def dest: take_imm8_length take_imm32_length split: if_splits)

lemma take_sib_length: "take_sib md x b c = Some (v, k) \<Longrightarrow> length k < length c"
  by (fastforce simp: take_sib_def Let_def dest: take_disp_length take_imm32_length
      split: list.splits if_splits)

lemma take_modrm_length: "take_modrm r x b c = Some (g, v, k) \<Longrightarrow> length k < length c"
  by (fastforce simp: take_modrm_def Let_def
      dest: take_disp_length take_imm32_length take_sib_length split: list.splits if_splits)

lemmas take_lengths = take_byte_length take_imm8_length take_le32_length take_imm32_length take_le64_length
  take_modrm_length

lemma map_option_length:
  assumes "map_option (\<lambda>(d, k). (f d, k)) m = Some (i, k')"
    and "\<And>d k. m = Some (d, k) \<Longrightarrow> length k \<le> n"
  shows "length k' \<le> n"
  using assms by (cases m) auto

lemma decode_op_length: "decode_op w r x b op c = Some (i, k) \<Longrightarrow> length k \<le> length c"
  by (auto simp: decode_op_def bind_eq_Some_conv dest!: take_lengths
      split: if_splits)

lemma decode_0f_length: "decode_0f w r x b op c = Some (i, k) \<Longrightarrow> length k \<le> length c"
  by (auto simp: decode_0f_def dest!: take_lengths split: if_splits)

lemma decode_rex_length: "decode_rex w r x b c = Some (i, k) \<Longrightarrow> length k < length c"
  by (auto simp: decode_rex_def le_imp_less_Suc dest!: decode_op_length decode_0f_length
      split: list.splits if_splits)

lemma decode_length: "decode c = Some (i, k) \<Longrightarrow> length k < length c"
  by (auto simp: decode_def dest!: decode_rex_length split: list.splits if_splits)

section \<open>Execution\<close>

record xflags =
  f_zero :: bool
  f_sign :: bool
  f_carry :: bool
  f_overflow :: bool

text \<open>The flags are \<^const>\<open>None\<close> after an instruction that leaves some of them undefined.\<close>

record xstate =
  x_reg :: "nat \<Rightarrow> u8"
  x_mem :: "u8 \<Rightarrow> u1"
  x_flags :: "xflags option"

definition rd_le :: "nat \<Rightarrow> (u8 \<Rightarrow> u1) \<Rightarrow> u8 \<Rightarrow> u8" where
  "rd_le n m a = of_le (map (\<lambda>i. m (a + of_nat i)) [0..<n])"

definition wr_le :: "nat \<Rightarrow> (u8 \<Rightarrow> u1) \<Rightarrow> u8 \<Rightarrow> u8 \<Rightarrow> (u8 \<Rightarrow> u1)" where
  "wr_le n m a v =
     (\<lambda>x. let d = unat (x - a) in if d < n then ucast (drop_bit (8 * d) v) else m x)"

abbreviation rd64 :: "(u8 \<Rightarrow> u1) \<Rightarrow> u8 \<Rightarrow> u8" where "rd64 \<equiv> rd_le 8"
abbreviation wr64 :: "(u8 \<Rightarrow> u1) \<Rightarrow> u8 \<Rightarrow> u8 \<Rightarrow> (u8 \<Rightarrow> u1)" where "wr64 \<equiv> wr_le 8"

definition x_set :: "nat \<Rightarrow> u8 \<Rightarrow> xstate \<Rightarrow> xstate" where
  "x_set r v s = s\<lparr>x_reg := (x_reg s)(r := v)\<rparr>"

fun x_addr :: "u8 \<Rightarrow> rm \<Rightarrow> xstate \<Rightarrow> u8" where
  "x_addr ip (Rm_reg r) s = 0"
| "x_addr ip (Rm_rip d) s = ip + d"
| "x_addr ip (Rm_mem base idx d) s =
     (case base of None \<Rightarrow> 0 | Some b \<Rightarrow> x_reg s b)
       + (case idx of None \<Rightarrow> 0 | Some (i, sc) \<Rightarrow> x_reg s i * of_nat sc) + d"

definition x_size :: "bool \<Rightarrow> nat" where "x_size w = (if w then 8 else 4)"

definition x_trunc :: "bool \<Rightarrow> u8 \<Rightarrow> u8" where
  "x_trunc w v = (if w then v else take_bit 32 v)"

fun x_get :: "bool \<Rightarrow> u8 \<Rightarrow> rm \<Rightarrow> xstate \<Rightarrow> u8" where
  "x_get w ip (Rm_reg r) s = x_trunc w (x_reg s r)"
| "x_get w ip v s = rd_le (x_size w) (x_mem s) (x_addr ip v s)"

fun x_put :: "bool \<Rightarrow> u8 \<Rightarrow> rm \<Rightarrow> u8 \<Rightarrow> xstate \<Rightarrow> xstate" where
  "x_put w ip (Rm_reg r) val s = x_set r (x_trunc w val) s"
| "x_put w ip v val s = s\<lparr>x_mem := wr_le (x_size w) (x_mem s) (x_addr ip v s) val\<rparr>"

definition flags_logic :: "u8 \<Rightarrow> xflags" where
  "flags_logic v = \<lparr>f_zero = (v = 0), f_sign = bit v 63, f_carry = False, f_overflow = False\<rparr>"

definition flags_add :: "u8 \<Rightarrow> u8 \<Rightarrow> xflags" where
  "flags_add a b =
     \<lparr>f_zero = (a + b = 0), f_sign = bit (a + b) 63, f_carry = (a + b < a),
      f_overflow = (sint (a + b) \<noteq> sint a + sint b)\<rparr>"

definition flags_sub :: "u8 \<Rightarrow> u8 \<Rightarrow> xflags" where
  "flags_sub a b =
     \<lparr>f_zero = (a = b), f_sign = bit (a - b) 63, f_carry = (a < b),
      f_overflow = (sint (a - b) \<noteq> sint a - sint b)\<rparr>"

text \<open>The arithmetic group: the result, when the instruction writes one, and the flags.
  \<open>adc\<close> and \<open>sbb\<close> have no meaning here.\<close>

definition x_alu :: "nat \<Rightarrow> u8 \<Rightarrow> u8 \<Rightarrow> (u8 option \<times> xflags) option" where
  "x_alu op a b =
     (if op = 0 then Some (Some (a + b), flags_add a b)
      else if op = 1 then Some (Some (a OR b), flags_logic (a OR b))
      else if op = 4 then Some (Some (a AND b), flags_logic (a AND b))
      else if op = 5 then Some (Some (a - b), flags_sub a b)
      else if op = 6 then Some (Some (a XOR b), flags_logic (a XOR b))
      else if op = 7 then Some (None, flags_sub a b)
      else None)"

definition x_shift :: "nat \<Rightarrow> u8 \<Rightarrow> nat \<Rightarrow> u8 option" where
  "x_shift op a n =
     (if op = 4 \<or> op = 6 then Some (push_bit (n mod 64) a)
      else if op = 5 then Some (drop_bit (n mod 64) a)
      else if op = 7 then Some (signed_drop_bit (n mod 64) a)
      else None)"

definition x_cond :: "nat \<Rightarrow> xflags \<Rightarrow> bool option" where
  "x_cond cc f =
     (let neg = odd cc; c = cc div 2
      in if c = 5 \<or> c > 7 then None
         else Some (neg \<noteq>
           (if c = 0 then f_overflow f
            else if c = 1 then f_carry f
            else if c = 2 then f_zero f
            else if c = 3 then f_carry f \<or> f_zero f
            else if c = 4 then f_sign f
            else if c = 6 then f_sign f \<noteq> f_overflow f
            else f_zero f \<or> f_sign f \<noteq> f_overflow f)))"

text \<open>The quotient and the remainder of \<open>idiv\<close>; the processor traps when the divisor is zero or
  the quotient does not fit.\<close>

definition x_idiv :: "u8 \<Rightarrow> u8 \<Rightarrow> u8 \<Rightarrow> (u8 \<times> u8) option" where
  "x_idiv hi lo d =
     (let n = sint hi * 2 ^ 64 + uint lo; q = n sdiv sint d
      in if sint d = 0 \<or> q < - (2 ^ 63) \<or> q \<ge> 2 ^ 63 then None
         else Some (word_of_int q, word_of_int (n smod sint d)))"

datatype xres = XNext xstate | XLeave u8 xstate

definition x_rsp :: nat where "x_rsp = 4"

definition x_alu_to :: "u8 \<Rightarrow> rm \<Rightarrow> xstate \<Rightarrow> (u8 option \<times> xflags) option \<Rightarrow> xres option" where
  "x_alu_to ip v s r =
     (case r of None \<Rightarrow> None
      | Some (None, f) \<Rightarrow> Some (XNext (s\<lparr>x_flags := Some f\<rparr>))
      | Some (Some x, f) \<Rightarrow> Some (XNext ((x_put True ip v x s)\<lparr>x_flags := Some f\<rparr>)))"

definition x_shift_to :: "u8 \<Rightarrow> rm \<Rightarrow> xstate \<Rightarrow> nat \<Rightarrow> nat \<Rightarrow> xres option" where
  "x_shift_to ip v s op n =
     map_option (\<lambda>x. XNext ((x_put True ip v x s)
                   \<lparr>x_flags := (if n mod 64 = 0 then x_flags s else None)\<rparr>))
       (x_shift op (x_get True ip v s) n)"

text \<open>
  One instruction at the address whose successor is \<open>ip\<close>.  \<^const>\<open>None\<close> is a trap, an
  instruction without a meaning here, a call, or a jump on undefined flags.
\<close>

fun xexec :: "u8 \<Rightarrow> xins \<Rightarrow> xstate \<Rightarrow> xres option" where
  "xexec ip (XLoad w g v) s = Some (XNext (x_set g (x_get w ip v s) s))"
| "xexec ip (XStore w v g) s = Some (XNext (x_put w ip v (x_reg s g) s))"
| "xexec ip (XStoreI w v i) s = Some (XNext (x_put w ip v i s))"
| "xexec ip (XMovI g i) s = Some (XNext (x_set g i s))"
| "xexec ip (XLea w g v) s = Some (XNext (x_set g (x_trunc w (x_addr ip v s)) s))"
| "xexec ip (XAlu op w g v) s =
     (if w then x_alu_to ip (Rm_reg g) s (x_alu op (x_reg s g) (x_get w ip v s)) else None)"
| "xexec ip (XAluI op w v i) s =
     (if w then x_alu_to ip v s (x_alu op (x_get w ip v s) i) else None)"
| "xexec ip (XImul w g v) s =
     (if w then Some (XNext ((x_set g (x_reg s g * x_get w ip v s) s)\<lparr>x_flags := None\<rparr>)) else None)"
| "xexec ip (XImulI w g v i) s =
     (if w then Some (XNext ((x_set g (x_get w ip v s * i) s)\<lparr>x_flags := None\<rparr>)) else None)"
| "xexec ip (XShiftI op w v n) s = (if w then x_shift_to ip v s op n else None)"
| "xexec ip (XShiftCl op w v) s =
     (if w then x_shift_to ip v s op (unat (x_reg s 1) mod 256) else None)"
| "xexec ip (XGroup3 op w v) s =
     (if \<not> w then None
      else if op = 2 then Some (XNext (x_put w ip v (NOT (x_get w ip v s)) s))
      else if op = 3 then Some (XNext ((x_put w ip v (- x_get w ip v s) s)\<lparr>x_flags := None\<rparr>))
      else if op = 7 then
        (case x_idiv (x_reg s 2) (x_reg s 0) (x_get w ip v s) of None \<Rightarrow> None
         | Some (q, m) \<Rightarrow> Some (XNext ((x_set 2 m (x_set 0 q s))\<lparr>x_flags := None\<rparr>)))
      else None)"
| "xexec ip (XCqo w) s =
     (if w then Some (XNext (x_set 2 (if bit (x_reg s 0) 63 then - 1 else 0) s)) else None)"
| "xexec ip (XMovzxB w g v) s =
     (case v of Rm_reg r \<Rightarrow> Some (XNext (x_set g (take_bit 8 (x_reg s r)) s))
      | _ \<Rightarrow> Some (XNext (x_set g (ucast (x_mem s (x_addr ip v s))) s)))"
| "xexec ip (XInc w v) s =
     (if w then Some (XNext ((x_put w ip v (x_get w ip v s + 1) s)\<lparr>x_flags := None\<rparr>)) else None)"
| "xexec ip (XJcc cc d) s =
     (case x_flags s of None \<Rightarrow> None
      | Some f \<Rightarrow> (case x_cond cc f of None \<Rightarrow> None
        | Some c \<Rightarrow> Some (if c then XLeave (ip + d) s else XNext s)))"
| "xexec ip (XJmp d) s = Some (XLeave (ip + d) s)"
| "xexec ip (XCall d) s = None"
| "xexec ip (XPush g) s =
     (let a = x_reg s x_rsp - 8
      in Some (XNext (x_set x_rsp a (s\<lparr>x_mem := wr64 (x_mem s) a (x_reg s g)\<rparr>))))"
| "xexec ip (XPop g) s =
     (let a = x_reg s x_rsp
      in Some (XNext (x_set g (rd64 (x_mem s) a) (x_set x_rsp (a + 8) s))))"
| "xexec ip (XPushI i) s =
     (let a = x_reg s x_rsp - 8
      in Some (XNext (x_set x_rsp a (s\<lparr>x_mem := wr64 (x_mem s) a i\<rparr>))))"
| "xexec ip XRet s =
     (let a = x_reg s x_rsp in Some (XLeave (rd64 (x_mem s) a) (x_set x_rsp (a + 8) s)))"

text \<open>
  Straight-line execution of code that ends at address \<open>e\<close>: it falls off the end or leaves for
  an address.  The address after the current instruction is \<open>e\<close> less the bytes that follow.
\<close>

datatype xout = Fell xstate | Left_for u8 xstate

function xrun :: "u8 \<Rightarrow> u1 list \<Rightarrow> xstate \<Rightarrow> xout option" where
  "xrun e c s =
     (if c = [] then Some (Fell s)
      else case decode c of None \<Rightarrow> None
        | Some (i, k) \<Rightarrow>
          (case xexec (e - of_nat (length k)) i s of None \<Rightarrow> None
           | Some (XNext s') \<Rightarrow> xrun e k s'
           | Some (XLeave a s') \<Rightarrow> Some (Left_for a s')))"
  by pat_completeness auto
termination
  by (relation "measure (\<lambda>(e, c, s). length c)") (auto dest: decode_length)

declare xrun.simps [simp del]

lemma xrun_Nil [simp]: "xrun e [] s = Some (Fell s)"
  by (simp add: xrun.simps)

lemma xrun_step:
  assumes "decode c = Some (i, k)"
  shows "xrun e c s =
    (case xexec (e - of_nat (length k)) i s of None \<Rightarrow> None
     | Some (XNext s') \<Rightarrow> xrun e k s'
     | Some (XLeave a s') \<Rightarrow> Some (Left_for a s'))"
  using assms by (subst xrun.simps) (auto simp: decode_def)

lemma xrun_next:
  assumes "decode c = Some (i, k)" and "\<And>ip. xexec ip i s = Some (XNext s')"
  shows "xrun e c s = xrun e k s'"
  by (simp add: xrun_step [OF assms(1)] assms(2))


section \<open>Words in memory\<close>

definition le_bytes :: "nat \<Rightarrow> 'a::len word \<Rightarrow> u1 list" where
  "le_bytes n w = map (\<lambda>i. ucast (drop_bit (8 * i) w)) [0..<n]"

lemma length_le_bytes [simp]: "length (le_bytes n w) = n"
  by (simp add: le_bytes_def)

lemma bit_of_le:
  "bit (of_le bs :: 'a::len word) i \<longleftrightarrow> i < LENGTH('a) \<and> i div 8 < length bs \<and> bit (bs ! (i div 8)) (i mod 8)"
proof (induction bs arbitrary: i)
  case (Cons b bs)
  show ?case
  proof (cases "i < 8")
    case True
    then show ?thesis by (auto simp: bit_simps)
  next
    case False
    then obtain j where i: "i = j + 8" by (metis le_iff_add not_le add.commute)
    have "\<not> bit b (j + 8)" using bit_imp_le_length [of b "j + 8"] by auto
    moreover have "(j + 8) div 8 = Suc (j div 8)" by simp
    ultimately show ?thesis by (auto simp: i bit_simps Cons.IH)
  qed
qed simp

lemma of_le_bytes: "8 * n \<ge> LENGTH('a) \<Longrightarrow> of_le (le_bytes n w) = (w :: 'a::len word)"
  by (rule bit_word_eqI) (auto simp: bit_of_le le_bytes_def bit_simps)

lemma le_bytes_4: "le_bytes 4 w =
    [ucast w, ucast (drop_bit 8 w), ucast (drop_bit 16 w), ucast (drop_bit 24 w)]"
  by (simp add: le_bytes_def upt_rec)

lemma le_bytes_8: "le_bytes 8 w =
    [ucast w, ucast (drop_bit 8 w), ucast (drop_bit 16 w), ucast (drop_bit 24 w),
     ucast (drop_bit 32 w), ucast (drop_bit 40 w), ucast (drop_bit 48 w), ucast (drop_bit 56 w)]"
  by (simp add: le_bytes_def upt_rec)

lemma take_le32_bytes [simp]: "take_le32 (le_bytes 4 w @ k) = Some (w, k)"
proof -
  have "of_le (le_bytes 4 w) = w" by (rule of_le_bytes) simp
  then show ?thesis by (simp add: take_le32_def le_bytes_4)
qed

lemma take_imm32_bytes [simp]: "take_imm32 (le_bytes 4 w @ k) = Some (scast w, k)" for w :: u4
  by (simp add: take_imm32_def)

lemma take_le64_bytes [simp]: "take_le64 (le_bytes 8 w @ k) = Some (w, k)"
proof -
  have "of_le (le_bytes 8 w) = w" by (rule of_le_bytes) simp
  then show ?thesis by (simp add: take_le64_def le_bytes_8)
qed

lemma take_imm8_byte [simp]: "take_imm8 (b # k) = Some (scast b, k)"
  by (simp add: take_imm8_def)

lemma take_byte_Cons [simp]: "take_byte (b # k) = Some (b, k)"
  by (simp add: take_byte_def)

lemma rd_wr_same [simp]: "rd64 (wr64 m a v) a = v"
proof -
  have "map (\<lambda>i. wr64 m a v (a + of_nat i)) [0..<8] = le_bytes 8 v"
    by (rule nth_equalityI) (auto simp: wr_le_def le_bytes_def unat_of_nat Let_def)
  then show ?thesis by (simp add: rd_le_def of_le_bytes)
qed

lemma rd_wr_other:
  assumes "8 \<le> unat (b - a)" and "8 \<le> unat (a - b)"
  shows "rd64 (wr64 m a v) b = rd64 m b"
proof -
  have "unat (b - a) + unat (a - b) = 2 ^ 64"
    using unat_plus_if' [of "b - a" "a - b"] assms by (simp split: if_splits)
  then have n: "unat (b - a) \<le> 2 ^ 64 - 8" using assms by linarith
  have "\<not> unat (b + of_nat i - a) < 8" if "i < 8" for i
  proof -
    have "b + of_nat i - a = (b - a) + of_nat i" by (simp add: algebra_simps)
    moreover have "unat ((b - a) + of_nat i) = unat (b - a) + i"
      using that n by (subst unat_plus_if') (auto simp: unat_of_nat)
    ultimately have "unat (b + of_nat i - a) = unat (b - a) + i" by (simp only:)
    then show ?thesis using assms by linarith
  qed
  then show ?thesis by (auto simp: rd_le_def wr_le_def Let_def intro: arg_cong [where f = of_le])
qed

end
