(* ===== verification/Encoding.thy ===== *)
theory Encoding
  imports X86
begin

text \<open>
  Emission of machine code: the register numbers, opcode constants and emit functions of
  \<^verbatim>\<open>src/vm/assembler.hh\<close> and \<^verbatim>\<open>src/vm/assembler.cc\<close>.  Code is generated backwards: the list of
  bytes from \<^verbatim>\<open>mcp\<close> upwards is an argument, and an emit function returns it with its bytes in
  front.  A \<^verbatim>\<open>Reg\<close> carries flags above the register number (\<open>REX_64\<close>), so it is a 32 bit word
  here.

  The lemmas show that theory \<open>X86\<close> decodes what is emitted into the intended instruction.
\<close>

section \<open>Registers\<close>

definition RID_EAX :: nat where "RID_EAX = 0"
definition RID_ECX :: nat where "RID_ECX = 1"
definition RID_EDX :: nat where "RID_EDX = 2"
definition RID_EBX :: nat where "RID_EBX = 3"
definition RID_ESP :: nat where "RID_ESP = 4"
definition RID_EBP :: nat where "RID_EBP = 5"
definition RID_ESI :: nat where "RID_ESI = 6"
definition RID_EDI :: nat where "RID_EDI = 7"
definition RID_R12D :: nat where "RID_R12D = 12"
definition RID_MIN_FPR :: nat where "RID_MIN_FPR = 16"
definition RID_MAX :: nat where "RID_MAX = 32"
definition RID_MRM :: nat where "RID_MRM = RID_MAX"
definition RID_BASE :: nat where "RID_BASE = RID_EBP"
definition RID_HP :: nat where "RID_HP = RID_R12D"
definition RID_MIN_GPR :: nat where "RID_MIN_GPR = RID_EAX"
definition RID_MAX_GPR :: nat where "RID_MAX_GPR = RID_MIN_FPR"

definition RID_NONE :: nat where "RID_NONE = 0x80"
definition RID_MASK :: nat where "RID_MASK = 0x7f"
definition RID_INIT :: nat where "RID_INIT = 0xff"

lemmas rid_defs = RID_EAX_def RID_ECX_def RID_EDX_def RID_EBX_def RID_ESP_def RID_EBP_def
  RID_ESI_def RID_EDI_def RID_R12D_def RID_MIN_FPR_def RID_MAX_def RID_MRM_def RID_BASE_def
  RID_HP_def RID_MIN_GPR_def RID_MAX_GPR_def RID_NONE_def RID_MASK_def RID_INIT_def

definition isNoReg :: "nat \<Rightarrow> bool" where "isNoReg r \<longleftrightarrow> r AND RID_NONE \<noteq> 0"
definition isReg :: "nat \<Rightarrow> bool" where "isReg r \<longleftrightarrow> r AND RID_NONE = 0"

section \<open>Opcodes\<close>

text \<open>A variable-length opcode: the bytes end at the top, and the low byte is \<open>-(len + 1)\<close>.\<close>

definition XO_op :: "u4 \<Rightarrow> u4" where "XO_op opc = 0x0000fe + push_bit 24 opc"
definition XO_0f :: "u4 \<Rightarrow> u4" where "XO_0f opc = 0x0f00fd + push_bit 24 opc"
definition XO_f20f :: "u4 \<Rightarrow> u4" where "XO_f20f opc = 0x0ff2fc + push_bit 24 opc"

definition XO_MOV :: u4 where "XO_MOV = XO_op 0x8b"
definition XO_MOVto :: u4 where "XO_MOVto = XO_op 0x89"
definition XO_MOVmi :: u4 where "XO_MOVmi = XO_op 0xc7"
definition XO_LEA :: u4 where "XO_LEA = XO_op 0x8d"
definition XO_SHIFTi :: u4 where "XO_SHIFTi = XO_op 0xc1"
definition XO_SHIFT1 :: u4 where "XO_SHIFT1 = XO_op 0xd1"
definition XO_SHIFTcl :: u4 where "XO_SHIFTcl = XO_op 0xd3"
definition XO_IMUL :: u4 where "XO_IMUL = XO_0f 0xaf"
definition XO_IMULi :: u4 where "XO_IMULi = XO_op 0x69"
definition XO_IMULi8 :: u4 where "XO_IMULi8 = XO_op 0x6b"
definition XO_CMP :: u4 where "XO_CMP = XO_op 0x3b"
definition XO_GROUP3 :: u4 where "XO_GROUP3 = XO_op 0xf7"
definition XO_MOVZXb :: u4 where "XO_MOVZXb = XO_0f 0xb6"
definition XO_MOVSD :: u4 where "XO_MOVSD = XO_f20f 0x10"
definition XO_MOVSDto :: u4 where "XO_MOVSDto = XO_f20f 0x11"
definition XO_MOVAPS :: u4 where "XO_MOVAPS = XO_0f 0x28"

definition XI_CALL :: u1 where "XI_CALL = 0xe8"
definition XI_CDQ :: u1 where "XI_CDQ = 0x99"
definition XI_JMP :: u1 where "XI_JMP = 0xe9"
definition XI_JMPs :: u1 where "XI_JMPs = 0xeb"
definition XI_PUSH :: u1 where "XI_PUSH = 0x50"
definition XI_POP :: u1 where "XI_POP = 0x58"
definition XI_JCCn :: u1 where "XI_JCCn = 0x80"
definition XI_MOVri :: u1 where "XI_MOVri = 0xb8"
definition XI_ARITHi :: u4 where "XI_ARITHi = 0x81"
definition XI_ARITHi8 :: u4 where "XI_ARITHi8 = 0x83"
definition XI_PUSHi8 :: u1 where "XI_PUSHi8 = 0x6a"
definition XI_RET :: u1 where "XI_RET = 0xc3"
definition XI_MOVmi :: u1 where "XI_MOVmi = 0xc7"

definition XM_OFS0 :: u4 where "XM_OFS0 = 0x00"
definition XM_OFS8 :: u4 where "XM_OFS8 = 0x40"
definition XM_OFS32 :: u4 where "XM_OFS32 = 0x80"
definition XM_REG :: u4 where "XM_REG = 0xc0"
definition XM_SCALE1 :: u4 where "XM_SCALE1 = 0x00"

definition XG_mk :: "u4 \<Rightarrow> u4 \<Rightarrow> u4 \<Rightarrow> u4" where "XG_mk i8 i g = push_bit 16 i8 + push_bit 8 i + g"
definition XG_TOXOi :: "u4 \<Rightarrow> u4" where
  "XG_TOXOi xg = 0x000000fe + (push_bit 16 xg AND 0xff000000)"
definition XG_TOXOi8 :: "u4 \<Rightarrow> u4" where
  "XG_TOXOi8 xg = 0x000000fe + (push_bit 8 xg AND 0xff000000)"
definition XG_ARITHi :: "u4 \<Rightarrow> u4" where "XG_ARITHi g = XG_mk XI_ARITHi8 XI_ARITHi g"
definition XO_ARITH :: "u4 \<Rightarrow> u4" where "XO_ARITH a = 0x030000fe + push_bit 27 a"

text \<open>\<^verbatim>\<open>x86Arith\<close>, \<^verbatim>\<open>x86Group3\<close>, \<^verbatim>\<open>x86Shift\<close> and \<^verbatim>\<open>x86CC\<close>, as far as they are used.\<close>

definition XOg_ADD :: u4 where "XOg_ADD = 0"
definition XOg_OR :: u4 where "XOg_OR = 1"
definition XOg_AND :: u4 where "XOg_AND = 4"
definition XOg_SUB :: u4 where "XOg_SUB = 5"
definition XOg_XOR :: u4 where "XOg_XOR = 6"
definition XOg_CMP :: u4 where "XOg_CMP = 7"
definition XOg_X_IMUL :: u4 where "XOg_X_IMUL = 8"

definition XOg_NOT :: u4 where "XOg_NOT = 2"
definition XOg_NEG :: u4 where "XOg_NEG = 3"
definition XOg_DIV :: u4 where "XOg_DIV = 6"
definition XOg_IDIV :: u4 where "XOg_IDIV = 7"

definition XOg_SHL :: u4 where "XOg_SHL = 4"
definition XOg_SHR :: u4 where "XOg_SHR = 5"
definition XOg_SAR :: u4 where "XOg_SAR = 7"

definition CC_B :: nat where "CC_B = 2"
definition CC_AE :: nat where "CC_AE = 3"
definition CC_E :: nat where "CC_E = 4"
definition CC_NE :: nat where "CC_NE = 5"
definition CC_BE :: nat where "CC_BE = 6"
definition CC_A :: nat where "CC_A = 7"
definition CC_L :: nat where "CC_L = 12"
definition CC_GE :: nat where "CC_GE = 13"
definition CC_LE :: nat where "CC_LE = 14"
definition CC_G :: nat where "CC_G = 15"

definition FORCE_REX :: u4 where "FORCE_REX = 0x200"
definition REX_64 :: u4 where "REX_64 = FORCE_REX OR 0x080000"

lemmas xo_defs = XO_op_def XO_0f_def XO_f20f_def XO_MOV_def XO_MOVto_def XO_MOVmi_def XO_LEA_def
  XO_SHIFTi_def XO_SHIFT1_def XO_SHIFTcl_def XO_IMUL_def XO_IMULi_def XO_IMULi8_def XO_CMP_def
  XO_GROUP3_def XO_MOVZXb_def XO_MOVSD_def XO_MOVSDto_def XO_MOVAPS_def XG_mk_def XG_TOXOi_def
  XG_TOXOi8_def XG_ARITHi_def XO_ARITH_def XI_ARITHi_def XI_ARITHi8_def

lemmas xog_defs = XOg_ADD_def XOg_OR_def XOg_AND_def XOg_SUB_def XOg_XOR_def XOg_CMP_def
  XOg_X_IMUL_def XOg_NOT_def XOg_NEG_def XOg_DIV_def XOg_IDIV_def XOg_SHL_def XOg_SHR_def
  XOg_SAR_def

lemmas xi_defs = XI_CALL_def XI_CDQ_def XI_JMP_def XI_JMPs_def XI_PUSH_def XI_POP_def XI_JCCn_def
  XI_MOVri_def XI_PUSHi8_def XI_RET_def XI_MOVmi_def

lemmas xm_defs = XM_OFS0_def XM_OFS8_def XM_OFS32_def XM_REG_def XM_SCALE1_def

lemmas cc_defs = CC_B_def CC_AE_def CC_E_def CC_NE_def CC_BE_def CC_A_def CC_L_def CC_GE_def
  CC_LE_def CC_G_def

section \<open>Emit functions\<close>

definition MODRM :: "u4 \<Rightarrow> u4 \<Rightarrow> u4 \<Rightarrow> u1" where
  "MODRM md r1 r2 = ucast (md + push_bit 3 (r1 AND 7) + (r2 AND 7))"

definition emit_i8 :: "u1 \<Rightarrow> u1 list \<Rightarrow> u1 list" where
  "emit_i8 i c = i # c"

definition emit_i32 :: "u4 \<Rightarrow> u1 list \<Rightarrow> u1 list" where
  "emit_i32 i c = le_bytes 4 i @ c"

definition emit_rex :: "u1 list \<Rightarrow> u4 \<Rightarrow> u4 \<Rightarrow> u1 list" where
  "emit_rex p rr rb =
     (let rex = ucast (0x40 + (drop_bit 1 rr AND 4) + (drop_bit 3 rb AND 1)) :: u1
      in if rex \<noteq> 0x40 then rex # p else p)"

text \<open>
  The bytes that follow the opcode are already in front of \<open>p\<close> here; \<^verbatim>\<open>delta\<close> is their number
  in the code, which writes them first.
\<close>

definition emit_op :: "u4 \<Rightarrow> u4 \<Rightarrow> u4 \<Rightarrow> u4 \<Rightarrow> u1 list \<Rightarrow> u1 list" where
  "emit_op xo rr rb rx p =
     (let n = sint (ucast xo :: u1);
          opc = drop (nat (n + 5)) (le_bytes 4 xo);
          rex = 0x40 + (drop_bit 1 rr AND (4 + drop_bit 1 FORCE_REX))
                  + (drop_bit 2 rx AND 2) + (drop_bit 3 rb AND 1)
      in if rex \<noteq> 0x40
         then let rex = rex OR drop_bit 16 rr
              in if n = -4 then ucast (drop_bit 8 xo) # ucast rex # tl opc @ p
                 else if xo AND 0xffffff = 0x6600fd then 0x66 # ucast rex # tl opc @ p
                 else ucast rex # opc @ p
         else opc @ p)"

definition emit_opm :: "u4 \<Rightarrow> u4 \<Rightarrow> u4 \<Rightarrow> u4 \<Rightarrow> u1 list \<Rightarrow> u1 list" where
  "emit_opm xo md rr rb p = emit_op xo rr rb 0 (MODRM md rr rb # p)"

definition emit_opmx :: "u4 \<Rightarrow> u4 \<Rightarrow> u4 \<Rightarrow> u4 \<Rightarrow> u4 \<Rightarrow> u4 \<Rightarrow> u1 list \<Rightarrow> u1 list" where
  "emit_opmx xo md scale rr rb rx p =
     emit_op xo rr rb rx (MODRM md rr (of_nat RID_ESP) # MODRM scale rx rb # p)"

definition emit_rr :: "u4 \<Rightarrow> u4 \<Rightarrow> u4 \<Rightarrow> u1 list \<Rightarrow> u1 list" where
  "emit_rr xo r1 r2 c = emit_opm xo XM_REG r1 r2 c"

text \<open>
  The displacement in its shortest form with the mode that announces it, and the \<open>SIB\<close> byte a
  base like \<open>rsp\<close> needs; the three functions below share them.
\<close>

definition emit_disp :: "u4 \<Rightarrow> u4 \<Rightarrow> u1 list \<Rightarrow> u4 \<times> u1 list" where
  "emit_disp rb ofs c =
     (if ofs = 0 \<and> rb AND 7 \<noteq> of_nat RID_EBP then (XM_OFS0, c)
      else if checki8 (sint ofs) then (XM_OFS8, ucast ofs # c)
      else (XM_OFS32, le_bytes 4 ofs @ c))"

definition emit_sib :: "u4 \<Rightarrow> u1 list \<Rightarrow> u1 list" where
  "emit_sib rb p =
     (if rb AND 7 = of_nat RID_ESP
      then MODRM XM_SCALE1 (of_nat RID_ESP) (of_nat RID_ESP) # p else p)"

definition emit_rmro :: "u4 \<Rightarrow> u4 \<Rightarrow> u4 \<Rightarrow> u4 \<Rightarrow> u1 list \<Rightarrow> u1 list" where
  "emit_rmro xo rr rb offset c =
     (if isReg (unat rb)
      then let (md, p) = emit_disp rb offset c in emit_opm xo md rr rb (emit_sib rb p)
      else emit_opm xo XM_OFS0 rr (of_nat RID_ESP)
             (MODRM XM_SCALE1 (of_nat RID_ESP) (of_nat RID_EBP) # le_bytes 4 offset @ c))"

definition emit_rmrxo :: "u4 \<Rightarrow> u4 \<Rightarrow> u4 \<Rightarrow> u4 \<Rightarrow> u4 \<Rightarrow> u4 \<Rightarrow> u1 list \<Rightarrow> u1 list" where
  "emit_rmrxo xo rr rb rx scale ofs c =
     (let (md, p) = emit_disp rb ofs c in emit_opmx xo md scale rr rb rx p)"

text \<open>\<^verbatim>\<open>x86ModRM\<close>.\<close>

record modrm =
  mrm_ofs :: u4
  mrm_base :: nat
  mrm_idx :: nat
  mrm_scale :: u4

definition emit_mrm :: "modrm \<Rightarrow> u4 \<Rightarrow> u4 \<Rightarrow> u4 \<Rightarrow> u1 list \<Rightarrow> u1 list" where
  "emit_mrm mrm xo rr rb c =
     (if rb \<noteq> of_nat RID_MRM then emit_opm xo XM_REG rr rb c
      else if mrm_base mrm = RID_NONE then
        let p = le_bytes 4 (mrm_ofs mrm) @ c
        in if mrm_idx mrm \<noteq> RID_NONE
           then emit_opmx xo XM_OFS0 (mrm_scale mrm) rr (of_nat RID_EBP) (of_nat (mrm_idx mrm)) p
           else emit_opm xo XM_OFS0 rr (of_nat RID_ESP)
                  (MODRM XM_SCALE1 (of_nat RID_ESP) (of_nat RID_EBP) # p)
      else
        let rb = of_nat (mrm_base mrm); (md, p) = emit_disp rb (mrm_ofs mrm) c
        in if mrm_idx mrm \<noteq> RID_NONE
           then emit_opmx xo md (mrm_scale mrm) rr rb (of_nat (mrm_idx mrm)) p
           else emit_opm xo md rr rb (emit_sib rb p))"

definition emit_gri :: "u4 \<Rightarrow> u4 \<Rightarrow> u4 \<Rightarrow> u1 list \<Rightarrow> u1 list" where
  "emit_gri xg rb i c =
     (let (xo, p) = (if checki8 (sint i) then (XG_TOXOi8 xg, ucast i # c)
                     else (XG_TOXOi xg, le_bytes 4 i @ c))
      in emit_opm xo XM_REG ((xg AND 7) OR (rb AND REX_64)) rb p)"

definition emit_gmrmi :: "modrm \<Rightarrow> u4 \<Rightarrow> u4 \<Rightarrow> u4 \<Rightarrow> u1 list \<Rightarrow> u1 list" where
  "emit_gmrmi mrm xg rb i c =
     (let (xo, c) = (if checki8 (sint i) then (XG_TOXOi8 xg, emit_i8 (ucast i) c)
                     else (XG_TOXOi xg, emit_i32 i c))
      in emit_mrm mrm xo ((xg AND 7) OR (rb AND REX_64)) (rb AND NOT REX_64) c)"

definition emit_shifti :: "u4 \<Rightarrow> u4 \<Rightarrow> u1 \<Rightarrow> u1 list \<Rightarrow> u1 list" where
  "emit_shifti xg r i c = emit_rr XO_SHIFTi xg r (emit_i8 i c)"

definition move :: "nat \<Rightarrow> nat \<Rightarrow> u1 list \<Rightarrow> u1 list" where
  "move dst src c =
     (if dst < RID_MAX_GPR then emit_rr XO_MOV (REX_64 OR of_nat dst) (REX_64 OR of_nat src) c
      else emit_rr XO_MOVAPS (of_nat dst) (of_nat src) c)"

definition loadi_u32 :: "u4 \<Rightarrow> u4 \<Rightarrow> u1 list \<Rightarrow> u1 list" where
  "loadi_u32 dst i c = emit_rex ((XI_MOVri + ucast (dst AND 7)) # le_bytes 4 i @ c) 0 dst"

definition loadi_i32 :: "u4 \<Rightarrow> u4 \<Rightarrow> u1 list \<Rightarrow> u1 list" where
  "loadi_i32 dst i c =
     (if sint i \<ge> 0 then loadi_u32 dst i c
      else emit_opm XO_MOVmi XM_REG REX_64 dst (le_bytes 4 i @ c))"

definition loadi_u64 :: "u4 \<Rightarrow> u8 \<Rightarrow> u1 list \<Rightarrow> u1 list" where
  "loadi_u64 dst i c =
     (if checku32 i then loadi_u32 dst (ucast i) c
      else if checki32 i then loadi_i32 dst (ucast i) c
      else (0x48 + ucast (drop_bit 3 dst AND 1)) # (XI_MOVri + ucast (dst AND 7))
             # le_bytes 8 i @ c)"

definition asm_ret :: "u1 list \<Rightarrow> u1 list" where
  "asm_ret c = XI_RET # c"

definition load_u64 :: "nat \<Rightarrow> nat \<Rightarrow> u4 \<Rightarrow> u1 list \<Rightarrow> u1 list" where
  "load_u64 dst base offset c =
     (if dst < RID_MAX_GPR then emit_rmro XO_MOV (REX_64 OR of_nat dst) (of_nat base) offset c
      else emit_rmro XO_MOVSD (of_nat dst) (of_nat base) offset c)"

definition store_u64 :: "nat \<Rightarrow> u4 \<Rightarrow> nat \<Rightarrow> u1 list \<Rightarrow> u1 list" where
  "store_u64 base offset src c =
     (if src < RID_MAX_GPR then emit_rmro XO_MOVto (REX_64 OR of_nat src) (of_nat base) offset c
      else emit_rmro XO_MOVSDto (of_nat src) (of_nat base) offset c)"

definition storei_u64 :: "nat \<Rightarrow> u4 \<Rightarrow> u4 \<Rightarrow> u1 list \<Rightarrow> u1 list" where
  "storei_u64 base offset i c =
     emit_rmro XO_MOVmi REX_64 (of_nat base) offset (emit_i32 i c)"

text \<open>The displacement of a jump from \<open>p\<close>, the address after the instruction.\<close>

definition jmprel :: "u8 \<Rightarrow> u8 \<Rightarrow> u4 result" where
  "jmprel p target =
     (let delta = target - p
      in if checki32 delta then Inr (ucast delta) else Inl AssertFailed)"

section \<open>Decoding what is emitted\<close>

text \<open>The register number in a \<^verbatim>\<open>Reg\<close>.\<close>

definition regno :: "u4 \<Rightarrow> nat" where "regno w = unat w mod 16"

lemma regno_less: "regno w < 16"
  by (simp add: regno_def)

lemma regno_of_nat [simp]: "r < 16 \<Longrightarrow> regno (of_nat r) = r"
  by (simp add: regno_def unat_of_nat)

lemma regno_alt: "regno w = unat (w AND mask 4)"
  by (simp only: regno_def unat_and_mask) simp

lemma REX_64_mask: "REX_64 AND mask 4 = 0"
  by (simp add: REX_64_def FORCE_REX_def mask_eq_exp_minus_1)

lemma regno_rex [simp]: "regno (REX_64 OR w) = regno w" "regno (w OR REX_64) = regno w"
  by (simp_all add: regno_alt bit.conj_disj_distrib2 REX_64_mask del: mask_numeral)

lemma unat_and_7: "unat (w AND 7) = regno w mod 8" for w :: u4
proof -
  have "w AND 7 = w AND mask 3" by (simp add: mask_eq_exp_minus_1)
  then have "unat (w AND 7) = unat w mod 2 ^ 3" by (simp only: unat_and_mask)
  then show ?thesis by (simp add: regno_def mod_mod_cancel)
qed

lemma bit_3_regno: "of_bool (bit w 3) = regno w div 8" for w :: u4
proof -
  have "bit w 3 = bit (unat w) 3" by (simp add: bit_unsigned_iff)
  also have "\<dots> = odd (unat w div 2 ^ 3)" by (simp only: bit_iff_odd)
  also have "\<dots> = (unat w mod 16 \<ge> 8)" by simp presburger
  finally show ?thesis
    using regno_less [of w] by (auto simp: regno_def)
qed

lemma unat_MODRM:
  assumes "md < 4"
  shows "unat (MODRM (of_nat (64 * md)) a b) = 64 * md + 8 * (regno a mod 8) + regno b mod 8"
proof -
  define x y where "x = regno a mod 8" and "y = regno b mod 8"
  have xy: "x < 8" "y < 8" unfolding x_def y_def by simp_all
  have ab: "a AND 7 = of_nat x" "b AND 7 = of_nat y"
    unfolding x_def y_def by (simp_all flip: unat_and_7)
  have s: "of_nat n + push_bit 3 (a AND 7) + (b AND 7) = of_nat (n + 8 * x + y)" for n :: nat
    by (simp add: ab push_bit_eq_mult)
  have "unat (MODRM (of_nat (64 * md)) a b) = (64 * md + 8 * x + y) mod 2 ^ 8"
    using assms xy
    by (simp only: MODRM_def s unsigned_ucast_eq unat_of_nat)
      (simp add: take_bit_eq_mod mod_mod_cancel del: of_nat_add of_nat_mult)
  then show ?thesis using assms xy by (simp add: x_def y_def)
qed

lemma MODRM_fields:
  assumes "md < 4"
  shows "unat (drop_bit 6 (MODRM (of_nat (64 * md)) a b)) = md"
    and "unat (drop_bit 3 (MODRM (of_nat (64 * md)) a b) AND 7) = regno a mod 8"
    and "unat (MODRM (of_nat (64 * md)) a b AND 7) = regno b mod 8"
proof -
  define m where "m = MODRM (of_nat (64 * md)) a b"
  have m: "unat m = 64 * md + 8 * (regno a mod 8) + regno b mod 8"
    unfolding m_def by (rule unat_MODRM [OF assms])
  have and7: "w AND 7 = w AND mask 3" for w :: u1 by (simp add: mask_eq_exp_minus_1)
  have db: "unat (drop_bit n m) = unat m div 2 ^ n" for n
    by (simp only: unat_drop_bit_eq drop_bit_eq_div [where 'a = nat])
  show "unat (drop_bit 6 m) = md"
    by (simp add: db m)
  have mid: "(64 * md + 8 * x + y) div 2 ^ 3 mod 2 ^ 3 = x" if "x < 8" "y < 8" for x y :: nat
  proof -
    have "64 * md + 8 * x + y = y + (8 * md + x) * 8" by simp
    then have "(64 * md + 8 * x + y) div 8 = 8 * md + x" using that(2) by simp
    then show ?thesis using that(1) by simp
  qed
  show "unat (drop_bit 3 m AND 7) = regno a mod 8"
    by (simp only: and7 unat_and_mask db m) (rule mid; simp)
  have low: "(64 * md + 8 * x + y) mod 2 ^ 3 = y" if "y < 8" for x y :: nat
  proof -
    have "64 * md + 8 * x + y = y + (8 * md + x) * 8" by simp
    moreover have "(y + (8 * md + x) * 8) mod 8 = y mod 8" by (rule mod_mult_self1)
    ultimately have "(64 * md + 8 * x + y) mod 8 = y mod 8" by (simp only:)
    then show ?thesis using that by simp
  qed
  show "unat (m AND 7) = regno b mod 8"
    by (simp only: and7 unat_and_mask m) (rule low; simp)
qed

lemma mode_numbers:
  "XM_OFS0 = of_nat (64 * 0)" "XM_OFS8 = of_nat (64 * 1)" "XM_OFS32 = of_nat (64 * 2)"
  "XM_REG = of_nat (64 * 3)" "XM_SCALE1 = of_nat (64 * 0)"
  by (simp_all add: xm_defs)

lemmas MODRM_OFS0 = MODRM_fields [of 0, folded mode_numbers(1), simplified]
lemmas MODRM_OFS8 = MODRM_fields [of 1, folded mode_numbers(2), simplified]
lemmas MODRM_OFS32 = MODRM_fields [of 2, folded mode_numbers(3), simplified]
lemmas MODRM_REG = MODRM_fields [of 3, folded mode_numbers(4), simplified]
lemmas MODRM_SCALE1 = MODRM_fields [of 0, folded mode_numbers(5), simplified]

lemma regno_parts: "regno w mod 8 + 8 * (regno w div 8) = regno w"
  by simp

text \<open>The prefix: the register operand with or without \<open>REX_64\<close>.\<close>

definition reg_operand :: "bool \<Rightarrow> u4 \<Rightarrow> bool" where
  "reg_operand w rr \<longleftrightarrow> (\<exists>r < 16. rr = of_nat r OR (if w then REX_64 else 0))"

lemma reg_operandI [intro]:
  "r < 16 \<Longrightarrow> reg_operand True (REX_64 OR of_nat r)"
  "r < 16 \<Longrightarrow> reg_operand True (of_nat r OR REX_64)"
  "r < 16 \<Longrightarrow> reg_operand False (of_nat r)"
  by (auto simp: reg_operand_def or.commute)

text \<open>The opcodes with one or two bytes and no prefix byte of their own.\<close>

definition opcode_bytes :: "u4 \<Rightarrow> u1 list \<Rightarrow> bool" where
  "opcode_bytes xo opc \<longleftrightarrow>
     xo AND 0xffffff \<noteq> 0x6600fd \<and> sint (ucast xo :: u1) \<noteq> -4 \<and>
     drop (nat (sint (ucast xo :: u1) + 5)) (le_bytes 4 xo) = opc \<and>
     (\<forall>b \<in> set (take 1 opc). drop_bit 4 b \<noteq> 4) \<and> opc \<noteq> []"

lemma small_cases: "r < 16 \<Longrightarrow> r \<in> {0, 1, 2, 3, 4, 5, 6, 7, 8, 9, 10, 11, 12, 13, 14, 15::nat}"
  unfolding insert_iff empty_iff by presburger

lemma rex_reg:
  assumes "r < 16" and "rr = of_nat r OR (if w then REX_64 else 0)"
  shows "drop_bit (Suc 0) rr AND (4 + drop_bit (Suc 0) FORCE_REX) = (if 8 \<le> r then 4 else 0) + (if w then 0x100 else 0)"
    and "drop_bit 16 rr = (if w then 8 else 0)"
    and "regno rr = r"
proof -
  note c = small_cases [OF assms(1)]
  show "drop_bit (Suc 0) rr AND (4 + drop_bit (Suc 0) FORCE_REX) = (if 8 \<le> r then 4 else 0) + (if w then 0x100 else 0)"
    using c by (cases w) (auto simp: assms(2) REX_64_def FORCE_REX_def)
  show "drop_bit 16 rr = (if w then 8 else 0)"
    using c by (cases w) (auto simp: assms(2) REX_64_def FORCE_REX_def)
  show "regno rr = r" using assms by (cases w) simp_all
qed

lemma decode_emit_op:
  assumes "opcode_bytes xo opc" and "reg_operand w rr"
  shows "decode (emit_op xo rr rb rx p) =
    decode_rex w (regno rr div 8) (regno rx div 8) (regno rb div 8) (opc @ p)"
proof -
  define x b where "x = bit rx 3" and "b = bit rb 3"
  have "drop_bit 2 rx AND 2 = (if x then 2 else 0)"
    unfolding x_def by (rule bit_word_eqI) (auto simp: bit_simps numeral_3_eq_3)
  moreover have "drop_bit 3 rb AND 1 = (if b then 1 else 0)"
    unfolding b_def by (simp add: bit_iff_odd_drop_bit and_one_eq mod2_eq_if)
  ultimately have xb: "drop_bit 2 rx AND 2 = (if x then 2 else 0)"
      "drop_bit 3 rb AND 1 = (if b then 1 else 0)"
    by blast+
  have n: "regno rx div 8 = of_bool x" "regno rb div 8 = of_bool b"
    by (simp_all add: x_def b_def bit_3_regno)
  from assms(2) obtain r where r: "r < 16" "rr = of_nat r OR (if w then REX_64 else 0)"
    unfolding reg_operand_def by blast
  have h: "regno rr div 8 = of_bool (8 \<le> r)" using small_cases [OF r(1)] by (auto simp: rex_reg(3) [OF r])
  from assms(1) obtain o1 os where os: "opc = o1 # os" "drop_bit 4 o1 \<noteq> 4"
    by (cases opc) (auto simp: opcode_bytes_def)
  show ?thesis
    using assms(1) os
    by (cases w; cases x; cases b; cases "8 \<le> r")
      (simp_all add: rex_reg(1,2) [OF r] h n xb emit_op_def opcode_bytes_def decode_def Let_def)
qed


text \<open>
  A memory or register operand is emitted as a tail that decodes to it; what remains is the
  opcode.
\<close>

definition emits_operand :: "u4 \<Rightarrow> bool \<Rightarrow> u1 list \<Rightarrow> nat \<Rightarrow> rm \<Rightarrow> u1 list \<Rightarrow> u1 list \<Rightarrow> bool" where
  "emits_operand xo w opc g v c code \<longleftrightarrow>
     (\<exists>r x b tl. decode code = decode_rex w r x b (opc @ tl) \<and> take_modrm r x b tl = Some (g, v, c))"

lemma sint_ucast_u1: "sint (ucast (i::u4) :: u1) = signed_take_bit 7 (sint i)"
  by transfer (simp add: signed_take_bit_take_bit)
lemma scast_i8:
  fixes i :: u4
  assumes "checki8 (sint i)"
  shows "scast (ucast i :: u1) = (scast i :: u8)"
proof -
  have "sint (ucast i :: u1) = sint i"
    using assms by (simp only: sint_ucast_u1 checki8_def)
  moreover have "scast (ucast i :: u1) = (of_int (sint (ucast i :: u1)) :: u8)" by (rule scast_eq)
  moreover have "(scast i :: u8) = of_int (sint i)" by (rule scast_eq)
  ultimately show ?thesis by (simp only:)
qed

lemma take_modrm_reg:
  "take_modrm (regno rr div 8) x (regno rb div 8) (MODRM XM_REG rr rb # c) =
     Some (regno rr, Rm_reg (regno rb), c)"
  by (simp add: take_modrm_def MODRM_REG)

lemma emits_rr:
  assumes "opcode_bytes xo opc" and "reg_operand w r1"
  shows "emits_operand xo w opc (regno r1) (Rm_reg (regno r2)) c (emit_rr xo r1 r2 c)"
  unfolding emits_operand_def emit_rr_def emit_opm_def decode_emit_op [OF assms]
  using take_modrm_reg by blast

lemma reg_is: "rb AND 7 = of_nat RID_ESP \<longleftrightarrow> regno rb mod 8 = 4" "rb AND 7 = of_nat RID_EBP \<longleftrightarrow> regno rb mod 8 = 5"
  for rb :: u4
  by (simp_all add: rid_defs word_unat_eq_iff unat_and_7)

lemma take_disp_simps:
  "take_disp 0 c = Some (0, c)" "take_disp (Suc 0) (b # c) = Some (scast b, c)"
  "take_disp 2 (le_bytes 4 w @ c) = Some (scast w, c)" for w :: u4
  by (simp_all add: take_disp_def)

lemma sib_esp:
  "unat (MODRM XM_SCALE1 (of_nat RID_ESP) (of_nat RID_ESP) AND 7) = 4"
  "unat (drop_bit 3 (MODRM XM_SCALE1 (of_nat RID_ESP) (of_nat RID_ESP)) AND 7) = 4"
  by (simp_all add: MODRM_SCALE1 rid_defs regno_def)

lemma emit_disp_cases:
  obtains (none) "emit_disp rb ofs c = (XM_OFS0, c)" "ofs = 0" "regno rb mod 8 \<noteq> 5"
  | (byte) "emit_disp rb ofs c = (XM_OFS8, ucast ofs # c)" "scast (ucast ofs :: u1) = (scast ofs :: u8)"
  | (word) "emit_disp rb ofs c = (XM_OFS32, le_bytes 4 ofs @ c)"
proof (cases "ofs = 0 \<and> rb AND 7 \<noteq> of_nat RID_EBP")
  case True
  then show ?thesis by (intro none) (auto simp: emit_disp_def reg_is)
next
  case False
  then show ?thesis
    using byte [unfolded emit_disp_def if_not_P [OF False]]
      word [unfolded emit_disp_def if_not_P [OF False]] scast_i8 [of ofs]
    by (cases "checki8 (sint ofs)") simp_all
qed

lemma sib_base: "regno rb mod 8 = 4 \<Longrightarrow> 4 + 8 * (regno rb div 8) = regno rb"
  by presburger

lemma take_modrm_base:
  assumes "emit_disp rb ofs c = (md, p)"
  shows "take_modrm (regno rr div 8) 0 (regno rb div 8) (MODRM md rr rb # emit_sib rb p) =
     Some (regno rr, Rm_mem (Some (regno rb)) None (scast ofs), c)"
proof (cases rule: emit_disp_cases [of rb ofs c])
  case none
  then show ?thesis using assms
    by (simp add: take_modrm_def take_sib_def MODRM_OFS0 sib_esp reg_is take_disp_simps Let_def
        emit_sib_def sib_base)
next
  case byte
  then show ?thesis using assms
    by (simp add: take_modrm_def take_sib_def MODRM_OFS8 sib_esp reg_is take_disp_simps Let_def
        emit_sib_def sib_base)
next
  case word
  then show ?thesis using assms
    by (simp add: take_modrm_def take_sib_def MODRM_OFS32 sib_esp reg_is take_disp_simps Let_def
        emit_sib_def sib_base)
qed

lemma regno_0: "regno 0 = 0" by (simp add: regno_def)

lemma emits_rmro:
  assumes "opcode_bytes xo opc" and "reg_operand w rr" and "isReg (unat rb)"
  shows "emits_operand xo w opc (regno rr) (Rm_mem (Some (regno rb)) None (scast ofs)) c
    (emit_rmro xo rr rb ofs c)"
proof -
  obtain md p where mp: "emit_disp rb ofs c = (md, p)" by force
  have "emit_rmro xo rr rb ofs c = emit_op xo rr rb 0 (MODRM md rr rb # emit_sib rb p)"
    by (simp add: emit_rmro_def assms(3) mp emit_opm_def)
  then show ?thesis
    unfolding emits_operand_def
    using decode_emit_op [OF assms(1,2)] take_modrm_base [OF mp] regno_0 by fastforce
qed

section \<open>The instructions\<close>

lemma opcodes:
  "opcode_bytes XO_MOV [0x8b]" "opcode_bytes XO_MOVto [0x89]" "opcode_bytes XO_MOVmi [0xc7]"
  "opcode_bytes XO_LEA [0x8d]" "opcode_bytes XO_SHIFTi [0xc1]" "opcode_bytes XO_SHIFT1 [0xd1]"
  "opcode_bytes XO_SHIFTcl [0xd3]" "opcode_bytes XO_IMUL [0x0f, 0xaf]"
  "opcode_bytes XO_IMULi [0x69]" "opcode_bytes XO_IMULi8 [0x6b]" "opcode_bytes XO_CMP [0x3b]"
  "opcode_bytes XO_GROUP3 [0xf7]" "opcode_bytes XO_MOVZXb [0x0f, 0xb6]"
  by (simp_all add: opcode_bytes_def xo_defs le_bytes_4)

lemma emits_rmro_base:
  assumes "opcode_bytes xo opc" and "r < 16" and "b < 16"
  shows "emits_operand xo True opc r (Rm_mem (Some b) None (scast ofs)) c
    (emit_rmro xo (REX_64 OR of_nat r) (of_nat b) ofs c)"
proof -
  have "isReg (unat (of_nat b :: u4))"
    using small_cases [OF assms(3)] by (auto simp: isReg_def rid_defs)
  then show ?thesis
    using emits_rmro [OF assms(1) reg_operandI(1) [OF assms(2)], of "of_nat b" ofs c] assms(2,3)
    by simp
qed

lemma decode_move:
  assumes "d < 16" and "s < 16"
  shows "decode (move d s c) = Some (XLoad True d (Rm_reg s), c)"
  using emits_rr [OF opcodes(1) reg_operandI(1) [OF assms(1)], of "REX_64 OR of_nat s" c] assms
  by (auto simp: move_def rid_defs emits_operand_def decode_rex_def decode_op_def)

lemma decode_load:
  assumes "d < 16" and "b < 16"
  shows "decode (load_u64 d b ofs c) = Some (XLoad True d (Rm_mem (Some b) None (scast ofs)), c)"
  using emits_rmro_base [OF opcodes(1) assms, of ofs c] assms
  by (auto simp: load_u64_def rid_defs emits_operand_def decode_rex_def decode_op_def)

lemma decode_store:
  assumes "b < 16" and "r < 16"
  shows "decode (store_u64 b ofs r c) = Some (XStore True (Rm_mem (Some b) None (scast ofs)) r, c)"
  using emits_rmro_base [OF opcodes(2) assms(2,1), of ofs c] assms
  by (auto simp: store_u64_def rid_defs emits_operand_def decode_rex_def decode_op_def)

lemma decode_storei:
  assumes "b < 16"
  shows "decode (storei_u64 b ofs i c) = Some (XStoreI True (Rm_mem (Some b) None (scast ofs)) (scast i), c)"
  using emits_rmro_base [OF opcodes(3) _ assms, of 0 ofs "emit_i32 i c"] assms
  by (auto simp: storei_u64_def emits_operand_def decode_rex_def decode_op_def emit_i32_def)

lemma decode_lea:
  assumes "d < 16" and "b < 16"
  shows "decode (emit_rmro XO_LEA (of_nat d OR REX_64) (of_nat b OR REX_64) ofs c) =
    Some (XLea True d (Rm_mem (Some b) None (scast ofs)), c)"
proof -
  have "isReg (unat (of_nat b OR REX_64 :: u4))"
    using small_cases [OF assms(2)] by (auto simp: isReg_def rid_defs REX_64_def FORCE_REX_def)
  then show ?thesis
    using emits_rmro [OF opcodes(4) reg_operandI(2) [OF assms(1)], of "of_nat b OR REX_64" ofs c] assms
    by (auto simp: emits_operand_def decode_rex_def decode_op_def)
qed


lemma decode_op_movri:
  assumes "m < 8"
  shows "decode_op w r x b (XI_MOVri + of_nat m) k =
    (if w then map_option (\<lambda>(d, k). (XMovI (m + 8 * b) d, k)) (take_le64 k)
     else map_option (\<lambda>(d, k). (XMovI (m + 8 * b) (ucast d), k)) (take_le32 k))"
    and "XI_MOVri + of_nat m \<noteq> 0x0f" and "drop_bit 4 (XI_MOVri + of_nat m :: u1) \<noteq> 4"
proof -
  have "m \<in> {0, 1, 2, 3, 4, 5, 6, 7}" using assms unfolding insert_iff empty_iff by presburger
  then show "decode_op w r x b (XI_MOVri + of_nat m) k =
    (if w then map_option (\<lambda>(d, k). (XMovI (m + 8 * b) d, k)) (take_le64 k)
     else map_option (\<lambda>(d, k). (XMovI (m + 8 * b) (ucast d), k)) (take_le32 k))"
    "XI_MOVri + of_nat m \<noteq> 0x0f" "drop_bit 4 (XI_MOVri + of_nat m :: u1) \<noteq> 4"
    by (elim insertE emptyE; simp add: decode_op_def XI_MOVri_def; fail)+
qed

lemma movri_byte:
  assumes "d < 16"
  shows "XI_MOVri + ucast (of_nat d AND 7 :: u4) = XI_MOVri + of_nat (d mod 8)"
proof -
  have "(ucast (of_nat d AND 7 :: u4) :: u1) = of_nat (unat (of_nat d AND 7 :: u4))" by simp
  then show ?thesis using unat_and_7 [of "of_nat d"] assms by (simp only: regno_of_nat)
qed

lemma drop_3_and_1:
  assumes "d < 16"
  shows "drop_bit 3 (of_nat d) AND 1 = (of_nat (d div 8) :: u4)"
  using small_cases [OF assms] by (elim insertE emptyE) simp_all

lemma decode_loadi_u32:
  assumes "d < 16"
  shows "decode (loadi_u32 (of_nat d) i c) = Some (XMovI d (ucast i), c)"
proof -
  have d8: "d div 8 = 0 \<and> d mod 8 = d \<or> d div 8 = 1 \<and> d mod 8 + 8 = d" using assms by presburger
  have d: "d mod 8 < 8" by simp
  show ?thesis
    using d8 regno_parts [of "of_nat d"] assms decode_op_movri(2,3) [OF d]
    by (auto simp: loadi_u32_def emit_rex_def Let_def movri_byte drop_3_and_1 decode_def decode_rex_def
        decode_op_movri(1) [OF d])
qed

lemma decode_loadi_i32:
  assumes "d < 16" and "sint i < 0"
  shows "decode (loadi_i32 (of_nat d) i c) = Some (XStoreI True (Rm_reg d) (scast i), c)"
proof -
  have "reg_operand True REX_64" using reg_operandI(1) [of 0] by simp
  then show ?thesis
    using emits_rr [OF opcodes(3), of True REX_64 "of_nat d" "le_bytes 4 i @ c"] assms regno_rex(1) [of 0]
    by (auto simp: loadi_i32_def emits_operand_def decode_rex_def decode_op_def emit_rr_def regno_0)
qed

lemma decode_loadi_u64:
  assumes "d < 16" and "\<not> checku32 i" and "\<not> checki32 i"
  shows "decode (loadi_u64 (of_nat d) i c) = Some (XMovI d i, c)"
proof -
  have d8: "d div 8 = 0 \<and> d mod 8 = d \<or> d div 8 = 1 \<and> d mod 8 + 8 = d" using assms(1) by presburger
  have d: "d mod 8 < 8" by simp
  show ?thesis
    using d8 regno_parts [of "of_nat d"] assms decode_op_movri(2,3) [OF d]
    by (auto simp: loadi_u64_def movri_byte drop_3_and_1 decode_def decode_rex_def
        decode_op_movri(1) [OF d])
qed

lemma checki32_signed:
  assumes "checki32 i" and "\<not> checku32 i"
  shows "sint (ucast i :: u4) < 0"
proof (rule ccontr)
  assume "\<not> ?thesis"
  moreover have "sint (ucast i :: u4) < 2 ^ 31" using sint_lt [of "ucast i :: u4"] by simp
  ultimately have "uint (ucast i :: u4) = sint (ucast i :: u4)"
    by (simp only: uint_sint) (simp add: take_bit_int_eq_self)
  then have "(scast (ucast i :: u4) :: u8) = ucast (ucast i :: u4)"
    by (simp only: scast_eq ucast_eq)
  with assms show False by (simp add: checki32_def checku32_def)
qed

text \<open>A constant is in its register after the code that loads it.\<close>

lemma run_loadi:
  assumes "d < 16"
  shows "xrun e (loadi_u64 (of_nat d) i c) s = xrun e c (x_set d i s)"
proof (cases "checku32 i")
  case True
  then have "loadi_u64 (of_nat d) i c = loadi_u32 (of_nat d) (ucast i) c" and "ucast (ucast i :: u4) = i"
    by (simp_all add: loadi_u64_def checku32_def)
  then show ?thesis using decode_loadi_u32 [OF assms] by (simp add: xrun_next)
next
  case False
  show ?thesis
  proof (cases "checki32 i")
    case True
    then have "loadi_u64 (of_nat d) i c = loadi_i32 (of_nat d) (ucast i) c" and "scast (ucast i :: u4) = i"
      using False by (simp_all add: loadi_u64_def checki32_def)
    then show ?thesis
      using decode_loadi_i32 [OF assms checki32_signed [OF True False]] by (simp add: xrun_next x_trunc_def)
  next
    case False
    then show ?thesis
      using \<open>\<not> checku32 i\<close> decode_loadi_u64 [OF assms] by (simp add: xrun_next)
  qed
qed

section \<open>Effects\<close>

lemma run_move:
  "d < 16 \<Longrightarrow> r < 16 \<Longrightarrow> xrun e (move d r c) s = xrun e c (x_set d (x_reg s r) s)"
  by (simp add: xrun_next [OF decode_move] x_trunc_def)

lemma run_load:
  "d < 16 \<Longrightarrow> b < 16 \<Longrightarrow>
   xrun e (load_u64 d b ofs c) s = xrun e c (x_set d (rd64 (x_mem s) (x_reg s b + scast ofs)) s)"
  by (simp add: xrun_next [OF decode_load] x_size_def)

lemma run_store:
  "b < 16 \<Longrightarrow> r < 16 \<Longrightarrow>
   xrun e (store_u64 b ofs r c) s =
     xrun e c (s\<lparr>x_mem := wr64 (x_mem s) (x_reg s b + scast ofs) (x_reg s r)\<rparr>)"
  by (simp add: xrun_next [OF decode_store] x_size_def)

lemma run_storei:
  "b < 16 \<Longrightarrow>
   xrun e (storei_u64 b ofs i c) s =
     xrun e c (s\<lparr>x_mem := wr64 (x_mem s) (x_reg s b + scast ofs) (scast i)\<rparr>)"
  by (simp add: xrun_next [OF decode_storei] x_size_def)

lemma run_lea:
  "d < 16 \<Longrightarrow> b < 16 \<Longrightarrow>
   xrun e (emit_rmro XO_LEA (of_nat d OR REX_64) (of_nat b OR REX_64) ofs c) s =
     xrun e c (x_set d (x_reg s b + scast ofs) s)"
  by (simp add: xrun_next [OF decode_lea] x_trunc_def)

lemmas run_simps = run_move run_load run_store run_storei run_lea run_loadi

text \<open>The second operand of \<^verbatim>\<open>emit_mrm\<close>: a register, or the fused memory operand.\<close>

lemma emit_mrm_reg: "rb \<noteq> of_nat RID_MRM \<Longrightarrow> emit_mrm mrm xo rr rb c = emit_rr xo rr rb c"
  by (simp add: emit_mrm_def emit_rr_def)

lemma isReg_of_nat: "b < 16 \<Longrightarrow> isReg (unat (of_nat b :: u4))"
  using small_cases [of b] by (auto simp: isReg_def rid_defs)

lemma emit_mrm_mem:
  assumes "mrm_base mrm < 16" and "mrm_idx mrm = RID_NONE"
  shows "emit_mrm mrm xo rr (of_nat RID_MRM) c = emit_rmro xo rr (of_nat (mrm_base mrm)) (mrm_ofs mrm) c"
  using assms isReg_of_nat [OF assms(1)]
  by (auto simp: emit_mrm_def emit_rmro_def rid_defs Let_def split: prod.splits)

lemma small_not_mrm: "r < 16 \<Longrightarrow> (of_nat r :: u4) \<noteq> of_nat RID_MRM"
  by (simp add: rid_defs word_unat_eq_iff unat_of_nat)

text \<open>What an operand makes of each opcode.\<close>

lemma operand_alu:
  assumes "emits_operand xo w [3 + 8 * of_nat op] g v c code" and "op < 8"
  shows "decode code = Some (XAlu op w g v, c)"
proof -
  have "op \<in> {0, 1, 2, 3, 4, 5, 6, 7}" using assms(2) unfolding insert_iff empty_iff by presburger
  then have "decode_op w r x b (3 + 8 * of_nat op) k =
      map_option (\<lambda>(g, v, k). (XAlu op w g v, k)) (take_modrm r x b k)"
    "3 + 8 * of_nat op \<noteq> (0x0f :: u1)" for r x b k
    by (elim insertE emptyE; simp add: decode_op_def; fail)+
  then show ?thesis using assms(1) by (auto simp: emits_operand_def decode_rex_def)
qed

lemma operand_imm8:
  assumes "emits_operand xo w [opc] g v (i # c) code" and "opc \<in> {0x83, 0x6b, 0xc1}"
  shows "decode code = Some
    ((if opc = 0x83 then XAluI (g mod 8) w v (scast i)
      else if opc = 0x6b then XImulI w g v (scast i)
      else XShiftI (g mod 8) w v (unat i)), c)"
  using assms by (auto simp: emits_operand_def decode_rex_def decode_op_def)

lemma operand_imm32:
  fixes i :: u4
  assumes "emits_operand xo w [opc] g v (le_bytes 4 i @ c) code" and "opc \<in> {0x81, 0x69}"
  shows "decode code = Some
    ((if opc = 0x81 then XAluI (g mod 8) w v (scast i) else XImulI w g v (scast i)), c)"
  using assms by (auto simp: emits_operand_def decode_rex_def decode_op_def)

lemma opcode_arith:
  "op \<in> {0, 1, 4, 5, 6, 7} \<Longrightarrow> opcode_bytes (XO_ARITH (of_nat op)) [3 + 8 * of_nat op]"
  by (auto simp: opcode_bytes_def xo_defs le_bytes_4)

lemma decode_alu_rr:
  assumes "op \<in> {0, 1, 4, 5, 6, 7}" and "d < 16" and "regno rb = r"
  shows "decode (emit_rr (XO_ARITH (of_nat op)) (REX_64 OR of_nat d) rb c) =
    Some (XAlu op True d (Rm_reg r), c)"
  using emits_rr [OF opcode_arith [OF assms(1)] reg_operandI(1) [OF assms(2)], of rb c] assms
  by (intro operand_alu) auto

lemma decode_cmp_rr:
  assumes "d < 16" and "regno rb = r"
  shows "decode (emit_rr XO_CMP (of_nat d OR REX_64) rb c) = Some (XAlu 7 True d (Rm_reg r), c)"
proof -
  have "emits_operand XO_CMP True [3 + 8 * of_nat 7] d (Rm_reg r) c (emit_rr XO_CMP (of_nat d OR REX_64) rb c)"
    using emits_rr [OF opcodes(11) reg_operandI(2) [OF assms(1)], of rb c] assms by simp
  then show ?thesis by (rule operand_alu) simp
qed

lemma decode_cmp_rm:
  assumes "d < 16" and "b < 16" and that: "f = 0 \<or> f = REX_64"
  shows "decode (emit_rmro XO_CMP (of_nat d OR REX_64) (of_nat b OR f) ofs c) =
    Some (XAlu 7 True d (Rm_mem (Some b) None (scast ofs)), c)"
proof -
  have "isReg (unat (of_nat b OR f))"
    using that small_cases [OF assms(2)] by (auto simp: isReg_def rid_defs REX_64_def FORCE_REX_def)
  then have "emits_operand XO_CMP True [3 + 8 * of_nat 7] d (Rm_mem (Some b) None (scast ofs)) c
      (emit_rmro XO_CMP (of_nat d OR REX_64) (of_nat b OR f) ofs c)"
    using emits_rmro [OF opcodes(11) reg_operandI(2) [OF assms(1)], of "of_nat b OR f" ofs c] assms that
    by auto
  then show ?thesis by (rule operand_alu) simp
qed

lemma xg_arith:
  assumes "op \<in> {0, 1, 4, 5, 6, 7}"
  shows "opcode_bytes (XG_TOXOi8 (XG_ARITHi (of_nat op))) [0x83]"
    and "opcode_bytes (XG_TOXOi (XG_ARITHi (of_nat op))) [0x81]"
    and "XG_ARITHi (of_nat op) AND 7 = of_nat op"
  using assms by (auto simp: opcode_bytes_def xo_defs le_bytes_4)

lemma rex_and:
  assumes "d < 16"
  shows "(REX_64 OR of_nat d) AND REX_64 = REX_64" "(of_nat d OR REX_64) AND REX_64 = REX_64"
    "(of_nat d OR REX_64) AND NOT REX_64 = of_nat d"
  using small_cases [OF assms] by (auto simp: REX_64_def FORCE_REX_def)

lemma decode_gri:
  assumes "op \<in> {0, 1, 4, 5, 6, 7}" and "d < 16" and "rb = REX_64 OR of_nat d \<or> rb = of_nat d OR REX_64"
  shows "decode (emit_gri (XG_ARITHi (of_nat op)) rb i c) = Some (XAluI op True (Rm_reg d) (scast i), c)"
proof -
  have rb: "rb AND REX_64 = REX_64" "regno rb = d" using assms(2,3) rex_and [OF assms(2)] by auto
  have op: "op < 16" "op mod 8 = op" using assms(1) by auto
  show ?thesis
  proof (cases "checki8 (sint i)")
    case True
    have "emits_operand (XG_TOXOi8 (XG_ARITHi (of_nat op))) True [0x83] op (Rm_reg d) (ucast i # c)
        (emit_rr (XG_TOXOi8 (XG_ARITHi (of_nat op))) (of_nat op OR REX_64) rb (ucast i # c))"
      using emits_rr [OF xg_arith(1) [OF assms(1)] reg_operandI(2) [OF op(1)], of rb "ucast i # c"] rb op
      by simp
    then show ?thesis
      using True op by (simp add: emit_gri_def xg_arith(3) [OF assms(1)] rb(1) scast_i8 operand_imm8
          flip: emit_rr_def)
  next
    case False
    have "emits_operand (XG_TOXOi (XG_ARITHi (of_nat op))) True [0x81] op (Rm_reg d) (le_bytes 4 i @ c)
        (emit_rr (XG_TOXOi (XG_ARITHi (of_nat op))) (of_nat op OR REX_64) rb (le_bytes 4 i @ c))"
      using emits_rr [OF xg_arith(2) [OF assms(1)] reg_operandI(2) [OF op(1)], of rb "le_bytes 4 i @ c"] rb op
      by simp
    then show ?thesis
      using False op by (simp add: emit_gri_def xg_arith(3) [OF assms(1)] rb(1) operand_imm32
          flip: emit_rr_def)
  qed
qed


lemma decode_imul_rr:
  assumes "d < 16" and "regno rb = r"
  shows "decode (emit_rr XO_IMUL (REX_64 OR of_nat d) rb c) = Some (XImul True d (Rm_reg r), c)"
  using emits_rr [OF opcodes(8) reg_operandI(1) [OF assms(1)], of rb c] assms
  by (auto simp: emits_operand_def decode_rex_def decode_0f_def)

lemma decode_imuli8_rr:
  assumes "d < 16" and "regno rb = r"
  shows "decode (emit_rr XO_IMULi8 (REX_64 OR of_nat d) rb (i # c)) =
    Some (XImulI True d (Rm_reg r) (scast i), c)"
  using emits_rr [OF opcodes(10) reg_operandI(1) [OF assms(1)], of rb "i # c"] assms
  by (simp add: operand_imm8)

lemma decode_imuli_rr:
  assumes "d < 16" and "regno rb = r"
  shows "decode (emit_rr XO_IMULi (REX_64 OR of_nat d) rb (emit_i32 i c)) =
    Some (XImulI True d (Rm_reg r) (scast i), c)"
  using emits_rr [OF opcodes(9) reg_operandI(1) [OF assms(1)], of rb "le_bytes 4 i @ c"] assms
  by (simp add: operand_imm32 emit_i32_def)

lemma small_digit: "g < 8 \<Longrightarrow> g \<in> {0, 1, 2, 3, 4, 5, 6, 7::nat}"
  unfolding insert_iff empty_iff by presburger

lemma decode_group3:
  assumes "g \<in> {2, 3, 7}" and "d < 16"
  shows "decode (emit_rr XO_GROUP3 (REX_64 OR of_nat g) (of_nat d) c) = Some (XGroup3 g True (Rm_reg d), c)"
proof -
  have g: "g < 16" "g mod 8 = g" "2 \<le> g" using assms(1) by auto
  show ?thesis
    using emits_rr [OF opcodes(12) reg_operandI(1) [OF g(1)], of "of_nat d" c] assms(2) g
    by (auto simp: emits_operand_def decode_rex_def decode_op_def)
qed

lemma decode_shift1:
  assumes "g < 8" and "d < 16"
  shows "decode (emit_rr XO_SHIFT1 (of_nat g OR REX_64) (of_nat d) c) =
    Some (XShiftI g True (Rm_reg d) 1, c)"
proof -
  have g: "g < 16" "g mod 8 = g" using assms(1) by auto
  show ?thesis
    using emits_rr [OF opcodes(6) reg_operandI(2) [OF g(1)], of "of_nat d" c] assms(2) g
    by (auto simp: emits_operand_def decode_rex_def decode_op_def)
qed

lemma decode_shifti:
  assumes "g < 8" and "d < 16"
  shows "decode (emit_shifti (of_nat g OR REX_64) (of_nat d) i c) =
    Some (XShiftI g True (Rm_reg d) (unat i), c)"
proof -
  have g: "g < 16" "g mod 8 = g" using assms(1) by auto
  show ?thesis
    using emits_rr [OF opcodes(5) reg_operandI(2) [OF g(1)], of "of_nat d" "i # c"] assms(2) g
    by (simp add: emit_shifti_def emit_i8_def operand_imm8)
qed

lemma decode_shiftcl:
  assumes "g < 8" and "d < 16"
  shows "decode (emit_rr XO_SHIFTcl (of_nat g OR REX_64) (of_nat d) c) =
    Some (XShiftCl g True (Rm_reg d), c)"
proof -
  have g: "g < 16" "g mod 8 = g" using assms(1) by auto
  show ?thesis
    using emits_rr [OF opcodes(7) reg_operandI(2) [OF g(1)], of "of_nat d" c] assms(2) g
    by (auto simp: emits_operand_def decode_rex_def decode_op_def)
qed

lemma decode_mov32:
  assumes "d < 16" and "r < 16"
  shows "decode (emit_rr XO_MOV (of_nat d) (of_nat r) c) = Some (XLoad False d (Rm_reg r), c)"
  using emits_rr [OF opcodes(1) reg_operandI(3) [OF assms(1)], of "of_nat r" c] assms
  by (auto simp: emits_operand_def decode_rex_def decode_op_def)

lemma decode_cqo: "decode (emit_i8 0x48 (emit_i8 XI_CDQ c)) = Some (XCqo True, c)"
  by (simp add: emit_i8_def XI_CDQ_def decode_def decode_rex_def decode_op_def)

text \<open>Base and index with no displacement needed: the operand of \<^verbatim>\<open>insPLOAD\<close>.\<close>

lemma take_modrm_index:
  assumes "emit_disp rb ofs c = (md, p)" and "regno rx \<noteq> 4"
  shows "take_modrm (regno rr div 8) (regno rx div 8) (regno rb div 8)
      (MODRM md rr (of_nat RID_ESP) # MODRM XM_SCALE1 rx rb # p) =
     Some (regno rr, Rm_mem (Some (regno rb)) (Some (regno rx, 1)) (scast ofs), c)"
proof -
  have esp: "regno (of_nat RID_ESP) mod 8 = 4" by (simp add: rid_defs regno_def)
  have ix: "regno rx mod 8 + 8 * (regno rx div 8) = regno rx" by simp
  show ?thesis
  proof (cases rule: emit_disp_cases [of rb ofs c])
    case none
    then show ?thesis using assms ix
      by (simp add: take_modrm_def take_sib_def MODRM_OFS0 MODRM_SCALE1 esp take_disp_simps Let_def)
  next
    case byte
    then show ?thesis using assms ix
      by (simp add: take_modrm_def take_sib_def MODRM_OFS8 MODRM_SCALE1 esp take_disp_simps Let_def)
  next
    case word
    then show ?thesis using assms ix
      by (simp add: take_modrm_def take_sib_def MODRM_OFS32 MODRM_SCALE1 esp take_disp_simps Let_def)
  qed
qed

lemma decode_movzx:
  assumes "d < 16" and "b < 16" and "x < 16" and "x \<noteq> 4"
  shows "decode (emit_rmrxo XO_MOVZXb (of_nat d) (of_nat b) (of_nat x) XM_SCALE1 ofs c) =
    Some (XMovzxB False d (Rm_mem (Some b) (Some (x, 1)) (scast ofs)), c)"
proof -
  obtain md p where mp: "emit_disp (of_nat b) ofs c = (md, p)" by force
  show ?thesis
    using take_modrm_index [OF mp, of "of_nat x" "of_nat d"]
      decode_emit_op [OF opcodes(13) reg_operandI(3) [OF assms(1)]] assms
    by (simp add: emit_rmrxo_def mp emit_opmx_def decode_rex_def decode_0f_def)
qed

lemma decode_jmp: "decode (XI_JMP # le_bytes 4 d @ c) = Some (XJmp (scast d), c)" for d :: u4
  by (simp add: XI_JMP_def decode_def decode_rex_def decode_op_def)

lemma decode_jcc:
  fixes d :: u4
  assumes "cc < 16"
  shows "decode (0x0f # (XI_JCCn + of_nat cc) # le_bytes 4 d @ c) = Some (XJcc cc (scast d), c)"
  using small_cases [OF assms]
  by (elim insertE emptyE) (simp_all add: XI_JCCn_def decode_def decode_rex_def decode_0f_def)

end
