(* ===== verification/MachineCode.thy ===== *)
theory MachineCode
  imports Encoding HotCounters
begin

text \<open>
  The memory of compiled code, \<^verbatim>\<open>src/vm/machinecode.cc\<close>: one area whose lower end holds the exit
  stubs and whose upper end holds the code of traces, writable or executable but not both.
  Mapping memory is left to the operating system: \<open>mmap i hint sz\<close> is the result of the \<open>i\<close>-th
  call, an address or all ones.
\<close>

section \<open>State\<close>

definition MCPROT_RW :: nat where "MCPROT_RW = 3"
definition MCPROT_RX :: nat where "MCPROT_RX = 5"
definition MCPROT_GEN :: nat where "MCPROT_GEN = MCPROT_RW"
definition MCPROT_RUN :: nat where "MCPROT_RUN = MCPROT_RX"

definition kAreaSize :: u8 where "kAreaSize = push_bit 22 1"
definition LC_PAGESIZE :: u8 where "LC_PAGESIZE = 4096"
definition LC_TARGET_JUMPRANGE :: nat where "LC_TARGET_JUMPRANGE = 31"

record machine_code =
  mcd_prng :: u4
  mcd_protection :: nat
  mcd_area :: u8
  mcd_top :: u8
  mcd_bottom :: u8
  mcd_size :: u8
  mcd_sizeTotal :: u8

type_synonym 'a mcd_result = "('a \<times> machine_code) result"

definition mcd_init :: "u4 \<Rightarrow> machine_code" where
  "mcd_init prng =
     \<lparr>mcd_prng = prng, mcd_protection = 0, mcd_area = 0, mcd_top = 0, mcd_bottom = 0,
      mcd_size = 0, mcd_sizeTotal = 0\<rparr>"

section \<open>Allocation\<close>

definition isValidMachineCodePtr :: "u8 \<Rightarrow> bool" where
  "isValidMachineCodePtr p \<longleftrightarrow> p \<noteq> 0 \<and> p < push_bit 47 1"

definition mcd_allocAt :: "(nat \<Rightarrow> u8 \<Rightarrow> u8 \<Rightarrow> u8) \<Rightarrow> nat \<Rightarrow> u8 \<Rightarrow> u8 \<Rightarrow> u8 result" where
  "mcd_allocAt mmap i hint sz =
     (let p = mmap i hint sz in if p = - 1 \<and> hint = 0 then Inl (Exit 23) else Inr p)"

definition mcd_range :: u8 where
  "mcd_range = push_bit LC_TARGET_JUMPRANGE 1 - push_bit 21 1"

text \<open>Random numbers are drawn until the area fits below the range; \<open>hint_fuel\<close> bounds the draws
  by the period of the generator.\<close>

definition hint_fuel :: nat where "hint_fuel = 2 ^ 32"

fun mcd_randomHint :: "nat \<Rightarrow> u8 \<Rightarrow> u4 \<Rightarrow> (u8 \<times> u4) result" where
  "mcd_randomHint 0 sz prng = Inl Diverge"
| "mcd_randomHint (Suc fuel) sz prng =
     (let (x, prng) = prng_bits prng 15;
          hint = ucast (push_bit 16 (0x78fb XOR x))
      in if \<not> hint + sz < mcd_range then mcd_randomHint fuel sz prng else Inr (hint, prng))"

fun mcd_alloc_loop ::
    "(nat \<Rightarrow> u8 \<Rightarrow> u8 \<Rightarrow> u8) \<Rightarrow> u8 \<Rightarrow> u8 \<Rightarrow> nat list \<Rightarrow> u8 \<Rightarrow> u4 \<Rightarrow> (u8 \<times> u4) result" where
  "mcd_alloc_loop mmap target sz [] hint prng = Inr (0, prng)"
| "mcd_alloc_loop mmap target sz (i # is) hint prng =
     (let again =
        res_bind (mcd_randomHint hint_fuel sz prng) (\<lambda>(h, prng).
          mcd_alloc_loop mmap target sz is (target + h - drop_bit 1 mcd_range) prng)
      in if isValidMachineCodePtr hint
         then res_bind (mcd_allocAt mmap i hint sz) (\<lambda>p.
                if isValidMachineCodePtr p
                then if p + sz - target < mcd_range \<or> target - p < mcd_range
                     then Inr (p, prng) else again
                else again)
         else again)"

definition mcd_alloc ::
    "(nat \<Rightarrow> u8 \<Rightarrow> u8 \<Rightarrow> u8) \<Rightarrow> u8 \<Rightarrow> u8 \<Rightarrow> u4 \<Rightarrow> (u8 \<times> u4) result" where
  "mcd_alloc mmap asmExit sz prng =
     mcd_alloc_loop mmap (asmExit AND NOT 0xffff) sz [0..<32] 0 prng"

definition mcd_allocArea ::
    "(nat \<Rightarrow> u8 \<Rightarrow> u8 \<Rightarrow> u8) \<Rightarrow> u8 \<Rightarrow> machine_code \<Rightarrow> unit mcd_result" where
  "mcd_allocArea mmap asmExit m =
     (let sz = (kAreaSize + LC_PAGESIZE - 1) AND NOT (LC_PAGESIZE - 1)
      in res_bind (mcd_alloc mmap asmExit sz (mcd_prng m)) (\<lambda>(area, prng).
         Inr ((), m\<lparr>mcd_prng := prng, mcd_area := area, mcd_size := sz, mcd_sizeTotal := sz,
                    mcd_protection := MCPROT_GEN, mcd_bottom := area, mcd_top := area + sz\<rparr>)))"

section \<open>Reserving and committing\<close>

definition mcd_protect :: "nat \<Rightarrow> machine_code \<Rightarrow> machine_code" where
  "mcd_protect prot m = (if mcd_protection m \<noteq> prot then m\<lparr>mcd_protection := prot\<rparr> else m)"

text \<open>The top, and the lower limit.\<close>

definition mcd_reserve ::
    "(nat \<Rightarrow> u8 \<Rightarrow> u8 \<Rightarrow> u8) \<Rightarrow> u8 \<Rightarrow> machine_code \<Rightarrow> (u8 \<times> u8) mcd_result" where
  "mcd_reserve mmap asmExit m =
     res_bind
       (if mcd_area m = 0 then mcd_allocArea mmap asmExit m else Inr ((), mcd_protect MCPROT_GEN m))
       (\<lambda>(_, m). Inr ((mcd_top m, mcd_bottom m), m))"

definition mcd_commit :: "u8 \<Rightarrow> machine_code \<Rightarrow> unit mcd_result" where
  "mcd_commit t m =
     res_bind (lc_assert (t \<le> mcd_area m + mcd_size m)) (\<lambda>_.
     res_bind (lc_assert (mcd_bottom m \<le> t)) (\<lambda>_.
       Inr ((), mcd_protect MCPROT_RUN (m\<lparr>mcd_top := t\<rparr>))))"

definition mcd_commitStub :: "u8 \<Rightarrow> machine_code \<Rightarrow> unit mcd_result" where
  "mcd_commitStub b m =
     res_bind (lc_assert (b \<ge> mcd_bottom m)) (\<lambda>_.
     res_bind (lc_assert (b \<le> mcd_top m)) (\<lambda>_. Inr ((), m\<lparr>mcd_bottom := b\<rparr>)))"

definition mcd_abort :: "machine_code \<Rightarrow> machine_code" where
  "mcd_abort m = mcd_protect MCPROT_RUN m"

definition mcd_patchBegin :: "u8 \<Rightarrow> machine_code \<Rightarrow> u8 mcd_result" where
  "mcd_patchBegin ptr m =
     res_bind (lc_assert (mcd_area m \<le> ptr \<and> ptr < mcd_area m + mcd_size m)) (\<lambda>_.
       let m = mcd_protect MCPROT_GEN m in Inr (mcd_area m, m))"

definition mcd_patchFinish :: "u8 \<Rightarrow> machine_code \<Rightarrow> unit mcd_result" where
  "mcd_patchFinish area m =
     res_bind (lc_assert (area = mcd_area m)) (\<lambda>_. Inr ((), mcd_protect MCPROT_RUN m))"


section \<open>The exit handler is in reach\<close>

lemma checki32_of_int:
  assumes "- (2 ^ 31) \<le> d" and "d < 2 ^ 31"
  shows "checki32 (of_int d)" and "scast (ucast (of_int d :: u8) :: u4) = (of_int d :: u8)"
proof -
  have u: "(ucast (of_int d :: u8) :: u4) = of_int d"
    by (rule bit_word_eqI) (simp add: bit_simps)
  have "sint (of_int d :: u4) = d"
    using assms by (simp add: sint_sbintrunc' signed_take_bit_int_eq_self)
  then show "scast (ucast (of_int d :: u8) :: u4) = (of_int d :: u8)"
    by (simp add: u scast_eq)
  then show "checki32 (of_int d)" by (simp add: checki32_def)
qed

lemma word_diff_small:
  fixes a b :: u8
  assumes "a - b < c" and "uint a < 2 ^ 48" and "uint b < 2 ^ 48" and "uint c \<le> 2 ^ 31"
  shows "0 \<le> uint a - uint b \<and> uint a - uint b < uint c"
proof -
  have w: "uint (a - b) < uint c" using assms(1) by (simp add: word_less_def)
  have e: "uint (a - b) = (if uint b \<le> uint a then uint a - uint b else uint a - uint b + 2 ^ 64)"
    using uint_sub_if' [of a b] by simp
  show ?thesis
  proof (cases "uint b \<le> uint a")
    case True then show ?thesis using w e by simp
  next
    case False
    then have "uint a - uint b + 2 ^ 64 < 2 ^ 31" using w e assms(4) by simp
    moreover have "False" if "x - y + 2 ^ 64 < 2 ^ 31" "y < 2 ^ 48" "0 \<le> x" for x y :: int
      using that by simp
    ultimately show ?thesis using assms(3) by (metis uint_ge_0)
  qed
qed

lemma mcd_alloc_loop_range:
  "mcd_alloc_loop mmap target sz is hint prng = Inr (p, prng') \<Longrightarrow> p \<noteq> 0 \<Longrightarrow>
   isValidMachineCodePtr p \<and> (p + sz - target < mcd_range \<or> target - p < mcd_range)"
proof (induction "is" arbitrary: hint prng)
  case (Cons i js)
  then show ?case
    by (auto simp: Let_def res_bind_Inr_iff split: if_splits)
qed simp


text \<open>
  \<^bold>\<open>C25.\<close>
  Code placed in an area that the allocator of machine code accepted can jump to the exit handler:
  from every address in an area of at most 4 MB the relative displacement fits in 32 bits and
  leads to the handler.
\<close>

theorem alloc_reaches_exit:
  assumes "mcd_alloc mmap asmExit sz prng = Inr (p, prng')" and "p \<noteq> 0"
    and "asmExit < push_bit 47 1" and "sz \<le> kAreaSize" and "p \<le> q" and "q - p \<le> sz"
  shows "\<exists>d. jmprel q asmExit = Inr d \<and> q + scast d = asmExit"
proof -
  define t where "t = asmExit AND NOT 0xffff"
  have p: "p < push_bit 47 1" and r: "p + sz - t < mcd_range \<or> t - p < mcd_range"
    using mcd_alloc_loop_range [OF assms(1) [unfolded mcd_alloc_def] assms(2)]
    by (auto simp: t_def isValidMachineCodePtr_def)
  have up: "uint p < 2 ^ 47" "uint asmExit < 2 ^ 47" and usz: "uint sz \<le> 2 ^ 22"
    using p assms(3,4) by (simp_all add: word_less_def word_le_def kAreaSize_def)
  have ut: "uint t \<le> uint asmExit \<and> uint asmExit < uint t + 2 ^ 16"
  proof -
    have t: "t = asmExit AND NOT (mask 16)" by (simp add: t_def mask_eq_exp_minus_1)
    have "unat t = unat asmExit - unat asmExit mod 2 ^ 16" unfolding t by (rule unat_and_not_mask)
    moreover have "unat asmExit mod 2 ^ 16 < 2 ^ 16" by simp
    ultimately have "unat t \<le> unat asmExit \<and> unat asmExit < unat t + 2 ^ 16"
      using mod_less_eq_dividend [of "unat asmExit" "2 ^ 16"] by linarith
    moreover have "int x \<le> int y \<and> int y < int x + 2 ^ 16" if "x \<le> y \<and> y < x + 2 ^ 16" for x y :: nat
      using that by simp
    ultimately show ?thesis unfolding uint_nat by blast
  qed
  have uq: "uint q - uint p \<le> uint sz \<and> uint p \<le> uint q"
  proof -
    have "uint (q - p) = uint q - uint p" using assms(5) by (simp add: uint_sub_if' word_le_def)
    then show ?thesis using assms(5,6) usz by (simp add: word_le_def)
  qed
  have ups: "uint (p + sz) = uint p + uint sz" using up usz by (simp add: uint_plus_if')
  have rg: "uint mcd_range = 2 ^ 31 - 2 ^ 21" by (simp add: mcd_range_def LC_TARGET_JUMPRANGE_def)
  have sz0: "0 \<le> uint sz" by simp
  define d where "d = uint asmExit - uint q"
  have "- (2 ^ 31) \<le> d \<and> d < 2 ^ 31"
  proof -
    from r consider "0 \<le> uint (p + sz) - uint t" "uint (p + sz) - uint t < uint mcd_range"
      | "0 \<le> uint t - uint p" "uint t - uint p < uint mcd_range"
      using word_diff_small [of "p + sz" t mcd_range] word_diff_small [of t p mcd_range]
        up usz ut ups rg by fastforce
    then show ?thesis
    proof cases
      case 1
      then show ?thesis using uq ut ups usz sz0 rg unfolding d_def by (intro conjI; (elim conjE, simp))
    next
      case 2
      then show ?thesis using uq ut usz sz0 rg unfolding d_def by (intro conjI; (elim conjE, simp))
    qed
  qed
  then have c: "checki32 (of_int d)" "scast (ucast (of_int d :: u8) :: u4) = (of_int d :: u8)"
    using checki32_of_int by blast+
  have e: "asmExit - q = of_int d" by (simp add: d_def)
  show ?thesis
    using c by (simp add: jmprel_def e) (simp flip: e)
qed


definition demo_mmap :: "nat \<Rightarrow> u8 \<Rightarrow> u8 \<Rightarrow> u8" where
  "demo_mmap i hint sz = 0x10000000000"

lemma demo_alloc: "mcd_alloc demo_mmap 0x10000000123 0x400000 prng_init = Inr (0x10000000000, 0x38cdb69f)"
proof -
  obtain k where f: "hint_fuel = Suc k" by (metis hint_fuel_def not0_implies_Suc power_not_zero zero_neq_numeral)
  have r: "mcd_randomHint hint_fuel 0x400000 prng_init = Inr (0x649d0000, 0x38cdb69f)"
    unfolding f by (simp add: prng_init_def prng_bits_def mcd_range_def LC_TARGET_JUMPRANGE_def)
  have u: "[0..<32] = 0 # 1 # [2..<32::nat]" by (simp add: upt_conv_Cons)
  show ?thesis
    unfolding mcd_alloc_def u
    by (simp add: isValidMachineCodePtr_def r mcd_allocAt_def demo_mmap_def mcd_range_def
        LC_TARGET_JUMPRANGE_def)
qed

theorem alloc_reaches_exit_witness:
  "\<exists>d. jmprel 0x10000000100 0x10000000123 = Inr d \<and> 0x10000000100 + scast d = (0x10000000123 :: u8)"
  by (rule alloc_reaches_exit [OF demo_alloc]) (simp_all add: kAreaSize_def)

end
