(* ===== verification/RegAlloc.thy ===== *)
theory RegAlloc
  imports Encoding Fold MachineCode
begin

text \<open>
  The register allocator of \<^verbatim>\<open>src/vm/assembler.cc\<close>: the cost of a register (\<^verbatim>\<open>RegCost\<close>), the
  register set (\<^verbatim>\<open>RegSet\<close>), the spill slots (\<^verbatim>\<open>SpillSet\<close>), and the operations that pick, evict,
  restore and rematerialise registers while code is generated backwards.

  The lemmas show that the allocator keeps its tables consistent (\<open>ra_ok\<close>), and that the code it
  emits makes the values available where the tables say they are (\<open>agree\<close>): if a machine state
  agrees with the tables after an operation, the emitted code takes it to one that agrees with the
  tables before the operation.
\<close>

section \<open>Bit scans of \<^verbatim>\<open>common.hh\<close>\<close>

text \<open>Positions of the lowest and the highest bit; the operand is not zero where they are used.\<close>

definition lc_ffs :: "u4 \<Rightarrow> nat" where
  "lc_ffs x = length (takeWhile (\<lambda>i. \<not> bit x i) [0..<32])"

definition lc_ffsl :: "u8 \<Rightarrow> nat" where
  "lc_ffsl x = length (takeWhile (\<lambda>i. \<not> bit x i) [0..<64])"

definition lc_fls :: "u4 \<Rightarrow> nat" where
  "lc_fls x = 31 - length (takeWhile (\<lambda>i. \<not> bit x i) (rev [0..<32]))"

section \<open>RegCost\<close>

definition kPhiWeight :: u4 where "kPhiWeight = 64"

definition rc_default :: u4 where "rc_default = 0xffff0000"

definition rc_make :: "nat \<Rightarrow> u1 \<Rightarrow> u4" where
  "rc_make ref t =
     (let other_cost = ucast (t AND IRT_ISPHI) * (push_bit 16 kPhiWeight div ucast IRT_ISPHI);
          r = of_nat (ref mod 65536)
      in push_bit 16 r + r + other_cost)"

definition rc_maxCost :: u4 where "rc_maxCost = NOT 0"

definition rc_ref :: "u4 \<Rightarrow> nat" where "rc_ref c = unat c mod 65536"

definition rc_cost :: "u4 \<Rightarrow> nat" where "rc_cost c = unat (drop_bit 16 c)"

section \<open>Register hints\<close>

definition hasHint :: "nat \<Rightarrow> bool" where "hasHint r \<longleftrightarrow> r \<noteq> RID_INIT"

text \<open>\<^verbatim>\<open>getHint\<close> returns a \<^verbatim>\<open>bool\<close>, which becomes register 0 or 1 when it is stored in a
  \<^verbatim>\<open>Reg\<close>.\<close>

definition getHint :: "nat \<Rightarrow> nat" where "getHint r = (if r AND RID_MASK \<noteq> 0 then 1 else 0)"

definition sameHint :: "nat \<Rightarrow> nat \<Rightarrow> bool" where "sameHint r1 r2 \<longleftrightarrow> getHint (r1 XOR r2) = 0"

section \<open>RegSet\<close>

definition rs_fromReg :: "nat \<Rightarrow> u4" where "rs_fromReg r = push_bit r 1"

definition rs_range :: "nat \<Rightarrow> nat \<Rightarrow> u4" where
  "rs_range lo hi = (let ones = push_bit (hi - lo) 1 - 1 in push_bit lo ones)"

definition rs_test :: "nat \<Rightarrow> u4 \<Rightarrow> bool" where "rs_test r s \<longleftrightarrow> drop_bit r s AND 1 \<noteq> 0"
definition rs_isEmpty :: "u4 \<Rightarrow> bool" where "rs_isEmpty s \<longleftrightarrow> s = 0"
definition rs_set :: "nat \<Rightarrow> u4 \<Rightarrow> u4" where "rs_set r s = s OR push_bit r 1"
definition rs_clear :: "nat \<Rightarrow> u4 \<Rightarrow> u4" where "rs_clear r s = s AND NOT (push_bit r 1)"
definition rs_exclude :: "u4 \<Rightarrow> nat \<Rightarrow> u4" where "rs_exclude s r = s AND NOT (push_bit r 1)"
definition rs_include :: "u4 \<Rightarrow> nat \<Rightarrow> u4" where "rs_include s r = s OR push_bit r 1"
definition rs_pickTop :: "u4 \<Rightarrow> nat" where "rs_pickTop s = lc_fls s"
definition rs_pickBot :: "u4 \<Rightarrow> nat" where "rs_pickBot s = lc_ffs s"
definition rs_intersect :: "u4 \<Rightarrow> u4 \<Rightarrow> u4" where "rs_intersect s t = s AND t"
definition rs_setunion :: "u4 \<Rightarrow> u4 \<Rightarrow> u4" where "rs_setunion s t = s OR t"
definition rs_complement :: "u4 \<Rightarrow> u4" where "rs_complement s = NOT s"

definition kGPR :: u4 where
  "kGPR = rs_exclude (rs_exclude (rs_exclude (rs_range RID_MIN_GPR RID_MAX_GPR) RID_ESP) RID_BASE) RID_HP"

text \<open>The members in the order in which \<^verbatim>\<open>pickBot\<close> and \<^verbatim>\<open>clear\<close> enumerate them.\<close>

definition rs_members :: "u4 \<Rightarrow> nat list" where
  "rs_members s = filter (\<lambda>r. rs_test r s) [0..<32]"

section \<open>SpillSet\<close>

text \<open>Four words; a set bit is an available slot.\<close>

definition ss_reset :: "u8 list" where "ss_reset = [NOT 1, NOT 0, NOT 0, NOT 0]"

fun ss_allocHigh_loop :: "nat list \<Rightarrow> u8 list \<Rightarrow> (nat \<times> u8 list) result" where
  "ss_allocHigh_loop [] d = Inl (Exit 1)"
| "ss_allocHigh_loop (i # is) d =
     (let avail = d ! i
      in if avail \<noteq> 0
         then let slot = lc_ffsl avail
              in Inr (i * 64 + slot, d[i := d ! i XOR push_bit slot 1])
         else ss_allocHigh_loop is d)"

definition ss_allocSpillHigh :: "u8 list \<Rightarrow> (nat \<times> u8 list) result" where
  "ss_allocSpillHigh d = ss_allocHigh_loop [1..<4] d"

definition ss_alloc :: "u8 list \<Rightarrow> (nat \<times> u8 list) result" where
  "ss_alloc d =
     (let avail = d ! 0
      in if avail = 0 then ss_allocSpillHigh d
         else let slot = lc_ffsl avail in Inr (slot, d[0 := d ! 0 XOR push_bit slot 1]))"

definition ss_block :: "nat \<Rightarrow> u8 list \<Rightarrow> u8 list result" where
  "ss_block slot d =
     res_bind (lc_assert (slot > 0 \<and> slot < 256)) (\<lambda>_.
       let i = slot div 64; b = slot mod 64
       in Inr (d[i := d ! i AND NOT (push_bit b 1)]))"

definition ss_free :: "nat \<Rightarrow> u8 list \<Rightarrow> u8 list result" where
  "ss_free slot d =
     res_bind (lc_assert (slot > 0 \<and> slot < 256)) (\<lambda>_.
       let i = slot div 64; b = slot mod 64
       in Inr (d[i := d ! i OR push_bit b 1]))"

section \<open>The assembler\<close>

text \<open>
  A compiled trace, \<^verbatim>\<open>Fragment\<close> of \<^verbatim>\<open>jit.hh\<close>; its parent is given by the trace id.
\<close>

record fragment =
  fr_traceId :: nat
  fr_startPc :: u8
  fr_parent :: "nat option"
  fr_targets :: "u8 list"
  fr_firstconstant :: nat
  fr_nextins :: nat
  fr_buffer :: "nat \<Rightarrow> ir"
  fr_frameSize :: nat
  fr_snaps :: "snapshot list"
  fr_snapmap :: snapshot_data
  fr_heap :: abstract_heap
  fr_mcode :: u8

text \<open>
  The part of \<^verbatim>\<open>Jit\<close> the assembler works on: the options, whether the trace continues a
  fall-through exit, the exit stubs, the compiled traces and the memory for code, with its contents.
  The last fields are the addresses of the routines that are written in assembly.
\<close>

record jit_view =
  jv_fastHeapCheckFail :: bool
  jv_debugTrace :: bool
  jv_fallthrough :: bool
  jv_exitStubGroup :: "nat \<Rightarrow> u8"
  jv_fragments :: "fragment list"
  jv_mcode :: machine_code
  jv_mem :: "u8 \<Rightarrow> u1"
  jv_asmExit :: u8
  jv_asmTrace :: u8
  jv_asmHeapOverflow :: u8
  jv_asmStackOverflow :: u8

text \<open>
  \<^verbatim>\<open>Assembler\<close>.  \<^verbatim>\<open>ir_\<close> is the buffer of \<^verbatim>\<open>buf_\<close>.  The code from \<^verbatim>\<open>mcp\<close> to \<^verbatim>\<open>mcend\<close> is
  the list \<open>a_mc\<close>.
\<close>

record assembler =
  a_mc :: "u1 list"
  a_mcend :: u8
  a_mctop :: u8
  a_mcbot :: u8
  a_mcQuickHeapCheck :: u8
  a_numHeapChecks :: nat
  a_jit :: jit_view
  a_buf :: irbuffer
  a_nins :: nat
  a_curins :: nat
  a_stopins :: nat
  a_snapno :: nat
  a_freeset :: u4
  a_modset :: u4
  a_phiset :: u4
  a_cost :: "nat \<Rightarrow> u4"
  a_spills :: "u8 list"
  a_mrm :: modrm

type_synonym 'a asm_result = "('a \<times> assembler) result"

definition a_mcp :: "assembler \<Rightarrow> u8" where
  "a_mcp a = a_mcend a - of_nat (length (a_mc a))"

definition a_ir :: "assembler \<Rightarrow> nat \<Rightarrow> ir" where
  "a_ir a ref = ib_buffer (a_buf a) ref"

definition a_updIr :: "nat \<Rightarrow> (ir \<Rightarrow> ir) \<Rightarrow> assembler \<Rightarrow> assembler" where
  "a_updIr ref f a =
     a\<lparr>a_buf := (a_buf a)\<lparr>ib_buffer := (ib_buffer (a_buf a))(ref := f (a_ir a ref))\<rparr>\<rparr>"

definition a_emit :: "(u1 list \<Rightarrow> u1 list) \<Rightarrow> assembler \<Rightarrow> assembler" where
  "a_emit f a = a\<lparr>a_mc := f (a_mc a)\<rparr>"

definition freeReg :: "nat \<Rightarrow> assembler \<Rightarrow> assembler" where
  "freeReg r a = a\<lparr>a_freeset := rs_set r (a_freeset a)\<rparr>"

definition modifiedReg :: "nat \<Rightarrow> assembler \<Rightarrow> assembler" where
  "modifiedReg r a = a\<lparr>a_modset := rs_set r (a_modset a)\<rparr>"

definition useReg :: "nat \<Rightarrow> assembler \<Rightarrow> assembler" where
  "useReg r a = a\<lparr>a_freeset := rs_clear r (a_freeset a)\<rparr>"

definition hasFreeReg :: "assembler \<Rightarrow> bool" where
  "hasFreeReg a \<longleftrightarrow> \<not> rs_isEmpty (a_freeset a)"

definition setHint :: "nat \<Rightarrow> nat \<Rightarrow> assembler \<Rightarrow> assembler" where
  "setHint ref r a = a_updIr ref (ir_setReg (r mod 256 OR RID_NONE)) a"

definition ir_hasRegOrSpill :: "ir \<Rightarrow> bool" where
  "ir_hasRegOrSpill i \<longleftrightarrow> isReg (ir_reg i) \<or> ir_spill i \<noteq> 0"

definition canRemat :: "nat \<Rightarrow> bool" where "canRemat ref \<longleftrightarrow> ref < REF_BIAS"

text \<open>Offsets in \<^verbatim>\<open>ExitState\<close> from \<^verbatim>\<open>hplim\<close>, where the stack pointer points.\<close>

definition HPLIM_SP_OFFS :: nat where "HPLIM_SP_OFFS = 0"
definition SPLIM_SP_OFFS :: nat where "SPLIM_SP_OFFS = 8"
definition F_ID_OFFS :: nat where "F_ID_OFFS = 32"
definition SPILL_SP_OFFS :: nat where "SPILL_SP_OFFS = 40"

definition spillOffset :: "nat \<Rightarrow> u4" where
  "spillOffset spillSlot = of_nat (SPILL_SP_OFFS + 8 * spillSlot)"

definition setupRegAlloc :: "assembler \<Rightarrow> assembler" where
  "setupRegAlloc a =
     a\<lparr>a_freeset := kGPR, a_modset := 0, a_phiset := 0,
       a_cost := (\<lambda>r. if RID_MIN_GPR \<le> r \<and> r < RID_MAX then rc_default else a_cost a r)\<rparr>"

text \<open>The spill slot of an instruction, assigned on first use, as an offset.\<close>

definition spill :: "nat \<Rightarrow> assembler \<Rightarrow> u4 asm_result" where
  "spill ref a =
     (let slot = ir_spill (a_ir a ref)
      in if slot = 0
         then res_bind (ss_alloc (a_spills a)) (\<lambda>(slot, d).
                Inr (spillOffset slot, a_updIr ref (ir_setSpill slot) (a\<lparr>a_spills := d\<rparr>)))
         else Inr (spillOffset slot, a))"

definition rematConstant :: "nat \<Rightarrow> assembler \<Rightarrow> nat asm_result" where
  "rematConstant ref a =
     (let r = ir_reg (a_ir a ref)
      in res_bind (lc_assert (isReg r \<and> ir_spill (a_ir a ref) = 0)) (\<lambda>_.
         let a = a_updIr ref (ir_setReg RID_INIT) (modifiedReg r (freeReg r a))
         in if ir_o (a_ir a ref) = kKINT \<or> ir_o (a_ir a ref) = kKWORD
            then res_bind (ib_literalValue (a_buf a) ref) (\<lambda>k.
                   Inr (r, a_emit (loadi_u64 (of_nat r) k) a))
            else res_bind (lc_assert (ir_o (a_ir a ref) = kKBASEO)) (\<lambda>_.
                   let ofs = ir_op12 (a_ir a ref) * 8
                   in Inr (r, a_emit (emit_rmro XO_LEA (of_nat r OR REX_64) (of_nat RID_BASE) ofs) a))))"

definition restoreReg :: "nat \<Rightarrow> assembler \<Rightarrow> nat asm_result" where
  "restoreReg ref a =
     (if canRemat ref then rematConstant ref a
      else res_bind (spill ref a) (\<lambda>(ofs, a).
           let r = ir_reg (a_ir a ref)
           in res_bind (lc_assert (isReg r)) (\<lambda>_.
              Inr (r, a_emit (load_u64 r RID_ESP ofs) (freeReg r (setHint ref r a))))))"

text \<open>The cheapest register of a set, by a linear search; only general purpose registers.\<close>

definition min_cost :: "u4 \<Rightarrow> (nat \<Rightarrow> u4) \<Rightarrow> u4" where
  "min_cost allow cost =
     fold (\<lambda>r c. if rs_test r kGPR \<and> rs_test r allow \<and> cost r < c then cost r else c)
       [0..<RID_MAX_GPR] rc_maxCost"

definition evictReg :: "u4 \<Rightarrow> assembler \<Rightarrow> nat asm_result" where
  "evictReg allow a =
     res_bind (lc_assert (\<not> rs_isEmpty allow)) (\<lambda>_.
       if allow < push_bit RID_MAX_GPR 1
       then restoreReg (rc_ref (min_cost allow (a_cost a))) a
       else Inl (Exit 13))"

fun evictConstants_loop :: "nat list \<Rightarrow> assembler \<Rightarrow> unit asm_result" where
  "evictConstants_loop [] a = Inr ((), a)"
| "evictConstants_loop (r # work) a =
     (let ref = rc_ref (a_cost a r)
      in res_bind (if canRemat ref \<and> irref_islit ref then rematConstant ref a else Inr (r, a))
           (\<lambda>(_, a). evictConstants_loop work a))"

definition evictConstants :: "assembler \<Rightarrow> unit asm_result" where
  "evictConstants a =
     evictConstants_loop (rs_members (rs_intersect (rs_complement (a_freeset a)) kGPR)) a"

definition allocRef :: "nat \<Rightarrow> u4 \<Rightarrow> assembler \<Rightarrow> nat asm_result" where
  "allocRef ref allow a =
     (let pick = rs_intersect (a_freeset a) allow; hint = ir_reg (a_ir a ref)
      in res_bind (lc_assert (isNoReg hint)) (\<lambda>_.
         res_bind
           (if \<not> rs_isEmpty pick
            then let r = getHint hint
                 in if hasHint hint \<and> rs_test r pick then Inr (r, a)
                    else if hasHint hint \<and> rs_test r allow \<and> canRemat (rc_ref (a_cost a r))
                    then res_bind (rematConstant (rc_ref (a_cost a r)) a) (\<lambda>(_, a). Inr (r, a))
                    else Inr (rs_pickBot pick, a)
            else evictReg allow a)
           (\<lambda>(r, a).
              let a = useReg r (a_updIr ref (ir_setReg r) a)
              in Inr (r, a\<lparr>a_cost := (a_cost a)(r := rc_make ref (ir_t (a_ir a ref)))\<rparr>))))"

definition alloc1 :: "nat \<Rightarrow> u4 \<Rightarrow> assembler \<Rightarrow> nat asm_result" where
  "alloc1 ref allow a =
     (let r = ir_reg (a_ir a ref) in if isNoReg r then allocRef ref allow a else Inr (r, a))"

definition pickReg :: "u4 \<Rightarrow> assembler \<Rightarrow> nat asm_result" where
  "pickReg allow a =
     (let pick = rs_intersect (a_freeset a) allow
      in if rs_isEmpty pick then evictReg allow a else Inr (rs_pickTop pick, a))"

definition allocScratchReg :: "u4 \<Rightarrow> assembler \<Rightarrow> nat asm_result" where
  "allocScratchReg allow a = res_bind (pickReg allow a) (\<lambda>(r, a). Inr (r, modifiedReg r a))"

definition saveReg :: "nat \<Rightarrow> nat \<Rightarrow> assembler \<Rightarrow> assembler" where
  "saveReg ref r a = a_emit (store_u64 RID_ESP (spillOffset (ir_spill (a_ir a ref))) r) a"

definition destReg :: "nat \<Rightarrow> u4 \<Rightarrow> assembler \<Rightarrow> nat asm_result" where
  "destReg ref allow a =
     (let dest = ir_reg (a_ir a ref)
      in res_bind
           (if isReg dest then Inr (dest, modifiedReg dest (freeReg dest a))
            else res_bind
              (if hasHint dest \<and> rs_test (getHint dest) (rs_intersect (a_freeset a) allow)
               then Inr (getHint dest, modifiedReg (getHint dest) a)
               else allocScratchReg allow a)
              (\<lambda>(dest, a). Inr (dest, a_updIr ref (ir_setReg dest) a)))
           (\<lambda>(dest, a).
              Inr (dest, if ir_spill (a_ir a ref) \<noteq> 0 then saveReg ref dest a else a)))"

fun evictSet_loop :: "nat list \<Rightarrow> assembler \<Rightarrow> unit asm_result" where
  "evictSet_loop [] a = Inr ((), a)"
| "evictSet_loop (r # work) a =
     res_bind (restoreReg (rc_ref (a_cost a r)) a) (\<lambda>(_, a). evictSet_loop work a)"

definition evictSet :: "u4 \<Rightarrow> assembler \<Rightarrow> unit asm_result" where
  "evictSet dropped a =
     evictSet_loop
       (rs_members (rs_intersect (rs_intersect dropped (rs_complement (a_freeset a))) kGPR)) a"

definition allocLeft :: "nat \<Rightarrow> nat \<Rightarrow> assembler \<Rightarrow> unit asm_result" where
  "allocLeft dest lref a =
     (let left = ir_reg (a_ir a lref)
      in if \<not> isReg left \<and> irref_islit lref
         then res_bind (rematConstant lref (a_updIr lref (ir_setReg dest) a)) (\<lambda>(_, a). Inr ((), a))
         else res_bind
           (if \<not> isReg left
            then let a = (if \<not> hasHint left then setHint lref dest a else a)
                 in res_bind (lc_assert (dest < RID_MAX_GPR)) (\<lambda>_. allocRef lref kGPR a)
            else Inr (left, a))
           (\<lambda>(left, a). Inr ((), if dest \<noteq> left then a_emit (move dest left) a else a)))"

definition swapOperands :: "nat \<Rightarrow> assembler \<Rightarrow> bool result" where
  "swapOperands ref a =
     (let ins = a_ir a ref; insleft = a_ir a (ir_op1 ins); insright = a_ir a (ir_op2 ins)
      in res_bind (lc_assert (\<not> isReg (ir_reg insright))) (\<lambda>_.
         Inr (if \<not> isCommutative (ir_o ins) then False
              else if irref_islit (ir_op2 ins) then False
              else if isReg (ir_reg insleft) then True
              else sameHint (ir_reg insleft) (ir_reg insright))))"

definition fuseLoad :: "nat \<Rightarrow> u4 \<Rightarrow> assembler \<Rightarrow> nat asm_result" where
  "fuseLoad ref allow a =
     (if isReg (ir_reg (a_ir a ref))
      then if \<not> rs_isEmpty allow then Inr (ir_reg (a_ir a ref), a)
           else res_bind (spill ref (a\<lparr>a_mrm := (a_mrm a)\<lparr>mrm_base := RID_ESP\<rparr>\<rparr>)) (\<lambda>(ofs, a).
                Inr (RID_MRM, a\<lparr>a_mrm := (a_mrm a)\<lparr>mrm_ofs := ofs, mrm_idx := RID_NONE\<rparr>\<rparr>))
      else allocRef ref allow a)"

text \<open>The literal when it fits in 32 signed bits.\<close>

definition is32BitLiteral :: "nat \<Rightarrow> assembler \<Rightarrow> u4 option result" where
  "is32BitLiteral ref a =
     (if irref_islit ref \<and> ir_o (a_ir a ref) \<noteq> kKBASEO
      then res_bind (ib_literalValue (a_buf a) ref) (\<lambda>k64.
             Inr (if checki32 k64 then Some (ucast k64) else None))
      else Inr None)"

definition snapshotAlloc1 :: "nat \<Rightarrow> assembler \<Rightarrow> unit asm_result" where
  "snapshotAlloc1 ref a =
     (if \<not> ir_hasRegOrSpill (a_ir a ref)
      then if \<not> rs_isEmpty (rs_intersect (a_freeset a) kGPR)
           then res_bind (allocRef ref kGPR a) (\<lambda>(_, a). Inr ((), a))
           else res_bind (spill ref a) (\<lambda>(_, a). Inr ((), a))
      else Inr ((), a))"

fun snapshotAlloc_loop :: "snapshot_data \<Rightarrow> nat list \<Rightarrow> assembler \<Rightarrow> unit asm_result" where
  "snapshotAlloc_loop snapmap [] a = Inr ((), a)"
| "snapshotAlloc_loop snapmap (se # ses) a =
     res_bind (sd_slotRef snapmap se) (\<lambda>ref.
     res_bind (if \<not> irref_islit ref then snapshotAlloc1 ref a else Inr ((), a)) (\<lambda>(_, a).
       snapshotAlloc_loop snapmap ses a))"

definition snapshotAlloc :: "snapshot \<Rightarrow> snapshot_data \<Rightarrow> assembler \<Rightarrow> unit asm_result" where
  "snapshotAlloc snap snapmap a = snapshotAlloc_loop snapmap [sn_begin snap..<sn_end snap] a"

end
