(* ===== verification/AllocCorrect.thy ===== *)
theory AllocCorrect
  imports RegAlloc
begin

text \<open>
  Correctness of the register allocator of theory \<open>RegAlloc\<close>: its invariant \<open>ra_ok\<close>, and the
  effect of the code it emits, stated against the machine of theory \<open>X86\<close>.
\<close>

section \<open>Register sets\<close>

lemma rs_test_bit: "rs_test r s = bit s r"
  by (simp add: rs_test_def bit_iff_odd_drop_bit and_one_eq odd_iff_mod_2_eq_one)

lemma bit_rs_simps:
  "bit (rs_set r s) i \<longleftrightarrow> bit s i \<or> i = r \<and> r < 32"
  "bit (rs_clear r s) i \<longleftrightarrow> bit s i \<and> i \<noteq> r"
  "bit (rs_exclude s r) i \<longleftrightarrow> bit s i \<and> i \<noteq> r"
  "bit (rs_include s r) i \<longleftrightarrow> bit s i \<or> i = r \<and> r < 32"
  "bit (rs_intersect s t) i \<longleftrightarrow> bit s i \<and> bit t i"
  "bit (rs_setunion s t) i \<longleftrightarrow> bit s i \<or> bit t i"
  "bit (rs_complement s) i \<longleftrightarrow> i < 32 \<and> \<not> bit s i"
  "bit (rs_fromReg r) i \<longleftrightarrow> i = r \<and> r < 32"
  unfolding rs_set_def rs_clear_def rs_exclude_def rs_include_def rs_intersect_def rs_setunion_def
    rs_complement_def rs_fromReg_def
  by (auto simp: bit_simps bit_imp_le_length dest: bit_imp_le_length)

lemma u4_bit_less: "bit s r \<Longrightarrow> r < 32" for s :: u4
  using bit_imp_le_length [of s r] by simp

lemma rs_isEmpty_iff: "rs_isEmpty s \<longleftrightarrow> (\<forall>r. \<not> bit s r)"
  using u4_bit_less by (auto simp: rs_isEmpty_def bit_eq_iff)

lemma length_takeWhile_upt:
  assumes "\<exists>i < n. P i"
  shows "P (length (takeWhile (\<lambda>i. \<not> P i) [0..<n]))" "length (takeWhile (\<lambda>i. \<not> P i) [0..<n]) < n"
proof -
  let ?k = "length (takeWhile (\<lambda>i. \<not> P i) [0..<n])"
  have k: "?k < length [0..<n]"
  proof (rule ccontr)
    assume "\<not> ?k < length [0..<n]"
    then have "length (takeWhile (\<lambda>i. \<not> P i) [0..<n]) = length [0..<n]"
      using length_takeWhile_le [of "\<lambda>i. \<not> P i" "[0..<n]"] by linarith
    then have "takeWhile (\<lambda>i. \<not> P i) [0..<n] = [0..<n]"
      by (metis takeWhile_eq_take take_all_iff order_refl)
    with assms show False by (auto simp: takeWhile_eq_all_conv)
  qed
  then show "?k < n" by simp
  show "P ?k" using nth_length_takeWhile [OF k] k by simp
qed


lemma pickBot_in: "s \<noteq> 0 \<Longrightarrow> bit s (rs_pickBot s)"
proof -
  assume "s \<noteq> 0"
  then obtain i where "bit s i" using rs_isEmpty_iff [of s] by (auto simp: rs_isEmpty_def)
  then have "\<exists>i < 32. bit s i" using u4_bit_less by blast
  from length_takeWhile_upt(1) [OF this] show ?thesis by (simp add: rs_pickBot_def lc_ffs_def)
qed

lemma lc_ffsl_in: "w \<noteq> 0 \<Longrightarrow> bit w (lc_ffsl w) \<and> lc_ffsl w < 64" for w :: u8
proof -
  assume "w \<noteq> 0"
  then obtain i where "bit w i" by (auto simp: bit_eq_iff)
  then have "\<exists>i < 64. bit w i" using bit_imp_le_length [of w i] by auto
  from length_takeWhile_upt [OF this] show ?thesis by (simp add: lc_ffsl_def)
qed

lemma pickTop_in: "s \<noteq> 0 \<Longrightarrow> bit s (rs_pickTop s)"
proof -
  assume "s \<noteq> 0"
  then obtain i where "bit s i" using rs_isEmpty_iff [of s] by (auto simp: rs_isEmpty_def)
  then have i: "\<exists>i < 32. bit s (31 - i)" using u4_bit_less [of s i] by (intro exI [of _ "31 - i"]) auto
  have r: "rev [0..<32] = map (\<lambda>i. 31 - i) [0..<32]"
    by (rule nth_equalityI) (auto simp: rev_nth)
  have "length (takeWhile (\<lambda>i. \<not> bit s i) (rev [0..<32])) =
      length (takeWhile (\<lambda>i. \<not> bit s (31 - i)) [0..<32])"
    by (simp only: r takeWhile_map length_map o_def)
  with length_takeWhile_upt [OF i] show ?thesis by (simp add: rs_pickTop_def lc_fls_def)
qed

lemma kGPR_val: "kGPR = 0xefcf"
  by (simp add: kGPR_def rid_defs rs_exclude_def rs_range_def)

lemma bit_kGPR: "bit kGPR r \<longleftrightarrow> r < 16 \<and> r \<noteq> 4 \<and> r \<noteq> 5 \<and> r \<noteq> 12"
proof -
  have "bit kGPR r \<longleftrightarrow> r < 16 \<and> \<not> (r = 4 \<or> r = 5 \<or> r = 12)"
  proof -
    have "rs_range RID_MIN_GPR RID_MAX_GPR = mask 16"
      by (simp add: rs_range_def rid_defs mask_eq_exp_minus_1)
    then show ?thesis by (auto simp: kGPR_def rid_defs bit_rs_simps bit_mask_iff)
  qed
  then show ?thesis by blast
qed

lemma isReg_small: "r < 16 \<Longrightarrow> isReg r" for r :: nat
  using small_cases [of r] by (auto simp: isReg_def rid_defs)

lemma isNoReg_iff: "isNoReg r \<longleftrightarrow> \<not> isReg r"
  by (simp add: isReg_def isNoReg_def)

lemma isReg_less: "r < 128 \<Longrightarrow> isReg r" for r :: nat
proof -
  assume "r < 128"
  then have "\<not> bit r 7" by (simp add: bit_iff_odd)
  then show ?thesis by (simp add: isReg_def RID_NONE_def and_exp_eq_0_iff_not_bit [of r 7, simplified])
qed

lemma not_isReg_RID_INIT: "\<not> isReg RID_INIT"
  by (simp add: isReg_def rid_defs)

lemma not_isReg_hint: "\<not> isReg (r OR RID_NONE)"
proof -
  have "bit (r OR RID_NONE) 7" by (simp add: bit_simps RID_NONE_def)
  then show ?thesis by (simp add: isReg_def RID_NONE_def and_exp_eq_0_iff_not_bit [of _ 7, simplified])
qed

lemma rc_ref_make: "rc_ref (rc_make ref t) = ref mod 65536"
proof -
  define r :: u4 where "r = of_nat (ref mod 65536)"
  define c :: u4 where "c = ucast (t AND IRT_ISPHI)"
  have c: "c = 0 \<or> c = 0x40"
  proof -
    have "t AND IRT_ISPHI = 0 \<or> t AND IRT_ISPHI = 0x40"
    proof -
      have "t AND push_bit n 1 = (if bit t n then push_bit n 1 else 0)" for n
        by (rule bit_word_eqI) (auto simp: bit_simps)
      from this [of 6] show ?thesis by (simp add: IRT_ISPHI_def split: if_splits)
    qed
    then show ?thesis by (auto simp: c_def)
  qed
  have k: "push_bit 16 kPhiWeight div ucast IRT_ISPHI = (0x10000 :: u4)"
    by (simp add: kPhiWeight_def IRT_ISPHI_def)
  have "rc_make ref t = push_bit 16 r + r + c * 0x10000"
    unfolding rc_make_def Let_def k r_def c_def by simp
  then have "rc_make ref t = r + 65536 * (r + c)"
    by (simp add: push_bit_eq_mult algebra_simps)
  then obtain x where "rc_make ref t = r + 65536 * x" by blast
  then have "unat (rc_make ref t) mod 65536 = (unat r + (65536 * unat x) mod 2 ^ 32) mod 2 ^ 32 mod 65536"
    by (simp add: unat_word_ariths)
  also have "\<dots> = (unat r + (65536 * unat x) mod 2 ^ 32) mod 65536"
    by (rule mod_mod_cancel) simp
  also have "\<dots> = (unat r + (65536 * unat x) mod 2 ^ 32 mod 65536) mod 65536"
    by (simp only: mod_add_right_eq)
  also have "(65536 * unat x) mod 2 ^ 32 mod 65536 = 65536 * unat x mod 65536"
    by (rule mod_mod_cancel) simp
  also have "(unat r + 65536 * unat x mod 65536) mod 65536 = ref mod 65536"
    by (simp add: r_def unat_of_nat)
  finally show ?thesis by (simp add: rc_ref_def)
qed


section \<open>Spill slots\<close>

definition slot_avail :: "u8 list \<Rightarrow> nat \<Rightarrow> bool" where
  "slot_avail d slot \<longleftrightarrow> slot < 256 \<and> bit (d ! (slot div 64)) (slot mod 64)"

definition ss_wf :: "u8 list \<Rightarrow> bool" where
  "ss_wf d \<longleftrightarrow> length d = 4 \<and> \<not> slot_avail d 0"

lemma slot_word: "slot < 256 \<Longrightarrow> slot div 64 \<in> {0, 1, 2, 3}" for slot :: nat
proof -
  assume "slot < 256"
  then have "slot div 64 < 4" using less_mult_imp_div_less [of slot 4 64] by simp
  then show ?thesis by auto
qed

lemma ss_reset_wf: "ss_wf ss_reset" "0 < slot \<Longrightarrow> slot < 256 \<Longrightarrow> slot_avail ss_reset slot"
proof -
  show "ss_wf ss_reset" by (simp add: ss_wf_def slot_avail_def ss_reset_def bit_simps)
  assume s: "0 < slot" "slot < 256"
  have m: "slot mod 64 < 64" by simp
  have ones: "bit (NOT 0 :: u8) (slot mod 64)" using m by (simp only: bit_simps) simp
  show "slot_avail ss_reset slot"
  proof (cases "slot div 64 = 0")
    case True
    then have "slot mod 64 \<noteq> 0" using s(1) div_mult_mod_eq [of slot 64] by auto
    then have "bit (NOT 1 :: u8) (slot mod 64)" using m by (simp only: bit_simps) simp
    then show ?thesis using True s by (simp add: slot_avail_def ss_reset_def)
  next
    case False
    then show ?thesis using slot_word [OF s(2)] ones s by (auto simp: slot_avail_def ss_reset_def)
  qed
qed

lemma flip_slot:
  assumes "i < 4" "length d = 4" "b < 64" "bit (d ! i) b"
  shows "slot_avail (d[i := d ! i XOR push_bit b 1]) s \<longleftrightarrow> slot_avail d s \<and> s \<noteq> i * 64 + b"
proof (cases "s div 64 = i")
  case True
  then have "s = i * 64 + s mod 64" using div_mult_mod_eq [of s 64] by simp
  then have "s = i * 64 + b \<longleftrightarrow> s mod 64 = b" using assms(3) by auto
  then show ?thesis using True assms by (auto simp: slot_avail_def bit_simps)
next
  case False
  then have "s \<noteq> i * 64 + b" using assms(3) by auto
  then show ?thesis using False by (simp add: slot_avail_def)
qed

lemma ss_allocHigh_loop:
  assumes "ss_allocHigh_loop is d = Inr (slot, d')" and "set is \<subseteq> {1, 2, 3}" and "length d = 4"
  shows "slot_avail d slot \<and> (\<forall>s. slot_avail d' s \<longleftrightarrow> slot_avail d s \<and> s \<noteq> slot) \<and> length d' = 4"
  using assms
proof (induction "is" arbitrary: d)
  case (Cons i js)
  show ?case
  proof (cases "d ! i = 0")
    case False
    from lc_ffsl_in [OF False] have b: "bit (d ! i) (lc_ffsl (d ! i))" "lc_ffsl (d ! i) < 64" by auto
    have r: "slot = i * 64 + lc_ffsl (d ! i)" "d' = d[i := d ! i XOR push_bit (lc_ffsl (d ! i)) 1]"
      using Cons.prems(1) False by (auto simp: Let_def)
    have i: "i < 4" using Cons.prems(2) by auto
    have "slot < 256" "slot div 64 = i" "slot mod 64 = lc_ffsl (d ! i)" using r(1) b(2) i by auto
    then show ?thesis
      using flip_slot [OF i Cons.prems(3) b(2,1)] b Cons.prems(3) by (simp add: r slot_avail_def)
  qed (use Cons in \<open>auto simp: Let_def\<close>)
qed simp

lemma ss_allocSpillHigh_Inr:
  assumes "ss_allocSpillHigh d = Inr (slot, d')" and "length d = 4"
  shows "slot_avail d slot \<and> (\<forall>s. slot_avail d' s \<longleftrightarrow> slot_avail d s \<and> s \<noteq> slot) \<and> length d' = 4"
proof (rule ss_allocHigh_loop)
  show "ss_allocHigh_loop [1..<4] d = Inr (slot, d')"
    using assms(1) by (simp only: ss_allocSpillHigh_def)
qed (use assms(2) in auto)

text \<open>\<^verbatim>\<open>alloc\<close> takes an available slot, never slot 0, and fails only when there is none.\<close>

lemma ss_alloc_Inr:
  assumes "ss_alloc d = Inr (slot, d')" and "ss_wf d"
  shows "slot_avail d slot \<and> slot \<noteq> 0 \<and> slot < 256 \<and> ss_wf d' \<and>
    (\<forall>s. slot_avail d' s \<longleftrightarrow> slot_avail d s \<and> s \<noteq> slot)"
proof -
  have len: "length d = 4" using assms(2) by (simp add: ss_wf_def)
  have "slot_avail d slot \<and> (\<forall>s. slot_avail d' s \<longleftrightarrow> slot_avail d s \<and> s \<noteq> slot) \<and> length d' = 4"
  proof (cases "d ! 0 = 0")
    case True
    then have "ss_allocSpillHigh d = Inr (slot, d')" using assms(1) by (simp add: ss_alloc_def)
    then show ?thesis by (rule ss_allocSpillHigh_Inr [OF _ len])
  next
    case False
    from lc_ffsl_in [OF False] have b: "bit (d ! 0) (lc_ffsl (d ! 0))" "lc_ffsl (d ! 0) < 64" by auto
    have "slot = lc_ffsl (d ! 0)" "d' = d[0 := d ! 0 XOR push_bit (lc_ffsl (d ! 0)) 1]"
      using assms(1) False by (auto simp: ss_alloc_def Let_def)
    then show ?thesis using flip_slot [of 0 d "lc_ffsl (d ! 0)"] b len by (simp add: slot_avail_def)
  qed
  moreover from this have "slot \<noteq> 0" using assms(2) unfolding ss_wf_def by metis
  moreover have "slot_avail d slot \<Longrightarrow> slot < 256" by (simp only: slot_avail_def)
  ultimately show ?thesis using assms(2) unfolding ss_wf_def by metis
qed

lemma ss_allocHigh_fails:
  "ss_allocHigh_loop is d = Inl err \<Longrightarrow> err = Exit 1 \<and> (\<forall>i \<in> set is. d ! i = 0)"
  by (induction "is") (auto simp: Let_def split: if_splits)

lemma ss_allocSpillHigh_Inl:
  assumes "ss_allocSpillHigh d = Inl err"
  shows "err = Exit 1 \<and> (\<forall>i \<in> {1, 2, 3}. d ! i = 0)"
proof -
  have "set [1..<4] = {1, 2, 3 :: nat}" by auto
  then show ?thesis
    using ss_allocHigh_fails [OF assms [unfolded ss_allocSpillHigh_def]] by metis
qed

lemma ss_alloc_Inl:
  assumes "ss_alloc d = Inl err"
  shows "err = Exit 1 \<and> \<not> slot_avail d s"
proof -
  have z: "d ! 0 = 0"
    using assms unfolding ss_alloc_def Let_def by (cases "d ! 0 = 0") simp_all
  with assms have "ss_allocSpillHigh d = Inl err" by (simp add: ss_alloc_def)
  from ss_allocSpillHigh_Inl [OF this] have e: "err = Exit 1" and h: "\<forall>i \<in> {1, 2, 3}. d ! i = 0"
    by blast+
  have "d ! (s div 64) = 0" if "s < 256" using slot_word [OF that] z h by auto
  then show ?thesis using e by (auto simp: slot_avail_def)
qed

section \<open>The invariant\<close>

text \<open>
  While code is generated backwards, the live references are the literals and the instructions
  below \<open>lim\<close>.
\<close>

abbreviation reg_of :: "assembler \<Rightarrow> nat \<Rightarrow> nat" where "reg_of a ref \<equiv> ir_reg (a_ir a ref)"
abbreviation slot_of :: "assembler \<Rightarrow> nat \<Rightarrow> nat" where "slot_of a ref \<equiv> ir_spill (a_ir a ref)"

definition ra_live :: "nat \<Rightarrow> assembler \<Rightarrow> nat \<Rightarrow> bool" where
  "ra_live lim a ref \<longleftrightarrow> ib_bufmin (a_buf a) \<le> ref \<and> ref < lim"

text \<open>A literal the allocator can load.\<close>

definition value_lit :: "irbuffer \<Rightarrow> nat \<Rightarrow> bool" where
  "value_lit b ref \<longleftrightarrow>
     (ir_o (ib_buffer b ref) = kKINT \<or> ir_o (ib_buffer b ref) = kKWORD) \<and>
       (\<exists>k. ib_literalValue b ref = Inr k)
     \<or> ir_o (ib_buffer b ref) = kKBASEO"

definition regs_ok :: "nat \<Rightarrow> assembler \<Rightarrow> bool" where
  "regs_ok lim a \<longleftrightarrow>
     (\<forall>r. bit (a_freeset a) r \<longrightarrow> bit kGPR r) \<and>
     (\<forall>ref. ra_live lim a ref \<and> isReg (reg_of a ref) \<longrightarrow>
        bit kGPR (reg_of a ref) \<and> \<not> bit (a_freeset a) (reg_of a ref) \<and>
        rc_ref (a_cost a (reg_of a ref)) = ref) \<and>
     (\<forall>r. bit kGPR r \<and> \<not> bit (a_freeset a) r \<longrightarrow>
        ra_live lim a (rc_ref (a_cost a r)) \<and> reg_of a (rc_ref (a_cost a r)) = r)"

definition lits_alloc_ok :: "nat \<Rightarrow> assembler \<Rightarrow> bool" where
  "lits_alloc_ok lim a \<longleftrightarrow>
     (\<forall>ref. ra_live lim a ref \<and> ref < REF_BIAS \<longrightarrow>
        slot_of a ref = 0 \<and> (isReg (reg_of a ref) \<longrightarrow> value_lit (a_buf a) ref))"

text \<open>Only inherited slots may be shared by two references.\<close>

definition slots_ok :: "nat \<Rightarrow> assembler \<Rightarrow> bool" where
  "slots_ok lim a \<longleftrightarrow> ss_wf (a_spills a) \<and>
     (\<forall>ref. ra_live lim a ref \<longrightarrow> slot_of a ref < 256 \<and> \<not> slot_avail (a_spills a) (slot_of a ref)) \<and>
     (\<forall>ref ref'. ra_live lim a ref \<and> ra_live lim a ref' \<and> ref \<noteq> ref' \<and>
        slot_of a ref = slot_of a ref' \<and> slot_of a ref \<noteq> 0 \<longrightarrow>
        ref < a_stopins a \<and> ref' < a_stopins a)"

definition ra_ok :: "nat \<Rightarrow> assembler \<Rightarrow> bool" where
  "ra_ok lim a \<longleftrightarrow>
     REF_BIAS \<le> lim \<and> lim < 65536 \<and> regs_ok lim a \<and> lits_alloc_ok lim a \<and> slots_ok lim a"

lemma ra_okD:
  assumes "ra_ok lim a"
  shows "REF_BIAS \<le> lim" "lim < 65536" "regs_ok lim a" "lits_alloc_ok lim a" "slots_ok lim a"
  using assms by (simp_all add: ra_ok_def)

lemma regs_okD:
  assumes "regs_ok lim a"
  shows "bit (a_freeset a) r \<Longrightarrow> bit kGPR r"
    and "ra_live lim a ref \<Longrightarrow> isReg (reg_of a ref) \<Longrightarrow> bit kGPR (reg_of a ref)"
    and "ra_live lim a ref \<Longrightarrow> isReg (reg_of a ref) \<Longrightarrow> \<not> bit (a_freeset a) (reg_of a ref)"
    and "ra_live lim a ref \<Longrightarrow> isReg (reg_of a ref) \<Longrightarrow> rc_ref (a_cost a (reg_of a ref)) = ref"
    and "bit kGPR r \<Longrightarrow> \<not> bit (a_freeset a) r \<Longrightarrow> ra_live lim a (rc_ref (a_cost a r))"
    and "bit kGPR r \<Longrightarrow> \<not> bit (a_freeset a) r \<Longrightarrow> reg_of a (rc_ref (a_cost a r)) = r"
  using assms unfolding regs_ok_def by blast+

text \<open>Two live references never share a register.\<close>

lemma reg_injective:
  assumes "regs_ok lim a" and "ra_live lim a ref" and "ra_live lim a ref'"
    and "isReg (reg_of a ref)" and "reg_of a ref = reg_of a ref'"
  shows "ref = ref'"
  using regs_okD(4) [OF assms(1)] assms(2-5) by metis

section \<open>Agreement with a machine state\<close>

text \<open>
  What the code of a trace keeps: the stack pointer, the base and the heap pointer, and the memory
  outside the spill area of \<^verbatim>\<open>ExitState\<close>.
\<close>

record kctx =
  kc_sp :: u8
  kc_base :: u8
  kc_hp :: u8
  kc_mem :: "u8 \<Rightarrow> u1"

definition slot_addr :: "kctx \<Rightarrow> nat \<Rightarrow> u8" where
  "slot_addr K slot = kc_sp K + scast (spillOffset slot)"

definition spill_area :: "kctx \<Rightarrow> u8 \<Rightarrow> bool" where
  "spill_area K addr \<longleftrightarrow> unat (addr - slot_addr K 0) < 2048"

definition ctx_ok :: "kctx \<Rightarrow> xstate \<Rightarrow> bool" where
  "ctx_ok K s \<longleftrightarrow>
     x_reg s RID_ESP = kc_sp K \<and> x_reg s RID_BASE = kc_base K \<and> x_reg s RID_HP = kc_hp K \<and>
     (\<forall>addr. \<not> spill_area K addr \<longrightarrow> x_mem s addr = kc_mem K addr)"

definition agree :: "(nat \<Rightarrow> u8) \<Rightarrow> kctx \<Rightarrow> nat \<Rightarrow> assembler \<Rightarrow> xstate \<Rightarrow> bool" where
  "agree v K lim a s \<longleftrightarrow> ctx_ok K s \<and>
     (\<forall>ref. ra_live lim a ref \<longrightarrow>
        (isReg (reg_of a ref) \<longrightarrow> x_reg s (reg_of a ref) = v ref) \<and>
        (slot_of a ref \<noteq> 0 \<longrightarrow> rd64 (x_mem s) (slot_addr K (slot_of a ref)) = v ref))"

text \<open>The valuation gives the literals their values; \<open>KBASEO\<close> is relative to the base.\<close>

definition lits_ok :: "(nat \<Rightarrow> u8) \<Rightarrow> kctx \<Rightarrow> irbuffer \<Rightarrow> bool" where
  "lits_ok v K b \<longleftrightarrow>
     (\<forall>ref. ib_bufmin b \<le> ref \<and> ref < REF_BIAS \<longrightarrow>
        (ir_o (ib_buffer b ref) = kKINT \<or> ir_o (ib_buffer b ref) = kKWORD \<longrightarrow>
           (\<forall>k. ib_literalValue b ref = Inr k \<longrightarrow> v ref = k)) \<and>
        (ir_o (ib_buffer b ref) = kKBASEO \<longrightarrow>
           v ref = kc_base K + scast (ir_op12 (ib_buffer b ref) * 8)))"

text \<open>What allocation leaves alone: everything but the register and spill fields of the buffer.\<close>

definition same_ir :: "assembler \<Rightarrow> assembler \<Rightarrow> bool" where
  "same_ir a a' \<longleftrightarrow>
     a_buf a' = (a_buf a)\<lparr>ib_buffer := ib_buffer (a_buf a')\<rparr> \<and>
     (\<forall>ref. (ib_buffer (a_buf a') ref)\<lparr>ir_prev := 0\<rparr> = (ib_buffer (a_buf a) ref)\<lparr>ir_prev := 0\<rparr>) \<and>
     a_mcend a' = a_mcend a \<and> a_stopins a' = a_stopins a \<and> a_snapno a' = a_snapno a \<and>
     a_jit a' = a_jit a \<and> a_curins a' = a_curins a \<and> a_nins a' = a_nins a"

lemma same_ir_refl [simp]: "same_ir a a"
  by (simp add: same_ir_def)

lemma same_ir_trans [trans]: "same_ir a b \<Longrightarrow> same_ir b c \<Longrightarrow> same_ir a c"
proof -
  assume 1: "same_ir a b" and 2: "same_ir b c"
  have "a_buf c = (a_buf b)\<lparr>ib_buffer := ib_buffer (a_buf c)\<rparr>" using 2 by (simp add: same_ir_def)
  also have "\<dots> = (a_buf a)\<lparr>ib_buffer := ib_buffer (a_buf c)\<rparr>"
    using 1 unfolding same_ir_def by (metis irbuffer.surjective irbuffer.update_convs(2))
  finally show ?thesis using 1 2 by (simp add: same_ir_def)
qed

lemma same_ir_fields:
  assumes "same_ir a a'"
  shows "ir_o (a_ir a' ref) = ir_o (a_ir a ref)" "ir_t (a_ir a' ref) = ir_t (a_ir a ref)"
    "ir_op1 (a_ir a' ref) = ir_op1 (a_ir a ref)" "ir_op2 (a_ir a' ref) = ir_op2 (a_ir a ref)"
    "ir_op12 (a_ir a' ref) = ir_op12 (a_ir a ref)"
    "ib_bufmin (a_buf a') = ib_bufmin (a_buf a)" "ib_bufmax (a_buf a') = ib_bufmax (a_buf a)"
    "ra_live lim a' = ra_live lim a"
proof -
  have e: "(a_ir a' ref)\<lparr>ir_prev := 0\<rparr> = (a_ir a ref)\<lparr>ir_prev := 0\<rparr>" for ref
    using assms by (simp add: same_ir_def a_ir_def)
  show f: "ir_o (a_ir a' ref) = ir_o (a_ir a ref)" "ir_t (a_ir a' ref) = ir_t (a_ir a ref)"
    "ir_op1 (a_ir a' ref) = ir_op1 (a_ir a ref)" "ir_op2 (a_ir a' ref) = ir_op2 (a_ir a ref)"
    using e [of ref] by (metis ir.select_convs ir.surjective ir.update_convs(5))+
  show "ir_op12 (a_ir a' ref) = ir_op12 (a_ir a ref)" by (simp add: ir_op12_def f)
  have "a_buf a' = (a_buf a)\<lparr>ib_buffer := ib_buffer (a_buf a')\<rparr>" using assms by (simp add: same_ir_def)
  then show b: "ib_bufmin (a_buf a') = ib_bufmin (a_buf a)" "ib_bufmax (a_buf a') = ib_bufmax (a_buf a)"
    by (metis irbuffer.select_convs irbuffer.surjective irbuffer.update_convs(2))+
  show "ra_live lim a' = ra_live lim a" by (simp add: fun_eq_iff ra_live_def b)
qed

lemma same_ir_literal:
  assumes "same_ir a a'"
  shows "ib_literalValue (a_buf a') ref = ib_literalValue (a_buf a) ref"
proof -
  have ir: "ib_ir (a_buf a') r = res_bind (ib_ir (a_buf a) r) (\<lambda>_. Inr (a_ir a' r))" for r
    by (simp add: ib_ir_def a_ir_def same_ir_fields [OF assms] lc_assert_def)
  have sl: "ib_slots (a_buf a') = ib_slots (a_buf a)"
    using assms unfolding same_ir_def
    by (metis irbuffer.select_convs(11) irbuffer.surjective irbuffer.update_convs(2))
  have ty: "ir_type (a_ir a' r) = ir_type (a_ir a r)" for r
    by (simp add: ir_type_def same_ir_fields [OF assms])
  show ?thesis
    unfolding ib_literalValue_def ir sl
    by (simp add: ib_ir_def lc_assert_def flip: a_ir_def) (simp add: same_ir_fields [OF assms] ty)
qed

lemma same_ir_value_lit: "same_ir a a' \<Longrightarrow> value_lit (a_buf a') = value_lit (a_buf a)"
  by (rule ext) (simp add: value_lit_def same_ir_literal same_ir_fields(1) flip: a_ir_def)

lemma same_ir_lits_ok: "same_ir a a' \<Longrightarrow> lits_ok v K (a_buf a') = lits_ok v K (a_buf a)"
  by (simp add: lits_ok_def same_ir_literal same_ir_fields flip: a_ir_def)

section \<open>Elementary updates\<close>

lemma a_ir_updIr: "a_ir (a_updIr ref f a) r = (if r = ref then f (a_ir a ref) else a_ir a r)"
  by (simp add: a_ir_def a_updIr_def)

lemma a_updIr_fields [simp]:
  "a_mc (a_updIr ref f a) = a_mc a" "a_mcend (a_updIr ref f a) = a_mcend a"
  "a_freeset (a_updIr ref f a) = a_freeset a" "a_cost (a_updIr ref f a) = a_cost a"
  "a_spills (a_updIr ref f a) = a_spills a" "a_stopins (a_updIr ref f a) = a_stopins a"
  "a_mrm (a_updIr ref f a) = a_mrm a" "a_snapno (a_updIr ref f a) = a_snapno a"
  by (simp_all add: a_updIr_def)

lemma a_emit_fields [simp]:
  "a_mc (a_emit f a) = f (a_mc a)" "a_mcend (a_emit f a) = a_mcend a"
  "a_freeset (a_emit f a) = a_freeset a" "a_cost (a_emit f a) = a_cost a"
  "a_spills (a_emit f a) = a_spills a" "a_stopins (a_emit f a) = a_stopins a"
  "a_ir (a_emit f a) = a_ir a" "a_buf (a_emit f a) = a_buf a" "a_mrm (a_emit f a) = a_mrm a"
  by (simp_all add: a_emit_def a_ir_def fun_eq_iff)

lemma reg_ops_fields [simp]:
  "a_mc (freeReg r a) = a_mc a" "a_mc (modifiedReg r a) = a_mc a" "a_mc (useReg r a) = a_mc a"
  "a_mcend (freeReg r a) = a_mcend a" "a_mcend (modifiedReg r a) = a_mcend a" "a_mcend (useReg r a) = a_mcend a"
  "a_ir (freeReg r a) = a_ir a" "a_ir (modifiedReg r a) = a_ir a" "a_ir (useReg r a) = a_ir a"
  "a_buf (freeReg r a) = a_buf a" "a_buf (modifiedReg r a) = a_buf a" "a_buf (useReg r a) = a_buf a"
  "a_cost (freeReg r a) = a_cost a" "a_cost (modifiedReg r a) = a_cost a" "a_cost (useReg r a) = a_cost a"
  "a_spills (freeReg r a) = a_spills a" "a_spills (modifiedReg r a) = a_spills a" "a_spills (useReg r a) = a_spills a"
  "a_stopins (freeReg r a) = a_stopins a" "a_stopins (modifiedReg r a) = a_stopins a" "a_stopins (useReg r a) = a_stopins a"
  "a_freeset (freeReg r a) = rs_set r (a_freeset a)" "a_freeset (modifiedReg r a) = a_freeset a"
  "a_freeset (useReg r a) = rs_clear r (a_freeset a)"
  by (simp_all add: freeReg_def modifiedReg_def useReg_def a_ir_def fun_eq_iff)

definition prev_only :: "(ir \<Rightarrow> ir) \<Rightarrow> bool" where
  "prev_only f \<longleftrightarrow> (\<forall>i. (f i)\<lparr>ir_prev := 0\<rparr> = i\<lparr>ir_prev := 0\<rparr>)"

lemma prev_only [simp]: "prev_only (ir_setReg r)" "prev_only (ir_setSpill s)" "prev_only (ir_setPrev p)"
  by (simp_all add: prev_only_def ir_setReg_def ir_setSpill_def ir_setPrev_def)

lemma same_ir_updates [simp]:
  "prev_only f \<Longrightarrow> same_ir a (a_updIr ref f a)" "same_ir a (a_emit g a)" "same_ir a (freeReg r a)"
  "same_ir a (modifiedReg r a)" "same_ir a (useReg r a)"
  "same_ir a (a\<lparr>a_cost := c\<rparr>)" "same_ir a (a\<lparr>a_spills := d\<rparr>)" "same_ir a (a\<lparr>a_mrm := m\<rparr>)"
  by (simp_all add: same_ir_def prev_only_def a_updIr_def a_emit_def freeReg_def modifiedReg_def
      useReg_def a_ir_def)

lemma ir_reg_less [simp]: "ir_reg i < 256"
  by (simp add: ir_reg_def)

lemma ir_set_fields [simp]:
  "r < 256 \<Longrightarrow> ir_reg (ir_setReg r i) = r" "ir_spill (ir_setReg r i) = ir_spill i"
  "s < 256 \<Longrightarrow> ir_spill (ir_setSpill s i) = s" "ir_reg (ir_setSpill s i) = ir_reg i"
  by (simp_all add: ir_setReg_def ir_setSpill_def ir_reg_def ir_spill_def)

section \<open>The code of the allocator\<close>

text \<open>
  Between two states of the tables: from a machine state that agrees with the later tables, the
  emitted code leads to one that agrees with the earlier.  It changes only registers of \<open>allow\<close>
  that were in use before.
\<close>

definition alloc_code ::
    "(nat \<Rightarrow> u8) \<Rightarrow> kctx \<Rightarrow> nat \<Rightarrow> u4 \<Rightarrow> assembler \<Rightarrow> assembler \<Rightarrow> bool" where
  "alloc_code v K lim allow a a' \<longleftrightarrow>
     (\<forall>s. agree v K lim a' s \<longrightarrow>
        (\<exists>s'. agree v K lim a s' \<and> xrun (a_mcend a) (a_mc a') s = xrun (a_mcend a) (a_mc a) s' \<and>
           x_mem s' = x_mem s \<and> x_flags s' = x_flags s \<and>
           (\<forall>r. bit (a_freeset a) r \<or> \<not> bit allow r \<longrightarrow> x_reg s' r = x_reg s r)))"

lemma gpr_less: "bit kGPR r \<Longrightarrow> r < 16"
  by (simp add: bit_kGPR)

lemma gpr_fixed: "bit kGPR r \<Longrightarrow> r \<noteq> RID_ESP \<and> r \<noteq> RID_BASE \<and> r \<noteq> RID_HP"
  by (simp add: bit_kGPR rid_defs)

lemma ctx_ok_set:
  assumes "ctx_ok K s" and "bit kGPR r"
  shows "ctx_ok K (x_set r x s)"
  using assms gpr_fixed [OF assms(2)] by (simp add: ctx_ok_def x_set_def)

text \<open>A literal is loaded into the register it had.\<close>

lemma rematConstant_exact:
  assumes "value_lit (a_buf a) ref" and "isReg (reg_of a ref)" and "slot_of a ref = 0"
    and "lits_ok v K (a_buf a)" and "ib_bufmin (a_buf a) \<le> ref" and "ref < REF_BIAS"
    and "reg_of a ref < 16"
  obtains f where
    "rematConstant ref a = Inr (reg_of a ref,
       a_emit f (a_updIr ref (ir_setReg RID_INIT) (modifiedReg (reg_of a ref) (freeReg (reg_of a ref) a))))"
    "\<And>e c s. x_reg s RID_BASE = kc_base K \<Longrightarrow> xrun e (f c) s = xrun e c (x_set (reg_of a ref) (v ref) s)"
proof -
  define r where "r = reg_of a ref"
  define a1 where "a1 = a_updIr ref (ir_setReg RID_INIT) (modifiedReg r (freeReg r a))"
  have same: "same_ir a a1" unfolding a1_def
    by (rule same_ir_trans [OF same_ir_trans [OF same_ir_updates(3) same_ir_updates(4)] same_ir_updates(1)]) simp
  have o1: "ir_o (a_ir a1 ref) = ir_o (a_ir a ref)" by (rule same_ir_fields(1) [OF same])
  show ?thesis
  proof (cases "ir_o (a_ir a ref) = kKBASEO")
    case True
    let ?f = "emit_rmro XO_LEA (of_nat r OR REX_64) (of_nat RID_BASE) (ir_op12 (a_ir a ref) * 8)"
    have v: "v ref = kc_base K + scast (ir_op12 (a_ir a ref) * 8)"
      using assms(4-6) True by (simp add: lits_ok_def a_ir_def)
    have "decode (?f c) = Some (XLea True r (Rm_mem (Some RID_BASE) None (scast (ir_op12 (a_ir a ref) * 8))), c)" for c
      using emits_rmro_base [OF opcodes(4), of r RID_BASE "ir_op12 (a_ir a ref) * 8" c] assms(7)
      by (auto simp: r_def rid_defs emits_operand_def decode_rex_def decode_op_def or.commute)
    then have "xrun e (?f c) s = xrun e c (x_set r (v ref) s)" if "x_reg s RID_BASE = kc_base K" for e c s
      by (simp add: xrun_next x_trunc_def that v)
    moreover have "rematConstant ref a = Inr (r, a_emit ?f a1)"
      using True assms(2,3) o1 same_ir_fields(5) [OF same, of ref]
      by (simp add: rematConstant_def lc_assert_def a1_def r_def Let_def)
    ultimately show ?thesis using that by (simp add: r_def a1_def)
  next
    case False
    with assms(1) obtain k where k: "ib_literalValue (a_buf a) ref = Inr k"
        and o: "ir_o (a_ir a ref) = kKINT \<or> ir_o (a_ir a ref) = kKWORD"
      by (auto simp: value_lit_def a_ir_def)
    then have v: "v ref = k" using assms(4-6) by (auto simp: lits_ok_def a_ir_def)
    have "xrun e (loadi_u64 (of_nat r) k c) s = xrun e c (x_set r (v ref) s)" for e c s
      using assms(7) by (simp add: run_loadi r_def v)
    moreover have "rematConstant ref a = Inr (r, a_emit (loadi_u64 (of_nat r) k) a1)"
      using o assms(2,3) o1 same_ir_literal [OF same, of ref] k
      by (simp add: rematConstant_def lc_assert_def a1_def r_def Let_def)
    ultimately show ?thesis using that by (simp add: r_def a1_def)
  qed
qed

section \<open>Releasing a register\<close>

lemma agreeD:
  assumes "agree v K lim a s"
  shows "ctx_ok K s"
    and "ra_live lim a ref \<Longrightarrow> isReg (reg_of a ref) \<Longrightarrow> x_reg s (reg_of a ref) = v ref"
    and "ra_live lim a ref \<Longrightarrow> slot_of a ref \<noteq> 0 \<Longrightarrow>
      rd64 (x_mem s) (slot_addr K (slot_of a ref)) = v ref"
  using assms by (simp_all add: agree_def)

lemma regs_ok_release:
  assumes ok: "regs_ok lim a" and live: "ra_live lim a ref" "isReg (reg_of a ref)"
    and a': "a_freeset a' = rs_set (reg_of a ref) (a_freeset a)" "a_cost a' = a_cost a"
      "\<not> isReg (reg_of a' ref)" "\<And>x. x \<noteq> ref \<Longrightarrow> reg_of a' x = reg_of a x"
      "ra_live lim a' = ra_live lim a"
  shows "regs_ok lim a'"
proof -
  define r where "r = reg_of a ref"
  have r: "bit kGPR r" "\<not> bit (a_freeset a) r" "rc_ref (a_cost a r) = ref" "r < 32"
    using regs_okD(2-4) [OF ok live] u4_bit_less by (auto simp: r_def)
  have fs: "bit (a_freeset a') i \<longleftrightarrow> bit (a_freeset a) i \<or> i = r" for i
    using r(4) by (auto simp: a'(1) bit_rs_simps r_def)
  show ?thesis
    unfolding regs_ok_def
  proof (intro conjI allI impI; (elim conjE)?)
    fix i assume "bit (a_freeset a') i"
    then show "bit kGPR i" using fs regs_okD(1) [OF ok] r(1) by blast
  next
    fix x assume x: "ra_live lim a' x" "isReg (reg_of a' x)"
    then have n: "x \<noteq> ref" "reg_of a' x = reg_of a x" using a'(3,4) by metis+
    then have y: "ra_live lim a x" "isReg (reg_of a x)" using x a'(5) by simp_all
    show "bit kGPR (reg_of a' x)" using regs_okD(2) [OF ok y] n by simp
    have "reg_of a x \<noteq> r" using reg_injective [OF ok live(1) y(1) live(2)] n by (auto simp: r_def)
    then show "\<not> bit (a_freeset a') (reg_of a' x)" using fs n regs_okD(3) [OF ok y] by simp
    show "rc_ref (a_cost a' (reg_of a' x)) = x" using regs_okD(4) [OF ok y] n a'(2) by simp
  next
    fix i assume i: "bit kGPR i" "\<not> bit (a_freeset a') i"
    then have j: "\<not> bit (a_freeset a) i" "i \<noteq> r" using fs by blast+
    show "ra_live lim a' (rc_ref (a_cost a' i))" using regs_okD(5) [OF ok i(1) j(1)] a'(2,5) by simp
    have "rc_ref (a_cost a i) \<noteq> ref" using regs_okD(6) [OF ok i(1) j(1)] j(2) by (auto simp: r_def)
    then show "reg_of a' (rc_ref (a_cost a' i)) = i"
      using regs_okD(6) [OF ok i(1) j(1)] a'(2,4) by simp
  qed
qed

lemma lits_alloc_ok_release:
  assumes "lits_alloc_ok lim a" and "same_ir a a'"
    and "\<And>x. x < REF_BIAS \<Longrightarrow> slot_of a' x = slot_of a x"
    and "\<And>x. isReg (reg_of a' x) \<Longrightarrow> isReg (reg_of a x)"
  shows "lits_alloc_ok lim a'"
  using assms(1,3,4) by (simp add: lits_alloc_ok_def same_ir_fields(8) [OF assms(2)]
      same_ir_value_lit [OF assms(2)])

lemma slots_ok_same:
  assumes "slots_ok lim a" and "same_ir a a'" and "a_spills a' = a_spills a"
    and "\<And>x. slot_of a' x = slot_of a x"
  shows "slots_ok lim a'"
proof -
  have st: "a_stopins a' = a_stopins a" using assms(2) by (simp add: same_ir_def)
  show ?thesis
    using assms(1) unfolding slots_ok_def same_ir_fields(8) [OF assms(2)] assms(3,4) st by blast
qed

text \<open>When the register of \<open>ref\<close> is released and the code fills it again, agreement is restored.\<close>

lemma alloc_code_refill:
  assumes ok: "regs_ok lim a" and live: "ra_live lim a ref" "isReg (reg_of a ref)"
    and same: "same_ir a a'" and regs: "\<And>x. x \<noteq> ref \<Longrightarrow> reg_of a' x = reg_of a x"
    and slots: "\<And>x. slot_of a x \<noteq> 0 \<Longrightarrow> slot_of a' x = slot_of a x"
    and run: "\<And>s. agree v K lim a' s \<Longrightarrow>
      xrun (a_mcend a) (a_mc a') s = xrun (a_mcend a) (a_mc a) (x_set (reg_of a ref) (v ref) s)"
  shows "alloc_code v K lim (rs_fromReg (reg_of a ref)) a a'"
  unfolding alloc_code_def
proof (intro allI impI)
  fix s assume ag: "agree v K lim a' s"
  define r where "r = reg_of a ref"
  define s' where "s' = x_set r (v ref) s"
  have r: "bit kGPR r" "r < 32" using regs_okD(2) [OF ok live] u4_bit_less by (auto simp: r_def)
  have s': "x_mem s' = x_mem s" "x_flags s' = x_flags s" "x_reg s' i = (if i = r then v ref else x_reg s i)" for i
    by (simp_all add: s'_def x_set_def)
  have "agree v K lim a s'"
    unfolding agree_def
  proof (intro conjI allI impI)
    show "ctx_ok K s'" using ctx_ok_set [OF agreeD(1) [OF ag] r(1)] by (simp add: s'_def)
    fix x assume x: "ra_live lim a x"
    then have x': "ra_live lim a' x" by (simp add: same_ir_fields(8) [OF same])
    { assume ir: "isReg (reg_of a x)"
      show "x_reg s' (reg_of a x) = v x"
      proof (cases "x = ref")
        case True then show ?thesis by (simp add: s' r_def)
      next
        case False
        then have "reg_of a x \<noteq> r" using reg_injective [OF ok x live(1) ir] by (auto simp: r_def)
        then show ?thesis using agreeD(2) [OF ag x'] ir regs [OF False] by (simp add: s')
      qed }
    { assume "slot_of a x \<noteq> 0"
      then show "rd64 (x_mem s') (slot_addr K (slot_of a x)) = v x"
        using agreeD(3) [OF ag x'] slots [of x] by (simp add: s') }
  qed
  moreover have "xrun (a_mcend a) (a_mc a') s = xrun (a_mcend a) (a_mc a) s'"
    using run [OF ag] by (simp add: s'_def r_def)
  moreover have "x_reg s' i = x_reg s i" if "bit (a_freeset a) i \<or> \<not> bit (rs_fromReg r) i" for i
    using that regs_okD(3) [OF ok live] r(2) by (auto simp: s' bit_rs_simps r_def)
  ultimately show "\<exists>s'. agree v K lim a s' \<and> xrun (a_mcend a) (a_mc a') s = xrun (a_mcend a) (a_mc a) s' \<and>
      x_mem s' = x_mem s \<and> x_flags s' = x_flags s \<and>
      (\<forall>i. bit (a_freeset a) i \<or> \<not> bit (rs_fromReg (reg_of a ref)) i \<longrightarrow> x_reg s' i = x_reg s i)"
    using s'(1,2) by (auto simp: r_def)
qed

lemma rematConstant_ok:
  assumes ok: "ra_ok lim a" and lits: "lits_ok v K (a_buf a)"
    and live: "ra_live lim a ref" "isReg (reg_of a ref)" and lit: "ref < REF_BIAS"
  shows "\<exists>a'. rematConstant ref a = Inr (reg_of a ref, a') \<and> ra_ok lim a' \<and> same_ir a a' \<and>
    alloc_code v K lim (rs_fromReg (reg_of a ref)) a a' \<and>
    a_freeset a' = rs_set (reg_of a ref) (a_freeset a) \<and> a_cost a' = a_cost a \<and>
    a_ir a' = (a_ir a)(ref := ir_setReg RID_INIT (a_ir a ref)) \<and> a_spills a' = a_spills a"
proof -
  define r where "r = reg_of a ref"
  note regs = ra_okD(3) [OF ok]
  have vl: "value_lit (a_buf a) ref" "slot_of a ref = 0"
    using ra_okD(4) [OF ok] live lit by (auto simp: lits_alloc_ok_def)
  have r: "bit kGPR r" "r < 16" using regs_okD(2) [OF regs live] gpr_less by (auto simp: r_def)
  have bm: "ib_bufmin (a_buf a) \<le> ref" using live(1) by (simp add: ra_live_def)
  obtain f where f: "rematConstant ref a = Inr (r,
       a_emit f (a_updIr ref (ir_setReg RID_INIT) (modifiedReg r (freeReg r a))))"
    and run: "\<And>e c s. x_reg s RID_BASE = kc_base K \<Longrightarrow> xrun e (f c) s = xrun e c (x_set r (v ref) s)"
    using rematConstant_exact [OF vl(1) live(2) vl(2) lits bm lit] r(2) by (auto simp: r_def)
  define a' where "a' = a_emit f (a_updIr ref (ir_setReg RID_INIT) (modifiedReg r (freeReg r a)))"
  have same: "same_ir a a'" unfolding a'_def
    by (meson same_ir_trans same_ir_updates prev_only)
  have ir': "a_ir a' = (a_ir a)(ref := ir_setReg RID_INIT (a_ir a ref))"
    by (simp add: a'_def fun_eq_iff a_ir_updIr)
  have init: "reg_of a' ref = RID_INIT" by (simp add: ir' RID_INIT_def)
  have oth: "reg_of a' x = reg_of a x" if "x \<noteq> ref" for x using that by (simp add: ir')
  have sl: "slot_of a' x = slot_of a x" for x by (simp add: ir')
  have fs: "a_freeset a' = rs_set r (a_freeset a)" "a_cost a' = a_cost a" "a_spills a' = a_spills a"
    by (simp_all add: a'_def)
  have "regs_ok lim a'"
    by (rule regs_ok_release [OF regs live])
      (simp_all add: fs r_def init not_isReg_RID_INIT oth same_ir_fields(8) [OF same])
  moreover have "lits_alloc_ok lim a'"
    by (rule lits_alloc_ok_release [OF ra_okD(4) [OF ok] same sl])
      (metis init not_isReg_RID_INIT oth)
  moreover have "slots_ok lim a'" by (rule slots_ok_same [OF ra_okD(5) [OF ok] same fs(3) sl])
  ultimately have "ra_ok lim a'" using ra_okD(1,2) [OF ok] by (simp add: ra_ok_def)
  moreover have "alloc_code v K lim (rs_fromReg (reg_of a ref)) a a'"
  proof (rule alloc_code_refill [OF regs live same oth sl])
    fix s assume "agree v K lim a' s"
    then have "x_reg s RID_BASE = kc_base K" by (simp add: agree_def ctx_ok_def)
    then show "xrun (a_mcend a) (a_mc a') s = xrun (a_mcend a) (a_mc a) (x_set (reg_of a ref) (v ref) s)"
      by (simp add: a'_def run r_def)
  qed
  ultimately show ?thesis using f same fs ir' by (auto simp: a'_def r_def)
qed

section \<open>Spilling\<close>

lemma slots_okD:
  assumes "slots_ok lim a"
  shows "ss_wf (a_spills a)"
    and "ra_live lim a ref \<Longrightarrow> slot_of a ref < 256"
    and "ra_live lim a ref \<Longrightarrow> \<not> slot_avail (a_spills a) (slot_of a ref)"
    and "ra_live lim a ref \<Longrightarrow> ra_live lim a ref' \<Longrightarrow> ref \<noteq> ref' \<Longrightarrow> slot_of a ref = slot_of a ref' \<Longrightarrow>
      slot_of a ref \<noteq> 0 \<Longrightarrow> ref < a_stopins a \<and> ref' < a_stopins a"
  using assms unfolding slots_ok_def by blast+

lemma spill_ok:
  assumes ok: "ra_ok lim a" and live: "ra_live lim a ref" and ins: "REF_BIAS \<le> ref"
    and run: "spill ref a = Inr (ofs, a')"
  shows "ra_ok lim a' \<and> same_ir a a' \<and> a_mc a' = a_mc a \<and> a_freeset a' = a_freeset a \<and>
    a_cost a' = a_cost a \<and> ofs = spillOffset (slot_of a' ref) \<and> slot_of a' ref \<noteq> 0 \<and>
    (\<forall>x. reg_of a' x = reg_of a x) \<and> (\<forall>x. x \<noteq> ref \<longrightarrow> slot_of a' x = slot_of a x) \<and>
    (slot_of a ref \<noteq> 0 \<longrightarrow> slot_of a' ref = slot_of a ref)"
proof (cases "slot_of a ref = 0")
  case False
  then have "ofs = spillOffset (slot_of a ref) \<and> a' = a" using run by (auto simp: spill_def Let_def)
  then show ?thesis using ok False by auto
next
  case True
  obtain slot d where sd: "ss_alloc (a_spills a) = Inr (slot, d)" "ofs = spillOffset slot"
      "a' = a_updIr ref (ir_setSpill slot) (a\<lparr>a_spills := d\<rparr>)"
    using run True by (auto simp: spill_def Let_def res_bind_Inr_iff)
  note sl = ra_okD(5) [OF ok]
  have wf: "ss_wf (a_spills a)" using sl by (simp add: slots_ok_def)
  from ss_alloc_Inr [OF sd(1) wf] have s: "slot_avail (a_spills a) slot" "slot \<noteq> 0" "slot < 256" "ss_wf d"
    and av: "\<And>x. slot_avail d x \<longleftrightarrow> slot_avail (a_spills a) x \<and> x \<noteq> slot" by blast+
  have same: "same_ir a a'" unfolding sd(3)
    by (rule same_ir_trans [OF same_ir_updates(7) same_ir_updates(1)]) simp
  have ai: "a_ir (a\<lparr>a_spills := d\<rparr>) = a_ir a" by (simp add: a_ir_def fun_eq_iff)
  have ir': "a_ir a' x = (if x = ref then ir_setSpill slot (a_ir a ref) else a_ir a x)" for x
    unfolding sd(3) a_ir_updIr ai ..
  have slots: "slot_of a' x = (if x = ref then slot else slot_of a x)" for x using s(3) by (simp add: ir')
  have regs: "reg_of a' x = reg_of a x" for x by (simp add: ir')
  have f: "a_mc a' = a_mc a" "a_freeset a' = a_freeset a" "a_cost a' = a_cost a" "a_spills a' = d"
    "a_stopins a' = a_stopins a"
    by (simp_all add: sd(3))
  have lv: "ra_live lim a' = ra_live lim a" by (rule same_ir_fields(8) [OF same])
  have "regs_ok lim a'" using ra_okD(3) [OF ok] unfolding regs_ok_def lv f regs .
  moreover have "lits_alloc_ok lim a'"
    by (rule lits_alloc_ok_release [OF ra_okD(4) [OF ok] same]) (use ins in \<open>simp_all add: slots regs\<close>)
  moreover have "slots_ok lim a'"
  proof -
    have old: "slot_of a x < 256 \<and> \<not> slot_avail (a_spills a) (slot_of a x)" if "ra_live lim a x" for x
      using sl that by (simp add: slots_ok_def)
    then have fresh: "slot_of a x \<noteq> slot" if "ra_live lim a x" for x using that s(1) by metis
    have "ref1 < a_stopins a \<and> ref2 < a_stopins a"
      if "ra_live lim a ref1" "ra_live lim a ref2" "ref1 \<noteq> ref2" "slot_of a' ref1 = slot_of a' ref2"
        "slot_of a' ref1 \<noteq> 0" for ref1 ref2
    proof -
      have "ref1 \<noteq> ref" "ref2 \<noteq> ref"
        using that fresh [OF that(1)] fresh [OF that(2)] by (auto simp: slots split: if_splits)
      then have e: "slot_of a' ref1 = slot_of a ref1" "slot_of a' ref2 = slot_of a ref2" by (simp_all add: slots)
      show ?thesis by (rule slots_okD(4) [OF sl that(1-3)]) (use that(4,5) e in simp_all)
    qed
    then show ?thesis
      unfolding slots_ok_def lv f using s old fresh by (auto simp: av slots)
  qed
  ultimately have "ra_ok lim a'" using ra_okD(1,2) [OF ok] by (simp add: ra_ok_def)
  then show ?thesis using same f sd(2) s(2) regs slots True by simp
qed

lemma spill_fails: "spill ref a = Inl e \<Longrightarrow> e = Exit 1"
  by (auto simp: spill_def Let_def res_bind_Inl_iff dest: ss_alloc_Inl split: if_splits)

lemma restoreReg_ok:
  assumes ok: "ra_ok lim a" and lits: "lits_ok v K (a_buf a)"
    and live: "ra_live lim a ref" "isReg (reg_of a ref)"
  shows "restoreReg ref a = Inl (Exit 1) \<or>
    (\<exists>a'. restoreReg ref a = Inr (reg_of a ref, a') \<and> ra_ok lim a' \<and> same_ir a a' \<and>
      alloc_code v K lim (rs_fromReg (reg_of a ref)) a a' \<and>
      a_freeset a' = rs_set (reg_of a ref) (a_freeset a) \<and> a_cost a' = a_cost a \<and>
      \<not> isReg (reg_of a' ref) \<and> (\<forall>x. x \<noteq> ref \<longrightarrow> a_ir a' x = a_ir a x))"
proof (cases "ref < REF_BIAS")
  case True
  then show ?thesis using rematConstant_ok [OF ok lits live True]
    by (auto simp: restoreReg_def canRemat_def not_isReg_RID_INIT not_isReg_RID_INIT [unfolded RID_INIT_def]
        RID_INIT_def)
next
  case False
  show ?thesis
  proof (cases "spill ref a")
    case (Inl e)
    then show ?thesis using False spill_fails [OF Inl] by (simp add: restoreReg_def canRemat_def)
  next
    case (Inr p)
    then obtain ofs a1 where sp: "spill ref a = Inr (ofs, a1)" by (cases p) auto
    define r where "r = reg_of a ref"
    from spill_ok [OF ok live(1) _ sp] False
    have ok1: "ra_ok lim a1" and same1: "same_ir a a1" and f1: "a_mc a1 = a_mc a"
        "a_freeset a1 = a_freeset a" "a_cost a1 = a_cost a" "ofs = spillOffset (slot_of a1 ref)"
        "slot_of a1 ref \<noteq> 0" "slot_of a ref \<noteq> 0 \<longrightarrow> slot_of a1 ref = slot_of a ref"
      and regs1: "\<And>x. reg_of a1 x = reg_of a x"
      and slots1: "\<And>x. x \<noteq> ref \<Longrightarrow> slot_of a1 x = slot_of a x"
      by auto
    have irs1: "x \<noteq> ref \<Longrightarrow> a_ir a1 x = a_ir a x" for x
      using sp by (auto simp: spill_def Let_def res_bind_Inr_iff a_ir_updIr split: if_splits)
        (simp add: a_ir_def)
    define a' where "a' = a_emit (load_u64 r RID_ESP ofs) (freeReg r (setHint ref r a1))"
    have same': "same_ir a1 a'" unfolding a'_def setHint_def
      by (meson same_ir_trans same_ir_updates prev_only)
    have same: "same_ir a a'" by (rule same_ir_trans [OF same1 same'])
    have lv: "ra_live lim a1 = ra_live lim a" by (rule same_ir_fields(8) [OF same1])
    have run: "restoreReg ref a = Inr (r, a')"
      using False sp live(2) by (simp add: restoreReg_def canRemat_def regs1 r_def a'_def lc_assert_def Let_def)
    have r: "bit kGPR r" "r < 16" "r < 256"
      using regs_okD(2) [OF ra_okD(3) [OF ok] live] gpr_less [of r] by (auto simp: r_def)
    have "(r OR RID_NONE) mod 256 = r OR RID_NONE"
      using small_cases [OF r(2)] by (auto simp: RID_NONE_def)
    then have hint: "reg_of a' ref = r OR RID_NONE"
      using r(3) by (simp add: a'_def setHint_def a_ir_updIr ir_setReg_def ir_reg_def)
    have init: "\<not> isReg (reg_of a' ref)" by (simp add: hint not_isReg_hint)
    have irs: "x \<noteq> ref \<Longrightarrow> a_ir a' x = a_ir a1 x" for x by (simp add: a'_def setHint_def a_ir_updIr)
    have sl: "slot_of a' x = slot_of a1 x" for x
      by (cases "x = ref") (simp_all add: irs, simp add: a'_def setHint_def a_ir_updIr ir_setReg_def ir_spill_def)
    have f: "a_freeset a' = rs_set r (a_freeset a1)" "a_cost a' = a_cost a1" "a_spills a' = a_spills a1"
      by (simp_all add: a'_def setHint_def)
    have live1: "ra_live lim a1 ref" "isReg (reg_of a1 ref)" using live by (simp_all add: lv regs1)
    have "regs_ok lim a'"
      by (rule regs_ok_release [OF ra_okD(3) [OF ok1] live1])
        (simp_all add: f r_def regs1 init irs same_ir_fields(8) [OF same'])
    moreover have "lits_alloc_ok lim a'"
      by (rule lits_alloc_ok_release [OF ra_okD(4) [OF ok1] same' sl]) (metis init irs)
    moreover have "slots_ok lim a'" by (rule slots_ok_same [OF ra_okD(5) [OF ok1] same' f(3) sl])
    ultimately have ok': "ra_ok lim a'" using ra_okD(1,2) [OF ok] by (simp add: ra_ok_def)
    have code: "alloc_code v K lim (rs_fromReg (reg_of a ref)) a a'"
    proof (rule alloc_code_refill [OF ra_okD(3) [OF ok] live same])
      show "reg_of a' x = reg_of a x" if "x \<noteq> ref" for x using that by (simp add: irs irs1)
      show "slot_of a' x = slot_of a x" if "slot_of a x \<noteq> 0" for x
        using that f1(6) slots1 [of x] by (cases "x = ref") (simp_all add: sl)
      fix s assume ag: "agree v K lim a' s"
      have "ra_live lim a' ref" using live(1) by (simp add: same_ir_fields(8) [OF same])
      then have "rd64 (x_mem s) (slot_addr K (slot_of a1 ref)) = v ref"
        using agreeD(3) [OF ag, of ref] f1(5) by (simp add: sl)
      moreover have "x_reg s RID_ESP = kc_sp K" using agreeD(1) [OF ag] by (simp add: ctx_ok_def)
      ultimately have "rd64 (x_mem s) (x_reg s RID_ESP + scast ofs) = v ref"
        by (simp add: slot_addr_def f1(4))
      then show "xrun (a_mcend a) (a_mc a') s = xrun (a_mcend a) (a_mc a) (x_set (reg_of a ref) (v ref) s)"
        using run_load [of r RID_ESP "a_mcend a" ofs "a_mc a" s] r(2)
        by (simp add: a'_def setHint_def f1(1) RID_ESP_def r_def)
    qed
    show ?thesis using run ok' same code init irs irs1 f f1(2,3) by (auto simp: r_def)
  qed
qed

section \<open>Eviction\<close>

lemma same_ir_intros:
  "prev_only f \<Longrightarrow> same_ir a b \<Longrightarrow> same_ir a (a_updIr ref f b)" "same_ir a b \<Longrightarrow> same_ir a (a_emit g b)"
  "same_ir a b \<Longrightarrow> same_ir a (freeReg r b)" "same_ir a b \<Longrightarrow> same_ir a (modifiedReg r b)"
  "same_ir a b \<Longrightarrow> same_ir a (useReg r b)" "same_ir a b \<Longrightarrow> same_ir a (b\<lparr>a_cost := c\<rparr>)"
  "same_ir a b \<Longrightarrow> same_ir a (b\<lparr>a_spills := d\<rparr>)" "same_ir a b \<Longrightarrow> same_ir a (b\<lparr>a_mrm := m\<rparr>)"
  by (rule same_ir_trans, assumption, simp; fail)+

lemma alloc_code_mono:
  assumes "alloc_code v K lim allow a a'" and "\<And>r. bit allow r \<Longrightarrow> bit allow' r"
  shows "alloc_code v K lim allow' a a'"
  using assms unfolding alloc_code_def by metis

text \<open>The search returns the cost of an allowed register, unless all costs are maximal.\<close>

lemma min_search:
  fixes cost :: "nat \<Rightarrow> u4"
  shows "let m = fold (\<lambda>r c. if P r \<and> cost r < c then cost r else c) rs best
    in m \<le> best \<and> (\<forall>r \<in> set rs. P r \<longrightarrow> m \<le> cost r) \<and> (m = best \<or> (\<exists>r \<in> set rs. P r \<and> m = cost r))"
proof (induction rs arbitrary: best)
  case (Cons r rs)
  let ?b = "if P r \<and> cost r < best then cost r else best"
  define m where "m = fold (\<lambda>r c. if P r \<and> cost r < c then cost r else c) rs ?b"
  have ih: "m \<le> ?b" "\<forall>r \<in> set rs. P r \<longrightarrow> m \<le> cost r" "m = ?b \<or> (\<exists>r \<in> set rs. P r \<and> m = cost r)"
    using Cons.IH [of ?b] unfolding m_def Let_def by blast+
  have b: "?b \<le> best" "P r \<Longrightarrow> ?b \<le> cost r" "?b = best \<or> P r \<and> ?b = cost r" by auto
  have "m \<le> best" using ih(1) b(1) by (rule order.trans)
  moreover have "\<forall>r' \<in> set (r # rs). P r' \<longrightarrow> m \<le> cost r'"
    using ih(1,2) b(2) by (metis order.trans set_ConsD)
  moreover have "m = best \<or> (\<exists>r' \<in> set (r # rs). P r' \<and> m = cost r')"
    using ih(3) b(3) by (metis list.set_intros)
  ultimately show ?case unfolding m_def Let_def by simp
qed simp

lemma min_cost_register:
  assumes "bit allow r" and "bit kGPR r" and "cost r \<noteq> rc_maxCost"
  obtains m where "bit allow m" "bit kGPR m" "min_cost allow cost = cost m"
proof -
  let ?P = "\<lambda>r. rs_test r kGPR \<and> rs_test r allow"
  have eq: "min_cost allow cost =
      fold (\<lambda>r c. if ?P r \<and> cost r < c then cost r else c) [0..<16] rc_maxCost"
    by (simp only: min_cost_def RID_MAX_GPR_def RID_MIN_FPR_def conj_assoc)
  have m: "min_cost allow cost \<le> cost r"
      "min_cost allow cost = rc_maxCost \<or> (\<exists>r \<in> set [0..<16]. ?P r \<and> min_cost allow cost = cost r)"
    using min_search [of ?P cost "[0..<16]" rc_maxCost] assms(1,2) gpr_less [OF assms(2)]
    unfolding eq Let_def by (auto simp: rs_test_bit)
  have "cost r < rc_maxCost"
    using assms(3) by (simp add: rc_maxCost_def less_le)
  with m(1) have "min_cost allow cost \<noteq> rc_maxCost" by auto
  with m(2) that show ?thesis by (auto simp: rs_test_bit)
qed

lemma evictReg_ok:
  assumes ok: "ra_ok lim a" and lits: "lits_ok v K (a_buf a)"
    and allow: "\<And>r. bit allow r \<Longrightarrow> bit kGPR r" "allow \<noteq> 0"
    and full: "\<And>r. bit allow r \<Longrightarrow> \<not> bit (a_freeset a) r"
  shows "evictReg allow a = Inl (Exit 1) \<or>
    (\<exists>r a'. evictReg allow a = Inr (r, a') \<and> bit allow r \<and> ra_ok lim a' \<and> same_ir a a' \<and>
      alloc_code v K lim allow a a' \<and> a_freeset a' = rs_set r (a_freeset a) \<and>
      (\<forall>x. x \<noteq> rc_ref (a_cost a r) \<longrightarrow> a_ir a' x = a_ir a x))"
proof -
  note regs = ra_okD(3) [OF ok]
  have used: "ra_live lim a (rc_ref (a_cost a r))" "reg_of a (rc_ref (a_cost a r)) = r" if "bit allow r" for r
    using regs_okD(5,6) [OF regs allow(1) [OF that] full [OF that]] by auto
  have notmax: "a_cost a r \<noteq> rc_maxCost" if "bit allow r" for r
  proof
    assume "a_cost a r = rc_maxCost"
    then have "rc_ref (a_cost a r) = 65535" by (simp add: rc_ref_def rc_maxCost_def unsigned_minus_1_eq_mask mask_eq_exp_minus_1)
    then show False using used(1) [OF that] ra_okD(2) [OF ok] by (simp add: ra_live_def)
  qed
  obtain r0 where "bit allow r0" using allow(2) by (auto simp: bit_eq_iff)
  then obtain m where m: "bit allow m" "bit kGPR m" "min_cost allow (a_cost a) = a_cost a m"
    using min_cost_register [of allow r0 "a_cost a"] allow(1) notmax by metis
  have small: "allow < push_bit RID_MAX_GPR 1"
  proof -
    have "allow AND kGPR = allow" by (rule bit_word_eqI) (auto simp: bit_and_iff dest: allow(1))
    then have "allow \<le> kGPR" by (metis word_and_le1)
    also have "kGPR < push_bit RID_MAX_GPR 1" by (simp add: kGPR_val rid_defs)
    finally show ?thesis .
  qed
  have e: "evictReg allow a = restoreReg (rc_ref (a_cost a m)) a"
    using allow(2) small by (simp add: evictReg_def rs_isEmpty_def lc_assert_def m(3))
  have isr: "isReg (reg_of a (rc_ref (a_cost a m)))"
    using used(2) [OF m(1)] gpr_less [OF m(2)] isReg_small by simp
  have one: "bit (rs_fromReg m) r \<Longrightarrow> bit allow r" for r using m(1) by (auto simp: bit_rs_simps)
  show ?thesis
    using restoreReg_ok [OF ok lits used(1) [OF m(1)] isr] alloc_code_mono [OF _ one] m(1)
    unfolding used(2) [OF m(1)] e by metis
qed

section \<open>Allocation\<close>

lemma regs_ok_assign:
  assumes ok: "regs_ok lim a" and free: "bit (a_freeset a) r" and lim: "lim < 65536"
    and live: "ra_live lim a ref" "\<not> isReg (reg_of a ref)"
    and a': "a_freeset a' = rs_clear r (a_freeset a)"
      "a_cost a' = (a_cost a)(r := rc_make ref t)"
      "reg_of a' ref = r" "\<And>x. x \<noteq> ref \<Longrightarrow> reg_of a' x = reg_of a x"
      "ra_live lim a' = ra_live lim a"
  shows "regs_ok lim a'"
proof -
  have r: "bit kGPR r" using regs_okD(1) [OF ok free] .
  have fs: "bit (a_freeset a') i \<longleftrightarrow> bit (a_freeset a) i \<and> i \<noteq> r" for i
    by (auto simp: a'(1) bit_rs_simps)
  have cr: "rc_ref (a_cost a' r) = ref"
    using live(1) lim by (simp add: a'(2) rc_ref_make ra_live_def)
  show ?thesis
    unfolding regs_ok_def
  proof (intro conjI allI impI; (elim conjE)?)
    fix i assume "bit (a_freeset a') i"
    then show "bit kGPR i" using fs regs_okD(1) [OF ok] by blast
  next
    fix x assume x: "ra_live lim a' x" "isReg (reg_of a' x)"
    have "bit kGPR (reg_of a' x) \<and> \<not> bit (a_freeset a') (reg_of a' x) \<and> rc_ref (a_cost a' (reg_of a' x)) = x"
    proof (cases "x = ref")
      case True
      then show ?thesis using r fs cr a'(3) by simp
    next
      case False
      then have y: "ra_live lim a x" "isReg (reg_of a x)" using x a'(4,5) by simp_all
      have "reg_of a x \<noteq> r" using regs_okD(3) [OF ok y] free by auto
      then show ?thesis using regs_okD(2-4) [OF ok y] fs False a'(2,4) by simp
    qed
    then show "bit kGPR (reg_of a' x)" "\<not> bit (a_freeset a') (reg_of a' x)"
      "rc_ref (a_cost a' (reg_of a' x)) = x" by blast+
  next
    fix i assume i: "bit kGPR i" "\<not> bit (a_freeset a') i"
    have "ra_live lim a' (rc_ref (a_cost a' i)) \<and> reg_of a' (rc_ref (a_cost a' i)) = i"
    proof (cases "i = r")
      case True
      then show ?thesis using cr live(1) a'(3,5) by simp
    next
      case False
      then have j: "\<not> bit (a_freeset a) i" using i(2) fs by blast
      have "rc_ref (a_cost a i) \<noteq> ref"
        using regs_okD(6) [OF ok i(1) j] live(2) isReg_small [OF gpr_less [OF i(1)]] by auto
      then show ?thesis using regs_okD(5,6) [OF ok i(1) j] False a'(2,4,5) by simp
    qed
    then show "ra_live lim a' (rc_ref (a_cost a' i))" "reg_of a' (rc_ref (a_cost a' i)) = i" by blast+
  qed
qed

text \<open>What a live reference must be to get a register.\<close>

definition allocatable :: "nat \<Rightarrow> assembler \<Rightarrow> nat \<Rightarrow> bool" where
  "allocatable lim a ref \<longleftrightarrow> ra_live lim a ref \<and> (ref < REF_BIAS \<longrightarrow> value_lit (a_buf a) ref)"

lemma assign_ok:
  assumes ok: "ra_ok lim a" and free: "bit (a_freeset a) r"
    and al: "allocatable lim a ref" "\<not> isReg (reg_of a ref)"
    and a': "a' = (useReg r (a_updIr ref (ir_setReg r) a))
      \<lparr>a_cost := (a_cost a)(r := rc_make ref t)\<rparr>"
  shows "ra_ok lim a' \<and> same_ir a a' \<and> a_mc a' = a_mc a \<and> a_mcend a' = a_mcend a \<and>
    a_freeset a' = rs_clear r (a_freeset a) \<and>
    reg_of a' ref = r \<and> (\<forall>x. x \<noteq> ref \<longrightarrow> a_ir a' x = a_ir a x) \<and>
    (\<forall>v K s. agree v K lim a' s \<longrightarrow> agree v K lim a s \<and> x_reg s r = v ref)"
proof -
  have r: "bit kGPR r" "r < 256" using regs_okD(1) [OF ra_okD(3) [OF ok] free] gpr_less [of r] by auto
  have live: "ra_live lim a ref" using al by (simp add: allocatable_def)
  have same: "same_ir a a'" unfolding a'
    by (intro same_ir_intros) simp_all
  have ir: "a_ir a' x = (if x = ref then ir_setReg r (a_ir a ref) else a_ir a x)" for x
  proof -
    have "a_ir (b\<lparr>a_cost := c\<rparr>) = a_ir b" for b c by (simp add: a_ir_def fun_eq_iff)
    then show ?thesis by (simp add: a' a_ir_updIr)
  qed
  have f: "a_freeset a' = rs_clear r (a_freeset a)" "a_cost a' = (a_cost a)(r := rc_make ref t)"
      "a_spills a' = a_spills a" "a_mc a' = a_mc a" "a_mcend a' = a_mcend a"
    by (simp_all add: a')
  have sl: "slot_of a' x = slot_of a x" for x by (simp add: ir)
  have reg: "reg_of a' ref = r" using r(2) by (simp add: ir)
  have lv: "ra_live lim a' = ra_live lim a" by (rule same_ir_fields(8) [OF same])
  have "regs_ok lim a'"
    by (rule regs_ok_assign [OF ra_okD(3) [OF ok] free ra_okD(2) [OF ok] live al(2) f(1,2) reg])
      (simp_all add: ir lv)
  moreover have "lits_alloc_ok lim a'"
  proof -
    have "value_lit (a_buf a) x" if "x < REF_BIAS" "ra_live lim a x" "isReg (reg_of a' x)" for x
      using that al(1) ra_okD(4) [OF ok] by (cases "x = ref") (auto simp: allocatable_def ir lits_alloc_ok_def)
    then show ?thesis using ra_okD(4) [OF ok]
      by (simp add: lits_alloc_ok_def lv sl same_ir_value_lit [OF same])
  qed
  moreover have "slots_ok lim a'" by (rule slots_ok_same [OF ra_okD(5) [OF ok] same f(3) sl])
  ultimately have ok': "ra_ok lim a'" using ra_okD(1,2) [OF ok] by (simp add: ra_ok_def)
  have "agree v K lim a s \<and> x_reg s r = v ref" if ag: "agree v K lim a' s" for v K s
  proof
    show "x_reg s r = v ref"
      using agreeD(2) [OF ag, of ref] live reg isReg_small [OF gpr_less [OF r(1)]] by (simp add: lv)
    show "agree v K lim a s"
      unfolding agree_def
    proof (intro conjI allI impI)
      show "ctx_ok K s" by (rule agreeD(1) [OF ag])
      fix x assume x: "ra_live lim a x"
      show "x_reg s (reg_of a x) = v x" if "isReg (reg_of a x)"
      proof -
        have "x \<noteq> ref" using that al(2) by auto
        then show ?thesis using agreeD(2) [OF ag, of x] x that by (simp add: lv ir)
      qed
      show "rd64 (x_mem s) (slot_addr K (slot_of a x)) = v x" if "slot_of a x \<noteq> 0"
        using agreeD(3) [OF ag, of x] x that by (simp add: lv sl)
    qed
  qed
  then show ?thesis using ok' same f reg ir by simp
qed

lemma alloc_code_strengthen:
  assumes "alloc_code v K lim allow a a1" and "a_mc a2 = a_mc a1"
    and "\<And>s. agree v K lim a2 s \<Longrightarrow> agree v K lim a1 s"
  shows "alloc_code v K lim allow a a2"
  using assms unfolding alloc_code_def by metis

lemma alloc_code_refl [simp]: "alloc_code v K lim allow a a"
  unfolding alloc_code_def by blast

text \<open>Apart from \<open>R\<close>, only live references in registers change.\<close>

definition keeps :: "nat \<Rightarrow> nat set \<Rightarrow> assembler \<Rightarrow> assembler \<Rightarrow> bool" where
  "keeps lim R a a' \<longleftrightarrow>
     (\<forall>x. x \<notin> R \<and> (ra_live lim a x \<longrightarrow> \<not> isReg (reg_of a x)) \<longrightarrow> a_ir a' x = a_ir a x)"

lemma keeps_refl [simp]: "keeps lim R a a"
  by (simp add: keeps_def)

text \<open>A set of general purpose registers.\<close>

definition gpr_set :: "u4 \<Rightarrow> bool" where
  "gpr_set s \<longleftrightarrow> (\<forall>r. bit s r \<longrightarrow> bit kGPR r)"

lemma gpr_setD: "gpr_set s \<Longrightarrow> bit s r \<Longrightarrow> bit kGPR r"
  by (simp add: gpr_set_def)

lemma gpr_set_simps [simp]:
  "gpr_set kGPR" "gpr_set s \<Longrightarrow> gpr_set (rs_exclude s r)" "gpr_set s \<Longrightarrow> gpr_set (rs_clear r s)"
  by (auto simp: gpr_set_def bit_rs_simps)

lemma getHint_less: "getHint h < 2"
  by (simp add: getHint_def)

text \<open>
  A register of \<open>allow\<close> is found or made free.  An instruction keeps its register unless nothing
  was free.
\<close>

lemma alloc_pick_ok:
  assumes ok: "ra_ok lim a" and lits: "lits_ok v K (a_buf a)"
    and allow: "gpr_set allow" "allow \<noteq> 0"
    and pick: "pick = rs_intersect (a_freeset a) allow"
    and p: "p = (if \<not> rs_isEmpty pick
            then let r = getHint hint
                 in if hasHint hint \<and> rs_test r pick then Inr (r, a)
                    else if hasHint hint \<and> rs_test r allow \<and> canRemat (rc_ref (a_cost a r))
                    then res_bind (rematConstant (rc_ref (a_cost a r)) a) (\<lambda>(_, a). Inr (r, a))
                    else Inr (rs_pickBot pick, a)
            else evictReg allow a)"
  shows "p = Inl (Exit 1) \<or>
    (\<exists>r a'. p = Inr (r, a') \<and> bit allow r \<and> ra_ok lim a' \<and> same_ir a a' \<and>
      alloc_code v K lim allow a a' \<and> a_freeset a' = rs_set r (a_freeset a) \<and>
      keeps lim {} a a' \<and>
      (\<not> rs_isEmpty pick \<longrightarrow> (\<forall>x \<ge> REF_BIAS. a_ir a' x = a_ir a x)))"
proof (cases "rs_isEmpty pick")
  case True
  then have full: "\<not> bit (a_freeset a) r" if "bit allow r" for r
    using that by (auto simp: rs_isEmpty_iff pick bit_rs_simps)
  have pe: "p = evictReg allow a" using p True by simp
  have reg: "isReg (reg_of a (rc_ref (a_cost a r)))" "ra_live lim a (rc_ref (a_cost a r))" if "bit allow r" for r
    using regs_okD(5,6) [OF ra_okD(3) [OF ok] gpr_setD [OF allow(1) that] full [OF that]]
      isReg_small [OF gpr_less [OF gpr_setD [OF allow(1) that]]] by simp_all
  show ?thesis
    using evictReg_ok [OF ok lits gpr_setD [OF allow(1)] allow(2) full] True reg unfolding pe keeps_def by metis
next
  case False
  define r where "r = getHint hint"
  have inp: "bit pick x \<longleftrightarrow> bit (a_freeset a) x \<and> bit allow x" for x by (simp add: pick bit_rs_simps)
  have same_free: "rs_set x (a_freeset a) = a_freeset a" if "bit (a_freeset a) x" for x
    using that by (intro bit_word_eqI) (auto simp: bit_rs_simps)
  have free: "\<exists>r a'. p = Inr (r, a') \<and> bit allow r \<and> ra_ok lim a' \<and> same_ir a a' \<and>
      alloc_code v K lim allow a a' \<and> a_freeset a' = rs_set r (a_freeset a) \<and>
      keeps lim {} a a' \<and>
      (\<not> rs_isEmpty pick \<longrightarrow> (\<forall>x \<ge> REF_BIAS. a_ir a' x = a_ir a x))"
    if "p = Inr (x, a)" "bit pick x" for x
    using that ok inp same_free by auto
  consider (hint) "p = Inr (r, a)" "bit pick r"
    | (remat) "p = res_bind (rematConstant (rc_ref (a_cost a r)) a) (\<lambda>(_, a). Inr (r, a))"
        "\<not> bit pick r" "bit allow r" "canRemat (rc_ref (a_cost a r))"
    | (bot) "p = Inr (rs_pickBot pick, a)"
    using p False by (auto simp: r_def Let_def rs_test_bit split: if_splits)
  then show ?thesis
  proof cases
    case hint
    then show ?thesis using free by blast
  next
    case bot
    then show ?thesis using free pickBot_in [of pick] False by (auto simp: rs_isEmpty_def)
  next
    case remat
    have nf: "\<not> bit (a_freeset a) r" using remat(2,3) inp by blast
    define ref where "ref = rc_ref (a_cost a r)"
    have g: "bit kGPR r" using gpr_setD [OF allow(1) remat(3)] .
    have live: "ra_live lim a ref" "reg_of a ref = r"
      using regs_okD(5,6) [OF ra_okD(3) [OF ok] g nf] by (simp_all add: ref_def)
    have isr: "isReg (reg_of a ref)" using live(2) isReg_small [OF gpr_less [OF g]] by simp
    have lit: "ref < REF_BIAS" using remat(4) by (simp add: canRemat_def ref_def)
    have one: "bit (rs_fromReg r) x \<Longrightarrow> bit allow x" for x using remat(3) by (auto simp: bit_rs_simps)
    from rematConstant_ok [OF ok lits live(1) isr lit] obtain a'
      where a': "rematConstant ref a = Inr (r, a')" "ra_ok lim a'" "same_ir a a'"
        "alloc_code v K lim (rs_fromReg r) a a'" "a_freeset a' = rs_set r (a_freeset a)"
        "a_ir a' = (a_ir a)(ref := ir_setReg RID_INIT (a_ir a ref))"
      by (auto simp: live(2))
    have "p = Inr (r, a')" using remat(1) a'(1) by (simp add: ref_def)
    moreover have "keeps lim {} a a'"
      using isr live(1) by (auto simp: keeps_def a'(6))
    moreover have "a_ir a' x = a_ir a x" if "x \<ge> REF_BIAS" for x using that lit by (auto simp: a'(6))
    ultimately show ?thesis using remat(3) a' alloc_code_mono [OF a'(4) one] by blast
  qed
qed

lemma allocRef_ok:
  assumes ok: "ra_ok lim a" and lits: "lits_ok v K (a_buf a)"
    and allow: "gpr_set allow" "allow \<noteq> 0"
    and al: "allocatable lim a ref" "\<not> isReg (reg_of a ref)"
  shows "allocRef ref allow a = Inl (Exit 1) \<or>
    (\<exists>r a'. allocRef ref allow a = Inr (r, a') \<and> bit allow r \<and> ra_ok lim a' \<and> same_ir a a' \<and>
      alloc_code v K lim allow a a' \<and> reg_of a' ref = r \<and> a_freeset a' = rs_clear r (a_freeset a) \<and>
      (\<forall>s. agree v K lim a' s \<longrightarrow> x_reg s r = v ref) \<and> keeps lim {ref} a a' \<and>
      (rs_intersect (a_freeset a) allow \<noteq> 0 \<longrightarrow> (\<forall>x \<ge> REF_BIAS. x \<noteq> ref \<longrightarrow> a_ir a' x = a_ir a x)))"
proof -
  define pick where "pick = rs_intersect (a_freeset a) allow"
  define p where "p = (if \<not> rs_isEmpty pick
            then let r = getHint (reg_of a ref)
                 in if hasHint (reg_of a ref) \<and> rs_test r pick then Inr (r, a)
                    else if hasHint (reg_of a ref) \<and> rs_test r allow \<and> canRemat (rc_ref (a_cost a r))
                    then res_bind (rematConstant (rc_ref (a_cost a r)) a) (\<lambda>(_, a). Inr (r, a))
                    else Inr (rs_pickBot pick, a)
            else evictReg allow a)"
  have e: "allocRef ref allow a = res_bind p (\<lambda>(r, a).
              let a = useReg r (a_updIr ref (ir_setReg r) a)
              in Inr (r, a\<lparr>a_cost := (a_cost a)(r := rc_make ref (ir_t (a_ir a ref)))\<rparr>))"
    using al(2) unfolding allocRef_def Let_def p_def pick_def
    by (simp add: isNoReg_iff lc_assert_def)
  from alloc_pick_ok [OF ok lits allow pick_def p_def] show ?thesis
  proof (elim disjE exE conjE)
    assume "p = Inl (Exit 1)"
    then show ?thesis by (simp add: e)
  next
    fix r a1
    assume p: "p = Inr (r, a1)" and r: "bit allow r" and ok1: "ra_ok lim a1" and same1: "same_ir a a1"
      and code1: "alloc_code v K lim allow a a1" and fs1: "a_freeset a1 = rs_set r (a_freeset a)"
      and keep: "keeps lim {} a a1"
      and keep2: "\<not> rs_isEmpty pick \<longrightarrow> (\<forall>x \<ge> REF_BIAS. a_ir a1 x = a_ir a x)"
    have r32: "r < 32" using gpr_less [OF gpr_setD [OF allow(1) r]] by simp
    have free1: "bit (a_freeset a1) r" using r32 by (simp add: fs1 bit_rs_simps)
    have al1: "allocatable lim a1 ref"
      using al(1) by (simp add: allocatable_def same_ir_fields(8) [OF same1] same_ir_value_lit [OF same1])
    have nr1: "\<not> isReg (reg_of a1 ref)" using keep al(2) by (simp add: keeps_def)
    define b where "b = useReg r (a_updIr ref (ir_setReg r) a1)"
    define a' where "a' = b\<lparr>a_cost := (a_cost b)(r := rc_make ref (ir_t (a_ir b ref)))\<rparr>"
    have bc: "a_cost b = a_cost a1" by (simp add: b_def)
    have a'e: "a' = (useReg r (a_updIr ref (ir_setReg r) a1))
        \<lparr>a_cost := (a_cost a1)(r := rc_make ref (ir_t (a_ir b ref)))\<rparr>"
      unfolding a'_def bc by (simp add: b_def)
    from assign_ok [OF ok1 free1 al1 nr1 a'e]
    have ok': "ra_ok lim a'" and same': "same_ir a1 a'" and mc': "a_mc a' = a_mc a1"
      and fs': "a_freeset a' = rs_clear r (a_freeset a1)" and reg': "reg_of a' ref = r"
      and ir': "\<forall>x. x \<noteq> ref \<longrightarrow> a_ir a' x = a_ir a1 x"
      and ag': "\<And>s. agree v K lim a' s \<Longrightarrow> agree v K lim a1 s"
        "\<And>s. agree v K lim a' s \<Longrightarrow> x_reg s r = v ref"
      by blast+
    have run: "allocRef ref allow a = Inr (r, a')" by (simp add: e p Let_def a'_def b_def)
    have fs: "a_freeset a' = rs_clear r (a_freeset a)"
      unfolding fs' fs1 by (rule bit_word_eqI) (auto simp: bit_rs_simps)
    have code: "alloc_code v K lim allow a a'" by (rule alloc_code_strengthen [OF code1 mc' ag'(1)])
    have "\<forall>x \<ge> REF_BIAS. x \<noteq> ref \<longrightarrow> a_ir a' x = a_ir a x" if "pick \<noteq> 0"
      using that ir' keep2 by (simp add: rs_isEmpty_def)
    moreover have "keeps lim {ref} a a'" using keep ir' by (simp add: keeps_def)
    ultimately show ?thesis
      using run r ok' same_ir_trans [OF same1 same'] code reg' fs ag'(2) by (auto simp: pick_def)
  qed
qed

section \<open>Spill slots in memory\<close>

lemma slot_addr_eq:
  assumes "slot < 256"
  shows "slot_addr K slot = kc_sp K + of_nat (40 + 8 * slot)"
proof -
  have n: "40 + 8 * slot < 2 ^ 31" using assms by simp
  have u: "unat (spillOffset slot) = 40 + 8 * slot"
    using n by (simp add: spillOffset_def SPILL_SP_OFFS_def unat_of_nat del: of_nat_add of_nat_mult)
  then have "sint (spillOffset slot) = int (40 + 8 * slot)"
    using sint_u4_small [of "spillOffset slot"] n by (simp del: of_nat_add of_nat_mult)
  then have "(scast (spillOffset slot) :: u8) = of_nat (40 + 8 * slot)"
    by (simp only: scast_eq of_int_of_nat_eq)
  then show ?thesis by (simp add: slot_addr_def)
qed

lemma unat_of_nat_8: "n < 4096 \<Longrightarrow> unat (of_nat n :: u8) = n"
  by (rule unat_of_nat_small) simp

lemma unat_neg_of_nat:
  assumes "0 < n" and "n < 4096"
  shows "unat (- of_nat n :: u8) = 2 ^ 64 - n"
proof -
  have "unat (of_nat n + (- of_nat n) :: u8) = 0" by simp
  then have "unat (of_nat n :: u8) + unat (- of_nat n :: u8) = 2 ^ 64 \<or>
      unat (of_nat n :: u8) + unat (- of_nat n :: u8) = 0"
    unfolding unat_plus_if' by (auto split: if_splits)
  then show ?thesis using assms by (simp add: unat_of_nat_8)
qed

lemma slots_apart:
  assumes "s1 < 256" "s2 < 256" "s1 \<noteq> s2"
  shows "8 \<le> unat (slot_addr K s1 - slot_addr K s2)"
proof (cases "s2 < s1")
  case True
  define n where "n = 8 * (s1 - s2)"
  have "40 + 8 * s1 = (40 + 8 * s2) + n" using True by (simp add: n_def algebra_simps)
  then have "slot_addr K s1 - slot_addr K s2 = of_nat n"
    using assms(1,2) by (simp only: slot_addr_eq of_nat_add) simp
  then show ?thesis using assms True by (simp add: n_def unat_of_nat_8 del: of_nat_mult)
next
  case False
  define n where "n = 8 * (s2 - s1)"
  have n: "0 < n" "n < 4096" using False assms by (auto simp: n_def)
  have "40 + 8 * s2 = (40 + 8 * s1) + n" using False by (simp add: n_def algebra_simps)
  then have "slot_addr K s1 - slot_addr K s2 = - of_nat n"
    using assms(1,2) by (simp only: slot_addr_eq of_nat_add) simp
  then show ?thesis using n by (simp only: unat_neg_of_nat) simp
qed

lemma slot_in_area:
  assumes "slot < 256" and "unat (addr - slot_addr K slot) < 8"
  shows "spill_area K addr"
proof -
  define d where "d = unat (addr - slot_addr K slot)"
  have "addr - slot_addr K slot = of_nat d" by (simp add: d_def)
  then have "addr - slot_addr K 0 = of_nat (8 * slot + d)"
    using assms(1) by (simp add: slot_addr_eq algebra_simps)
  then have "unat (addr - slot_addr K 0) = 8 * slot + d"
    using assms by (simp only:) (rule unat_of_nat_8, simp add: d_def)
  then show ?thesis using assms by (simp add: spill_area_def d_def)
qed

lemma ctx_ok_save:
  assumes "ctx_ok K s" and "slot < 256"
  shows "ctx_ok K (s\<lparr>x_mem := wr64 (x_mem s) (slot_addr K slot) x\<rparr>)"
  using assms slot_in_area [OF assms(2)] by (auto simp: ctx_ok_def wr_le_def Let_def)

section \<open>The result register of an instruction\<close>

lemma agree_cong:
  assumes "agree v K lim a s" and "ra_live lim b = ra_live lim a"
    and "\<And>x. ra_live lim a x \<Longrightarrow> a_ir b x = a_ir a x"
  shows "agree v K lim b s"
  using assms by (simp add: agree_def)

lemma ra_ok_cong:
  assumes "ra_ok lim a" and "same_ir a b"
    and "\<And>x. ra_live lim a x \<Longrightarrow> a_ir b x = a_ir a x"
    and f: "a_freeset b = a_freeset a" "a_cost b = a_cost a" "a_spills b = a_spills a"
  shows "ra_ok lim b"
proof -
  have lv: "ra_live lim b = ra_live lim a" by (rule same_ir_fields(8) [OF assms(2)])
  have st: "a_stopins b = a_stopins a" using assms(2) by (simp add: same_ir_def)
  have i: "ra_live lim a x \<Longrightarrow> reg_of b x = reg_of a x" "ra_live lim a x \<Longrightarrow> slot_of b x = slot_of a x" for x
    using assms(3) by simp_all
  have "regs_ok lim b"
    using ra_okD(3) [OF assms(1)] i(1) unfolding regs_ok_def lv f by metis
  moreover have "lits_alloc_ok lim b"
    using ra_okD(4) [OF assms(1)] i by (auto simp: lits_alloc_ok_def lv same_ir_value_lit [OF assms(2)])
  moreover have "slots_ok lim b"
    using ra_okD(5) [OF assms(1)] i(2) unfolding slots_ok_def lv f st by metis
  ultimately show ?thesis using ra_okD(1,2) [OF assms(1)] by (simp add: ra_ok_def)
qed

lemma ra_ok_shrink:
  assumes ok: "ra_ok (Suc ref) a" and "REF_BIAS \<le> ref" and nr: "\<not> isReg (reg_of a ref)"
  shows "ra_ok ref a"
proof -
  note regs = ra_okD(3) [OF ok]
  have lv: "ra_live ref a x \<longleftrightarrow> ra_live (Suc ref) a x \<and> x \<noteq> ref" for x by (auto simp: ra_live_def)
  have "regs_ok ref a"
    unfolding regs_ok_def
  proof (intro conjI allI impI; (elim conjE)?)
    fix r assume r: "bit kGPR r" "\<not> bit (a_freeset a) r"
    have "rc_ref (a_cost a r) \<noteq> ref"
      using regs_okD(6) [OF regs r] nr isReg_small [OF gpr_less [OF r(1)]] by auto
    then show "ra_live ref a (rc_ref (a_cost a r))" "reg_of a (rc_ref (a_cost a r)) = r"
      using regs_okD(5,6) [OF regs r] by (simp_all add: lv)
  qed (use regs_okD(1-4) [OF regs] lv in auto)
  moreover have "lits_alloc_ok ref a" using ra_okD(4) [OF ok] by (simp add: lits_alloc_ok_def lv)
  moreover have "slots_ok ref a"
    using ra_okD(5) [OF ok] unfolding slots_ok_def lv by blast
  ultimately show ?thesis using ra_okD(2) [OF ok] assms(2) by (simp add: ra_ok_def)
qed

definition mem_define :: "(nat \<Rightarrow> u8) \<Rightarrow> kctx \<Rightarrow> nat \<Rightarrow> assembler \<Rightarrow> (u8 \<Rightarrow> u1) \<Rightarrow> (u8 \<Rightarrow> u1)" where
  "mem_define v K ref a m =
     (if slot_of a ref \<noteq> 0 then wr64 m (slot_addr K (slot_of a ref)) (v ref) else m)"

lemma agree_define:
  assumes slots: "slots_ok (Suc ref) b" and stop: "a_stopins b \<le> ref" and d: "d < 16"
    and ag: "agree v K ref b s" and val: "x_reg s d = v ref"
    and reg: "isReg (reg_of b ref) \<Longrightarrow> reg_of b ref = d"
    and live: "ra_live (Suc ref) b ref"
  shows "\<exists>s1. agree v K (Suc ref) b s1 \<and> x_flags s1 = x_flags s \<and> x_reg s1 = x_reg s \<and>
    x_mem s1 = mem_define v K ref b (x_mem s) \<and>
    xrun e (if slot_of b ref \<noteq> 0 then store_u64 RID_ESP (spillOffset (slot_of b ref)) d c else c) s = xrun e c s1"
proof -
  define sl where "sl = slot_of b ref"
  define s1 where "s1 = (if sl \<noteq> 0 then s\<lparr>x_mem := wr64 (x_mem s) (slot_addr K sl) (v ref)\<rparr> else s)"
  have sl: "sl < 256" using slots_okD(2) [OF slots live] by (simp add: sl_def)
  have sp: "x_reg s RID_ESP = kc_sp K" using agreeD(1) [OF ag] by (simp add: ctx_ok_def)
  have run: "xrun e (if sl \<noteq> 0 then store_u64 RID_ESP (spillOffset sl) d c else c) s = xrun e c s1"
    using run_store [of RID_ESP d e "spillOffset sl" c s] d val sp
    by (simp add: s1_def slot_addr_def RID_ESP_def)
  have r: "x_reg s1 = x_reg s" "x_flags s1 = x_flags s" by (simp_all add: s1_def)
  have "agree v K (Suc ref) b s1"
    unfolding agree_def
  proof (intro conjI allI impI)
    show "ctx_ok K s1" using agreeD(1) [OF ag] ctx_ok_save [OF _ sl] by (simp add: s1_def)
    fix x assume x: "ra_live (Suc ref) b x"
    then have x': "x \<noteq> ref \<Longrightarrow> ra_live ref b x" by (simp add: ra_live_def)
    show "x_reg s1 (reg_of b x) = v x" if "isReg (reg_of b x)"
      using reg val agreeD(2) [OF ag x'] that by (cases "x = ref") (auto simp: r)
    show "rd64 (x_mem s1) (slot_addr K (slot_of b x)) = v x" if nz: "slot_of b x \<noteq> 0"
    proof (cases "x = ref")
      case True
      then show ?thesis using nz by (simp add: s1_def sl_def)
    next
      case False
      have old: "rd64 (x_mem s) (slot_addr K (slot_of b x)) = v x" using agreeD(3) [OF ag x' [OF False] nz] .
      show ?thesis
      proof (cases "sl = 0")
        case True
        then show ?thesis using old by (simp add: s1_def)
      next
        case sl0: False
        have ne: "slot_of b x \<noteq> sl"
          using slots_okD(4) [OF slots x live False] nz stop by (auto simp: sl_def)
        have b: "slot_of b x < 256" using slots_okD(2) [OF slots x] .
        show ?thesis
          using old sl0 rd_wr_other [OF slots_apart [OF b sl ne] slots_apart [OF sl b ne [symmetric]]]
          by (simp add: s1_def)
      qed
    qed
  qed
  moreover have "x_mem s1 = mem_define v K ref b (x_mem s)" by (simp add: s1_def sl_def mem_define_def)
  ultimately show ?thesis using run r by (auto simp: sl_def)
qed

lemma pickReg_ok:
  assumes ok: "ra_ok lim a" and lits: "lits_ok v K (a_buf a)" and allow: "gpr_set allow" "allow \<noteq> 0"
  shows "pickReg allow a = Inl (Exit 1) \<or>
    (\<exists>r a'. pickReg allow a = Inr (r, a') \<and> bit allow r \<and> ra_ok lim a' \<and> same_ir a a' \<and>
      alloc_code v K lim allow a a' \<and> bit (a_freeset a') r \<and>
      (\<forall>x. (ra_live lim a x \<and> isReg (reg_of a x) \<longrightarrow> \<not> bit allow (reg_of a x)) \<longrightarrow> a_ir a' x = a_ir a x))"
proof (cases "rs_isEmpty (rs_intersect (a_freeset a) allow)")
  case False
  then have "bit (rs_intersect (a_freeset a) allow) (rs_pickTop (rs_intersect (a_freeset a) allow))"
    by (simp add: pickTop_in rs_isEmpty_def)
  then show ?thesis using False ok by (simp add: pickReg_def Let_def bit_rs_simps)
next
  case True
  then have full: "\<not> bit (a_freeset a) r" if "bit allow r" for r
    using that by (auto simp: rs_isEmpty_iff bit_rs_simps)
  have e: "pickReg allow a = evictReg allow a" using True by (simp add: pickReg_def Let_def)
  have reg: "isReg (reg_of a (rc_ref (a_cost a r)))" "reg_of a (rc_ref (a_cost a r)) = r"
      "ra_live lim a (rc_ref (a_cost a r))" if "bit allow r" for r
    using regs_okD(5,6) [OF ra_okD(3) [OF ok] gpr_setD [OF allow(1) that] full [OF that]]
      isReg_small [OF gpr_less [OF gpr_setD [OF allow(1) that]]] by simp_all
  have fr: "bit (rs_set r s) r" if "bit allow r" for r s
    using gpr_less [OF gpr_setD [OF allow(1) that]] by (simp add: bit_rs_simps)
  show ?thesis
    using evictReg_ok [OF ok lits gpr_setD [OF allow(1)] allow(2) full] reg fr unfolding e by metis
qed

lemma alloc_code_modified [simp]: "alloc_code v K lim allow a (modifiedReg r a') = alloc_code v K lim allow a a'"
  by (simp add: alloc_code_def agree_def ra_live_def)

lemma ra_ok_modified [simp]: "ra_ok lim (modifiedReg r a) = ra_ok lim a"
  by (simp add: ra_ok_def regs_ok_def lits_alloc_ok_def slots_ok_def ra_live_def)

lemma allocScratchReg_ok:
  assumes ok: "ra_ok lim a" and lits: "lits_ok v K (a_buf a)" and allow: "gpr_set allow" "allow \<noteq> 0"
  shows "allocScratchReg allow a = Inl (Exit 1) \<or>
    (\<exists>r a'. allocScratchReg allow a = Inr (r, a') \<and> bit allow r \<and> ra_ok lim a' \<and> same_ir a a' \<and>
      alloc_code v K lim allow a a' \<and> bit (a_freeset a') r \<and>
      (\<forall>x. (ra_live lim a x \<and> isReg (reg_of a x) \<longrightarrow> \<not> bit allow (reg_of a x)) \<longrightarrow> a_ir a' x = a_ir a x))"
  using pickReg_ok [OF assms]
proof (elim disjE exE conjE)
  assume "pickReg allow a = Inl (Exit 1)"
  then show ?thesis by (simp add: allocScratchReg_def)
next
  fix r a'
  assume 1: "pickReg allow a = Inr (r, a')" "bit allow r" "ra_ok lim a'" "same_ir a a'"
    "alloc_code v K lim allow a a'" "bit (a_freeset a') r"
    "\<forall>x. (ra_live lim a x \<and> isReg (reg_of a x) \<longrightarrow> \<not> bit allow (reg_of a x)) \<longrightarrow> a_ir a' x = a_ir a x"
  then have "allocScratchReg allow a = Inr (r, modifiedReg r a')" by (simp add: allocScratchReg_def)
  then show ?thesis using 1 same_ir_intros(4) [OF 1(4)] by auto
qed

text \<open>
  \<open>dest_code\<close>: from a state that agrees with the tables after \<^verbatim>\<open>destReg\<close> and has the value of the
  instruction in \<open>d\<close>, the emitted code makes the tables true in which the instruction is live.
\<close>

definition dest_code :: "(nat \<Rightarrow> u8) \<Rightarrow> kctx \<Rightarrow> nat \<Rightarrow> nat \<Rightarrow> assembler \<Rightarrow> assembler \<Rightarrow> bool" where
  "dest_code v K ref d a a' \<longleftrightarrow>
     (\<forall>s. agree v K ref a' s \<and> x_reg s d = v ref \<longrightarrow>
        (\<exists>s'. agree v K (Suc ref) a s' \<and> xrun (a_mcend a) (a_mc a') s = xrun (a_mcend a) (a_mc a) s' \<and>
           x_flags s' = x_flags s \<and> x_mem s' = mem_define v K ref a' (x_mem s)))"

lemma same_ir_sym: "same_ir a b \<Longrightarrow> same_ir b a"
proof -
  assume s: "same_ir a b"
  then have e: "a_buf b = (a_buf a)\<lparr>ib_buffer := ib_buffer (a_buf b)\<rparr>" by (simp add: same_ir_def)
  have "a_buf a = (a_buf b)\<lparr>ib_buffer := ib_buffer (a_buf a)\<rparr>" by (subst e) simp
  with s show ?thesis by (simp add: same_ir_def)
qed

definition save_result :: "nat \<Rightarrow> nat \<Rightarrow> assembler \<Rightarrow> assembler" where
  "save_result ref d b = (if slot_of b ref \<noteq> 0 then saveReg ref d b else b)"

lemma save_result_fields [simp]:
  "a_ir (save_result ref d b) = a_ir b" "a_freeset (save_result ref d b) = a_freeset b"
  "a_cost (save_result ref d b) = a_cost b" "a_spills (save_result ref d b) = a_spills b"
  "a_mcend (save_result ref d b) = a_mcend b" "same_ir b (save_result ref d b)"
  "a_mc (save_result ref d b) =
     (if slot_of b ref \<noteq> 0 then store_u64 RID_ESP (spillOffset (slot_of b ref)) d (a_mc b) else a_mc b)"
  by (simp_all add: save_result_def saveReg_def same_ir_intros)

lemma ra_ok_save_result [simp]: "ra_ok lim (save_result ref d b) = ra_ok lim b"
  using ra_ok_cong [of lim b "save_result ref d b"] ra_ok_cong [of lim "save_result ref d b" b]
    same_ir_sym [of b "save_result ref d b"] by auto

text \<open>The register of an instruction with one is free once its definition is reached.\<close>

lemma dest_release:
  assumes ok: "ra_ok (Suc ref) a" and ref: "REF_BIAS \<le> ref" and lv: "ra_live (Suc ref) a ref"
    and reg: "isReg (reg_of a ref)" and b: "b = modifiedReg (reg_of a ref) (freeReg (reg_of a ref) a)"
  shows "ra_ok ref b"
proof -
  define d where "d = reg_of a ref"
  define c where "c = a_updIr ref (ir_setReg RID_INIT) b"
  have sb: "same_ir a b" unfolding b by (intro same_ir_intros) simp
  have sc: "same_ir a c" "same_ir b c" unfolding c_def using sb by (intro same_ir_intros; simp)+
  have regc: "reg_of c ref = RID_INIT" by (simp add: c_def a_ir_updIr RID_INIT_def)
  have irc: "a_ir c x = a_ir a x" if "x \<noteq> ref" for x using that by (simp add: c_def a_ir_updIr b)
  have slc: "slot_of c x = slot_of a x" for x by (simp add: c_def a_ir_updIr b)
  have fc: "a_freeset c = rs_set d (a_freeset a)" "a_cost c = a_cost a" "a_spills c = a_spills a"
    by (simp_all add: c_def b d_def)
  have "regs_ok (Suc ref) c"
    by (rule regs_ok_release [OF ra_okD(3) [OF ok] lv reg])
      (simp_all add: fc d_def regc not_isReg_RID_INIT irc same_ir_fields(8) [OF sc(1)])
  moreover have "lits_alloc_ok (Suc ref) c"
    by (rule lits_alloc_ok_release [OF ra_okD(4) [OF ok] sc(1) slc]) (metis regc not_isReg_RID_INIT irc)
  moreover have "slots_ok (Suc ref) c" by (rule slots_ok_same [OF ra_okD(5) [OF ok] sc(1) fc(3) slc])
  ultimately have "ra_ok (Suc ref) c" using ra_okD(1,2) [OF ok] by (simp add: ra_ok_def)
  from ra_ok_shrink [OF this ref] have okc: "ra_ok ref c" by (simp add: regc not_isReg_RID_INIT)
  show ?thesis
    by (rule ra_ok_cong [OF okc same_ir_sym [OF sc(2)]]) (auto simp: fc irc b ra_live_def d_def)
qed

lemma dest_code_save:
  assumes slots: "slots_ok (Suc ref) b" and stop: "a_stopins b \<le> ref" and d: "d < 16"
    and lv: "ra_live (Suc ref) b ref" and reg: "isReg (reg_of b ref) \<Longrightarrow> reg_of b ref = d"
    and same: "same_ir b c" and c: "\<And>x. x \<noteq> ref \<Longrightarrow> a_ir c x = a_ir b x" "slot_of c ref = slot_of b ref"
      "a_mc c = a_mc b"
  shows "dest_code v K ref d b (save_result ref d c)"
  unfolding dest_code_def
proof (intro allI impI, elim conjE)
  fix s assume ag: "agree v K ref (save_result ref d c) s" and val: "x_reg s d = v ref"
  have "same_ir b (save_result ref d c)" using same_ir_trans [OF same] save_result_fields(6) .
  from same_ir_fields(8) [OF this] have lvb: "ra_live ref b = ra_live ref (save_result ref d c)" by simp
  have aga: "agree v K ref b s"
    by (rule agree_cong [OF ag lvb]) (use c(1) lvb in \<open>auto simp: ra_live_def\<close>)
  from agree_define [OF slots stop d aga val reg lv, of "a_mcend b" "a_mc b"]
  show "\<exists>s'. agree v K (Suc ref) b s' \<and>
      xrun (a_mcend b) (a_mc (save_result ref d c)) s = xrun (a_mcend b) (a_mc b) s' \<and> x_flags s' = x_flags s \<and>
      x_mem s' = mem_define v K ref (save_result ref d c) (x_mem s)"
    unfolding save_result_fields(7) mem_define_def save_result_fields(1) c(2,3) by auto
qed

lemma dest_code_trans:
  assumes "alloc_code v K (Suc ref) allow a b" and "dest_code v K ref d b c" and "a_mcend b = a_mcend a"
  shows "dest_code v K ref d a c"
  using assms unfolding alloc_code_def dest_code_def by metis

lemma destReg_ok:
  assumes ok: "ra_ok (Suc ref) a" and lits: "lits_ok v K (a_buf a)" and allow: "gpr_set allow" "allow \<noteq> 0"
    and ref: "REF_BIAS \<le> ref" "a_stopins a \<le> ref" and lv: "ra_live (Suc ref) a ref"
  shows "destReg ref allow a = Inl (Exit 1) \<or>
    (\<exists>d a'. destReg ref allow a = Inr (d, a') \<and> ra_ok ref a' \<and> same_ir a a' \<and> dest_code v K ref d a a' \<and>
      bit kGPR d \<and> bit (a_freeset a') d \<and> (if isReg (reg_of a ref) then d = reg_of a ref else bit allow d) \<and>
      reg_of a' ref = d \<and>
      (\<forall>x. x \<noteq> ref \<and> (ra_live ref a x \<and> isReg (reg_of a x) \<longrightarrow> \<not> bit allow (reg_of a x)) \<longrightarrow> a_ir a' x = a_ir a x))"
proof (cases "isReg (reg_of a ref)")
  case True
  define d where "d = reg_of a ref"
  define b where "b = modifiedReg d (freeReg d a)"
  have run: "destReg ref allow a = Inr (d, save_result ref d b)"
    using True by (simp add: destReg_def d_def save_result_def b_def Let_def)
  have g: "bit kGPR d" "d < 16" "d < 32"
    using regs_okD(2) [OF ra_okD(3) [OF ok] lv True] gpr_less [of d] by (auto simp: d_def)
  have sb: "same_ir a b" unfolding b_def by (intro same_ir_intros) simp
  have okb: "ra_ok ref b" by (rule dest_release [OF ok ref(1) lv True]) (simp add: b_def d_def)
  have fb: "a_ir b = a_ir a" "a_mc b = a_mc a" by (simp_all add: b_def)
  have "dest_code v K ref d a (save_result ref d b)"
    by (rule dest_code_save [OF ra_okD(5) [OF ok] ref(2) g(2) lv _ sb]) (simp_all add: fb d_def)
  moreover have "bit (a_freeset (save_result ref d b)) d" using g(3) by (simp add: b_def bit_rs_simps)
  ultimately show ?thesis
    using run okb same_ir_trans [OF sb save_result_fields(6)] g(1) True by (auto simp: d_def fb)
next
  case False
  define h where "h = getHint (reg_of a ref)"
  define p where "p = (if hasHint (reg_of a ref) \<and> rs_test h (rs_intersect (a_freeset a) allow)
               then Inr (h, modifiedReg h a) else allocScratchReg allow a)"
  have e: "destReg ref allow a = res_bind p (\<lambda>(d, b). Inr (d, save_result ref d (a_updIr ref (ir_setReg d) b)))"
    unfolding destReg_def Let_def p_def h_def save_result_def if_not_P [OF False]
    by (cases "allocScratchReg allow a") (auto simp: res_bind_assoc)
  have "p = Inl (Exit 1) \<or>
    (\<exists>r b. p = Inr (r, b) \<and> bit allow r \<and> ra_ok (Suc ref) b \<and> same_ir a b \<and>
      alloc_code v K (Suc ref) allow a b \<and> bit (a_freeset b) r \<and>
      (\<forall>x. (ra_live (Suc ref) a x \<and> isReg (reg_of a x) \<longrightarrow> \<not> bit allow (reg_of a x)) \<longrightarrow> a_ir b x = a_ir a x))"
  proof (cases "hasHint (reg_of a ref) \<and> rs_test h (rs_intersect (a_freeset a) allow)")
    case True
    then show ?thesis using ok by (simp add: p_def rs_test_bit bit_rs_simps)
  next
    case False
    then have "p = allocScratchReg allow a" unfolding p_def by (rule if_not_P)
    then show ?thesis using allocScratchReg_ok [OF ok lits allow] by (simp only:)
  qed
  then show ?thesis
  proof (elim disjE exE conjE)
    assume "p = Inl (Exit 1)" then show ?thesis by (simp add: e)
  next
    fix d b
    assume p: "p = Inr (d, b)" and d: "bit allow d" and okb: "ra_ok (Suc ref) b" and sb: "same_ir a b"
      and cb: "alloc_code v K (Suc ref) allow a b" and fr: "bit (a_freeset b) d"
      and keep: "\<forall>x. (ra_live (Suc ref) a x \<and> isReg (reg_of a x) \<longrightarrow> \<not> bit allow (reg_of a x)) \<longrightarrow> a_ir b x = a_ir a x"
    have g: "bit kGPR d" "d < 16" using gpr_setD [OF allow(1) d] gpr_less by auto
    define c where "c = a_updIr ref (ir_setReg d) b"
    have bref: "a_ir b ref = a_ir a ref" using keep lv False by blast
    have sc: "same_ir b c" unfolding c_def by (intro same_ir_intros) simp_all
    have ox: "a_ir c x = a_ir b x" if "x \<noteq> ref" for x using that by (simp add: c_def a_ir_updIr)
    have fc: "a_freeset c = a_freeset b" "a_cost c = a_cost b" "a_spills c = a_spills b" "a_mc c = a_mc b"
        "slot_of c ref = slot_of b ref"
      by (simp_all add: c_def a_ir_updIr)
    have lvb: "ra_live n b = ra_live n a" for n by (rule same_ir_fields(8) [OF sb])
    have nrb: "\<not> isReg (reg_of b ref)" using False by (simp add: bref)
    have okc: "ra_ok ref c"
      by (rule ra_ok_cong [OF ra_ok_shrink [OF okb ref(1) nrb] sc]) (use ox fc in \<open>auto simp: ra_live_def\<close>)
    have st: "a_stopins b \<le> ref" "a_mcend b = a_mcend a" using sb ref(2) by (simp_all add: same_ir_def)
    have "dest_code v K ref d b (save_result ref d c)"
      by (rule dest_code_save [OF ra_okD(5) [OF okb] st(1) g(2) _ _ sc ox fc(5,4)])
        (use lv nrb in \<open>simp_all add: lvb\<close>)
    then have "dest_code v K ref d a (save_result ref d c)" by (rule dest_code_trans [OF cb _ st(2)])
    moreover have "destReg ref allow a = Inr (d, save_result ref d c)" by (simp add: e p c_def)
    moreover have "\<forall>x. x \<noteq> ref \<and> (ra_live ref a x \<and> isReg (reg_of a x) \<longrightarrow> \<not> bit allow (reg_of a x)) \<longrightarrow>
        a_ir (save_result ref d c) x = a_ir a x"
      using keep ox by (auto simp: ra_live_def)
    moreover have "reg_of (save_result ref d c) ref = d" using g(2) by (simp add: c_def a_ir_updIr)
    ultimately show ?thesis
      using okc same_ir_trans [OF sb same_ir_trans [OF sc save_result_fields(6)]] g(1) fr d False fc(1)
      by auto
  qed
qed

section \<open>The left operand\<close>

text \<open>Hints do not matter.\<close>

definition same_alloc :: "assembler \<Rightarrow> assembler \<Rightarrow> bool" where
  "same_alloc a b \<longleftrightarrow> same_ir a b \<and> a_freeset b = a_freeset a \<and> a_cost b = a_cost a \<and>
     a_spills b = a_spills a \<and>
     (\<forall>x. slot_of b x = slot_of a x \<and>
        (reg_of b x = reg_of a x \<or> \<not> isReg (reg_of b x) \<and> \<not> isReg (reg_of a x)))"

lemma ra_ok_hint:
  assumes "ra_ok lim a" and "same_alloc a b"
  shows "ra_ok lim b"
proof -
  have same: "same_ir a b" and f: "a_freeset b = a_freeset a" "a_cost b = a_cost a" "a_spills b = a_spills a"
    and sl: "\<And>x. slot_of b x = slot_of a x"
    and r: "\<And>x. reg_of b x = reg_of a x \<or> \<not> isReg (reg_of b x) \<and> \<not> isReg (reg_of a x)"
    using assms(2) unfolding same_alloc_def by blast+
  have lv: "ra_live lim b = ra_live lim a" by (rule same_ir_fields(8) [OF same])
  have used: "reg_of a x = i \<Longrightarrow> isReg i \<Longrightarrow> reg_of b x = i" for x i using r [of x] by auto
  have "regs_ok lim b"
    unfolding regs_ok_def
  proof (intro conjI allI impI; (elim conjE)?)
    fix i assume i: "bit kGPR i" "\<not> bit (a_freeset b) i"
    then have "\<not> bit (a_freeset a) i" by (simp add: f)
    from regs_okD(5,6) [OF ra_okD(3) [OF assms(1)] i(1) this]
    show "ra_live lim b (rc_ref (a_cost b i))" "reg_of b (rc_ref (a_cost b i)) = i"
      using used isReg_small [OF gpr_less [OF i(1)]] by (simp_all add: lv f)
  next
    fix x assume x: "ra_live lim b x" "isReg (reg_of b x)"
    then have e: "reg_of b x = reg_of a x" "ra_live lim a x" "isReg (reg_of a x)" using r [of x] by (auto simp: lv)
    show "bit kGPR (reg_of b x)" "\<not> bit (a_freeset b) (reg_of b x)" "rc_ref (a_cost b (reg_of b x)) = x"
      using regs_okD(2-4) [OF ra_okD(3) [OF assms(1)] e(2,3)] by (simp_all add: e(1) f)
  qed (use regs_okD(1) [OF ra_okD(3) [OF assms(1)]] f in auto)
  moreover have "lits_alloc_ok lim b"
    by (rule lits_alloc_ok_release [OF ra_okD(4) [OF assms(1)] same sl]) (use r in metis)
  moreover have "slots_ok lim b" by (rule slots_ok_same [OF ra_okD(5) [OF assms(1)] same f(3) sl])
  ultimately show ?thesis using ra_okD(1,2) [OF assms(1)] by (simp add: ra_ok_def)
qed

lemma agree_hint: "same_alloc a b \<Longrightarrow> agree v K lim b s \<Longrightarrow> agree v K lim a s"
  unfolding agree_def same_alloc_def using same_ir_fields(8) [of a b lim] by metis

text \<open>
  \<open>left_code\<close>: the emitted code also brings the value of \<open>lref\<close> into \<open>dest\<close>.
\<close>

definition left_code :: "(nat \<Rightarrow> u8) \<Rightarrow> kctx \<Rightarrow> nat \<Rightarrow> nat \<Rightarrow> nat \<Rightarrow> assembler \<Rightarrow> assembler \<Rightarrow> bool" where
  "left_code v K lim dest lref a a' \<longleftrightarrow>
     (\<forall>s. agree v K lim a' s \<longrightarrow>
        (\<exists>s'. agree v K lim a s' \<and> xrun (a_mcend a) (a_mc a') s = xrun (a_mcend a) (a_mc a) s' \<and>
           x_mem s' = x_mem s \<and> x_flags s' = x_flags s \<and> x_reg s' dest = v lref))"

lemma agree_set_free:
  assumes ag: "agree v K lim a s" and ok: "regs_ok lim a" and free: "bit (a_freeset a) d"
  shows "agree v K lim a (x_set d x s)"
proof -
  have "bit kGPR d" using regs_okD(1) [OF ok free] .
  moreover have "reg_of a y \<noteq> d" if "ra_live lim a y" "isReg (reg_of a y)" for y
    using regs_okD(3) [OF ok that] free by auto
  ultimately show ?thesis
    using ctx_ok_set [OF agreeD(1) [OF ag]] agreeD(2,3) [OF ag]
    by (simp add: agree_def) (simp add: x_set_def)
qed

lemma allocLeft_ok:
  assumes ok: "ra_ok lim a" and lits: "lits_ok v K (a_buf a)" and free: "bit (a_freeset a) dest"
    and al: "allocatable lim a lref"
  shows "allocLeft dest lref a = Inl (Exit 1) \<or>
    (\<exists>a'. allocLeft dest lref a = Inr ((), a') \<and> ra_ok lim a' \<and> same_ir a a' \<and>
      left_code v K lim dest lref a a' \<and> keeps lim {lref} a a')"
proof -
  note regs = ra_okD(3) [OF ok]
  have g: "bit kGPR dest" "dest < 16" "dest < 256" using regs_okD(1) [OF regs free] gpr_less [of dest] by auto
  have live: "ra_live lim a lref" using al by (simp add: allocatable_def)
  have nr: "\<not> isReg (reg_of a lref) \<or> reg_of a lref \<noteq> dest" using regs_okD(3) [OF regs live] free by auto
  show ?thesis
  proof (cases "isReg (reg_of a lref)")
    case True
    define left where "left = reg_of a lref"
    have l: "bit kGPR left" "left < 16" "left \<noteq> dest"
      using regs_okD(2) [OF regs live True] gpr_less [of left] nr True by (auto simp: left_def)
    define a' where "a' = a_emit (move dest left) a"
    have run: "allocLeft dest lref a = Inr ((), a')"
      using True l(3) by (simp add: allocLeft_def left_def a'_def Let_def)
    have sa: "same_alloc a a'" by (simp add: same_alloc_def a'_def)
    have "left_code v K lim dest lref a a'"
      unfolding left_code_def
    proof (intro allI impI)
      fix s assume ag': "agree v K lim a' s"
      have ag: "agree v K lim a s" by (rule agree_hint [OF sa ag'])
      have vl: "x_reg s left = v lref" using agreeD(2) [OF ag live True] by (simp add: left_def)
      show "\<exists>s'. agree v K lim a s' \<and> xrun (a_mcend a) (a_mc a') s = xrun (a_mcend a) (a_mc a) s' \<and>
           x_mem s' = x_mem s \<and> x_flags s' = x_flags s \<and> x_reg s' dest = v lref"
        using agree_set_free [OF ag regs free, of "v lref"] run_move [OF g(2) l(2), of "a_mcend a" "a_mc a" s] vl
        by (intro exI [of _ "x_set dest (v lref) s"]) (simp add: a'_def x_set_def)
    qed
    then show ?thesis using run ra_ok_hint [OF ok sa] sa by (auto simp: same_alloc_def keeps_def a'_def)
  next
    case nreg: False
    show ?thesis
    proof (cases "lref < REF_BIAS")
      case lit: True
      define a1 where "a1 = a_updIr lref (ir_setReg dest) a"
      have s1: "same_ir a a1" unfolding a1_def by (intro same_ir_intros) simp_all
      have vl: "value_lit (a_buf a1) lref"
        using al lit by (simp add: allocatable_def same_ir_value_lit [OF s1])
      have r1: "reg_of a1 lref = dest" "slot_of a1 lref = slot_of a lref"
        using g(3) by (simp_all add: a1_def a_ir_updIr)
      have sl0: "slot_of a lref = 0" using ra_okD(4) [OF ok] live lit by (simp add: lits_alloc_ok_def)
      have lits1: "lits_ok v K (a_buf a1)" using lits by (simp add: same_ir_lits_ok [OF s1])
      have bm: "ib_bufmin (a_buf a1) \<le> lref" using live by (simp add: same_ir_fields(6) [OF s1] ra_live_def)
      from rematConstant_exact [OF vl _ _ lits1 bm lit] obtain f where
        f: "rematConstant lref a1 = Inr (dest, a_emit f (a_updIr lref (ir_setReg RID_INIT) (modifiedReg dest (freeReg dest a1))))"
        and run: "\<And>e c s. x_reg s RID_BASE = kc_base K \<Longrightarrow> xrun e (f c) s = xrun e c (x_set dest (v lref) s)"
        using g(2) isReg_small [OF g(2)] by (auto simp: r1 sl0)
      define a' where "a' = a_emit f (a_updIr lref (ir_setReg RID_INIT) (modifiedReg dest (freeReg dest a1)))"
      have e: "allocLeft dest lref a = Inr ((), a')"
        using nreg lit f by (simp add: allocLeft_def irref_islit_def a1_def a'_def Let_def)
      have fs: "rs_set dest (a_freeset a) = a_freeset a"
        using free by (intro bit_word_eqI) (auto simp: bit_rs_simps)
      have sa: "same_alloc a a'"
        unfolding same_alloc_def
      proof (intro conjI allI)
        show "same_ir a a'" unfolding a'_def using s1 by (intro same_ir_intros) simp_all
        fix x
        have ir: "a_ir a' x = (if x = lref then ir_setReg RID_INIT (ir_setReg dest (a_ir a lref)) else a_ir a x)"
          by (simp add: a'_def a1_def a_ir_updIr)
        show "slot_of a' x = slot_of a x" by (simp add: ir)
        show "reg_of a' x = reg_of a x \<or> \<not> isReg (reg_of a' x) \<and> \<not> isReg (reg_of a x)"
          unfolding ir using nreg not_isReg_RID_INIT by (auto simp: RID_INIT_def)
      qed (simp_all add: a'_def a1_def fs)
      have "left_code v K lim dest lref a a'"
        unfolding left_code_def
      proof (intro allI impI)
        fix s assume ag': "agree v K lim a' s"
        have ag: "agree v K lim a s" by (rule agree_hint [OF sa ag'])
        have "x_reg s RID_BASE = kc_base K" using agreeD(1) [OF ag] by (simp add: ctx_ok_def)
        then have "xrun (a_mcend a) (a_mc a') s = xrun (a_mcend a) (a_mc a) (x_set dest (v lref) s)"
          by (simp add: a'_def a1_def run)
        then show "\<exists>s'. agree v K lim a s' \<and> xrun (a_mcend a) (a_mc a') s = xrun (a_mcend a) (a_mc a) s' \<and>
             x_mem s' = x_mem s \<and> x_flags s' = x_flags s \<and> x_reg s' dest = v lref"
          using agree_set_free [OF ag regs free, of "v lref"]
          by (intro exI [of _ "x_set dest (v lref) s"]) (simp add: x_set_def)
      qed
      moreover have "keeps lim {lref} a a'" by (simp add: keeps_def a'_def a1_def a_ir_updIr)
      ultimately show ?thesis using e ra_ok_hint [OF ok sa] sa by (auto simp: same_alloc_def)
    next
      case nlit: False
      define b where "b = (if \<not> hasHint (reg_of a lref) then setHint lref dest a else a)"
      have hr: "reg_of (setHint lref dest a) lref = dest OR RID_NONE"
      proof -
        have "(dest OR RID_NONE) mod 256 = dest OR RID_NONE"
          using small_cases [OF g(2)] by (auto simp: RID_NONE_def)
        then show ?thesis using g(3) by (simp add: setHint_def a_ir_updIr ir_setReg_def ir_reg_def)
      qed
      have sa: "same_alloc a b"
      proof (cases "hasHint (reg_of a lref)")
        case True then show ?thesis by (simp add: b_def same_alloc_def)
      next
        case False
        have "same_ir a (setHint lref dest a)" unfolding setHint_def by (intro same_ir_intros) simp_all
        moreover have "slot_of (setHint lref dest a) x = slot_of a x" for x
          by (simp add: setHint_def a_ir_updIr ir_setReg_def ir_spill_def)
        moreover have "reg_of (setHint lref dest a) x = reg_of a x \<or>
            \<not> isReg (reg_of (setHint lref dest a) x) \<and> \<not> isReg (reg_of a x)" for x
          using nreg hr not_isReg_hint by (cases "x = lref") (auto simp: setHint_def a_ir_updIr)
        ultimately show ?thesis using False by (simp add: b_def same_alloc_def) (simp add: setHint_def)
      qed
      have sb: "same_ir a b" and okb: "ra_ok lim b" and fsb: "a_freeset b = a_freeset a"
        and mcb: "a_mc b = a_mc a" "a_mcend b = a_mcend a"
        using sa ra_ok_hint [OF ok sa] by (auto simp: same_alloc_def b_def setHint_def)
      have nrb: "\<not> isReg (reg_of b lref)" using sa nreg unfolding same_alloc_def by metis
      have alb: "allocatable lim b lref"
        using al by (simp add: allocatable_def same_ir_fields(8) [OF sb] same_ir_value_lit [OF sb])
      have litsb: "lits_ok v K (a_buf b)" using lits by (simp add: same_ir_lits_ok [OF sb])
      have e: "allocLeft dest lref a = res_bind (allocRef lref kGPR b)
          (\<lambda>(left, a). Inr ((), if dest \<noteq> left then a_emit (move dest left) a else a))"
        using nreg nlit g(2)
        by (simp add: allocLeft_def irref_islit_def Let_def lc_assert_def b_def rid_defs)
      have kg: "kGPR \<noteq> 0" by (simp add: kGPR_val)
      from allocRef_ok [OF okb litsb gpr_set_simps(1) kg alb nrb] show ?thesis
      proof (elim disjE exE conjE)
        assume "allocRef lref kGPR b = Inl (Exit 1)"
        then show ?thesis by (simp add: e)
      next
        fix left c
        assume run: "allocRef lref kGPR b = Inr (left, c)" and l: "bit kGPR left" and okc: "ra_ok lim c"
          and sc: "same_ir b c" and code: "alloc_code v K lim kGPR b c" and regc: "reg_of c lref = left"
          and fsc: "a_freeset c = rs_clear left (a_freeset b)"
          and val: "\<forall>s. agree v K lim c s \<longrightarrow> x_reg s left = v lref" and kc: "keeps lim {lref} b c"
        define a' where "a' = (if dest \<noteq> left then a_emit (move dest left) c else c)"
        have l16: "left < 16" using gpr_less [OF l] .
        have sca: "same_alloc c a'" by (simp add: same_alloc_def a'_def)
        have mce: "a_mcend c = a_mcend a" using sc mcb(2) by (simp add: same_ir_def)
        have "left_code v K lim dest lref a a'"
          unfolding left_code_def
        proof (intro allI impI)
          fix s assume ag': "agree v K lim a' s"
          have agc: "agree v K lim c s" by (rule agree_hint [OF sca ag'])
          define s1 where "s1 = (if dest \<noteq> left then x_set dest (v lref) s else s)"
          have vl: "x_reg s left = v lref" using val agc by blast
          have r1: "xrun (a_mcend a) (a_mc a') s = xrun (a_mcend a) (a_mc c) s1"
            using run_move [OF g(2) l16, of "a_mcend a" "a_mc c" s] vl by (simp add: a'_def s1_def)
          have d1: "x_reg s1 dest = v lref" using vl by (simp add: s1_def x_set_def)
          have "dest \<noteq> left \<Longrightarrow> bit (a_freeset c) dest" using free by (simp add: fsc fsb bit_rs_simps)
          then have ag1: "agree v K lim c s1"
            using agree_set_free [OF agc ra_okD(3) [OF okc]] agc by (simp add: s1_def)
          from code ag1 obtain s2 where s2: "agree v K lim b s2"
              "xrun (a_mcend b) (a_mc c) s1 = xrun (a_mcend b) (a_mc b) s2"
              "x_mem s2 = x_mem s1" "x_flags s2 = x_flags s1"
              "\<forall>r. bit (a_freeset b) r \<or> \<not> bit kGPR r \<longrightarrow> x_reg s2 r = x_reg s1 r"
            unfolding alloc_code_def by blast
          have "x_reg s2 dest = v lref" using s2(5) free d1 by (simp add: fsb)
          moreover have "x_mem s1 = x_mem s" "x_flags s1 = x_flags s" by (simp_all add: s1_def x_set_def)
          ultimately show "\<exists>s'. agree v K lim a s' \<and> xrun (a_mcend a) (a_mc a') s = xrun (a_mcend a) (a_mc a) s' \<and>
               x_mem s' = x_mem s \<and> x_flags s' = x_flags s \<and> x_reg s' dest = v lref"
            using agree_hint [OF sa s2(1)] r1 s2(2-4) by (auto simp: mcb)
        qed
        moreover have "same_ir a a'" using same_ir_trans [OF same_ir_trans [OF sb sc]] sca
          by (auto simp: same_alloc_def)
        moreover have "keeps lim {lref} a a'"
          using kc same_ir_fields(8) [OF sb] by (simp add: keeps_def a'_def b_def setHint_def a_ir_updIr)
        ultimately show ?thesis using run ra_ok_hint [OF okc sca] by (simp add: e a'_def)
      qed
    qed
  qed
qed

end
