(* ===== verification/ParallelMove.thy ===== *)
theory ParallelMove
  imports AllocCorrect
begin

text \<open>
  Parallel assignment in \<^verbatim>\<open>src/vm/assembler.cc\<close>: a side trace starts with its inherited values
  where the parent trace left them and moves them to where it expects them
  (\<^verbatim>\<open>mergeWithParent\<close>).  The moves are simultaneous; \<^verbatim>\<open>moveOne\<close> orders them and breaks cycles
  with a temporary register, or with the heap pointer when no register is free.

  The lemmas show that the emitted code performs the simultaneous assignment.
\<close>

section \<open>Locations and assignments\<close>

record regspill =
  rsp_reg :: nat
  rsp_spill :: nat

definition hasSpill :: "regspill \<Rightarrow> bool" where "hasSpill r \<longleftrightarrow> rsp_spill r \<noteq> 0"

definition rsp_ofReg :: "nat \<Rightarrow> regspill" where
  "rsp_ofReg r = \<lparr>rsp_reg = r, rsp_spill = 0\<rparr>"

definition rsp_ofSpill :: "nat \<Rightarrow> regspill" where
  "rsp_ofSpill s = \<lparr>rsp_reg = RID_NONE, rsp_spill = s\<rparr>"

definition PA_STATUS_TODO :: nat where "PA_STATUS_TODO = 0"
definition PA_STATUS_MOVING :: nat where "PA_STATUS_MOVING = 1"
definition PA_STATUS_DONE :: nat where "PA_STATUS_DONE = 2"

text \<open>\<^verbatim>\<open>ParAssign\<close>; the arrays hold \<open>pa_size\<close> entries.\<close>

record par_assign =
  pa_dest :: "regspill list"
  pa_source :: "regspill list"
  pa_status :: "nat list"
  pa_size :: nat
  pa_tmpsInUse :: nat
  pa_usingHp :: bool

type_synonym 'a pa_result = "('a \<times> par_assign \<times> assembler) result"

definition needsMoving :: "regspill \<Rightarrow> regspill \<Rightarrow> bool" where
  "needsMoving dst src \<longleftrightarrow>
     \<not> (isReg (rsp_reg dst) \<and> rsp_reg dst = rsp_reg src \<or>
        rsp_spill dst \<noteq> 0 \<and> rsp_spill dst = rsp_spill src)"

definition conflicts :: "regspill \<Rightarrow> regspill \<Rightarrow> bool" where
  "conflicts candidate src \<longleftrightarrow>
     isReg (rsp_reg candidate) \<and> rsp_reg candidate = rsp_reg src \<or>
     hasSpill candidate \<and> rsp_spill candidate = rsp_spill src"

section \<open>Temporaries\<close>

definition SAVE_HP_OFFS :: nat where "SAVE_HP_OFFS = SPILL_SP_OFFS"

definition getTemp :: "par_assign \<Rightarrow> assembler \<Rightarrow> nat pa_result" where
  "getTemp pa a =
     (if pa_tmpsInUse pa \<ge> 1 then Inl (Exit 1)
      else res_bind
        (if hasFreeReg a then res_bind (allocScratchReg kGPR a) (\<lambda>(r, a). Inr (r, pa, a))
         else Inr (RID_HP,
           if \<not> pa_usingHp pa
           then (pa\<lparr>pa_usingHp := True\<rparr>, a_emit (load_u64 RID_HP RID_ESP (of_nat SAVE_HP_OFFS)) a)
           else (pa, a)))
        (\<lambda>(r, pa, a). Inr (r, pa\<lparr>pa_tmpsInUse := 1\<rparr>, a)))"

definition releaseTemp :: "par_assign \<Rightarrow> par_assign result" where
  "releaseTemp pa = res_bind (lc_assert (pa_tmpsInUse pa = 1)) (\<lambda>_. Inr (pa\<lparr>pa_tmpsInUse := 0\<rparr>))"

section \<open>Moves\<close>

definition transfer :: "regspill \<Rightarrow> regspill \<Rightarrow> assembler \<Rightarrow> unit asm_result" where
  "transfer dst src a =
     res_bind
       (if isReg (rsp_reg dst)
        then res_bind (lc_assert (rsp_spill dst = 0)) (\<lambda>_.
               Inr (if isReg (rsp_reg src) then a_emit (move (rsp_reg dst) (rsp_reg src)) a
                    else a_emit (load_u64 (rsp_reg dst) RID_ESP (spillOffset (rsp_spill src))) a))
        else if isReg (rsp_reg src)
        then Inr (a_emit (store_u64 RID_ESP (spillOffset (rsp_spill dst)) (rsp_reg src)) a)
        else Inl (Exit 1))
       (\<lambda>a. Inr ((), if isReg (rsp_reg src) then useReg (rsp_reg src) a else a))"

text \<open>The case of a cycle: the write to the destination of \<open>j\<close> takes its value from a temporary,
  which becomes the destination of \<open>j\<close>.\<close>

definition breakCycle :: "nat \<Rightarrow> par_assign \<Rightarrow> assembler \<Rightarrow> unit pa_result" where
  "breakCycle j pa a =
     res_bind (getTemp pa a) (\<lambda>(tmp, pa, a).
     res_bind (releaseTemp pa) (\<lambda>pa.
       let dst = pa_dest pa ! j;
           a = (if isReg (rsp_reg dst) then a_emit (move (rsp_reg dst) tmp) a
                else a_emit (store_u64 RID_ESP (spillOffset (rsp_spill dst)) tmp) a)
       in Inr ((), pa\<lparr>pa_dest := (pa_dest pa)[j := rsp_ofReg tmp]\<rparr>, a)))"

text \<open>
  \<open>moveOne\<close> calls itself for moves that are still to be done, which it marks; \<open>fuel\<close> bounds the
  depth of the calls, and one more than the number of moves is enough.
\<close>

fun moveOne :: "nat \<Rightarrow> nat \<Rightarrow> par_assign \<Rightarrow> assembler \<Rightarrow> unit pa_result"
and moveOne_loop :: "nat \<Rightarrow> nat list \<Rightarrow> regspill \<Rightarrow> par_assign \<Rightarrow> assembler \<Rightarrow> unit pa_result" where
  "moveOne 0 i pa a = Inl Diverge"
| "moveOne (Suc fuel) i pa a =
     (let dst = pa_dest pa ! i; src = pa_source pa ! i
      in res_bind (lc_assert (isReg (rsp_reg dst) \<or> isReg (rsp_reg src))) (\<lambda>_.
         if rsp_reg dst \<noteq> rsp_reg src
         then let pa = pa\<lparr>pa_status := (pa_status pa)[i := PA_STATUS_MOVING]\<rparr>
              in res_bind (moveOne_loop fuel [0..<pa_size pa] src pa a) (\<lambda>(_, pa, a).
                 res_bind (transfer (pa_dest pa ! i) (pa_source pa ! i) a) (\<lambda>(_, a).
                   Inr ((), pa\<lparr>pa_status := (pa_status pa)[i := PA_STATUS_DONE]\<rparr>, a)))
         else Inr ((), pa, a)))"
| "moveOne_loop fuel [] src pa a = Inr ((), pa, a)"
| "moveOne_loop fuel (j # js) src pa a =
     res_bind
       (if conflicts (pa_dest pa ! j) src \<and> pa_status pa ! j \<noteq> PA_STATUS_DONE
        then if pa_status pa ! j = PA_STATUS_TODO then moveOne fuel j pa a else breakCycle j pa a
        else Inr ((), pa, a))
       (\<lambda>(_, pa, a). moveOne_loop fuel js src pa a)"

fun parallel_loop :: "nat list \<Rightarrow> par_assign \<Rightarrow> assembler \<Rightarrow> unit pa_result" where
  "parallel_loop [] pa a = Inr ((), pa, a)"
| "parallel_loop (i # is) pa a =
     res_bind
       (if pa_status pa ! i = PA_STATUS_TODO then moveOne (Suc (pa_size pa)) i pa a
        else Inr ((), pa, a))
       (\<lambda>(_, pa, a). parallel_loop is pa a)"

definition parallelAssign :: "par_assign \<Rightarrow> assembler \<Rightarrow> unit pa_result" where
  "parallelAssign pa a =
     (let pa = pa\<lparr>pa_status := replicate (pa_size pa) PA_STATUS_TODO, pa_tmpsInUse := 0,
                  pa_usingHp := False\<rparr>
      in res_bind (parallel_loop [0..<pa_size pa] pa a) (\<lambda>(_, pa, a).
         Inr ((), pa, if pa_usingHp pa
                      then a_emit (store_u64 RID_ESP (of_nat SPILL_SP_OFFS) RID_HP) a else a)))"

section \<open>Merging with the parent\<close>

definition regsp_reg :: "nat \<Rightarrow> nat" where "regsp_reg rs = rs AND 0xff"
definition regsp_spill :: "nat \<Rightarrow> nat" where "regsp_spill rs = drop_bit 8 rs"

definition parentmap_at :: "assembler \<Rightarrow> nat \<Rightarrow> nat result" where
  "parentmap_at a p =
     (if p < length (ib_parentmap (a_buf a)) then Inr (ib_parentmap (a_buf a) ! p) else Inl BadAccess)"

text \<open>The moves for one inherited reference, and the save of case D.\<close>

definition merge_one ::
    "nat \<Rightarrow> (regspill \<times> regspill) list \<Rightarrow> assembler \<Rightarrow> (regspill \<times> regspill) list asm_result" where
  "merge_one i moves a =
     res_bind (parentmap_at a (i - REF_FIRST)) (\<lambda>rs.
       let parent_reg = regsp_reg rs; side_reg = ir_reg (a_ir a i);
           parent_spill = regsp_spill rs; side_spill = ir_spill (a_ir a i);
           source = (if isReg parent_reg then rsp_ofReg parent_reg else rsp_ofSpill parent_spill)
       in res_bind (lc_assert (parent_spill = 0 \<or> parent_spill = side_spill)) (\<lambda>_.
          if \<not> isReg side_reg
          then Inr (if isReg parent_reg \<and> side_spill \<noteq> 0 \<and> parent_spill = 0
                    then moves @ [(rsp_ofSpill side_spill, rsp_ofReg parent_reg)] else moves, a)
          else res_bind (lc_assert (isReg parent_reg \<or> parent_spill \<noteq> 0)) (\<lambda>_.
               Inr (moves @ [(rsp_ofReg side_reg, source)],
                    if side_spill \<noteq> 0 \<and> parent_spill = 0 then saveReg i side_reg a else a))))"

fun merge_loop ::
    "nat list \<Rightarrow> (regspill \<times> regspill) list \<times> u4 \<Rightarrow> assembler \<Rightarrow>
     ((regspill \<times> regspill) list \<times> u4) asm_result" where
  "merge_loop [] st a = Inr (st, a)"
| "merge_loop (i # is) (moves, parmoves) a =
     res_bind (merge_one i moves a) (\<lambda>(moves, a).
       merge_loop is (moves, if isReg (ir_reg (a_ir a i)) then rs_set (ir_reg (a_ir a i)) parmoves
                             else parmoves) a)"

definition mergeWithParent :: "assembler \<Rightarrow> unit asm_result" where
  "mergeWithParent a =
     res_bind (merge_loop [REF_FIRST..<a_stopins a] ([], 0) a) (\<lambda>((moves, parmoves), a).
     res_bind
       (if moves \<noteq> []
        then res_bind
               (parallelAssign
                 \<lparr>pa_dest = map fst moves, pa_source = map snd moves, pa_status = [],
                  pa_size = length moves, pa_tmpsInUse = 0, pa_usingHp = False\<rparr> a)
               (\<lambda>(_, _, a'). Inr (a'\<lparr>a_freeset := a_freeset a\<rparr>))
        else Inr a)
       (\<lambda>a. Inr ((), a\<lparr>a_freeset := rs_setunion (a_freeset a) parmoves\<rparr>)))"

section \<open>Locations in the machine\<close>

definition hp_loc :: regspill where "hp_loc = rsp_ofReg RID_HP"
definition hp_save :: regspill where "hp_save = rsp_ofSpill 0"

text \<open>What takes part in an assignment, and what the emitted code may touch.\<close>

definition loc_ok :: "regspill \<Rightarrow> bool" where
  "loc_ok l \<longleftrightarrow> bit kGPR (rsp_reg l) \<and> rsp_spill l = 0 \<or>
     rsp_reg l = RID_NONE \<and> 0 < rsp_spill l \<and> rsp_spill l < 256"

definition mloc :: "regspill \<Rightarrow> bool" where
  "mloc l \<longleftrightarrow> rsp_reg l < 16 \<and> rsp_reg l \<noteq> RID_ESP \<and> rsp_spill l = 0 \<or>
     rsp_reg l = RID_NONE \<and> rsp_spill l < 256"

definition loc_val :: "kctx \<Rightarrow> xstate \<Rightarrow> regspill \<Rightarrow> u8" where
  "loc_val K s l = (if isReg (rsp_reg l) then x_reg s (rsp_reg l)
                    else rd64 (x_mem s) (slot_addr K (rsp_spill l)))"

definition loc_put :: "kctx \<Rightarrow> regspill \<Rightarrow> u8 \<Rightarrow> xstate \<Rightarrow> xstate" where
  "loc_put K l v s = (if isReg (rsp_reg l) then x_set (rsp_reg l) v s
                      else s\<lparr>x_mem := wr64 (x_mem s) (slot_addr K (rsp_spill l)) v\<rparr>)"

definition same_rest :: "kctx \<Rightarrow> xstate \<Rightarrow> xstate \<Rightarrow> bool" where
  "same_rest K s s' \<longleftrightarrow> x_reg s' RID_ESP = x_reg s RID_ESP \<and> x_flags s' = x_flags s \<and>
     (\<forall>addr. \<not> spill_area K addr \<longrightarrow> x_mem s' addr = x_mem s addr)"

lemma not_isReg_NONE [simp]: "\<not> isReg RID_NONE"
  by (simp add: isReg_def RID_NONE_def)

lemma loc_ok_mloc: "loc_ok l \<Longrightarrow> mloc l"
  by (auto simp: loc_ok_def mloc_def bit_kGPR rid_defs)

lemma hp_mloc [simp]: "mloc hp_loc" "mloc hp_save"
  by (simp_all add: mloc_def hp_loc_def hp_save_def rsp_ofReg_def rsp_ofSpill_def rid_defs)

lemma loc_ok_not_hp: "loc_ok l \<Longrightarrow> l \<noteq> hp_loc \<and> l \<noteq> hp_save"
  by (auto simp: loc_ok_def bit_kGPR hp_loc_def hp_save_def rsp_ofReg_def rsp_ofSpill_def rid_defs)

lemma mloc_reg: "mloc l \<Longrightarrow> isReg (rsp_reg l) \<Longrightarrow> rsp_reg l < 16 \<and> rsp_reg l \<noteq> RID_ESP \<and> rsp_spill l = 0"
  by (auto simp: mloc_def)

lemma mloc_spill: "mloc l \<Longrightarrow> \<not> isReg (rsp_reg l) \<Longrightarrow> rsp_reg l = RID_NONE \<and> rsp_spill l < 256"
  by (auto simp: mloc_def isReg_small)

lemma regspill_eqI: "rsp_reg l = rsp_reg m \<Longrightarrow> rsp_spill l = rsp_spill m \<Longrightarrow> l = (m :: regspill)"
  by (simp add: regspill.equality)

lemma mloc_cases:
  assumes "mloc l"
  obtains (reg) r where "l = rsp_ofReg r" "r < 16" "r \<noteq> RID_ESP" | (spill) n where "l = rsp_ofSpill n" "n < 256"
proof (cases "isReg (rsp_reg l)")
  case True
  then have "l = rsp_ofReg (rsp_reg l)" using mloc_reg [OF assms] by (intro regspill_eqI) (simp_all add: rsp_ofReg_def)
  then show thesis using reg mloc_reg [OF assms True] by blast
next
  case False
  then have "l = rsp_ofSpill (rsp_spill l)" using mloc_spill [OF assms] by (intro regspill_eqI) (simp_all add: rsp_ofSpill_def)
  then show thesis using spill mloc_spill [OF assms False] by blast
qed

lemma conflicts_iff:
  assumes "mloc d" "d \<noteq> hp_save" "mloc src"
  shows "conflicts d src \<longleftrightarrow> d = src"
  using assms(1)
proof (cases rule: mloc_cases)
  case (reg r)
  with assms(3) show ?thesis
    by (cases rule: mloc_cases)
      (auto simp: conflicts_def hasSpill_def rsp_ofReg_def rsp_ofSpill_def isReg_small rid_defs)
next
  case (spill n)
  then have "n \<noteq> 0" using assms(2) by (metis hp_save_def)
  with assms(3) spill show ?thesis
    by (cases rule: mloc_cases)
      (auto simp: conflicts_def hasSpill_def rsp_ofReg_def rsp_ofSpill_def isReg_small)
qed

lemma loc_val_put:
  assumes "mloc l" "mloc m"
  shows "loc_val K (loc_put K l v s) m = (if m = l then v else loc_val K s m)"
proof (cases "isReg (rsp_reg l)")
  case True
  then show ?thesis
    using mloc_reg [OF assms(1)] mloc_reg [OF assms(2)]
    by (auto simp: loc_put_def loc_val_def x_set_def intro: regspill_eqI)
next
  case l: False
  note l' = mloc_spill [OF assms(1) l]
  show ?thesis
  proof (cases "isReg (rsp_reg m)")
    case True
    then show ?thesis using l by (auto simp: loc_put_def loc_val_def)
  next
    case m: False
    note m' = mloc_spill [OF assms(2) m]
    show ?thesis
    proof (cases "rsp_spill m = rsp_spill l")
      case True
      then have "m = l" using l' m' by (intro regspill_eqI) simp_all
      then show ?thesis using l by (simp add: loc_put_def loc_val_def)
    next
      case False
      then show ?thesis
        using l m l' m' rd_wr_other
            [OF slots_apart [of "rsp_spill m" "rsp_spill l" K] slots_apart [of "rsp_spill l" "rsp_spill m" K]]
        by (auto simp: loc_put_def loc_val_def)
    qed
  qed
qed

lemma same_rest_put:
  assumes "mloc l"
  shows "same_rest K s (loc_put K l v s)"
proof (cases "isReg (rsp_reg l)")
  case True
  then show ?thesis using mloc_reg [OF assms] by (auto simp: same_rest_def loc_put_def x_set_def)
next
  case False
  then show ?thesis
    using mloc_spill [OF assms False] slot_in_area [of "rsp_spill l"]
    by (auto simp: same_rest_def loc_put_def wr_le_def Let_def)
qed

lemma same_rest_trans: "same_rest K s t \<Longrightarrow> same_rest K t u \<Longrightarrow> same_rest K s u"
  by (simp add: same_rest_def)

section \<open>What the emitted code does\<close>

text \<open>
  \<open>R\<close> pairs a location after the code with the location before it whose value it has then.
\<close>

definition pm_code :: "kctx \<Rightarrow> u1 list \<Rightarrow> u1 list \<Rightarrow> (regspill \<times> regspill) set \<Rightarrow> bool" where
  "pm_code K mc0 mc R \<longleftrightarrow>
     (\<forall>e s. x_reg s RID_ESP = kc_sp K \<longrightarrow>
        (\<exists>s'. xrun e mc s = xrun e mc0 s' \<and> same_rest K s s' \<and>
              (\<forall>(t, c) \<in> R. loc_val K s' t = loc_val K s c)))"

definition pm_emits :: "kctx \<Rightarrow> regspill \<Rightarrow> regspill \<Rightarrow> u1 list \<Rightarrow> u1 list \<Rightarrow> bool" where
  "pm_emits K dst src mc mc' \<longleftrightarrow>
     (\<forall>e s. x_reg s RID_ESP = kc_sp K \<longrightarrow> xrun e mc' s = xrun e mc (loc_put K dst (loc_val K s src) s))"

lemma pm_code_emits:
  assumes "pm_code K mc0 mc R" "pm_emits K dst src mc mc'" "mloc dst"
    and "\<And>t c'. (t, c') \<in> R' \<Longrightarrow> \<exists>c. (t, c) \<in> R \<and> mloc c \<and> c' = (if c = dst then src else c)"
  shows "pm_code K mc0 mc' R'"
  unfolding pm_code_def
proof (intro allI impI)
  fix e and s :: xstate assume sp: "x_reg s RID_ESP = kc_sp K"
  let ?t = "loc_put K dst (loc_val K s src) s"
  have r: "same_rest K s ?t" by (rule same_rest_put [OF assms(3)])
  then have "x_reg ?t RID_ESP = kc_sp K" using sp by (simp add: same_rest_def)
  then obtain s' where s': "xrun e mc ?t = xrun e mc0 s'" "same_rest K ?t s'"
      "\<forall>(t, c) \<in> R. loc_val K s' t = loc_val K ?t c"
    using assms(1) unfolding pm_code_def by blast
  have "loc_val K s' t = loc_val K s c'" if tc: "(t, c') \<in> R'" for t c'
  proof -
    from assms(4) [OF tc] obtain c where c: "(t, c) \<in> R" "mloc c" "c' = (if c = dst then src else c)" by blast
    have "loc_val K s' t = loc_val K ?t c" using s'(3) c(1) by auto
    then show ?thesis using loc_val_put [OF assms(3) c(2)] c(3) by simp
  qed
  then show "\<exists>s'. xrun e mc' s = xrun e mc0 s' \<and> same_rest K s s' \<and>
      (\<forall>(t, c) \<in> R'. loc_val K s' t = loc_val K s c)"
    using assms(2) sp s'(1) same_rest_trans [OF r s'(2)] unfolding pm_emits_def by auto
qed

lemma esp_lt [simp]: "RID_ESP < 16" "RID_HP < 16"
  by (simp_all add: rid_defs)

lemma esp_ne: "RID_HP \<noteq> RID_ESP"
  by (simp add: rid_defs)

lemma pm_emits_move:
  "d < 16 \<Longrightarrow> r < 16 \<Longrightarrow> pm_emits K (rsp_ofReg d) (rsp_ofReg r) mc (move d r mc)"
  by (simp add: pm_emits_def run_move loc_put_def loc_val_def rsp_ofReg_def isReg_small)

lemma pm_emits_load:
  "d < 16 \<Longrightarrow> pm_emits K (rsp_ofReg d) (rsp_ofSpill n) mc (load_u64 d RID_ESP (spillOffset n) mc)"
  by (simp add: pm_emits_def run_load loc_put_def loc_val_def rsp_ofReg_def rsp_ofSpill_def isReg_small slot_addr_def)

lemma pm_emits_store:
  "r < 16 \<Longrightarrow> pm_emits K (rsp_ofSpill n) (rsp_ofReg r) mc (store_u64 RID_ESP (spillOffset n) r mc)"
  by (simp add: pm_emits_def run_store loc_put_def loc_val_def rsp_ofReg_def rsp_ofSpill_def isReg_small slot_addr_def)

lemma transfer_ok:
  assumes "mloc dst" "mloc src" "isReg (rsp_reg dst) \<or> isReg (rsp_reg src)"
  shows "\<exists>a'. transfer dst src a = Inr ((), a') \<and> pm_emits K dst src (a_mc a) (a_mc a') \<and>
    (\<forall>r. bit (a_freeset a') r \<longleftrightarrow> bit (a_freeset a) r \<and> \<not> (isReg (rsp_reg src) \<and> r = rsp_reg src))"
  using assms(1)
proof (cases rule: mloc_cases)
  case (reg d)
  note d = this
  from assms(2) show ?thesis
  proof (cases rule: mloc_cases)
    case (reg r)
    then show ?thesis using d pm_emits_move [of d r K]
      by (simp add: transfer_def rsp_ofReg_def isReg_small bit_rs_simps)
  next
    case (spill n)
    then show ?thesis using d pm_emits_load [of d K]
      by (simp add: transfer_def rsp_ofReg_def rsp_ofSpill_def isReg_small bit_rs_simps)
  qed
next
  case (spill d)
  note d = this
  from assms(2) show ?thesis
  proof (cases rule: mloc_cases)
    case (reg r)
    then show ?thesis using d pm_emits_store [of r K]
      by (simp add: transfer_def rsp_ofReg_def rsp_ofSpill_def isReg_small bit_rs_simps)
  next
    case (spill n)
    then show ?thesis using d assms(3) by (simp add: rsp_ofSpill_def)
  qed
qed


section \<open>The invariant of the moves\<close>

text \<open>
  \<open>D\<close> are the destinations and \<open>S\<close> the sources when the assignment starts, and \<open>F\<close> the free
  registers then.  A destination is not free; a register that stays as it is is neither a
  destination nor free.
\<close>

definition pm_input :: "regspill list \<Rightarrow> regspill list \<Rightarrow> u4 \<Rightarrow> bool" where
  "pm_input D S F \<longleftrightarrow> length S = length D \<and> distinct D \<and> (\<forall>l \<in> set D \<union> set S. loc_ok l) \<and>
     (\<forall>j < length D. isReg (rsp_reg (D ! j)) \<or> isReg (rsp_reg (S ! j))) \<and>
     (\<forall>l \<in> set D. isReg (rsp_reg l) \<longrightarrow> \<not> bit F (rsp_reg l)) \<and> gpr_set F"

definition pm_kept :: "regspill list \<Rightarrow> u4 \<Rightarrow> regspill set" where
  "pm_kept D F = {l. mloc l \<and> l \<notin> set D \<and> l \<noteq> hp_loc \<and> l \<noteq> hp_save \<and>
     \<not> (isReg (rsp_reg l) \<and> bit F (rsp_reg l))}"

text \<open>Where the value that a destination will get is at the moment.\<close>

definition pm_cur :: "regspill list \<Rightarrow> par_assign \<Rightarrow> nat \<Rightarrow> regspill" where
  "pm_cur S pa j = (if pa_status pa ! j = PA_STATUS_DONE then S ! j else pa_dest pa ! j)"

definition hp_src :: "par_assign \<Rightarrow> regspill" where
  "hp_src pa = (if pa_usingHp pa then hp_save else hp_loc)"

definition pm_rel :: "regspill list \<Rightarrow> regspill list \<Rightarrow> u4 \<Rightarrow> par_assign \<Rightarrow> (regspill \<times> regspill) set" where
  "pm_rel D S F pa = {(D ! j, pm_cur S pa j) | j. j < length D} \<union> {(hp_loc, hp_src pa)} \<union>
     {(l, l) | l. l \<in> pm_kept D F}"

definition pm_active :: "regspill list \<Rightarrow> regspill list \<Rightarrow> par_assign \<Rightarrow> nat \<Rightarrow> bool" where
  "pm_active D S pa j \<longleftrightarrow> j < length D \<and> pa_status pa ! j \<noteq> PA_STATUS_DONE \<and> D ! j \<noteq> S ! j"

definition pm_shape :: "regspill list \<Rightarrow> regspill list \<Rightarrow> par_assign \<Rightarrow> bool" where
  "pm_shape D S pa \<longleftrightarrow> pa_source pa = S \<and> pa_size pa = length D \<and> length (pa_dest pa) = length D \<and>
     length (pa_status pa) = length D \<and> pa_tmpsInUse pa = 0"

definition pm_item :: "regspill list \<Rightarrow> regspill list \<Rightarrow> u4 \<Rightarrow> par_assign \<Rightarrow> nat \<Rightarrow> bool" where
  "pm_item D S F pa j \<longleftrightarrow>
     (if pa_status pa ! j = PA_STATUS_TODO then pa_dest pa ! j = D ! j
      else if pa_status pa ! j = PA_STATUS_MOVING
      then D ! j \<noteq> S ! j \<and> mloc (pa_dest pa ! j) \<and>
           (pa_dest pa ! j = D ! j \<or> pa_dest pa ! j \<notin> set D \<and> isReg (rsp_reg (pa_dest pa ! j)))
      else pa_status pa ! j = PA_STATUS_DONE \<and> D ! j \<noteq> S ! j \<and>
           (isReg (rsp_reg (S ! j)) \<longrightarrow> \<not> bit F (rsp_reg (S ! j))))"

definition pm_apart :: "regspill list \<Rightarrow> regspill list \<Rightarrow> u4 \<Rightarrow> par_assign \<Rightarrow> nat \<Rightarrow> bool" where
  "pm_apart D S F pa j \<longleftrightarrow>
     (\<forall>k < length D. k \<noteq> j \<longrightarrow> pm_cur S pa k \<noteq> pa_dest pa ! j) \<and> hp_src pa \<noteq> pa_dest pa ! j \<and>
     pa_dest pa ! j \<notin> pm_kept D F"

text \<open>The fields of the assembler that moves change.\<close>

definition code_only :: "assembler \<Rightarrow> assembler \<Rightarrow> bool" where
  "code_only a0 a \<longleftrightarrow> (\<exists>mc f m. a = a0\<lparr>a_mc := mc, a_freeset := f, a_modset := m\<rparr>)"

lemma code_onlyI: "a' = a0\<lparr>a_mc := mc, a_freeset := f, a_modset := m\<rparr> \<Longrightarrow> code_only a0 a'"
  unfolding code_only_def by blast

lemma code_only_refl: "code_only a a"
  by (rule code_onlyI [where mc = "a_mc a" and f = "a_freeset a" and m = "a_modset a"]) simp

lemma code_only_steps:
  assumes "code_only a0 a"
  shows "code_only a0 (a_emit f a)" "code_only a0 (modifiedReg r a)" "code_only a0 (useReg r a)"
proof -
  obtain mc fs m where a: "a = a0\<lparr>a_mc := mc, a_freeset := fs, a_modset := m\<rparr>"
    using assms unfolding code_only_def by blast
  show "code_only a0 (a_emit f a)"
    by (rule code_onlyI [where mc = "f mc" and f = fs and m = m]) (simp add: a a_emit_def)
  show "code_only a0 (modifiedReg r a)"
    by (rule code_onlyI [where mc = mc and f = fs and m = "rs_set r m"]) (simp add: a modifiedReg_def)
  show "code_only a0 (useReg r a)"
    by (rule code_onlyI [where mc = mc and f = "rs_clear r fs" and m = m]) (simp add: a useReg_def)
qed

definition pm_inv ::
    "kctx \<Rightarrow> assembler \<Rightarrow> regspill list \<Rightarrow> regspill list \<Rightarrow> u4 \<Rightarrow> par_assign \<Rightarrow> assembler \<Rightarrow> bool" where
  "pm_inv K a0 D S F pa a \<longleftrightarrow> pm_shape D S pa \<and>
     code_only a0 a \<and>
     pm_code K (a_mc a0) (a_mc a) (pm_rel D S F pa) \<and>
     (\<forall>r. bit (a_freeset a) r \<longrightarrow> bit F r) \<and>
     (\<forall>j < length D. pm_item D S (a_freeset a) pa j) \<and>
     (\<forall>j. pm_active D S pa j \<longrightarrow> pm_apart D S F pa j)"

lemma pm_invD:
  assumes "pm_inv K a0 D S F pa a"
  shows "pm_shape D S pa" "code_only a0 a"
    "pm_code K (a_mc a0) (a_mc a) (pm_rel D S F pa)" "bit (a_freeset a) r \<Longrightarrow> bit F r"
    "j < length D \<Longrightarrow> pm_item D S (a_freeset a) pa j" "pm_active D S pa j \<Longrightarrow> pm_apart D S F pa j"
  using assms unfolding pm_inv_def by blast+

lemmas pa_status_defs = PA_STATUS_TODO_def PA_STATUS_MOVING_def PA_STATUS_DONE_def

lemma pm_inputD:
  assumes "pm_input D S F"
  shows "length S = length D" "distinct D" "j < length D \<Longrightarrow> loc_ok (D ! j)" "j < length D \<Longrightarrow> loc_ok (S ! j)"
    "j < length D \<Longrightarrow> isReg (rsp_reg (D ! j)) \<or> isReg (rsp_reg (S ! j))"
    "j < length D \<Longrightarrow> isReg (rsp_reg (D ! j)) \<Longrightarrow> \<not> bit F (rsp_reg (D ! j))"
    "bit F r \<Longrightarrow> bit kGPR r"
  using assms by (auto simp: pm_input_def gpr_set_def)

text \<open>The source and the destination have the same register only when nothing has to be done.\<close>

lemma same_reg_iff:
  assumes "pm_input D S F" "j < length D"
  shows "rsp_reg (D ! j) = rsp_reg (S ! j) \<longleftrightarrow> D ! j = S ! j"
  using pm_inputD(3-5) [OF assms] by (auto simp: loc_ok_def intro: regspill_eqI)

lemma pm_cur_mloc:
  assumes "pm_input D S F" "pm_inv K a0 D S F pa a" "j < length D"
  shows "mloc (pm_cur S pa j)"
  using pm_invD(5) [OF assms(2,3)] pm_inputD(3,4) [OF assms(1,3)]
  by (auto simp: pm_cur_def pm_item_def loc_ok_mloc split: if_splits)

lemma pm_rel_step:
  assumes "pm_code K mc0 mc (pm_rel D S F pa)" "pm_emits K l src mc mc'" "mloc l"
    and "\<And>j. j < length D \<Longrightarrow> mloc (pm_cur S pa j)"
    and "\<And>j. j < length D \<Longrightarrow> pm_cur S pa' j = (if pm_cur S pa j = l then src else pm_cur S pa j)"
    and "hp_src pa' = (if hp_src pa = l then src else hp_src pa)" and "l \<notin> pm_kept D F"
  shows "pm_code K mc0 mc' (pm_rel D S F pa')"
proof (rule pm_code_emits [OF assms(1-3)])
  fix t c' assume "(t, c') \<in> pm_rel D S F pa'"
  then consider (dest) j where "j < length D" "t = D ! j" "c' = pm_cur S pa' j"
    | (hp) "t = hp_loc" "c' = hp_src pa'" | (kept) "t = c'" "t \<in> pm_kept D F"
    by (auto simp: pm_rel_def)
  then show "\<exists>c. (t, c) \<in> pm_rel D S F pa \<and> mloc c \<and> c' = (if c = l then src else c)"
  proof cases
    case dest
    then have "(t, pm_cur S pa j) \<in> pm_rel D S F pa" by (auto simp: pm_rel_def)
    then show ?thesis using assms(4,5) [OF dest(1)] dest(3) by blast
  next
    case hp
    have "(t, hp_src pa) \<in> pm_rel D S F pa" "mloc (hp_src pa)" using hp by (auto simp: pm_rel_def hp_src_def)
    then show ?thesis using hp assms(6) by blast
  next
    case kept
    then have "(t, t) \<in> pm_rel D S F pa" "mloc t" "t \<noteq> l"
      using assms(7) by (auto simp: pm_rel_def pm_kept_def)
    then show ?thesis using kept by auto
  qed
qed

text \<open>A transfer for a move whose conflicts are resolved finishes it.\<close>

lemma pm_transfer:
  assumes inp: "pm_input D S F" and inv: "pm_inv K a0 D S F pa a"
    and i: "i < length D" "pa_status pa ! i = PA_STATUS_MOVING"
    and nc: "\<And>j. j \<noteq> i \<Longrightarrow> pm_active D S pa j \<Longrightarrow> pa_dest pa ! j \<noteq> S ! i"
  shows "\<exists>a'. transfer (pa_dest pa ! i) (S ! i) a = Inr ((), a') \<and>
    pm_inv K a0 D S F (pa\<lparr>pa_status := (pa_status pa)[i := PA_STATUS_DONE]\<rparr>) a'"
proof -
  let ?p = "pa\<lparr>pa_status := (pa_status pa)[i := PA_STATUS_DONE]\<rparr>"
  have it: "D ! i \<noteq> S ! i" "mloc (pa_dest pa ! i)" "pa_dest pa ! i = D ! i \<or> isReg (rsp_reg (pa_dest pa ! i))"
    using pm_invD(5) [OF inv i(1)] i(2) by (auto simp: pm_item_def pa_status_defs)
  have len: "length (pa_status pa) = length D" using pm_invD(1) [OF inv] by (simp add: pm_shape_def)
  have st: "pa_status ?p ! j = (if j = i then PA_STATUS_DONE else pa_status pa ! j)" for j
    using i(1) len by simp
  have act: "pm_active D S pa i" using i it by (simp add: pm_active_def pa_status_defs)
  have sep: "pm_apart D S F pa i" by (rule pm_invD(6) [OF inv act])
  have cur: "pm_cur S ?p j = (if j = i then S ! i else pm_cur S pa j)" for j
    unfolding pm_cur_def st by simp
  have sm: "mloc (S ! i)" using pm_inputD(4) [OF inp i(1)] by (rule loc_ok_mloc)
  obtain a' where a': "transfer (pa_dest pa ! i) (S ! i) a = Inr ((), a')"
      "pm_emits K (pa_dest pa ! i) (S ! i) (a_mc a) (a_mc a')"
      "\<forall>r. bit (a_freeset a') r \<longleftrightarrow> bit (a_freeset a) r \<and> \<not> (isReg (rsp_reg (S ! i)) \<and> r = rsp_reg (S ! i))"
    using transfer_ok [OF it(2) sm] it(3) pm_inputD(5) [OF inp i(1)] by metis
  have upd: "code_only a0 a'"
    using a'(1) pm_invD(2) [OF inv] by (auto simp: transfer_def lc_assert_def intro: code_only_steps split: if_splits)
  have "pm_code K (a_mc a0) (a_mc a') (pm_rel D S F ?p)"
  proof (rule pm_rel_step [OF pm_invD(3) [OF inv] a'(2) it(2) pm_cur_mloc [OF inp inv]])
    fix j assume "j < length D"
    moreover have "pm_cur S pa i = pa_dest pa ! i" using i(2) by (simp add: pm_cur_def pa_status_defs)
    ultimately show "pm_cur S ?p j = (if pm_cur S pa j = pa_dest pa ! i then S ! i else pm_cur S pa j)"
      using sep by (auto simp: cur pm_apart_def)
  qed (use sep in \<open>auto simp: pm_apart_def hp_src_def\<close>)
  moreover have "pm_item D S (a_freeset a') ?p j" if "j < length D" for j
  proof (cases "j = i")
    case True
    then show ?thesis using a'(3) it(1) unfolding pm_item_def st by (simp add: pa_status_defs)
  next
    case False
    have "pa_status ?p ! j = pa_status pa ! j" "pa_dest ?p ! j = pa_dest pa ! j" using st False by simp_all
    then show ?thesis using pm_invD(5) [OF inv that] a'(3) unfolding pm_item_def by (simp split: if_splits)
  qed
  moreover have "pm_apart D S F ?p j" if "pm_active D S ?p j" for j
  proof -
    have j: "j \<noteq> i" "pm_active D S pa j" using that st by (auto simp: pm_active_def split: if_splits)
    then show ?thesis
      using pm_invD(6) [OF inv j(2)] nc [OF j] unfolding pm_apart_def cur by (auto simp: hp_src_def)
  qed
  moreover have "pm_shape D S ?p" using pm_invD(1) [OF inv] by (simp add: pm_shape_def)
  moreover have "bit F r" if "bit (a_freeset a') r" for r using pm_invD(4) [OF inv] a'(3) that by blast
  ultimately have "pm_inv K a0 D S F ?p a'" using upd unfolding pm_inv_def by blast
  then show ?thesis using a'(1) by blast
qed


text \<open>The state of the moves when a new one is started: no temporary is waiting for its value.\<close>

definition pm_settled :: "regspill list \<Rightarrow> par_assign \<Rightarrow> bool" where
  "pm_settled D pa \<longleftrightarrow>
     (\<forall>j < length D. pa_status pa ! j \<noteq> PA_STATUS_DONE \<longrightarrow> pa_dest pa ! j = D ! j)"

definition pm_pending :: "regspill list \<Rightarrow> par_assign \<Rightarrow> bool" where
  "pm_pending D pa \<longleftrightarrow>
     (\<forall>j < length D. pa_status pa ! j \<noteq> PA_STATUS_DONE \<longrightarrow> pa_dest pa ! j = D ! j \<or>
        pa_status pa ! j = PA_STATUS_MOVING \<and> pa_dest pa ! j \<notin> set D)"

text \<open>A temporary is a free register or the heap pointer, whose value is saved.\<close>

lemma getTemp_ok:
  assumes inp: "pm_input D S F" and inv: "pm_inv K a0 D S F pa a" and set: "pm_settled D pa"
  shows "\<exists>t pa' a'. getTemp pa a = Inr (t, pa', a') \<and> t < 16 \<and> t \<noteq> RID_ESP \<and>
    pa' = pa\<lparr>pa_tmpsInUse := 1, pa_usingHp := pa_usingHp pa'\<rparr> \<and>
    pm_inv K a0 D S F (pa'\<lparr>pa_tmpsInUse := 0\<rparr>) a' \<and> rsp_ofReg t \<notin> set D \<and>
    (\<forall>j < length D. pm_cur S pa j \<noteq> rsp_ofReg t) \<and> hp_src pa' \<noteq> rsp_ofReg t \<and>
    rsp_ofReg t \<notin> pm_kept D F"
proof (cases "hasFreeReg a")
  case True
  have kg: "rs_intersect (a_freeset a) kGPR = a_freeset a"
    using pm_invD(4) [OF inv] pm_inputD(7) [OF inp] by (intro bit_eqI) (auto simp: bit_rs_simps)
  have ne: "a_freeset a \<noteq> 0" using True by (simp add: hasFreeReg_def rs_isEmpty_def)
  define t where "t = rs_pickTop (a_freeset a)"
  have t: "bit (a_freeset a) t" unfolding t_def by (rule pickTop_in [OF ne])
  then have tF: "bit F t" "bit kGPR t" using pm_invD(4) [OF inv] pm_inputD(7) [OF inp] by auto
  have t16: "t < 16" "t \<noteq> RID_ESP" "t \<noteq> RID_HP" "isReg t" using tF(2) by (auto simp: bit_kGPR rid_defs isReg_small)
  have g: "getTemp pa a = Inr (t, pa\<lparr>pa_tmpsInUse := 1\<rparr>, modifiedReg t a)"
    using pm_invD(1) [OF inv] True ne
    by (simp add: getTemp_def pm_shape_def allocScratchReg_def pickReg_def kg t_def rs_isEmpty_def)
  have d: "rsp_ofReg t \<notin> set D"
  proof
    assume "rsp_ofReg t \<in> set D"
    then obtain i where "i < length D" "D ! i = rsp_ofReg t" by (auto simp: in_set_conv_nth)
    then show False using pm_inputD(6) [OF inp, of i] tF(1) t16(4) by (simp add: rsp_ofReg_def)
  qed
  have p: "pa\<lparr>pa_tmpsInUse := 1, pa_tmpsInUse := 0\<rparr> = pa"
    using pm_invD(1) [OF inv] by (cases pa) (simp add: pm_shape_def)
  have "pm_inv K a0 D S F pa (modifiedReg t a)"
    using inv code_only_steps(2) unfolding pm_inv_def by simp
  moreover have "pm_cur S pa j \<noteq> rsp_ofReg t" if "j < length D" for j
  proof (cases "pa_status pa ! j = PA_STATUS_DONE")
    case True
    then show ?thesis using pm_invD(5) [OF inv that] t t16(4)
      by (auto simp: pm_cur_def pm_item_def pa_status_defs rsp_ofReg_def)
  next
    case False
    then have "pm_cur S pa j = D ! j" using set that by (simp add: pm_cur_def pm_settled_def)
    then show ?thesis using d nth_mem [OF that] by metis
  qed
  ultimately show ?thesis
    using g t16 d p tF
    by (intro exI [of _ t] exI [of _ "pa\<lparr>pa_tmpsInUse := 1\<rparr>"] exI [of _ "modifiedReg t a"])
      (auto simp: hp_src_def hp_loc_def hp_save_def rsp_ofReg_def rsp_ofSpill_def pm_kept_def)
next
  case False
  have hp: "rsp_ofReg RID_HP = hp_loc" by (simp add: hp_loc_def)
  have d: "hp_loc \<notin> set D"
    using pm_inputD(3) [OF inp] loc_ok_not_hp by (auto simp: in_set_conv_nth)
  have c: "pm_cur S pa j \<noteq> hp_loc" if "j < length D" for j
    using set that loc_ok_not_hp pm_inputD(3,4) [OF inp that] by (auto simp: pm_cur_def pm_settled_def)
  have k: "hp_loc \<notin> pm_kept D F" by (simp add: pm_kept_def)
  define pa' where "pa' = pa\<lparr>pa_usingHp := True, pa_tmpsInUse := 1\<rparr>"
  define a' where "a' = (if pa_usingHp pa then a else a_emit (load_u64 RID_HP RID_ESP (of_nat SAVE_HP_OFFS)) a)"
  have g: "getTemp pa a = Inr (RID_HP, pa', a')"
    using pm_invD(1) [OF inv] False by (cases pa) (auto simp: getTemp_def pm_shape_def pa'_def a'_def)
  let ?p = "pa'\<lparr>pa_tmpsInUse := 0\<rparr>"
  have st: "pa_status ?p = pa_status pa" "pa_dest ?p = pa_dest pa" by (simp_all add: pa'_def)
  have cur: "pm_cur S ?p = pm_cur S pa" by (simp add: fun_eq_iff pm_cur_def st)
  have hs: "hp_src ?p = hp_save" "hp_src pa' = hp_save" by (simp_all add: hp_src_def pa'_def)
  have ne: "hp_save \<noteq> hp_loc" by (simp add: hp_save_def hp_loc_def rsp_ofReg_def rsp_ofSpill_def rid_defs)
  have "pm_code K (a_mc a0) (a_mc a') (pm_rel D S F ?p)"
  proof (cases "pa_usingHp pa")
    case True
    then have "pm_rel D S F ?p = pm_rel D S F pa" by (simp add: pm_rel_def cur hs(1)) (simp add: hp_src_def)
    then show ?thesis using pm_invD(3) [OF inv] True by (simp add: a'_def)
  next
    case False
    have e: "pm_emits K hp_loc hp_save (a_mc a) (a_mc a')"
      using pm_emits_load [of RID_HP K 0 "a_mc a"] False
      by (simp add: a'_def hp_loc_def hp_save_def SAVE_HP_OFFS_def spillOffset_def)
    show ?thesis
    proof (rule pm_rel_step [OF pm_invD(3) [OF inv] e hp_mloc(1) pm_cur_mloc [OF inp inv]])
      show "pm_cur S ?p j = (if pm_cur S pa j = hp_loc then hp_save else pm_cur S pa j)" if "j < length D" for j
        unfolding cur using c [OF that] by simp
      show "hp_src ?p = (if hp_src pa = hp_loc then hp_save else hp_src pa)"
        unfolding hs(1) using False by (simp add: hp_src_def)
    qed (assumption, rule k)
  qed
  moreover have "code_only a0 a'" using pm_invD(2) [OF inv] code_only_steps(1) by (simp add: a'_def)
  moreover have "pm_shape D S ?p" using pm_invD(1) [OF inv] by (simp add: pm_shape_def pa'_def)
  moreover have f: "a_freeset a' = a_freeset a" by (simp add: a'_def)
  moreover have "pm_item D S (a_freeset a') ?p j" if "j < length D" for j
    using pm_invD(5) [OF inv that] by (simp add: pm_item_def st f)
  moreover have "pm_apart D S F ?p j" if "pm_active D S ?p j" for j
  proof -
    have "pm_active D S pa j" using that by (simp add: pm_active_def st)
    moreover have "hp_save \<noteq> pa_dest pa ! j"
    proof -
      have "j < length D" "pa_dest pa ! j = D ! j" using set that by (auto simp: pm_active_def st pm_settled_def)
      then show ?thesis using loc_ok_not_hp [OF pm_inputD(3) [OF inp]] by metis
    qed
    ultimately show ?thesis using pm_invD(6) [OF inv] by (simp add: pm_apart_def cur st hs)
  qed
  moreover have "bit F r" if "bit (a_freeset a') r" for r using pm_invD(4) [OF inv] that f by simp
  ultimately have "pm_inv K a0 D S F ?p a'" unfolding pm_inv_def by blast
  then show ?thesis
    using g c d k ne hs esp_ne by (intro exI [of _ RID_HP] exI [of _ pa'] exI [of _ a']) (auto simp: hp pa'_def)
qed


lemma breakCycle_ok:
  assumes inp: "pm_input D S F" and inv: "pm_inv K a0 D S F pa a" and set: "pm_settled D pa"
    and j: "j < length D" "pa_status pa ! j = PA_STATUS_MOVING"
  shows "\<exists>pa' a' l. breakCycle j pa a = Inr ((), pa', a') \<and> pm_inv K a0 D S F pa' a' \<and>
    pa_status pa' = pa_status pa \<and> pa_dest pa' = (pa_dest pa)[j := l] \<and> l \<notin> set D"
proof -
  obtain t p a1 where g: "getTemp pa a = Inr (t, p, a1)" "t < 16" "t \<noteq> RID_ESP"
      "p = pa\<lparr>pa_tmpsInUse := 1, pa_usingHp := pa_usingHp p\<rparr>"
      "pm_inv K a0 D S F (p\<lparr>pa_tmpsInUse := 0\<rparr>) a1" "rsp_ofReg t \<notin> set D"
      "\<forall>j < length D. pm_cur S pa j \<noteq> rsp_ofReg t" "hp_src p \<noteq> rsp_ofReg t" "rsp_ofReg t \<notin> pm_kept D F"
    using getTemp_ok [OF inp inv set] by blast
  define q where "q = p\<lparr>pa_tmpsInUse := 0\<rparr>"
  have pf: "pa_status p = pa_status pa" "pa_dest p = pa_dest pa" "pa_tmpsInUse p = 1"
    by (subst g(4), simp)+
  have inv1: "pm_inv K a0 D S F q a1" using g(5) by (simp add: q_def)
  have qf: "pa_status q = pa_status pa" "pa_dest q = pa_dest pa" "hp_src q = hp_src p"
    by (simp_all add: q_def pf hp_src_def)
  have cq: "pm_cur S q = pm_cur S pa" by (simp add: fun_eq_iff pm_cur_def qf)
  have dj: "pa_dest pa ! j = D ! j" using set j by (simp add: pm_settled_def pa_status_defs)
  have ne: "D ! j \<noteq> S ! j" using pm_invD(5) [OF inv j(1)] j(2) by (simp add: pm_item_def pa_status_defs)
  have act: "pm_active D S q j" using j ne by (simp add: pm_active_def qf pa_status_defs)
  have sep: "pm_apart D S F q j" by (rule pm_invD(6) [OF inv1 act])
  let ?l = "rsp_ofReg t"
  let ?q = "q\<lparr>pa_dest := (pa_dest q)[j := ?l]\<rparr>"
  define a' where "a' = (if isReg (rsp_reg (D ! j)) then a_emit (move (rsp_reg (D ! j)) t) a1
                         else a_emit (store_u64 RID_ESP (spillOffset (rsp_spill (D ! j))) t) a1)"
  have b: "breakCycle j pa a = Inr ((), ?q, a')"
    by (simp add: breakCycle_def g(1) releaseTemp_def pf dj a'_def q_def Let_def)
  have ml: "mloc (D ! j)" "mloc ?l"
    using loc_ok_mloc [OF pm_inputD(3) [OF inp j(1)]] g(2,3) by (simp_all add: mloc_def rsp_ofReg_def)
  have em: "pm_emits K (D ! j) ?l (a_mc a1) (a_mc a')"
    using ml(1)
  proof (cases rule: mloc_cases)
    case (reg d)
    then show ?thesis using pm_emits_move [of d t K] g(2)
      by (simp add: a'_def isReg_small) (simp add: rsp_ofReg_def isReg_small)
  next
    case (spill d)
    then show ?thesis using pm_emits_store [of t K] g(2)
      by (simp add: a'_def) (simp add: rsp_ofSpill_def)
  qed
  have len: "length (pa_dest q) = length D" using pm_invD(1) [OF inv1] by (simp add: pm_shape_def)
  have dq: "pa_dest ?q ! k = (if k = j then ?l else pa_dest pa ! k)" for k using j(1) len by (simp add: qf)
  have cur: "pm_cur S ?q k = (if k = j then ?l else pm_cur S pa k)" for k
    using j(2) dq by (simp add: pm_cur_def qf pa_status_defs)
  have cj: "pm_cur S pa j = D ! j" using j(2) dj by (simp add: pm_cur_def pa_status_defs)
  have "pm_code K (a_mc a0) (a_mc a') (pm_rel D S F ?q)"
  proof (rule pm_rel_step [OF pm_invD(3) [OF inv1] em ml(1) pm_cur_mloc [OF inp inv1]])
    fix k assume "k < length D"
    then show "pm_cur S ?q k = (if pm_cur S q k = D ! j then ?l else pm_cur S q k)"
      unfolding cur cq using sep cj by (auto simp: pm_apart_def qf dj cq)
  qed (use sep in \<open>auto simp: pm_apart_def hp_src_def qf dj\<close>)
  moreover have "pm_item D S (a_freeset a') ?q k" if "k < length D" for k
  proof (cases "k = j")
    case True
    then show ?thesis using j(2) dq ne ml g(6) g(2)
      unfolding pm_item_def by (simp add: qf pa_status_defs) (simp add: rsp_ofReg_def isReg_small)
  next
    case False
    have "pa_dest ?q ! k = pa_dest q ! k" "pa_status ?q ! k = pa_status q ! k" using dq False qf by simp_all
    then show ?thesis using pm_invD(5) [OF inv1 that] unfolding pm_item_def by (simp add: a'_def split: if_splits)
  qed
  moreover have "pm_apart D S F ?q k" if k: "pm_active D S ?q k" for k
  proof (cases "k = j")
    case True
    then show ?thesis using g(7-9) unfolding pm_apart_def cur dq by (simp add: hp_src_def q_def)
  next
    case False
    have k': "pm_active D S q k" using k by (simp add: pm_active_def)
    have kd: "pa_dest pa ! k = D ! k" "k < length D" using set k by (auto simp: pm_active_def pm_settled_def qf)
    have "?l \<noteq> D ! k" using g(6) kd(2) nth_mem by metis
    then show ?thesis
      using pm_invD(6) [OF inv1 k'] False kd unfolding pm_apart_def cur dq cq by (auto simp: hp_src_def qf)
  qed
  moreover have "pm_shape D S ?q" using pm_invD(1) [OF inv1] by (simp add: pm_shape_def)
  moreover have "code_only a0 a'" using pm_invD(2) [OF inv1] code_only_steps(1) by (simp add: a'_def)
  moreover have "bit F r" if "bit (a_freeset a') r" for r
    using pm_invD(4) [OF inv1] that by (simp add: a'_def split: if_splits)
  ultimately have "pm_inv K a0 D S F ?q a'" unfolding pm_inv_def by blast
  then show ?thesis using b g(6) by (intro exI [of _ ?q] exI [of _ a'] exI [of _ ?l]) (simp add: qf)
qed

section \<open>Correctness of the moves\<close>

lemma moveOne_loop_append:
  "moveOne_loop f (xs @ ys) src pa a =
     res_bind (moveOne_loop f xs src pa a) (\<lambda>(_, pa, a). moveOne_loop f ys src pa a)"
proof (induction xs arbitrary: pa a)
  case (Cons j xs)
  then show ?case by (simp add: split_def res_bind_assoc)
qed simp

lemma moveOne_loop_idle:
  assumes "\<And>j. j \<in> set js \<Longrightarrow> conflicts (pa_dest pa ! j) src \<Longrightarrow> pa_status pa ! j = PA_STATUS_DONE"
  shows "moveOne_loop f js src pa a = Inr ((), pa, a)"
  using assms by (induction js) auto

definition pm_todo :: "regspill list \<Rightarrow> par_assign \<Rightarrow> nat" where
  "pm_todo D pa = card {j. j < length D \<and> pa_status pa ! j = PA_STATUS_TODO}"

text \<open>Moves advance: a finished move stays finished, and one that is being done stays so.\<close>

definition pm_advance :: "regspill list \<Rightarrow> par_assign \<Rightarrow> par_assign \<Rightarrow> bool" where
  "pm_advance D pa pa' \<longleftrightarrow> (\<forall>j < length D. pa_status pa' ! j = pa_status pa ! j \<or>
     pa_status pa ! j = PA_STATUS_TODO \<and> pa_status pa' ! j = PA_STATUS_DONE)"

definition pm_ready :: "kctx \<Rightarrow> assembler \<Rightarrow> regspill list \<Rightarrow> regspill list \<Rightarrow> u4 \<Rightarrow> par_assign \<Rightarrow> assembler \<Rightarrow> bool" where
  "pm_ready K a0 D S F pa a \<longleftrightarrow> pm_inv K a0 D S F pa a \<and> pm_settled D pa"

definition pm_chained :: "regspill list \<Rightarrow> regspill list \<Rightarrow> par_assign \<Rightarrow> bool" where
  "pm_chained D S pa \<longleftrightarrow>
     (\<forall>m < length D. pa_status pa ! m = PA_STATUS_MOVING \<longrightarrow> S ! m \<in> set D)"


lemma pm_mark:
  assumes inv: "pm_inv K a0 D S F pa a" and i: "i < length D" "pa_status pa ! i = PA_STATUS_TODO" "D ! i \<noteq> S ! i"
    and inp: "pm_input D S F"
  shows "pm_inv K a0 D S F (pa\<lparr>pa_status := (pa_status pa)[i := PA_STATUS_MOVING]\<rparr>) a"
proof -
  let ?p = "pa\<lparr>pa_status := (pa_status pa)[i := PA_STATUS_MOVING]\<rparr>"
  have len: "length (pa_status pa) = length D" using pm_invD(1) [OF inv] by (simp add: pm_shape_def)
  have st: "pa_status ?p ! j = (if j = i then PA_STATUS_MOVING else pa_status pa ! j)" for j
    using i(1) len by simp
  have cur: "pm_cur S ?p = pm_cur S pa"
    unfolding pm_cur_def st using i(2) by (simp add: fun_eq_iff pa_status_defs)
  have act: "pm_active D S ?p j = pm_active D S pa j" for j
    unfolding pm_active_def st using i(2) by (simp add: pa_status_defs)
  have rel: "pm_rel D S F ?p = pm_rel D S F pa" by (simp add: pm_rel_def cur hp_src_def)
  have item: "pm_item D S (a_freeset a) ?p j" if "j < length D" for j
  proof (cases "j = i")
    case True
    have "pa_dest pa ! i = D ! i" using pm_invD(5) [OF inv i(1)] i(2) by (simp add: pm_item_def)
    then show ?thesis using True i loc_ok_mloc [OF pm_inputD(3) [OF inp i(1)]]
      unfolding pm_item_def st by (simp add: pa_status_defs)
  next
    case False
    have "pa_status ?p ! j = pa_status pa ! j" "pa_dest ?p ! j = pa_dest pa ! j" using st False by simp_all
    then show ?thesis using pm_invD(5) [OF inv that] unfolding pm_item_def by (simp split: if_splits)
  qed
  have "pm_apart D S F ?p j" if "pm_active D S ?p j" for j
    using pm_invD(6) [OF inv] that unfolding act pm_apart_def cur by (simp add: hp_src_def)
  then show ?thesis
    using inv item unfolding pm_inv_def rel by (simp add: pm_shape_def)
qed

lemma pm_advance_refl: "pm_advance D pa pa"
  by (simp add: pm_advance_def)

lemma pm_advance_trans: "pm_advance D p q \<Longrightarrow> pm_advance D q r \<Longrightarrow> pm_advance D p r"
  unfolding pm_advance_def by (metis)

text \<open>The loop over the moves that write the source of \<open>i\<close>: only one of them can be met.\<close>

lemma moveOne_loop_ok:
  assumes inp: "pm_input D S F" and inv: "pm_inv K a0 D S F pa a" and set: "pm_settled D pa"
    and chain: "\<And>m. m < length D \<Longrightarrow> m \<noteq> i \<Longrightarrow> pa_status pa ! m = PA_STATUS_MOVING \<Longrightarrow> S ! m \<in> set D"
    and i: "i < length D" "pa_status pa ! i = PA_STATUS_MOVING"
    and rec: "\<And>h. h < length D \<Longrightarrow> pa_status pa ! h = PA_STATUS_TODO \<Longrightarrow> pm_chained D S pa \<Longrightarrow>
      \<exists>pa' a'. moveOne f h pa a = Inr ((), pa', a') \<and> pm_inv K a0 D S F pa' a' \<and> pm_pending D pa' \<and>
        pm_advance D pa pa' \<and> (pa_status pa' ! h = PA_STATUS_DONE \<or> D ! h = S ! h)"
  shows "\<exists>pa' a'. moveOne_loop f [0..<length D] (S ! i) pa a = Inr ((), pa', a') \<and>
    pm_inv K a0 D S F pa' a' \<and> pm_pending D pa' \<and> pm_advance D pa pa' \<and>
    (\<forall>j. j \<noteq> i \<longrightarrow> pm_active D S pa' j \<longrightarrow> pa_dest pa' ! j \<noteq> S ! i)"
proof -
  have iD: "D ! i \<noteq> S ! i" using pm_invD(5) [OF inv i(1)] i(2) by (simp add: pm_item_def pa_status_defs)
  have sm: "mloc (S ! i)" "loc_ok (S ! i)" using loc_ok_mloc pm_inputD(4) [OF inp i(1)] by blast+
  have pend: "pm_pending D pa" using set by (auto simp: pm_settled_def pm_pending_def)
  have conf: "D ! j = S ! i" if "j < length D" "conflicts (pa_dest p ! j) (S ! i)"
      "pa_status p ! j \<noteq> PA_STATUS_DONE" "pa_dest p ! j = D ! j" for p j
    using that conflicts_iff [OF loc_ok_mloc _ sm(1)] pm_inputD(3) [OF inp that(1)] loc_ok_not_hp by auto
  show ?thesis
  proof (cases "S ! i \<in> set D")
    case False
    have "moveOne_loop f [0..<length D] (S ! i) pa a = Inr ((), pa, a)"
    proof (rule moveOne_loop_idle, rule ccontr)
      fix j assume j: "j \<in> set [0..<length D]" "conflicts (pa_dest pa ! j) (S ! i)"
        "pa_status pa ! j \<noteq> PA_STATUS_DONE"
      then have jl: "j < length D" by simp
      have "D ! j = S ! i" using conf [OF jl j(2,3)] set jl j(3) by (simp add: pm_settled_def)
      then show False using False j(1) by (metis atLeastLessThan_iff nth_mem set_upt)
    qed
    moreover have "pa_dest pa ! j \<noteq> S ! i" if "pm_active D S pa j" for j
      using that set False nth_mem unfolding pm_active_def pm_settled_def by metis
    ultimately show ?thesis using inv pend pm_advance_refl by blast
  next
    case True
    then obtain h where h: "h < length D" "D ! h = S ! i" by (auto simp: in_set_conv_nth)
    have hi: "h \<noteq> i" using iD h(2) by metis
    have chained: "pm_chained D S pa" unfolding pm_chained_def using chain True by metis
    have uniq: "D ! j = S ! i \<Longrightarrow> j < length D \<Longrightarrow> j = h" for j
      using h nth_eq_iff_index_eq [OF pm_inputD(2) [OF inp], of j h] by simp
    have split: "[0..<length D] = [0..<h] @ h # [Suc h..<length D]"
      using h(1) upt_add_eq_append [of 0 h "length D - h"] by (simp add: upt_conv_Cons)
    have pre: "moveOne_loop f [0..<h] (S ! i) pa a = Inr ((), pa, a)"
    proof (rule moveOne_loop_idle, rule ccontr)
      fix j assume j: "j \<in> set [0..<h]" "conflicts (pa_dest pa ! j) (S ! i)" "pa_status pa ! j \<noteq> PA_STATUS_DONE"
      then have jl: "j < length D" using h(1) by simp
      have "j = h" using conf [OF jl j(2,3)] uniq [OF _ jl] set jl j(3) by (simp add: pm_settled_def)
      then show False using j(1) by simp
    qed
    have post: "moveOne_loop f [Suc h..<length D] (S ! i) p b = Inr ((), p, b)"
      if p: "pm_pending D p" "pm_inv K a0 D S F p b" for p b
    proof (rule moveOne_loop_idle, rule ccontr)
      fix j assume j: "j \<in> set [Suc h..<length D]" "conflicts (pa_dest p ! j) (S ! i)"
        "pa_status p ! j \<noteq> PA_STATUS_DONE"
      then have jl: "j < length D" by simp
      from p(1) jl j(3) consider (dest) "pa_dest p ! j = D ! j"
        | (tmp) "pa_status p ! j = PA_STATUS_MOVING" "pa_dest p ! j \<notin> set D"
        unfolding pm_pending_def by blast
      then show False
      proof cases
        case dest
        then have "j = h" using conf [OF jl j(2,3)] uniq jl by blast
        then show False using j(1) by simp
      next
        case tmp
        have m: "mloc (pa_dest p ! j)" "isReg (rsp_reg (pa_dest p ! j))"
          using pm_invD(5) [OF p(2) jl] tmp nth_mem [OF jl] by (auto simp: pm_item_def pa_status_defs)
        then have "pa_dest p ! j \<noteq> hp_save" by (auto simp: hp_save_def rsp_ofSpill_def)
        then have "pa_dest p ! j = S ! i" using conflicts_iff [OF m(1) _ sm(1)] j(2) by blast
        then show False using tmp(2) True by simp
      qed
    qed
    have goal: ?thesis if p: "moveOne_loop f [h] (S ! i) pa a = Inr ((), p, b)"
        "pm_inv K a0 D S F p b" "pm_pending D p" "pm_advance D pa p"
        "pm_active D S p h \<Longrightarrow> pa_dest p ! h \<noteq> S ! i" for p b
    proof -
      have "moveOne_loop f (h # [Suc h..<length D]) (S ! i) pa a = Inr ((), p, b)"
        using moveOne_loop_append [of f "[h]" "[Suc h..<length D]"] p(1) post [OF p(3,2)] by simp
      then have "moveOne_loop f [0..<length D] (S ! i) pa a = Inr ((), p, b)"
        by (simp only: split moveOne_loop_append pre) simp
      moreover have "pa_dest p ! j \<noteq> S ! i" if "pm_active D S p j" for j
      proof (cases "j = h")
        case False
        have jl: "j < length D" "pa_status p ! j \<noteq> PA_STATUS_DONE" using that by (auto simp: pm_active_def)
        then have "pa_dest p ! j = D ! j \<or> pa_dest p ! j \<notin> set D" using p(3) by (auto simp: pm_pending_def)
        then show ?thesis using uniq [OF _ jl(1)] False True by metis
      qed (use p(5) that in blast)
      ultimately show ?thesis using p(2-4) by blast
    qed
    show ?thesis
    proof (cases "pa_status pa ! h = PA_STATUS_TODO")
      case todo: True
      from rec [OF h(1) todo chained] obtain p b where p: "moveOne f h pa a = Inr ((), p, b)"
          "pm_inv K a0 D S F p b" "pm_pending D p" "pm_advance D pa p"
          "pa_status p ! h = PA_STATUS_DONE \<or> D ! h = S ! h" by blast
      have dh: "pa_dest pa ! h = S ! i" using set h todo by (simp add: pm_settled_def pa_status_defs)
      have "conflicts (pa_dest pa ! h) (S ! i)"
        using conflicts_iff [OF sm(1) _ sm(1)] loc_ok_not_hp [OF sm(2)] dh by simp
      then have "moveOne_loop f [h] (S ! i) pa a = Inr ((), p, b)" using todo p(1) by (simp add: pa_status_defs)
      then show ?thesis using goal p(2-5) by (auto simp: pm_active_def)
    next
      case nt: False
      show ?thesis
      proof (cases "pa_status pa ! h = PA_STATUS_DONE")
        case True
        then have "moveOne_loop f [h] (S ! i) pa a = Inr ((), pa, a)" by simp
        then show ?thesis using goal inv pend pm_advance_refl True by (auto simp: pm_active_def)
      next
        case False
        then have mv: "pa_status pa ! h = PA_STATUS_MOVING"
          using pm_invD(5) [OF inv h(1)] nt by (auto simp: pm_item_def split: if_splits)
        from breakCycle_ok [OF inp inv set h(1) mv] obtain p b l where p: "breakCycle h pa a = Inr ((), p, b)"
            "pm_inv K a0 D S F p b" "pa_status p = pa_status pa" "pa_dest p = (pa_dest pa)[h := l]" "l \<notin> set D"
          by blast
        have dh: "pa_dest pa ! h = S ! i" using set h False by (simp add: pm_settled_def)
        have len: "length (pa_dest pa) = length D" using pm_invD(1) [OF inv] by (simp add: pm_shape_def)
        have dp: "pa_dest p ! j = (if j = h then l else pa_dest pa ! j)" for j using p(4) h(1) len by simp
        have "conflicts (pa_dest pa ! h) (S ! i)"
          using conflicts_iff [OF sm(1) _ sm(1)] loc_ok_not_hp [OF sm(2)] dh by simp
        then have "moveOne_loop f [h] (S ! i) pa a = Inr ((), p, b)" using nt False p(1) by simp
        moreover have "pm_pending D p" using set mv p(3,5) dp by (auto simp: pm_pending_def pm_settled_def)
        moreover have "pm_advance D pa p" using p(3) by (simp add: pm_advance_def)
        moreover have "pa_dest p ! h \<noteq> S ! i" using dp p(5) True by metis
        ultimately show ?thesis using goal p(2) by blast
      qed
    qed
  qed
qed


lemma moveOne_ok:
  assumes inp: "pm_input D S F"
  shows "pm_inv K a0 D S F pa a \<Longrightarrow> pm_settled D pa \<Longrightarrow> pm_chained D S pa \<Longrightarrow> i < length D \<Longrightarrow>
    pa_status pa ! i = PA_STATUS_TODO \<Longrightarrow> pm_todo D pa \<le> f \<Longrightarrow>
    \<exists>pa' a'. moveOne f i pa a = Inr ((), pa', a') \<and> pm_inv K a0 D S F pa' a' \<and> pm_pending D pa' \<and>
      pm_advance D pa pa' \<and> (pa_status pa' ! i = PA_STATUS_DONE \<or> D ! i = S ! i)"
proof (induction f arbitrary: i pa a)
  case 0
  then have "i \<in> {j. j < length D \<and> pa_status pa ! j = PA_STATUS_TODO}" by simp
  then show ?case using 0 by (auto simp: pm_todo_def)
next
  case (Suc f)
  note inv = Suc.prems(1) and i = Suc.prems(4,5)
  have sh: "pa_source pa = S" "pa_size pa = length D" "length (pa_status pa) = length D"
    using pm_invD(1) [OF inv] by (simp_all add: pm_shape_def)
  have di: "pa_dest pa ! i = D ! i" using Suc.prems(2) i by (simp add: pm_settled_def pa_status_defs)
  have pend: "pm_pending D pa" using Suc.prems(2) by (auto simp: pm_settled_def pm_pending_def)
  have reg: "isReg (rsp_reg (D ! i)) \<or> isReg (rsp_reg (S ! i))" by (rule pm_inputD(5) [OF inp i(1)])
  show ?case
  proof (cases "D ! i = S ! i")
    case True
    then show ?thesis using inv pend reg pm_advance_refl by (simp add: di sh(1) lc_assert_def)
  next
    case False
    let ?p = "pa\<lparr>pa_status := (pa_status pa)[i := PA_STATUS_MOVING]\<rparr>"
    have st: "pa_status ?p ! j = (if j = i then PA_STATUS_MOVING else pa_status pa ! j)" for j
      using i(1) sh(3) by simp
    have invp: "pm_inv K a0 D S F ?p a" by (rule pm_mark [OF inv i False inp])
    have setp: "pm_settled D ?p"
      using Suc.prems(2) di unfolding pm_settled_def st by simp
    have todo: "pm_todo D ?p \<le> f"
    proof -
      have "{j. j < length D \<and> pa_status ?p ! j = PA_STATUS_TODO} =
          {j. j < length D \<and> pa_status pa ! j = PA_STATUS_TODO} - {i}"
        unfolding st by (auto simp: pa_status_defs)
      then show ?thesis using Suc.prems(6) i by (simp add: pm_todo_def)
    qed
    have "\<exists>p a'. moveOne_loop f [0..<length D] (S ! i) ?p a = Inr ((), p, a') \<and>
        pm_inv K a0 D S F p a' \<and> pm_pending D p \<and> pm_advance D ?p p \<and>
        (\<forall>j. j \<noteq> i \<longrightarrow> pm_active D S p j \<longrightarrow> pa_dest p ! j \<noteq> S ! i)"
    proof (rule moveOne_loop_ok [OF inp invp setp _ i(1)])
      show "S ! m \<in> set D" if "m < length D" "m \<noteq> i" "pa_status ?p ! m = PA_STATUS_MOVING" for m
        using Suc.prems(3) that unfolding st pm_chained_def by simp
      show "pa_status ?p ! i = PA_STATUS_MOVING" unfolding st by simp
      show "\<exists>pa' a'. moveOne f h ?p a = Inr ((), pa', a') \<and> pm_inv K a0 D S F pa' a' \<and> pm_pending D pa' \<and>
          pm_advance D ?p pa' \<and> (pa_status pa' ! h = PA_STATUS_DONE \<or> D ! h = S ! h)"
        if "h < length D" "pa_status ?p ! h = PA_STATUS_TODO" "pm_chained D S ?p" for h
        by (rule Suc.IH [OF invp setp that(3,1,2) todo])
    qed
    then obtain p b where p: "moveOne_loop f [0..<length D] (S ! i) ?p a = Inr ((), p, b)"
        "pm_inv K a0 D S F p b" "pm_pending D p" "pm_advance D ?p p"
        "\<And>j. j \<noteq> i \<Longrightarrow> pm_active D S p j \<Longrightarrow> pa_dest p ! j \<noteq> S ! i" by blast
    have mv: "pa_status p ! i = PA_STATUS_MOVING"
      using p(4) i(1) unfolding pm_advance_def st by (auto simp: pa_status_defs)
    from pm_transfer [OF inp p(2) i(1) mv p(5)] obtain b' where b: "transfer (pa_dest p ! i) (S ! i) b = Inr ((), b')"
        "pm_inv K a0 D S F (p\<lparr>pa_status := (pa_status p)[i := PA_STATUS_DONE]\<rparr>) b'" by blast
    let ?q = "p\<lparr>pa_status := (pa_status p)[i := PA_STATUS_DONE]\<rparr>"
    have shp: "pa_source p = S" "length (pa_status p) = length D"
      using pm_invD(1) [OF p(2)] by (simp_all add: pm_shape_def)
    have stq: "pa_status ?q ! j = (if j = i then PA_STATUS_DONE else pa_status p ! j)" for j
      using i(1) shp(2) by simp
    have "moveOne (Suc f) i pa a = Inr ((), ?q, b')"
      using same_reg_iff [OF inp i(1)] False reg p(1) b(1)
      by (simp add: di sh(1,2) shp(1) lc_assert_def)
    moreover have "pm_pending D ?q" using p(3) unfolding pm_pending_def stq by simp
    moreover have "pm_advance D pa ?q"
      unfolding pm_advance_def
    proof (intro allI impI)
      fix j assume "j < length D"
      with p(4) have "pa_status p ! j = pa_status ?p ! j \<or>
          pa_status ?p ! j = PA_STATUS_TODO \<and> pa_status p ! j = PA_STATUS_DONE"
        unfolding pm_advance_def by blast
      then show "pa_status ?q ! j = pa_status pa ! j \<or>
          pa_status pa ! j = PA_STATUS_TODO \<and> pa_status ?q ! j = PA_STATUS_DONE"
        unfolding st stq using i(2) by (cases "j = i") simp_all
    qed
    ultimately show ?thesis using b(2) stq [of i] by auto
  qed
qed

text \<open>Between the top-level moves no move is half done.\<close>

lemma parallel_loop_ok:
  assumes inp: "pm_input D S F"
  shows "pm_inv K a0 D S F pa a \<Longrightarrow> pm_pending D pa \<Longrightarrow>
    (\<forall>j < length D. pa_status pa ! j \<noteq> PA_STATUS_MOVING) \<Longrightarrow> set is \<subseteq> {..<length D} \<Longrightarrow>
    \<exists>pa' a'. parallel_loop is pa a = Inr ((), pa', a') \<and> pm_inv K a0 D S F pa' a' \<and>
      (\<forall>j < length D. pa_status pa' ! j \<noteq> PA_STATUS_MOVING) \<and> pm_advance D pa pa' \<and>
      (\<forall>i \<in> set is. pa_status pa' ! i = PA_STATUS_DONE \<or> D ! i = S ! i)"
proof (induction "is" arbitrary: pa a)
  case Nil
  then show ?case using pm_advance_refl by auto
next
  case (Cons i js)
  note inv = Cons.prems(1)
  have i: "i < length D" using Cons.prems(4) by simp
  have "\<exists>p b. (if pa_status pa ! i = PA_STATUS_TODO then moveOne (Suc (pa_size pa)) i pa a
        else Inr ((), pa, a)) = Inr ((), p, b) \<and> pm_inv K a0 D S F p b \<and> pm_pending D p \<and> pm_advance D pa p \<and>
      (pa_status p ! i = PA_STATUS_DONE \<or> D ! i = S ! i)"
  proof (cases "pa_status pa ! i = PA_STATUS_TODO")
    case True
    have "pm_settled D pa" using Cons.prems(2,3) by (auto simp: pm_settled_def pm_pending_def)
    moreover have "pm_chained D S pa" using Cons.prems(3) by (simp add: pm_chained_def)
    moreover have "pm_todo D pa \<le> Suc (pa_size pa)"
    proof -
      have "pm_todo D pa \<le> card {..<length D}" unfolding pm_todo_def by (rule card_mono) auto
      then show ?thesis using pm_invD(1) [OF inv] by (simp add: pm_shape_def)
    qed
    ultimately show ?thesis using moveOne_ok [OF inp inv _ _ i True] by (simp del: moveOne.simps add: True)
  next
    case False
    then have "pa_status pa ! i = PA_STATUS_DONE"
      using pm_invD(5) [OF inv i] Cons.prems(3) i by (auto simp: pm_item_def split: if_splits)
    then show ?thesis using False inv Cons.prems(2) pm_advance_refl by simp
  qed
  then obtain p b where p: "(if pa_status pa ! i = PA_STATUS_TODO then moveOne (Suc (pa_size pa)) i pa a
        else Inr ((), pa, a)) = Inr ((), p, b)" "pm_inv K a0 D S F p b" "pm_pending D p" "pm_advance D pa p"
      "pa_status p ! i = PA_STATUS_DONE \<or> D ! i = S ! i" by blast
  have "\<forall>j < length D. pa_status p ! j \<noteq> PA_STATUS_MOVING"
    using p(4) Cons.prems(3) unfolding pm_advance_def by (metis PA_STATUS_DONE_def PA_STATUS_MOVING_def one_eq_numeral_iff numeral_eq_iff semiring_norm(85))
  from Cons.IH [OF p(2,3) this] Cons.prems(4) obtain q c where q: "parallel_loop js p b = Inr ((), q, c)"
      "pm_inv K a0 D S F q c" "\<forall>j < length D. pa_status q ! j \<noteq> PA_STATUS_MOVING" "pm_advance D p q"
      "\<forall>i \<in> set js. pa_status q ! i = PA_STATUS_DONE \<or> D ! i = S ! i" by auto
  have "parallel_loop (i # js) pa a = Inr ((), q, c)" using p(1) q(1) by simp
  moreover have "pa_status q ! i = PA_STATUS_DONE \<or> D ! i = S ! i"
    using p(5) q(4) i unfolding pm_advance_def by (auto simp: pa_status_defs)
  ultimately show ?case using q(2,3,5) pm_advance_trans [OF p(4) q(4)] by auto
qed

definition par_init :: "regspill list \<Rightarrow> regspill list \<Rightarrow> par_assign" where
  "par_init D S = \<lparr>pa_dest = D, pa_source = S, pa_status = replicate (length D) PA_STATUS_TODO,
     pa_size = length D, pa_tmpsInUse = 0, pa_usingHp = False\<rparr>"

lemma par_init_inv:
  assumes inp: "pm_input D S (a_freeset a)"
  shows "pm_inv K a D S (a_freeset a) (par_init D S) a"
proof -
  let ?F = "a_freeset a"
  have cur: "pm_cur S (par_init D S) j = D ! j" if "j < length D" for j
    using that by (simp add: pm_cur_def par_init_def pa_status_defs)
  have dk: "D ! j \<notin> pm_kept D ?F" if "j < length D" for j
    using nth_mem [OF that] by (simp add: pm_kept_def)
  have "pm_apart D S ?F (par_init D S) j" if "pm_active D S (par_init D S) j" for j
  proof -
    have j: "j < length D" using that by (simp add: pm_active_def)
    have "D ! k \<noteq> D ! j" if "k < length D" "k \<noteq> j" for k
      using that j pm_inputD(2) [OF inp] by (simp add: nth_eq_iff_index_eq)
    moreover have "hp_loc \<noteq> D ! j" using loc_ok_not_hp [OF pm_inputD(3) [OF inp j]] by metis
    ultimately show ?thesis
      using dk [OF j] cur by (simp add: pm_apart_def) (simp add: par_init_def hp_src_def)
  qed
  moreover have "pm_code K (a_mc a) (a_mc a) (pm_rel D S ?F (par_init D S))"
    unfolding pm_code_def
  proof (intro allI impI)
    fix e and s :: xstate
    have "t = c" if "(t, c) \<in> pm_rel D S ?F (par_init D S)" for t c
      using that cur by (auto simp: pm_rel_def hp_src_def) (auto simp: par_init_def)
    then show "\<exists>s'. xrun e (a_mc a) s = xrun e (a_mc a) s' \<and> same_rest K s s' \<and>
        (\<forall>(t, c) \<in> pm_rel D S ?F (par_init D S). loc_val K s' t = loc_val K s c)"
      by (intro exI [of _ s]) (auto simp: same_rest_def)
  qed
  moreover have "pm_item D S ?F (par_init D S) j" if "j < length D" for j
    using that by (simp add: pm_item_def par_init_def)
  moreover have "pm_shape D S (par_init D S)"
    using pm_inputD(1) [OF inp] by (simp add: pm_shape_def par_init_def)
  ultimately show ?thesis using code_only_refl by (simp add: pm_inv_def)
qed

text \<open>The whole assignment: what it computes, and what it leaves alone.\<close>

lemma parallelAssign_ok:
  assumes inp: "pm_input D S (a_freeset a)" and pa: "pa_dest pa = D" "pa_source pa = S" "pa_size pa = length D"
  shows "\<exists>pa' a'. parallelAssign pa a = Inr ((), pa', a') \<and> code_only a a' \<and>
    pm_code K (a_mc a) (a_mc a')
      ({(D ! j, S ! j) | j. j < length D} \<union> {(hp_loc, hp_loc)} \<union>
       {(l, l) | l. l \<in> pm_kept D (a_freeset a)})"
proof -
  let ?F = "a_freeset a"
  let ?R = "{(D ! j, S ! j) | j. j < length D} \<union> {(hp_loc, hp_loc)} \<union> {(l, l) | l. l \<in> pm_kept D ?F}"
  have init: "pa\<lparr>pa_status := replicate (pa_size pa) PA_STATUS_TODO, pa_tmpsInUse := 0, pa_usingHp := False\<rparr>
      = par_init D S" using pa by (cases pa) (simp add: par_init_def)
  have sz: "pa_size (par_init D S) = length D" by (simp add: par_init_def)
  have pend: "pm_pending D (par_init D S)" by (simp add: pm_pending_def par_init_def)
  have nm: "\<forall>j < length D. pa_status (par_init D S) ! j \<noteq> PA_STATUS_MOVING"
    by (simp add: par_init_def pa_status_defs)
  have sub: "set [0..<length D] \<subseteq> {..<length D}" by auto
  obtain p b where p: "parallel_loop [0..<length D] (par_init D S) a = Inr ((), p, b)"
      "pm_inv K a D S ?F p b" "\<forall>i \<in> set [0..<length D]. pa_status p ! i = PA_STATUS_DONE \<or> D ! i = S ! i"
      "\<forall>j < length D. pa_status p ! j \<noteq> PA_STATUS_MOVING"
    using parallel_loop_ok [OF inp par_init_inv [OF inp] pend nm sub] by blast
  have eq: "parallelAssign pa a = Inr ((), p, if pa_usingHp p
      then a_emit (store_u64 RID_ESP (of_nat SPILL_SP_OFFS) RID_HP) b else b)"
    unfolding parallelAssign_def Let_def init sz p(1) by simp
  have cur: "pm_cur S p j = S ! j" if j: "j < length D" for j
  proof (cases "pa_status p ! j = PA_STATUS_DONE")
    case False
    then have "D ! j = S ! j" using p(3) j by auto
    moreover have "pa_dest p ! j = D ! j"
      using pm_invD(5) [OF p(2) j] False p(4) j by (auto simp: pm_item_def split: if_splits)
    ultimately show ?thesis using False by (simp add: pm_cur_def)
  qed (simp add: pm_cur_def)
  show ?thesis
  proof (cases "pa_usingHp p")
    case False
    have "{(D ! j, pm_cur S p j) | j. j < length D} = {(D ! j, S ! j) | j. j < length D}"
      by (rule Collect_cong) (metis cur)
    then have "pm_rel D S ?F p = ?R" unfolding pm_rel_def hp_src_def using False by (simp only: if_False)
    with pm_invD(3) [OF p(2)] have "pm_code K (a_mc a) (a_mc b) ?R" by (simp only:)
    moreover have "parallelAssign pa a = Inr ((), p, b)" unfolding eq using False by (simp only: if_False)
    ultimately show ?thesis using pm_invD(2) [OF p(2)] by blast
  next
    case True
    let ?b = "a_emit (store_u64 RID_ESP (of_nat SPILL_SP_OFFS) RID_HP) b"
    have e: "pm_emits K hp_save hp_loc (a_mc b) (a_mc ?b)"
      using pm_emits_store [of RID_HP K 0 "a_mc b"] by (simp add: hp_loc_def hp_save_def spillOffset_def)
    have "pm_code K (a_mc a) (a_mc ?b) ?R"
    proof (rule pm_code_emits [OF pm_invD(3) [OF p(2)] e hp_mloc(2)])
      fix t c' assume "(t, c') \<in> ?R"
      then consider (dest) j where "j < length D" "t = D ! j" "c' = S ! j"
        | (hp) "t = hp_loc" "c' = hp_loc" | (kept) "t = c'" "t \<in> pm_kept D ?F" by auto
      then show "\<exists>c. (t, c) \<in> pm_rel D S ?F p \<and> mloc c \<and> c' = (if c = hp_save then hp_loc else c)"
      proof cases
        case dest
        have ok: "loc_ok (S ! j)" by (rule pm_inputD(4) [OF inp dest(1)])
        have "(t, S ! j) \<in> pm_rel D S ?F p" using dest cur [OF dest(1)] by (auto simp: pm_rel_def)
        then show ?thesis using dest(3) loc_ok_mloc [OF ok] loc_ok_not_hp [OF ok] by metis
      next
        case hp
        have "(t, hp_save) \<in> pm_rel D S ?F p" using hp(1) True by (simp add: pm_rel_def hp_src_def)
        then show ?thesis using hp(2) hp_mloc(2) by auto
      next
        case kept
        have "(t, t) \<in> pm_rel D S ?F p" "mloc t" "t \<noteq> hp_save"
          using kept(2) by (auto simp: pm_rel_def pm_kept_def)
        then show ?thesis using kept(1) by metis
      qed
    qed
    moreover have "parallelAssign pa a = Inr ((), p, ?b)" unfolding eq using True by (simp only: if_True)
    ultimately show ?thesis using code_only_steps(1) [OF pm_invD(2) [OF p(2)]] by blast
  qed
qed

text \<open>
  \<^bold>\<open>C5.\<close>
  The code of \<^verbatim>\<open>parallelAssign\<close> performs all moves at once: whatever cycles the moves form, and
  even when no register is free, every destination ends with the value its source had at the start.
  The heap pointer, the registers that are neither free nor destinations, the spill slots that are
  no destination, and the memory outside the spill area keep their values.
\<close>

theorem parallel_assignment:
  assumes "pm_input D S (a_freeset a)"
    and "pa_dest pa = D" and "pa_source pa = S" and "pa_size pa = length D"
    and "x_reg s RID_ESP = kc_sp K"
  shows "\<exists>pa' a' s'. parallelAssign pa a = Inr ((), pa', a') \<and>
    xrun e (a_mc a') s = xrun e (a_mc a) s' \<and>
    (\<forall>j < length D. loc_val K s' (D ! j) = loc_val K s (S ! j)) \<and>
    x_reg s' RID_HP = x_reg s RID_HP \<and>
    (\<forall>l. mloc l \<and> l \<notin> set D \<and> l \<noteq> hp_save \<and> (isReg (rsp_reg l) \<longrightarrow> \<not> bit (a_freeset a) (rsp_reg l)) \<longrightarrow>
       loc_val K s' l = loc_val K s l) \<and>
    same_rest K s s'"
proof -
  obtain pa' a' where a': "parallelAssign pa a = Inr ((), pa', a')"
    and c: "pm_code K (a_mc a) (a_mc a')
      ({(D ! j, S ! j) | j. j < length D} \<union> {(hp_loc, hp_loc)} \<union> {(l, l) | l. l \<in> pm_kept D (a_freeset a)})"
    using parallelAssign_ok [OF assms(1-4)] by blast
  obtain s' where s': "xrun e (a_mc a') s = xrun e (a_mc a) s'" "same_rest K s s'"
    and v: "\<forall>(t, c) \<in> {(D ! j, S ! j) | j. j < length D} \<union> {(hp_loc, hp_loc)} \<union>
      {(l, l) | l. l \<in> pm_kept D (a_freeset a)}. loc_val K s' t = loc_val K s c"
    using c assms(5) unfolding pm_code_def by blast
  have hp: "loc_val K s' hp_loc = loc_val K s hp_loc" using v by blast
  then have "x_reg s' RID_HP = x_reg s RID_HP"
    by (simp add: loc_val_def hp_loc_def rsp_ofReg_def isReg_small)
  moreover have "loc_val K s' l = loc_val K s l"
    if "mloc l" "l \<notin> set D" "l \<noteq> hp_save" "isReg (rsp_reg l) \<longrightarrow> \<not> bit (a_freeset a) (rsp_reg l)" for l
    using hp v that by (cases "l = hp_loc") (auto simp: pm_kept_def)
  moreover have "loc_val K s' (D ! j) = loc_val K s (S ! j)" if "j < length D" for j
    using v that by blast
  ultimately show ?thesis using a' s' by blast
qed

definition demo_jit :: jit_view where
  "demo_jit = \<lparr>jv_fastHeapCheckFail = True, jv_debugTrace = False, jv_fallthrough = False,
     jv_exitStubGroup = (\<lambda>_. 0x10000000), jv_fragments = [], jv_mcode = mcd_init 5,
     jv_mem = (\<lambda>_. 0), jv_asmExit = 0x10400100, jv_asmTrace = 0x10400200,
     jv_asmHeapOverflow = 0x10400300, jv_asmStackOverflow = 0x10400400\<rparr>"

definition demo_asm :: assembler where
  "demo_asm = \<lparr>a_mc = [], a_mcend = 0x10400000, a_mctop = 0x10400000, a_mcbot = 0x10000085,
     a_mcQuickHeapCheck = 0, a_numHeapChecks = 0, a_jit = demo_jit, a_buf = demo_buf,
     a_nins = 0x8001, a_curins = 0x8001, a_stopins = 0x8001, a_snapno = 0, a_freeset = 0,
     a_modset = 0, a_phiset = 0, a_cost = (\<lambda>_. rc_default), a_spills = ss_reset,
     a_mrm = \<lparr>mrm_ofs = 0, mrm_base = 0, mrm_idx = 0, mrm_scale = 0\<rparr>\<rparr>"

definition demo_kctx :: kctx where
  "demo_kctx = \<lparr>kc_sp = 0x7fff0000, kc_base = 0x20000000, kc_hp = 0x30000000, kc_mem = (\<lambda>_. 0)\<rparr>"

definition demo_xstate :: xstate where
  "demo_xstate = \<lparr>x_reg = (\<lambda>r. of_nat r)(RID_ESP := 0x7fff0000), x_mem = (\<lambda>_. 0), x_flags = None\<rparr>"

text \<open>Exchanging two registers and loading a third, with no free register.\<close>

theorem parallel_assignment_witness:
  "\<exists>pa' a' s'. parallelAssign
       (par_init [rsp_ofReg 0, rsp_ofReg 1, rsp_ofReg 2] [rsp_ofReg 1, rsp_ofReg 0, rsp_ofSpill 3]) demo_asm
       = Inr ((), pa', a') \<and>
     xrun 0x10400000 (a_mc a') demo_xstate = Some (Fell s') \<and> x_reg s' 0 = 1 \<and> x_reg s' 1 = 0"
proof -
  let ?D = "[rsp_ofReg 0, rsp_ofReg 1, rsp_ofReg 2]" and ?S = "[rsp_ofReg 1, rsp_ofReg 0, rsp_ofSpill 3]"
  have r: "rsp_reg (rsp_ofReg r) = r" "rsp_spill (rsp_ofReg r) = 0" "rsp_reg (rsp_ofSpill n) = RID_NONE"
      "rsp_spill (rsp_ofSpill n) = n" "rsp_ofReg x = rsp_ofReg y \<longleftrightarrow> x = y" for r n x y
    by (auto simp: rsp_ofReg_def rsp_ofSpill_def)
  have "pm_input ?D ?S (a_freeset demo_asm)"
    by (auto simp: pm_input_def r loc_ok_def bit_kGPR isReg_small demo_asm_def gpr_set_def less_Suc_eq nth_Cons' RID_ESP_def)
  moreover have "pa_dest (par_init ?D ?S) = ?D" "pa_source (par_init ?D ?S) = ?S"
      "pa_size (par_init ?D ?S) = length ?D" by (simp_all add: par_init_def)
  moreover have "x_reg demo_xstate RID_ESP = kc_sp demo_kctx" by (simp add: demo_xstate_def demo_kctx_def)
  ultimately obtain pa' a' s' where p: "parallelAssign (par_init ?D ?S) demo_asm = Inr ((), pa', a')"
      "xrun 0x10400000 (a_mc a') demo_xstate = xrun 0x10400000 (a_mc demo_asm) s'"
      "\<forall>j < length ?D. loc_val demo_kctx s' (?D ! j) = loc_val demo_kctx demo_xstate (?S ! j)"
    using parallel_assignment [where e = "0x10400000"] by blast
  have "loc_val demo_kctx s' (rsp_ofReg 0) = loc_val demo_kctx demo_xstate (rsp_ofReg 1)"
      "loc_val demo_kctx s' (rsp_ofReg 1) = loc_val demo_kctx demo_xstate (rsp_ofReg 0)"
    using p(3) [rule_format, of 0] p(3) [rule_format, of 1] by simp_all
  then show ?thesis
    using p(1,2) by (auto simp: loc_val_def r isReg_small demo_asm_def demo_xstate_def RID_ESP_def)
qed

end
