(* ===== verification/Assembler.thy ===== *)
theory Assembler
  imports ParallelMove
begin

text \<open>
  The code generator of \<^verbatim>\<open>src/vm/assembler.cc\<close>: setting up the tables for a trace, one function
  for each kind of instruction, guards and exit stubs, the tail of a trace, patching, and
  \<^verbatim>\<open>assemble\<close>, which walks the trace backwards.

  The code under construction is \<open>a_mc\<close>, from \<open>mcp\<close> to \<open>mcend\<close>; the memory that holds all
  other code is in the view of the JIT compiler, and \<open>a_commit\<close> moves the new code there.
\<close>

section \<open>Snapshots and code memory\<close>

definition a_snap :: "nat \<Rightarrow> assembler \<Rightarrow> snapshot result" where
  "a_snap n a =
     res_bind (lc_assert (n < length (ib_snaps (a_buf a)))) (\<lambda>_. Inr (ib_snaps (a_buf a) ! n))"

definition a_setSnapMcode :: "nat \<Rightarrow> u8 \<Rightarrow> assembler \<Rightarrow> assembler" where
  "a_setSnapMcode n p a =
     a\<lparr>a_buf := (a_buf a)\<lparr>ib_snaps :=
         (ib_snaps (a_buf a))[n := (ib_snaps (a_buf a) ! n)\<lparr>sn_mcode := p\<rparr>]\<rparr>\<rparr>"

definition a_setJit :: "(jit_view \<Rightarrow> jit_view) \<Rightarrow> assembler \<Rightarrow> assembler" where
  "a_setJit f a = a\<lparr>a_jit := f (a_jit a)\<rparr>"

definition mem_write :: "u8 \<Rightarrow> u1 list \<Rightarrow> (u8 \<Rightarrow> u1) \<Rightarrow> (u8 \<Rightarrow> u1)" where
  "mem_write p bs m = (\<lambda>x. let d = unat (x - p) in if d < length bs then bs ! d else m x)"

text \<open>Space for \<open>n\<close> bytes whose contents are written later; until then they keep what was there.\<close>

definition a_reserve :: "nat \<Rightarrow> assembler \<Rightarrow> assembler" where
  "a_reserve n a =
     a\<lparr>a_mc := map (\<lambda>i. jv_mem (a_jit a) (a_mcp a - of_nat n + of_nat i)) [0..<n] @ a_mc a\<rparr>"

text \<open>A write into the code under construction.\<close>

definition a_poke :: "u8 \<Rightarrow> u1 list \<Rightarrow> assembler \<Rightarrow> unit asm_result" where
  "a_poke p bs a =
     (let d = unat (p - a_mcp a)
      in if d + length bs \<le> length (a_mc a)
         then Inr ((), a\<lparr>a_mc := take d (a_mc a) @ bs @ drop (d + length bs) (a_mc a)\<rparr>)
         else Inl BadAccess)"

definition a_commit :: "assembler \<Rightarrow> unit asm_result" where
  "a_commit a =
     res_bind (mcd_commit (a_mcp a) (jv_mcode (a_jit a))) (\<lambda>(_, m).
       Inr ((), a_setJit (\<lambda>j. j\<lparr>jv_mcode := m, jv_mem := mem_write (a_mcp a) (a_mc a) (jv_mem j)\<rparr>) a))"

text \<open>An instruction that ends in a displacement relative to its end.\<close>

definition a_emitRel :: "u1 list \<Rightarrow> u8 \<Rightarrow> assembler \<Rightarrow> unit asm_result" where
  "a_emitRel opc target a =
     res_bind (jmprel (a_mcp a) target) (\<lambda>d. Inr ((), a_emit (\<lambda>c. opc @ emit_i32 d c) a))"

section \<open>Set-up\<close>

definition setupMachineCode :: "(nat \<Rightarrow> u8 \<Rightarrow> u8 \<Rightarrow> u8) \<Rightarrow> assembler \<Rightarrow> unit asm_result" where
  "setupMachineCode mmap a =
     res_bind (mcd_reserve mmap (jv_asmExit (a_jit a)) (jv_mcode (a_jit a))) (\<lambda>((hi, lo), m).
       Inr ((), (a_setJit (\<lambda>j. j\<lparr>jv_mcode := m\<rparr>) a)
         \<lparr>a_mctop := hi, a_mcend := hi, a_mc := [], a_mcbot := lo\<rparr>))"

definition regsp :: "nat \<Rightarrow> nat \<Rightarrow> nat" where "regsp r s = r + push_bit 8 s"
definition regsp_hint :: "nat \<Rightarrow> nat" where "regsp_hint r = r OR RID_NONE"
definition regsp_init :: nat where "regsp_init = regsp RID_INIT 0"

definition setup_prev :: "nat list \<Rightarrow> assembler \<Rightarrow> assembler" where
  "setup_prev is a = fold (\<lambda>i. a_updIr i (ir_setPrev regsp_init)) is a"

fun setup_parent :: "nat list \<Rightarrow> assembler \<Rightarrow> unit asm_result" where
  "setup_parent [] a = Inr ((), a)"
| "setup_parent (i # is) a =
     res_bind (parentmap_at a (i - REF_FIRST)) (\<lambda>rs.
       let parent_spill = regsp_spill rs; parent_reg = regsp_reg rs
       in res_bind (if parent_spill \<noteq> 0 then ss_block parent_spill (a_spills a) else Inr (a_spills a))
            (\<lambda>d. setup_parent is
                   (a_updIr i (ir_setPrev (regsp (if isReg parent_reg then regsp_hint parent_reg
                                                  else RID_INIT) parent_spill))
                     (a\<lparr>a_spills := d\<rparr>))))"

definition asm_setup :: "irbuffer \<Rightarrow> assembler \<Rightarrow> unit asm_result" where
  "asm_setup buf a =
     res_bind (ib_setHeapOffsets buf) (\<lambda>(n, buf).
       let a = setupRegAlloc (a\<lparr>a_numHeapChecks := n, a_mcQuickHeapCheck := 0\<rparr>);
           a = a\<lparr>a_buf := buf, a_spills := ss_reset, a_curins := ib_bufmax buf,
                 a_nins := ib_bufmax buf, a_stopins := ib_stopins buf\<rparr>;
           a = a_updIr REF_BASE (ir_setPrev (regsp_hint RID_BASE))
                 (setup_prev [ib_bufmin buf..<REF_BIAS] a)
       in res_bind (setup_parent [REF_FIRST..<a_stopins a] a) (\<lambda>(_, a).
          Inr ((), setup_prev [a_stopins a..<a_nins a] a)))"

definition asm_finish :: "assembler \<Rightarrow> u8 asm_result" where
  "asm_finish a =
     res_bind (a_commit a) (\<lambda>(_, a'). Inr (a_mcp a, a'\<lparr>a_mc := [], a_mctop := 0, a_mcend := 0\<rparr>))"

section \<open>Exit stubs\<close>

definition EXITSTUBS_PER_GROUP :: nat where "EXITSTUBS_PER_GROUP = 32"
definition EXITSTUB_SPACING :: nat where "EXITSTUB_SPACING = 4"

definition exitStubGroup_at :: "nat \<Rightarrow> assembler \<Rightarrow> u8 result" where
  "exitStubGroup_at i a = (if i < 16 then Inr (jv_exitStubGroup (a_jit a) i) else Inl BadAccess)"

definition exitstubAddr :: "nat \<Rightarrow> assembler \<Rightarrow> u8 result" where
  "exitstubAddr exitno a =
     res_bind (exitStubGroup_at (exitno div EXITSTUBS_PER_GROUP) a) (\<lambda>g.
     res_bind (lc_assert (g \<noteq> 0)) (\<lambda>_.
       Inr (g + of_nat (EXITSTUB_SPACING * (exitno mod EXITSTUBS_PER_GROUP)))))"

text \<open>The code of a group up to the jump to the exit handler.\<close>

definition exitstub_code :: "nat \<Rightarrow> u1 list" where
  "exitstub_code grp =
     (let groupofs = of_nat (grp * EXITSTUBS_PER_GROUP) :: u1
      in [XI_PUSHi8, groupofs] @
         concat (map (\<lambda>i. [XI_JMPs, of_nat (4 * (EXITSTUBS_PER_GROUP - i) - 2),
                           XI_PUSHi8, groupofs + of_nat i]) [1..<EXITSTUBS_PER_GROUP]) @
         [XI_PUSHi8, of_nat (drop_bit 8 (grp * EXITSTUBS_PER_GROUP))])"

definition generateExitstubGroup :: "nat \<Rightarrow> assembler \<Rightarrow> u8 asm_result" where
  "generateExitstubGroup grp a =
     (let mxp = a_mcbot a
      in if mxp + of_nat (4 * EXITSTUBS_PER_GROUP + 8 + 5) \<ge> a_mctop a then Inl (Exit 2)
         else
           let code = exitstub_code grp; p = mxp + of_nat (length code + 5)
           in res_bind (jmprel p (jv_asmExit (a_jit a))) (\<lambda>d.
              res_bind (mcd_commitStub p (jv_mcode (a_jit a))) (\<lambda>(_, m).
                Inr (mxp,
                  (a_setJit (\<lambda>j. j\<lparr>jv_mcode := m,
                     jv_mem := mem_write mxp (code @ [XI_JMP] @ emit_i32 d []) (jv_mem j)\<rparr>) a)
                  \<lparr>a_mcbot := p\<rparr>))))"

fun setupExitStubs_loop :: "nat list \<Rightarrow> assembler \<Rightarrow> unit asm_result" where
  "setupExitStubs_loop [] a = Inr ((), a)"
| "setupExitStubs_loop (i # is) a =
     res_bind (exitStubGroup_at i a) (\<lambda>g.
     res_bind
       (if g = 0
        then res_bind (generateExitstubGroup i a) (\<lambda>(p, a).
               Inr ((), a_setJit (\<lambda>j. j\<lparr>jv_exitStubGroup := (jv_exitStubGroup j)(i := p)\<rparr>) a))
        else Inr ((), a))
       (\<lambda>(_, a). setupExitStubs_loop is a))"

definition setupExitStubs :: "nat \<Rightarrow> assembler \<Rightarrow> unit asm_result" where
  "setupExitStubs nexits a =
     (if nexits \<ge> EXITSTUBS_PER_GROUP * 16 then Inl (Exit 3)
      else setupExitStubs_loop
             [0..<(nexits + EXITSTUBS_PER_GROUP + 1) div EXITSTUBS_PER_GROUP] a)"

section \<open>Guards and jumps\<close>

definition guardcc :: "nat \<Rightarrow> assembler \<Rightarrow> unit asm_result" where
  "guardcc cc a =
     res_bind (exitstubAddr (a_snapno a) a) (\<lambda>target.
     res_bind (a_snap (a_snapno a) a) (\<lambda>_.
     res_bind (a_emitRel [0x0f, XI_JCCn + of_nat (cc mod 16)] target a) (\<lambda>(_, a).
       Inr ((), a_setSnapMcode (a_snapno a) (a_mcp a) a))))"

definition emit_jmp :: "u8 \<Rightarrow> assembler \<Rightarrow> unit asm_result" where
  "emit_jmp target a = a_emitRel [XI_JMP] target a"

definition exitTo :: "nat \<Rightarrow> assembler \<Rightarrow> unit asm_result" where
  "exitTo snapno a =
     res_bind (exitstubAddr snapno a) (\<lambda>target.
     res_bind (a_snap snapno a) (\<lambda>_.
     res_bind (emit_jmp target a) (\<lambda>(_, a).
       let a = a_setSnapMcode snapno (a_mcp a) a
       in if jv_debugTrace (a_jit a) then a_emitRel [XI_CALL] (jv_asmTrace (a_jit a)) a
          else Inr ((), a))))"

definition setTraceId_code :: "nat \<Rightarrow> u1 list" where
  "setTraceId_code traceId =
     [XI_MOVmi, 0x44, 0x24, of_nat F_ID_OFFS] @ emit_i32 (of_nat traceId) []"

definition emitSetTraceId :: "nat \<Rightarrow> assembler \<Rightarrow> assembler" where
  "emitSetTraceId traceId a = a_emit (\<lambda>c. setTraceId_code traceId @ c) a"

definition incrementCounter :: "u8 \<Rightarrow> assembler \<Rightarrow> unit asm_result" where
  "incrementCounter counterAddr a = a_emitRel [0x48, 0xff, 0x05] counterAddr a"

definition adjustBase :: "int \<Rightarrow> assembler \<Rightarrow> assembler" where
  "adjustBase relbase a =
     a_emit (emit_gri (XG_ARITHi XOg_ADD) (of_nat RID_BASE OR REX_64) (of_int (relbase * 8))) a"

definition adjustHeapPointer :: "u4 \<Rightarrow> assembler \<Rightarrow> assembler" where
  "adjustHeapPointer bytes a =
     a_emit (emit_rmro XO_LEA (of_nat RID_HP OR REX_64) (of_nat RID_HP OR REX_64) bytes) a"

definition stackCheck :: "assembler \<Rightarrow> unit asm_result" where
  "stackCheck a =
     res_bind (a_emitRel [0x0f, XI_JCCn + of_nat (CC_A mod 16)] (jv_asmStackOverflow (a_jit a)) a)
       (\<lambda>(_, a). Inr ((), a_emit (emit_rmro XO_CMP (of_nat RID_BASE OR REX_64)
                                   (of_nat RID_ESP OR REX_64) (of_nat SPLIM_SP_OFFS)) a))"


section \<open>Instructions\<close>

text \<open>The modifications of \<^verbatim>\<open>allow\<close>, \<^verbatim>\<open>k\<close> and \<^verbatim>\<open>right\<close> follow the code.\<close>

definition memstore :: "nat \<Rightarrow> u4 \<Rightarrow> nat \<Rightarrow> u4 \<Rightarrow> assembler \<Rightarrow> unit asm_result" where
  "memstore base ofs ref allow a =
     res_bind (if irref_islit ref then is32BitLiteral ref a else Inr None) (\<lambda>k.
       case k of Some k \<Rightarrow> Inr ((), a_emit (storei_u64 base ofs k) a)
       | None \<Rightarrow> res_bind (alloc1 ref allow a) (\<lambda>(r, a). Inr ((), a_emit (store_u64 base ofs r) a)))"

definition intArith :: "nat \<Rightarrow> u4 \<Rightarrow> assembler \<Rightarrow> unit asm_result" where
  "intArith ref xa a =
     (let lref = ir_op1 (a_ir a ref); rref = ir_op2 (a_ir a ref);
          right = ir_reg (a_ir a rref);
          allow = (if isReg right then rs_clear right kGPR else kGPR)
      in res_bind (destReg ref allow a) (\<lambda>(dest, a).
         res_bind (if \<not> isReg right then is32BitLiteral rref a else Inr None) (\<lambda>k32.
         res_bind (if \<not> isReg right \<and> k32 = None then fuseLoad rref (rs_clear dest allow) a
                   else Inr (right, a))
           (\<lambda>(right, a).
              let k = (case k32 of Some k \<Rightarrow> k | None \<Rightarrow> 0); rd = REX_64 OR of_nat dest
              in if xa \<noteq> XOg_X_IMUL
                 then allocLeft dest lref
                        (if isReg right then a_emit (emit_mrm (a_mrm a) (XO_ARITH xa) rd (of_nat right)) a
                         else a_emit (emit_gri (XG_ARITHi xa) rd k) a)
                 else if isReg right
                 then allocLeft dest lref (a_emit (emit_mrm (a_mrm a) XO_IMUL rd (of_nat right)) a)
                 else res_bind (lc_assert (irref_islit rref)) (\<lambda>_.
                      res_bind (fuseLoad lref kGPR a) (\<lambda>(left, a).
                        let (xo, a) = (if checki8 (sint k) then (XO_IMULi8, a_emit (emit_i8 (ucast k)) a)
                                       else (XO_IMULi, a_emit (emit_i32 k) a))
                        in Inr ((), a_emit (emit_mrm (a_mrm a) xo rd (of_nat left)) a)))))))"

definition shift_const :: "nat \<Rightarrow> u4 \<Rightarrow> nat \<Rightarrow> assembler \<Rightarrow> assembler" where
  "shift_const shift xs dest a =
     (if shift = 0 then a
      else if shift = 1 then a_emit (emit_rr XO_SHIFT1 (xs OR REX_64) (of_nat dest)) a
      else a_emit (emit_shifti (xs OR REX_64) (of_nat dest) (of_nat shift)) a)"

definition bitshift :: "nat \<Rightarrow> u4 \<Rightarrow> assembler \<Rightarrow> unit asm_result" where
  "bitshift ref xs a =
     (let rref = ir_op2 (a_ir a ref)
      in if irref_islit rref
         then res_bind (lc_assert (ir_o (a_ir a rref) \<noteq> kKBASEO)) (\<lambda>_.
              res_bind (ib_literalValue (a_buf a) rref) (\<lambda>k.
              res_bind (destReg ref kGPR a) (\<lambda>(dest, a).
                allocLeft dest (ir_op1 (a_ir a ref)) (shift_const (unat (k AND 63)) xs dest a))))
         else
           res_bind (destReg ref (rs_exclude kGPR RID_ECX) a) (\<lambda>(dest, a).
           res_bind
             (if dest = RID_ECX
              then res_bind (allocScratchReg (rs_exclude kGPR RID_ECX) a) (\<lambda>(dest, a).
                     Inr (dest, a_emit (emit_rr XO_MOV (of_nat RID_ECX OR REX_64) (of_nat dest)) a))
              else Inr (dest, a))
             (\<lambda>(dest, a).
           let right = ir_reg (a_ir a rref)
           in res_bind
             (if \<not> isReg right then allocRef rref (rs_exclude kGPR RID_ECX) a
              else if right \<noteq> RID_ECX
              then res_bind (allocScratchReg (rs_fromReg RID_ECX) a) (\<lambda>(_, a). Inr (right, a))
              else Inr (right, a))
             (\<lambda>(right, a).
           let a = a_emit (emit_rr XO_SHIFTcl (xs OR REX_64) (of_nat dest)) a;
               a = (if right \<noteq> RID_ECX
                    then a_emit (emit_rr XO_MOV (of_nat RID_ECX) (of_nat right)) a else a)
           in allocLeft dest (ir_op1 (a_ir a ref)) a))))"

definition intNegNot :: "nat \<Rightarrow> u4 \<Rightarrow> assembler \<Rightarrow> unit asm_result" where
  "intNegNot ref xg a =
     res_bind (destReg ref kGPR a) (\<lambda>(dest, a).
       allocLeft dest (ir_op1 (a_ir a ref)) (a_emit (emit_rr XO_GROUP3 (REX_64 OR xg) (of_nat dest)) a))"

definition DIVMOD_DIV :: nat where "DIVMOD_DIV = 0"
definition DIVMOD_MOD :: nat where "DIVMOD_MOD = 1"

definition divmod :: "nat \<Rightarrow> nat \<Rightarrow> bool \<Rightarrow> assembler \<Rightarrow> unit asm_result" where
  "divmod ref op useSigned a =
     (if \<not> useSigned then Inl (Exit 3)
      else
        let resultReg = (if op = DIVMOD_DIV then RID_EAX else RID_EDX);
            otherReg = (if op = DIVMOD_DIV then RID_EDX else RID_EAX);
            allow = rs_exclude (rs_exclude kGPR RID_EAX) RID_EDX
        in res_bind (evictSet (rs_fromReg otherReg) a) (\<lambda>(_, a).
           res_bind (destReg ref (rs_include allow resultReg) a) (\<lambda>(dest, a).
           res_bind
             (if dest \<noteq> resultReg
              then res_bind (evictSet (rs_fromReg resultReg) a) (\<lambda>(_, a).
                     Inr ((), a_emit (move dest resultReg) a))
              else Inr ((), a))
             (\<lambda>(_, a).
           res_bind (alloc1 (ir_op2 (a_ir a ref)) allow a) (\<lambda>(right, a).
           res_bind (lc_assert (right \<noteq> RID_EAX \<and> right \<noteq> RID_EDX)) (\<lambda>_.
             let a = a_emit (emit_rr XO_GROUP3 (XOg_IDIV OR REX_64) (of_nat right)) a;
                 a = a_emit (emit_i8 0x48) (a_emit (emit_i8 XI_CDQ) a)
             in allocLeft RID_EAX (ir_op1 (a_ir a ref)) a))))))"

definition emitSLOAD :: "nat \<Rightarrow> assembler \<Rightarrow> unit asm_result" where
  "emitSLOAD ref a =
     (let ofs = 8 * sint (of_nat (ir_op1 (a_ir a ref)) :: u2)
      in res_bind (destReg ref kGPR a) (\<lambda>(dst, a).
         Inr ((), a_emit (load_u64 dst RID_BASE (of_int ofs)) a)))"

definition itblGuard :: "nat \<Rightarrow> bool \<Rightarrow> assembler \<Rightarrow> unit asm_result" where
  "itblGuard ref inverted a =
     (let closref = ir_op1 (a_ir a ref); itblref = ir_op2 (a_ir a ref)
      in res_bind (lc_assert (irref_islit itblref)) (\<lambda>_.
         res_bind (alloc1 closref kGPR a) (\<lambda>(closreg, a).
         res_bind (guardcc (if inverted then CC_E else CC_NE) a) (\<lambda>(_, a).
         res_bind (lc_assert (closreg \<noteq> RID_ESP \<and> closreg \<noteq> RID_EBP)) (\<lambda>_.
         res_bind (is32BitLiteral itblref a) (\<lambda>imm.
           let set_mrm = (\<lambda>a. a\<lparr>a_mrm := (a_mrm a)\<lparr>mrm_base := closreg, mrm_ofs := 0,
                                                  mrm_idx := RID_NONE\<rparr>\<rparr>)
           in case imm of
             Some imm \<Rightarrow>
               let a = set_mrm a
               in Inr ((), a_emit (emit_gmrmi (a_mrm a) (XG_ARITHi XOg_CMP)
                                    (of_nat RID_MRM OR REX_64) imm) a)
           | None \<Rightarrow>
               res_bind (alloc1 itblref kGPR a) (\<lambda>(right, a).
                 let a = set_mrm a
                 in Inr ((), a_emit (emit_mrm (a_mrm a) XO_CMP (of_nat right OR REX_64)
                                      (of_nat RID_MRM)) a))))))))"

definition asm_compmap :: "(nat \<times> nat) list" where
  "asm_compmap = [(CC_GE, CC_AE), (CC_L, CC_B), (CC_G, CC_A), (CC_LE, CC_BE), (CC_NE, CC_NE), (CC_E, CC_E)]"

definition compare :: "nat \<Rightarrow> nat \<Rightarrow> assembler \<Rightarrow> unit asm_result" where
  "compare ref cc a =
     (let lref = ir_op1 (a_ir a ref); rref = ir_op2 (a_ir a ref)
      in res_bind (alloc1 lref kGPR a) (\<lambda>(left, a).
         res_bind (is32BitLiteral rref a) (\<lambda>imm.
           case imm of
             Some imm \<Rightarrow>
               res_bind (guardcc cc a) (\<lambda>(_, a).
                 Inr ((), a_emit (emit_gmrmi (a_mrm a) (XG_ARITHi XOg_CMP)
                                    (of_nat left OR REX_64) imm) a))
           | None \<Rightarrow>
               res_bind (alloc1 rref kGPR a) (\<lambda>(right, a).
               res_bind (guardcc cc a) (\<lambda>(_, a).
                 Inr ((), a_emit (emit_mrm (a_mrm a) XO_CMP (of_nat left OR REX_64)
                                    (of_nat right OR REX_64)) a))))))"

definition fieldLoad :: "nat \<Rightarrow> assembler \<Rightarrow> unit asm_result" where
  "fieldLoad ref a =
     (let fref = ir_op1 (a_ir a ref)
      in res_bind (lc_assert (fref \<noteq> 0 \<and> ir_o (a_ir a fref) = kFREF)) (\<lambda>_.
         res_bind (destReg ref kGPR a) (\<lambda>(dst, a').
         res_bind (alloc1 (ir_op1 (a_ir a fref)) kGPR a') (\<lambda>(basereg, a').
           Inr ((), a_emit (load_u64 dst basereg (of_nat (8 * ir_op2 (a_ir a fref)))) a')))))"

definition insPLOAD :: "nat \<Rightarrow> assembler \<Rightarrow> unit asm_result" where
  "insPLOAD ref a =
     (let ptrref = ir_op1 (a_ir a ref); ofsref = ir_op2 (a_ir a ref)
      in res_bind (destReg ref kGPR a) (\<lambda>(dst, a).
         res_bind (alloc1 ptrref kGPR a) (\<lambda>(ptr, a).
         res_bind (alloc1 ofsref kGPR a) (\<lambda>(ofs, a).
           Inr ((), a_emit (emit_rmrxo XO_MOVZXb (of_nat dst) (of_nat ptr) (of_nat ofs) XM_SCALE1 0) a)))))"


section \<open>Allocation and update\<close>

definition QUICK_HEAP_CHECK_FAIL_SIZE :: nat where "QUICK_HEAP_CHECK_FAIL_SIZE = 24"

text \<open>The out-of-line part of a heap check, written at \<open>p\<close> in the space that
  \<^verbatim>\<open>prepareTail\<close> reserved.\<close>

definition heapCheckFailure :: "nat \<Rightarrow> u8 \<Rightarrow> u8 \<Rightarrow> u4 \<Rightarrow> assembler \<Rightarrow> unit asm_result" where
  "heapCheckFailure snapno retryAddress p bytes a =
     res_bind (jmprel (p + 17) (jv_asmHeapOverflow (a_jit a))) (\<lambda>d1.
     res_bind (jmprel (p + 24) retryAddress) (\<lambda>d2.
       a_poke p
         ([XI_PUSH + of_nat RID_EDI, XI_PUSH + of_nat RID_ESI, XI_MOVri + of_nat RID_EDI]
          @ le_bytes 4 (of_nat snapno :: u4) @ [XI_MOVri + of_nat RID_ESI] @ le_bytes 4 bytes
          @ [XI_CALL] @ le_bytes 4 d1
          @ [XI_POP + of_nat RID_ESI, XI_POP + of_nat RID_EDI, XI_JMP] @ le_bytes 4 d2) a))"

definition emit_heapLimit :: "u4 \<Rightarrow> assembler \<Rightarrow> assembler" where
  "emit_heapLimit bytes a =
     adjustHeapPointer bytes
       (a_emit (emit_rmro XO_CMP (of_nat RID_HP OR REX_64) (of_nat RID_ESP OR REX_64)
                 (of_nat HPLIM_SP_OFFS)) a)"

definition heapCheck :: "nat \<Rightarrow> assembler \<Rightarrow> unit asm_result" where
  "heapCheck ref a =
     (let bytes = of_nat (8 * ir_op1 (a_ir a ref)) :: u4
      in if bytes = 0 then Inr ((), a)
         else if a_mcQuickHeapCheck a \<noteq> 0
         then res_bind (a_snap (a_snapno a) a) (\<lambda>_.
              res_bind (a_emitRel [0x0f, XI_JCCn + of_nat (CC_A mod 16)] (a_mcQuickHeapCheck a) a)
                (\<lambda>(_, a).
                   let a = emit_heapLimit bytes (a_setSnapMcode (a_snapno a) 0 a)
                   in res_bind (heapCheckFailure (a_snapno a) (a_mcp a) (a_mcQuickHeapCheck a) bytes a)
                        (\<lambda>(_, a). Inr ((), a\<lparr>a_mcQuickHeapCheck := 0\<rparr>))))
         else res_bind (guardcc CC_A a) (\<lambda>(_, a). Inr ((), emit_heapLimit bytes a)))"

fun insNew_loop :: "nat \<Rightarrow> int \<Rightarrow> nat list \<Rightarrow> assembler \<Rightarrow> unit asm_result" where
  "insNew_loop eid ofs [] a = Inr ((), a)"
| "insNew_loop eid ofs (i # is) a =
     res_bind (ib_getField (a_buf a) eid i) (\<lambda>ref.
     res_bind (memstore RID_HP (of_int (8 * (ofs + 1 + int i))) ref kGPR a) (\<lambda>(_, a).
       insNew_loop eid ofs is a))"

definition insNew :: "nat \<Rightarrow> assembler \<Rightarrow> unit asm_result" where
  "insNew ref a =
     (let eid = ir_op2 (a_ir a ref)
      in res_bind (ah_entry_at (ib_heap (a_buf a)) eid) (\<lambda>entry.
         res_bind (lc_assert (ahe_ref entry = ref)) (\<lambda>_.
           let ofs = ahe_hpofs entry
           in res_bind (destReg ref kGPR a) (\<lambda>(dest, a).
              res_bind (insNew_loop eid ofs (rev [0..<ahe_size entry])
                         (a_emit (emit_rmro XO_LEA (of_nat dest OR REX_64) (of_nat RID_HP OR REX_64)
                                   (of_int (ofs * 8))) a))
                (\<lambda>(_, a). memstore RID_HP (of_int (8 * ofs)) (ir_op1 (a_ir a ref)) kGPR a)))))"

definition insUpdate :: "nat \<Rightarrow> assembler \<Rightarrow> unit asm_result" where
  "insUpdate ref a =
     res_bind (alloc1 (ir_op1 (a_ir a ref)) kGPR a) (\<lambda>(oldptr, a).
     res_bind (memstore oldptr 8 (ir_op2 (a_ir a ref)) (rs_exclude kGPR oldptr) a) (\<lambda>(_, a).
       memstore oldptr 0 REF_IND (rs_exclude kGPR oldptr) a))"

section \<open>Leaving the trace\<close>

definition IR_SAVE_FALLTHROUGH :: nat where "IR_SAVE_FALLTHROUGH = 0"
definition IR_SAVE_LOOP :: nat where "IR_SAVE_LOOP = 1"
definition IR_SAVE_LINK :: nat where "IR_SAVE_LINK = 2"

fun save_loop :: "snapshot_data \<Rightarrow> nat list \<Rightarrow> assembler \<Rightarrow> unit asm_result" where
  "save_loop snapmap [] a = Inr ((), a)"
| "save_loop snapmap (se # ses) a =
     res_bind (sd_slotId snapmap se) (\<lambda>slot.
     res_bind (sd_slotRef snapmap se) (\<lambda>ref.
     res_bind (memstore RID_BASE (of_int (slot * 8)) ref kGPR a) (\<lambda>(_, a).
       save_loop snapmap ses a)))"

definition save :: "nat \<Rightarrow> assembler \<Rightarrow> unit asm_result" where
  "save ref a =
     res_bind (lc_assert (ir_o (a_ir a ref) = kSAVE)) (\<lambda>_.
     res_bind (a_snap (a_snapno a) a) (\<lambda>snap.
       let relbase = sint (sn_relbase snap)
       in res_bind (if ir_op1 (a_ir a ref) = IR_SAVE_FALLTHROUGH then exitTo (a_snapno a) a
                    else Inr ((), a)) (\<lambda>(_, a).
          res_bind (if relbase > 0 then stackCheck a else Inr ((), a)) (\<lambda>(_, a).
            save_loop (ib_snapmap (a_buf a)) [sn_begin snap..<sn_end snap]
              (if relbase \<noteq> 0 then adjustBase relbase a else a)))))"

section \<open>The instruction switch\<close>

definition compare_guard :: "nat \<Rightarrow> (nat \<times> nat \<Rightarrow> nat) \<Rightarrow> irop \<Rightarrow> assembler \<Rightarrow> unit asm_result" where
  "compare_guard ref cu first a =
     (let idx = irop_num (ir_o (a_ir a ref)) - irop_num first
      in res_bind (lc_assert (idx < length asm_compmap)) (\<lambda>_.
         res_bind (a_snap (a_snapno a) a) (\<lambda>snap.
         res_bind (lc_assert (unat (sn_ref snap) = a_curins a)) (\<lambda>_.
         res_bind (lc_assert (a_curins a = ref)) (\<lambda>_.
           compare ref (cu (asm_compmap ! idx)) a)))))"

definition emit :: "nat \<Rightarrow> assembler \<Rightarrow> unit asm_result" where
  "emit ref a =
     (let o' = ir_o (a_ir a ref); ty = ir_type (a_ir a ref)
      in case o' of
        kSLOAD \<Rightarrow> emitSLOAD ref a
      | kADD \<Rightarrow> intArith ref XOg_ADD a
      | kSUB \<Rightarrow> intArith ref XOg_SUB a
      | kMUL \<Rightarrow> intArith ref XOg_X_IMUL a
      | kDIV \<Rightarrow> res_bind (lc_assert (isIntegerType ty)) (\<lambda>_. divmod ref DIVMOD_DIV (isSigned ty) a)
      | kREM \<Rightarrow> res_bind (lc_assert (isIntegerType ty)) (\<lambda>_. divmod ref DIVMOD_MOD (isSigned ty) a)
      | kNEG \<Rightarrow> res_bind (lc_assert (isIntegerType ty)) (\<lambda>_. intNegNot ref XOg_NEG a)
      | kBNOT \<Rightarrow> res_bind (lc_assert (isIntegerType ty)) (\<lambda>_. intNegNot ref XOg_NOT a)
      | kBAND \<Rightarrow> intArith ref XOg_AND a
      | kBOR \<Rightarrow> intArith ref XOg_OR a
      | kBXOR \<Rightarrow> intArith ref XOg_XOR a
      | kSAVE \<Rightarrow> save ref a
      | kLT \<Rightarrow> compare_guard ref fst kLT a
      | kGE \<Rightarrow> compare_guard ref fst kLT a
      | kLE \<Rightarrow> compare_guard ref fst kLT a
      | kGT \<Rightarrow> compare_guard ref fst kLT a
      | kEQ \<Rightarrow> compare_guard ref fst kLT a
      | kNE \<Rightarrow> compare_guard ref fst kLT a
      | kLTU \<Rightarrow> compare_guard ref snd kLTU a
      | kGEU \<Rightarrow> compare_guard ref snd kLTU a
      | kLEU \<Rightarrow> compare_guard ref snd kLTU a
      | kGTU \<Rightarrow> compare_guard ref snd kLTU a
      | kEQINFO \<Rightarrow> itblGuard ref False a
      | kNEINFO \<Rightarrow> itblGuard ref True a
      | kHEAPCHK \<Rightarrow> heapCheck ref a
      | kNEW \<Rightarrow> insNew ref a
      | kFREF \<Rightarrow> Inr ((), a)
      | kFLOAD \<Rightarrow> fieldLoad ref a
      | kUPDATE \<Rightarrow> insUpdate ref a
      | kPLOAD \<Rightarrow> insPLOAD ref a
      | kBSHL \<Rightarrow> bitshift ref XOg_SHL a
      | kBSHR \<Rightarrow> bitshift ref XOg_SHR a
      | kBSAR \<Rightarrow> bitshift ref XOg_SAR a
      | _ \<Rightarrow> Inl (Exit 23))"


section \<open>The tail of a trace\<close>

text \<open>\<^verbatim>\<open>saveref\<close> is 0 when the trace has no \<^verbatim>\<open>SAVE\<close>.\<close>

definition save_kind :: "nat \<Rightarrow> assembler \<Rightarrow> nat" where
  "save_kind saveref a = (if saveref \<noteq> 0 then ir_op1 (a_ir a saveref) else 0)"

definition prepareTail :: "nat \<Rightarrow> assembler \<Rightarrow> assembler" where
  "prepareTail saveref a =
     (let a = (if jv_fastHeapCheckFail (a_jit a) \<and> a_numHeapChecks a > 0
               then let a = a_reserve QUICK_HEAP_CHECK_FAIL_SIZE
                              (a\<lparr>a_mctop := a_mctop a - of_nat QUICK_HEAP_CHECK_FAIL_SIZE\<rparr>)
                    in a\<lparr>a_mcQuickHeapCheck := a_mctop a\<rparr>
               else a);
          n = (if save_kind saveref a \<noteq> 0
               then 5 + (if save_kind saveref a = IR_SAVE_LINK then 8 else 0) else 0);
          n = (if jv_debugTrace (a_jit a) then n + 5 else n)
      in a_reserve n a)"

definition fixupTail :: "u8 option \<Rightarrow> nat \<Rightarrow> assembler \<Rightarrow> unit asm_result" where
  "fixupTail target saveref a =
     (let p = a_mctop a
      in res_bind
        (case target of
           Some t \<Rightarrow> res_bind (jmprel p t) (\<lambda>d. res_bind (a_poke (p - 5) (XI_JMP # le_bytes 4 d) a)
                      (\<lambda>(_, a). Inr (p - 5, a)))
         | None \<Rightarrow> Inr (p, a))
        (\<lambda>(p, a).
      res_bind
        (if save_kind saveref a = IR_SAVE_LINK
         then res_bind (a_poke (p - 8) (setTraceId_code (ir_op2 (a_ir a saveref))) a)
                (\<lambda>(_, a). Inr (p - 8, a))
         else Inr (p, a))
        (\<lambda>(p, a).
      if jv_debugTrace (a_jit a)
      then res_bind (jmprel p (jv_asmTrace (a_jit a))) (\<lambda>d. a_poke (p - 5) (XI_CALL # le_bytes 4 d) a)
      else Inr ((), a))))"

section \<open>Patching\<close>

definition jit_write :: "u8 \<Rightarrow> u1 list \<Rightarrow> assembler \<Rightarrow> assembler" where
  "jit_write p bs a = a_setJit (\<lambda>j. j\<lparr>jv_mem := mem_write p bs (jv_mem j)\<rparr>) a"

definition fr_snap :: "nat \<Rightarrow> fragment \<Rightarrow> snapshot result" where
  "fr_snap n f = res_bind (lc_assert (n < length (fr_snaps f))) (\<lambda>_. Inr (fr_snaps f ! n))"

definition patchGuard :: "fragment \<Rightarrow> nat \<Rightarrow> u8 \<Rightarrow> assembler \<Rightarrow> unit asm_result" where
  "patchGuard f exitno target a =
     res_bind (fr_snap exitno f) (\<lambda>snap.
       let p = sn_mcode snap
       in res_bind (mcd_patchBegin p (jv_mcode (a_jit a))) (\<lambda>(area, m).
       let a = a_setJit (\<lambda>j. j\<lparr>jv_mcode := m\<rparr>) a
       in res_bind
         (if jv_mem (a_jit a) p = 0x0f
          then res_bind (lc_assert (sint XI_JCCn \<le> sint (jv_mem (a_jit a) (p + 1)))) (\<lambda>_.
               res_bind (lc_assert (sint (jv_mem (a_jit a) (p + 1)) \<le> sint (XI_JCCn + 15))) (\<lambda>_.
               res_bind (jmprel (p + 6) target) (\<lambda>d. Inr (jit_write (p + 2) (le_bytes 4 d) a))))
          else res_bind (lc_assert (jv_mem (a_jit a) p = XI_JMP)) (\<lambda>_.
               res_bind (jmprel (p + 5) target) (\<lambda>d. Inr (jit_write (p + 1) (le_bytes 4 d) a))))
         (\<lambda>a. res_bind (mcd_patchFinish area (jv_mcode (a_jit a))) (\<lambda>(_, m).
                Inr ((), a_setJit (\<lambda>j. j\<lparr>jv_mcode := m\<rparr>) a)))))"

definition patchFallthrough ::
    "(nat \<Rightarrow> u8 \<Rightarrow> u8 \<Rightarrow> u8) \<Rightarrow> fragment \<Rightarrow> nat \<Rightarrow> fragment \<Rightarrow> assembler \<Rightarrow> unit asm_result" where
  "patchFallthrough mmap parent exitno target a =
     res_bind (setupMachineCode mmap a) (\<lambda>(_, a).
     res_bind (emit_jmp (fr_mcode target) a) (\<lambda>(_, a).
       let a = emitSetTraceId (fr_traceId target) a; bridge_start = a_mcp a
       in res_bind (a_commit a) (\<lambda>(_, a). patchGuard parent exitno bridge_start a)))"

section \<open>Assembling a trace\<close>

definition assemble_ins :: "nat \<Rightarrow> assembler \<Rightarrow> unit asm_result" where
  "assemble_ins ref a =
     (if ir_isGuard (a_ir a ref)
      then res_bind (a_snap (a_snapno a) a) (\<lambda>snap.
           res_bind (lc_assert (unat (sn_ref snap) = a_curins a)) (\<lambda>_.
           res_bind (if ir_o (a_ir a ref) \<noteq> kSAVE
                     then snapshotAlloc snap (ib_snapmap (a_buf a)) a else Inr ((), a)) (\<lambda>(_, a).
           res_bind (emit ref a) (\<lambda>(_, a).
             Inr ((), a\<lparr>a_snapno := (a_snapno a + 65535) mod 65536\<rparr>)))))
      else emit ref a)"

fun assemble_loop :: "nat list \<Rightarrow> assembler \<Rightarrow> unit asm_result" where
  "assemble_loop [] a = Inr ((), a)"
| "assemble_loop (ref # refs) a =
     res_bind (assemble_ins ref (a\<lparr>a_curins := ref\<rparr>)) (\<lambda>(_, a). assemble_loop refs a)"

text \<open>The instructions from the last to the first, and the constants they leave in registers.\<close>

definition compile_body :: "nat \<Rightarrow> assembler \<Rightarrow> unit asm_result" where
  "compile_body n a = res_bind (assemble_loop (rev [a_stopins a..<n]) a) (\<lambda>(_, a). evictConstants a)"

definition setRegsAllocated :: "assembler \<Rightarrow> assembler" where
  "setRegsAllocated a =
     a\<lparr>a_buf := (a_buf a)\<lparr>ib_flags := flag_set (ib_flags (a_buf a)) kRegsAllocated\<rparr>\<rparr>"

text \<open>The entry of a side trace, and the address where a loop starts.\<close>

definition trace_entry :: "assembler \<Rightarrow> u8 \<times> assembler" where
  "trace_entry a =
     (case ib_parent (a_buf a) of
        None \<Rightarrow> (a_mcp a, a)
      | Some _ \<Rightarrow>
        let early = (if jv_fallthrough (a_jit a) then a_mcp a else 0);
            a = emitSetTraceId (length (jv_fragments (a_jit a))) a;
            a = (if ib_entry_relbase (a_buf a) \<noteq> 0 then adjustBase (ib_entry_relbase (a_buf a)) a else a);
            a = (if ib_parentHeapReserved (a_buf a) \<noteq> 0
                 then adjustHeapPointer (of_int (- (ib_parentHeapReserved (a_buf a) * 8))) a else a)
        in (if early = 0 then a_mcp a else early, a))"

definition tail_target :: "nat \<Rightarrow> u8 \<Rightarrow> assembler \<Rightarrow> u8 option result" where
  "tail_target saveref loop_entry a =
     (if save_kind saveref a = IR_SAVE_LOOP then Inr (Some loop_entry)
      else if save_kind saveref a = IR_SAVE_LINK
      then res_bind (lc_assert (ir_op2 (a_ir a saveref) < length (jv_fragments (a_jit a)))) (\<lambda>_.
             let t = fr_mcode (jv_fragments (a_jit a) ! ir_op2 (a_ir a saveref))
             in Inr (if t = 0 then None else Some t))
      else Inr None)"

definition assemble :: "(nat \<Rightarrow> u8 \<Rightarrow> u8 \<Rightarrow> u8) \<Rightarrow> irbuffer \<Rightarrow> assembler \<Rightarrow> unit asm_result" where
  "assemble mmap buf a =
     (let saveref = ib_chain buf kSAVE
      in res_bind (asm_setup buf a) (\<lambda>(_, a).
         res_bind (setupMachineCode mmap a) (\<lambda>(_, a).
         res_bind (setupExitStubs (length (ib_snaps (a_buf a))) a) (\<lambda>(_, a).
         let a = prepareTail saveref
                   (a\<lparr>a_curins := a_nins a, a_snapno := (length (ib_snaps (a_buf a)) + 65535) mod 65536\<rparr>)
         in res_bind (compile_body (a_nins a) a) (\<lambda>(_, a).
         res_bind (if a_stopins a \<noteq> REF_FIRST then mergeWithParent (setRegsAllocated a)
                   else Inr ((), a)) (\<lambda>(_, a).
         let (loop_entry, a) = trace_entry a
         in res_bind (tail_target saveref loop_entry a) (\<lambda>target.
            res_bind (fixupTail target saveref a) (\<lambda>(_, a).
            let a = setRegsAllocated a
            in res_bind (lc_assert (a_freeset a = kGPR)) (\<lambda>_. a_commit a)))))))))"

end
