(* ===== verification/Recorder.thy ===== *)
theory Recorder
  imports Execution CallStack Fold Assembler
begin

text \<open>
  The trace recorder, class \<^verbatim>\<open>Jit\<close> of \<^verbatim>\<open>src/vm/jit.hh\<close> and \<^verbatim>\<open>src/vm/jit.cc\<close>: the state machine that
  begins, continues, aborts and finishes a recording, the table of compiled traces, the replay of
  a parent's snapshot for a side trace, and \<^verbatim>\<open>recordIns\<close>, which translates one bytecode instruction to
  instructions of the trace before the interpreter executes it.

  A recorder operation reads the state of the interpreter and changes the state of the \<^verbatim>\<open>Jit\<close>
  (and the interpreter's memory, where it allocates application continuations or overwrites the first
  instruction of a trace).  \<open>recm\<close> is the type of such operations; \<open>rbind\<close> runs one after another.
  The address 0 is \<^verbatim>\<open>NULL\<close>; \<^verbatim>\<open>shouldAbort_\<close> is the field \<open>i_abort\<close> of the interpreter's state.
\<close>

section \<open>State\<close>

datatype trace_type = TT_ROOT | TT_FALLTHROUGH | TT_SIDE

datatype abort_reason =
    AR_ABSTRACT_STACK_OVERFLOW | AR_KNOWN_TO_FAIL_GUARD | AR_TRACE_TOO_LONG
  | AR_INTERPRETER_REQUEST | AR_NYI

definition kLastInsWasBranch :: nat where "kLastInsWasBranch = 0"
definition kIsReturnTrace :: nat where "kIsReturnTrace = 1"

text \<open>
  \<^verbatim>\<open>Jit\<close>.  \<open>j_cap\<close> says that \<^verbatim>\<open>cap_\<close> is set.  The compiled traces, the options and the
  memory for code are in the view that the assembler has of it; a trace is named by its id.
\<close>

record jit =
  j_cap :: bool
  j_startPc :: u8
  j_startBase :: u8
  j_parent :: "nat option"
  j_parentExitNo :: nat
  j_flags :: flags32
  j_traceType :: trace_type
  j_targets :: "u8 list"
  j_buf :: irbuffer
  j_asm :: assembler
  j_callStack :: call_stack
  j_btb :: btb
  j_fragmentMap :: "u8 \<rightharpoonup> nat"
  j_aborts :: nat
  j_abort_reasons :: "abort_reason \<Rightarrow> nat"

record recorder =
  r_i :: ist
  r_j :: jit
  r_hot :: hot_counters

type_synonym 'a recm = "recorder \<Rightarrow> ('a \<times> recorder) result"

definition ret :: "'a \<Rightarrow> 'a recm" where "ret x s = Inr (x, s)"

definition rbind :: "'a recm \<Rightarrow> ('a \<Rightarrow> 'b recm) \<Rightarrow> 'b recm" where
  "rbind m f s = res_bind (m s) (\<lambda>(x, s). f x s)"

definition rthen :: "'a recm \<Rightarrow> 'b recm \<Rightarrow> 'b recm" where "rthen m n = rbind m (\<lambda>_. n)"

definition reads :: "(recorder \<Rightarrow> 'a result) \<Rightarrow> 'a recm" where
  "reads f s = res_bind (f s) (\<lambda>x. Inr (x, s))"

definition upd_j :: "(jit \<Rightarrow> jit) \<Rightarrow> unit recm" where
  "upd_j f s = Inr ((), s\<lparr>r_j := f (r_j s)\<rparr>)"

definition upd_i :: "(ist \<Rightarrow> ist) \<Rightarrow> unit recm" where
  "upd_i f s = Inr ((), s\<lparr>r_i := f (r_i s)\<rparr>)"

definition on_buf :: "(irbuffer \<Rightarrow> ('a \<times> irbuffer) result) \<Rightarrow> 'a recm" where
  "on_buf f s = res_bind (f (j_buf (r_j s))) (\<lambda>(x, b). Inr (x, s\<lparr>r_j := (r_j s)\<lparr>j_buf := b\<rparr>\<rparr>))"

definition on_stack :: "(call_stack \<Rightarrow> call_stack result) \<Rightarrow> unit recm" where
  "on_stack f s =
     res_bind (f (j_callStack (r_j s))) (\<lambda>c. Inr ((), s\<lparr>r_j := (r_j s)\<lparr>j_callStack := c\<rparr>\<rparr>))"

definition on_btb :: "(call_stack \<Rightarrow> btb \<Rightarrow> btb result) \<Rightarrow> unit recm" where
  "on_btb f s =
     res_bind (f (j_callStack (r_j s)) (j_btb (r_j s))) (\<lambda>b. Inr ((), s\<lparr>r_j := (r_j s)\<lparr>j_btb := b\<rparr>\<rparr>))"

text \<open>A loop over a list of indices.\<close>

fun rfor :: "'a list \<Rightarrow> ('a \<Rightarrow> unit recm) \<Rightarrow> unit recm" where
  "rfor [] f = ret ()"
| "rfor (x # xs) f = rthen (f x) (rfor xs f)"

fun rmap :: "'a list \<Rightarrow> ('a \<Rightarrow> 'b recm) \<Rightarrow> 'b list recm" where
  "rmap [] f = ret []"
| "rmap (x # xs) f = rbind (f x) (\<lambda>y. rbind (rmap xs f) (\<lambda>ys. ret (y # ys)))"

abbreviation r_w :: "recorder \<Rightarrow> world" where "r_w s \<equiv> i_w (r_i s)"

section \<open>The buffer\<close>

definition rec_emit :: "irop \<Rightarrow> u1 \<Rightarrow> nat \<Rightarrow> nat \<Rightarrow> tref recm" where
  "rec_emit op ty op1 op2 s = on_buf (ib_emitIns (w_mem (r_w s)) op ty op1 op2) s"

definition rec_emitHeapCheck :: "nat \<Rightarrow> unit recm" where
  "rec_emitHeapCheck nwords s = on_buf (ib_emitHeapCheck (w_mem (r_w s)) nwords) s"

definition rec_guard :: "irop \<Rightarrow> nat \<Rightarrow> nat \<Rightarrow> unit recm" where
  "rec_guard op op1 op2 = rthen (rec_emit op (IRT_VOID OR IRT_GUARD) op1 op2) (ret ())"

abbreviation rec_slot :: "int \<Rightarrow> tref recm" where "rec_slot n \<equiv> on_buf (ib_slot n)"
abbreviation rec_setSlot :: "int \<Rightarrow> tref \<Rightarrow> unit recm" where "rec_setSlot n t \<equiv> on_buf (ib_setSlot n t)"
abbreviation rec_literal :: "u1 \<Rightarrow> u8 \<Rightarrow> tref recm" where "rec_literal ty k \<equiv> on_buf (ib_literal ty k)"

text \<open>\<^verbatim>\<open>buf_.slots_.frame(base, top)\<close> and \<^verbatim>\<open>buf_.slots_.top()\<close>.\<close>

definition rec_frame :: "u8 \<Rightarrow> u8 \<Rightarrow> bool recm" where
  "rec_frame base tp =
     on_buf (\<lambda>b. case as_frame (ib_slots b) base tp of (ok, st) \<Rightarrow> Inr (ok, b\<lparr>ib_slots := st\<rparr>))"

definition as_topslot :: "abstract_stack \<Rightarrow> int" where
  "as_topslot st = int (as_top st) - int (as_base st)"

definition rec_topslot :: "int recm" where
  "rec_topslot = reads (\<lambda>s. Inr (as_topslot (ib_slots (j_buf (r_j s)))))"

text \<open>\<^verbatim>\<open>base[n]\<close>.\<close>

definition rec_word :: "u8 \<Rightarrow> int \<Rightarrow> u8 recm" where
  "rec_word base n = reads (\<lambda>s. rd (r_w s) (word_at base n))"

section \<open>Compiled traces\<close>

definition j_view :: "jit \<Rightarrow> jit_view" where "j_view j = a_jit (j_asm j)"

definition j_fragments :: "jit \<Rightarrow> fragment list" where "j_fragments j = jv_fragments (j_view j)"

definition j_setFragments :: "fragment list \<Rightarrow> jit \<Rightarrow> jit" where
  "j_setFragments fs j = j\<lparr>j_asm := a_setJit (\<lambda>v. v\<lparr>jv_fragments := fs\<rparr>) (j_asm j)\<rparr>"

definition resetFragments :: "jit \<Rightarrow> jit" where
  "resetFragments j = (j_setFragments [] j)\<lparr>j_fragmentMap := Map.empty\<rparr>"

definition numFragments :: "jit \<Rightarrow> nat" where "numFragments j = length (j_fragments j)"

definition fragment_at :: "nat \<Rightarrow> jit \<Rightarrow> fragment result" where
  "fragment_at n j = (if n < length (j_fragments j) then Inr (j_fragments j ! n) else Inl BadAccess)"

definition traceById :: "nat \<Rightarrow> jit \<Rightarrow> fragment result" where
  "traceById n j = res_bind (lc_assert (n < length (j_fragments j))) (\<lambda>_. Inr (j_fragments j ! n))"

definition pc_index :: "u8 \<Rightarrow> u8" where "pc_index pc = drop_bit 2 pc"

definition traceAt :: "u8 \<Rightarrow> jit \<Rightarrow> fragment option result" where
  "traceAt pc j =
     (case j_fragmentMap j (pc_index pc) of
        Some n \<Rightarrow> res_bind (fragment_at n j) (\<lambda>f. Inr (Some f))
      | None \<Rightarrow> Inr None)"

text \<open>\<^verbatim>\<open>operator[]\<close> of the hash map enters trace 0 for a missing key.\<close>

definition lookupFragment :: "u8 \<Rightarrow> jit \<Rightarrow> (fragment \<times> jit) result" where
  "lookupFragment pc j =
     (let n = (case j_fragmentMap j (pc_index pc) of Some n \<Rightarrow> n | None \<Rightarrow> 0);
          j = j\<lparr>j_fragmentMap := (j_fragmentMap j)(pc_index pc \<mapsto> n)\<rparr>
      in res_bind (fragment_at n j) (\<lambda>f. Inr (f, j)))"

definition registerFragment :: "u8 \<Rightarrow> fragment \<Rightarrow> bool \<Rightarrow> jit \<Rightarrow> jit result" where
  "registerFragment startPc F isSideTrace j =
     res_bind (lc_assert (fr_traceId F = length (j_fragments j))) (\<lambda>_.
       let j = j_setFragments (j_fragments j @ [F]) j
       in Inr (if isSideTrace then j
               else j\<lparr>j_fragmentMap := (j_fragmentMap j)(pc_index startPc \<mapsto> fr_traceId F)\<rparr>))"

section \<open>Beginning a recording\<close>

definition resetRecorderState :: "recorder \<Rightarrow> recorder" where
  "resetRecorderState s =
     s\<lparr>r_j := (r_j s)\<lparr>j_flags := flags_clear (j_flags (r_j s)), j_targets := [], j_cap := False\<rparr>,
       r_i := (r_i s)\<lparr>i_abort := False\<rparr>\<rparr>"

text \<open>
  The constructor; it leaves \<^verbatim>\<open>traceType_\<close> and \<^verbatim>\<open>parentExitNo_\<close> uninitialised, and both are
  assigned before they are read.
\<close>

definition jit_init :: "assembler \<Rightarrow> irbuffer \<Rightarrow> call_stack \<Rightarrow> btb \<Rightarrow> jit" where
  "jit_init a b cs bt =
     resetFragments
       \<lparr>j_cap = False, j_startPc = 0, j_startBase = 0, j_parent = None, j_parentExitNo = 0,
        j_flags = \<lparr>raw_flags = 0\<rparr>, j_traceType = TT_ROOT, j_targets = [], j_buf = b,
        j_asm = a_setJit (\<lambda>v. v\<lparr>jv_exitStubGroup := (\<lambda>_. 0), jv_fastHeapCheckFail := False,
          jv_debugTrace := False\<rparr>) a, j_callStack = cs, j_btb = bt,
        j_fragmentMap = Map.empty, j_aborts = 0, j_abort_reasons = (\<lambda>_. 0)\<rparr>"

definition initRecording :: "u8 \<Rightarrow> u8 \<Rightarrow> unit recm" where
  "initRecording base startPc =
     rthen (\<lambda>s. Inr ((), resetRecorderState s))
    (rthen (upd_j (\<lambda>j. j\<lparr>j_cap := True, j_startPc := startPc, j_startBase := base, j_parent := None,
                        j_parentExitNo := 0xffffffff, j_flags := flags_clear (j_flags j)\<rparr>))
    (rthen (\<lambda>s. on_buf (ib_reset (stg_IND_info (i_misc (r_i s))) base (th_top (i_T (r_i s)))) s)
    (rthen (on_stack (\<lambda>_. cs_reset))
           (on_btb (\<lambda>cs _. btb_reset startPc cs)))))"

definition rec_assert :: "(recorder \<Rightarrow> bool) \<Rightarrow> unit recm" where
  "rec_assert P = reads (\<lambda>s. lc_assert (P s))"

definition beginRecording :: "u8 \<Rightarrow> u8 \<Rightarrow> bool \<Rightarrow> unit recm" where
  "beginRecording startPc base isReturn =
     rthen (rec_assert (\<lambda>s. \<not> j_cap (r_j s)))
    (rthen (rec_assert (\<lambda>s. j_targets (r_j s) = []))
    (rthen (initRecording base startPc)
           (upd_j (\<lambda>j. j\<lparr>j_flags := (if isReturn then flag_set (j_flags j) kIsReturnTrace
                                     else flag_clear (j_flags j) kIsReturnTrace),
                         j_traceType := TT_ROOT\<rparr>))))"

definition setFallthroughParent :: "nat \<Rightarrow> nat \<Rightarrow> unit recm" where
  "setFallthroughParent parent snapno =
     upd_j (\<lambda>j. j\<lparr>j_traceType := TT_FALLTHROUGH, j_parent := Some parent,
                  j_buf := (j_buf j)\<lparr>ib_parent := Some parent\<rparr>, j_parentExitNo := snapno\<rparr>)"

section \<open>Side traces\<close>

fun dedup_loop :: "snapshot \<Rightarrow> snapshot_data \<Rightarrow> nat list \<Rightarrow> nat \<Rightarrow> tref recm" where
  "dedup_loop snap snapmap [] ref = ret tref_none"
| "dedup_loop snap snapmap (j # js) ref =
     rbind (reads (\<lambda>_. sd_slotRef snapmap j)) (\<lambda>r.
       if r = ref
       then rbind (reads (\<lambda>_. sd_slotId snapmap j)) (\<lambda>id. rec_slot (id - sint (sn_relbase snap)))
       else dedup_loop snap snapmap js ref)"

definition dedupSnapshotRef :: "snapshot \<Rightarrow> snapshot_data \<Rightarrow> nat \<Rightarrow> nat \<Rightarrow> tref recm" where
  "dedupSnapshotRef snap snapmap searchLimit ref = dedup_loop snap snapmap [sn_begin snap..<searchLimit] ref"

definition fr_literalValue :: "fragment \<Rightarrow> nat \<Rightarrow> u8 \<Rightarrow> u8" where
  "fr_literalValue F ref base =
     (let i = fr_buffer F ref
      in if ir_o i = kKINT
         then if kOpIsSigned AND typebit (ir_type i) \<noteq> 0 then scast (ir_op12 i) else ucast (ir_op12 i)
         else if ir_o i = kKWORD
         then ucast (ir_op12 i) OR push_bit 32 (ucast (ir_op12 (fr_buffer F (ref - 1))))
         else if ir_o i = kKBASEO then base + 8 * scast (ir_op12 i)
         else 0)"

text \<open>\<^verbatim>\<open>parentmap_[n] = info\<close> for an array of 200 entries.\<close>

definition set_parentmap :: "nat \<Rightarrow> nat \<Rightarrow> unit recm" where
  "set_parentmap n info =
     on_buf (\<lambda>b. if n < length (ib_parentmap b) then Inr ((), b\<lparr>ib_parentmap := (ib_parentmap b)[n := info]\<rparr>)
                 else Inl BadAccess)"

text \<open>The reference for one entry of the snapshot, and how many references are inherited so far.\<close>

definition replay_ref :: "fragment \<Rightarrow> snapshot \<Rightarrow> u8 \<Rightarrow> int \<Rightarrow> nat \<Rightarrow> nat \<Rightarrow> (tref \<times> nat) recm" where
  "replay_ref parent snap base sl ref inherited =
     (let ins = fr_buffer parent ref; relbase = sint (sn_relbase snap)
      in if irref_islit ref
         then let k = fr_literalValue parent ref (word_at base (- relbase))
              in rbind (if ir_o ins = kKBASEO then on_buf (ib_baseLiteral k) else rec_literal (ir_type ins) k)
                   (\<lambda>t. ret (t, inherited))
         else rbind (on_buf (\<lambda>b. ib_emitRaw kSLOAD (ir_type ins)
                       (u2_of_int (as_absolute (ib_slots b) sl)) IR_SLOAD_INHERIT b)) (\<lambda>t.
              rthen (set_parentmap inherited (if ir_spill ins \<noteq> 0 then RID_INIT OR push_bit 8 (ir_spill ins)
                                              else ir_reg ins))
                    (ret (t, inherited + 1))))"

fun replay_loop :: "fragment \<Rightarrow> snapshot \<Rightarrow> u8 \<Rightarrow> nat list \<Rightarrow> u8 \<Rightarrow> nat \<Rightarrow> nat recm" where
  "replay_loop parent snap base [] seen inherited = ret inherited"
| "replay_loop parent snap base (i # is) seen inherited =
     rbind (reads (\<lambda>_. sd_slotId (fr_snapmap parent) i)) (\<lambda>id.
     rbind (reads (\<lambda>_. sd_slotRef (fr_snapmap parent) i)) (\<lambda>ref.
       let sl = id - sint (sn_relbase snap)
       in rbind (if bloomtest seen ref then dedupSnapshotRef snap (fr_snapmap parent) i ref else ret tref_none)
         (\<lambda>t. if t \<noteq> tref_none
              then rthen (rec_setSlot sl t) (replay_loop parent snap base is seen inherited)
              else rbind (replay_ref parent snap base sl ref inherited) (\<lambda>(t, inherited).
                   rthen (rec_setSlot sl t)
                         (replay_loop parent snap base is (bloomset seen ref) inherited)))))"

definition replaySnapshot :: "fragment \<Rightarrow> nat \<Rightarrow> u8 \<Rightarrow> unit recm" where
  "replaySnapshot parent snapno base =
     rbind (reads (\<lambda>_. fr_snap snapno parent)) (\<lambda>snap.
     rbind (replay_loop parent snap base [sn_begin snap..<sn_end snap] 0 0) (\<lambda>inherited.
       upd_j (\<lambda>j. j\<lparr>j_buf := (j_buf j)\<lparr>ib_stopins := REF_FIRST + inherited,
                                     ib_entry_relbase := sint (sn_relbase snap)\<rparr>\<rparr>)))"

definition setParentHeapReserved :: "int \<Rightarrow> irbuffer \<Rightarrow> irbuffer" where
  "setParentHeapReserved nwords b =
     b\<lparr>ib_parentHeapReserved := nwords, ib_heap := (ib_heap b)\<lparr>ah_reserved := nwords\<rparr>\<rparr>"

definition beginSideTrace :: "u8 \<Rightarrow> nat \<Rightarrow> nat \<Rightarrow> unit recm" where
  "beginSideTrace base parent snapno =
     rthen (rec_assert (\<lambda>s. \<not> j_cap (r_j s)))
    (rthen (rec_assert (\<lambda>s. j_targets (r_j s) = []))
    (rbind (reads (\<lambda>s. fragment_at parent (r_j s))) (\<lambda>F.
     rbind (reads (\<lambda>_. fr_snap snapno F)) (\<lambda>snap.
     rthen (initRecording base (sn_pc snap))
    (rthen (upd_j (\<lambda>j. j\<lparr>j_traceType := TT_SIDE, j_parent := Some parent, j_parentExitNo := snapno,
                        j_buf := (j_buf j)\<lparr>ib_parent := Some parent\<rparr>\<rparr>))
    (rbind (reads (\<lambda>_. sn_overallocated snap (fr_heap F))) (\<lambda>n.
     rthen (upd_j (\<lambda>j. j\<lparr>j_buf := setParentHeapReserved (int n) (j_buf j)\<rparr>))
           (replaySnapshot F snapno base))))))))"

section \<open>Translation helpers\<close>

definition LIT_INT :: u1 where "LIT_INT = 0"
definition LIT_STRING :: u1 where "LIT_STRING = 1"
definition LIT_CHAR :: u1 where "LIT_CHAR = 2"
definition LIT_WORD :: u1 where "LIT_WORD = 3"
definition LIT_FLOAT :: u1 where "LIT_FLOAT = 4"
definition LIT_CLOSURE :: u1 where "LIT_CLOSURE = 5"
definition LIT_INFO :: u1 where "LIT_INFO = 6"
definition LIT_PC :: u1 where "LIT_PC = 7"

definition littypeToIRType :: "u1 \<Rightarrow> u1" where
  "littypeToIRType littype =
     (if littype = LIT_INT then IRT_I64 else if littype = LIT_CHAR then IRT_CHR
      else if littype = LIT_STRING then IRT_PTR else if littype = LIT_WORD then IRT_U64
      else if littype = LIT_CLOSURE then IRT_CLOS else if littype = LIT_INFO then IRT_INFO
      else if littype = LIT_PC then IRT_PC else IRT_UNKNOWN)"

text \<open>The opcode with a number, and the guard for a branch instruction: opcode numbers are bytes.\<close>

definition irop_of_num :: "nat \<Rightarrow> irop result" where
  "irop_of_num n = (if n < length IRDEF then Inr (fst (IRDEF ! n)) else Inl BadAccess)"

definition bcCond2irCond :: "opcode \<Rightarrow> bool \<Rightarrow> u1" where
  "bcCond2irCond bc invert =
     (of_nat (irop_num kLT) + (opc_byte bc - opc_byte ISLT)) XOR (if invert then 1 else 0)"

definition evalCond :: "opcode \<Rightarrow> u8 \<Rightarrow> u8 \<Rightarrow> bool result" where
  "evalCond opc left right =
     (case opc of
        ISLT \<Rightarrow> Inr (left <s right) | ISGE \<Rightarrow> Inr (right \<le>s left)
      | ISLE \<Rightarrow> Inr (left \<le>s right) | ISGT \<Rightarrow> Inr (right <s left)
      | ISEQ \<Rightarrow> Inr (left = right) | ISNE \<Rightarrow> Inr (left \<noteq> right)
      | ISLTU \<Rightarrow> Inr (left < right) | ISGEU \<Rightarrow> Inr (left \<ge> right)
      | ISLEU \<Rightarrow> Inr (left \<le> right) | ISGTU \<Rightarrow> Inr (left > right)
      | _ \<Rightarrow> Inl (Exit 2))"

definition loadField :: "tref \<Rightarrow> nat \<Rightarrow> u1 \<Rightarrow> tref recm" where
  "loadField noderef offset ty =
     rbind (rec_emit kFREF IRT_PTR (tref_ref noderef) offset) (\<lambda>refref.
       rec_emit kFLOAD ty (tref_ref refref) 0)"

definition specialiseOnInfoTable :: "tref \<Rightarrow> u8 \<Rightarrow> tref recm" where
  "specialiseOnInfoTable noderef node =
     rbind (reads (\<lambda>s. cl_info (r_w s) node)) (\<lambda>info.
     rbind (rec_literal IRT_INFO info) (\<lambda>inforef.
     rthen (rec_guard kEQINFO (tref_ref noderef) (tref_ref inforef)) (ret noderef)))"

definition PAP_INFO_OFFSET :: nat where "PAP_INFO_OFFSET = 8"
definition PAP_FUNCTION_OFFSET :: nat where "PAP_FUNCTION_OFFSET = 16"
definition PAP_PAYLOAD_OFFSET :: nat where "PAP_PAYLOAD_OFFSET = 24"

definition specialiseOnPapShape :: "tref \<Rightarrow> u8 \<Rightarrow> unit recm" where
  "specialiseOnPapShape papref pap =
     rbind (loadField papref (PAP_INFO_OFFSET div 8) IRT_I64) (\<lambda>papinforef.
     rbind (reads (\<lambda>s. rd (r_w s) (pap + of_nat PAP_INFO_OFFSET))) (\<lambda>combined.
     rbind (rec_literal IRT_I64 combined) (\<lambda>expected.
       rec_guard kEQ (tref_ref papinforef) (tref_ref expected))))"

definition followIndirection :: "int \<Rightarrow> u8 \<Rightarrow> u8 recm" where
  "followIndirection sl tnode =
     rbind (rec_slot sl) (\<lambda>t.
     rbind (specialiseOnInfoTable t tnode) (\<lambda>noderef.
     rbind (loadField noderef 1 IRT_CLOS) (\<lambda>newnoderef.
     rthen (rec_setSlot sl newnoderef) (reads (\<lambda>s. cl_payload (r_w s) tnode 0)))))"

text \<open>
  \<^verbatim>\<open>while (clos->isIndirection()) clos = followIndirection(...)\<close>; as for \<^const>\<open>skip_ind\<close>, a loop with more
  turns than there are addresses does not end.
\<close>

fun follow_loop :: "nat \<Rightarrow> int \<Rightarrow> u8 \<Rightarrow> u8 recm" where
  "follow_loop 0 sl node = reads (\<lambda>_. Inl Diverge)"
| "follow_loop (Suc fuel) sl node =
     rbind (reads (\<lambda>s. cl_isIndirection (r_w s) node)) (\<lambda>ind.
       if ind then rbind (followIndirection sl node) (follow_loop fuel sl) else ret node)"

definition clearSlots :: "int \<Rightarrow> int \<Rightarrow> unit recm" where
  "clearSlots start end' = rfor [start..end' - 1] (\<lambda>i. rec_setSlot i tref_none)"

definition arg_at :: "tref list \<Rightarrow> nat \<Rightarrow> tref recm" where
  "arg_at args n = reads (\<lambda>_. if n < length args then Inr (args ! n) else Inl BadAccess)"

definition papOrDirectArg :: "nat \<Rightarrow> nat \<Rightarrow> tref list \<Rightarrow> tref \<Rightarrow> tref recm" where
  "papOrDirectArg arg pap_args args pap_ref =
     (if arg \<ge> pap_args then arg_at args (arg - pap_args)
      else loadField pap_ref (PAP_PAYLOAD_OFFSET div 8 + arg) IRT_UNKNOWN)"

section \<open>Frames\<close>

definition bump_reason :: "abort_reason \<Rightarrow> unit recm" where
  "bump_reason r = upd_j (\<lambda>j. j\<lparr>j_abort_reasons := (j_abort_reasons j)(r := j_abort_reasons j r + 1)\<rparr>)"

text \<open>The new base pointer, or 0 when the abstract stack is too small.\<close>

definition rec_pushFrame :: "u8 \<Rightarrow> u8 \<Rightarrow> tref \<Rightarrow> nat \<Rightarrow> u8 recm" where
  "rec_pushFrame base returnPc noderef framesize =
     rbind rec_topslot (\<lambda>topslot.
     rbind (rec_literal IRT_PC returnPc) (\<lambda>ret_ref.
     rthen (on_stack (\<lambda>cs. cs_pushFrame cs (tref_ref ret_ref)))
    (rbind (on_buf (ib_baseLiteral base)) (\<lambda>base_ref.
     rthen (rec_setSlot topslot base_ref)
    (rthen (rec_setSlot (topslot + 1) ret_ref)
    (rthen (rec_setSlot (topslot + 2) noderef)
    (let newbase = word_at base (topslot + 3)
     in rbind (rec_frame newbase (word_at newbase (int framesize))) (\<lambda>ok.
          if ok then ret newbase else rthen (bump_reason AR_ABSTRACT_STACK_OVERFLOW) (ret 0)))))))))"

text \<open>
  Abort with a result: the continuation runs unless the frame could not be pushed.  \<open>rec_frame_or\<close> does the
  same for a change of the current frame.
\<close>

definition with_frame :: "u8 recm \<Rightarrow> (u8 \<Rightarrow> bool recm) \<Rightarrow> bool recm" where
  "with_frame m k = rbind m (\<lambda>base. if base = 0 then ret False else k base)"

definition rec_frame_or :: "u8 \<Rightarrow> u8 \<Rightarrow> bool recm \<Rightarrow> bool recm" where
  "rec_frame_or base tp k =
     rbind (rec_frame base tp) (\<lambda>ok.
       if ok then k else rthen (bump_reason AR_ABSTRACT_STACK_OVERFLOW) (ret False))"

section \<open>Function application\<close>

definition rec_ap_cont :: "env \<Rightarrow> nat \<Rightarrow> u4 \<Rightarrow> (u8 \<times> u8) recm" where
  "rec_ap_cont e nargs pointer_mask s =
     res_bind (ap_cont e nargs pointer_mask (r_i s)) (\<lambda>(ac, i). Inr (ac, s\<lparr>r_i := i\<rparr>))"

text \<open>
  Turn the current frame into an application continuation (\<^verbatim>\<open>CALLT\<close>), or push one (\<^verbatim>\<open>CALL\<close>).
\<close>

definition rec_ap_frame :: "u8 \<Rightarrow> u8 \<Rightarrow> tref \<Rightarrow> nat \<Rightarrow> (u8 \<Rightarrow> bool recm) \<Rightarrow> bool recm" where
  "rec_ap_frame base returnPc apk_ref apk_framesize k =
     (if returnPc \<noteq> 0 then with_frame (rec_pushFrame base returnPc apk_ref apk_framesize) k
      else rec_frame_or base (word_at base (int apk_framesize))
             (rthen (rec_setSlot (-1) apk_ref) (k base)))"

definition rec_code :: "u8 \<Rightarrow> code recm" where
  "rec_code node = reads (\<lambda>s. res_bind (cl_itbl (r_w s) node) itbl_code)"

text \<open>The update frame and the frame of a thunk's code.\<close>

definition rec_thunk_frames :: "u8 \<Rightarrow> u8 \<Rightarrow> tref \<Rightarrow> u8 \<Rightarrow> (u8 \<Rightarrow> bool recm) \<Rightarrow> bool recm" where
  "rec_thunk_frames base return_pc fnode_ref fnode k =
     rbind (reads (\<lambda>s. Inr (i_misc (r_i s)))) (\<lambda>mc.
     rbind (rec_literal IRT_CLOS (stg_UPD_closure_addr mc)) (\<lambda>upd_clos_lit.
     with_frame (rec_pushFrame base return_pc upd_clos_lit UPD_frame_size) (\<lambda>newbase.
     rthen (rec_setSlot 0 fnode_ref)
    (rthen (rec_setSlot 1 tref_none)
    (rbind (rec_code fnode) (\<lambda>c.
     with_frame (rec_pushFrame newbase (stg_UPD_return_pc mc) fnode_ref (c_framesize c)) k))))))"

definition rec_apply_thunk :: "env \<Rightarrow> nat \<Rightarrow> u4 \<Rightarrow> u8 \<Rightarrow> tref \<Rightarrow> u8 \<Rightarrow> tref list \<Rightarrow> u8 \<Rightarrow> bool recm" where
  "rec_apply_thunk e direct_args pointer_mask base fnode_ref fnode args returnPc =
     rthen (specialiseOnInfoTable fnode_ref fnode)
    (rbind (rec_ap_cont e direct_args pointer_mask) (\<lambda>(apk_closure, apk_return_addr).
     let apk_framesize = apContFrameSize direct_args
     in rbind (rec_literal IRT_CLOS apk_closure) (\<lambda>apk_ref.
        rec_ap_frame base returnPc apk_ref apk_framesize (\<lambda>base.
        rthen (rfor [0..<direct_args] (\<lambda>i. rbind (arg_at args i) (rec_setSlot (int i))))
       (rthen (clearSlots (int direct_args) (int apk_framesize))
              (rec_thunk_frames base apk_return_addr fnode_ref fnode (\<lambda>_. ret True)))))))"

definition rec_funref :: "bool \<Rightarrow> tref \<Rightarrow> u8 \<Rightarrow> tref recm" where
  "rec_funref pap fnode_ref fnode =
     rbind (if pap then loadField fnode_ref (PAP_FUNCTION_OFFSET div 8) IRT_CLOS else ret fnode_ref) (\<lambda>funref.
       rthen (specialiseOnInfoTable funref fnode) (ret funref))"

definition rec_apply_exact ::
    "bool \<Rightarrow> nat \<Rightarrow> nat \<Rightarrow> code \<Rightarrow> u8 \<Rightarrow> tref \<Rightarrow> u8 \<Rightarrow> tref list \<Rightarrow> u8 \<Rightarrow> bool recm" where
  "rec_apply_exact pap pap_args direct_args c base fnode_ref fnode args returnPc =
     rbind (rec_funref pap fnode_ref fnode) (\<lambda>funref.
     let framesize = c_framesize c;
         fill = rthen (if pap then rfor [0..<pap_args] (\<lambda>i.
                         rbind (loadField fnode_ref (PAP_PAYLOAD_OFFSET div 8 + i) IRT_UNKNOWN) (rec_setSlot (int i)))
                       else ret ())
               (rthen (rfor [0..<direct_args] (\<lambda>i. rbind (arg_at args i) (rec_setSlot (int (pap_args + i)))))
               (rthen (clearSlots (int (direct_args + pap_args)) (int framesize)) (ret True)))
     in if returnPc \<noteq> 0 then with_frame (rec_pushFrame base returnPc funref framesize) (\<lambda>_. fill)
        else rthen (rec_setSlot (-1) funref)
               (rec_frame_or base (word_at base (int framesize)) fill))"

text \<open>
  Too many arguments.  When the function is a partial application the recorder prints its state and calls
  \<^verbatim>\<open>exit(1)\<close>.
\<close>

definition rec_apply_over ::
    "env \<Rightarrow> bool \<Rightarrow> nat \<Rightarrow> nat \<Rightarrow> u4 \<Rightarrow> code \<Rightarrow> u8 \<Rightarrow> tref \<Rightarrow> u8 \<Rightarrow> tref list \<Rightarrow> u8 \<Rightarrow> bool recm" where
  "rec_apply_over e pap pap_args direct_args pointer_mask c base fnode_ref fnode args returnPc =
     rbind (rec_funref pap fnode_ref fnode) (\<lambda>funref.
     let arity = c_arity c; extra_args = direct_args + pap_args - arity;
         apk_framesize = apContFrameSize extra_args
     in rbind (rec_ap_cont e extra_args (drop_bit arity pointer_mask)) (\<lambda>(apk_closure, apk_return_addr).
        rbind (rec_literal IRT_CLOS apk_closure) (\<lambda>apk_ref.
        rec_ap_frame base returnPc apk_ref apk_framesize (\<lambda>base.
        rthen (rfor [0..<extra_args] (\<lambda>i.
                 rbind (papOrDirectArg (arity + i) pap_args args fnode_ref) (rec_setSlot (int i))))
       (rthen (clearSlots (int extra_args) (int apk_framesize))
       (with_frame (rec_pushFrame base apk_return_addr funref (c_framesize c)) (\<lambda>_.
        rthen (rfor [0..<arity] (\<lambda>i. rbind (papOrDirectArg i pap_args args fnode_ref) (rec_setSlot (int i))))
       (rthen (clearSlots (int arity) (int (c_framesize c)))
              (if pap then reads (\<lambda>_. Inl (Exit 1)) else ret True)))))))))"

text \<open>The guard for the return address, for \<^verbatim>\<open>CALLT\<close>; its reference is needed again below.\<close>

definition rec_return_guard :: "u8 \<Rightarrow> tref recm" where
  "rec_return_guard base =
     rbind (rec_slot (-2)) (\<lambda>retref.
     rbind (rec_word base (-2)) (\<lambda>pc.
     rbind (rec_literal IRT_PC pc) (\<lambda>expected.
     rthen (rec_guard kEQ (tref_ref retref) (tref_ref expected)) (ret expected))))"

text \<open>Leave the current frame: the caller's base pointer is in slot -3.\<close>

definition rec_pop_frame :: "u8 \<Rightarrow> bool recm \<Rightarrow> bool recm" where
  "rec_pop_frame base k =
     rbind (rec_word base (-3)) (\<lambda>newbase. rec_frame_or newbase (base - 24) k)"

definition pap_combined :: "nat \<Rightarrow> u4 \<Rightarrow> u8" where
  "pap_combined nargs pm = ucast (of_nat nargs :: u4) OR push_bit 32 (ucast pm)"

definition rec_apply_under ::
    "bool \<Rightarrow> u8 \<Rightarrow> nat \<Rightarrow> nat \<Rightarrow> u4 \<Rightarrow> u8 \<Rightarrow> tref \<Rightarrow> u8 \<Rightarrow> tref list \<Rightarrow> u8 \<Rightarrow> bool recm" where
  "rec_apply_under pap papnode pap_args direct_args pointer_mask base fnode_ref fnode args returnPc =
     rbind (rec_funref pap fnode_ref fnode) (\<lambda>funref.
     rbind (if returnPc \<noteq> 0 then ret tref_none else rec_return_guard base) (\<lambda>expectedReturnPc.
     let total_args = direct_args + pap_args; new_pap_size = wordsof_PapClosure + total_args
     in rthen (rec_emitHeapCheck new_pap_size)
       (rthen (reads (\<lambda>_. if total_args \<le> 64 then Inr () else Inl BadAccess))
       (rbind (rmap [0..<total_args] (\<lambda>i. papOrDirectArg i pap_args args fnode_ref)) (\<lambda>fields.
        rbind (if pap then rbind (reads (\<lambda>s. pap_pointerMask (r_w s) papnode)) (\<lambda>pm.
                             ret (push_bit pap_args pointer_mask OR pm))
               else ret pointer_mask) (\<lambda>pointer_mask.
        rbind (rec_literal IRT_I64 (pap_combined total_args pointer_mask)) (\<lambda>inforef.
        rbind (reads (\<lambda>s. Inr (stg_PAP_info (i_misc (r_i s))))) (\<lambda>itbl.
        rbind (rec_literal IRT_INFO itbl) (\<lambda>pap_itbl.
        rbind (on_buf (ib_emitNEW (tref_ref pap_itbl) (new_pap_size - 1))) (\<lambda>(new_pap, entry).
        rthen (rfor (enumerate 0 (inforef # funref # fields)) (\<lambda>(i, t). on_buf (ib_setField entry i (tref_ref t))))
       (rbind rec_topslot (\<lambda>topslot.
          if returnPc \<noteq> 0 then rthen (rec_setSlot (topslot + int FRAME_SIZE) new_pap) (ret True)
          else rthen (clearSlots (-3) topslot)
              (rthen (rec_setSlot 0 new_pap)
              (rthen (rec_assert (\<lambda>_. \<not> tref_isNone expectedReturnPc))
              (rthen (on_stack (\<lambda>cs. cs_returnTo cs (tref_ref expectedReturnPc)))
                     (rec_pop_frame base (ret True)))))))))))))))))"

definition recordGenericApply2 :: "env \<Rightarrow> u4 \<Rightarrow> u8 \<Rightarrow> tref \<Rightarrow> u8 \<Rightarrow> tref list \<Rightarrow> u8 \<Rightarrow> bool recm" where
  "recordGenericApply2 e call_info base fnode_ref fnode args returnPc =
     (let direct_args = unat (call_info AND 0xff); pointer_mask = drop_bit 8 call_info
      in rbind (reads (\<lambda>s. cl_itbl (r_w s) fnode)) (\<lambda>it.
         if it_type it = THUNK \<or> it_type it = CAF
         then rec_apply_thunk e direct_args pointer_mask base fnode_ref fnode args returnPc
         else
           let pap = (it_type it = PAP); papnode = fnode
           in rbind (if pap
                     then rbind (reads (\<lambda>s. pap_nargs (r_w s) papnode)) (\<lambda>n.
                          rthen (specialiseOnInfoTable fnode_ref papnode)
                         (rthen (specialiseOnPapShape fnode_ref papnode)
                         (rbind (reads (\<lambda>s. pap_fun (r_w s) papnode)) (\<lambda>fn. ret (n, fn)))))
                     else ret (0, fnode)) (\<lambda>(pap_args, fnode).
              rthen (reads (\<lambda>s. res_bind (cl_itbl (r_w s) fnode) (\<lambda>it. lc_assert (it_type it = FUN))))
             (rbind (rec_code fnode) (\<lambda>c.
                if c_arity c = direct_args + pap_args
                then rec_apply_exact pap pap_args direct_args c base fnode_ref fnode args returnPc
                else if c_arity c < direct_args + pap_args
                then rec_apply_over e pap pap_args direct_args pointer_mask c base fnode_ref fnode args returnPc
                else rec_apply_under pap papnode pap_args direct_args pointer_mask base fnode_ref fnode args
                       returnPc)))))"

section \<open>Finishing a recording\<close>

definition saveFragment :: "jit \<Rightarrow> fragment result" where
  "saveFragment j =
     (let b = j_buf j
      in res_bind (lc_assert (as_highestSlot (ib_slots b) \<ge> 0)) (\<lambda>_.
         Inr \<lparr>fr_traceId = length (j_fragments j), fr_startPc = j_startPc j, fr_parent = j_parent j,
              fr_targets = j_targets j, fr_firstconstant = ib_bufmin b, fr_nextins = ib_bufmax b,
              fr_buffer = ib_buffer b, fr_frameSize = nat (as_highestSlot (ib_slots b)) mod 65536,
              fr_snaps = ib_snaps b,
              fr_snapmap = \<lparr>sd_data = sd_data (ib_snapmap b), sd_index = length (sd_data (ib_snapmap b))\<rparr>,
              fr_heap = ah_compactCopyInto (ib_heap b), fr_mcode = a_mcp (j_asm j)\<rparr>))"

definition rec_assemble :: "(nat \<Rightarrow> u8 \<Rightarrow> u8 \<Rightarrow> u8) \<Rightarrow> unit recm" where
  "rec_assemble mmap s =
     (let j = r_j s; a = a_setJit (\<lambda>v. v\<lparr>jv_fallthrough := (j_traceType j = TT_FALLTHROUGH)\<rparr>) (j_asm j)
      in res_bind (assemble mmap (j_buf j) a) (\<lambda>(_, a).
         Inr ((), s\<lparr>r_j := j\<lparr>j_asm := a, j_buf := a_buf a\<rparr>\<rparr>)))"

definition rec_patchParent :: "u8 \<Rightarrow> unit recm" where
  "rec_patchParent entry s =
     (let j = r_j s
      in case j_parent j of
           None \<Rightarrow> Inr ((), s)
         | Some p \<Rightarrow>
             res_bind (fragment_at p j) (\<lambda>F.
             res_bind (patchGuard F (j_parentExitNo j) entry (j_asm j)) (\<lambda>(_, a).
               Inr ((), s\<lparr>r_j := j\<lparr>j_asm := a\<rparr>\<rparr>))))"

text \<open>\<^verbatim>\<open>*startPc_ = BcIns::ad(BcIns::kJFUNC, 0, tno)\<close>.\<close>

definition writeJFUNC :: "nat \<Rightarrow> unit recm" where
  "writeJFUNC tno s =
     upd_i (\<lambda>i. i\<lparr>i_mm := mm_mapW (wr_u2s (j_startPc (r_j s)) (ins_halves (bc_ad JFUNC 0 (of_nat tno)))) (i_mm i)\<rparr>) s"

definition rec_finishRecording :: "(nat \<Rightarrow> u8 \<Rightarrow> u8 \<Rightarrow> u8) \<Rightarrow> unit recm" where
  "rec_finishRecording mmap =
     rthen (rec_assemble mmap)
    (rbind (reads (\<lambda>s. Inr (numFragments (r_j s)))) (\<lambda>tno.
     rbind (reads (\<lambda>s. saveFragment (r_j s))) (\<lambda>F.
     rthen (\<lambda>s. res_bind (registerFragment (j_startPc (r_j s)) F (j_traceType (r_j s) = TT_SIDE) (r_j s))
                  (\<lambda>j. Inr ((), s\<lparr>r_j := j\<rparr>)))
    (rthen (rec_patchParent (fr_mcode F))
    (rthen (\<lambda>s. if j_traceType (r_j s) \<noteq> TT_SIDE \<and> \<not> flag_get (j_flags (r_j s)) kIsReturnTrace
                 then writeJFUNC tno s else Inr ((), s))
           (\<lambda>s. Inr ((), resetRecorderState
                  (s\<lparr>r_hot := btb_resetDominatedCounters (j_btb (r_j s)) (r_hot s)\<rparr>))))))))"

section \<open>Recording one instruction\<close>

datatype rec_next = Recorded | Aborted | Stopped

definition rec_branch :: "bool recm \<Rightarrow> rec_next recm" where
  "rec_branch m =
     rbind m (\<lambda>ok. if ok then rthen (upd_j (\<lambda>j. j\<lparr>j_flags := flag_set (j_flags j) kLastInsWasBranch\<rparr>)) (ret Recorded)
                    else ret Aborted)"

definition rec_done :: "unit recm \<Rightarrow> rec_next recm" where "rec_done m = rthen m (ret Recorded)"

definition rec_save :: "(nat \<Rightarrow> u8 \<Rightarrow> u8 \<Rightarrow> u8) \<Rightarrow> nat \<Rightarrow> nat \<Rightarrow> rec_next recm" where
  "rec_save mmap kind arg =
     rthen (rec_guard kSAVE kind arg) (rthen (rec_finishRecording mmap) (ret Stopped))"

definition rec_LOADK :: "bcins \<Rightarrow> rec_next recm" where
  "rec_LOADK ins =
     (let lit_id = unat (bc_d ins)
      in rbind (reads (\<lambda>s. let c = i_code (r_i s)
                           in if lit_id < length (c_lits c) \<and> lit_id < length (c_littypes c)
                              then Inr (c_lits c ! lit_id, c_littypes c ! lit_id) else Inl BadAccess)) (\<lambda>(lit, lt).
         rbind (rec_literal (littypeToIRType lt) lit) (\<lambda>litref. rec_done (rec_setSlot (uint (bc_a ins)) litref))))"

definition rec_compare :: "opcode \<Rightarrow> bcins \<Rightarrow> u8 \<Rightarrow> rec_next recm" where
  "rec_compare op ins base =
     rbind (rec_word base (uint (bc_a ins))) (\<lambda>x.
     rbind (rec_word base (uint (bc_d ins))) (\<lambda>y.
     rbind (reads (\<lambda>_. evalCond op x y)) (\<lambda>taken.
     rbind (rec_slot (uint (bc_a ins))) (\<lambda>aref.
     rbind (rec_slot (uint (bc_d ins))) (\<lambda>bref.
     rbind (reads (\<lambda>_. irop_of_num (unat (bcCond2irCond op (\<not> taken))))) (\<lambda>iropc.
       rec_done (rec_guard iropc (tref_ref aref) (tref_ref bref))))))))"

text \<open>The instructions \<^verbatim>\<open>ARITH_OP_RRR\<close> and \<^verbatim>\<open>ARITH_OP_RR\<close>; all produce an \<^verbatim>\<open>IRT_I64\<close>.\<close>

definition arith_rrr :: "opcode \<Rightarrow> irop option" where
  "arith_rrr op =
     (case op of ADDRR \<Rightarrow> Some kADD | SUBRR \<Rightarrow> Some kSUB | MULRR \<Rightarrow> Some kMUL | REMRR \<Rightarrow> Some kREM
      | DIVRR \<Rightarrow> Some kDIV | BAND \<Rightarrow> Some kBAND | BXOR \<Rightarrow> Some kBXOR | BOR \<Rightarrow> Some kBOR
      | BSHL \<Rightarrow> Some kBSHL | BSHR \<Rightarrow> Some kBSHR | _ \<Rightarrow> None)"

definition arith_rr :: "opcode \<Rightarrow> irop option" where
  "arith_rr op = (case op of NEG \<Rightarrow> Some kNEG | BNOT \<Rightarrow> Some kBNOT | _ \<Rightarrow> None)"

definition rec_rrr :: "irop \<Rightarrow> bcins \<Rightarrow> rec_next recm" where
  "rec_rrr irop ins =
     rbind (rec_slot (uint (bc_b ins))) (\<lambda>bref.
     rbind (rec_slot (uint (bc_c ins))) (\<lambda>cref.
     rbind (rec_emit irop IRT_I64 (tref_ref bref) (tref_ref cref)) (\<lambda>aref.
       rec_done (rec_setSlot (uint (bc_a ins)) aref))))"

definition rec_rr :: "irop \<Rightarrow> bcins \<Rightarrow> rec_next recm" where
  "rec_rr irop ins =
     rbind (rec_slot (uint (bc_d ins))) (\<lambda>dref.
     rbind (rec_emit irop IRT_I64 (tref_ref dref) 0) (\<lambda>aref. rec_done (rec_setSlot (uint (bc_a ins)) aref)))"

text \<open>The closure in a register behind all indirections, and the reference to it.\<close>

definition rec_closure :: "bcins \<Rightarrow> u8 \<Rightarrow> u8 recm" where
  "rec_closure ins base =
     rbind (rec_word base (uint (bc_a ins))) (\<lambda>clos. follow_loop ind_fuel (uint (bc_a ins)) clos)"

definition call_info :: "u1 \<Rightarrow> u4 \<Rightarrow> u4" where
  "call_info nargs ptr_mask = ucast nargs OR push_bit 8 ptr_mask"

definition rec_CALLT :: "env \<Rightarrow> u8 \<Rightarrow> bcins \<Rightarrow> u8 \<Rightarrow> rec_next recm" where
  "rec_CALLT e pc ins base =
     rbind (rec_closure ins base) (\<lambda>clos.
     rthen (rec_assert (\<lambda>_. bc_c ins \<le> 32))
    (rbind (rmap [0..<unat (bc_c ins)] (\<lambda>i. rec_slot (int i))) (\<lambda>args.
     rbind (rec_slot (uint (bc_a ins))) (\<lambda>node_ref.
     rbind (reads (\<lambda>s. w_u4 (r_w s) (pc + 4))) (\<lambda>ptr_mask.
       rec_branch (recordGenericApply2 e (call_info (bc_c ins) ptr_mask) base node_ref clos args 0))))))"

definition rec_CALL :: "env \<Rightarrow> u8 \<Rightarrow> bcins \<Rightarrow> u8 \<Rightarrow> rec_next recm" where
  "rec_CALL e pc ins base =
     (let nargs = unat (bc_c ins); returnPc = pc + of_nat (4 * (3 + BC_ROUND nargs))
      in rbind (rec_closure ins base) (\<lambda>clos.
         rbind (rec_slot (uint (bc_a ins))) (\<lambda>fnode_ref.
         rthen (rec_assert (\<lambda>_. nargs < 32))
        (rbind (reads (\<lambda>s. w_u4 (r_w s) (pc + 4))) (\<lambda>ptr_mask.
         rbind (rmap [0..<nargs] (\<lambda>i. rbind (reads (\<lambda>s. w_u1 (r_w s) (pc + 8 + of_nat i))) (\<lambda>r. rec_slot (uint r))))
           (\<lambda>args.
             rec_branch (recordGenericApply2 e (call_info (bc_c ins) ptr_mask) base fnode_ref clos args returnPc)))))))"

definition rec_EVAL :: "u8 \<Rightarrow> bcins \<Rightarrow> u8 \<Rightarrow> rec_next recm" where
  "rec_EVAL pc ins base =
     rbind (rec_closure ins base) (\<lambda>tnode.
     rbind (rec_slot (uint (bc_a ins))) (\<lambda>noderef.
     rbind (reads (\<lambda>s. cl_info (r_w s) tnode)) (\<lambda>info.
     rbind (rec_literal IRT_INFO info) (\<lambda>inforef.
     rthen (rec_guard kEQINFO (tref_ref noderef) (tref_ref inforef))
    (rbind (reads (\<lambda>s. cl_isHNF (r_w s) tnode)) (\<lambda>hnf.
     rbind (reads (\<lambda>s. Inr (ptr_diff (th_top (i_T (r_i s))) base))) (\<lambda>topslot.
       if hnf then rec_done (rec_setSlot (topslot + int FRAME_SIZE) noderef)
       else rthen (rec_assert (\<lambda>s. as_topslot (ib_slots (j_buf (r_j s))) = topslot))
           (rbind (rec_code tnode) (\<lambda>c.
            rec_branch (rec_thunk_frames base (pc + 8) noderef tnode
              (\<lambda>_. rthen (clearSlots 0 (int (c_framesize c))) (ret True)))))))))))) "

definition rec_return :: "unit recm \<Rightarrow> u8 \<Rightarrow> rec_next recm" where
  "rec_return clear base =
     rbind (rec_return_guard base) (\<lambda>expectedReturnPc.
     rthen (on_stack (\<lambda>cs. cs_returnTo cs (tref_ref expectedReturnPc)))
    (rthen clear (rec_branch (rec_pop_frame base (ret True)))))"

definition rec_RET1 :: "bcins \<Rightarrow> u8 \<Rightarrow> rec_next recm" where
  "rec_RET1 ins base =
     rec_return
       (rbind (rec_slot (uint (bc_a ins))) (\<lambda>resultref.
        rbind rec_topslot (\<lambda>topslot. rthen (clearSlots (-3) topslot) (rec_setSlot 0 resultref)))) base"

definition rec_RETN :: "bcins \<Rightarrow> u8 \<Rightarrow> rec_next recm" where
  "rec_RETN ins base =
     rec_return
       (rthen (clearSlots (-3) 0) (rbind rec_topslot (\<lambda>topslot. clearSlots (uint (bc_a ins)) topslot))) base"

definition rec_MOV_RES :: "bcins \<Rightarrow> rec_next recm" where
  "rec_MOV_RES ins =
     rbind rec_topslot (\<lambda>topslot.
     let resultslot = topslot + int FRAME_SIZE + uint (bc_d ins)
     in rbind (rec_slot resultslot) (\<lambda>result.
        rthen (rec_setSlot resultslot tref_none) (rec_done (rec_setSlot (uint (bc_a ins)) result))))"

definition rec_UPDATE :: "bcins \<Rightarrow> u8 \<Rightarrow> rec_next recm" where
  "rec_UPDATE ins base =
     rbind (rec_word base (uint (bc_a ins))) (\<lambda>oldnode.
     rbind (reads (\<lambda>s. cl_info (r_w s) oldnode)) (\<lambda>info.
     rbind (reads (\<lambda>s. info_at (r_w s) info)) (\<lambda>it.
       if it_type it = CAF then rthen (bump_reason AR_NYI) (ret Aborted)
       else rbind (rec_slot (uint (bc_a ins))) (\<lambda>oldref.
            rbind (rec_slot (uint (bc_d ins))) (\<lambda>newref.
            rbind (rec_literal IRT_INFO info) (\<lambda>inforef.
            rthen (rec_guard kEQINFO (tref_ref oldref) (tref_ref inforef))
           (rthen (rec_emit kUPDATE IRT_VOID (tref_ref oldref) (tref_ref newref)) (ret Recorded))))))))"

definition rec_load :: "int \<Rightarrow> nat \<Rightarrow> bcins \<Rightarrow> rec_next recm" where
  "rec_load n field ins =
     rbind (rec_slot n) (\<lambda>rbase.
     rbind (loadField rbase field IRT_UNKNOWN) (\<lambda>res. rec_done (rec_setSlot (uint (bc_a ins)) res)))"

definition rec_ALLOC1 :: "bcins \<Rightarrow> rec_next recm" where
  "rec_ALLOC1 ins =
     rbind (rec_slot (uint (bc_b ins))) (\<lambda>itbl.
     rbind (rec_slot (uint (bc_c ins))) (\<lambda>field.
     rthen (rec_emitHeapCheck 2)
    (rbind (on_buf (ib_emitNEW (tref_ref itbl) 1)) (\<lambda>(clos, entry).
     rthen (on_buf (ib_setField entry 0 (tref_ref field))) (rec_done (rec_setSlot (uint (bc_a ins)) clos))))))"

text \<open>The registers in the bytes behind the instruction.\<close>

definition rec_arg :: "u8 \<Rightarrow> nat \<Rightarrow> tref recm" where
  "rec_arg pc i = rbind (reads (\<lambda>s. w_u1 (r_w s) (pc + 4 + of_nat i))) (\<lambda>r. rec_slot (uint r))"

definition rec_fill :: "u8 \<Rightarrow> nat \<Rightarrow> tref \<Rightarrow> bcins \<Rightarrow> rec_next recm" where
  "rec_fill pc nfields itbl ins =
     rbind (on_buf (ib_emitNEW (tref_ref itbl) nfields)) (\<lambda>(clos, entry).
     rthen (rfor [0..<nfields] (\<lambda>i. rbind (rec_arg pc i) (\<lambda>f. on_buf (ib_setField entry i (tref_ref f)))))
           (rec_done (rec_setSlot (uint (bc_a ins)) clos)))"

definition rec_ALLOC :: "u8 \<Rightarrow> bcins \<Rightarrow> rec_next recm" where
  "rec_ALLOC pc ins =
     (let nfields = unat (bc_c ins)
      in rbind (rec_slot (uint (bc_b ins))) (\<lambda>itbl.
         rthen (rec_emitHeapCheck (1 + nfields))
        (rthen (rmap [0..<nfields] (rec_arg pc)) (rec_fill pc nfields itbl ins))))"

definition rec_ap_info :: "env \<Rightarrow> nat \<Rightarrow> u4 \<Rightarrow> u8 recm" where
  "rec_ap_info e nargs pointer_mask s =
     res_bind (getApInfo (e_os e) nargs pointer_mask (i_misc (r_i s)) (i_mm (r_i s))) (\<lambda>((info, mc), m).
       Inr (info, s\<lparr>r_i := (r_i s)\<lparr>i_misc := mc, i_mm := m\<rparr>\<rparr>))"

definition rec_ALLOCAP :: "env \<Rightarrow> u8 \<Rightarrow> bcins \<Rightarrow> rec_next recm" where
  "rec_ALLOCAP e pc ins =
     (let nfields = unat (bc_c ins) + 1
      in rthen (rec_emitHeapCheck (1 + nfields))
        (rthen (rmap [0..<nfields] (rec_arg pc))
        (rbind (rec_ap_info e (unat (bc_c ins)) (ucast (bc_b ins))) (\<lambda>info.
         rbind (rec_literal IRT_INFO info) (\<lambda>itbl. rec_fill pc nfields itbl ins)))))"

definition rec_CASE :: "bcins \<Rightarrow> u8 \<Rightarrow> rec_next recm" where
  "rec_CASE ins base =
     rbind (rec_word base (uint (bc_a ins))) (\<lambda>cl.
     rbind (rec_slot (uint (bc_a ins))) (\<lambda>clos.
     rthen (specialiseOnInfoTable clos cl) (ret Recorded)))"

text \<open>
  \<^verbatim>\<open>JFUNC\<close>: whether the trace is an ancestor of the one being recorded.  A parent has a smaller id, so
  that as many steps as there are traces are enough.
\<close>

fun is_ancestor :: "nat \<Rightarrow> nat \<Rightarrow> nat option \<Rightarrow> jit \<Rightarrow> bool result" where
  "is_ancestor 0 F p j = Inl Diverge"
| "is_ancestor (Suc fuel) F p j =
     (case p of
        None \<Rightarrow> Inr False
      | Some p \<Rightarrow> if p = F then Inr True
                  else res_bind (fragment_at p j) (\<lambda>P. is_ancestor fuel F (fr_parent P) j))"

definition rec_JFUNC :: "(nat \<Rightarrow> u8 \<Rightarrow> u8 \<Rightarrow> u8) \<Rightarrow> u8 \<Rightarrow> rec_next recm" where
  "rec_JFUNC mmap pc =
     rbind (\<lambda>s. res_bind (lookupFragment pc (r_j s)) (\<lambda>(F, j). Inr (F, s\<lparr>r_j := j\<rparr>))) (\<lambda>F.
     rbind (reads (\<lambda>s. is_ancestor (Suc (numFragments (r_j s))) (fr_traceId F) (j_parent (r_j s)) (r_j s))) (\<lambda>loop.
     rthen (rec_assert (\<lambda>_. loop \<or> fr_startPc F = pc)) (rec_save mmap IR_SAVE_LINK (fr_traceId F))))"

definition rec_GETTAG :: "bcins \<Rightarrow> u8 \<Rightarrow> rec_next recm" where
  "rec_GETTAG ins base =
     rbind (rec_word base (uint (bc_d ins))) (\<lambda>cl.
     rbind (reads (\<lambda>s. res_bind (cl_isIndirection (r_w s) cl) (\<lambda>ind. res_bind (cl_isHNF (r_w s) cl) (\<lambda>hnf.
              lc_assert (\<not> ind \<and> hnf))))) (\<lambda>_.
     rbind (rec_slot (uint (bc_d ins))) (\<lambda>t.
     rthen (specialiseOnInfoTable t cl)
    (rbind (reads (\<lambda>s. cl_tag (r_w s) cl)) (\<lambda>tag.
     rbind (rec_literal IRT_I64 (of_int (uint tag - 1))) (\<lambda>taglit. rec_done (rec_setSlot (uint (bc_a ins)) taglit)))))))"

definition rec_op :: "env \<Rightarrow> (nat \<Rightarrow> u8 \<Rightarrow> u8 \<Rightarrow> u8) \<Rightarrow> u8 \<Rightarrow> opcode \<Rightarrow> bcins \<Rightarrow> u8 \<Rightarrow> rec_next recm" where
  "rec_op e mmap pc op ins base =
     (if branch_cond op \<noteq> None then rec_compare op ins base
      else case arith_rrr op of
        Some irop \<Rightarrow> rec_rrr irop ins
      | None \<Rightarrow> (case arith_rr op of
          Some irop \<Rightarrow> rec_rr irop ins
        | None \<Rightarrow> (case op of
            IFUNC \<Rightarrow> rthen (rec_frame base (word_at base (uint (bc_a ins)))) (ret Recorded)
          | FUNC \<Rightarrow> rthen (rec_frame base (word_at base (uint (bc_a ins)))) (ret Recorded)
          | LOADK \<Rightarrow> rec_LOADK ins
          | PTROFSC \<Rightarrow>
              rbind (rec_slot (uint (bc_b ins))) (\<lambda>ptrref.
              rbind (rec_slot (uint (bc_c ins))) (\<lambda>ofsref.
              rbind (rec_emit kPLOAD IRT_I64 (tref_ref ptrref) (tref_ref ofsref)) (\<lambda>aref.
                rec_done (rec_setSlot (uint (bc_a ins)) aref))))
          | CALLT \<Rightarrow> rec_CALLT e pc ins base
          | CALL \<Rightarrow> rec_CALL e pc ins base
          | MOV \<Rightarrow> rbind (rec_slot (uint (bc_d ins))) (\<lambda>t. rec_done (rec_setSlot (uint (bc_a ins)) t))
          | LOADSLF \<Rightarrow> rbind (rec_slot (-1)) (\<lambda>t. rec_done (rec_setSlot (uint (bc_a ins)) t))
          | EVAL \<Rightarrow> rec_EVAL pc ins base
          | IRET \<Rightarrow> rec_RET1 ins base
          | RET1 \<Rightarrow> rec_RET1 ins base
          | RETN \<Rightarrow> rec_RETN ins base
          | MOV_RES \<Rightarrow> rec_MOV_RES ins
          | UPDATE \<Rightarrow> rec_UPDATE ins base
          | LOADF \<Rightarrow> rec_load (uint (bc_b ins)) (unat (bc_c ins)) ins
          | LOADFV \<Rightarrow> rec_load (-1) (unat (bc_d ins)) ins
          | ALLOC1 \<Rightarrow> rec_ALLOC1 ins
          | ALLOC \<Rightarrow> rec_ALLOC pc ins
          | ALLOCAP \<Rightarrow> rec_ALLOCAP e pc ins
          | CASE_S \<Rightarrow> rec_CASE ins base
          | CASE \<Rightarrow> rec_CASE ins base
          | JMP \<Rightarrow> ret Recorded
          | JFUNC \<Rightarrow> rec_JFUNC mmap pc
          | GETTAG \<Rightarrow> rec_GETTAG ins base
          | _ \<Rightarrow> ret Aborted)))"

text \<open>After a branch: has the trace come back to a point where it was before?\<close>

definition rec_loop_check :: "(nat \<Rightarrow> u8 \<Rightarrow> u8 \<Rightarrow> u8) \<Rightarrow> u8 \<Rightarrow> opcode \<Rightarrow> rec_next recm" where
  "rec_loop_check mmap pc op =
     rbind (reads (\<lambda>s. if pc \<noteq> stg_UPD_return_pc (i_misc (r_i s))
                       then case btb_isTrueLoop (j_btb (r_j s)) (j_callStack (r_j s)) pc of
                              None \<Rightarrow> Inl Diverge | Some r \<Rightarrow> r
                       else Inr (-1))) (\<lambda>loopentry.
       if loopentry = -1
       then rthen (on_btb (\<lambda>cs b. btb_emit b cs pc))
              (\<lambda>s. if length (btb_buf (j_btb (r_j s))) > 100
                   then rthen (bump_reason AR_TRACE_TOO_LONG) (ret Aborted) s else ret Recorded s)
       else if loopentry = 0 then rec_save mmap IR_SAVE_LOOP 0
       else if op \<noteq> IFUNC then rec_save mmap IR_SAVE_FALLTHROUGH 0
       else ret Recorded)"

definition rec_body :: "env \<Rightarrow> (nat \<Rightarrow> u8 \<Rightarrow> u8 \<Rightarrow> u8) \<Rightarrow> rec_next recm" where
  "rec_body e mmap =
     rbind (reads (\<lambda>s. Inr (i_pc (r_i s), i_base (r_i s)))) (\<lambda>(pc, base).
     rthen (upd_j (\<lambda>j. j\<lparr>j_buf := (j_buf j)\<lparr>ib_pc := pc, ib_steps := ib_steps (j_buf j) + 1\<rparr>\<rparr>))
    (rbind (reads (\<lambda>s. w_u4 (r_w s) pc)) (\<lambda>ins.
     rbind (reads (\<lambda>_. of_option BadAccess (bc_opcode ins))) (\<lambda>op.
     rbind (\<lambda>s. if flag_get (j_flags (r_j s)) kLastInsWasBranch then rec_loop_check mmap pc op s
                else ret Recorded s) (\<lambda>r.
       if r \<noteq> Recorded then ret r
       else rthen (upd_j (\<lambda>j. j\<lparr>j_flags := flag_clear (j_flags j) kLastInsWasBranch\<rparr>))
           (rthen (rec_assert (\<lambda>s. j_cap (r_j s))) (rec_op e mmap pc op ins base)))))))"

definition rec_abort :: "bool recm" where
  "rec_abort =
     rthen (upd_j (\<lambda>j. j\<lparr>j_aborts := j_aborts j + 1\<rparr>))
           (\<lambda>s. Inr (True, resetRecorderState s))"

text \<open>
  Whether the recording has ended.  The instruction is the one at \<^verbatim>\<open>pc - 1\<close> of the interpreter, which is
  \<open>i_pc\<close> before the step.  An optimisation that finds a guard that always fails throws an exception;
  what the instruction had added to the trace until then is given up with the trace.
\<close>

definition recordIns :: "env \<Rightarrow> (nat \<Rightarrow> u8 \<Rightarrow> u8 \<Rightarrow> u8) \<Rightarrow> bool recm" where
  "recordIns e mmap s =
     (if i_abort (r_i s) then rthen (bump_reason AR_INTERPRETER_REQUEST) rec_abort s
      else case rec_body e mmap s of
             Inr (Recorded, s) \<Rightarrow> Inr (False, s)
           | Inr (Aborted, s) \<Rightarrow> rec_abort s
           | Inr (Stopped, s) \<Rightarrow> Inr (True, s)
           | Inl (Throw err) \<Rightarrow>
               if err = IROPTERR_FAILING_GUARD
               then rthen (bump_reason AR_KNOWN_TO_FAIL_GUARD) rec_abort s else Inl (Throw err)
           | Inl err \<Rightarrow> Inl err)"

section \<open>The interpreter while recording\<close>

text \<open>The label \<^verbatim>\<open>record\<close> of the interpreter: record the instruction, then execute it or stop recording.\<close>

definition record_step :: "env \<Rightarrow> (nat \<Rightarrow> u8 \<Rightarrow> u8 \<Rightarrow> u8) \<Rightarrow> recorder \<Rightarrow> (outcome \<times> recorder) result" where
  "record_step e mmap s =
     res_bind (recordIns e mmap s) (\<lambda>(fin, s).
       if fin
       then res_bind (finishRecording (sync_T (r_i s))) (\<lambda>i.
            let i = load_state i in Inr (Next i, s\<lparr>r_i := i\<rparr>))
       else res_bind (step e (r_i s)) (\<lambda>r.
            Inr (r, s\<lparr>r_i := (case r of Next i \<Rightarrow> i | Finished _ i \<Rightarrow> i)\<rparr>)))"

section \<open>What recording leaves alone\<close>

text \<open>
  The part of the state that only the beginning and the end of a recording change: what is being recorded, the
  compiled traces, the hot counters and the registers of the interpreter.
\<close>

definition rec_core where
  "rec_core s =
     ((j_cap (r_j s), j_startPc (r_j s), j_startBase (r_j s), j_parent (r_j s), j_parentExitNo (r_j s)),
      (j_traceType (r_j s), j_targets (r_j s), j_asm (r_j s), r_hot s),
      (i_T (r_i s), i_base (r_i s), i_pc (r_i s), i_heap (r_i s), i_heaplim (r_i s), i_flags (r_i s), i_abort (r_i s)))"

definition quiet :: "'a recm \<Rightarrow> bool" where
  "quiet m \<longleftrightarrow> (\<forall>s x s'. m s = Inr (x, s') \<longrightarrow> rec_core s' = rec_core s)"

lemma quietD: "quiet m \<Longrightarrow> m s = Inr (x, s') \<Longrightarrow> rec_core s' = rec_core s"
  by (simp add: quiet_def)

named_theorems quiet

lemma quiet_ret [quiet]: "quiet (ret x)"
  by (simp add: quiet_def ret_def)

lemma quiet_bind [quiet]: "quiet m \<Longrightarrow> (\<And>x. quiet (f x)) \<Longrightarrow> quiet (rbind m f)"
  unfolding quiet_def rbind_def by (auto simp: result)

lemma quiet_then [quiet]: "quiet m \<Longrightarrow> quiet n \<Longrightarrow> quiet (rthen m n)"
  unfolding rthen_def by (intro quiet)

lemma quiet_if [quiet]: "quiet m \<Longrightarrow> quiet n \<Longrightarrow> quiet (if c then m else n)" by simp

lemma quiet_reads [quiet]: "quiet (reads f)"
  unfolding quiet_def reads_def by (auto simp: result)

lemma quiet_prod [quiet]: "(\<And>a b. quiet (f a b)) \<Longrightarrow> quiet (case p of (a, b) \<Rightarrow> f a b)" by (cases p) simp

lemma quiet_on_buf [quiet]: "quiet (on_buf f)"
  unfolding quiet_def on_buf_def by (auto simp: result rec_core_def)

lemma quiet_on_stack [quiet]: "quiet (on_stack f)"
  unfolding quiet_def on_stack_def by (auto simp: result rec_core_def)

lemma quiet_on_btb [quiet]: "quiet (on_btb f)"
  unfolding quiet_def on_btb_def by (auto simp: result rec_core_def)

lemma quiet_emit [quiet]: "quiet (rec_emit op ty x y)" "quiet (rec_emitHeapCheck n)"
  unfolding quiet_def rec_emit_def rec_emitHeapCheck_def by (auto dest: quietD [OF quiet_on_buf])

lemma quiet_bump_reason [quiet]: "quiet (bump_reason r)"
  by (simp add: quiet_def bump_reason_def upd_j_def rec_core_def)

lemma quiet_rfor [quiet]: "(\<And>x. quiet (f x)) \<Longrightarrow> quiet (rfor xs f)"
  by (induction xs) (auto intro: quiet)

lemma quiet_rmap [quiet]: "(\<And>x. quiet (f x)) \<Longrightarrow> quiet (rmap xs f)"
  by (induction xs) (auto intro!: quiet)

lemma quiet_rec_ap_cont [quiet]: "quiet (rec_ap_cont e n p)" "quiet (rec_ap_info e n p)"
  unfolding quiet_def rec_ap_cont_def rec_ap_info_def ap_cont_def
  by (auto simp: result rec_core_def)

lemma quiet_helpers [quiet]:
  "quiet (rec_guard op x y)" "quiet (rec_frame b tp)" "quiet rec_topslot" "quiet (rec_word b n)" "quiet (rec_assert P)"
  "quiet (loadField t fd ty)" "quiet (specialiseOnInfoTable t c)" "quiet (specialiseOnPapShape t c)"
  "quiet (followIndirection k c)" "quiet (clearSlots lo hi)" "quiet (arg_at args na)" "quiet (rec_code c)"
  unfolding rec_guard_def rec_frame_def rec_topslot_def rec_word_def rec_assert_def loadField_def
    specialiseOnInfoTable_def specialiseOnPapShape_def followIndirection_def clearSlots_def arg_at_def rec_code_def
  by (intro quiet)+


lemma quiet_follow [quiet]: "quiet (follow_loop fuel k c)"
  by (induction fuel arbitrary: c) (auto intro!: quiet)

lemma quiet_frames [quiet]:
  "quiet (rec_pushFrame b r t n)" "quiet m \<Longrightarrow> (\<And>x. quiet (k x)) \<Longrightarrow> quiet (with_frame m k)"
  "quiet m' \<Longrightarrow> quiet (rec_frame_or b tp m')"
  unfolding rec_pushFrame_def with_frame_def rec_frame_or_def Let_def by (intro quiet, (intro quiet | assumption)+)

lemma quiet_call_frames [quiet]:
  "(\<And>b. quiet (k b)) \<Longrightarrow> quiet (rec_ap_frame base r t n k)"
  "(\<And>b. quiet (k b)) \<Longrightarrow> quiet (rec_thunk_frames base r t f k)"
  "quiet m \<Longrightarrow> quiet (rec_pop_frame base m)" "quiet (rec_return_guard base)" "quiet (rec_funref p t f)"
  "quiet (papOrDirectArg a n args t)"
  unfolding rec_ap_frame_def rec_thunk_frames_def rec_pop_frame_def rec_return_guard_def rec_funref_def papOrDirectArg_def
  by (intro quiet, (intro quiet | assumption)+)

lemma quiet_apply [quiet]: "quiet (recordGenericApply2 e ci base t f args r)"
  unfolding recordGenericApply2_def rec_apply_thunk_def rec_apply_exact_def rec_apply_over_def rec_apply_under_def Let_def
  by (intro quiet)

lemma quiet_branch [quiet]: "quiet m \<Longrightarrow> quiet (rec_branch m)" "quiet m' \<Longrightarrow> quiet (rec_done m')"
  unfolding rec_branch_def rec_done_def
  by (intro quiet | simp add: quiet_def upd_j_def rec_core_def)+

lemmas rec_op_defs = rec_compare_def rec_LOADK_def rec_rrr_def rec_rr_def rec_closure_def rec_CALLT_def rec_CALL_def
  rec_EVAL_def rec_return_def rec_RET1_def rec_RETN_def rec_MOV_RES_def rec_UPDATE_def rec_load_def rec_ALLOC1_def
  rec_arg_def rec_fill_def rec_ALLOC_def rec_ALLOCAP_def rec_CASE_def rec_GETTAG_def

lemma quiet_ops [quiet]:
  "quiet (rec_compare op ins base)" "quiet (rec_LOADK ins)" "quiet (rec_rrr ir ins)" "quiet (rec_rr ir ins)"
  "quiet (rec_CALLT e pc ins base)" "quiet (rec_CALL e pc ins base)" "quiet (rec_EVAL pc ins base)"
  "quiet (rec_RET1 ins base)" "quiet (rec_RETN ins base)" "quiet (rec_MOV_RES ins)" "quiet (rec_UPDATE ins base)"
  "quiet (rec_load n f ins)" "quiet (rec_ALLOC1 ins)" "quiet (rec_ALLOC pc ins)" "quiet (rec_ALLOCAP e pc ins)"
  "quiet (rec_CASE ins base)" "quiet (rec_GETTAG ins base)"
  unfolding rec_op_defs Let_def by (intro quiet)+


section \<open>The states of the recorder\<close>

definition rec_idle :: "recorder \<Rightarrow> bool" where
  "rec_idle s \<longleftrightarrow> \<not> j_cap (r_j s) \<and> j_targets (r_j s) = [] \<and> raw_flags (j_flags (r_j s)) = 0 \<and> \<not> i_abort (r_i s)"

text \<open>An operation that returns \<^const>\<open>Stopped\<close> has ended the recording; any other result leaves it going.\<close>

definition goes_on :: "rec_next recm \<Rightarrow> bool" where
  "goes_on m \<longleftrightarrow>
     (\<forall>s x s'. m s = Inr (x, s') \<longrightarrow> (if x = Stopped then rec_idle s' else rec_core s' = rec_core s))"

named_theorems goes_on

lemma goes_on_bind [goes_on]: "quiet m \<Longrightarrow> (\<And>x. goes_on (f x)) \<Longrightarrow> goes_on (rbind m f)"
  unfolding goes_on_def rbind_def by (fastforce simp: result dest: quietD split: if_splits)

lemma goes_on_then [goes_on]: "quiet m \<Longrightarrow> goes_on n \<Longrightarrow> goes_on (rthen m n)"
  unfolding rthen_def by (rule goes_on_bind)

lemma goes_on_ret [goes_on]: "r \<noteq> Stopped \<Longrightarrow> goes_on (ret r)"
  by (simp add: goes_on_def ret_def)

lemma goes_on_if [goes_on]: "goes_on m \<Longrightarrow> goes_on n \<Longrightarrow> goes_on (if c then m else n)" by simp

lemma goes_on_prod [goes_on]: "(\<And>a b. goes_on (f a b)) \<Longrightarrow> goes_on (case p of (a, b) \<Rightarrow> f a b)" by (cases p) simp

lemma quiet_set_branch [quiet]: "quiet (upd_j (\<lambda>j. j\<lparr>j_flags := f j\<rparr>))"
  by (simp add: quiet_def upd_j_def rec_core_def)

lemma goes_on_branch [goes_on]: "quiet m \<Longrightarrow> goes_on (rec_branch m)" "quiet m' \<Longrightarrow> goes_on (rec_done m')"
  unfolding rec_branch_def rec_done_def by (intro goes_on quiet; simp)+

lemma reset_idle: "rec_idle (resetRecorderState s)"
  by (simp add: rec_idle_def resetRecorderState_def flags_clear_def)

lemma finish_idle: "rec_finishRecording mmap s = Inr (x, s') \<Longrightarrow> rec_idle s'"
  unfolding rec_finishRecording_def by (auto simp: rthen_def rbind_def result reset_idle)

lemma goes_on_save [goes_on]: "goes_on (rec_save mmap k n)"
  unfolding goes_on_def rec_save_def by (auto simp: rthen_def rbind_def ret_def result dest: finish_idle)

lemma goes_on_ops [goes_on]:
  "goes_on (rec_compare op ins base)" "goes_on (rec_LOADK ins)" "goes_on (rec_rrr ir ins)" "goes_on (rec_rr ir ins)"
  "goes_on (rec_CALLT e pc ins base)" "goes_on (rec_CALL e pc ins base)" "goes_on (rec_EVAL pc ins base)"
  "goes_on (rec_RET1 ins base)" "goes_on (rec_RETN ins base)" "goes_on (rec_MOV_RES ins)" "goes_on (rec_UPDATE ins base)"
  "goes_on (rec_load n f ins)" "goes_on (rec_ALLOC1 ins)" "goes_on (rec_ALLOC pc ins)" "goes_on (rec_ALLOCAP e pc ins)"
  "goes_on (rec_CASE ins base)" "goes_on (rec_GETTAG ins base)"
  unfolding rec_op_defs Let_def by (intro goes_on quiet; simp)+

lemma quiet_lookup [quiet]: "quiet (\<lambda>s. res_bind (lookupFragment pc (r_j s)) (\<lambda>(F, j). Inr (F, s\<lparr>r_j := j\<rparr>)))"
  unfolding quiet_def lookupFragment_def Let_def by (auto simp: result rec_core_def)

lemma goes_on_JFUNC [goes_on]: "goes_on (rec_JFUNC mmap pc)"
  unfolding rec_JFUNC_def by (intro goes_on quiet)

lemma goes_on_op [goes_on]: "goes_on (rec_op e mmap pc op ins base)"
proof (cases "branch_cond op = None \<and> arith_rrr op = None \<and> arith_rr op = None")
  case True
  then show ?thesis unfolding rec_op_def
    by (cases op; simp; intro goes_on quiet; simp)
next
  case False
  then show ?thesis unfolding rec_op_def
    by (auto split: option.splits intro!: goes_on)
qed

lemma goes_on_test [goes_on]: "goes_on m \<Longrightarrow> goes_on n \<Longrightarrow> goes_on (\<lambda>s. if P s then m s else n s)"
  unfolding goes_on_def by auto

lemma goes_on_loop_check [goes_on]: "goes_on (rec_loop_check mmap pc op)"
  unfolding rec_loop_check_def by (intro goes_on quiet; simp)


lemma goes_on_next: "goes_on m \<Longrightarrow> (\<And>s. goes_on n) \<Longrightarrow> goes_on (rbind m (\<lambda>r. if r \<noteq> Recorded then ret r else n))"
  unfolding goes_on_def rbind_def ret_def by (fastforce simp: result split: if_splits)

lemma goes_on_body: "goes_on (rec_body e mmap)"
proof -
  have "quiet (upd_j (\<lambda>j. j\<lparr>j_buf := f j\<rparr>))" for f by (simp add: quiet_def upd_j_def rec_core_def)
  then show ?thesis
    unfolding rec_body_def by (intro goes_on_next goes_on quiet; simp)
qed

lemma abort_idle: "rec_abort s = Inr (fin, s') \<Longrightarrow> fin \<and> rec_idle s'"
  by (auto simp: rec_abort_def rthen_def rbind_def upd_j_def reset_idle)

text \<open>
  \<^bold>\<open>C7.\<close> A recording goes on until \<^verbatim>\<open>recordIns\<close> returns true, and no longer.  When it returns true the recorder
  is idle: no capability, no targets, no flags and no request to abort are left over, whether the trace was finished,
  given up or found to contain a guard that always fails, so that the next recording can begin.  When it
  returns false the recording goes on with the same start, parent and type; nothing was compiled, and the
  interpreter's registers, heap pointers and flags are the ones it had before, so that it executes the
  instruction as if it had not been recorded.
\<close>

theorem recorder_states:
  assumes "recordIns e mmap s = Inr (fin, s')"
  shows "if fin then rec_idle s' else rec_core s' = rec_core s"
proof (cases "i_abort (r_i s)")
  case True
  then show ?thesis
    using assms abort_idle by (fastforce simp: recordIns_def rthen_def rbind_def bump_reason_def upd_j_def)
next
  case False
  show ?thesis
  proof (cases "rec_body e mmap s")
    case (Inr p)
    obtain x s1 where p: "p = (x, s1)" by (cases p)
    have "if x = Stopped then rec_idle s1 else rec_core s1 = rec_core s"
      using goes_on_body Inr p unfolding goes_on_def by blast
    then show ?thesis
      using assms False Inr p abort_idle by (cases x) (auto simp: recordIns_def)
  next
    case (Inl er)
    then show ?thesis
      using assms False abort_idle
      by (cases er) (fastforce simp: recordIns_def rthen_def rbind_def bump_reason_def upd_j_def split: if_splits)+
  qed
qed

section \<open>Finding a finished trace\<close>

lemma patchGuard_fragments:
  assumes "patchGuard F n t a = Inr (x, a')"
  shows "jv_fragments (a_jit a') = jv_fragments (a_jit a)"
proof -
  have k: "jv_fragments (a_jit (a_setJit (\<lambda>j. j\<lparr>jv_mcode := m\<rparr>) b)) = jv_fragments (a_jit b)"
      "jv_fragments (a_jit (jit_write p bs b)) = jv_fragments (a_jit b)" for m b p bs
    by (simp_all add: a_setJit_def jit_write_def)
  have mid: "jv_fragments (a_jit b) = jv_fragments (a_jit c)"
    if "(if q then res_bind (lc_assert u1) (\<lambda>_. res_bind (lc_assert u2) (\<lambda>_. res_bind r (\<lambda>d. Inr (jit_write p (g d) c))))
         else res_bind (lc_assert u3) (\<lambda>_. res_bind r' (\<lambda>d. Inr (jit_write p' (g' d) c)))) = Inr b"
    for b c q u1 u2 u3 r r' p p' g g'
    using that by (auto simp: result k split: if_splits)
  from assms obtain m m' b where "jv_fragments (a_jit b) = jv_fragments (a_jit (a_setJit (\<lambda>j. j\<lparr>jv_mcode := m\<rparr>) a))"
      "a' = a_setJit (\<lambda>j. j\<lparr>jv_mcode := m'\<rparr>) b"
    unfolding patchGuard_def Let_def res_bind_Inr_iff by (auto simp only: res_bind_Inr_iff sum.inject prod.inject prod.case dest!: mid)
  then show ?thesis by (simp only: k)
qed

lemma patchParent_keeps:
  "rec_patchParent entry s = Inr (x, s') \<Longrightarrow>
     j_fragments (r_j s') = j_fragments (r_j s) \<and> j_fragmentMap (r_j s') = j_fragmentMap (r_j s) \<and>
     j_startPc (r_j s') = j_startPc (r_j s) \<and> j_traceType (r_j s') = j_traceType (r_j s) \<and>
     j_flags (r_j s') = j_flags (r_j s)"
  unfolding rec_patchParent_def Let_def
  by (auto simp: result j_fragments_def j_view_def dest!: patchGuard_fragments split: option.splits)

lemma w_u4_written: "w_u4 (wr_u2s pc (ins_halves ins) w) pc = Inr ins"
proof -
  have "(ucast (ucast ins :: u2) :: u4) OR push_bit 16 (ucast (ucast (drop_bit 16 ins) :: u2)) = ins"
    by (rule bit_word_eqI) (auto simp: bit_simps)
  then show ?thesis
    by (simp add: w_u4_def w_u2_def wr_u2s_def ins_halves_def of_option_def)
qed

text \<open>
  A finished trace that is not a side trace is the one the interpreter finds at the address where it starts: by
  \<^verbatim>\<open>traceAt\<close> after a branch, and by \<^verbatim>\<open>lookupFragment\<close> from the \<^verbatim>\<open>JFUNC\<close> that replaces the first
  instruction; the assertion of \<^verbatim>\<open>op_JFUNC\<close> holds for it.
\<close>

lemma finished_trace_found:
  assumes fin: "rec_finishRecording mmap s = Inr (x, s')" and ty: "j_traceType (r_j s) \<noteq> TT_SIDE"
  shows "\<exists>F. traceAt (j_startPc (r_j s)) (r_j s') = Inr (Some F) \<and>
    lookupFragment (j_startPc (r_j s)) (r_j s') = Inr (F, r_j s') \<and> fr_startPc F = j_startPc (r_j s) \<and>
    Suc (fr_traceId F) = numFragments (r_j s') \<and>
    (\<not> flag_get (j_flags (r_j s)) kIsReturnTrace \<longrightarrow>
       w_u4 (r_w s') (j_startPc (r_j s)) = Inr (bc_ad JFUNC 0 (of_nat (fr_traceId F))))"
proof -
  from fin obtain s1 F j2 s3 s4 where
    s1: "rec_assemble mmap s = Inr ((), s1)" and F: "saveFragment (r_j s1) = Inr F"
    and j2: "registerFragment (j_startPc (r_j s1)) F (j_traceType (r_j s1) = TT_SIDE) (r_j s1) = Inr j2"
    and s3: "rec_patchParent (fr_mcode F) (s1\<lparr>r_j := j2\<rparr>) = Inr ((), s3)"
    and s4: "(if j_traceType (r_j s3) \<noteq> TT_SIDE \<and> \<not> flag_get (j_flags (r_j s3)) kIsReturnTrace
      then writeJFUNC (numFragments (r_j s1)) s3 else Inr ((), s3)) = Inr ((), s4)"
    and s': "s' = resetRecorderState (s4\<lparr>r_hot := btb_resetDominatedCounters (j_btb (r_j s4)) (r_hot s4)\<rparr>)"
    unfolding rec_finishRecording_def by (auto simp: rthen_def rbind_def reads_def result)
  have a: "j_startPc (r_j s1) = j_startPc (r_j s)" "j_traceType (r_j s1) = j_traceType (r_j s)" "j_flags (r_j s1) = j_flags (r_j s)"
    using s1 by (auto simp: rec_assemble_def Let_def result)
  have f: "fr_traceId F = numFragments (r_j s1)" "fr_startPc F = j_startPc (r_j s1)"
    using F by (auto simp: saveFragment_def Let_def result numFragments_def)
  have r: "j_fragments j2 = j_fragments (r_j s1) @ [F]" "j_fragmentMap j2 (pc_index (j_startPc (r_j s1))) = Some (fr_traceId F)"
      "j_startPc j2 = j_startPc (r_j s1)" "j_traceType j2 = j_traceType (r_j s1)" "j_flags j2 = j_flags (r_j s1)"
    using j2 ty a by (auto simp: registerFragment_def Let_def result j_setFragments_def j_fragments_def j_view_def a_setJit_def)
  note k = patchParent_keeps [OF s3]
  have w: "r_j s4 = r_j s3"
      "\<not> flag_get (j_flags (r_j s)) kIsReturnTrace \<Longrightarrow>
         w_u4 (r_w s4) (j_startPc (r_j s)) = Inr (bc_ad JFUNC 0 (of_nat (fr_traceId F)))"
    using s4 k r a ty f w_u4_written by (auto simp: writeJFUNC_def upd_i_def mm_mapW_def split: if_splits)
  have j: "j_fragments (r_j s') = j_fragments (r_j s1) @ [F]"
      "j_fragmentMap (r_j s') (pc_index (j_startPc (r_j s))) = Some (fr_traceId F)"
    using k r w a by (simp_all add: s' resetRecorderState_def j_fragments_def j_view_def)
  have at: "fragment_at (fr_traceId F) (r_j s') = Inr F"
    using j f by (simp add: fragment_at_def numFragments_def)
  have "r_w s' = r_w s4" by (simp add: s' resetRecorderState_def)
  then show ?thesis
    using j at f a w(2) by (auto simp: traceAt_def lookupFragment_def Let_def numFragments_def fun_upd_idem fragment_at_def)
qed

text \<open>Recording the move of slot 0 to slot 1.\<close>

definition demo_mov :: world where
  "demo_mov = \<lparr>w_mem = Map.empty, w_infos = Map.empty, w_code = [0x2000 \<mapsto> 0x010b, 0x2002 \<mapsto> 0]\<rparr>"

definition demo_recorder :: recorder where
  "demo_recorder =
     \<lparr>r_i = demo_ist demo_mov 0x1018 0x1038 0x2000,
      r_j = (jit_init demo_asm demo_buf \<lparr>cs_curr = 0, cs_size = 32, cs_buf = []\<rparr> \<lparr>btb_size = 16, btb_buf = []\<rparr>)
        \<lparr>j_cap := True, j_startPc := 0x1ff0\<rparr>,
      r_hot = hc_init 53\<rparr>"

lemma demo_fetch: "w_u4 demo_mov 0x2000 = Inr 0x010b" "bc_opcode 0x010b = Some MOV" "bc_a 0x010b = 1" "bc_d 0x010b = 0"
  by (simp_all add: w_u4_def w_u2_def demo_mov_def of_option_def bc_opcode_def opcode_of_num_def BCDEF_def bc_a_def bc_d_def)

lemma demo_recorded: "\<exists>s. recordIns e mmap demo_recorder = Inr (False, s)"
proof -
  have "i_abort (r_i demo_recorder) = False" by (simp add: demo_recorder_def demo_ist_def)
  moreover have "\<exists>s. rec_body e mmap demo_recorder = Inr (Recorded, s)"
    by (simp add: rec_body_def rbind_def rthen_def reads_def upd_j_def ret_def demo_recorder_def demo_fetch of_option_def
      rec_assert_def rec_op_def arith_rrr_def arith_rr_def on_buf_def rec_done_def jit_init_def resetFragments_def
      j_setFragments_def flag_get_def flag_clear_def lc_assert_def ib_slot_def ib_setSlot_def as_get_def as_set_def
      demo_buf_def demo_stack_def as_inRange_def kSlots_def tref_isNone_def tref_markWritten_def tref_mk_def
      kWritten_def Let_def)
  ultimately show ?thesis by (auto simp: recordIns_def)
qed

theorem recorder_states_witness:
  "\<exists>s. recordIns \<lparr>e_os = demo_os, e_asmEnter = (\<lambda>_ i. Inr i)\<rparr> (\<lambda>_ _ _. 0) demo_recorder = Inr (False, s) \<and>
     rec_core s = rec_core demo_recorder"
  using demo_recorded recorder_states [of _ _ demo_recorder False] by fastforce

end
