(* ===== verification/CodeGen.thy ===== *)
theory CodeGen
  imports Assembler
begin

text \<open>
  Correctness of the code generated for one instruction (\<^verbatim>\<open>intArith\<close>, \<^verbatim>\<open>intNegNot\<close>, shifts by a
  constant, \<^verbatim>\<open>emitSLOAD\<close> and \<^verbatim>\<open>fieldLoad\<close> of \<^verbatim>\<open>src/vm/assembler.cc\<close>).

  Code is generated backwards, so the tables of the allocator after an instruction was processed
  describe the machine before it runs.  \<open>ins_ok\<close> says of an instruction \<open>ref\<close>: allocation runs out
  of spill slots, or from every machine state that agrees with the new tables the emitted code
  leads to one that agrees with the old tables, in which \<open>ref\<close> has its value.
\<close>

section \<open>Pieces of code\<close>

text \<open>The code from \<open>a\<close> to \<open>a'\<close> makes register \<open>d\<close> hold \<open>x\<close>.\<close>

definition computes ::
    "(nat \<Rightarrow> u8) \<Rightarrow> kctx \<Rightarrow> nat \<Rightarrow> nat \<Rightarrow> u8 \<Rightarrow> assembler \<Rightarrow> assembler \<Rightarrow> bool" where
  "computes v K lim d x a a' \<longleftrightarrow>
     (\<forall>s. agree v K lim a' s \<longrightarrow>
        (\<exists>s'. agree v K lim a s' \<and> x_reg s' d = x \<and> x_mem s' = x_mem s \<and>
           xrun (a_mcend a) (a_mc a') s = xrun (a_mcend a) (a_mc a) s'))"

text \<open>The code from \<open>a\<close> to \<open>a'\<close> defines \<open>ref\<close>, in its register and in its spill slot.\<close>

definition ins_code :: "(nat \<Rightarrow> u8) \<Rightarrow> kctx \<Rightarrow> nat \<Rightarrow> assembler \<Rightarrow> assembler \<Rightarrow> bool" where
  "ins_code v K ref a a' \<longleftrightarrow>
     (\<forall>s. agree v K ref a' s \<longrightarrow>
        (\<exists>s'. agree v K (Suc ref) a s' \<and> x_mem s' = mem_define v K ref a' (x_mem s) \<and>
           xrun (a_mcend a) (a_mc a') s = xrun (a_mcend a) (a_mc a) s'))"

text \<open>Running \<open>g\<close> sets one register and perhaps the flags.\<close>

definition sets_reg :: "nat \<Rightarrow> u8 \<Rightarrow> xstate \<Rightarrow> (u1 list \<Rightarrow> u1 list) \<Rightarrow> bool" where
  "sets_reg d y s g \<longleftrightarrow>
     (\<forall>e c. \<exists>fl. xrun e (g c) s = xrun e c ((x_set d y s)\<lparr>x_flags := fl\<rparr>))"

lemma same_ir_mcend: "same_ir a b \<Longrightarrow> a_mcend b = a_mcend a"
  by (simp add: same_ir_def)

lemma agree_flags [simp]: "agree v K lim a (s\<lparr>x_flags := fl\<rparr>) = agree v K lim a s"
  by (simp add: agree_def ctx_ok_def)

lemma agree_emit [simp]: "agree v K lim (a_emit f a) s = agree v K lim a s"
  by (simp add: agree_def ra_live_def)

lemma ra_ok_emit [simp]: "ra_ok lim (a_emit f a) = ra_ok lim a"
  using ra_ok_cong [of lim a "a_emit f a"] ra_ok_cong [of lim "a_emit f a" a]
    same_ir_sym [of a "a_emit f a"] by auto

lemma left_computes: "left_code v K lim d lref a a' \<Longrightarrow> computes v K lim d (v lref) a a'"
  unfolding left_code_def computes_def by metis

lemma computes_op:
  assumes c: "computes v K lim d x (a_emit f a) a'" and ok: "ra_ok lim a" and free: "bit (a_freeset a) d"
    and op: "\<And>s. agree v K lim a s \<Longrightarrow> x_reg s d = x \<Longrightarrow> sets_reg d y s f"
  shows "computes v K lim d y a a'"
  unfolding computes_def
proof (intro allI impI)
  fix s assume "agree v K lim a' s"
  with c obtain s1 where s1: "agree v K lim a s1" "x_reg s1 d = x"
      "xrun (a_mcend a) (a_mc a') s = xrun (a_mcend a) (f (a_mc a)) s1" "x_mem s1 = x_mem s"
    by (auto simp: computes_def)
  from op [OF s1(1,2)] obtain fl where
    "xrun (a_mcend a) (f (a_mc a)) s1 = xrun (a_mcend a) (a_mc a) ((x_set d y s1)\<lparr>x_flags := fl\<rparr>)"
    unfolding sets_reg_def by blast
  then show "\<exists>s'. agree v K lim a s' \<and> x_reg s' d = y \<and> x_mem s' = x_mem s \<and>
      xrun (a_mcend a) (a_mc a') s = xrun (a_mcend a) (a_mc a) s'"
    using s1(3,4) agree_set_free [OF s1(1) ra_okD(3) [OF ok] free, of y]
    by (intro exI [of _ "(x_set d y s1)\<lparr>x_flags := fl\<rparr>"]) (simp add: x_set_def)
qed

lemma computes_alloc:
  assumes "alloc_code v K lim allow a b" and "bit (a_freeset a) d" and "computes v K lim d y b c"
    and "same_ir a b"
  shows "computes v K lim d y a c"
  unfolding computes_def
proof (intro allI impI)
  fix s assume "agree v K lim c s"
  with assms(3) obtain s1 where s1: "agree v K lim b s1" "x_reg s1 d = y"
      "xrun (a_mcend b) (a_mc c) s = xrun (a_mcend b) (a_mc b) s1" "x_mem s1 = x_mem s"
    unfolding computes_def by blast
  with assms(1) obtain s2 where "agree v K lim a s2" "xrun (a_mcend a) (a_mc b) s1 = xrun (a_mcend a) (a_mc a) s2"
      "\<forall>r. bit (a_freeset a) r \<or> \<not> bit allow r \<longrightarrow> x_reg s2 r = x_reg s1 r" "x_mem s2 = x_mem s1"
    unfolding alloc_code_def by blast
  then show "\<exists>s'. agree v K lim a s' \<and> x_reg s' d = y \<and> x_mem s' = x_mem s \<and>
      xrun (a_mcend a) (a_mc c) s = xrun (a_mcend a) (a_mc a) s'"
    using s1(2-4) assms(2) by (intro exI [of _ s2]) (simp add: same_ir_mcend [OF assms(4)])
qed

lemma dest_computes:
  assumes dest: "dest_code v K ref d a b" and comp: "computes v K ref d (v ref) b c" and same: "same_ir a b"
    and keep: "a_ir c ref = a_ir b ref"
  shows "ins_code v K ref a c"
  unfolding ins_code_def
proof (intro allI impI)
  fix s assume "agree v K ref c s"
  with comp obtain s1 where s1: "agree v K ref b s1" "x_reg s1 d = v ref" "x_mem s1 = x_mem s"
      "xrun (a_mcend a) (a_mc c) s = xrun (a_mcend a) (a_mc b) s1"
    unfolding computes_def same_ir_mcend [OF same] by blast
  with dest obtain s2 where "agree v K (Suc ref) a s2" "x_mem s2 = mem_define v K ref b (x_mem s1)"
      "xrun (a_mcend a) (a_mc b) s1 = xrun (a_mcend a) (a_mc a) s2"
    unfolding dest_code_def by blast
  with s1 show "\<exists>s'. agree v K (Suc ref) a s' \<and> x_mem s' = mem_define v K ref c (x_mem s) \<and>
      xrun (a_mcend a) (a_mc c) s = xrun (a_mcend a) (a_mc a) s'"
    by (intro exI [of _ s2]) (simp add: mem_define_def keep)
qed

lemma keeps_trans:
  assumes "keeps lim R a b" and "keeps lim R' b c" and "same_ir a b"
  shows "keeps lim (R \<union> R') a c"
  using assms(1,2) same_ir_fields(8) [OF assms(3), of lim] by (auto simp: keeps_def)

lemma keeps_mono: "keeps lim R a b \<Longrightarrow> R \<subseteq> R' \<Longrightarrow> keeps lim R' a b"
  by (auto simp: keeps_def)

lemma keeps_emit [simp]: "keeps lim R a (a_emit f b) = keeps lim R a b" "keeps lim R (a_emit f a) b = keeps lim R a b"
  by (simp_all add: keeps_def ra_live_def)

lemma allocatable_same:
  "same_ir a b \<Longrightarrow> allocatable lim b x = allocatable lim a x"
  by (simp add: allocatable_def same_ir_fields(8) same_ir_value_lit)

text \<open>A source operand in a register that may be the destination.\<close>

definition src_code :: "(nat \<Rightarrow> u8) \<Rightarrow> kctx \<Rightarrow> nat \<Rightarrow> nat \<Rightarrow> nat \<Rightarrow> nat \<Rightarrow> assembler \<Rightarrow> assembler \<Rightarrow> bool" where
  "src_code v K lim d src r a a' \<longleftrightarrow>
     (\<forall>g y. (\<forall>s. agree v K lim a' s \<and> x_reg s r = v src \<longrightarrow> sets_reg d y s g) \<longrightarrow>
        computes v K lim d y a (a_emit g a'))"

lemma src_code_same:
  assumes ok: "ra_ok lim a" and free: "bit (a_freeset a) d"
    and c: "a_mc b = a_mc a" "\<And>s. agree v K lim b s \<Longrightarrow> agree v K lim a s \<and> x_reg s r = v src"
  shows "src_code v K lim d src r a b"
  unfolding src_code_def computes_def
proof (intro allI impI)
  fix g y s
  assume g: "\<forall>s. agree v K lim b s \<and> x_reg s r = v src \<longrightarrow> sets_reg d y s g"
    and "agree v K lim (a_emit g b) s"
  then have s: "agree v K lim b s" by simp
  note as = c(2) [OF s]
  from g s as obtain fl where "xrun (a_mcend a) (g (a_mc b)) s =
      xrun (a_mcend a) (a_mc b) ((x_set d y s)\<lparr>x_flags := fl\<rparr>)"
    unfolding sets_reg_def by blast
  then show "\<exists>s'. agree v K lim a s' \<and> x_reg s' d = y \<and> x_mem s' = x_mem s \<and>
      xrun (a_mcend a) (a_mc (a_emit g b)) s = xrun (a_mcend a) (a_mc a) s'"
    using agree_set_free [OF conjunct1 [OF as] ra_okD(3) [OF ok] free, of y]
    by (intro exI [of _ "(x_set d y s)\<lparr>x_flags := fl\<rparr>"]) (simp add: c x_set_def)
qed

lemma src_code_alloc:
  assumes alloc: "alloc_code v K lim allow a b" and same: "same_ir a b" and ok: "ra_ok lim b"
    and free: "bit (a_freeset a) d" "bit (a_freeset b) d"
    and val: "\<And>s. agree v K lim b s \<Longrightarrow> x_reg s r = v src"
  shows "src_code v K lim d src r a b"
  unfolding src_code_def
proof (intro allI impI)
  fix g y assume g: "\<forall>s. agree v K lim b s \<and> x_reg s r = v src \<longrightarrow> sets_reg d y s g"
  have "src_code v K lim d src r b b" by (rule src_code_same [OF ok free(2)]) (simp_all add: val)
  with g have "computes v K lim d y b (a_emit g b)" unfolding src_code_def by blast
  then show "computes v K lim d y a (a_emit g b)" by (rule computes_alloc [OF alloc free(1) _ same])
qed

lemma allocRef_free:
  assumes "allocRef ref allow a = Inr (r, a')" and "bit (a_freeset a) r" and "bit allow r"
  shows "a' = (useReg r (a_updIr ref (ir_setReg r) a))\<lparr>a_cost := (a_cost a)(r := rc_make ref (ir_t (a_ir a ref)))\<rparr>"
proof -
  have pick: "rs_test r (rs_intersect (a_freeset a) allow)"
    using assms(2,3) by (simp add: rs_test_bit bit_rs_simps)
  then have ne: "\<not> rs_isEmpty (rs_intersect (a_freeset a) allow)" by (auto simp: rs_isEmpty_iff rs_test_bit)
  have t: "ir_t (a_ir (useReg r (a_updIr ref (ir_setReg r) a)) ref) = ir_t (a_ir a ref)"
    by (simp add: a_ir_updIr ir_setReg_def)
  define h where "h = getHint (reg_of a ref)"
  define p where "p =
     (if hasHint (reg_of a ref) \<and> rs_test h (rs_intersect (a_freeset a) allow) then Inr (h, a)
      else if hasHint (reg_of a ref) \<and> rs_test h allow \<and> canRemat (rc_ref (a_cost a h))
      then res_bind (rematConstant (rc_ref (a_cost a h)) a) (\<lambda>(_, a). Inr (h, a))
      else Inr (rs_pickBot (rs_intersect (a_freeset a) allow), a))"
  define F where "F = (\<lambda>r b. (useReg r (a_updIr ref (ir_setReg r) b))
      \<lparr>a_cost := (a_cost (useReg r (a_updIr ref (ir_setReg r) b)))
        (r := rc_make ref (ir_t (a_ir (useReg r (a_updIr ref (ir_setReg r) b)) ref)))\<rparr>)"
  have "isNoReg (reg_of a ref)" using assms(1) by (cases "isNoReg (reg_of a ref)") (simp_all add: allocRef_def Let_def lc_assert_def)
  then have "allocRef ref allow a = res_bind p (\<lambda>(r, b). Inr (r, F r b))"
    unfolding allocRef_def Let_def if_P [OF ne] h_def [symmetric] p_def [symmetric] F_def
    by (simp add: res_bind_lc_assert ne del: reg_ops_fields)
  then obtain b where b: "p = Inr (r, b)" "a' = F r b" using assms(1) by (cases p) auto
  then have "b = a" using pick by (auto simp: p_def res_bind_Inr_iff split: if_splits)
  then show ?thesis using b(2) t by (simp add: F_def)
qed

lemma alloc1_ok:
  assumes ok: "ra_ok lim a" and lits: "lits_ok v K (a_buf a)"
    and free: "bit (a_freeset a) d" and al: "allocatable lim a ref"
  shows "alloc1 ref kGPR a = Inl (Exit 1) \<or>
    (\<exists>r a'. alloc1 ref kGPR a = Inr (r, a') \<and> bit kGPR r \<and> ra_ok lim a' \<and> same_ir a a' \<and>
       src_code v K lim d ref r a a' \<and> keeps lim {ref} a a')"
proof (cases "isReg (reg_of a ref)")
  case True
  have lv: "ra_live lim a ref" using al by (simp add: allocatable_def)
  have "src_code v K lim d ref (reg_of a ref) a a"
    by (rule src_code_same [OF ok free]) (use agreeD(2) lv True in blast)+
  then show ?thesis
    using True ok regs_okD(2) [OF ra_okD(3) [OF ok] lv True] by (simp add: alloc1_def isNoReg_iff)
next
  case False
  have e: "alloc1 ref kGPR a = allocRef ref kGPR a" using False by (simp add: alloc1_def isNoReg_iff)
  have kg: "kGPR \<noteq> 0" by (simp add: kGPR_val)
  from allocRef_ok [OF ok lits gpr_set_simps(1) kg al False] show ?thesis unfolding e
  proof (elim disjE exE conjE, goal_cases)
    case (2 r a')
    have "src_code v K lim d ref r a a'"
    proof (cases "r = d")
      case True
      have a': "a' = (useReg r (a_updIr ref (ir_setReg r) a))\<lparr>a_cost := (a_cost a)(r := rc_make ref (ir_t (a_ir a ref)))\<rparr>"
        using allocRef_free [OF 2(1)] free 2(2) True by simp
      have "bit (a_freeset a) r" using free True by simp
      from assign_ok [OF ok this al False a'] show ?thesis
        by (intro src_code_same [OF ok free]) auto
    next
      case False
      then have "bit (a_freeset a') d" using free 2(7) by (simp add: bit_rs_simps)
      then show ?thesis using 2 by (intro src_code_alloc [OF 2(5,4,3) free]) auto
    qed
    then show ?case using 2 by blast
  qed simp
qed


section \<open>The destination\<close>

text \<open>What holds when instruction \<open>ref\<close> is reached.\<close>

definition gen_ok :: "(nat \<Rightarrow> u8) \<Rightarrow> kctx \<Rightarrow> nat \<Rightarrow> assembler \<Rightarrow> bool" where
  "gen_ok v K ref a \<longleftrightarrow> ra_ok (Suc ref) a \<and> lits_ok v K (a_buf a) \<and> REF_BIAS \<le> ref \<and>
     a_stopins a \<le> ref \<and> ra_live (Suc ref) a ref"

definition ins_ok :: "(nat \<Rightarrow> u8) \<Rightarrow> kctx \<Rightarrow> nat \<Rightarrow> nat set \<Rightarrow> assembler \<Rightarrow> unit asm_result \<Rightarrow> bool" where
  "ins_ok v K ref R a r \<longleftrightarrow> r = Inl (Exit 1) \<or>
     (\<exists>a'. r = Inr ((), a') \<and> ra_ok ref a' \<and> same_ir a a' \<and> ins_code v K ref a a' \<and>
        keeps (Suc ref) (insert ref R) a a')"

text \<open>The destination is \<open>d\<close>, and the rest of the instruction computes its value there.\<close>

definition fills :: "(nat \<Rightarrow> u8) \<Rightarrow> kctx \<Rightarrow> nat \<Rightarrow> nat set \<Rightarrow> nat \<Rightarrow> assembler \<Rightarrow> unit asm_result \<Rightarrow> bool" where
  "fills v K ref R d b r \<longleftrightarrow> r = Inl (Exit 1) \<or>
     (\<exists>a'. r = Inr ((), a') \<and> ra_ok ref a' \<and> same_ir b a' \<and> computes v K ref d (v ref) b a' \<and>
        keeps ref R b a')"

definition dest_ok :: "(nat \<Rightarrow> u8) \<Rightarrow> kctx \<Rightarrow> nat \<Rightarrow> nat \<Rightarrow> assembler \<Rightarrow> bool" where
  "dest_ok v K ref d b \<longleftrightarrow> ra_ok ref b \<and> lits_ok v K (a_buf b) \<and> bit (a_freeset b) d \<and> bit kGPR d \<and> d < 16"

lemma ins_via_dest:
  assumes gen: "gen_ok v K ref a" and allow: "gpr_set allow" "allow \<noteq> 0" and R: "ref \<notin> R"
    and step: "\<And>d b. dest_ok v K ref d b \<Longrightarrow> same_ir a b \<Longrightarrow>
      (\<And>x. x \<noteq> ref \<Longrightarrow> isReg (reg_of a x) \<longrightarrow> \<not> bit allow (reg_of a x) \<Longrightarrow> a_ir b x = a_ir a x) \<Longrightarrow>
      fills v K ref R d b (f (d, b))"
  shows "ins_ok v K ref R a (res_bind (destReg ref allow a) f)"
proof -
  have "destReg ref allow a = Inl (Exit 1) \<or>
    (\<exists>d b. destReg ref allow a = Inr (d, b) \<and> ra_ok ref b \<and> same_ir a b \<and> dest_code v K ref d a b \<and>
      bit kGPR d \<and> bit (a_freeset b) d \<and> (if isReg (reg_of a ref) then d = reg_of a ref else bit allow d) \<and>
      reg_of b ref = d \<and>
      (\<forall>x. x \<noteq> ref \<and> (ra_live ref a x \<and> isReg (reg_of a x) \<longrightarrow> \<not> bit allow (reg_of a x)) \<longrightarrow> a_ir b x = a_ir a x))"
    using gen unfolding gen_ok_def by (elim conjE) (rule destReg_ok [OF _ _ allow])
  then show ?thesis
  proof (elim disjE exE conjE, goal_cases)
    case 1 then show ?case by (simp add: ins_ok_def)
  next
    case (2 d b)
    have b: "dest_ok v K ref d b"
      using gen 2 gpr_less [of d] by (simp add: gen_ok_def dest_ok_def same_ir_lits_ok [OF 2(3)])
    have f: "fills v K ref R d b (f (d, b))" by (rule step [OF b 2(3)]) (use 2(9) in blast)
    have k: "keeps (Suc ref) {ref} a b" using 2(9) by (auto simp: keeps_def ra_live_def)
    have up: "keeps (Suc ref) (insert ref R) a c" if "keeps ref R b c" for c
    proof -
      have "keeps (Suc ref) (insert ref R) b c" using that by (auto simp: keeps_def ra_live_def less_Suc_eq)
      then show ?thesis using keeps_trans [OF k _ 2(3)] by (auto intro: keeps_mono)
    qed
    have irf: "a_ir c ref = a_ir b ref" if "keeps ref R b c" for c
      using that R by (simp add: keeps_def ra_live_def)
    from f show ?case unfolding fills_def
    proof (elim disjE exE conjE)
      fix c assume c: "f (d, b) = Inr ((), c)" "ra_ok ref c" "same_ir b c"
        "computes v K ref d (v ref) b c" "keeps ref R b c"
      then show ?thesis
        using dest_computes [OF 2(4) c(4) 2(3) irf [OF c(5)]] same_ir_trans [OF 2(3) c(3)] 2(1) up [OF c(5)]
        by (simp add: ins_ok_def)
    qed (simp add: ins_ok_def 2(1))
  qed
qed

lemma fills_mono: "fills v K ref R d b r \<Longrightarrow> R \<subseteq> R' \<Longrightarrow> fills v K ref R' d b r"
  unfolding fills_def using keeps_mono by blast

lemma fills_left:
  assumes b: "dest_ok v K ref d b" and al: "allocatable ref b lref"
    and g: "\<And>s. agree v K ref b s \<Longrightarrow> x_reg s d = v lref \<Longrightarrow> sets_reg d (v ref) s g"
  shows "fills v K ref {lref} d b (allocLeft d lref (a_emit g b))"
proof -
  have b': "ra_ok ref (a_emit g b)" "lits_ok v K (a_buf (a_emit g b))" "bit (a_freeset (a_emit g b)) d"
      "allocatable ref (a_emit g b) lref"
    using b al by (simp_all add: dest_ok_def allocatable_same [OF same_ir_updates(2)])
  from allocLeft_ok [OF b'] show ?thesis
  proof (elim disjE exE conjE, goal_cases)
    case (2 a')
    have "computes v K ref d (v ref) b a'"
      using computes_op [OF left_computes [OF 2(4)]] b g by (simp add: dest_ok_def)
    then show ?case using 2 same_ir_trans [OF same_ir_updates(2) 2(3)] by (simp add: fills_def)
  qed (simp add: fills_def)
qed

lemma fills_alloc:
  assumes "alloc_code v K ref allow b c" and "same_ir b c" and "bit (a_freeset b) d"
    and "keeps ref R b c" and "fills v K ref R' d c r"
  shows "fills v K ref (R \<union> R') d b r"
  using assms(5) computes_alloc [OF assms(1,3) _ assms(2)] same_ir_trans [OF assms(2)]
    keeps_trans [OF assms(4) _ assms(2)]
  by (auto simp: fills_def)

lemma fills_load:
  assumes b: "dest_ok v K ref d b" and al: "allocatable ref b src"
    and g: "\<And>m r s. bit kGPR r \<Longrightarrow> ctx_ok K s \<Longrightarrow> x_reg s r = v src \<Longrightarrow> sets_reg d (v ref) s (g m r)"
  shows "fills v K ref {src} d b (res_bind (alloc1 src kGPR b) (\<lambda>(r, a). Inr ((), a_emit (g (a_mrm a) r) a)))"
proof -
  have "ra_ok ref b" "lits_ok v K (a_buf b)" "bit (a_freeset b) d" using b by (simp_all add: dest_ok_def)
  from alloc1_ok [OF this al] show ?thesis
  proof (elim disjE exE conjE, goal_cases)
    case (2 r a')
    have "computes v K ref d (v ref) b (a_emit (g (a_mrm a') r) a')"
      using 2(5) g [OF 2(2) agreeD(1)] unfolding src_code_def by blast
    then show ?case using 2 same_ir_intros(2) [OF 2(4)] by (simp add: fills_def)
  qed (simp add: fills_def)
qed

lemma allocatable_less: "allocatable lim a x \<Longrightarrow> x < lim"
  by (simp add: allocatable_def ra_live_def)

section \<open>Instructions\<close>

lemma kGPR_nonempty: "kGPR \<noteq> 0"
  by (simp add: kGPR_val)

lemma intNegNot_ok:
  assumes gen: "gen_ok v K ref a" and al: "allocatable ref a (ir_op1 (a_ir a ref))"
    and val: "xg = XOg_NEG \<and> v ref = - v (ir_op1 (a_ir a ref)) \<or> xg = XOg_NOT \<and> v ref = NOT (v (ir_op1 (a_ir a ref)))"
  shows "ins_ok v K ref {ir_op1 (a_ir a ref)} a (intNegNot ref xg a)"
  unfolding intNegNot_def
proof (rule ins_via_dest [OF gen gpr_set_simps(1) kGPR_nonempty])
  show "ref \<notin> {ir_op1 (a_ir a ref)}" using allocatable_less [OF al] by simp
  fix d b assume b: "dest_ok v K ref d b" and same: "same_ir a b"
  define n :: nat where "n = (if xg = XOg_NEG then 3 else 2)"
  have n: "xg = of_nat n" "n \<in> {2, 3, 7}" using val by (auto simp: n_def xog_defs)
  have g: "sets_reg d (v ref) s (emit_rr XO_GROUP3 (REX_64 OR xg) (of_nat d))"
    if "x_reg s d = v (ir_op1 (a_ir a ref))" for s
    unfolding sets_reg_def n(1)
  proof (intro allI)
    fix e c
    note st = xrun_step [OF decode_group3 [OF n(2), of d], of e c s]
    show "\<exists>fl. xrun e (emit_rr XO_GROUP3 (REX_64 OR of_nat n) (of_nat d) c) s =
        xrun e c ((x_set d (v ref) s)\<lparr>x_flags := fl\<rparr>)"
      using st that val b
      by (intro exI [of _ "if n = 3 then None else x_flags s"])
        (auto simp: dest_ok_def n_def xog_defs x_trunc_def x_set_def)
  qed
  have "fills v K ref {ir_op1 (a_ir b ref)} d b
      (allocLeft d (ir_op1 (a_ir b ref)) (a_emit (emit_rr XO_GROUP3 (REX_64 OR xg) (of_nat d)) b))"
    by (rule fills_left [OF b]) (use al g in \<open>simp_all add: same_ir_fields [OF same] allocatable_same [OF same]\<close>)
  then show "fills v K ref {ir_op1 (a_ir a ref)} d b (case (d, b) of (dest, a) \<Rightarrow>
      allocLeft dest (ir_op1 (a_ir a ref)) (a_emit (emit_rr XO_GROUP3 (REX_64 OR xg) (of_nat dest)) a))"
    by (simp add: same_ir_fields [OF same])
qed

lemma is32BitLiteral_ok:
  assumes lits: "lits_ok v K (a_buf a)" and al: "allocatable lim a ref"
  shows "\<exists>k. is32BitLiteral ref a = Inr k \<and> (\<forall>i. k = Some i \<longrightarrow> irref_islit ref \<and> v ref = scast i)"
proof (cases "irref_islit ref \<and> ir_o (a_ir a ref) \<noteq> kKBASEO")
  case True
  then have l: "ref < REF_BIAS" by (simp add: irref_islit_def)
  then obtain k where o: "ir_o (a_ir a ref) = kKINT \<or> ir_o (a_ir a ref) = kKWORD"
      and k: "ib_literalValue (a_buf a) ref = Inr k" and live: "ra_live lim a ref"
    using al True by (auto simp: allocatable_def value_lit_def a_ir_def)
  then have "v ref = k" using lits l unfolding lits_ok_def ra_live_def a_ir_def by blast
  then show ?thesis using True k by (auto simp: is32BitLiteral_def checki32_def)
qed (auto simp: is32BitLiteral_def)

text \<open>The operation of the processor that the group number \<open>xa\<close> selects.\<close>

definition arith_code :: "u4 \<Rightarrow> u8 \<Rightarrow> u8 \<Rightarrow> u8 \<Rightarrow> bool" where
  "arith_code xa x y z \<longleftrightarrow>
     xa = XOg_X_IMUL \<and> z = x * y \<or>
     (\<exists>n f. xa = of_nat n \<and> n \<in> {0, 1, 4, 5, 6} \<and> x_alu n x y = Some (Some z, f))"

lemma arith_code_imul: "arith_code XOg_X_IMUL x y z \<Longrightarrow> z = x * y"
  by (auto simp: arith_code_def XOg_X_IMUL_def)

lemma arith_code_alu:
  assumes "arith_code xa x y z" and "xa \<noteq> XOg_X_IMUL"
  obtains n f where "xa = of_nat n" "n \<in> {0, 1, 4, 5, 6, 7}" "x_alu n x y = Some (Some z, f)"
  using assms by (auto simp: arith_code_def)

lemma sets_alu_rr:
  assumes z: "arith_code xa (x_reg s d) (x_reg s r) z" and d: "d < 16" "r < 16"
  shows "sets_reg d z s (emit_mrm m (if xa = XOg_X_IMUL then XO_IMUL else XO_ARITH xa) (REX_64 OR of_nat d) (of_nat r))"
  unfolding sets_reg_def
proof (intro allI)
  fix e c
  have rr: "emit_mrm m xo rd (of_nat r) c = emit_rr xo rd (of_nat r) c" for xo rd
    by (rule emit_mrm_reg [OF small_not_mrm [OF d(2)]])
  have r: "regno (of_nat r) = r" using d by simp
  show "\<exists>fl. xrun e (emit_mrm m (if xa = XOg_X_IMUL then XO_IMUL else XO_ARITH xa) (REX_64 OR of_nat d) (of_nat r) c) s =
      xrun e c ((x_set d z s)\<lparr>x_flags := fl\<rparr>)"
  proof (cases "xa = XOg_X_IMUL")
    case True
    then show ?thesis
      using xrun_step [OF decode_imul_rr [OF d(1) r], of e c s] arith_code_imul [of "x_reg s d" "x_reg s r" z] z
      by (intro exI [of _ None]) (simp add: rr x_trunc_def)
  next
    case False
    from arith_code_alu [OF z False] obtain n f where
      n: "xa = of_nat n" "n \<in> {0, 1, 4, 5, 6, 7}" "x_alu n (x_reg s d) (x_reg s r) = Some (Some z, f)" .
    show ?thesis
      using xrun_step [OF decode_alu_rr [OF n(2) d(1) r], of e c s] n False
      by (intro exI [of _ "Some f"]) (simp add: rr x_trunc_def x_alu_to_def)
  qed
qed

lemma sets_alu_ri:
  assumes z: "arith_code xa (x_reg s d) (scast k) z" and d: "d < 16" and xa: "xa \<noteq> XOg_X_IMUL"
  shows "sets_reg d z s (emit_gri (XG_ARITHi xa) (REX_64 OR of_nat d) k)"
  unfolding sets_reg_def
proof (intro allI)
  fix e c
  from arith_code_alu [OF z xa] obtain n f where
    n: "xa = of_nat n" "n \<in> {0, 1, 4, 5, 6, 7}" "x_alu n (x_reg s d) (scast k) = Some (Some z, f)" .
  show "\<exists>fl. xrun e (emit_gri (XG_ARITHi xa) (REX_64 OR of_nat d) k c) s = xrun e c ((x_set d z s)\<lparr>x_flags := fl\<rparr>)"
    using xrun_step [OF decode_gri [OF n(2) d, of "REX_64 OR of_nat d" k c], of e s] n
    by (intro exI [of _ "Some f"]) (simp add: x_trunc_def x_alu_to_def)
qed

definition imul_imm :: "modrm \<Rightarrow> u4 \<Rightarrow> nat \<Rightarrow> nat \<Rightarrow> u1 list \<Rightarrow> u1 list" where
  "imul_imm m k d r c =
     (if checki8 (sint k) then emit_mrm m XO_IMULi8 (REX_64 OR of_nat d) (of_nat r) (emit_i8 (ucast k) c)
      else emit_mrm m XO_IMULi (REX_64 OR of_nat d) (of_nat r) (emit_i32 k c))"

lemma sets_imul_imm:
  assumes "d < 16" "r < 16" and "z = x_reg s r * scast k"
  shows "sets_reg d z s (imul_imm m k d r)"
  unfolding sets_reg_def
proof (intro allI)
  fix e c
  have rr: "emit_mrm m xo rd (of_nat r) c = emit_rr xo rd (of_nat r) c" for xo rd c
    by (rule emit_mrm_reg [OF small_not_mrm [OF assms(2)]])
  have r: "regno (of_nat r) = r" using assms by simp
  show "\<exists>fl. xrun e (imul_imm m k d r c) s = xrun e c ((x_set d z s)\<lparr>x_flags := fl\<rparr>)"
    using xrun_step [OF decode_imuli8_rr [OF assms(1) r], of e "ucast k" c s]
      xrun_step [OF decode_imuli_rr [OF assms(1) r], of e k c s] assms(3)
    by (intro exI [of _ None]) (simp add: imul_imm_def rr x_trunc_def emit_i8_def scast_i8)
qed



lemma fills_right:
  assumes b: "dest_ok v K ref d b" and r: "r < 16" and al: "allocatable ref b lref"
    and right: "\<And>s. agree v K ref b s \<Longrightarrow> x_reg s r = v rref"
    and val: "arith_code xa (v lref) (v rref) (v ref)"
  shows "fills v K ref {lref} d b (allocLeft d lref
    (a_emit (emit_mrm m (if xa = XOg_X_IMUL then XO_IMUL else XO_ARITH xa) (REX_64 OR of_nat d) (of_nat r)) b))"
  by (rule fills_left [OF b al], rule sets_alu_rr) (use b r right val in \<open>simp_all add: dest_ok_def\<close>)

lemma fuseLoad_reg:
  "isReg (reg_of a ref) \<Longrightarrow> fuseLoad ref kGPR a = Inr (reg_of a ref, a)"
  "\<not> isReg (reg_of a ref) \<Longrightarrow> fuseLoad ref allow a = allocRef ref allow a"
  by (simp_all add: fuseLoad_def rs_isEmpty_def kGPR_val)

lemma fuseLoad_alloc1: "fuseLoad ref kGPR a = alloc1 ref kGPR a"
  by (cases "isReg (reg_of a ref)") (simp_all add: fuseLoad_reg alloc1_def isNoReg_iff)

lemma gpr_clear_nonempty:
  "rs_clear r (rs_clear r' kGPR) \<noteq> 0" "rs_clear r kGPR \<noteq> 0"
proof -
  have "\<exists>q::nat. q \<le> 2 \<and> q \<noteq> r \<and> q \<noteq> r'" by presburger
  then obtain q where "q \<le> 2" "q \<noteq> r" "q \<noteq> r'" by blast
  then have "bit (rs_clear r (rs_clear r' kGPR)) q" "bit (rs_clear r kGPR) q"
    by (simp_all add: bit_rs_simps bit_kGPR)
  then show "rs_clear r (rs_clear r' kGPR) \<noteq> 0" "rs_clear r kGPR \<noteq> 0" by auto
qed


text \<open>What \<^verbatim>\<open>intArith\<close> does when the destination and the right operand are known.\<close>

definition arith_rest :: "u4 \<Rightarrow> nat \<Rightarrow> nat \<Rightarrow> nat \<Rightarrow> nat \<Rightarrow> u4 \<Rightarrow> assembler \<Rightarrow> unit asm_result" where
  "arith_rest xa lref rref dest right k a =
     (if isReg right
      then allocLeft dest lref
             (a_emit (emit_mrm (a_mrm a) (if xa = XOg_X_IMUL then XO_IMUL else XO_ARITH xa)
               (REX_64 OR of_nat dest) (of_nat right)) a)
      else if xa \<noteq> XOg_X_IMUL
      then allocLeft dest lref (a_emit (emit_gri (XG_ARITHi xa) (REX_64 OR of_nat dest) k) a)
      else res_bind (lc_assert (irref_islit rref)) (\<lambda>_.
           res_bind (alloc1 lref kGPR a) (\<lambda>(left, a).
             Inr ((), a_emit (imul_imm (a_mrm a) k dest left) a))))"

lemma imul_emit:
  "(let (xo, a) = (if checki8 (sint k) then (XO_IMULi8, a_emit (emit_i8 (ucast k)) a)
                   else (XO_IMULi, a_emit (emit_i32 k) a))
    in Inr ((), a_emit (emit_mrm (a_mrm a) xo (REX_64 OR of_nat d) (of_nat left)) a)) =
   Inr ((), a_emit (imul_imm (a_mrm a) k d left) a)"
  by (simp add: a_emit_def imul_imm_def)

lemma intArith_alt:
  assumes "lref = ir_op1 (a_ir a ref)" "rref = ir_op2 (a_ir a ref)"
  shows "intArith ref xa a =
    (let right = reg_of a rref; allow = (if isReg right then rs_clear right kGPR else kGPR)
     in res_bind (destReg ref allow a) (\<lambda>(dest, a).
         res_bind (if \<not> isReg right then is32BitLiteral rref a else Inr None) (\<lambda>k32.
         res_bind (if \<not> isReg right \<and> k32 = None then fuseLoad rref (rs_clear dest allow) a
                   else Inr (right, a))
           (\<lambda>(right, a). arith_rest xa lref rref dest right (case k32 of Some k \<Rightarrow> k | None \<Rightarrow> 0) a))))"
  unfolding intArith_def assms arith_rest_def Let_def imul_emit [unfolded Let_def] fuseLoad_alloc1
  by (intro arg_cong2 [where f = res_bind] refl ext prod.case_cong) (cases "xa = XOg_X_IMUL"; simp)

lemma arith_rest_reg:
  assumes b: "dest_ok v K ref d b" and right: "right < 16" and al: "allocatable ref b lref"
    and rv: "\<And>s. agree v K ref b s \<Longrightarrow> x_reg s right = v rref"
    and val: "arith_code xa (v lref) (v rref) (v ref)"
  shows "fills v K ref {lref} d b (arith_rest xa lref rref d right k b)"
  using fills_right [OF b right al rv val] isReg_small [OF right] by (simp add: arith_rest_def)

lemma arith_rest_imm:
  assumes b: "dest_ok v K ref d b" and right: "\<not> isReg right" and al: "allocatable ref b lref"
    and lit: "irref_islit rref" and rv: "v rref = scast k"
    and val: "arith_code xa (v lref) (v rref) (v ref)"
  shows "fills v K ref {lref} d b (arith_rest xa lref rref d right k b)"
proof (cases "xa = XOg_X_IMUL")
  case True
  have "v ref = v lref * scast k" using arith_code_imul val True rv by simp
  then have "fills v K ref {lref} d b (res_bind (alloc1 lref kGPR b) (\<lambda>(left, a). Inr ((), a_emit (imul_imm (a_mrm a) k d left) a)))"
    by (intro fills_load [OF b al] sets_imul_imm) (use b gpr_less in \<open>auto simp: dest_ok_def\<close>)
  then show ?thesis using True right lit by (simp add: arith_rest_def lc_assert_def)
next
  case False
  have "fills v K ref {lref} d b (allocLeft d lref (a_emit (emit_gri (XG_ARITHi xa) (REX_64 OR of_nat d) k) b))"
    by (rule fills_left [OF b al], rule sets_alu_ri) (use b rv val False in \<open>simp_all add: dest_ok_def\<close>)
  then show ?thesis using False right by (simp add: arith_rest_def)
qed


lemma intArith_ok:
  assumes gen: "gen_ok v K ref a"
    and l: "allocatable ref a (ir_op1 (a_ir a ref))" and r: "allocatable ref a (ir_op2 (a_ir a ref))"
    and val: "arith_code xa (v (ir_op1 (a_ir a ref))) (v (ir_op2 (a_ir a ref))) (v ref)"
  shows "ins_ok v K ref {ir_op1 (a_ir a ref), ir_op2 (a_ir a ref)} a (intArith ref xa a)"
proof -
  define lref where "lref = ir_op1 (a_ir a ref)"
  define rref where "rref = ir_op2 (a_ir a ref)"
  define right where "right = reg_of a rref"
  define allow where "allow = (if isReg right then rs_clear right kGPR else kGPR)"
  have live: "ra_live ref a rref" using r by (simp add: allocatable_def rref_def)
  have g: "gpr_set allow" "allow \<noteq> 0" "\<And>d. gpr_set (rs_clear d allow)" "\<And>d. rs_clear d allow \<noteq> 0"
    using gpr_clear_nonempty kGPR_nonempty by (auto simp: allow_def)
  show ?thesis
    unfolding intArith_alt [OF lref_def rref_def] Let_def right_def [symmetric] allow_def [symmetric]
      lref_def [symmetric] rref_def [symmetric]
  proof (rule ins_via_dest [OF gen g(1,2)])
    show ne: "ref \<notin> {lref, rref}" using allocatable_less [OF l] allocatable_less [OF r] by (simp add: lref_def rref_def)
    fix d b
    assume b: "dest_ok v K ref d b" and same: "same_ir a b"
      and keep: "\<And>x. x \<noteq> ref \<Longrightarrow> isReg (reg_of a x) \<longrightarrow> \<not> bit allow (reg_of a x) \<Longrightarrow> a_ir b x = a_ir a x"
    have kr: "reg_of b rref = right"
      using keep [of rref] ne by (auto simp: right_def allow_def bit_rs_simps)
    have alb: "allocatable ref b lref" "allocatable ref b rref"
      using l r by (simp_all add: lref_def rref_def allocatable_same [OF same])
    have liveb: "ra_live ref b rref" using live by (simp add: same_ir_fields(8) [OF same])
    note val' = val [folded lref_def rref_def]
    have okb: "ra_ok ref b" "lits_ok v K (a_buf b)" "bit (a_freeset b) d" "d < 16"
      using b by (simp_all add: dest_ok_def)
    show "fills v K ref {lref, rref} d b (case (d, b) of (dest, a) \<Rightarrow>
         res_bind (if \<not> isReg right then is32BitLiteral rref a else Inr None) (\<lambda>k32.
         res_bind (if \<not> isReg right \<and> k32 = None then fuseLoad rref (rs_clear dest allow) a
                   else Inr (right, a))
           (\<lambda>(right, a). arith_rest xa lref rref dest right (case k32 of Some k \<Rightarrow> k | None \<Rightarrow> 0) a)))"
    proof (cases "isReg right")
      case True
      have "right < 16" using regs_okD(2) [OF ra_okD(3) [OF okb(1)] liveb] True gpr_less by (simp add: kr)
      from arith_rest_reg [OF b this alb(1) _ val'] agreeD(2) [of v K ref b _ rref] liveb True
      show ?thesis using fills_mono [of v K ref "{lref}" d b _ "{lref, rref}"] by (simp add: kr)
    next
      case False
      from is32BitLiteral_ok [OF okb(2) alb(2)] obtain k32 where k: "is32BitLiteral rref b = Inr k32"
          "\<forall>i. k32 = Some i \<longrightarrow> irref_islit rref \<and> v rref = scast i" by blast
      show ?thesis
      proof (cases k32)
        case (Some i)
        then show ?thesis
          using False k fills_mono [OF arith_rest_imm [OF b False alb(1) _ _ val'], of _ "{lref, rref}"] by simp
      next
        case None
        have nr: "\<not> isReg (reg_of b rref)" using False by (simp add: kr)
        from allocRef_ok [OF okb(1,2) g(3,4) alb(2) nr, of d] show ?thesis
        proof (elim disjE exE conjE, goal_cases)
          case 1
          then show ?case using False None k nr by (simp add: fuseLoad_reg fills_def)
        next
          case (2 r c)
          have r: "r \<noteq> d" "r < 16"
            using 2(2) gpr_less gpr_setD [OF g(1)] by (auto simp: bit_rs_simps)
          have c: "dest_ok v K ref d c"
            using 2 b r by (simp add: dest_ok_def bit_rs_simps same_ir_lits_ok [OF 2(4)])
          have "fills v K ref {lref} d c (arith_rest xa lref rref d r 0 c)"
            by (rule arith_rest_reg [OF c r(2) _ _ val']) (use alb 2 in \<open>simp_all add: allocatable_same [OF 2(4)]\<close>)
          from fills_alloc [OF 2(5,4) okb(3) 2(9) this] show ?case
            using False None k nr 2(1) by (simp add: fuseLoad_reg insert_commute)
        qed
      qed
    qed
  qed
qed


section \<open>Loads and shifts\<close>

text \<open>Loads read memory that the spill slots do not occupy.\<close>

definition word_outside :: "kctx \<Rightarrow> u8 \<Rightarrow> bool" where
  "word_outside K p \<longleftrightarrow> (\<forall>i < 8. \<not> spill_area K (p + of_nat i))"

lemma rd_outside:
  assumes "ctx_ok K s" and "word_outside K p"
  shows "rd64 (x_mem s) p = rd64 (kc_mem K) p"
  using assms by (auto simp: rd_le_def ctx_ok_def word_outside_def intro!: arg_cong [where f = of_le])

lemma fills_const:
  assumes b: "dest_ok v K ref d b" and g: "\<And>s. ctx_ok K s \<Longrightarrow> sets_reg d (v ref) s g"
  shows "fills v K ref {} d b (Inr ((), a_emit g b))"
proof -
  have ok: "ra_ok ref b" "bit (a_freeset b) d" using b by (simp_all add: dest_ok_def)
  have "computes v K ref d (v ref) b (a_emit g b)"
    unfolding computes_def
  proof (intro allI impI)
    fix s assume "agree v K ref (a_emit g b) s"
    then have ag: "agree v K ref b s" by simp
    from g [OF agreeD(1) [OF ag]] obtain fl where
      "xrun (a_mcend b) (g (a_mc b)) s = xrun (a_mcend b) (a_mc b) ((x_set d (v ref) s)\<lparr>x_flags := fl\<rparr>)"
      unfolding sets_reg_def by blast
    then show "\<exists>s'. agree v K ref b s' \<and> x_reg s' d = v ref \<and> x_mem s' = x_mem s \<and>
        xrun (a_mcend b) (a_mc (a_emit g b)) s = xrun (a_mcend b) (a_mc b) s'"
      using agree_set_free [OF ag ra_okD(3) [OF ok(1)] ok(2), of "v ref"]
      by (intro exI [of _ "(x_set d (v ref) s)\<lparr>x_flags := fl\<rparr>"]) (simp add: x_set_def)
  qed
  then show ?thesis using ok by (simp add: fills_def)
qed

lemma sets_load:
  assumes "d < 16" "b < 16" and "rd64 (x_mem s) (x_reg s b + scast ofs) = y"
  shows "sets_reg d y s (load_u64 d b ofs)"
  unfolding sets_reg_def
  using run_load [OF assms(1,2)] assms(3) by (intro allI exI [of _ "x_flags s"]) (simp add: x_set_def)

lemma scast_of_int: "- (2 ^ 31) \<le> i \<Longrightarrow> i < 2 ^ 31 \<Longrightarrow> scast (of_int i :: u4) = (of_int i :: u8)"
  by (simp only: scast_eq sint_sbintrunc') (simp add: signed_take_bit_int_eq_self)

definition stack_word :: "kctx \<Rightarrow> int \<Rightarrow> u8" where
  "stack_word K slot = kc_base K + of_int (8 * slot)"

lemma emitSLOAD_ok:
  assumes gen: "gen_ok v K ref a" and slot: "slot = sint (of_nat (ir_op1 (a_ir a ref)) :: u2)"
    and val: "v ref = rd64 (kc_mem K) (stack_word K slot)" and out: "word_outside K (stack_word K slot)"
  shows "ins_ok v K ref {} a (emitSLOAD ref a)"
  unfolding emitSLOAD_def Let_def slot [symmetric]
proof (rule ins_via_dest [OF gen gpr_set_simps(1) kGPR_nonempty])
  fix d b assume b: "dest_ok v K ref d b"
  have "- 32768 \<le> slot" "slot < 32768"
    using sint_greater_eq [of "of_nat (ir_op1 (a_ir a ref)) :: u2"] sint_less [of "of_nat (ir_op1 (a_ir a ref)) :: u2"] by (simp_all add: slot)
  then have o: "scast (of_int (8 * slot) :: u4) = (of_int (8 * slot) :: u8)"
    by (intro scast_of_int) simp_all
  have "sets_reg d (v ref) s (load_u64 d RID_BASE (of_int (8 * slot)))" if "ctx_ok K s" for s
    by (rule sets_load)
      (use b that rd_outside [OF that out] o val in \<open>simp_all add: dest_ok_def rid_defs ctx_ok_def stack_word_def\<close>)
  from fills_const [OF b this] show "fills v K ref {} d b (case (d, b) of (dst, a) \<Rightarrow>
      Inr ((), a_emit (load_u64 dst RID_BASE (of_int (8 * slot))) a))"
    by simp
qed simp


lemma fieldLoad_ok:
  assumes gen: "gen_ok v K ref a" and fref: "fref = ir_op1 (a_ir a ref)" "fref \<noteq> 0" "ir_o (a_ir a fref) = kFREF"
    and obj: "obj = ir_op1 (a_ir a fref)" "allocatable ref a obj"
    and fld: "p = v obj + of_nat (8 * ir_op2 (a_ir a fref))" "ir_op2 (a_ir a fref) < 65536"
    and val: "v ref = rd64 (kc_mem K) p" and out: "word_outside K p"
  shows "ins_ok v K ref {obj} a (fieldLoad ref a)"
  unfolding fieldLoad_def Let_def fref(1) [symmetric] obj(1) [symmetric]
    res_bind_lc_assert [OF conjI [OF fref(2,3)]]
proof (rule ins_via_dest [OF gen gpr_set_simps(1) kGPR_nonempty])
  show "ref \<notin> {obj}" using allocatable_less [OF obj(2)] by simp
  define k where "k = ir_op2 (a_ir a fref)"
  fix d b assume b: "dest_ok v K ref d b" and same: "same_ir a b"
  have o: "scast (of_nat (8 * k) :: u4) = (of_nat (8 * k) :: u8)"
    using scast_of_int [of "8 * int k"] fld(2) by (simp add: k_def)
  have g: "sets_reg d (v ref) s (load_u64 d r (of_nat (8 * k)))"
    if "bit kGPR r" "ctx_ok K s" "x_reg s r = v obj" for r s
    by (rule sets_load) (use b that rd_outside [OF that(2) out] o val fld(1) gpr_less in \<open>simp_all add: dest_ok_def k_def\<close>)
  have "fills v K ref {obj} d b (res_bind (alloc1 obj kGPR b)
      (\<lambda>(r, a). Inr ((), a_emit ((\<lambda>_ r. load_u64 d r (of_nat (8 * k))) (a_mrm a) r) a)))"
    by (rule fills_load [OF b]) (use obj(2) g in \<open>simp_all add: allocatable_same [OF same]\<close>)
  then show "fills v K ref {obj} d b (case (d, b) of (dst, a') \<Rightarrow> res_bind (alloc1 obj kGPR a') (\<lambda>(basereg, a').
      Inr ((), a_emit (load_u64 dst basereg (of_nat (8 * ir_op2 (a_ir a fref)))) a')))"
    by (simp add: k_def)
qed

text \<open>A shift by a constant; the constant is taken modulo 64, as the processor does.\<close>

lemma sets_shift_const:
  assumes d: "d < 16" and xs: "xs = of_nat n" "n \<in> {4, 5, 7}" and k: "k < 64"
    and y: "x_shift n (x_reg s d) k = Some y"
  shows "sets_reg d y s (\<lambda>c. a_mc (shift_const k xs d (a\<lparr>a_mc := c\<rparr>)))"
  unfolding sets_reg_def
proof (intro allI)
  fix e c
  have n: "n < 8" using xs by auto
  consider "k = 0" | "k = 1" | "1 < k" by linarith
  then show "\<exists>fl. xrun e (a_mc (shift_const k xs d (a\<lparr>a_mc := c\<rparr>))) s = xrun e c ((x_set d y s)\<lparr>x_flags := fl\<rparr>)"
  proof cases
    case 1
    then have "y = x_reg s d" using y xs(2) by (auto simp: x_shift_def)
    then show ?thesis using 1 by (intro exI [of _ "x_flags s"]) (simp add: shift_const_def x_set_def)
  next
    case 2
    then show ?thesis
      using xrun_step [OF decode_shift1 [OF n d], of e c s] y
      by (intro exI [of _ None]) (simp add: shift_const_def xs x_shift_to_def x_trunc_def)
  next
    case 3
    then have u: "unat (of_nat k :: u1) = k" using k by (simp add: unat_of_nat)
    from 3 show ?thesis
      using xrun_step [OF decode_shifti [OF n d, of "of_nat k" c], of e s] y k u
      by (intro exI [of _ None]) (simp add: shift_const_def xs x_shift_to_def x_trunc_def)
  qed
qed

lemma shift_const_emit: "shift_const k xs d a = a_emit (\<lambda>c. a_mc (shift_const k xs d (a\<lparr>a_mc := c\<rparr>))) a"
  by (simp add: shift_const_def a_emit_def)

lemma bitshift_const_ok:
  assumes gen: "gen_ok v K ref a" and lref: "lref = ir_op1 (a_ir a ref)" "allocatable ref a lref"
    and rref: "rref = ir_op2 (a_ir a ref)" "irref_islit rref" "ir_o (a_ir a rref) \<noteq> kKBASEO" "allocatable ref a rref"
    and xs: "xs = of_nat n" "n \<in> {4, 5, 7}"
    and val: "x_shift n (v lref) (unat (v rref AND 63)) = Some (v ref)"
  shows "ins_ok v K ref {lref} a (bitshift ref xs a)"
proof -
  obtain k where k: "ib_literalValue (a_buf a) rref = Inr k" "v rref = k"
  proof -
    have l: "rref < REF_BIAS" using rref(2) by (simp add: irref_islit_def)
    then obtain k where o: "ir_o (a_ir a rref) = kKINT \<or> ir_o (a_ir a rref) = kKWORD"
        and k: "ib_literalValue (a_buf a) rref = Inr k" and live: "ra_live ref a rref"
      using rref(3,4) by (auto simp: allocatable_def value_lit_def a_ir_def)
    have "v rref = k"
      using gen o k live l unfolding gen_ok_def lits_ok_def ra_live_def a_ir_def by blast
    with k that show thesis by blast
  qed
  have e: "bitshift ref xs a = res_bind (destReg ref kGPR a) (\<lambda>(dest, a).
      allocLeft dest (ir_op1 (a_ir a ref)) (shift_const (unat (k AND 63)) xs dest a))"
    using rref k by (simp add: bitshift_def res_bind_lc_assert Let_def)
  have k64: "unat (k AND 63) < 64"
  proof -
    have "k AND 63 \<le> 63" by (rule word_and_le1)
    then show ?thesis by (simp add: word_le_nat_alt)
  qed
  show ?thesis unfolding e
  proof (rule ins_via_dest [OF gen gpr_set_simps(1) kGPR_nonempty])
    show "ref \<notin> {lref}" using allocatable_less [OF lref(2)] by simp
    fix d b assume b: "dest_ok v K ref d b" and same: "same_ir a b"
    have "fills v K ref {lref} d b (allocLeft d lref
        (a_emit (\<lambda>c. a_mc (shift_const (unat (k AND 63)) xs d (b\<lparr>a_mc := c\<rparr>))) b))"
      by (rule fills_left [OF b], use lref(2) in \<open>simp add: allocatable_same [OF same]\<close>,
          rule sets_shift_const [OF _ xs k64])
        (use b val k(2) in \<open>simp_all add: dest_ok_def\<close>)
    then show "fills v K ref {lref} d b (case (d, b) of (dest, a) \<Rightarrow>
        allocLeft dest (ir_op1 (a_ir a ref)) (shift_const (unat (k AND 63)) xs dest a))"
      using shift_const_emit [of "unat (k AND 63)" xs d b] by (simp add: same_ir_fields [OF same] lref)
  qed
qed

end
