(* ===== verification/Guards.thy ===== *)
theory Guards
  imports CodeGen
begin

text \<open>
  Guards and what the allocator keeps for them.  \<open>grows\<close> is what every operation of the assembler
  respects: a spill slot is never given back and an instruction without a slot keeps its register.
  That is why the final tables of a compiled trace describe the machine at every exit, which
  \<^verbatim>\<open>Fragment::restoreSnapshot\<close> relies on.  \<open>compare_ok\<close> shows that the code of a comparison goes on
  exactly when the comparison holds, and otherwise leaves for the exit stub of its snapshot.
\<close>

section \<open>What the allocator never undoes\<close>

text \<open>What all operations of the assembler leave alone while a trace is translated.\<close>

definition prog_of where
  "prog_of a = (a_mcend a, a_stopins a, a_nins a, a_jit a, ib_bufmin (a_buf a), ib_snapmap (a_buf a),
     map (\<lambda>sn. sn\<lparr>sn_mcode := 0\<rparr>) (ib_snaps (a_buf a)), (\<lambda>x. (a_ir a x)\<lparr>ir_prev := 0\<rparr>),
     ib_literalValue (a_buf a))"

definition same_trace :: "assembler \<Rightarrow> assembler \<Rightarrow> bool" where
  "same_trace a b \<longleftrightarrow> prog_of b = prog_of a"

lemma same_trace_refl [simp]: "same_trace a a"
  by (simp add: same_trace_def)

lemma same_trace_trans [trans]: "same_trace a b \<Longrightarrow> same_trace b c \<Longrightarrow> same_trace a c"
  by (simp add: same_trace_def)

lemma same_ir_trace:
  assumes "same_ir a b"
  shows "same_trace a b"
proof -
  have "a_buf b = (a_buf a)\<lparr>ib_buffer := ib_buffer (a_buf b)\<rparr>" using assms by (simp add: same_ir_def)
  then have "ib_snaps (a_buf b) = ib_snaps (a_buf a)" "ib_snapmap (a_buf b) = ib_snapmap (a_buf a)"
      "ib_bufmin (a_buf b) = ib_bufmin (a_buf a)"
    by (metis irbuffer.select_convs irbuffer.surjective irbuffer.update_convs(2))+
  moreover have "ib_literalValue (a_buf b) = ib_literalValue (a_buf a)"
    using same_ir_literal [OF assms] by (simp add: fun_eq_iff)
  ultimately show ?thesis using assms by (simp add: same_trace_def prog_of_def same_ir_def a_ir_def fun_eq_iff)
qed

lemma same_traceD:
  assumes "same_trace a b"
  shows "a_mcend b = a_mcend a" "a_stopins b = a_stopins a" "a_nins b = a_nins a" "a_jit b = a_jit a"
    "ib_snapmap (a_buf b) = ib_snapmap (a_buf a)" "length (ib_snaps (a_buf b)) = length (ib_snaps (a_buf a))"
    "ir_o (a_ir b x) = ir_o (a_ir a x)" "ir_t (a_ir b x) = ir_t (a_ir a x)"
    "ir_op1 (a_ir b x) = ir_op1 (a_ir a x)" "ir_op2 (a_ir b x) = ir_op2 (a_ir a x)"
    "ra_live lim b = ra_live lim a" "ib_literalValue (a_buf b) x = ib_literalValue (a_buf a) x"
    "value_lit (a_buf b) = value_lit (a_buf a)" "lits_ok v K (a_buf b) = lits_ok v K (a_buf a)"
    "allocatable lim b x = allocatable lim a x"
proof -
  have p: "prog_of b = prog_of a" using assms by (simp add: same_trace_def)
  show "a_mcend b = a_mcend a" "a_stopins b = a_stopins a" "a_nins b = a_nins a" "a_jit b = a_jit a"
    "ib_snapmap (a_buf b) = ib_snapmap (a_buf a)"
    using p by (simp_all add: prog_of_def)
  have "map (\<lambda>sn. sn\<lparr>sn_mcode := 0\<rparr>) (ib_snaps (a_buf b)) = map (\<lambda>sn. sn\<lparr>sn_mcode := 0\<rparr>) (ib_snaps (a_buf a))"
    using p by (simp add: prog_of_def)
  from arg_cong [where f = length, OF this]
  show "length (ib_snaps (a_buf b)) = length (ib_snaps (a_buf a))" by simp
  have "(a_ir b x)\<lparr>ir_prev := 0\<rparr> = (a_ir a x)\<lparr>ir_prev := 0\<rparr>" for x
    using p by (simp add: prog_of_def fun_eq_iff)
  then show i: "ir_o (a_ir b x) = ir_o (a_ir a x)" "ir_t (a_ir b x) = ir_t (a_ir a x)"
    "ir_op1 (a_ir b x) = ir_op1 (a_ir a x)" "ir_op2 (a_ir b x) = ir_op2 (a_ir a x)" for x
    by (metis ir.select_convs ir.surjective ir.update_convs(5))+
  show l: "ra_live lim b = ra_live lim a" for lim using p by (simp add: prog_of_def ra_live_def fun_eq_iff)
  show k: "ib_literalValue (a_buf b) x = ib_literalValue (a_buf a) x" for x
    using p by (simp add: prog_of_def)
  show vl: "value_lit (a_buf b) = value_lit (a_buf a)"
    by (rule ext) (simp add: value_lit_def k i flip: a_ir_def)
  show "lits_ok v K (a_buf b) = lits_ok v K (a_buf a)"
    using p by (simp add: lits_ok_def k i ir_op12_def prog_of_def flip: a_ir_def)
  show "allocatable lim b x = allocatable lim a x" by (simp add: allocatable_def l vl)
qed

text \<open>
  A spill slot is never given back, and an instruction without one keeps its register.
\<close>

definition grows :: "assembler \<Rightarrow> assembler \<Rightarrow> bool" where
  "grows a a' \<longleftrightarrow> same_trace a a' \<and> (ss_wf (a_spills a) \<longrightarrow>
     ss_wf (a_spills a') \<and> (\<forall>N. slots_ok N a \<longrightarrow> slots_ok N a') \<and>
     (\<forall>x \<ge> REF_BIAS. (slot_of a x \<noteq> 0 \<longrightarrow> slot_of a' x = slot_of a x) \<and>
        (isReg (reg_of a x) \<and> slot_of a' x = 0 \<longrightarrow> reg_of a' x = reg_of a x)))"

lemma grows_refl [simp]: "grows a a"
  by (simp add: grows_def)

lemma grows_trans [trans]: "grows a b \<Longrightarrow> grows b c \<Longrightarrow> grows a c"
  unfolding grows_def using same_trace_trans [of a b c] by metis

lemma slots_ok_trace:
  assumes "slots_ok N a" and "same_trace a b" and "a_spills b = a_spills a" and "\<And>x. slot_of b x = slot_of a x"
  shows "slots_ok N b"
  using assms(1) unfolding slots_ok_def same_traceD [OF assms(2)] assms(3,4) .

lemma growsI:
  assumes "same_trace a b" and "a_spills b = a_spills a" and "\<And>x. slot_of b x = slot_of a x"
    and "\<And>x. REF_BIAS \<le> x \<Longrightarrow> isReg (reg_of a x) \<Longrightarrow> reg_of b x = reg_of a x"
  shows "grows a b"
  using assms slots_ok_trace [OF _ assms(1-3)] by (simp add: grows_def)

lemma grows_fields:
  "grows a (a_emit f a)" "grows a (freeReg r a)" "grows a (modifiedReg r a)" "grows a (useReg r a)"
  "grows a (a\<lparr>a_cost := c\<rparr>)" "grows a (a\<lparr>a_mrm := m\<rparr>)"
  by (rule growsI; (simp add: same_ir_trace; fail)?; simp add: a_ir_def freeReg_def modifiedReg_def useReg_def)+

lemma grows_setReg:
  assumes "x < REF_BIAS \<or> \<not> isReg (reg_of a x)"
  shows "grows a (a_updIr x (ir_setReg r) a)"
  by (rule growsI) (use assms in \<open>auto simp: a_ir_updIr ir_setReg_def ir_spill_def intro!: same_ir_trace\<close>)

lemma grows_then:
  "grows a b \<Longrightarrow> grows a (a_emit f b)" "grows a b \<Longrightarrow> grows a (freeReg r b)"
  "grows a b \<Longrightarrow> grows a (modifiedReg r b)" "grows a b \<Longrightarrow> grows a (useReg r b)"
  "grows a b \<Longrightarrow> grows a (b\<lparr>a_cost := c\<rparr>)" "grows a b \<Longrightarrow> grows a (b\<lparr>a_mrm := m\<rparr>)"
  by (rule grows_trans, assumption, rule grows_fields)+

definition ok_grows :: "assembler \<Rightarrow> 'x asm_result \<Rightarrow> bool" where
  "ok_grows a r \<longleftrightarrow> (\<forall>x b. r = Inr (x, b) \<longrightarrow> grows a b)"

lemma ok_grows_intros:
  "ok_grows a (Inl e)" "grows a b \<Longrightarrow> ok_grows a (Inr (x, b))"
  "ok_grows a m \<Longrightarrow> (\<And>x b. grows a b \<Longrightarrow> ok_grows a (f (x, b))) \<Longrightarrow> ok_grows a (res_bind m f)"
  "(c \<Longrightarrow> ok_grows a p) \<Longrightarrow> (\<not> c \<Longrightarrow> ok_grows a q) \<Longrightarrow> ok_grows a (if c then p else q)"
  by (auto simp: ok_grows_def res_bind_Inr_iff)

lemma ok_grows_value: "(\<And>x. m = Inr x \<Longrightarrow> ok_grows a (f x)) \<Longrightarrow> ok_grows a (res_bind m f)"
  by (cases m) (auto simp: ok_grows_def)

lemma ok_grows_assert: "(c \<Longrightarrow> ok_grows a (f ())) \<Longrightarrow> ok_grows a (res_bind (lc_assert c) f)"
  by (cases c) (simp_all add: lc_assert_def ok_grows_def)

lemma ok_grows_trans: "grows a b \<Longrightarrow> ok_grows b r \<Longrightarrow> ok_grows a r"
  unfolding ok_grows_def using grows_trans by blast

lemma rematConstant_grows:
  assumes "ref < REF_BIAS"
  shows "ok_grows a (rematConstant ref a)"
proof -
  have "grows a (a_updIr ref (ir_setReg RID_INIT) (modifiedReg (reg_of a ref) (freeReg (reg_of a ref) a)))"
    using assms by (intro grows_trans [OF _ grows_setReg] grows_then) auto
  then show ?thesis
    unfolding rematConstant_def Let_def by (intro ok_grows_assert ok_grows_intros(4) ok_grows_value ok_grows_intros(2) grows_then)
qed

lemma spill_slots:
  assumes sl: "slots_ok N a" and run: "spill ref a = Inr (ofs, a')"
  shows "slots_ok N a'"
proof (cases "slot_of a ref = 0")
  case False
  then show ?thesis using run sl by (simp add: spill_def Let_def)
next
  case True
  obtain slot d where sd: "ss_alloc (a_spills a) = Inr (slot, d)"
      "a' = a_updIr ref (ir_setSpill slot) (a\<lparr>a_spills := d\<rparr>)"
    using run True by (auto simp: spill_def Let_def res_bind_Inr_iff)
  have wf: "ss_wf (a_spills a)" using sl by (simp add: slots_ok_def)
  from ss_alloc_Inr [OF sd(1) wf] have s: "slot_avail (a_spills a) slot" "slot \<noteq> 0" "slot < 256" "ss_wf d"
    and av: "\<And>x. slot_avail d x \<longleftrightarrow> slot_avail (a_spills a) x \<and> x \<noteq> slot" by blast+
  have ai: "a_ir (a\<lparr>a_spills := d\<rparr>) = a_ir a" by (simp add: a_ir_def fun_eq_iff)
  have slots: "slot_of a' x = (if x = ref then slot else slot_of a x)" for x
    unfolding sd(2) a_ir_updIr ai using s(3) by simp
  have f: "a_spills a' = d" "a_stopins a' = a_stopins a" "ra_live N a' = ra_live N a"
    by (simp_all add: sd(2) ra_live_def fun_eq_iff a_updIr_def)
  have fresh: "slot_of a x \<noteq> slot" if "ra_live N a x" for x
    using slots_okD(3) [OF sl that] s(1) by auto
  have "ref1 < a_stopins a \<and> ref2 < a_stopins a"
    if "ra_live N a ref1" "ra_live N a ref2" "ref1 \<noteq> ref2" "slot_of a' ref1 = slot_of a' ref2"
      "slot_of a' ref1 \<noteq> 0" for ref1 ref2
  proof -
    have "ref1 \<noteq> ref" "ref2 \<noteq> ref"
      using that fresh [OF that(1)] fresh [OF that(2)] by (auto simp: slots split: if_splits)
    then show ?thesis
      using slots_okD(4) [OF sl that(1-3)] that(4,5) by (simp add: slots)
  qed
  then show ?thesis
    unfolding slots_ok_def f using s slots_okD(2,3) [OF sl] fresh by (auto simp: av slots)
qed

lemma spill_grows:
  assumes "spill ref a = Inr (ofs, b)"
  shows "grows a b \<and> (ss_wf (a_spills a) \<longrightarrow> slot_of b ref \<noteq> 0) \<and> (\<forall>x. reg_of b x = reg_of a x)"
proof (cases "slot_of a ref = 0")
  case False
  then show ?thesis using assms by (auto simp: spill_def Let_def)
next
  case True
  obtain slot d where sd: "ss_alloc (a_spills a) = Inr (slot, d)"
      "b = a_updIr ref (ir_setSpill slot) (a\<lparr>a_spills := d\<rparr>)"
    using assms(1) True by (auto simp: spill_def Let_def res_bind_Inr_iff)
  have ai: "a_ir (a\<lparr>a_spills := d\<rparr>) = a_ir a" by (simp add: a_ir_def fun_eq_iff)
  have st: "same_trace a b"
    unfolding sd(2) by (rule same_ir_trace, rule same_ir_trans [OF same_ir_updates(7) same_ir_updates(1)]) simp
  have ir: "a_ir b x = (if x = ref then ir_setSpill slot (a_ir a ref) else a_ir a x)" for x
    unfolding sd(2) a_ir_updIr ai ..
  have r: "reg_of b x = reg_of a x" for x by (simp add: ir)
  have w: "ss_wf (a_spills b) \<and> slot_of b ref \<noteq> 0" if "ss_wf (a_spills a)"
    using ss_alloc_Inr [OF sd(1) that] by (simp add: ir) (simp add: sd(2))
  have "slot_of b x = slot_of a x" if "slot_of a x \<noteq> 0" for x using that True by (auto simp: ir)
  then show ?thesis using st r w spill_slots [OF _ assms] by (simp add: grows_def)
qed

lemma restoreReg_grows: "ok_grows a (restoreReg ref a)"
proof (cases "ref < REF_BIAS")
  case True
  then show ?thesis using rematConstant_grows by (simp add: restoreReg_def canRemat_def)
next
  case False
  show ?thesis
  proof (cases "spill ref a")
    case (Inl e) then show ?thesis using False by (simp add: restoreReg_def canRemat_def ok_grows_intros)
  next
    case (Inr p)
    then obtain ofs b where sp: "spill ref a = Inr (ofs, b)" by (cases p) auto
    define r where "r = reg_of b ref"
    note g = spill_grows [OF sp]
    have st: "same_trace b (setHint ref r b)" unfolding setHint_def by (rule same_ir_trace) simp
    have sl: "slot_of (setHint ref r b) x = slot_of b x" for x
      by (simp add: setHint_def a_ir_updIr ir_setReg_def ir_spill_def)
    have rg: "x \<noteq> ref \<Longrightarrow> reg_of (setHint ref r b) x = reg_of b x" for x
      by (simp add: setHint_def a_ir_updIr)
    have fs: "a_spills (setHint ref r b) = a_spills b" by (simp add: setHint_def)
    have "grows a (setHint ref r b)"
      using g same_trace_trans [OF _ st] slots_ok_trace [OF _ st fs sl] rg
      unfolding grows_def sl fs by metis
    then show ?thesis
      using False sp unfolding restoreReg_def canRemat_def Let_def r_def
      by (simp add: ok_grows_assert ok_grows_intros(2) grows_then)
  qed
qed

lemma evictReg_grows: "ok_grows a (evictReg allow a)"
  unfolding evictReg_def by (intro ok_grows_assert ok_grows_intros(4) restoreReg_grows ok_grows_intros(1))

lemma grows_assign:
  assumes ab: "grows a b" and nr: "\<not> isReg (reg_of a ref)"
  shows "grows a (a_updIr ref (ir_setReg r) b)"
proof -
  have st: "same_trace b (a_updIr ref (ir_setReg r) b)" by (rule same_ir_trace) simp
  have sl: "slot_of (a_updIr ref (ir_setReg r) b) x = slot_of b x" for x
    by (simp add: a_ir_updIr ir_setReg_def ir_spill_def)
  have rg: "x \<noteq> ref \<Longrightarrow> reg_of (a_updIr ref (ir_setReg r) b) x = reg_of b x" for x
    by (simp add: a_ir_updIr)
  have fs: "a_spills (a_updIr ref (ir_setReg r) b) = a_spills b" by simp
  show ?thesis
    using ab nr same_trace_trans [OF _ st] slots_ok_trace [OF _ st fs sl] rg
    unfolding grows_def sl fs by metis
qed

lemma ok_grows_then:
  assumes "ok_grows a m" and "\<And>x b. grows a b \<Longrightarrow> grows a (g x b)"
  shows "ok_grows a (res_bind m (\<lambda>(x, b). Inr (h x b, g x b)))"
  by (rule ok_grows_intros(3) [OF assms(1)]) (simp add: ok_grows_intros(2) assms(2))

lemma allocRef_grows: "ok_grows a (allocRef ref allow a)"
  unfolding allocRef_def Let_def
  by (intro ok_grows_assert ok_grows_intros(4) ok_grows_then ok_grows_intros(2) grows_then(4,5)
      grows_assign evictReg_grows rematConstant_grows grows_refl)
    (simp_all add: isNoReg_iff canRemat_def)

lemma pickReg_grows: "ok_grows a (pickReg allow a)"
  unfolding pickReg_def Let_def by (intro ok_grows_intros(2,4) evictReg_grows grows_refl)

lemma allocScratchReg_grows: "ok_grows a (allocScratchReg allow a)"
  unfolding allocScratchReg_def by (intro ok_grows_then pickReg_grows grows_then(3))

lemma alloc1_grows: "ok_grows a (alloc1 ref allow a)"
  unfolding alloc1_def Let_def by (intro ok_grows_intros(2,4) allocRef_grows grows_refl)


lemma destReg_grows: "ok_grows a (destReg ref allow a)"
proof -
  have save: "grows a (if slot_of b ref \<noteq> 0 then saveReg ref d b else b)" if "grows a b" for b d
    using that by (simp add: saveReg_def grows_then)
  show ?thesis
    unfolding destReg_def Let_def
    by (intro ok_grows_then save ok_grows_intros(4) ok_grows_intros(2) grows_then grows_refl
        grows_assign allocScratchReg_grows) simp_all
qed

lemma allocLeft_grows: "ok_grows a (allocLeft dest lref a)"
proof -
  have hint: "grows a (if \<not> hasHint (reg_of a lref) then setHint lref dest a else a)" if "\<not> isReg (reg_of a lref)"
    using that by (simp add: setHint_def grows_assign)
  have left: "ok_grows a (res_bind m (\<lambda>(left, a). Inr ((), if dest \<noteq> left then a_emit (move dest left) a else a)))"
    if "ok_grows a m" for m
    by (rule ok_grows_then [OF that]) (simp add: grows_then)
  show ?thesis
  proof (cases "isReg (reg_of a lref)")
    case True
    then show ?thesis unfolding allocLeft_def Let_def
      using left [of "Inr (reg_of a lref, a)"] by (simp add: ok_grows_intros)
  next
    case nr: False
    show ?thesis
    proof (cases "irref_islit lref")
      case True
      then have l: "lref < REF_BIAS" by (simp add: irref_islit_def)
      have "ok_grows a (rematConstant lref (a_updIr lref (ir_setReg dest) a))"
        by (rule ok_grows_trans [OF grows_setReg rematConstant_grows]) (use l in simp_all)
      then show ?thesis unfolding allocLeft_def Let_def using True nr by (simp add: ok_grows_then)
    next
      case False
      have "ok_grows a (res_bind (lc_assert (dest < RID_MAX_GPR))
          (\<lambda>_. allocRef lref kGPR (if \<not> hasHint (reg_of a lref) then setHint lref dest a else a)))"
        by (intro ok_grows_assert ok_grows_trans [OF hint [OF nr] allocRef_grows])
      from left [OF this] show ?thesis unfolding allocLeft_def Let_def using nr False by simp
    qed
  qed
qed

lemma is32BitLiteral_grows: "(\<And>k. ok_grows a (f k)) \<Longrightarrow> ok_grows a (res_bind (is32BitLiteral ref b) f)"
  by (rule ok_grows_value)

lemma spill_ok_grows: "ok_grows a (spill ref a)"
  using spill_grows by (auto simp: ok_grows_def)

lemma fuseLoad_grows: "ok_grows a (fuseLoad ref allow a)"
  unfolding fuseLoad_def
  by (intro ok_grows_intros(4) ok_grows_intros(2) grows_refl allocRef_grows ok_grows_then grows_then
      ok_grows_trans [OF grows_fields(6) spill_ok_grows])

lemma intNegNot_grows: "ok_grows a (intNegNot ref xg a)"
  unfolding intNegNot_def
  by (rule ok_grows_intros(3) [OF destReg_grows])
    (simp add: ok_grows_trans [OF grows_then(1) allocLeft_grows])

lemma emitSLOAD_grows: "ok_grows a (emitSLOAD ref a)"
  unfolding emitSLOAD_def Let_def by (intro ok_grows_then destReg_grows grows_then)

lemma fieldLoad_grows: "ok_grows a (fieldLoad ref a)"
  unfolding fieldLoad_def Let_def
proof (rule ok_grows_assert, rule ok_grows_intros(3) [OF destReg_grows])
  fix dst b assume b: "grows a b"
  show "ok_grows a (case (dst, b) of (dst, a') \<Rightarrow>
      res_bind (alloc1 (ir_op1 (a_ir a (ir_op1 (a_ir a ref)))) kGPR a') (\<lambda>(basereg, a').
        Inr ((), a_emit (load_u64 dst basereg (of_nat (8 * ir_op2 (a_ir a (ir_op1 (a_ir a ref)))))) a')))"
    unfolding prod.case by (intro ok_grows_then ok_grows_trans [OF b alloc1_grows] grows_then)
qed

lemma bitshift_const_grows: "irref_islit (ir_op2 (a_ir a ref)) \<Longrightarrow> ok_grows a (bitshift ref xs a)"
proof -
  have sc: "grows a (shift_const k xs dest b)" if "grows a b" for k dest b
    using that by (simp add: shift_const_def grows_then)
  assume "irref_islit (ir_op2 (a_ir a ref))"
  then show ?thesis
    unfolding bitshift_def Let_def
    by simp (intro ok_grows_assert ok_grows_value ok_grows_intros(3) [OF destReg_grows];
        simp add: ok_grows_trans [OF sc allocLeft_grows])
qed

lemma arith_rest_grows: "grows a b \<Longrightarrow> ok_grows a (arith_rest xa lref rref dest right k b)"
  unfolding arith_rest_def
  by (intro ok_grows_intros(4) ok_grows_assert ok_grows_then ok_grows_trans [OF _ allocLeft_grows]
      ok_grows_trans [OF _ alloc1_grows] grows_then)


lemma intArith_grows: "ok_grows a (intArith ref xa a)"
  unfolding intArith_alt [OF refl refl] Let_def
  by (rule ok_grows_intros(3) [OF destReg_grows], unfold prod.case, rule ok_grows_value,
      rule ok_grows_intros(3))
    (auto intro!: ok_grows_intros arith_rest_grows ok_grows_trans [OF _ fuseLoad_grows])

section \<open>Snapshots\<close>

lemma snapshotAlloc1_grows: "ok_grows a (snapshotAlloc1 ref a)"
  unfolding snapshotAlloc1_def
  by (intro ok_grows_intros(4) ok_grows_intros(2) ok_grows_then allocRef_grows spill_ok_grows grows_refl)

lemma snapshotAlloc_loop_grows: "ok_grows a (snapshotAlloc_loop snapmap ses a)"
proof (induction ses arbitrary: a)
  case (Cons se ses)
  show ?case unfolding snapshotAlloc_loop.simps
    by (rule ok_grows_value, rule ok_grows_intros(3),
        intro ok_grows_intros(4) snapshotAlloc1_grows ok_grows_intros(2) grows_refl)
      (simp add: ok_grows_trans [OF _ Cons.IH])
qed (simp add: ok_grows_intros)

lemma same_trace_mcode [simp]: "same_trace a (a_setSnapMcode n p a)"
proof -
  define f where "f = (\<lambda>sn :: snapshot. sn\<lparr>sn_mcode := 0\<rparr>)"
  have "map f (xs[n := (xs ! n)\<lparr>sn_mcode := p\<rparr>]) = map f xs" for xs
    by (cases "n < length xs") (auto intro!: nth_equalityI simp: nth_list_update f_def)
  moreover have "ib_literalValue (b\<lparr>ib_snaps := t\<rparr>) = ib_literalValue b" for b t
    by (simp add: fun_eq_iff ib_literalValue_def ib_ir_def cong: if_cong)
  ultimately show ?thesis
    by (simp add: same_trace_def prog_of_def a_setSnapMcode_def a_ir_def f_def)
qed

lemma setSnapMcode_fields [simp]:
  "a_ir (a_setSnapMcode n p a) = a_ir a" "a_mc (a_setSnapMcode n p a) = a_mc a"
  "a_freeset (a_setSnapMcode n p a) = a_freeset a" "a_cost (a_setSnapMcode n p a) = a_cost a"
  "a_spills (a_setSnapMcode n p a) = a_spills a" "a_mrm (a_setSnapMcode n p a) = a_mrm a"
  "a_snapno (a_setSnapMcode n p a) = a_snapno a" "a_curins (a_setSnapMcode n p a) = a_curins a"
  by (simp_all add: a_setSnapMcode_def a_ir_def fun_eq_iff)


section \<open>Guards\<close>

text \<open>
  \<open>guard_code\<close>: the code from \<open>a\<close> to \<open>a'\<close> goes on when \<open>stay\<close> holds and leaves for \<open>t\<close> otherwise, in
  a state that agrees with \<open>x\<close>, the tables at the jump.
\<close>

definition guard_code ::
    "(nat \<Rightarrow> u8) \<Rightarrow> kctx \<Rightarrow> nat \<Rightarrow> bool \<Rightarrow> u8 \<Rightarrow> assembler \<Rightarrow> assembler \<Rightarrow> assembler \<Rightarrow> bool" where
  "guard_code v K lim stay t x a a' \<longleftrightarrow>
     (\<forall>s. agree v K lim a' s \<longrightarrow>
        (if stay
         then \<exists>s'. agree v K lim a s' \<and> x_mem s' = x_mem s \<and>
                xrun (a_mcend a) (a_mc a') s = xrun (a_mcend a) (a_mc a) s'
         else \<exists>s'. agree v K lim x s' \<and> x_mem s' = x_mem s \<and>
                xrun (a_mcend a) (a_mc a') s = Some (Left_for t s')))"

lemma decode_gmrmi:
  assumes "op \<in> {0, 1, 4, 5, 6, 7}" and d: "d < 16"
  shows "decode (emit_gmrmi m (XG_ARITHi (of_nat op)) (of_nat d OR REX_64) i c) =
    Some (XAluI op True (Rm_reg d) (scast i), c)"
proof -
  have rb: "(of_nat d OR REX_64) AND REX_64 = REX_64" "(of_nat d OR REX_64) AND NOT REX_64 = (of_nat d :: u4)"
    by (rule rex_and [OF d])+
  have op: "op < 16" "op mod 8 = op" using assms(1) by auto
  have e: "emit_gmrmi m (XG_ARITHi (of_nat op)) (of_nat d OR REX_64) i c =
      (if checki8 (sint i)
       then emit_rr (XG_TOXOi8 (XG_ARITHi (of_nat op))) (of_nat op OR REX_64) (of_nat d) (ucast i # c)
       else emit_rr (XG_TOXOi (XG_ARITHi (of_nat op))) (of_nat op OR REX_64) (of_nat d) (le_bytes 4 i @ c))"
    unfolding emit_gmrmi_def rb xg_arith(3) [OF assms(1)]
    by (simp add: emit_mrm_reg [OF small_not_mrm [OF d]] emit_i8_def emit_i32_def)
  show ?thesis
  proof (cases "checki8 (sint i)")
    case True
    have "emits_operand (XG_TOXOi8 (XG_ARITHi (of_nat op))) True [0x83] op (Rm_reg d) (ucast i # c)
        (emit_rr (XG_TOXOi8 (XG_ARITHi (of_nat op))) (of_nat op OR REX_64) (of_nat d) (ucast i # c))"
      using emits_rr [OF xg_arith(1) [OF assms(1)] reg_operandI(2) [OF op(1)], of "of_nat d" "ucast i # c"] d op
      by simp
    then show ?thesis using True op by (simp add: e scast_i8 operand_imm8)
  next
    case False
    have "emits_operand (XG_TOXOi (XG_ARITHi (of_nat op))) True [0x81] op (Rm_reg d) (le_bytes 4 i @ c)
        (emit_rr (XG_TOXOi (XG_ARITHi (of_nat op))) (of_nat op OR REX_64) (of_nat d) (le_bytes 4 i @ c))"
      using emits_rr [OF xg_arith(2) [OF assms(1)] reg_operandI(2) [OF op(1)], of "of_nat d" "le_bytes 4 i @ c"] d op
      by simp
    then show ?thesis using False op by (simp add: e operand_imm32)
  qed
qed

lemma jmprel_target: "jmprel p t = Inr d \<Longrightarrow> p + scast d = t"
  by (auto simp: jmprel_def Let_def checki32_def split: if_splits) (metis add_diff_cancel_left' diff_add_cancel add.commute)

text \<open>The jump of a guard: \<open>cc\<close> is the condition to leave.\<close>

definition jcc_code :: "nat \<Rightarrow> u4 \<Rightarrow> u1 list \<Rightarrow> u1 list" where
  "jcc_code cc d c = [0x0f, XI_JCCn + of_nat (cc mod 16)] @ emit_i32 d c"

lemma run_jcc:
  assumes "cc < 16" and "jmprel (e - of_nat (length c)) t = Inr d" and "x_flags s = Some f" and "x_cond cc f = Some leave"
  shows "xrun e (jcc_code cc d c) s = (if leave then Some (Left_for t s) else xrun e c s)"
proof -
  have c: "jcc_code cc d c = 0x0f # (XI_JCCn + of_nat cc) # le_bytes 4 d @ c"
    using assms(1) by (simp add: jcc_code_def emit_i32_def)
  show ?thesis
    unfolding c xrun_step [OF decode_jcc [OF assms(1)]]
    using assms(3,4) jmprel_target [OF assms(2)] by simp
qed

lemma exitstubAddr_same: "same_trace a b \<Longrightarrow> exitstubAddr n b = exitstubAddr n a"
  by (simp only: exitstubAddr_def exitStubGroup_at_def same_traceD(4))

lemma guardcc_cases:
  assumes t: "exitstubAddr (a_snapno a) a = Inr t" and n: "a_snapno a < length (ib_snaps (a_buf a))"
  shows "guardcc cc a = Inl AssertFailed \<and> jmprel (a_mcp a) t = Inl AssertFailed \<or>
    (\<exists>d p. jmprel (a_mcp a) t = Inr d \<and>
       guardcc cc a = Inr ((), a_setSnapMcode (a_snapno a) p (a_emit (jcc_code cc d) a)))"
proof (cases "jmprel (a_mcp a) t")
  case (Inl e)
  then show ?thesis using t n by (auto simp: guardcc_def a_snap_def a_emitRel_def lc_assert_def jmprel_def Let_def split: if_splits)
next
  case (Inr d)
  have "a_snapno (a_emit f a) = a_snapno a" for f by (simp add: a_emit_def)
  then show ?thesis using t n Inr
    by (auto simp: guardcc_def a_snap_def a_emitRel_def lc_assert_def jcc_code_def [abs_def] Let_def)
qed


text \<open>The flags of a subtraction decide the signed order.\<close>

lemma flags_sub_less: "f_sign (flags_sub x y) \<noteq> f_overflow (flags_sub x y) \<longleftrightarrow> sint x < sint y"
proof -
  have b: "- 9223372036854775808 \<le> sint w" "sint w < 9223372036854775808" for w :: u8
    using sint_greater_eq [of w] sint_less [of w] by simp_all
  have sg: "bit (x - y) 63 \<longleftrightarrow> sint (x - y) < 0"
    using bit_last_iff [of "x - y"] by simp
  have m: "sint (x - y) mod 18446744073709551616 = (sint x - sint y) mod 18446744073709551616"
  proof -
    have "(word_of_int (sint (x - y)) :: u8) = word_of_int (sint x - sint y)" by (simp add: of_int_diff)
    then show ?thesis unfolding word_of_int_eq_iff take_bit_eq_mod by simp
  qed
  then obtain k where k: "sint (x - y) = sint x - sint y + k * 18446744073709551616"
    by (metis mod_eqE mult.commute)
  have "k < 2" "- 2 < k" using k b [of x] b [of y] b [of "x - y"] by linarith+
  then have "k = 0 \<or> k = 1 \<or> k = - 1" by linarith
  then show ?thesis
    using k b [of x] b [of y] b [of "x - y"] sg by (auto simp: flags_sub_def)
qed

definition guard_holds :: "irop \<Rightarrow> u8 \<Rightarrow> u8 \<Rightarrow> bool" where
  "guard_holds op x y =
     (if op = kLT then sint x < sint y
      else if op = kGE then sint x \<ge> sint y
      else if op = kLE then sint x \<le> sint y
      else if op = kGT then sint x > sint y
      else if op = kEQ then x = y
      else if op = kNE then x \<noteq> y
      else if op = kLTU then x < y
      else if op = kGEU then x \<ge> y
      else if op = kLEU then x \<le> y
      else x > y)"

definition compare_ops :: "irop list" where
  "compare_ops = [kLT, kGE, kLE, kGT, kEQ, kNE, kLTU, kGEU, kLEU, kGTU]"

definition leave_cc :: "irop \<Rightarrow> nat" where
  "leave_cc op =
     (if op \<in> {kLTU, kGEU, kLEU, kGTU} then snd (asm_compmap ! (irop_num op - irop_num kLTU))
      else fst (asm_compmap ! (irop_num op - irop_num kLT)))"

lemma leave_cc_val:
  "map leave_cc compare_ops = [13, 12, 15, 14, 5, 4, 3, 2, 7, 6]"
  by code_simp

lemma leave_cc_cond:
  assumes "op \<in> set compare_ops"
  shows "x_cond (leave_cc op) (flags_sub x y) = Some (\<not> guard_holds op x y)" and "leave_cc op < 16"
proof -
  have v: "leave_cc kLT = 13" "leave_cc kGE = 12" "leave_cc kLE = 15" "leave_cc kGT = 14" "leave_cc kEQ = 5"
    "leave_cc kNE = 4" "leave_cc kLTU = 3" "leave_cc kGEU = 2" "leave_cc kLEU = 7" "leave_cc kGTU = 6"
    using leave_cc_val by (simp_all add: compare_ops_def)
  note l = flags_sub_less [of x y]
  have z: "f_zero (flags_sub x y) \<longleftrightarrow> x = y" "f_carry (flags_sub x y) \<longleftrightarrow> x < y" by (simp_all add: flags_sub_def)
  have sl: "sint x < sint y \<Longrightarrow> x \<noteq> y" "sint x = sint y \<longleftrightarrow> x = y" by (auto simp: signed_word_eqI)
  show "x_cond (leave_cc op) (flags_sub x y) = Some (\<not> guard_holds op x y)"
  proof -
    have le: "sint x \<le> sint y \<longleftrightarrow> x = y \<or> sint x < sint y" "x \<le> y \<longleftrightarrow> x = y \<or> x < y"
      using sl by (auto simp: le_less)
    have l': "f_sign (flags_sub x y) = f_overflow (flags_sub x y) \<longleftrightarrow> sint y \<le> sint x"
        "f_sign (flags_sub x y) = (\<not> f_overflow (flags_sub x y)) \<longleftrightarrow> sint x < sint y"
      using l by auto
    have "op = kLT \<or> op = kGE \<or> op = kLE \<or> op = kGT \<or> op = kEQ \<or> op = kNE \<or> op = kLTU \<or> op = kGEU \<or>
        op = kLEU \<or> op = kGTU"
      using assms by (simp add: compare_ops_def)
    then show ?thesis
      by (elim disjE; hypsubst; simp add: v x_cond_def guard_holds_def l' z; use sl in \<open>auto simp: le\<close>)
  qed
  show "leave_cc op < 16" using assms by (auto simp: compare_ops_def v)
qed


lemma ra_live_mcode [simp]: "ra_live lim (a_setSnapMcode n p a) = ra_live lim a"
  by (rule same_traceD [OF same_trace_mcode])

lemma agree_mcode [simp]: "agree v K lim (a_setSnapMcode n p a) s = agree v K lim a s"
  by (simp add: agree_def)

lemma ra_ok_mcode [simp]: "ra_ok lim (a_setSnapMcode n p a) = ra_ok lim a"
  by (simp add: ra_ok_def regs_ok_def lits_alloc_ok_def slots_ok_def same_traceD [OF same_trace_mcode])

lemma keeps_mcode [simp]: "keeps lim R a (a_setSnapMcode n p b) = keeps lim R a b"
  by (simp add: keeps_def)

lemma grows_mcode: "grows a b \<Longrightarrow> grows a (a_setSnapMcode n p b)"
  by (rule grows_trans, assumption, rule growsI) simp_all

lemma alloc1_operand:
  assumes ok: "ra_ok lim a" and lits: "lits_ok v K (a_buf a)" and al: "allocatable lim a ref"
  shows "alloc1 ref kGPR a = Inl (Exit 1) \<or>
    (\<exists>r a'. alloc1 ref kGPR a = Inr (r, a') \<and> bit kGPR r \<and> ra_ok lim a' \<and> same_ir a a' \<and>
       alloc_code v K lim kGPR a a' \<and> (\<forall>s. agree v K lim a' s \<longrightarrow> x_reg s r = v ref) \<and> keeps lim {ref} a a')"
proof (cases "isReg (reg_of a ref)")
  case True
  have lv: "ra_live lim a ref" using al by (simp add: allocatable_def)
  then show ?thesis
    using True ok regs_okD(2) [OF ra_okD(3) [OF ok] lv True] agreeD(2) by (auto simp: alloc1_def isNoReg_iff)
next
  case False
  have e: "alloc1 ref kGPR a = allocRef ref kGPR a" using False by (simp add: alloc1_def isNoReg_iff)
  from allocRef_ok [OF ok lits gpr_set_simps(1) kGPR_nonempty al False] show ?thesis unfolding e by metis
qed

text \<open>A comparison that leaves on the negated condition.\<close>

lemma run_compare:
  assumes op: "op \<in> set compare_ops" and r: "r < 16" and t: "jmprel (e - of_nat (length c)) t = Inr d"
  shows "\<exists>fl. xrun e (emit_gmrmi m (XG_ARITHi XOg_CMP) (of_nat r OR REX_64) k (jcc_code (leave_cc op) d c)) s =
    (if guard_holds op (x_reg s r) (scast k) then xrun e c (s\<lparr>x_flags := fl\<rparr>) else Some (Left_for t (s\<lparr>x_flags := fl\<rparr>)))"
proof -
  have cmp: "XOg_CMP = of_nat 7" "(7::nat) \<in> {0, 1, 4, 5, 6, 7}" by (simp_all add: xog_defs)
  let ?f = "flags_sub (x_reg s r) (scast k)"
  have "xrun e (emit_gmrmi m (XG_ARITHi XOg_CMP) (of_nat r OR REX_64) k (jcc_code (leave_cc op) d c)) s =
      xrun e (jcc_code (leave_cc op) d c) (s\<lparr>x_flags := Some ?f\<rparr>)"
    unfolding cmp(1) xrun_step [OF decode_gmrmi [OF cmp(2) r]]
    by (simp add: x_alu_def x_alu_to_def x_trunc_def)
  also have "\<dots> = (if \<not> guard_holds op (x_reg s r) (scast k) then Some (Left_for t (s\<lparr>x_flags := Some ?f\<rparr>))
      else xrun e c (s\<lparr>x_flags := Some ?f\<rparr>))"
    by (rule run_jcc [OF leave_cc_cond(2) [OF op] t _ leave_cc_cond(1) [OF op]]) simp
  finally show ?thesis by (intro exI [of _ "Some ?f"]) simp
qed

lemma compare_ok:
  assumes ok: "ra_ok lim a" and lits: "lits_ok v K (a_buf a)" and op: "op \<in> set compare_ops"
    and l: "lref = ir_op1 (a_ir a ref)" "allocatable lim a lref"
    and r: "rref = ir_op2 (a_ir a ref)" "is32BitLiteral rref a = Inr (Some k)" "v rref = scast k"
    and t: "exitstubAddr (a_snapno a) a = Inr t" and n: "a_snapno a < length (ib_snaps (a_buf a))"
  shows "compare ref (leave_cc op) a = Inl (Exit 1) \<or>
    (compare ref (leave_cc op) a = Inl AssertFailed \<and> (\<exists>p. jmprel p t = Inl AssertFailed)) \<or>
    (\<exists>x a'. compare ref (leave_cc op) a = Inr ((), a') \<and> ra_ok lim a' \<and> grows a x \<and> grows x a' \<and>
      guard_code v K lim (guard_holds op (v lref) (v rref)) t x a a' \<and> keeps lim {lref} a a' \<and>
      a_snapno a' = a_snapno a \<and> a_curins a' = a_curins a)"
proof -
  have c: "compare ref (leave_cc op) a = res_bind (alloc1 lref kGPR a) (\<lambda>(left, a).
         res_bind (is32BitLiteral rref a) (\<lambda>imm.
           case imm of
             Some imm \<Rightarrow>
               res_bind (guardcc (leave_cc op) a) (\<lambda>(_, a).
                 Inr ((), a_emit (emit_gmrmi (a_mrm a) (XG_ARITHi XOg_CMP) (of_nat left OR REX_64) imm) a))
           | None \<Rightarrow>
               res_bind (alloc1 rref kGPR a) (\<lambda>(right, a).
               res_bind (guardcc (leave_cc op) a) (\<lambda>(_, a).
                 Inr ((), a_emit (emit_mrm (a_mrm a) XO_CMP (of_nat left OR REX_64)
                                    (of_nat right OR REX_64)) a)))))"
    unfolding compare_def Let_def l(1) r(1) ..
  from alloc1_operand [OF ok lits l(2)] show ?thesis
  proof (elim disjE exE conjE, goal_cases)
    case 1 then show ?case by (simp add: c)
  next
    case (2 left x)
    have gx: "grows a x" using alloc1_grows [of a lref kGPR] 2(1) by (simp add: ok_grows_def)
    note st = same_traceD [OF same_ir_trace [OF 2(4)]]
    have sx: "a_snapno x = a_snapno a" "a_curins x = a_curins a" using 2(4) by (simp_all add: same_ir_def)
    have tx: "exitstubAddr (a_snapno x) x = Inr t" using t exitstubAddr_same [OF same_ir_trace [OF 2(4)]] by (simp add: sx)
    have nx: "a_snapno x < length (ib_snaps (a_buf x))" using n by (simp add: st sx)
    have kx: "is32BitLiteral rref x = Inr (Some k)" using r(2) unfolding is32BitLiteral_def st .
    have l16: "left < 16" using gpr_less [OF 2(2)] .
    from guardcc_cases [OF tx nx, of "leave_cc op"] show ?case
    proof (elim disjE exE conjE)
      assume "guardcc (leave_cc op) x = Inl AssertFailed" "jmprel (a_mcp x) t = Inl AssertFailed"
      then show ?thesis using 2(1) kx by (auto simp: c)
    next
      fix d p assume d: "jmprel (a_mcp x) t = Inr d"
        and g: "guardcc (leave_cc op) x = Inr ((), a_setSnapMcode (a_snapno x) p (a_emit (jcc_code (leave_cc op) d) x))"
      define b where "b = a_setSnapMcode (a_snapno x) p (a_emit (jcc_code (leave_cc op) d) x)"
      define a' where "a' = a_emit (emit_gmrmi (a_mrm b) (XG_ARITHi XOg_CMP) (of_nat left OR REX_64) k) b"
      have run: "compare ref (leave_cc op) a = Inr ((), a')" using 2(1) kx g by (simp add: c b_def a'_def)
      have ag: "agree v K lim a' = agree v K lim x" by (simp add: fun_eq_iff a'_def b_def)
      have mc: "a_mc a' = emit_gmrmi (a_mrm b) (XG_ARITHi XOg_CMP) (of_nat left OR REX_64) k
          (jcc_code (leave_cc op) d (a_mc x))" by (simp add: a'_def b_def)
      have d': "jmprel (a_mcend a - of_nat (length (a_mc x))) t = Inr d" using d by (simp add: a_mcp_def st)
      have "guard_code v K lim (guard_holds op (v lref) (v rref)) t x a a'"
        unfolding guard_code_def ag
      proof (intro allI impI)
        fix s assume s: "agree v K lim x s"
        then have vl: "x_reg s left = v lref" using 2(6) by blast
        from run_compare [OF op l16 d', of "a_mrm b" k s] obtain fl where
          fl: "xrun (a_mcend a) (a_mc a') s = (if guard_holds op (v lref) (v rref)
             then xrun (a_mcend a) (a_mc x) (s\<lparr>x_flags := fl\<rparr>) else Some (Left_for t (s\<lparr>x_flags := fl\<rparr>)))"
          unfolding mc vl r(3) by blast
        have s': "agree v K lim x (s\<lparr>x_flags := fl\<rparr>)" using s by simp
        with 2(5) obtain s2 where "agree v K lim a s2" "x_mem s2 = x_mem s"
            "xrun (a_mcend a) (a_mc x) (s\<lparr>x_flags := fl\<rparr>) = xrun (a_mcend a) (a_mc a) s2"
          unfolding alloc_code_def by fastforce
        then show "if guard_holds op (v lref) (v rref)
         then \<exists>s'. agree v K lim a s' \<and> x_mem s' = x_mem s \<and>
                xrun (a_mcend a) (a_mc a') s = xrun (a_mcend a) (a_mc a) s'
         else \<exists>s'. agree v K lim x s' \<and> x_mem s' = x_mem s \<and>
                xrun (a_mcend a) (a_mc a') s = Some (Left_for t s')"
          using fl s' by auto
      qed
      moreover have "ra_ok lim a'" "keeps lim {lref} a a'" using 2(3,7) by (simp_all add: a'_def b_def)
      moreover have "grows x a'" unfolding a'_def b_def by (intro grows_then grows_mcode grows_refl)
      moreover have "a_snapno a' = a_snapno a" "a_curins a' = a_curins a"
        using sx by (simp_all add: a'_def b_def a_emit_def)
      ultimately show ?thesis using run gx by blast
    qed
  qed
qed

end
