(* ===== verification/TraceCode.thy ===== *)
theory TraceCode
  imports Guards
begin

text \<open>
  The code of a whole trace.  \<^verbatim>\<open>Assembler::assemble\<close> goes backwards over the instructions; the theories
  before show what each of them adds to the code.  Here \<open>value_ok\<close> and \<open>guard_ok\<close> say what a trace means: a value
  \<open>v\<close> for each reference, the one its operands give it, and for each guard a snapshot and an exit stub.  The loop
  keeps \<open>loop_inv\<close>: the code emitted so far, entered with the values below the current instruction in
  their registers and slots, runs the rest of the trace.  A failing guard leaves through its own stub with every
  entry of its snapshot where \<^verbatim>\<open>Fragment::restoreSnapshot\<close> looks for it, and that is where the final
  tables say it is, although the stub's guard was compiled before most of those tables were made.
\<close>


section \<open>Allocation for a snapshot\<close>

definition table_code :: "(nat \<Rightarrow> u8) \<Rightarrow> kctx \<Rightarrow> nat \<Rightarrow> assembler \<Rightarrow> assembler \<Rightarrow> bool" where
  "table_code v K lim a a' \<longleftrightarrow>
     (\<forall>s. agree v K lim a' s \<longrightarrow>
        (\<exists>s'. agree v K lim a s' \<and> x_mem s' = x_mem s \<and>
           xrun (a_mcend a) (a_mc a') s = xrun (a_mcend a) (a_mc a) s'))"

lemma table_code_refl [simp]: "table_code v K lim a a"
  unfolding table_code_def by blast

lemma table_code_trans:
  assumes "table_code v K lim a b" and "table_code v K lim b c" and "a_mcend b = a_mcend a"
  shows "table_code v K lim a c"
  using assms unfolding table_code_def by metis

lemma alloc_table: "alloc_code v K lim allow a b \<Longrightarrow> table_code v K lim a b"
  unfolding alloc_code_def table_code_def by metis

lemma grows_located:
  assumes "grows a b" and "ss_wf (a_spills a)" and "REF_BIAS \<le> x" and "ir_hasRegOrSpill (a_ir a x)"
  shows "ir_hasRegOrSpill (a_ir b x)"
  using assms unfolding grows_def ir_hasRegOrSpill_def by metis

lemma snapshotAlloc1_ok:
  assumes ok: "ra_ok lim a" and lits: "lits_ok v K (a_buf a)" and live: "ra_live lim a x" and ins: "REF_BIAS \<le> x"
  shows "snapshotAlloc1 x a = Inl (Exit 1) \<or>
    (\<exists>a'. snapshotAlloc1 x a = Inr ((), a') \<and> ra_ok lim a' \<and> same_ir a a' \<and> table_code v K lim a a' \<and>
      keeps lim {x} a a' \<and> ir_hasRegOrSpill (a_ir a' x))"
proof (cases "ir_hasRegOrSpill (a_ir a x)")
  case True
  then show ?thesis using ok by (simp add: snapshotAlloc1_def)
next
  case none: False
  then have nr: "\<not> isReg (reg_of a x)" by (simp add: ir_hasRegOrSpill_def)
  have al: "allocatable lim a x" using live ins by (simp add: allocatable_def)
  show ?thesis
  proof (cases "rs_isEmpty (rs_intersect (a_freeset a) kGPR)")
    case False
    then have e: "snapshotAlloc1 x a = res_bind (allocRef x kGPR a) (\<lambda>(_, a). Inr ((), a))"
      using none by (simp add: snapshotAlloc1_def)
    from allocRef_ok [OF ok lits gpr_set_simps(1) kGPR_nonempty al nr] show ?thesis
    proof (elim disjE exE conjE, goal_cases)
      case (2 r a')
      have "ir_hasRegOrSpill (a_ir a' x)"
        using 2(6) isReg_small [OF gpr_less [OF 2(2)]] by (simp add: ir_hasRegOrSpill_def)
      then show ?case using 2 alloc_table [OF 2(5)] by (simp add: e)
    qed (simp add: e)
  next
    case True
    then have e: "snapshotAlloc1 x a = res_bind (spill x a) (\<lambda>(_, a). Inr ((), a))"
      using none by (simp add: snapshotAlloc1_def)
    show ?thesis
    proof (cases "spill x a")
      case (Inl err)
      then show ?thesis using spill_fails [OF Inl] by (simp add: e)
    next
      case (Inr p)
      then obtain ofs a' where sp: "spill x a = Inr (ofs, a')" by (cases p) auto
      from spill_ok [OF ok live ins sp] have s: "ra_ok lim a'" "same_ir a a'" "a_mc a' = a_mc a"
          "slot_of a' x \<noteq> 0" "\<forall>y. reg_of a' y = reg_of a y" "\<forall>y. y \<noteq> x \<longrightarrow> slot_of a' y = slot_of a y"
          "slot_of a x \<noteq> 0 \<longrightarrow> slot_of a' x = slot_of a x" by blast+
      have irs: "y \<noteq> x \<Longrightarrow> a_ir a' y = a_ir a y" for y
        using sp by (auto simp: spill_def Let_def res_bind_Inr_iff a_ir_updIr split: if_splits) (simp add: a_ir_def)
      have ag: "agree v K lim a s" if s': "agree v K lim a' s" for s
        unfolding agree_def
      proof (intro conjI allI impI)
        fix y assume y: "ra_live lim a y"
        then have y': "ra_live lim a' y" by (simp add: same_ir_fields(8) [OF s(2)])
        show "x_reg s (reg_of a y) = v y" if "isReg (reg_of a y)" using agreeD(2) [OF s' y'] that s(5) by simp
        show "rd64 (x_mem s) (slot_addr K (slot_of a y)) = v y" if nz: "slot_of a y \<noteq> 0"
        proof -
          have "slot_of a' y = slot_of a y" using s(6,7) nz by (cases "y = x") auto
          then show ?thesis using agreeD(3) [OF s' y'] nz by simp
        qed
      qed (rule agreeD(1) [OF s'])
      have "table_code v K lim a a'" unfolding table_code_def using ag s(3) by auto
      moreover have "keeps lim {x} a a'" using irs by (simp add: keeps_def)
      ultimately show ?thesis using s by (simp add: e sp ir_hasRegOrSpill_def)
    qed
  qed
qed

lemma snapshotAlloc_loop_ok:
  assumes "ra_ok lim a" and "lits_ok v K (a_buf a)"
    and "\<forall>se \<in> set ses. \<exists>x. sd_slotRef sm se = Inr x \<and> (REF_BIAS \<le> x \<longrightarrow> x \<in> R \<and> ra_live lim a x)"
  shows "snapshotAlloc_loop sm ses a = Inl (Exit 1) \<or>
    (\<exists>a'. snapshotAlloc_loop sm ses a = Inr ((), a') \<and> ra_ok lim a' \<and> same_ir a a' \<and> table_code v K lim a a' \<and>
      keeps lim R a a' \<and>
      (\<forall>se \<in> set ses. \<forall>x. sd_slotRef sm se = Inr x \<and> REF_BIAS \<le> x \<longrightarrow> ir_hasRegOrSpill (a_ir a' x)))"
  using assms
proof (induction ses arbitrary: a)
  case Nil then show ?case by simp
next
  case (Cons se ses)
  from Cons.prems(3) obtain x where x: "sd_slotRef sm se = Inr x" "REF_BIAS \<le> x \<longrightarrow> x \<in> R \<and> ra_live lim a x"
    by auto
  define m where "m = (if \<not> irref_islit x then snapshotAlloc1 x a else Inr ((), a))"
  have e: "snapshotAlloc_loop sm (se # ses) a = res_bind m (\<lambda>(_, a). snapshotAlloc_loop sm ses a)"
    by (simp add: x(1) m_def)
  have "m = Inl (Exit 1) \<or> (\<exists>b. m = Inr ((), b) \<and> ra_ok lim b \<and> same_ir a b \<and> table_code v K lim a b \<and>
      keeps lim R a b \<and> (REF_BIAS \<le> x \<longrightarrow> ir_hasRegOrSpill (a_ir b x)))"
  proof (cases "REF_BIAS \<le> x")
    case True
    then show ?thesis
      using snapshotAlloc1_ok [OF Cons.prems(1,2) _ True] x(2) keeps_mono [of lim "{x}" a _ R]
      by (auto simp: m_def irref_islit_def)
  next
    case False
    then show ?thesis using Cons.prems(1) by (simp add: m_def irref_islit_def)
  qed
  then show ?case
  proof (elim disjE exE conjE)
    assume "m = Inl (Exit 1)" then show ?thesis unfolding e by simp
  next
    fix b assume b: "m = Inr ((), b)" "ra_ok lim b" "same_ir a b" "table_code v K lim a b" "keeps lim R a b"
      "REF_BIAS \<le> x \<longrightarrow> ir_hasRegOrSpill (a_ir b x)"
    have "\<forall>se \<in> set ses. \<exists>x. sd_slotRef sm se = Inr x \<and> (REF_BIAS \<le> x \<longrightarrow> x \<in> R \<and> ra_live lim b x)"
      using Cons.prems(3) same_ir_fields(8) [OF b(3)] by simp
    moreover have "lits_ok v K (a_buf b)" using Cons.prems(2) by (simp add: same_ir_lits_ok [OF b(3)])
    ultimately have "snapshotAlloc_loop sm ses b = Inl (Exit 1) \<or>
      (\<exists>c. snapshotAlloc_loop sm ses b = Inr ((), c) \<and> ra_ok lim c \<and> same_ir b c \<and> table_code v K lim b c \<and>
        keeps lim R b c \<and>
        (\<forall>se \<in> set ses. \<forall>x. sd_slotRef sm se = Inr x \<and> REF_BIAS \<le> x \<longrightarrow> ir_hasRegOrSpill (a_ir c x)))"
      by (intro Cons.IH b(2))
    then show ?thesis unfolding e
    proof (elim disjE exE conjE, goal_cases)
      case 1 then show ?case by (simp add: b(1))
    next
      case (2 c)
      have "grows b c" using snapshotAlloc_loop_grows [of b sm ses] 2(1) by (simp add: ok_grows_def)
      moreover have "ss_wf (a_spills b)" using ra_okD(5) [OF b(2)] by (simp add: slots_ok_def)
      ultimately have "REF_BIAS \<le> x \<longrightarrow> ir_hasRegOrSpill (a_ir c x)" using b(6) grows_located by blast
      then show ?case
        using 2 x(1) same_ir_trans [OF b(3) 2(3)] table_code_trans [OF b(4) 2(4) same_ir_mcend [OF b(3)]]
          keeps_trans [OF b(5) 2(5) b(3)]
        by (auto simp: b(1))
    qed
  qed
qed


section \<open>The meaning of a trace\<close>

text \<open>References that the trace may use as operands: literals and instructions with a value.\<close>

definition has_value :: "assembler \<Rightarrow> nat \<Rightarrow> bool" where
  "has_value a x \<longleftrightarrow> x \<noteq> REF_BASE \<and> \<not> ir_isGuard (a_ir a x) \<and> ir_o (a_ir a x) \<noteq> kFREF"

definition opnd :: "assembler \<Rightarrow> nat \<Rightarrow> nat \<Rightarrow> bool" where
  "opnd a ref x \<longleftrightarrow> allocatable ref a x \<and> (x < REF_BIAS \<or> has_value a x)"

definition shift_val :: "irop \<Rightarrow> u8 \<Rightarrow> u8 \<Rightarrow> u8" where
  "shift_val op x y =
     (let n = unat (y AND 63)
      in if op = kBSHL then push_bit n x else if op = kBSHR then drop_bit n x else signed_drop_bit n x)"

definition field_word :: "(nat \<Rightarrow> u8) \<Rightarrow> ir \<Rightarrow> u8" where
  "field_word v fref = v (ir_op1 fref) + of_nat (8 * ir_op2 fref)"

text \<open>The value \<open>v\<close> gives an instruction is the one its operands determine.\<close>

definition value_ok :: "(nat \<Rightarrow> u8) \<Rightarrow> kctx \<Rightarrow> assembler \<Rightarrow> nat \<Rightarrow> bool" where
  "value_ok v K a ref \<longleftrightarrow>
     (let i = a_ir a ref; op = ir_o i; x = ir_op1 i; y = ir_op2 i
      in if op = kFREF then True
         else if op = kSLOAD
         then let p = stack_word K (sint (of_nat x :: u2))
              in word_outside K p \<and> v ref = rd64 (kc_mem K) p
         else if op = kFLOAD
         then let p = field_word v (a_ir a x)
              in x \<noteq> 0 \<and> ir_o (a_ir a x) = kFREF \<and> ir_op2 (a_ir a x) < 65536 \<and>
                 opnd a ref (ir_op1 (a_ir a x)) \<and> word_outside K p \<and> v ref = rd64 (kc_mem K) p
         else if op \<in> {kBSHL, kBSHR, kBSAR}
         then opnd a ref x \<and> opnd a ref y \<and> irref_islit y \<and> ir_o (a_ir a y) \<noteq> kKBASEO \<and>
              v ref = shift_val op (v x) (v y)
         else if unary_op op
         then isIntegerType (ir_type i) \<and> opnd a ref x \<and> arith_val op (v x) (v y) = Some (v ref)
         else opnd a ref x \<and> opnd a ref y \<and> arith_val op (v x) (v y) = Some (v ref))"

lemma arith_emit:
  assumes "arith_val op x y = Some z" and "\<not> unary_op op"
  obtains xa where "arith_code xa x y z"
    and "\<And>ref a. ir_o (a_ir a ref) = op \<Longrightarrow> emit ref a = intArith ref xa a"
proof -
  note d = arith_code_def x_alu_def xog_defs
  have "op = kADD \<or> op = kSUB \<or> op = kMUL \<or> op = kBAND \<or> op = kBOR \<or> op = kBXOR"
    using assms by (auto simp: arith_val_def unary_op_def split: if_splits)
  then show thesis
  proof (elim disjE)
    assume o: "op = kADD"
    show thesis by (rule that [of XOg_ADD])
      (use assms(1) o in \<open>auto simp: d arith_val_def emit_def Let_def intro: exI [of _ "0::nat"]\<close>)
  next
    assume o: "op = kSUB"
    show thesis by (rule that [of XOg_SUB])
      (use assms(1) o in \<open>auto simp: d arith_val_def emit_def Let_def intro: exI [of _ "5::nat"]\<close>)
  next
    assume o: "op = kMUL"
    show thesis by (rule that [of XOg_X_IMUL])
      (use assms(1) o in \<open>auto simp: d arith_val_def emit_def Let_def\<close>)
  next
    assume o: "op = kBAND"
    show thesis by (rule that [of XOg_AND])
      (use assms(1) o in \<open>auto simp: d arith_val_def emit_def Let_def intro: exI [of _ "4::nat"]\<close>)
  next
    assume o: "op = kBOR"
    show thesis by (rule that [of XOg_OR])
      (use assms(1) o in \<open>auto simp: d arith_val_def emit_def Let_def intro: exI [of _ "1::nat"]\<close>)
  next
    assume o: "op = kBXOR"
    show thesis by (rule that [of XOg_XOR])
      (use assms(1) o in \<open>auto simp: d arith_val_def emit_def Let_def intro: exI [of _ "6::nat"]\<close>)
  qed
qed


definition operands :: "assembler \<Rightarrow> nat \<Rightarrow> nat set \<Rightarrow> bool" where
  "operands a ref R \<longleftrightarrow> (\<forall>x \<in> R. x < ref \<and> (x < REF_BIAS \<or> has_value a x))"

lemma opnd_operands: "opnd a ref x \<Longrightarrow> allocatable ref a x \<and> x < ref \<and> (x < REF_BIAS \<or> has_value a x)"
  by (auto simp: opnd_def allocatable_less)

lemma emit_value_ok:
  assumes gen: "gen_ok v K ref a" and val: "value_ok v K a ref" and op: "ir_o (a_ir a ref) \<noteq> kFREF"
  shows "\<exists>R. operands a ref R \<and> ins_ok v K ref R a (emit ref a) \<and> ok_grows a (emit ref a)"
proof -
  define i where "i = a_ir a ref"
  consider (sload) "ir_o i = kSLOAD" | (fload) "ir_o i = kFLOAD" | (shift) "ir_o i \<in> {kBSHL, kBSHR, kBSAR}"
    | (unary) "unary_op (ir_o i)"
    | (arith) "\<not> unary_op (ir_o i)" "opnd a ref (ir_op1 i)" "opnd a ref (ir_op2 i)"
        "arith_val (ir_o i) (v (ir_op1 i)) (v (ir_op2 i)) = Some (v ref)"
    using val op by (auto simp: value_ok_def Let_def i_def split: if_splits)
  then show ?thesis
  proof cases
    case sload
    then have "ins_ok v K ref {} a (emitSLOAD ref a)"
      using val by (intro emitSLOAD_ok [OF gen refl]) (simp_all add: value_ok_def i_def Let_def)
    then show ?thesis using sload emitSLOAD_grows [of a ref]
      by (intro exI [of _ "{}"]) (simp add: emit_def i_def operands_def)
  next
    case fload
    define f where "f = a_ir a (ir_op1 i)"
    have w: "ir_op1 i \<noteq> 0" "ir_o f = kFREF" "ir_op2 f < 65536" "opnd a ref (ir_op1 f)"
        "word_outside K (field_word v f)" "v ref = rd64 (kc_mem K) (field_word v f)"
      using val fload by (simp_all add: value_ok_def i_def f_def Let_def)
    have "ins_ok v K ref {ir_op1 f} a (fieldLoad ref a)"
      by (rule fieldLoad_ok [OF gen refl]) (use w opnd_operands [OF w(4)] in \<open>simp_all add: f_def i_def field_word_def\<close>)
    then show ?thesis using fload fieldLoad_grows [of a ref] opnd_operands [OF w(4)]
      by (intro exI [of _ "{ir_op1 f}"]) (simp add: emit_def i_def operands_def)
  next
    case shift
    define n :: nat where "n = (if ir_o i = kBSHL then 4 else if ir_o i = kBSHR then 5 else 7)"
    have n: "n \<in> {4, 5, 7}" by (simp add: n_def)
    have w: "opnd a ref (ir_op1 i)" "opnd a ref (ir_op2 i)" "irref_islit (ir_op2 i)"
        "ir_o (a_ir a (ir_op2 i)) \<noteq> kKBASEO" "v ref = shift_val (ir_o i) (v (ir_op1 i)) (v (ir_op2 i))"
      using val shift by (auto simp: value_ok_def i_def Let_def)
    have lt: "unat (v (ir_op2 i) AND 63) < 64"
    proof -
      have "v (ir_op2 i) AND 63 \<le> 63" by (rule word_and_le1)
      then show ?thesis by (simp add: word_le_nat_alt)
    qed
    have "ins_ok v K ref {ir_op1 i} a (bitshift ref (of_nat n) a)"
      by (rule bitshift_const_ok [OF gen _ _ _ w(3,4) _ refl n])
        (use w shift opnd_operands lt in \<open>auto simp: i_def shift_val_def x_shift_def n_def Let_def\<close>)
    moreover have "emit ref a = bitshift ref (of_nat n) a"
      using shift by (auto simp: emit_def i_def n_def xog_defs)
    moreover have "ok_grows a (bitshift ref (of_nat n) a)"
      using bitshift_const_grows [of a ref] w(3) by (simp add: i_def)
    ultimately show ?thesis using opnd_operands [OF w(1)]
      by (intro exI [of _ "{ir_op1 i}"]) (simp add: operands_def)
  next
    case unary
    have w: "isIntegerType (ir_type i)" "opnd a ref (ir_op1 i)"
        "arith_val (ir_o i) (v (ir_op1 i)) (v (ir_op2 i)) = Some (v ref)"
      using val unary by (auto simp: value_ok_def i_def Let_def unary_op_def)
    define xg where "xg = (if ir_o i = kNEG then XOg_NEG else XOg_NOT)"
    have e: "emit ref a = intNegNot ref xg a"
      using unary w(1) by (auto simp: emit_def i_def xg_def unary_op_def lc_assert_def Let_def)
    have "ins_ok v K ref {ir_op1 i} a (intNegNot ref xg a)"
      unfolding i_def
      by (rule intNegNot_ok [OF gen])
        (use w unary opnd_operands in \<open>auto simp: i_def xg_def unary_op_def arith_val_def\<close>)
    then show ?thesis using intNegNot_grows [of a ref xg] opnd_operands [OF w(2)]
      by (intro exI [of _ "{ir_op1 i}"]) (simp add: operands_def e)
  next
    case arith
    obtain xa where xa: "arith_code xa (v (ir_op1 i)) (v (ir_op2 i)) (v ref)"
      and em: "\<And>ref' a'. ir_o (a_ir a' ref') = ir_o i \<Longrightarrow> emit ref' a' = intArith ref' xa a'"
      using arith_emit [OF arith(4,1)] by blast
    have e: "emit ref a = intArith ref xa a" by (rule em) (simp add: i_def)
    have "ins_ok v K ref {ir_op1 i, ir_op2 i} a (intArith ref xa a)"
      unfolding i_def by (rule intArith_ok [OF gen]) (use arith opnd_operands xa in \<open>auto simp: i_def\<close>)
    then show ?thesis using intArith_grows [of a ref xa] opnd_operands [OF arith(2)] opnd_operands [OF arith(3)]
      by (intro exI [of _ "{ir_op1 i, ir_op2 i}"]) (simp add: operands_def e)
  qed
qed


lemma value_same:
  assumes "same_trace a b"
  shows "has_value b x = has_value a x" "opnd b ref x = opnd a ref x" "value_ok v K b ref = value_ok v K a ref"
    "operands b ref R = operands a ref R" "ir_isGuard (a_ir b x) = ir_isGuard (a_ir a x)"
proof -
  note t = same_traceD [OF assms]
  show "ir_isGuard (a_ir b x) = ir_isGuard (a_ir a x)" for x by (simp add: ir_isGuard_def t)
  then show h: "has_value b x = has_value a x" for x by (simp add: has_value_def t)
  show o: "opnd b ref x = opnd a ref x" for x by (simp add: opnd_def h t)
  have "field_word v (a_ir b y) = field_word v (a_ir a y)" for y by (simp add: field_word_def t)
  moreover have "ir_type (a_ir b ref) = ir_type (a_ir a ref)" by (simp add: ir_type_def t)
  ultimately show "value_ok v K b ref = value_ok v K a ref"
    by (simp only: value_ok_def Let_def t o)
  show "operands b ref R = operands a ref R" by (simp add: operands_def h)
qed

text \<open>The snapshot of a guard: they are numbered along the trace.\<close>

definition guard_refs :: "assembler \<Rightarrow> nat \<Rightarrow> nat \<Rightarrow> nat list" where
  "guard_refs a k n = filter (\<lambda>r. ir_isGuard (a_ir a r)) [k..<n]"

definition snapno_of :: "nat \<Rightarrow> assembler \<Rightarrow> nat \<Rightarrow> nat" where
  "snapno_of n a ref = a_snapno a - length (guard_refs a (Suc ref) n)"

definition snap_entries :: "assembler \<Rightarrow> nat \<Rightarrow> nat list" where
  "snap_entries a j = [sn_begin (ib_snaps (a_buf a) ! j)..<sn_end (ib_snaps (a_buf a) ! j)]"

text \<open>A comparison with a constant of 32 bits, with its snapshot and exit stub.\<close>

definition guard_ok :: "(nat \<Rightarrow> u8) \<Rightarrow> nat \<Rightarrow> assembler \<Rightarrow> nat \<Rightarrow> bool" where
  "guard_ok v n a ref \<longleftrightarrow>
     (let i = a_ir a ref; y = ir_op2 i; j = snapno_of n a ref
      in ir_o i \<in> set compare_ops \<and> opnd a ref (ir_op1 i) \<and>
         allocatable ref a y \<and> irref_islit y \<and> ir_o (a_ir a y) \<noteq> kKBASEO \<and> checki32 (v y) \<and>
         length (guard_refs a ref n) \<le> Suc (a_snapno a) \<and>
         j < length (ib_snaps (a_buf a)) \<and> unat (sn_ref (ib_snaps (a_buf a) ! j)) = ref \<and>
         (\<exists>t. exitstubAddr j a = Inr t) \<and>
         (\<forall>se \<in> set (snap_entries a j). \<exists>x. sd_slotRef (ib_snapmap (a_buf a)) se = Inr x \<and>
            (REF_BIAS \<le> x \<longrightarrow> ra_live ref a x \<and> has_value a x)))"

definition guard_true :: "(nat \<Rightarrow> u8) \<Rightarrow> assembler \<Rightarrow> nat \<Rightarrow> bool" where
  "guard_true v a ref \<longleftrightarrow>
     guard_holds (ir_o (a_ir a ref)) (v (ir_op1 (a_ir a ref))) (v (ir_op2 (a_ir a ref)))"

lemma same_trace_snap:
  assumes "same_trace a b" and j: "j < length (ib_snaps (a_buf a))"
  shows "sn_ref (ib_snaps (a_buf b) ! j) = sn_ref (ib_snaps (a_buf a) ! j)" "snap_entries b j = snap_entries a j"
proof -
  define f where "f = (\<lambda>sn :: snapshot. sn\<lparr>sn_mcode := 0\<rparr>)"
  have m: "map f (ib_snaps (a_buf b)) = map f (ib_snaps (a_buf a))"
    using assms(1) by (simp add: same_trace_def prog_of_def f_def)
  have jb: "j < length (ib_snaps (a_buf b))" using j by (simp only: same_traceD(6) [OF assms(1)])
  have "f (ib_snaps (a_buf b) ! j) = f (ib_snaps (a_buf a) ! j)"
    by (simp only: nth_map [OF j, symmetric] nth_map [OF jb, symmetric] m)
  then have e: "g (f (ib_snaps (a_buf b) ! j)) = g (f (ib_snaps (a_buf a) ! j))" for g :: "snapshot \<Rightarrow> 'b" by simp
  show "sn_ref (ib_snaps (a_buf b) ! j) = sn_ref (ib_snaps (a_buf a) ! j)"
    using e [of sn_ref] by (simp add: f_def)
  show "snap_entries b j = snap_entries a j"
    using e [of sn_mapofs] e [of sn_entries] by (simp add: f_def snap_entries_def sn_begin_def sn_end_def)
qed

lemma emit_compare:
  assumes op: "ir_o (a_ir a ref) \<in> set compare_ops" and n: "a_snapno a < length (ib_snaps (a_buf a))"
    and s: "unat (sn_ref (ib_snaps (a_buf a) ! a_snapno a)) = ref" "a_curins a = ref"
  shows "emit ref a = compare ref (leave_cc (ir_o (a_ir a ref))) a"
proof -
  define o' where "o' = ir_o (a_ir a ref)"
  have num: "map (\<lambda>o'. irop_num o' - irop_num kLT) [kLT, kGE, kLE, kGT, kEQ, kNE] = [0, 1, 2, 3, 4, 5]"
      "map (\<lambda>o'. irop_num o' - irop_num kLTU) [kLTU, kGEU, kLEU, kGTU] = [0, 1, 2, 3]"
    by code_simp+
  have cg: "compare_guard ref cu first a = compare ref (cu (asm_compmap ! (irop_num o' - irop_num first))) a"
    if "irop_num o' - irop_num first < 6" for cu first
  proof -
    have l: "irop_num o' - irop_num first < length asm_compmap" using that by (simp add: asm_compmap_def)
    show ?thesis
      unfolding compare_guard_def Let_def o'_def [symmetric] res_bind_lc_assert [OF l] a_snap_def
        res_bind_lc_assert [OF n] res_bind.simps s(2)
      by (simp add: s(1) res_bind_lc_assert)
  qed
  have sg: "compare_guard ref fst kLT a = compare ref (leave_cc o') a" if o: "o' \<in> {kLT, kGE, kLE, kGT, kEQ, kNE}"
  proof -
    have "irop_num o' - irop_num kLT < 6" "o' \<notin> {kLTU, kGEU, kLEU, kGTU}" using o num(1) by auto
    then show ?thesis using cg [of kLT fst] by (simp add: leave_cc_def)
  qed
  have ug: "compare_guard ref snd kLTU a = compare ref (leave_cc o') a" if o: "o' \<in> {kLTU, kGEU, kLEU, kGTU}"
  proof -
    have "irop_num o' - irop_num kLTU < 6" using o num(2) by auto
    then show ?thesis using cg [of kLTU snd] o by (simp add: leave_cc_def)
  qed
  have "o' \<in> {kLT, kGE, kLE, kGT, kEQ, kNE} \<or> o' \<in> {kLTU, kGEU, kLEU, kGTU}"
    using op by (auto simp: compare_ops_def o'_def)
  then show ?thesis
  proof
    assume o: "o' \<in> {kLT, kGE, kLE, kGT, kEQ, kNE}"
    then have "emit ref a = compare_guard ref fst kLT a"
      unfolding emit_def Let_def o'_def [symmetric] by (elim insertE emptyE) simp_all
    then show ?thesis using sg [OF o] by (simp add: o'_def)
  next
    assume o: "o' \<in> {kLTU, kGEU, kLEU, kGTU}"
    then have "emit ref a = compare_guard ref snd kLTU a"
      unfolding emit_def Let_def o'_def [symmetric] by (elim insertE emptyE) simp_all
    then show ?thesis using ug [OF o] by (simp add: o'_def)
  qed
qed


section \<open>One step of the loop\<close>

definition at_ins :: "nat \<Rightarrow> assembler \<Rightarrow> assembler" where "at_ins ref a = a\<lparr>a_curins := ref\<rparr>"
definition at_snap :: "nat \<Rightarrow> assembler \<Rightarrow> assembler" where "at_snap j a = a\<lparr>a_snapno := j\<rparr>"

lemma at_fields [simp]:
  "a_ir (at_ins r a) = a_ir a" "a_ir (at_snap r a) = a_ir a" "a_mc (at_ins r a) = a_mc a" "a_mc (at_snap r a) = a_mc a"
  "a_mcend (at_ins r a) = a_mcend a" "a_mcend (at_snap r a) = a_mcend a"
  "a_buf (at_ins r a) = a_buf a" "a_buf (at_snap r a) = a_buf a"
  "a_freeset (at_ins r a) = a_freeset a" "a_freeset (at_snap r a) = a_freeset a"
  "a_cost (at_ins r a) = a_cost a" "a_cost (at_snap r a) = a_cost a"
  "a_spills (at_ins r a) = a_spills a" "a_spills (at_snap r a) = a_spills a"
  "a_stopins (at_ins r a) = a_stopins a" "a_stopins (at_snap r a) = a_stopins a"
  "a_snapno (at_ins r a) = a_snapno a" "a_curins (at_ins r a) = r" "a_snapno (at_snap r a) = r"
  by (simp_all add: at_ins_def at_snap_def a_ir_def fun_eq_iff)

lemma at_same [simp]:
  "same_trace a (at_ins r a)" "same_trace a (at_snap r a)"
  "agree v K lim (at_ins r a) = agree v K lim a" "agree v K lim (at_snap r a) = agree v K lim a"
  "ra_ok lim (at_ins r a) = ra_ok lim a" "ra_ok lim (at_snap r a) = ra_ok lim a"
  "keeps lim R (at_ins r a) b = keeps lim R a b" "keeps lim R a (at_snap r b) = keeps lim R a b"
  by (simp_all add: same_trace_def prog_of_def agree_def ra_live_def fun_eq_iff ra_ok_def regs_ok_def
      lits_alloc_ok_def slots_ok_def keeps_def) (simp_all add: at_ins_def at_snap_def)

lemma grows_at: "grows a (at_ins r a)" "grows a (at_snap r a)"
  by (rule growsI; simp)+

lemma agree_extend:
  assumes "agree v K ref a s" and "\<not> ir_hasRegOrSpill (a_ir a ref)"
  shows "agree v K (Suc ref) a s"
  using assms by (auto simp: agree_def ra_live_def ir_hasRegOrSpill_def less_Suc_eq)

text \<open>At an exit every entry of the snapshot without a spill slot is in its final register.\<close>

definition regs_restore :: "(nat \<Rightarrow> u8) \<Rightarrow> assembler \<Rightarrow> assembler \<Rightarrow> nat \<Rightarrow> xstate \<Rightarrow> bool" where
  "regs_restore v a f j s \<longleftrightarrow>
     (\<forall>se \<in> set (snap_entries a j). \<forall>x. sd_slotRef (ib_snapmap (a_buf a)) se = Inr x \<and> REF_BIAS \<le> x \<and>
        slot_of f x = 0 \<longrightarrow> isReg (reg_of f x) \<and> x_reg s (reg_of f x) = v x)"

lemma guard_exit_regs:
  assumes ag: "agree v K lim x s" and wf: "ss_wf (a_spills b)" and g: "grows b x" "grows x f"
    and e: "\<forall>se \<in> set (snap_entries a j). \<forall>y. sd_slotRef (ib_snapmap (a_buf a)) se = Inr y \<and> REF_BIAS \<le> y \<longrightarrow>
      ir_hasRegOrSpill (a_ir b y) \<and> ra_live lim x y"
  shows "regs_restore v a f j s"
  unfolding regs_restore_def
proof (intro ballI allI impI; elim conjE)
  fix se y assume y: "se \<in> set (snap_entries a j)" "sd_slotRef (ib_snapmap (a_buf a)) se = Inr y"
    "REF_BIAS \<le> y" "slot_of f y = 0"
  have wx: "ss_wf (a_spills x)" using g(1) wf by (simp add: grows_def)
  have x0: "slot_of x y = 0" using g(2) wx y(3,4) unfolding grows_def by metis
  have b0: "slot_of b y = 0" using g(1) wf y(3) x0 unfolding grows_def by metis
  have h: "ir_hasRegOrSpill (a_ir b y)" "ra_live lim x y" using e y by blast+
  have rb: "isReg (reg_of b y)" using h(1) b0 by (simp add: ir_hasRegOrSpill_def)
  have rx: "reg_of x y = reg_of b y" using g(1) wf y(3) x0 rb unfolding grows_def by blast
  have rf: "reg_of f y = reg_of x y" using g(2) wx y(3,4) rb rx unfolding grows_def by metis
  show "isReg (reg_of f y) \<and> x_reg s (reg_of f y) = v y"
    using agreeD(2) [OF ag h(2)] rb rx rf by simp
qed


lemma literal_value:
  assumes lits: "lits_ok v K (a_buf a)" and al: "allocatable lim a y" and lit: "irref_islit y"
    and o: "ir_o (a_ir a y) \<noteq> kKBASEO"
  shows "ib_literalValue (a_buf a) y = Inr (v y)"
proof -
  have l: "y < REF_BIAS" using lit by (simp add: irref_islit_def)
  then obtain k where o': "ir_o (a_ir a y) = kKINT \<or> ir_o (a_ir a y) = kKWORD"
      and k: "ib_literalValue (a_buf a) y = Inr k" and live: "ra_live lim a y"
    using al o by (auto simp: allocatable_def value_lit_def a_ir_def)
  have "v y = k" using lits o' k live l unfolding lits_ok_def ra_live_def a_ir_def by blast
  with k show ?thesis by simp
qed

lemma guard_step:
  assumes ok: "ra_ok (Suc ref) c" and lits: "lits_ok v K (a_buf c)" and st: "same_trace a c"
    and g: "guard_ok v n a ref" "ir_isGuard (a_ir a ref)" and ref: "REF_BIAS \<le> ref"
    and no: "\<not> ir_hasRegOrSpill (a_ir c ref)"
    and sn: "a_snapno c = j" and j: "j = snapno_of n a ref" and t: "exitstubAddr j a = Inr t"
  shows "assemble_ins ref (at_ins ref c) = Inl (Exit 1) \<or>
    (assemble_ins ref (at_ins ref c) = Inl AssertFailed \<and> (\<exists>p. jmprel p t = Inl AssertFailed)) \<or>
    (\<exists>c' R. assemble_ins ref (at_ins ref c) = Inr ((), c') \<and> ra_ok ref c' \<and> grows c c' \<and>
      operands a ref R \<and> keeps ref R c c' \<and> a_snapno c' = (j + 65535) mod 65536 \<and>
      (\<forall>s f. agree v K ref c' s \<and> grows c' f \<longrightarrow>
         (if guard_true v a ref
          then \<exists>s'. agree v K (Suc ref) c s' \<and> x_mem s' = x_mem s \<and>
                 xrun (a_mcend c) (a_mc c') s = xrun (a_mcend c) (a_mc c) s'
          else \<exists>s'. ctx_ok K s' \<and> x_mem s' = x_mem s \<and> regs_restore v a f j s' \<and>
                 xrun (a_mcend c) (a_mc c') s = Some (Left_for t s'))))"
proof -
  define c0 where "c0 = at_ins ref c"
  define i where "i = a_ir a ref"
  define y where "y = ir_op2 i"
  have g': "ir_o i \<in> set compare_ops" "opnd a ref (ir_op1 i)" "allocatable ref a y" "irref_islit y"
      "ir_o (a_ir a y) \<noteq> kKBASEO" "checki32 (v y)" "j < length (ib_snaps (a_buf a))"
      "unat (sn_ref (ib_snaps (a_buf a) ! j)) = ref"
      "\<forall>se \<in> set (snap_entries a j). \<exists>x. sd_slotRef (ib_snapmap (a_buf a)) se = Inr x \<and>
            (REF_BIAS \<le> x \<longrightarrow> ra_live ref a x \<and> has_value a x)"
    using g(1) by (simp_all add: guard_ok_def Let_def i_def y_def j)
  have nr: "\<not> isReg (reg_of c ref)" using no by (simp add: ir_hasRegOrSpill_def)
  have ok0: "ra_ok ref c0" using ra_ok_shrink [OF ok ref nr] by (simp add: c0_def)
  have lits0: "lits_ok v K (a_buf c0)" using lits by (simp add: c0_def)
  have st0: "same_trace a c0" unfolding c0_def by (rule same_trace_trans [OF st]) simp
  define sm where "sm = ib_snapmap (a_buf a)"
  define snap where "snap = ib_snaps (a_buf c0) ! j"
  have j0: "j < length (ib_snaps (a_buf c0))" using g'(7) by (simp add: same_traceD [OF st0])
  have ent: "[sn_begin snap..<sn_end snap] = snap_entries a j"
    using same_trace_snap(2) [OF st0 g'(7)] by (simp add: snap_def snap_entries_def)
  have sr: "unat (sn_ref snap) = ref" using same_trace_snap(1) [OF st0 g'(7)] g'(8) by (simp add: snap_def)
  have i0: "ir_o (a_ir c0 ref) = ir_o i" "ir_isGuard (a_ir c0 ref)" "ib_snapmap (a_buf c0) = sm"
    using g(2) by (simp_all add: same_traceD [OF st0] value_same [OF st0] i_def sm_def)
  have nsave: "ir_o i \<noteq> kSAVE" using g'(1) by (auto simp: compare_ops_def)
  have e: "assemble_ins ref c0 = res_bind (snapshotAlloc_loop sm (snap_entries a j) c0) (\<lambda>(_, b).
      res_bind (emit ref b) (\<lambda>(_, b). Inr ((), at_snap ((a_snapno b + 65535) mod 65536) b)))"
  proof -
    have "a_snapno c0 = j" "a_curins c0 = ref" using sn by (simp_all add: c0_def)
    then show ?thesis
      using i0 nsave j0 sr
      by (simp add: assemble_ins_def a_snap_def lc_assert_def snapshotAlloc_def ent at_snap_def flip: snap_def)
  qed
  define S where "S = {x. REF_BIAS \<le> x \<and> (\<exists>se \<in> set (snap_entries a j). sd_slotRef sm se = Inr x)}"
  have S: "x \<in> S \<Longrightarrow> ra_live ref a x \<and> has_value a x" for x using g'(9) by (force simp: S_def sm_def)
  have ents: "\<forall>se \<in> set (snap_entries a j). \<exists>x. sd_slotRef sm se = Inr x \<and> (REF_BIAS \<le> x \<longrightarrow> x \<in> S \<and> ra_live ref c0 x)"
    using g'(9) unfolding S_def sm_def same_traceD(11) [OF st0] by blast
  define R where "R = insert (ir_op1 i) S"
  have R: "operands a ref R"
    using S opnd_operands [OF g'(2)] by (auto simp: operands_def R_def ra_live_def)
  from snapshotAlloc_loop_ok [OF ok0 lits0 ents] show ?thesis
  proof (elim disjE exE conjE, goal_cases)
    case 1 then show ?case by (simp add: e flip: c0_def)
  next
    case (2 b)
    have stb: "same_trace a b" by (rule same_trace_trans [OF st0 same_ir_trace [OF 2(3)]])
    have c0b: "a_snapno b = j" "a_curins b = ref" using 2(3) sn by (simp_all add: same_ir_def c0_def)
    note tb = same_traceD [OF stb]
    have litsb: "lits_ok v K (a_buf b)" using lits st by (simp add: tb same_traceD [OF st])
    have jb: "a_snapno b < length (ib_snaps (a_buf b))" using g'(7) by (simp add: tb c0b)
    have emitb: "emit ref b = compare ref (leave_cc (ir_o i)) b"
      using emit_compare [of b ref] g'(1,8) jb c0b same_trace_snap(1) [OF stb g'(7)] by (simp add: tb i_def)
    have kb: "is32BitLiteral y b = Inr (Some (ucast (v y)))" "v y = scast (ucast (v y) :: u4)"
      using literal_value [OF litsb, of ref y] g'(3-6) by (simp_all add: is32BitLiteral_def tb checki32_def)
    have te: "exitstubAddr (a_snapno b) b = Inr t" using t exitstubAddr_same [OF stb] by (simp add: c0b)
    have l: "ir_op1 i = ir_op1 (a_ir b ref)" "allocatable ref b (ir_op1 i)" "y = ir_op2 (a_ir b ref)"
      using opnd_operands [OF g'(2)] by (simp_all add: tb i_def y_def)
    have gb: "grows c0 b" using snapshotAlloc_loop_grows [of c0] 2(1) by (simp add: ok_grows_def)
    have wfb: "ss_wf (a_spills b)" using ra_okD(5) [OF 2(2)] by (simp add: slots_ok_def)
    from compare_ok [OF 2(2) litsb g'(1) l(1,2,3) kb te jb] show ?case
    proof (elim disjE exE conjE, goal_cases)
      case 1 then show ?case using 2(1) by (simp add: e emitb flip: c0_def)
    next
      case (2 p) then show ?case using \<open>snapshotAlloc_loop sm (snap_entries a j) c0 = Inr ((), b)\<close>
        by (auto simp: e emitb simp flip: c0_def)
    next
      case cmp: (3 x d)
      define c' where "c' = at_snap ((j + 65535) mod 65536) d"
      have run: "assemble_ins ref c0 = Inr ((), c')"
        using 2(1) cmp(1,7) by (simp add: e emitb c0b c'_def)
      have gd: "grows c c'" unfolding c'_def
        by (rule grows_trans [OF grows_at(1) [of c ref, folded c0_def] grows_trans [OF gb
            grows_trans [OF cmp(3) grows_trans [OF cmp(4) grows_at(2)]]]])
      have "keeps ref R c0 d"
        using keeps_trans [OF 2(5) cmp(6) 2(3)] by (simp add: R_def)
      then have kd: "keeps ref R c c'" by (simp add: c'_def c0_def)
      have mce: "a_mcend c = a_mcend b" by (simp add: same_traceD [OF st] tb)
      have stay: "guard_true v a ref = guard_holds (ir_o i) (v (ir_op1 i)) (v y)"
        by (simp add: guard_true_def i_def y_def)
      have "same_trace b x" using cmp(3) by (simp add: grows_def)
      then have lx: "ra_live ref x = ra_live ref a" using tb(11) by (simp add: same_traceD(11))
      have code: "if guard_true v a ref
          then \<exists>s'. agree v K (Suc ref) c s' \<and> x_mem s' = x_mem s \<and>
                 xrun (a_mcend c) (a_mc c') s = xrun (a_mcend c) (a_mc c) s'
          else \<exists>s'. ctx_ok K s' \<and> x_mem s' = x_mem s \<and> regs_restore v a f j s' \<and>
                 xrun (a_mcend c) (a_mc c') s = Some (Left_for t s')"
        if s: "agree v K ref c' s" and f: "grows c' f" for s f
      proof -
        have sd: "agree v K ref d s" using s by (simp add: c'_def)
        have xf: "grows x f" using grows_trans [OF cmp(4) grows_trans [OF grows_at(2) f [unfolded c'_def]]] .
        show ?thesis
        proof (cases "guard_true v a ref")
          case True
          with cmp(5) sd obtain s1 where s1: "agree v K ref b s1" "x_mem s1 = x_mem s"
              "xrun (a_mcend b) (a_mc d) s = xrun (a_mcend b) (a_mc b) s1"
            unfolding guard_code_def stay by auto
          with 2(4) obtain s2 where s2: "agree v K ref c0 s2" "x_mem s2 = x_mem s1"
              "xrun (a_mcend c0) (a_mc b) s1 = xrun (a_mcend c0) (a_mc c0) s2"
            unfolding table_code_def by blast
          have "agree v K (Suc ref) c s2" using agree_extend [OF _ no] s2(1) by (simp add: c0_def)
          then show ?thesis using True s1 s2 mce by (intro if_P [THEN iffD2] exI [of _ s2]) (auto simp: c0_def c'_def)
        next
          case False
          with cmp(5) sd obtain s1 where s1: "agree v K ref x s1" "x_mem s1 = x_mem s"
              "xrun (a_mcend b) (a_mc d) s = Some (Left_for t s1)"
            unfolding guard_code_def stay by auto
          have "regs_restore v a f j s1"
            by (rule guard_exit_regs [OF s1(1) wfb cmp(3) xf]) (use 2(6) S in \<open>auto simp: lx sm_def S_def\<close>)
          then show ?thesis using False s1 agreeD(1) [OF s1(1)] mce by (auto simp: c'_def)
        qed
      qed
      have "ra_ok ref c'" "a_snapno c' = (j + 65535) mod 65536" using cmp(2) by (simp_all add: c'_def)
      then show ?case unfolding c0_def [symmetric] using run gd R kd code by blast
    qed
  qed
qed


section \<open>The loop\<close>

definition first_fail :: "(nat \<Rightarrow> u8) \<Rightarrow> assembler \<Rightarrow> nat list \<Rightarrow> nat option" where
  "first_fail v a refs = find (\<lambda>g. ir_isGuard (a_ir a g) \<and> \<not> guard_true v a g) refs"

text \<open>
  What \<^verbatim>\<open>Fragment::restoreSnapshot\<close> reads at an exit, with the final tables \<open>f\<close>, is the value of
  each entry.
\<close>

definition restores :: "(nat \<Rightarrow> u8) \<Rightarrow> kctx \<Rightarrow> assembler \<Rightarrow> assembler \<Rightarrow> nat \<Rightarrow> xstate \<Rightarrow> bool" where
  "restores v K a f j s \<longleftrightarrow> ctx_ok K s \<and>
     (\<forall>se \<in> set (snap_entries a j). \<forall>x. sd_slotRef (ib_snapmap (a_buf a)) se = Inr x \<and> REF_BIAS \<le> x \<longrightarrow>
        (if slot_of f x \<noteq> 0 then rd64 (x_mem s) (slot_addr K (slot_of f x)) = v x
         else isReg (reg_of f x) \<and> x_reg s (reg_of f x) = v x))"

definition outcome :: "(nat \<Rightarrow> u8) \<Rightarrow> kctx \<Rightarrow> nat \<Rightarrow> assembler \<Rightarrow> assembler \<Rightarrow> nat \<Rightarrow> xout option \<Rightarrow> bool" where
  "outcome v K n a f k r \<longleftrightarrow>
     (case first_fail v a [k..<n] of
        None \<Rightarrow> \<exists>s. agree v K n a s \<and> r = xrun (a_mcend a) (a_mc a) s
      | Some g \<Rightarrow> \<exists>t s. exitstubAddr (snapno_of n a g) a = Inr t \<and> r = Some (Left_for t s) \<and>
                   restores v K a f (snapno_of n a g) s)"

definition trace_ok :: "(nat \<Rightarrow> u8) \<Rightarrow> kctx \<Rightarrow> nat \<Rightarrow> assembler \<Rightarrow> bool" where
  "trace_ok v K n a \<longleftrightarrow>
     REF_BIAS \<le> a_stopins a \<and> a_stopins a \<le> n \<and> ib_bufmin (a_buf a) \<le> REF_BIAS \<and> a_snapno a < 65536 \<and>
     lits_ok v K (a_buf a) \<and>
     (\<forall>ref. a_stopins a \<le> ref \<and> ref < n \<longrightarrow>
        (if ir_isGuard (a_ir a ref) then guard_ok v n a ref else value_ok v K a ref))"

text \<open>Only instructions with a value are in registers or spill slots.\<close>

definition only_values :: "assembler \<Rightarrow> nat \<Rightarrow> assembler \<Rightarrow> bool" where
  "only_values a k c \<longleftrightarrow>
     (\<forall>x. REF_BIAS \<le> x \<and> x < k \<and> \<not> has_value a x \<longrightarrow> \<not> ir_hasRegOrSpill (a_ir c x))"

definition slots_hold :: "(nat \<Rightarrow> u8) \<Rightarrow> kctx \<Rightarrow> assembler \<Rightarrow> nat \<Rightarrow> (u8 \<Rightarrow> u1) \<Rightarrow> bool" where
  "slots_hold v K f k m \<longleftrightarrow>
     (\<forall>x. ra_live k f x \<and> slot_of f x \<noteq> 0 \<longrightarrow> rd64 m (slot_addr K (slot_of f x)) = v x)"

definition final_tables :: "nat \<Rightarrow> nat \<Rightarrow> assembler \<Rightarrow> assembler \<Rightarrow> bool" where
  "final_tables n k c f \<longleftrightarrow> grows c f \<and> (\<forall>x \<ge> k. a_ir f x = a_ir c x) \<and> slots_ok n f"

definition snap_count :: "nat \<Rightarrow> assembler \<Rightarrow> nat \<Rightarrow> assembler \<Rightarrow> bool" where
  "snap_count n a k c \<longleftrightarrow>
     (length (guard_refs a k n) \<le> a_snapno a \<longrightarrow> a_snapno c = a_snapno a - length (guard_refs a k n))"

definition loop_inv :: "(nat \<Rightarrow> u8) \<Rightarrow> kctx \<Rightarrow> nat \<Rightarrow> assembler \<Rightarrow> nat \<Rightarrow> assembler \<Rightarrow> bool" where
  "loop_inv v K n a k c \<longleftrightarrow> ra_ok k c \<and> grows a c \<and> only_values a k c \<and> snap_count n a k c \<and>
     (\<forall>f s. final_tables n k c f \<and> agree v K k c s \<and> slots_hold v K f k (x_mem s) \<longrightarrow>
        outcome v K n a f k (xrun (a_mcend a) (a_mc c) s))"

lemma final_step:
  assumes f: "final_tables n ref c' f" and g: "grows c c'" and k: "\<And>x. ref < x \<Longrightarrow> a_ir c' x = a_ir c x"
  shows "final_tables n (Suc ref) c f"
  using f k grows_trans [OF g] by (simp add: final_tables_def)

lemma only_values_step:
  assumes o: "only_values a (Suc ref) c" and R: "operands a ref R" and k: "keeps lim (insert ref R) c c'"
  shows "only_values a ref c'"
  unfolding only_values_def
proof (intro allI impI; elim conjE)
  fix x assume x: "REF_BIAS \<le> x" "x < ref" "\<not> has_value a x"
  then have h: "\<not> ir_hasRegOrSpill (a_ir c x)" using o by (simp add: only_values_def)
  have "x \<notin> insert ref R" using R x by (auto simp: operands_def)
  then have "a_ir c' x = a_ir c x" using k h by (simp add: keeps_def ir_hasRegOrSpill_def)
  then show "\<not> ir_hasRegOrSpill (a_ir c' x)" using h by simp
qed

text \<open>A new value in its own slot leaves the others.\<close>

lemma slots_hold_define:
  assumes h: "slots_hold v K f ref m" and sl: "slots_ok n f" and n: "ref < n" and stop: "a_stopins f \<le> ref"
    and live: "ra_live n f ref" and e: "slot_of f ref = slot_of c' ref"
  shows "slots_hold v K f (Suc ref) (mem_define v K ref c' m)"
  unfolding slots_hold_def
proof (intro allI impI; elim conjE)
  fix x assume x: "ra_live (Suc ref) f x" "slot_of f x \<noteq> 0"
  show "rd64 (mem_define v K ref c' m) (slot_addr K (slot_of f x)) = v x"
  proof (cases "x = ref")
    case True
    then show ?thesis using x(2) e by (simp add: mem_define_def)
  next
    case False
    then have x': "ra_live ref f x" "ra_live n f x" using x(1) n by (auto simp: ra_live_def)
    have old: "rd64 m (slot_addr K (slot_of f x)) = v x" using h x'(1) x(2) by (simp add: slots_hold_def)
    show ?thesis
    proof (cases "slot_of c' ref = 0")
      case True then show ?thesis using old by (simp add: mem_define_def)
    next
      case nz: False
      have ne: "slot_of f x \<noteq> slot_of f ref"
        using slots_okD(4) [OF sl x'(2) live False] x(2) stop by auto
      have b: "slot_of f x < 256" "slot_of f ref < 256" using slots_okD(2) [OF sl] x'(2) live by auto
      show ?thesis
        using old nz rd_wr_other [OF slots_apart [OF b ne] slots_apart [OF b(2,1) ne [symmetric]]]
        by (simp add: mem_define_def e [symmetric])
    qed
  qed
qed

lemma first_fail_skip:
  assumes "ref < n" and "\<not> ir_isGuard (a_ir a ref) \<or> guard_true v a ref"
  shows "first_fail v a [ref..<n] = first_fail v a [Suc ref..<n]"
  using assms by (auto simp: first_fail_def upt_conv_Cons)


lemma outcome_skip:
  assumes "ref < n" and "\<not> ir_isGuard (a_ir a ref) \<or> guard_true v a ref" and "outcome v K n a f (Suc ref) r"
  shows "outcome v K n a f ref r"
  using assms(3) by (simp add: outcome_def first_fail_skip [OF assms(1,2)])

lemma guard_refs_step:
  "ref < n \<Longrightarrow> guard_refs a ref n = (if ir_isGuard (a_ir a ref) then [ref] else []) @ guard_refs a (Suc ref) n"
  by (simp add: guard_refs_def upt_conv_Cons)

lemma trace_stop: "grows a c \<Longrightarrow> a_stopins c = a_stopins a" "grows a c \<Longrightarrow> ra_live k c = ra_live k a"
    "grows a c \<Longrightarrow> a_mcend c = a_mcend a"
  by (simp_all add: grows_def same_traceD)

lemma keeps_later: "keeps lim R c c' \<Longrightarrow> lim \<le> x \<Longrightarrow> x \<notin> R \<Longrightarrow> a_ir c' x = a_ir c x"
  by (simp add: keeps_def ra_live_def)

lemma operands_less: "operands a ref R \<Longrightarrow> x \<in> R \<Longrightarrow> x < ref"
  by (simp add: operands_def)

lemma value_step:
  assumes inv: "loop_inv v K n a (Suc ref) c" and ref: "a_stopins a \<le> ref" "ref < n"
    and tr: "trace_ok v K n a" and ng: "\<not> ir_isGuard (a_ir a ref)" and nf: "ir_o (a_ir a ref) \<noteq> kFREF"
  shows "assemble_ins ref (at_ins ref c) = Inl (Exit 1) \<or>
    (\<exists>c'. assemble_ins ref (at_ins ref c) = Inr ((), c') \<and> loop_inv v K n a ref c')"
proof -
  have i: "ra_ok (Suc ref) c" "grows a c" "only_values a (Suc ref) c" "snap_count n a (Suc ref) c"
    and code: "\<And>f s. final_tables n (Suc ref) c f \<Longrightarrow> agree v K (Suc ref) c s \<Longrightarrow>
      slots_hold v K f (Suc ref) (x_mem s) \<Longrightarrow> outcome v K n a f (Suc ref) (xrun (a_mcend a) (a_mc c) s)"
    using inv by (simp_all add: loop_inv_def)
  have st: "same_trace a c" using i(2) by (simp add: grows_def)
  define c0 where "c0 = at_ins ref c"
  have st0: "same_trace a c0" unfolding c0_def by (rule same_trace_trans [OF st]) simp
  have lv: "ra_live (Suc ref) a ref" "ra_live n a ref"
    using tr ref by (simp_all add: trace_ok_def ra_live_def)
  have gen: "gen_ok v K ref c0"
    using i(1) tr ref lv by (simp add: gen_ok_def trace_ok_def same_traceD [OF st0]) (simp add: c0_def)
  have "value_ok v K c0 ref" using tr ref ng by (simp add: trace_ok_def value_same [OF st0])
  moreover have "ir_o (a_ir c0 ref) \<noteq> kFREF" using nf by (simp add: same_traceD [OF st0])
  ultimately obtain R where R: "operands c0 ref R" and ins: "ins_ok v K ref R c0 (emit ref c0)"
      and gr: "ok_grows c0 (emit ref c0)"
    using emit_value_ok [OF gen] by blast
  have R': "operands a ref R" using R by (simp add: value_same [OF st0])
  have e: "assemble_ins ref (at_ins ref c) = emit ref c0"
    using ng by (simp add: assemble_ins_def value_same [OF st0] flip: c0_def)
  from ins [unfolded ins_ok_def] show ?thesis
  proof (elim disjE exE conjE)
    fix c' assume c': "emit ref c0 = Inr ((), c')" "ra_ok ref c'" "same_ir c0 c'" "ins_code v K ref c0 c'"
      "keeps (Suc ref) (insert ref R) c0 c'"
    have gc: "grows c c'" using grows_trans [OF grows_at(1)] gr c'(1) by (simp add: ok_grows_def c0_def)
    have ga: "grows a c'" by (rule grows_trans [OF i(2) gc])
    have later: "a_ir c' x = a_ir c x" if "ref < x" for x
      using keeps_later [OF c'(5), of x] that operands_less [OF R', of x] by (auto simp: c0_def)
    have "only_values a ref c'" by (rule only_values_step [OF i(3) R' c'(5) [unfolded c0_def at_same]])
    moreover have "snap_count n a ref c'"
      using i(4) c'(3) ng by (simp add: snap_count_def guard_refs_step [OF ref(2)] same_ir_def c0_def)
    moreover have "outcome v K n a f ref (xrun (a_mcend a) (a_mc c') s)"
      if f: "final_tables n ref c' f" and s: "agree v K ref c' s" "slots_hold v K f ref (x_mem s)" for f s
    proof -
      have ff: "final_tables n (Suc ref) c f" by (rule final_step [OF f gc later])
      have gf: "grows a f" using grows_trans [OF ga] f by (simp add: final_tables_def)
      from c'(4) s(1) obtain s1 where s1: "agree v K (Suc ref) c s1" "x_mem s1 = mem_define v K ref c' (x_mem s)"
          "xrun (a_mcend a) (a_mc c') s = xrun (a_mcend a) (a_mc c) s1"
        unfolding ins_code_def by (auto simp: c0_def trace_stop(3) [OF i(2)])
      have "slots_hold v K f (Suc ref) (x_mem s1)"
        unfolding s1(2)
        by (rule slots_hold_define [OF s(2) _ ref(2)])
          (use f ref lv in \<open>simp_all add: final_tables_def trace_stop [OF gf]\<close>)
      from code [OF ff s1(1) this] show ?thesis
        unfolding s1(3) using outcome_skip [OF ref(2)] ng by blast
    qed
    ultimately have "loop_inv v K n a ref c'" using c'(2) ga by (simp add: loop_inv_def)
    then show ?thesis using c'(1) e by auto
  qed (simp add: e)
qed

lemma fref_step:
  assumes inv: "loop_inv v K n a (Suc ref) c" and ref: "a_stopins a \<le> ref" "ref < n"
    and tr: "trace_ok v K n a" and ng: "\<not> ir_isGuard (a_ir a ref)" and nf: "ir_o (a_ir a ref) = kFREF"
  shows "assemble_ins ref (at_ins ref c) = Inr ((), at_ins ref c) \<and> loop_inv v K n a ref (at_ins ref c)"
proof -
  have i: "ra_ok (Suc ref) c" "grows a c" "only_values a (Suc ref) c" "snap_count n a (Suc ref) c"
    and code: "\<And>f s. final_tables n (Suc ref) c f \<Longrightarrow> agree v K (Suc ref) c s \<Longrightarrow>
      slots_hold v K f (Suc ref) (x_mem s) \<Longrightarrow> outcome v K n a f (Suc ref) (xrun (a_mcend a) (a_mc c) s)"
    using inv by (simp_all add: loop_inv_def)
  have st: "same_trace a c" using i(2) by (simp add: grows_def)
  have b: "REF_BIAS \<le> ref" using tr ref by (simp add: trace_ok_def)
  have no: "\<not> ir_hasRegOrSpill (a_ir c ref)" using i(3) b nf by (simp add: only_values_def has_value_def)
  have "assemble_ins ref (at_ins ref c) = Inr ((), at_ins ref c)"
    using ng nf by (simp add: assemble_ins_def emit_def value_same [OF st] same_traceD [OF st])
  moreover have "ra_ok ref (at_ins ref c)"
    using ra_ok_shrink [OF i(1) b] no by (simp add: ir_hasRegOrSpill_def)
  moreover have "grows a (at_ins ref c)" by (rule grows_trans [OF i(2) grows_at(1)])
  moreover have "only_values a ref (at_ins ref c)" using i(3) by (simp add: only_values_def)
  moreover have "snap_count n a ref (at_ins ref c)"
    using i(4) ng by (simp add: snap_count_def guard_refs_step [OF ref(2)])
  moreover have "outcome v K n a f ref (xrun (a_mcend a) (a_mc c) s)"
    if f: "final_tables n ref (at_ins ref c) f" and s: "agree v K ref c s" "slots_hold v K f ref (x_mem s)" for f s
  proof -
    have ff: "final_tables n (Suc ref) c f" by (rule final_step [OF f grows_at(1)]) simp
    have "a_ir f ref = a_ir c ref" using f by (simp add: final_tables_def)
    then have "slots_hold v K f (Suc ref) (x_mem s)"
      using s(2) no by (auto simp: slots_hold_def ra_live_def less_Suc_eq ir_hasRegOrSpill_def)
    from code [OF ff agree_extend [OF s(1) no] this] show ?thesis
      using outcome_skip [OF ref(2)] ng by blast
  qed
  ultimately show ?thesis by (simp add: loop_inv_def)
qed


text \<open>An exit stub that no jump of 32 bits reaches from the code.\<close>

definition out_of_reach :: "nat \<Rightarrow> assembler \<Rightarrow> bool" where
  "out_of_reach n a \<longleftrightarrow>
     (\<exists>g t p. g < n \<and> exitstubAddr (snapno_of n a g) a = Inr t \<and> jmprel p t = Inl AssertFailed)"

lemma guard_loop_step:
  assumes inv: "loop_inv v K n a (Suc ref) c" and ref: "a_stopins a \<le> ref" "ref < n"
    and tr: "trace_ok v K n a" and g: "ir_isGuard (a_ir a ref)"
  shows "assemble_ins ref (at_ins ref c) = Inl (Exit 1) \<or>
    (assemble_ins ref (at_ins ref c) = Inl AssertFailed \<and> out_of_reach n a) \<or>
    (\<exists>c'. assemble_ins ref (at_ins ref c) = Inr ((), c') \<and> loop_inv v K n a ref c')"
proof -
  have i: "ra_ok (Suc ref) c" "grows a c" "only_values a (Suc ref) c" "snap_count n a (Suc ref) c"
    and code: "\<And>f s. final_tables n (Suc ref) c f \<Longrightarrow> agree v K (Suc ref) c s \<Longrightarrow>
      slots_hold v K f (Suc ref) (x_mem s) \<Longrightarrow> outcome v K n a f (Suc ref) (xrun (a_mcend a) (a_mc c) s)"
    using inv by (simp_all add: loop_inv_def)
  have st: "same_trace a c" using i(2) by (simp add: grows_def)
  have b: "REF_BIAS \<le> ref" and go: "guard_ok v n a ref" and sn16: "a_snapno a < 65536"
    using tr ref g by (simp_all add: trace_ok_def)
  have no: "\<not> ir_hasRegOrSpill (a_ir c ref)" using i(3) b g by (simp add: only_values_def has_value_def)
  define j where "j = snapno_of n a ref"
  obtain t where t: "exitstubAddr j a = Inr t"
    using go by (auto simp: guard_ok_def Let_def j_def)
  have cnt: "Suc (length (guard_refs a (Suc ref) n)) \<le> Suc (a_snapno a)"
    using go g by (simp add: guard_ok_def Let_def guard_refs_step [OF ref(2)])
  have sn: "a_snapno c = j" using i(4) cnt by (simp add: snap_count_def j_def snapno_of_def)
  have lits: "lits_ok v K (a_buf c)" using tr by (simp add: trace_ok_def same_traceD [OF st])
  have se: "\<And>se x. se \<in> set (snap_entries a j) \<Longrightarrow> sd_slotRef (ib_snapmap (a_buf a)) se = Inr x \<Longrightarrow>
      REF_BIAS \<le> x \<Longrightarrow> ra_live ref a x"
    using go unfolding guard_ok_def Let_def j_def by fastforce
  from guard_step [OF i(1) lits st go g b no sn j_def t] show ?thesis
  proof (elim disjE exE conjE, goal_cases)
    case 1 then show ?case by simp
  next
    case (2 p) then show ?case using t ref by (auto simp: out_of_reach_def j_def)
  next
    case (3 c' R)
    have ga: "grows a c'" by (rule grows_trans [OF i(2) 3(3)])
    have later: "a_ir c' x = a_ir c x" if "ref \<le> x" for x
      using keeps_later [OF 3(5) that] operands_less [OF 3(4), of x] that by fastforce
    have "only_values a ref c'"
      by (rule only_values_step [OF i(3) 3(4) keeps_mono [OF 3(5)]]) blast
    moreover have "snap_count n a ref c'"
    proof -
      have "(j + 65535) mod 65536 = j - 1" if "0 < j" using that sn16 by (simp add: j_def snapno_of_def mod_if)
      then show ?thesis
        using 3(6) g by (auto simp: snap_count_def guard_refs_step [OF ref(2)] j_def snapno_of_def)
    qed
    moreover have "outcome v K n a f ref (xrun (a_mcend a) (a_mc c') s)"
      if f: "final_tables n ref c' f" and s: "agree v K ref c' s" "slots_hold v K f ref (x_mem s)" for f s
    proof -
      have gf: "grows c' f" "grows a f" using grows_trans [OF ga] f by (simp_all add: final_tables_def)
      note me = trace_stop(3) [OF i(2)]
      show ?thesis
      proof (cases "guard_true v a ref")
        case True
        have ff: "final_tables n (Suc ref) c f" by (rule final_step [OF f 3(3)]) (simp add: later)
        from 3(7) s(1) gf(1) True obtain s1 where s1: "agree v K (Suc ref) c s1" "x_mem s1 = x_mem s"
            "xrun (a_mcend a) (a_mc c') s = xrun (a_mcend a) (a_mc c) s1"
          unfolding me by (metis (full_types))
        have "a_ir f ref = a_ir c ref" using f by (simp add: final_tables_def later)
        then have "slots_hold v K f (Suc ref) (x_mem s1)"
          using s(2) no s1(2) by (auto simp: slots_hold_def ra_live_def less_Suc_eq ir_hasRegOrSpill_def)
        from code [OF ff s1(1) this] show ?thesis
          unfolding s1(3) using outcome_skip [OF ref(2)] True by blast
      next
        case False
        from 3(7) s(1) gf(1) False obtain s1 where s1: "ctx_ok K s1" "x_mem s1 = x_mem s"
            "regs_restore v a f j s1" "xrun (a_mcend a) (a_mc c') s = Some (Left_for t s1)"
          unfolding me by (metis (full_types))
        have "first_fail v a [ref..<n] = Some ref"
          using g False ref(2) by (simp add: first_fail_def upt_conv_Cons)
        moreover have "restores v K a f j s1"
          unfolding restores_def
        proof (intro conjI ballI allI impI; (elim conjE)?)
          fix e x assume x: "e \<in> set (snap_entries a j)" "sd_slotRef (ib_snapmap (a_buf a)) e = Inr x" "REF_BIAS \<le> x"
          show "if slot_of f x \<noteq> 0 then rd64 (x_mem s1) (slot_addr K (slot_of f x)) = v x
              else isReg (reg_of f x) \<and> x_reg s1 (reg_of f x) = v x"
            using s(2) s1(2,3) x se [OF x] by (auto simp: slots_hold_def regs_restore_def trace_stop [OF gf(2)])
        qed (rule s1(1))
        ultimately show ?thesis using t s1(4) by (auto simp: outcome_def j_def)
      qed
    qed
    ultimately have "loop_inv v K n a ref c'" using 3(2) ga by (simp add: loop_inv_def)
    then show ?case using 3(1) by blast
  qed
qed

lemma assemble_loop_append:
  "assemble_loop (xs @ ys) a = res_bind (assemble_loop xs a) (\<lambda>(_, a). assemble_loop ys a)"
proof (induction xs arbitrary: a)
  case (Cons x xs)
  then show ?case by (cases "assemble_ins x (a\<lparr>a_curins := x\<rparr>)") auto
qed simp

lemma loop_invariant:
  assumes tr: "trace_ok v K n a" and ok: "ra_ok n a" and ov: "only_values a n a" and k: "a_stopins a \<le> k" "k \<le> n"
  shows "assemble_loop (rev [k..<n]) a = Inl (Exit 1) \<or>
    (assemble_loop (rev [k..<n]) a = Inl AssertFailed \<and> out_of_reach n a) \<or>
    (\<exists>c. assemble_loop (rev [k..<n]) a = Inr ((), c) \<and> loop_inv v K n a k c)"
  using k(2)
proof (induction rule: inc_induct)
  case base
  have "loop_inv v K n a n a"
    using ok ov by (auto simp: loop_inv_def snap_count_def guard_refs_def outcome_def first_fail_def)
  then show ?case by simp
next
  case (step m)
  have ref: "a_stopins a \<le> m" "m < n" using k(1) step.hyps by simp_all
  have e: "assemble_loop (rev [m..<n]) a = res_bind (assemble_loop (rev [Suc m..<n]) a)
      (\<lambda>(_, c). res_bind (assemble_ins m (at_ins m c)) (\<lambda>(_, c). Inr ((), c)))"
  proof -
    have "assemble_loop [] = (\<lambda>a. Inr ((), a))" by (simp add: fun_eq_iff)
    then show ?thesis using step.hyps(2) by (simp add: upt_conv_Cons assemble_loop_append at_ins_def)
  qed
  from step.IH show ?case
  proof (elim disjE exE conjE)
    fix c assume c: "assemble_loop (rev [Suc m..<n]) a = Inr ((), c)" "loop_inv v K n a (Suc m) c"
    have "assemble_ins m (at_ins m c) = Inl (Exit 1) \<or>
      (assemble_ins m (at_ins m c) = Inl AssertFailed \<and> out_of_reach n a) \<or>
      (\<exists>c'. assemble_ins m (at_ins m c) = Inr ((), c') \<and> loop_inv v K n a m c')"
      using guard_loop_step [OF c(2) ref tr] value_step [OF c(2) ref tr] fref_step [OF c(2) ref tr] by blast
    then show ?thesis unfolding e c(1) by auto
  qed (simp_all add: e)
qed

lemma loop_inv_outcome:
  assumes inv: "loop_inv v K n a k f" and ok: "ra_ok n a" and s: "agree v K k f s"
  shows "outcome v K n a f k (xrun (a_mcend a) (a_mc f) s)"
proof -
  have g: "grows a f" using inv by (simp add: loop_inv_def)
  have "slots_ok n f"
    using g ra_okD(5) [OF ok] slots_okD(1) [OF ra_okD(5) [OF ok]] unfolding grows_def by blast
  then have "final_tables n k f f" by (simp add: final_tables_def)
  moreover have "slots_hold v K f k (x_mem s)" using agreeD(3) [OF s] by (simp add: slots_hold_def)
  ultimately show ?thesis using inv s by (auto simp: loop_inv_def)
qed

section \<open>The entry of a root trace\<close>

lemma rematConstant_grows_ok:
  assumes "rematConstant ref a = Inr (r, b)" and "ref < REF_BIAS"
  shows "grows a b"
  using rematConstant_grows [OF assms(2), of a] assms(1) by (simp add: ok_grows_def)

lemma evictConstants_loop_ok:
  assumes "ra_ok lim a" and "lits_ok v K (a_buf a)" and "\<forall>r \<in> set rs. bit kGPR r \<and> \<not> bit (a_freeset a) r" and "distinct rs"
  shows "\<exists>a'. evictConstants_loop rs a = Inr ((), a') \<and> ra_ok lim a' \<and> same_ir a a' \<and> grows a a' \<and>
    table_code v K lim a a' \<and> (\<forall>x \<ge> REF_BIAS. a_ir a' x = a_ir a x) \<and>
    (\<forall>r. bit (a_freeset a') r \<longleftrightarrow> bit (a_freeset a) r \<or> r \<in> set rs \<and> rc_ref (a_cost a r) < REF_BIAS) \<and>
    a_cost a' = a_cost a"
  using assms
proof (induction rs arbitrary: a)
  case Nil
  then show ?case by simp
next
  case (Cons r rs)
  define ref where "ref = rc_ref (a_cost a r)"
  have r: "bit kGPR r" "\<not> bit (a_freeset a) r" "r < 32" using Cons.prems(3) gpr_less [of r] by auto
  show ?case
  proof (cases "ref < REF_BIAS")
    case False
    then have e: "evictConstants_loop (r # rs) a = evictConstants_loop rs a"
      by (simp add: ref_def canRemat_def Let_def)
    from Cons.IH [OF Cons.prems(1,2)] Cons.prems(3,4) False show ?thesis
      unfolding e by (auto simp: ref_def)
  next
    case True
    have live: "ra_live lim a ref" "reg_of a ref = r"
      using regs_okD(5,6) [OF ra_okD(3) [OF Cons.prems(1)] r(1,2)] by (simp_all add: ref_def)
    have isr: "isReg (reg_of a ref)" using live(2) isReg_small [OF gpr_less [OF r(1)]] by simp
    from rematConstant_ok [OF Cons.prems(1,2) live(1) isr True] obtain b where
      b: "rematConstant ref a = Inr (r, b)" "ra_ok lim b" "same_ir a b" "alloc_code v K lim (rs_fromReg r) a b"
        "a_freeset b = rs_set r (a_freeset a)" "a_cost b = a_cost a"
        "a_ir b = (a_ir a)(ref := ir_setReg RID_INIT (a_ir a ref))"
      by (auto simp: live(2))
    have e: "evictConstants_loop (r # rs) a = evictConstants_loop rs b"
      using True b(1) by (simp add: ref_def canRemat_def irref_islit_def Let_def)
    have "\<forall>q \<in> set rs. bit kGPR q \<and> \<not> bit (a_freeset b) q" using Cons.prems(3,4) by (auto simp: b(5) bit_rs_simps)
    moreover have "lits_ok v K (a_buf b)" using Cons.prems(2) by (simp add: same_ir_lits_ok [OF b(3)])
    ultimately obtain a' where a': "evictConstants_loop rs b = Inr ((), a')" "ra_ok lim a'" "same_ir b a'" "grows b a'"
        "table_code v K lim b a'" "\<forall>x \<ge> REF_BIAS. a_ir a' x = a_ir b x"
        "\<forall>q. bit (a_freeset a') q \<longleftrightarrow> bit (a_freeset b) q \<or> q \<in> set rs \<and> rc_ref (a_cost b q) < REF_BIAS"
        "a_cost a' = a_cost b"
      using Cons.IH [OF b(2)] Cons.prems(4) by auto
    have "\<forall>x \<ge> REF_BIAS. a_ir a' x = a_ir a x" using a'(6) True by (auto simp: b(7))
    moreover have "\<forall>q. bit (a_freeset a') q \<longleftrightarrow> bit (a_freeset a) q \<or> q \<in> set (r # rs) \<and> rc_ref (a_cost a q) < REF_BIAS"
      using a'(7) True r(3) by (auto simp: b(5,6) bit_rs_simps ref_def)
    ultimately show ?thesis
      unfolding e
      using a' same_ir_trans [OF b(3) a'(3)] grows_trans [OF rematConstant_grows_ok [OF b(1) True] a'(4)]
        table_code_trans [OF alloc_table [OF b(4)] a'(5) same_ir_mcend [OF b(3)]] b(6)
      by auto
  qed
qed

lemma evictConstants_ok:
  assumes ok: "ra_ok lim a" and lits: "lits_ok v K (a_buf a)"
  shows "\<exists>a'. evictConstants a = Inr ((), a') \<and> ra_ok lim a' \<and> grows a a' \<and> table_code v K lim a a' \<and>
    (\<forall>x \<ge> REF_BIAS. a_ir a' x = a_ir a x) \<and> (\<forall>x < REF_BIAS. ra_live lim a x \<longrightarrow> \<not> isReg (reg_of a' x))"
proof -
  define rs where "rs = rs_members (rs_intersect (rs_complement (a_freeset a)) kGPR)"
  have m: "r \<in> set rs \<longleftrightarrow> bit kGPR r \<and> \<not> bit (a_freeset a) r" for r
    using gpr_less [of r] by (auto simp: rs_def rs_members_def rs_test_bit bit_rs_simps)
  have "distinct rs" by (simp add: rs_def rs_members_def)
  with evictConstants_loop_ok [OF ok lits, of rs] m obtain a' where
    a': "evictConstants_loop rs a = Inr ((), a')" "ra_ok lim a'" "same_ir a a'" "grows a a'" "table_code v K lim a a'"
      "\<forall>x \<ge> REF_BIAS. a_ir a' x = a_ir a x"
      "\<forall>r. bit (a_freeset a') r \<longleftrightarrow> bit (a_freeset a) r \<or> r \<in> set rs \<and> rc_ref (a_cost a r) < REF_BIAS"
      "a_cost a' = a_cost a" by auto
  have "\<not> isReg (reg_of a' x)" if x: "x < REF_BIAS" "ra_live lim a x" for x
  proof
    assume i: "isReg (reg_of a' x)"
    have x': "ra_live lim a' x" using x(2) by (simp add: same_ir_fields(8) [OF a'(3)])
    note d = regs_okD(2-4) [OF ra_okD(3) [OF a'(2)] x' i]
    have "rc_ref (a_cost a (reg_of a' x)) = x" using d(3) by (simp add: a'(8))
    then show False using a'(7) d(1,2) m x(1) by auto
  qed
  then show ?thesis using a' by (auto simp: evictConstants_def rs_def)
qed

text \<open>Nothing is in a register or spill slot where a root trace starts.\<close>

lemma root_agree:
  assumes ok: "ra_ok REF_FIRST f" and ov: "only_values a REF_FIRST f"
    and lit: "\<forall>x < REF_BIAS. ra_live REF_FIRST f x \<longrightarrow> \<not> isReg (reg_of f x)" and s: "ctx_ok K s"
  shows "agree v K REF_FIRST f s"
proof -
  have "\<not> ir_hasRegOrSpill (a_ir f x)" if x: "ra_live REF_FIRST f x" for x
  proof (cases "x < REF_BIAS")
    case True
    then show ?thesis
      using lit x ra_okD(4) [OF ok] by (simp add: ir_hasRegOrSpill_def lits_alloc_ok_def)
  next
    case False
    then have "x = REF_BASE" "REF_BIAS \<le> x" "x < REF_FIRST"
      using x by (simp_all add: ra_live_def REF_FIRST_def REF_BASE_def REF_BIAS_def)
    then show ?thesis using ov by (simp add: only_values_def has_value_def)
  qed
  then show ?thesis using s by (simp add: agree_def ir_hasRegOrSpill_def)
qed


lemma outcome_tables:
  assumes "outcome v K n a f k r" and "\<forall>x \<ge> REF_BIAS. a_ir f' x = a_ir f x"
  shows "outcome v K n a f' k r"
proof -
  have "restores v K a f' j s" if "restores v K a f j s" for j s
    using that assms(2) by (simp add: restores_def)
  then show ?thesis using assms(1) by (auto simp: outcome_def split: option.splits)
qed

lemma compile_body_outcome:
  assumes tr: "trace_ok v K n a" and ok: "ra_ok n a" and ov: "only_values a n a" and root: "a_stopins a = REF_FIRST"
  shows "compile_body n a = Inl (Exit 1) \<or>
    (compile_body n a = Inl AssertFailed \<and> out_of_reach n a) \<or>
    (\<exists>f. compile_body n a = Inr ((), f) \<and> grows a f \<and>
      (\<forall>s. ctx_ok K s \<longrightarrow> outcome v K n a f REF_FIRST (xrun (a_mcend a) (a_mc f) s)))"
proof -
  have n: "REF_FIRST \<le> n" using tr root by (simp add: trace_ok_def)
  have out: "outcome v K n a c REF_FIRST (xrun (a_mcend a) (a_mc c) s)"
    if "loop_inv v K n a REF_FIRST c" "agree v K REF_FIRST c s" for c s
    using loop_inv_outcome [OF that(1) ok that(2)] .
  have "a_stopins a \<le> REF_FIRST" using root by simp
  from loop_invariant [OF tr ok ov this n] show ?thesis
  proof (elim disjE exE conjE, goal_cases)
    case 1 then show ?case using root by (simp add: compile_body_def)
  next
    case 2 then show ?case using root by (simp add: compile_body_def)
  next
    case (3 c)
    have i: "ra_ok REF_FIRST c" "grows a c" "only_values a REF_FIRST c" using 3(2) by (simp_all add: loop_inv_def)
    have st: "same_trace a c" using i(2) by (simp add: grows_def)
    have lits: "lits_ok v K (a_buf c)" using tr by (simp add: trace_ok_def same_traceD [OF st])
    from evictConstants_ok [OF i(1) lits] obtain f where
      f: "evictConstants c = Inr ((), f)" "ra_ok REF_FIRST f" "grows c f" "table_code v K REF_FIRST c f"
        "\<forall>x \<ge> REF_BIAS. a_ir f x = a_ir c x"
        "\<forall>x < REF_BIAS. ra_live REF_FIRST c x \<longrightarrow> \<not> isReg (reg_of f x)" by blast
    have ovf: "only_values a REF_FIRST f" using i(3) f(5) by (simp add: only_values_def)
    have "outcome v K n a f REF_FIRST (xrun (a_mcend a) (a_mc f) s)" if s: "ctx_ok K s" for s
    proof -
      have "agree v K REF_FIRST f s"
        by (rule root_agree [OF f(2) ovf _ s]) (use f(3,6) in \<open>simp add: trace_stop\<close>)
      with f(4) obtain s1 where s1: "agree v K REF_FIRST c s1"
          "xrun (a_mcend a) (a_mc f) s = xrun (a_mcend a) (a_mc c) s1"
        unfolding table_code_def trace_stop(3) [OF i(2)] by blast
      show ?thesis unfolding s1(2) by (rule outcome_tables [OF out [OF 3(2) s1(1)] f(5)])
    qed
    then show ?case using 3 f(1) root grows_trans [OF i(2) f(3)] by (simp add: compile_body_def)
  qed
qed

text \<open>
  \<^bold>\<open>C1.\<close> The compiled code of a root trace does what the trace says.  Let \<open>v\<close> give every instruction of a
  trace of stack loads, field loads, 64 bit arithmetic, shifts and comparisons with constants the value
  that its operands determine.  Then compiling the body ends with the fatal error for too many spills, or with the
  assertion for a stub out of a jump's reach, or with code that in every machine state with the frame of \<open>K\<close>
  reaches the trace's tail with all values in place when every guard holds, and otherwise leaves for
  the stub of the first guard that fails, at which every entry of the guard's snapshot has its value in the register or
  the spill slot from which it is restored.
\<close>

theorem compiled_root_trace:
  assumes "trace_ok v K n a" and "ra_ok n a" and "only_values a n a" and "a_stopins a = REF_FIRST"
  shows "compile_body n a = Inl (Exit 1) \<or>
    (compile_body n a = Inl AssertFailed \<and> out_of_reach n a) \<or>
    (\<exists>f. compile_body n a = Inr ((), f) \<and>
      (\<forall>s. ctx_ok K s \<longrightarrow> outcome v K n a f REF_FIRST (xrun (a_mcend a) (a_mc f) s)))"
  using compile_body_outcome [OF assms] by blast

section \<open>A trace compiled\<close>

definition demo_ins :: "nat \<Rightarrow> nat \<Rightarrow> u1 \<Rightarrow> irop \<Rightarrow> ir" where
  "demo_ins x y t op = \<lparr>ir_op1 = x, ir_op2 = y, ir_t = t, ir_o = op, ir_prev = 0xff\<rparr>"

definition demo_exit_snap :: snapshot where
  "demo_exit_snap = \<lparr>sn_ref = 0x8003, sn_mapofs = 0, sn_relbase = 0, sn_entries = 1, sn_framesize = 4,
     sn_exitCounter = 0, sn_steps = 0, sn_lastHeapEntry = 0, sn_pc = 0x40, sn_mcode = 0\<rparr>"

text \<open>A trace that adds 5 to the first slot of the frame and goes on when the sum is less than 5.\<close>

definition demo_trace :: assembler where
  "demo_trace = demo_asm\<lparr>a_freeset := kGPR, a_nins := 0x8004,
     a_buf := demo_buf\<lparr>ib_bufmin := 0x7fff, ib_bufmax := 0x8004, ib_snaps := [demo_exit_snap],
       ib_snapmap := \<lparr>sd_data = [0x8002], sd_index = 1\<rparr>,
       ib_buffer := (\<lambda>_. demo_ins 0 0 IRT_PTR kBASE)
         (0x7fff := demo_ins 5 0 IRT_I64 kKINT, 0x8001 := demo_ins 0 0 IRT_I64 kSLOAD,
          0x8002 := demo_ins 0x8001 0x7fff IRT_I64 kADD,
          0x8003 := demo_ins 0x8002 0x7fff (IRT_VOID OR IRT_GUARD) kLT)\<rparr>\<rparr>"

lemma demo_ir: "a_ir demo_trace x =
    (if x = 0x7fff then demo_ins 5 0 IRT_I64 kKINT else if x = 0x8001 then demo_ins 0 0 IRT_I64 kSLOAD
     else if x = 0x8002 then demo_ins 0x8001 0x7fff IRT_I64 kADD
     else if x = 0x8003 then demo_ins 0x8002 0x7fff (IRT_VOID OR IRT_GUARD) kLT
     else demo_ins 0 0 IRT_PTR kBASE)"
  by (simp add: a_ir_def demo_trace_def)

definition demo_values :: "nat \<Rightarrow> u8" where
  "demo_values = (\<lambda>_. 0)(0x7fff := 5, 0x8002 := 5)"

lemma demo_fields:
  "ib_bufmin (a_buf demo_trace) = 0x7fff" "a_stopins demo_trace = 0x8001" "a_freeset demo_trace = kGPR"
  "a_snapno demo_trace = 0" "a_spills demo_trace = ss_reset" "ib_snaps (a_buf demo_trace) = [demo_exit_snap]"
  "ib_snapmap (a_buf demo_trace) = \<lparr>sd_data = [0x8002], sd_index = 1\<rparr>"
  "ib_bufmax (a_buf demo_trace) = 0x8004" "ib_buffer (a_buf demo_trace) x = a_ir demo_trace x"
  by (simp_all add: demo_trace_def demo_asm_def a_ir_def)

lemma demo_regs: "reg_of demo_trace x = RID_INIT" "slot_of demo_trace x = 0"
  by (simp_all add: demo_ir demo_ins_def ir_reg_def ir_spill_def RID_INIT_def)

lemma demo_ra_ok: "ra_ok 0x8004 demo_trace"
proof -
  have "\<not> isReg RID_INIT" by (simp add: isReg_def RID_INIT_def RID_NONE_def)
  then show ?thesis
    by (simp add: ra_ok_def regs_ok_def lits_alloc_ok_def slots_ok_def demo_fields demo_regs REF_BIAS_def
        ss_wf_def slot_avail_def ss_reset_def)
qed

lemma demo_literal: "ib_literalValue (a_buf demo_trace) 0x7fff = Inr 5"
  by (simp add: ib_literalValue_def ib_ir_def demo_fields demo_ir demo_ins_def lc_assert_def
      irt_defs typebit_def kOpIsSigned_def ir_type_def ir_op12_def)

lemma demo_lits: "lits_ok demo_values demo_kctx (a_buf demo_trace)"
proof -
  have "0x7fff \<le> x \<and> x < 0x8000 \<longleftrightarrow> x = 0x7fff" for x :: nat by auto
  then show ?thesis
    by (simp add: lits_ok_def demo_fields REF_BIAS_def demo_ir demo_ins_def demo_literal demo_values_def)
qed

lemma demo_only_values: "only_values demo_trace 0x8004 demo_trace"
proof -
  have "\<not> ir_hasRegOrSpill (a_ir demo_trace x)" for x
    by (simp add: ir_hasRegOrSpill_def demo_regs isReg_def RID_INIT_def RID_NONE_def)
  then show ?thesis by (simp add: only_values_def)
qed

lemma demo_guards: "ir_isGuard (a_ir demo_trace x) \<longleftrightarrow> x = 0x8003"
  by (simp add: demo_ir demo_ins_def ir_isGuard_def irt_defs)

lemma demo_outside: "word_outside demo_kctx (stack_word demo_kctx 0)"
proof -
  have "\<not> spill_area demo_kctx (stack_word demo_kctx 0 + of_nat i)" if "i \<in> set [0..<8]" for i
    using that
    by (simp add: upt_rec stack_word_def spill_area_def slot_addr_def demo_kctx_def spillOffset_def SPILL_SP_OFFS_def)
     (elim disjE; simp)
  then show ?thesis by (simp add: word_outside_def)
qed

lemma demo_word: "rd64 (kc_mem demo_kctx) p = 0"
  by (simp add: rd_le_def demo_kctx_def upt_rec)

lemma demo_operands: "opnd demo_trace 0x8002 0x8001" "opnd demo_trace 0x8002 0x7fff" "opnd demo_trace 0x8003 0x8002"
    "allocatable 0x8003 demo_trace 0x7fff" "has_value demo_trace 0x8002"
  by (simp_all add: opnd_def allocatable_def ra_live_def has_value_def value_lit_def demo_literal demo_fields
      demo_guards REF_BASE_def REF_BIAS_def) (simp_all add: demo_ir demo_ins_def)

lemma demo_load: "value_ok demo_values demo_kctx demo_trace 0x8001"
  using demo_outside
  by (simp add: value_ok_def demo_ir demo_ins_def demo_values_def demo_word)

lemma demo_add: "value_ok demo_values demo_kctx demo_trace 0x8002"
  using demo_operands(1,2)
  by (simp add: value_ok_def demo_ir demo_ins_def demo_values_def arith_val_def unary_op_def)

lemma demo_exit_stub: "exitstubAddr 0 demo_trace = Inr 0x10000000"
  by (simp add: exitstubAddr_def exitStubGroup_at_def lc_assert_def demo_trace_def demo_asm_def demo_jit_def)

lemma demo_guard: "guard_ok demo_values 0x8004 demo_trace 0x8003"
proof -
  have g: "guard_refs demo_trace 0x8003 0x8004 = [0x8003]" "guard_refs demo_trace 0x8004 0x8004 = []"
    by (simp_all add: guard_refs_def demo_guards upt_rec)
  have "snap_entries demo_trace 0 = [0]"
    by (simp add: snap_entries_def demo_fields demo_exit_snap_def sn_begin_def sn_end_def)
  moreover have "sd_slotRef \<lparr>sd_data = [0x8002], sd_index = 1\<rparr> 0 = Inr 0x8002"
    by (simp add: sd_slotRef_def sd_at_def)
  moreover have "ra_live 0x8003 demo_trace 0x8002" by (simp add: ra_live_def demo_fields)
  moreover have "checki32 5" by (simp add: checki32_def)
  ultimately show ?thesis
    using demo_operands(3-5) g demo_exit_stub
    by (simp add: guard_ok_def snapno_of_def demo_fields compare_ops_def irref_islit_def REF_BIAS_def demo_exit_snap_def)
     (simp add: demo_ir demo_ins_def demo_values_def)
qed

lemma demo_trace_ok: "trace_ok demo_values demo_kctx 0x8004 demo_trace"
proof -
  have "x = 0x8001 \<or> x = 0x8002 \<or> x = 0x8003" if "0x8001 \<le> x" "x < 0x8004" for x :: nat using that by linarith
  then show ?thesis
   using demo_lits demo_load demo_add demo_guard
   by (auto simp: trace_ok_def demo_fields demo_guards REF_BIAS_def)
qed

lemmas demo_eval = a_ir_def demo_ins_def ir_reg_def ir_spill_def ir_setReg_def isReg_def RID_NONE_def REF_BIAS_def RID_INIT_def
  irref_islit_def ir_hasRegOrSpill_def lc_assert_def rs_isEmpty_def rs_intersect_def kGPR_val isNoReg_def
  hasHint_def getHint_def RID_MASK_def rs_test_def rs_clear_def a_updIr_def useReg_def rs_pickBot_def rs_pickTop_def canRemat_def
  ir_isGuard_def irt_defs a_snap_def sn_begin_def sn_end_def sd_slotRef_def sd_at_def
  ib_literalValue_def ib_ir_def checki32_def a_mcp_def typebit_def kOpIsSigned_def ir_type_def ir_op12_def
  RID_MAX_GPR_def rs_set_def

lemmas demo_code = assemble_ins_def snapshotAlloc_def snapshotAlloc1_def allocRef_def emit_def
  compare_guard_def compare_def alloc1_def is32BitLiteral_def guardcc_def a_emit_def a_emitRel_def
  a_setSnapMcode_def exitstubAddr_def exitStubGroup_at_def jmprel_def intArith_def destReg_def allocLeft_def
  emitSLOAD_def setHint_def freeReg_def modifiedReg_def asm_compmap_def

lemma demo_pick: "lc_ffs 0xefcf = 0"
  by (simp add: lc_ffs_def upt_conv_Cons)

lemma demo_no_members: "rs_members 0 = []"
  by (simp add: rs_members_def rs_test_def)

lemma demo_compiled: "\<exists>c. compile_body 0x8004 demo_trace = Inr ((), c)"
proof -
  have "rev [0x8001..<0x8004] = [0x8003, 0x8002, 0x8001]" by (simp add: upt_conv_Cons)
  then show ?thesis
    unfolding compile_body_def demo_fields
    by (simp add: demo_trace_def demo_exit_snap_def demo_asm_def demo_eval demo_jit_def demo_code
      demo_pick XOg_X_IMUL_def XOg_ADD_def RID_MIN_FPR_def evictConstants_def rs_complement_def demo_no_members)
qed

lemma demo_first_fail: "first_fail demo_values demo_trace [REF_FIRST..<0x8004] = Some 0x8003"
  by (simp add: first_fail_def REF_FIRST_def REF_BIAS_def demo_guards upt_conv_Cons guard_true_def guard_holds_def)
    (simp add: demo_ir demo_ins_def demo_values_def)

text \<open>
  The demonstration trace is compiled; its code, run in any state with this frame, leaves for the stub of
  its only exit, because 5 is not less than 5, and there the sum is where the exit code reads it.
\<close>

theorem compiled_root_trace_witness:
  "trace_ok demo_values demo_kctx 0x8004 demo_trace \<and> ra_ok 0x8004 demo_trace \<and>
   only_values demo_trace 0x8004 demo_trace \<and> a_stopins demo_trace = REF_FIRST \<and>
   (\<exists>f. compile_body 0x8004 demo_trace = Inr ((), f) \<and>
     (\<forall>s. ctx_ok demo_kctx s \<longrightarrow> (\<exists>s'. xrun 0x10400000 (a_mc f) s = Some (Left_for 0x10000000 s') \<and>
        restores demo_values demo_kctx demo_trace f 0 s')))"
proof -
  have stop: "a_stopins demo_trace = REF_FIRST" by (simp add: demo_fields REF_FIRST_def REF_BIAS_def)
  obtain f where f: "compile_body 0x8004 demo_trace = Inr ((), f)" using demo_compiled by blast
  from compiled_root_trace [OF demo_trace_ok demo_ra_ok demo_only_values stop] f
  have out: "\<forall>s. ctx_ok demo_kctx s \<longrightarrow>
      outcome demo_values demo_kctx 0x8004 demo_trace f REF_FIRST (xrun (a_mcend demo_trace) (a_mc f) s)"
    by auto
  have "snapno_of 0x8004 demo_trace 0x8003 = 0" by (simp add: snapno_of_def demo_fields)
  moreover have "a_mcend demo_trace = 0x10400000" by (simp add: demo_trace_def demo_asm_def)
  ultimately show ?thesis
    using demo_trace_ok demo_ra_ok demo_only_values stop f out demo_exit_stub demo_first_fail by (auto simp: outcome_def)
qed

end
