(* ===== verification/Exits.thy ===== *)
theory Exits
  imports Recorder TraceCode
begin

text \<open>
  Leaving compiled code (\<^verbatim>\<open>src/vm/jit.cc\<close>, \<^verbatim>\<open>src/vm/amd64/fragment.cc\<close>): what \<^verbatim>\<open>asmExit\<close> saves, how
  \<^verbatim>\<open>Fragment::restoreSnapshot\<close> rebuilds the interpreter's stack frame from it, and how an exit that has
  become hot starts the recording of a side trace.

  The theorems join the parts of the tracing compiler: a guard recorded for a branch holds exactly when the
  interpreter would take the same branch, and after the machine code of a trace has left through a
  failing guard, restoring the guard's snapshot puts the value of every entry into its stack slot.
\<close>

section \<open>The exit state\<close>

text \<open>\<^verbatim>\<open>ExitState\<close>, without the floating-point registers; its thread is the one of the interpreter's state.\<close>

record exit_state =
  ex_gpr :: "nat \<Rightarrow> u8"
  ex_hplim :: u8
  ex_stacklim :: u8
  ex_F_id :: u4
  ex_spill :: "nat \<Rightarrow> u8"

definition TRACE_ID_NONE :: u4 where "TRACE_ID_NONE = -1"

text \<open>
  What \<^verbatim>\<open>asmExit\<close> builds on the stack: the registers in the order of their numbers below the words to which
  the stack pointer of the compiled code points (\<^verbatim>\<open>hplim\<close>, \<^verbatim>\<open>stacklim\<close>, a padding word, \<^verbatim>\<open>T\<close>,
  \<^verbatim>\<open>F_id\<close> and the spill slots).
\<close>

definition asmExit_state :: "xstate \<Rightarrow> exit_state" where
  "asmExit_state s =
     (let sp = x_reg s RID_ESP; word = (\<lambda>n. X86.rd_le 8 (x_mem s) (sp + of_nat n))
      in \<lparr>ex_gpr = x_reg s, ex_hplim = word HPLIM_SP_OFFS, ex_stacklim = word SPLIM_SP_OFFS,
          ex_F_id = ucast (word F_ID_OFFS), ex_spill = (\<lambda>n. word (SPILL_SP_OFFS + 8 * n))\<rparr>)"

text \<open>The exit number from the two bytes that the exit stub has pushed.\<close>

definition asmExit_number :: "u1 \<Rightarrow> u1 \<Rightarrow> nat" where
  "asmExit_number lo hi = unat lo + 256 * unat hi"

section \<open>Restoring a snapshot\<close>

definition restore_value :: "fragment \<Rightarrow> exit_state \<Rightarrow> u8 \<Rightarrow> nat \<Rightarrow> u8 result" where
  "restore_value F ex base ref =
     (let ins = fr_buffer F ref
      in if irref_islit ref then Inr (fr_literalValue F ref base)
         else if ir_spill ins \<noteq> 0 then Inr (ex_spill ex (ir_spill ins))
         else res_bind (lc_assert (isReg (ir_reg ins))) (\<lambda>_. Inr (ex_gpr ex (ir_reg ins))))"

fun restore_loop :: "fragment \<Rightarrow> exit_state \<Rightarrow> u8 \<Rightarrow> nat list \<Rightarrow> world \<Rightarrow> world result" where
  "restore_loop F ex base [] w = Inr w"
| "restore_loop F ex base (i # is) w =
     res_bind (sd_slotId (fr_snapmap F) i) (\<lambda>n.
     res_bind (sd_slotRef (fr_snapmap F) i) (\<lambda>ref.
     res_bind (restore_value F ex base ref) (\<lambda>v.
     res_bind (wr (word_at base n) v w) (restore_loop F ex base is))))"

text \<open>A hot exit at the end of a trace that falls back to the interpreter.\<close>

definition hot_fallthrough :: "(nat \<Rightarrow> u8 \<Rightarrow> u8 \<Rightarrow> u8) \<Rightarrow> nat \<Rightarrow> nat \<Rightarrow> u8 \<Rightarrow> u8 \<Rightarrow> unit recm" where
  "hot_fallthrough mmap F_id exitno pc base =
     rbind (reads (\<lambda>s. w_u4 (r_w s) pc)) (\<lambda>ins.
       if bc_opcode ins = Some JFUNC
       then rbind (\<lambda>s. res_bind (lookupFragment pc (r_j s)) (\<lambda>(F, j). Inr (F, s\<lparr>r_j := j\<rparr>))) (\<lambda>target.
            rthen (rec_assert (\<lambda>_. fr_traceId target = unat (bc_d ins)))
                  (\<lambda>s. res_bind (fragment_at F_id (r_j s)) (\<lambda>F.
                       res_bind (patchFallthrough mmap F exitno target (j_asm (r_j s))) (\<lambda>(_, a).
                         Inr ((), s\<lparr>r_j := (r_j s)\<lparr>j_asm := a\<rparr>\<rparr>)))))
       else rthen (beginRecording pc base (\<not> (bc_opcode ins = Some FUNC \<or> bc_opcode ins = Some IFUNC)))
           (rthen (setFallthroughParent F_id exitno)
                  (\<lambda>s. res_bind (setState STATE_RECORD (r_i s)) (\<lambda>i. Inr ((), s\<lparr>r_i := i\<rparr>)))))"

definition hot_side_exit :: "nat \<Rightarrow> nat \<Rightarrow> u8 \<Rightarrow> unit recm" where
  "hot_side_exit F_id exitno base =
     rthen (beginSideTrace base F_id exitno)
           (\<lambda>s. res_bind (setState STATE_RECORD (r_i s)) (\<lambda>i. Inr ((), s\<lparr>r_i := i\<rparr>)))"

definition set_snap :: "nat \<Rightarrow> nat \<Rightarrow> snapshot \<Rightarrow> jit \<Rightarrow> jit" where
  "set_snap F_id exitno sn j =
     j_setFragments ((j_fragments j)[F_id := (j_fragments j ! F_id)
       \<lparr>fr_snaps := (fr_snaps (j_fragments j ! F_id))[exitno := sn]\<rparr>]) j"

text \<open>
  \<^verbatim>\<open>restoreSnapshot\<close>.  The heap pointers of the exit (\<^verbatim>\<open>traceExitHp_\<close>, \<^verbatim>\<open>traceExitHpLim_\<close>) become
  those of the interpreter when \<^verbatim>\<open>asmEnter\<close> returns.
\<close>

definition exit_frame :: "fragment \<Rightarrow> snapshot \<Rightarrow> irop \<Rightarrow> exit_state \<Rightarrow> u8 recm" where
  "exit_frame F sn op ex s =
     (let base = ex_gpr ex RID_BASE;
          base' = (if sn_relbase sn \<noteq> 0 \<and> op \<noteq> kSAVE then word_at base (sint (sn_relbase sn)) else base)
      in res_bind (if op \<noteq> kSAVE then restore_loop F ex base [sn_begin sn..<sn_end sn] (r_w s) else Inr (r_w s)) (\<lambda>w.
           let i = set_w w (r_i s);
               T = (i_T i)\<lparr>th_base := base', th_top := word_at base' (uint (sn_framesize sn)), th_pc := sn_pc sn\<rparr>
           in Inr (base', s\<lparr>r_i := i\<lparr>i_T := T, i_heap := ex_gpr ex RID_HP, i_heaplim := ex_hplim ex\<rparr>\<rparr>)))"

definition restoreSnapshot :: "(nat \<Rightarrow> u8 \<Rightarrow> u8 \<Rightarrow> u8) \<Rightarrow> nat \<Rightarrow> nat \<Rightarrow> exit_state \<Rightarrow> unit recm" where
  "restoreSnapshot mmap F_id exitno ex =
     rbind (reads (\<lambda>s. fragment_at F_id (r_j s))) (\<lambda>F.
     rbind (reads (\<lambda>_. fr_snap exitno F)) (\<lambda>sn.
       let snapins = fr_buffer F (unat (sn_ref sn)); op = ir_o snapins
       in rbind (exit_frame F sn op ex) (\<lambda>base.
          if op = kHEAPCHK then upd_i (\<lambda>i. i\<lparr>i_heap := i_heap i - of_nat (8 * ir_op1 snapins)\<rparr>)
          else case sn_bumpExitCounter sn of (hot, sn') \<Rightarrow>
            rthen (upd_j (set_snap F_id exitno sn'))
              (if \<not> hot then ret ()
               else if op = kSAVE \<and> ir_op1 snapins = IR_SAVE_FALLTHROUGH
               then hot_fallthrough mmap F_id exitno (sn_pc sn) base
               else hot_side_exit F_id exitno base))))"

definition exitTrace :: "(nat \<Rightarrow> u8 \<Rightarrow> u8 \<Rightarrow> u8) \<Rightarrow> nat \<Rightarrow> exit_state \<Rightarrow> unit recm" where
  "exitTrace mmap n ex =
     (if ex_F_id ex = TRACE_ID_NONE then ret ()
      else rthen (reads (\<lambda>s. traceById (unat (ex_F_id ex)) (r_j s)))
             (restoreSnapshot mmap (unat (ex_F_id ex)) n ex))"

text \<open>
  \<^verbatim>\<open>heapCheckFail\<close>: 0 when the allocator has another block, and then the heap pointer and limit in the
  exit state are those of the block.
\<close>

definition heapCheckFail :: "os \<Rightarrow> exit_state \<Rightarrow> ((nat \<times> exit_state) recm)" where
  "heapCheckFail os ex s =
     res_bind (bumpAllocatorFullNoGC os (ex_gpr ex RID_HP) (ex_hplim ex) (i_mm (r_i s))) (\<lambda>((ok, hp, lim), m).
       Inr ((ok, ex\<lparr>ex_gpr := (ex_gpr ex)(RID_HP := hp), ex_hplim := lim\<rparr>),
            s\<lparr>r_i := (r_i s)\<lparr>i_mm := m\<rparr>\<rparr>))"

text \<open>The words allocated since the last heap check before an exit, less what that check reserved.\<close>

fun free_heap_loop :: "fragment \<Rightarrow> nat list \<Rightarrow> int \<Rightarrow> int result" where
  "free_heap_loop F [] used = Inr used"
| "free_heap_loop F (ref # refs) used =
     (let ins = fr_buffer F ref
      in if ir_o ins = kNEW
         then res_bind (ah_entry_at (fr_heap F) (ir_op2 ins)) (\<lambda>e. free_heap_loop F refs (used + 1 + int (ahe_size e)))
         else if ir_o ins = kHEAPCHK then Inr (used - int (ir_op1 ins))
         else free_heap_loop F refs used)"

definition checkFreeHeapAvail :: "fragment \<Rightarrow> nat \<Rightarrow> int result" where
  "checkFreeHeapAvail F snapno =
     res_bind (fr_snap snapno F) (\<lambda>sn. free_heap_loop F (rev [REF_FIRST..<unat (sn_ref sn)]) 0)"

section \<open>Branches of the interpreter\<close>

text \<open>
  \<^verbatim>\<open>Capability::interpBranch\<close> with its effects: a branch to the head of a compiled trace runs the trace, and one
  that has become hot starts a recording.  \<open>enter\<close> is \<^verbatim>\<open>asmEnter\<close>, which runs the code at an address for a
  trace until \<^verbatim>\<open>exitTrace\<close> has restored the interpreter's state.  The result is the next program counter;
  with a new recording it is that of \<^verbatim>\<open>SYNC\<close>, which loads the state from the thread.
\<close>

definition enter_trace :: "(nat \<Rightarrow> u8 \<Rightarrow> recorder \<Rightarrow> recorder result) \<Rightarrow> u8 \<Rightarrow> fragment \<Rightarrow> u8 recm" where
  "enter_trace enter dstPc F s =
     (let i = r_i s
      in res_bind (enter (fr_traceId F) (fr_mcode F) (s\<lparr>r_i := i\<lparr>i_T := th_sync dstPc (i_base i) (i_T i)\<rparr>\<rparr>)) (\<lambda>s.
         let i = load_state (r_i s)
         in res_bind (slot i (-1)) (\<lambda>cl.
            res_bind (closure_code (i_w i) cl) (\<lambda>c. Inr (i_pc i, s\<lparr>r_i := i\<lparr>i_code := c\<rparr>\<rparr>)))))"

definition start_recording :: "u8 \<Rightarrow> u8 \<Rightarrow> bool \<Rightarrow> u8 recm" where
  "start_recording reload_state_pc dstPc is_return =
     rthen (upd_i (\<lambda>i. i\<lparr>i_T := th_sync dstPc (i_base i) (i_T i)\<rparr>))
    (rthen (\<lambda>s. res_bind (setState STATE_RECORD (r_i s)) (\<lambda>i. Inr ((), s\<lparr>r_i := i\<rparr>)))
    (rbind (reads (\<lambda>s. Inr (i_base (r_i s)))) (\<lambda>base.
     rthen (beginRecording dstPc base is_return) (ret reload_state_pc))))"

definition cap_interpBranch ::
    "(nat \<Rightarrow> u8 \<Rightarrow> recorder \<Rightarrow> recorder result) \<Rightarrow> u8 \<Rightarrow> u8 \<Rightarrow> u8 \<Rightarrow> bool \<Rightarrow> u8 recm" where
  "cap_interpBranch enter reload_state_pc srcPc dstPc is_return s =
     (if isRecording (r_i s) then Inr (dstPc, s)
      else
        res_bind (isStartOfTrace (r_w s) srcPc dstPc is_return) (\<lambda>st.
          if \<not> st then Inr (dstPc, s)
          else
            res_bind (traceAt dstPc (r_j s)) (\<lambda>F.
              case F of
                Some F \<Rightarrow> enter_trace enter dstPc F s
              | None \<Rightarrow>
                (case hc_tick (r_hot s) dstPc of (hot, hc) \<Rightarrow>
                   let s = s\<lparr>r_hot := hc\<rparr>
                   in if hot \<and> dstPc \<noteq> stg_UPD_return_pc (i_misc (r_i s))
                      then start_recording reload_state_pc dstPc is_return s
                      else Inr (dstPc, s)))))"

section \<open>Guards for branches\<close>

lemma branch_irop:
  "map (\<lambda>op. irop_of_num (unat (bcCond2irCond op False))) [ISLT, ISGE, ISLE, ISGT, ISEQ, ISNE, ISLTU, ISGEU, ISLEU, ISGTU] =
     map Inr [kLT, kGE, kLE, kGT, kEQ, kNE, kLTU, kGEU, kLEU, kGTU]"
  "map (\<lambda>op. irop_of_num (unat (bcCond2irCond op True))) [ISLT, ISGE, ISLE, ISGT, ISEQ, ISNE, ISLTU, ISGEU, ISLEU, ISGTU] =
     map Inr [kGE, kLT, kGT, kLE, kNE, kEQ, kGEU, kLTU, kGTU, kLEU]"
proof -
  have n: "irop_num kLT = 0" by (simp add: irop_num_def IRDEF_def)
  have o: "map opcode_num [ISLT, ISGE, ISLE, ISGT, ISEQ, ISNE, ISLTU, ISGEU, ISLEU, ISGTU] = [0, 1, 2, 3, 4, 5, 6, 7, 8, 9]"
    by (simp add: opcode_num_def BCDEF_def)
  show "map (\<lambda>op. irop_of_num (unat (bcCond2irCond op False))) [ISLT, ISGE, ISLE, ISGT, ISEQ, ISNE, ISLTU, ISGEU, ISLEU, ISGTU] =
     map Inr [kLT, kGE, kLE, kGT, kEQ, kNE, kLTU, kGEU, kLEU, kGTU]"
    using o by (simp add: bcCond2irCond_def n opc_byte_def irop_of_num_def IRDEF_def)
  show "map (\<lambda>op. irop_of_num (unat (bcCond2irCond op True))) [ISLT, ISGE, ISLE, ISGT, ISEQ, ISNE, ISLTU, ISGEU, ISLEU, ISGTU] =
     map Inr [kGE, kLT, kGT, kLE, kNE, kEQ, kGEU, kLTU, kGTU, kLEU]"
    using o by (simp add: bcCond2irCond_def n opc_byte_def irop_of_num_def IRDEF_def)
qed

text \<open>
  \<^bold>\<open>C10.\<close> The guard recorded for a conditional branch says which way the branch went.  For each comparison
  instruction the recorder evaluates the condition as the interpreter does, and the opcode it computes by arithmetic on
  opcode numbers is a comparison that holds for two values exactly if the interpreter's branch goes the same
  way for them as it did for the values in the registers while the trace was recorded.
\<close>

theorem branch_guard:
  assumes "branch_cond op = Some c"
  shows "\<exists>taken g. evalCond op x y = Inr taken \<and> taken = c x y \<and>
    irop_of_num (unat (bcCond2irCond op (\<not> taken))) = Inr g \<and> g \<in> set compare_ops \<and>
    (\<forall>x' y'. guard_holds g x' y' \<longleftrightarrow> c x' y' = c x y)"
proof -
  have e: "evalCond op x y = Inr (c x y)"
    using assms by (cases op) (auto simp: evalCond_def word_sless_alt word_sle_eq)
  have "\<exists>g. irop_of_num (unat (bcCond2irCond op (\<not> c x y))) = Inr g \<and> g \<in> set compare_ops \<and>
      (\<forall>x' y'. guard_holds g x' y' \<longleftrightarrow> c x' y' = c x y)"
    by (cases "c x y"; insert assms branch_irop; cases op;
        simp add: compare_ops_def guard_holds_def not_le not_less; auto)
  with e show ?thesis by auto
qed

text \<open>While recording, 7 was not less than 5: the guard holds for 7 and 5, and not for 3 and 5.\<close>

theorem branch_guard_witness:
  "\<exists>g. irop_of_num (unat (bcCond2irCond ISLT True)) = Inr g \<and> guard_holds g 7 5 \<and> \<not> guard_holds g 3 5"
  using branch_guard [of ISLT "\<lambda>x y. sint x < sint y" 7 5] by auto

section \<open>Restoring\<close>

lemma restore_loop_writes:
  assumes "\<And>i. i \<in> set is \<Longrightarrow> sd_slotId (fr_snapmap F) i = Inr (sl i)"
    and "\<And>i. i \<in> set is \<Longrightarrow> sd_slotRef (fr_snapmap F) i = Inr (rf i)"
    and "\<And>i. i \<in> set is \<Longrightarrow> restore_value F ex base (rf i) = Inr (val i)"
    and "\<And>i. i \<in> set is \<Longrightarrow> word_at base (sl i) \<in> dom (w_mem w)"
    and "distinct (map (\<lambda>i. word_at base (sl i)) is)"
  shows "\<exists>w'. restore_loop F ex base is w = Inr w' \<and>
    (\<forall>i \<in> set is. rd w' (word_at base (sl i)) = Inr (val i)) \<and>
    (\<forall>p. p \<notin> (\<lambda>i. word_at base (sl i)) ` set is \<longrightarrow> rd w' p = rd w p)"
  using assms
proof (induction "is" arbitrary: w)
  case (Cons i "is")
  obtain w1 where w1: "wr (word_at base (sl i)) (val i) w = Inr w1"
    using Cons.prems(4) [of i] wr_total by fastforce
  have d: "dom (w_mem w1) = dom (w_mem w)" using wr_frame [OF w1] by simp
  have "\<exists>w'. restore_loop F ex base is w1 = Inr w' \<and>
    (\<forall>i \<in> set is. rd w' (word_at base (sl i)) = Inr (val i)) \<and>
    (\<forall>p. p \<notin> (\<lambda>i. word_at base (sl i)) ` set is \<longrightarrow> rd w' p = rd w1 p)"
    by (rule Cons.IH) (use Cons.prems d in auto)
  then obtain w' where w': "restore_loop F ex base is w1 = Inr w'"
    "\<forall>i \<in> set is. rd w' (word_at base (sl i)) = Inr (val i)"
    "\<forall>p. p \<notin> (\<lambda>i. word_at base (sl i)) ` set is \<longrightarrow> rd w' p = rd w1 p" by blast
  have "restore_loop F ex base (i # is) w = Inr w'"
    using Cons.prems(1-3) [of i] w1 w'(1) by simp
  moreover have "rd w' (word_at base (sl i)) = Inr (val i)"
    using w'(3) Cons.prems(5) rd_wr [OF w1] by auto
  ultimately show ?case
    using w'(2,3) rd_wr [OF w1] by auto
qed simp

lemma sd_slotId_bound: "sd_slotId sd i = Inr n \<Longrightarrow> - 32768 \<le> n \<and> n < 32768"
proof -
  assume "sd_slotId sd i = Inr n"
  then obtain w :: u4 where n: "n = sint (signed_drop_bit 16 w)" by (auto simp: sd_slotId_def result)
  have "n = sint w div 65536" by (simp add: n sint_signed_drop_bit_eq drop_bit_eq_div)
  moreover have "- 2147483648 \<le> sint w" "sint w < 2147483648" using sint_greater_eq [of w] sint_less [of w] by simp_all
  ultimately show ?thesis by linarith
qed

lemma slots_distinct:
  assumes "distinct (map sl is)" and "\<And>i. i \<in> set is \<Longrightarrow> - 32768 \<le> sl i \<and> sl i < 32768"
  shows "distinct (map (\<lambda>i. word_at base (sl i)) is)"
proof -
  have "sl i = sl j" if "i \<in> set is" "j \<in> set is" "word_at base (sl i) = word_at base (sl j)" for i j
    using that assms(2) [of i] assms(2) [of j] word_at_inject [of "sl i" "sl j" base] by auto
  then show ?thesis using assms(1) by (auto simp: distinct_map inj_on_def)
qed

section \<open>From a failing guard to the interpreter's frame\<close>

text \<open>The fragment saved for a trace has the tables that the assembler ended with.\<close>

definition saved_tables :: "assembler \<Rightarrow> fragment \<Rightarrow> bool" where
  "saved_tables f F \<longleftrightarrow> fr_buffer F = ib_buffer (a_buf f) \<and> fr_snaps F = ib_snaps (a_buf f) \<and>
     sd_data (fr_snapmap F) = sd_data (ib_snapmap (a_buf f))"

text \<open>A literal of a snapshot; offsets of the base pointer are those of stack slots.\<close>

definition exit_lit :: "assembler \<Rightarrow> nat \<Rightarrow> bool" where
  "exit_lit a x \<longleftrightarrow> ib_bufmin (a_buf a) \<le> x \<and> value_lit (a_buf a) x \<and>
     (ir_o (a_ir a x) = kKBASEO \<longrightarrow> \<bar>sint (ir_op12 (a_ir a x))\<bar> < 2 ^ 28)"

lemma same_trace_fields:
  assumes "same_trace a b" and "j < length (ib_snaps (a_buf a))"
  shows "(ib_snaps (a_buf b) ! j)\<lparr>sn_mcode := 0\<rparr> = (ib_snaps (a_buf a) ! j)\<lparr>sn_mcode := 0\<rparr>"
proof -
  have "map (\<lambda>sn. sn\<lparr>sn_mcode := 0\<rparr>) (ib_snaps (a_buf b)) = map (\<lambda>sn. sn\<lparr>sn_mcode := 0\<rparr>) (ib_snaps (a_buf a))"
    using assms(1) by (simp add: same_trace_def prog_of_def)
  then show ?thesis using assms(2) by (metis (no_types, lifting) length_map nth_map)
qed

lemma literal_restored:
  assumes st: "same_trace a f" and F: "saved_tables f F" and lits: "lits_ok v K (a_buf a)"
    and x: "x < REF_BIAS" "exit_lit a x"
  shows "fr_literalValue F x (kc_base K) = v x"
proof -
  have i: "ir_o (fr_buffer F y) = ir_o (a_ir a y)" "ir_op12 (fr_buffer F y) = ir_op12 (a_ir a y)"
      "ir_type (fr_buffer F y) = ir_type (a_ir a y)" for y
    using F same_traceD(7-10) [OF st, of y]
    by (simp_all add: saved_tables_def a_ir_def ir_op12_def ir_type_def)
  have b: "ib_buffer (a_buf a) y = a_ir a y" for y by (simp add: a_ir_def)
  have mn: "ib_bufmin (a_buf a) \<le> x" using x(2) by (simp add: exit_lit_def)
  from x(2) consider (base) "ir_o (a_ir a x) = kKBASEO"
    | (lit) k where "ir_o (a_ir a x) = kKINT \<or> ir_o (a_ir a x) = kKWORD" "ib_literalValue (a_buf a) x = Inr k"
    by (auto simp: exit_lit_def value_lit_def b)
  then show ?thesis
  proof cases
    case base
    define o' where "o' = ir_op12 (a_ir a x)"
    have s: "\<bar>sint o'\<bar> < 2 ^ 28" using x(2) base by (simp add: exit_lit_def o'_def)
    have "scast (o' * 8) = (of_int (sint o' * 8) :: u8)"
    proof -
      have o: "o' * 8 = of_int (sint o' * 8)" by (simp only: of_int_mult of_int_numeral of_int_sint scast_id)
      have "- (2 ^ 31) \<le> sint o' * 8" "sint o' * 8 < 2 ^ 31" using s by (simp_all add: abs_less_iff)
      then show ?thesis unfolding o by (rule scast_of_int)
    qed
    moreover have "v x = kc_base K + scast (o' * 8)"
      using lits x(1) mn base by (simp add: lits_ok_def b o'_def)
    moreover have "8 * scast o' = (of_int (sint o' * 8) :: u8)"
      by (simp only: scast_eq of_int_mult of_int_numeral mult.commute)
    ultimately show ?thesis using base by (simp add: fr_literalValue_def i o'_def)
  next
    case lit
    then have "v x = k" using lits x(1) mn by (auto simp: lits_ok_def b)
    moreover have "fr_literalValue F x (kc_base K) = k"
      using lit by (auto simp: fr_literalValue_def i Let_def ib_literalValue_def b result ib_ir_def split: if_splits)
    ultimately show ?thesis by simp
  qed
qed

lemma exit_spill:
  assumes "ctx_ok K s" and "n < 256"
  shows "ex_spill (asmExit_state s) n = rd64 (x_mem s) (slot_addr K n)"
  using assms by (simp add: asmExit_state_def Let_def slot_addr_eq ctx_ok_def SPILL_SP_OFFS_def)

lemma exit_value:
  assumes st: "same_trace a f" and F: "saved_tables f F" and lits: "lits_ok v K (a_buf a)"
    and r: "restores v K a f j s" and e: "i \<in> set (snap_entries a j)" "sd_slotRef (ib_snapmap (a_buf a)) i = Inr x"
    and slots: "slots_ok n f" and x: "if x < REF_BIAS then exit_lit a x else ra_live n a x"
  shows "restore_value F (asmExit_state s) (kc_base K) x = Inr (v x)"
proof (cases "x < REF_BIAS")
  case True
  then show ?thesis
    using literal_restored [OF st F lits True] x by (simp add: restore_value_def irref_islit_def)
next
  case False
  have b: "fr_buffer F x = a_ir f x" using F by (simp add: saved_tables_def a_ir_def)
  have k: "ctx_ok K s" and v: "if slot_of f x \<noteq> 0 then rd64 (x_mem s) (slot_addr K (slot_of f x)) = v x
      else isReg (reg_of f x) \<and> x_reg s (reg_of f x) = v x"
    using r e False by (auto simp: restores_def not_less)
  have "ra_live n f x" using x False same_traceD(11) [OF st] by simp
  then have "slot_of f x < 256" using slots by (simp add: slots_ok_def)
  then show ?thesis
    using v False exit_spill [OF k] by (auto simp: restore_value_def b irref_islit_def asmExit_state_def Let_def lc_assert_def)
qed


text \<open>
  The entries of a snapshot: the slots are different stack slots in mapped memory, and the literals are ones that the
  fragment can restore.
\<close>

definition exit_ok :: "kctx \<Rightarrow> assembler \<Rightarrow> nat \<Rightarrow> world \<Rightarrow> bool" where
  "exit_ok K a j w \<longleftrightarrow>
     distinct (map (sd_slotId (ib_snapmap (a_buf a))) (snap_entries a j)) \<and>
     (\<forall>i \<in> set (snap_entries a j). \<exists>m x. sd_slotId (ib_snapmap (a_buf a)) i = Inr m \<and>
        sd_slotRef (ib_snapmap (a_buf a)) i = Inr x \<and> word_at (kc_base K) m \<in> dom (w_mem w) \<and>
        (x < REF_BIAS \<longrightarrow> exit_lit a x))"

lemma snapshot_restored:
  assumes st: "same_trace a f" and F: "saved_tables f F" and lits: "lits_ok v K (a_buf a)"
    and r: "restores v K a f j s" and slots: "slots_ok n f" and ex: "exit_ok K a j w"
    and live: "\<And>i x. i \<in> set (snap_entries a j) \<Longrightarrow> sd_slotRef (ib_snapmap (a_buf a)) i = Inr x \<Longrightarrow>
      REF_BIAS \<le> x \<Longrightarrow> ra_live n a x"
  shows "\<exists>w'. restore_loop F (asmExit_state s) (kc_base K) (snap_entries a j) w = Inr w' \<and>
    (\<forall>i \<in> set (snap_entries a j). \<forall>m x. sd_slotId (ib_snapmap (a_buf a)) i = Inr m \<and>
       sd_slotRef (ib_snapmap (a_buf a)) i = Inr x \<longrightarrow> rd w' (word_at (kc_base K) m) = Inr (v x))"
proof -
  let ?E = "snap_entries a j"
  define sd where "sd = ib_snapmap (a_buf a)"
  define sl where "sl i = (case sd_slotId sd i of Inr m \<Rightarrow> m | Inl _ \<Rightarrow> 0)" for i
  define rf where "rf i = (case sd_slotRef sd i of Inr x \<Rightarrow> x | Inl _ \<Rightarrow> 0)" for i
  have d: "sd_data (fr_snapmap F) = sd_data sd"
    using F same_traceD(5) [OF st] by (simp add: saved_tables_def sd_def)
  have q: "sd_slotId (fr_snapmap F) i = sd_slotId sd i" "sd_slotRef (fr_snapmap F) i = sd_slotRef sd i" for i
    using d by (simp_all add: sd_slotId_def sd_slotRef_def sd_at_def)
  have e: "sd_slotId sd i = Inr (sl i)" "sd_slotRef sd i = Inr (rf i)" "word_at (kc_base K) (sl i) \<in> dom (w_mem w)"
      "rf i < REF_BIAS \<Longrightarrow> exit_lit a (rf i)" if "i \<in> set ?E" for i
    using ex that unfolding exit_ok_def sd_def [symmetric] by (auto simp: sl_def rf_def)
  have "distinct (map (sd_slotId sd) ?E)" using ex by (simp add: exit_ok_def sd_def)
  then have "distinct (map sl ?E)" using e(1) by (auto simp: distinct_map inj_on_def)
  then have ds: "distinct (map (\<lambda>i. word_at (kc_base K) (sl i)) ?E)"
    by (rule slots_distinct) (use e(1) sd_slotId_bound in blast)
  have "restore_value F (asmExit_state s) (kc_base K) (rf i) = Inr (v (rf i))" if i: "i \<in> set ?E" for i
  proof (rule exit_value [OF st F lits r i _ slots])
    show "sd_slotRef (ib_snapmap (a_buf a)) i = Inr (rf i)" using e(2) [OF i] by (simp add: sd_def)
    show "if rf i < REF_BIAS then exit_lit a (rf i) else ra_live n a (rf i)"
      using e(2,4) [OF i] live [OF i] by (auto simp: sd_def not_less)
  qed
  from restore_loop_writes [of ?E F sl rf "asmExit_state s" "kc_base K" "\<lambda>i. v (rf i)" w] this e ds
  obtain w' where "restore_loop F (asmExit_state s) (kc_base K) ?E w = Inr w'"
      "\<forall>i \<in> set ?E. rd w' (word_at (kc_base K) (sl i)) = Inr (v (rf i))"
    unfolding q by blast
  then show ?thesis using e(1,2) unfolding sd_def [symmetric] by fastforce
qed

text \<open>
  \<^bold>\<open>C2.\<close> From a failing guard back to the interpreter.  Run the machine code of a compiled root trace in any state with
  the frame of \<open>K\<close>, with a guard that fails.  The code leaves for the stub of the first such guard, and
  there \<^verbatim>\<open>restoreSnapshot\<close>, working on the registers and spill slots that \<^verbatim>\<open>asmExit\<close> has saved and on the tables saved with
  the fragment, succeeds: every stack slot of the guard's snapshot gets the value that the trace computed for it, whether
  that value is a literal, in a register or spilled, and the thread continues with the base
  pointer and at the instruction of the snapshot.
\<close>

theorem failing_guard_restores_frame:
  assumes tr: "trace_ok v K n a" and ok: "ra_ok n a" and ov: "only_values a n a" and root: "a_stopins a = REF_FIRST"
    and f: "compile_body n a = Inr ((), f)" and F: "saved_tables f F" and s: "ctx_ok K s"
    and g: "first_fail v a [REF_FIRST..<n] = Some g" and ex: "exit_ok K a (snapno_of n a g) (r_w r)"
  shows "\<exists>t s' r' sn. exitstubAddr (snapno_of n a g) a = Inr t \<and>
    xrun (a_mcend a) (a_mc f) s = Some (Left_for t s') \<and> fr_snap (snapno_of n a g) F = Inr sn \<and>
    exit_frame F sn (ir_o (fr_buffer F (unat (sn_ref sn)))) (asmExit_state s') r =
      Inr (word_at (kc_base K) (sint (sn_relbase sn)), r') \<and>
    th_base (i_T (r_i r')) = word_at (kc_base K) (sint (sn_relbase sn)) \<and> th_pc (i_T (r_i r')) = sn_pc sn \<and>
    (\<forall>i \<in> set (snap_entries a (snapno_of n a g)). \<forall>m x. sd_slotId (ib_snapmap (a_buf a)) i = Inr m \<and>
       sd_slotRef (ib_snapmap (a_buf a)) i = Inr x \<longrightarrow> rd (r_w r') (word_at (kc_base K) m) = Inr (v x))"
proof -
  define j where "j = snapno_of n a g"
  from compile_body_outcome [OF tr ok ov root] f have gr: "grows a f"
      and out: "outcome v K n a f REF_FIRST (xrun (a_mcend a) (a_mc f) s)" using s by auto
  have st: "same_trace a f" using gr by (simp add: grows_def)
  have slots: "slots_ok n f"
    using gr ra_okD(5) [OF ok] slots_okD(1) [OF ra_okD(5) [OF ok]] unfolding grows_def by blast
  from out g obtain t s' where x: "exitstubAddr j a = Inr t" "xrun (a_mcend a) (a_mc f) s = Some (Left_for t s')"
      and re: "restores v K a f j s'" by (auto simp: outcome_def j_def)
  have gin: "REF_FIRST \<le> g" "g < n" "ir_isGuard (a_ir a g)"
    using g by (auto simp: first_fail_def find_Some_iff)
  then have go: "guard_ok v n a g" using tr root by (simp add: trace_ok_def)
  have jl: "j < length (ib_snaps (a_buf a))" and ref: "unat (sn_ref (ib_snaps (a_buf a) ! j)) = g"
      and op: "ir_o (a_ir a g) \<in> set compare_ops"
    using go by (simp_all add: guard_ok_def Let_def j_def)
  define sn where "sn = ib_snaps (a_buf f) ! j"
  have snF: "fr_snap j F = Inr sn"
    using F jl same_traceD(6) [OF st] by (simp add: fr_snap_def saved_tables_def sn_def lc_assert_def)
  have ent: "[sn_begin sn..<sn_end sn] = snap_entries a j" and sref: "unat (sn_ref sn) = g"
    using same_trace_snap [OF st jl] ref by (simp_all add: snap_entries_def sn_def)
  have opF: "ir_o (fr_buffer F g) \<noteq> kSAVE"
  proof -
    have "ir_o (fr_buffer F g) = ir_o (a_ir a g)"
      using F same_traceD(7) [OF st, of g] by (simp add: saved_tables_def a_ir_def)
    then show ?thesis using op by (auto simp: compare_ops_def)
  qed
  have "lits_ok v K (a_buf a)" using tr by (simp add: trace_ok_def)
  moreover have "ra_live n a y" if "i \<in> set (snap_entries a j)" "sd_slotRef (ib_snapmap (a_buf a)) i = Inr y" "REF_BIAS \<le> y" for i y
    using go that gin(2) unfolding guard_ok_def Let_def j_def by (fastforce simp: ra_live_def)
  ultimately obtain w' where
    w': "restore_loop F (asmExit_state s') (kc_base K) (snap_entries a j) (r_w r) = Inr w'"
      "\<forall>i \<in> set (snap_entries a j). \<forall>m x. sd_slotId (ib_snapmap (a_buf a)) i = Inr m \<and>
         sd_slotRef (ib_snapmap (a_buf a)) i = Inr x \<longrightarrow> rd w' (word_at (kc_base K) m) = Inr (v x)"
    using snapshot_restored [OF st F _ re slots ex [folded j_def]] by blast
  have base: "ex_gpr (asmExit_state s') RID_BASE = kc_base K"
    using re by (simp add: restores_def ctx_ok_def asmExit_state_def Let_def)
  have "word_at (kc_base K) 0 = kc_base K" by (simp add: word_at_def)
  then obtain r' where "exit_frame F sn (ir_o (fr_buffer F (unat (sn_ref sn)))) (asmExit_state s') r =
      Inr (word_at (kc_base K) (sint (sn_relbase sn)), r')"
      "th_base (i_T (r_i r')) = word_at (kc_base K) (sint (sn_relbase sn))" "th_pc (i_T (r_i r')) = sn_pc sn" "r_w r' = w'"
    using w'(1) opF by (auto simp: exit_frame_def base ent sref Let_def set_w_def)
  with x snF w'(2) show ?thesis unfolding j_def by blast
qed

section \<open>A side exit\<close>

definition demo_start :: xstate where
  "demo_start = \<lparr>x_reg = (\<lambda>_. 0)(RID_ESP := 0x7fff0000, RID_BASE := 0x20000000, RID_HP := 0x30000000),
     x_mem = (\<lambda>_. 0), x_flags = None\<rparr>"

definition demo_exit_recorder :: recorder where
  "demo_exit_recorder = demo_recorder
     \<lparr>r_i := demo_ist \<lparr>w_mem = [0x20000000 \<mapsto> 0], w_infos = Map.empty, w_code = Map.empty\<rparr> 0x20000000 0x20000020 0x40\<rparr>"

definition demo_fragment :: "assembler \<Rightarrow> fragment" where
  "demo_fragment f =
     \<lparr>fr_traceId = 0, fr_startPc = 0x40, fr_parent = None, fr_targets = [], fr_firstconstant = 0x7fff,
      fr_nextins = 0x8004, fr_buffer = ib_buffer (a_buf f), fr_frameSize = 4, fr_snaps = ib_snaps (a_buf f),
      fr_snapmap = ib_snapmap (a_buf f), fr_heap = ah_init, fr_mcode = a_mcp f\<rparr>"

lemma demo_start_ctx: "ctx_ok demo_kctx demo_start"
  by (simp add: ctx_ok_def demo_start_def demo_kctx_def rid_defs)

lemma demo_entries: "snap_entries demo_trace 0 = [0]" "sd_slotId (ib_snapmap (a_buf demo_trace)) 0 = Inr 0"
    "sd_slotRef (ib_snapmap (a_buf demo_trace)) 0 = Inr 0x8002"
  by (simp_all add: snap_entries_def demo_fields demo_exit_snap_def sn_begin_def sn_end_def sd_slotId_def sd_slotRef_def sd_at_def)

lemma demo_exit_ok: "exit_ok demo_kctx demo_trace 0 (r_w demo_exit_recorder)"
  by (simp add: exit_ok_def demo_entries demo_exit_recorder_def demo_kctx_def word_at_def REF_BIAS_def)

theorem failing_guard_restores_frame_witness:
  "\<exists>f s' sn r'. compile_body 0x8004 demo_trace = Inr ((), f) \<and> ctx_ok demo_kctx demo_start \<and>
     xrun 0x10400000 (a_mc f) demo_start = Some (Left_for 0x10000000 s') \<and>
     exit_frame (demo_fragment f) sn (ir_o (fr_buffer (demo_fragment f) (unat (sn_ref sn)))) (asmExit_state s') demo_exit_recorder
       = Inr (word_at 0x20000000 (sint (sn_relbase sn)), r') \<and>
     rd (r_w r') 0x20000000 = Inr 5"
proof -
  obtain f where f: "compile_body 0x8004 demo_trace = Inr ((), f)" using demo_compiled by blast
  have F: "saved_tables f (demo_fragment f)" by (simp add: saved_tables_def demo_fragment_def)
  have stop: "a_stopins demo_trace = REF_FIRST" by (simp add: demo_fields REF_FIRST_def REF_BIAS_def)
  have j: "snapno_of 0x8004 demo_trace 0x8003 = 0" by (simp add: snapno_of_def demo_fields)
  have b: "kc_base demo_kctx = 0x20000000" "a_mcend demo_trace = 0x10400000" "demo_values 0x8002 = 5"
    by (simp_all add: demo_kctx_def demo_trace_def demo_asm_def demo_values_def)
  have e: "exit_ok demo_kctx demo_trace (snapno_of 0x8004 demo_trace 0x8003) (r_w demo_exit_recorder)"
    unfolding j by (rule demo_exit_ok)
  from failing_guard_restores_frame [OF demo_trace_ok demo_ra_ok demo_only_values stop f F demo_start_ctx demo_first_fail e]
  show ?thesis
    unfolding j demo_exit_stub b demo_entries using f demo_start_ctx demo_entries b by (auto simp: word_at_def)
qed

end
