(* ===== verification/Spec2Isabelle.thy ===== *)
theory Spec2Isabelle
  imports Bytecode CallStack Fold Execution Exits
begin

text \<open>
  \<^bold>\<open>The Lambdachine virtual machine\<close>

  Lambdachine runs bytecode compiled from Haskell.  The virtual machine (\<^verbatim>\<open>src/vm\<close>, C++) has an
  interpreter over a garbage-collected heap and a tracing just-in-time compiler.  A
  \<^verbatim>\<open>Capability\<close> runs a \<^verbatim>\<open>Thread\<close> on bytecode instructions.  Backward branches tick hot counters; a
  hot target switches the interpreter to record mode, in which \<^verbatim>\<open>Jit::recordIns\<close> sees every
  instruction before it is executed and appends instructions of a static single assignment form
  (IR) to an \<^verbatim>\<open>IRBuffer\<close>, through a fold engine and with snapshots of an abstract stack.  When
  the recording comes back to its start or to another trace, the \<^verbatim>\<open>Assembler\<close> translates the buffer
  backwards into x86-64 code while it allocates registers, and the first instruction of the function
  becomes a \<^verbatim>\<open>JFUNC\<close>.  A guard of the code that fails jumps to an exit stub; \<^verbatim>\<open>asmExit\<close> saves
  the registers and \<^verbatim>\<open>Fragment::restoreSnapshot\<close> rebuilds the interpreter's frame from the guard's
  snapshot.  A hot exit starts a side trace, which inherits its parent's values.

  \<^bold>\<open>How the program is modelled\<close>

  Machine integers are words of their width (\<open>u1\<close>, \<open>u2\<close>, \<open>u4\<close>, \<open>u8\<close>); a C++ object is a record, and an
  operation takes and returns it.  An operation that may end the process returns \<open>result\<close>: \<open>AssertFailed\<close>
  for \<^verbatim>\<open>LC_ASSERT\<close>, \<open>Exit\<close> for \<^verbatim>\<open>exit\<close>, \<open>Throw\<close> for an exception, \<open>BadAccess\<close> for a read or
  write outside mapped memory or an array, \<open>Diverge\<close> for a loop that uses up its fuel.  Memory is explicit
  (\<open>world\<close>: words and code by address), so that aliasing of closures, stack frames and
  forwarding pointers is what it is in the program.

  Where C++ leaves a result undefined the model has a definite one: a shift of a 32 bit pointer mask by 32 or more in
  the application of partial applications gives 0.  When a guard that always fails ends a recording by an
  exception, the recorder is given back as it was before the instruction; its buffer is reset before it is used
  again.  The interpreter's branches are those of the configuration without \<^verbatim>\<open>LC_JIT\<close>; entering a trace and
  starting a recording are in theory \<open>Exits\<close>.

  \<^item> \<open>Prelude\<close>, \<open>Utils\<close>: the result type and its rules; \<^verbatim>\<open>common.hh\<close>, \<^verbatim>\<open>utils.hh\<close>.
  \<^item> \<open>Bytecode\<close>: instruction words, opcode table and decoder of \<^verbatim>\<open>bytecode.hh\<close> and \<^verbatim>\<open>bytecode.cc\<close>.
  \<^item> \<open>HotCounters\<close>, \<open>CallStack\<close>: \<^verbatim>\<open>HotCounters\<close> and \<^verbatim>\<open>Prng\<close> of \<^verbatim>\<open>jit.hh\<close>, \<^verbatim>\<open>CallStack\<close> and
    \<^verbatim>\<open>BranchTargetBuffer\<close> of \<^verbatim>\<open>ir.hh\<close>.  The buffer of parent links refines a tree of call chains
    (locale \<open>call_stack_view\<close>, interpretation \<open>cs\<close>), and the false loop filter finds the first
    candidate that is a true loop.
  \<^item> \<open>AbstractStack\<close>, \<open>IR\<close>, \<open>IRBuffer\<close>, \<open>Fold\<close>: \<^verbatim>\<open>ir.hh\<close>, \<^verbatim>\<open>ir-inl.hh\<close>, \<^verbatim>\<open>ir.cc\<close>, \<^verbatim>\<open>ir_fold.cc\<close>.  Snapshots
    record the written slots and are looked up by binary search (which never returns a wrong reference, but
    may miss a slot when there are entries below the base); literals and fields read back;
    common subexpressions are the same instruction; every fold rule keeps the value of the instruction.
  \<^item> \<open>Objects\<close>, \<open>MemoryManager\<close>, \<open>GC\<close>, \<open>MiscClosures\<close>: \<^verbatim>\<open>objects.hh\<close>, \<^verbatim>\<open>memorymanager.hh\<close>,
    \<^verbatim>\<open>memorymanager.cc\<close>, \<^verbatim>\<open>miscclosures.cc\<close>.  Bump allocation is a locale (\<open>bump_allocator\<close>) that
    blocks and the interpreter's heap pointers interpret: successive allocations are disjoint and in
    bounds.  Evacuation copies an object once and leaves a forwarding pointer; frames are scanned by
    their bitmaps; the sanity checker terminates and is sound.
  \<^item> \<open>Interp\<close>, \<open>Execution\<close>: \<^verbatim>\<open>capability.cc\<close>, \<^verbatim>\<open>thread.cc\<close>.  \<open>step\<close> is one round of the interpreter loop;
    evaluation with update frames, exact, partial and over-application, case tables, arithmetic,
    byte arrays and trace heads have their functional behaviour.
  \<^item> \<open>Recorder\<close>: \<^verbatim>\<open>jit.hh\<close>, \<^verbatim>\<open>jit.cc\<close>.  \<open>recordIns\<close> with one definition per instruction, application of
    functions, thunks and partial applications, loop detection, side traces (\<open>replaySnapshot\<close>), the
    table of traces, and the step of the interpreter in record mode.  A recording that ends leaves the
    recorder idle, and one that goes on does not disturb the interpreter.
  \<^item> \<open>X86\<close>: a decoder and a machine for the instructions the assembler emits, written from the processor's
    manual; it is the specification the emitted bytes are held against.
  \<^item> \<open>Encoding\<close>, \<open>MachineCode\<close>, \<open>RegAlloc\<close>, \<open>ParallelMove\<close>, \<open>Assembler\<close>: \<^verbatim>\<open>assembler.hh\<close>,
    \<^verbatim>\<open>assembler.cc\<close>, \<^verbatim>\<open>machinecode.cc\<close>, group by group in the order of the source.
  \<^item> \<open>AllocCorrect\<close>, \<open>CodeGen\<close>, \<open>Guards\<close>, \<open>TraceCode\<close>: correctness of the compiler.  The invariant \<open>ra_ok\<close> of the
    register allocator is kept by all its operations; \<open>agree\<close> relates its tables to a machine state;
    \<open>computes\<close> and \<open>ins_ok\<close> say what the code of one instruction does.  \<open>TraceCode\<close> puts them together:
    the code of a root trace, run on the machine, computes the value of every instruction until the
    first guard that fails, and leaves through the stub of that guard with every value of its snapshot
    in the register or spill slot where the final tables put it.
  \<^item> \<open>Exits\<close>: \<^verbatim>\<open>amd64/fragment.cc\<close> and the end of \<^verbatim>\<open>jit.cc\<close>.  The state \<^verbatim>\<open>asmExit\<close> saves, \<open>restoreSnapshot\<close>,
    hot exits, the quick heap check.  The theorems join recorder, compiler and interpreter: the guard of
    a branch holds exactly when the interpreter would go the same way, and after a failing guard the
    frame in memory holds the values of the snapshot.

  \<^bold>\<open>Fuel and bounds\<close>

  Where a loop follows links in memory that nothing bounds in the source, the model has fuel and the value
  \<open>Diverge\<close> for its end.  \<open>ind_fuel\<close> and \<open>alloc_fuel\<close> (\<open>2^64\<close>) exceed the number of addresses, so a chain
  that uses them up has a cycle; \<open>chain_fuel\<close> (65537) exceeds the number of 16 bit references of a buffer,
  and is proved enough for well-formed buffers; \<open>hint_fuel\<close> (\<open>2^32\<close>) is the period of the random number generator;
  the walk over the ancestors of a trace has one step more than there are traces.  A parallel
  assignment of \<open>n\<close> moves recurses to depth \<open>n + 1\<close> at most, which its theorem shows to be enough.
  The fold engine has the source's own limit on retries.  The call stack's loops
  are partial functions into \<open>option\<close>, defined on acyclic buffers.

  \<^bold>\<open>Parameters\<close>

  The operating system's \<^verbatim>\<open>mmap\<close> for the heap (\<open>os\<close>) and for code, the addresses of the routines written
  in assembly, and \<^verbatim>\<open>asmEnter\<close>, which runs compiled code (a function on the interpreter's state in
  the record \<open>env\<close>).

  \<^bold>\<open>Scope of the compiler theorem\<close>

  \<open>compiled_root_trace\<close> is about root traces without loop-carried values whose instructions are integer
  arithmetic, negation and complement, shifts by a literal, loads from the stack and from fields, and
  comparisons with a 32 bit literal as guards.  The other instructions (division, allocation and
  heap checks, updates, comparison of two registers, variable shifts) are modelled in \<open>Assembler\<close> and have
  no theorem there; comparison of two registers and variable shifts have faults in the source when
  registers run out.  The end of a trace (\<^verbatim>\<open>SAVE\<close>, the jump to the next trace) is the code that \<open>a_mc a\<close>
  holds before the loop starts.

  \<^bold>\<open>Not modelled\<close>

  The bytecode loader (\<^verbatim>\<open>loader.cc\<close>, \<^verbatim>\<open>fileutils.cc\<close>): parsing of files into the memory that the model
  starts from.  Command line, clocks, statistics, and all printing and debug modes: they change no state of
  the machine.  The routines in assembly \<^verbatim>\<open>asmTrace\<close>, \<^verbatim>\<open>asmHeapOverflow\<close> and \<^verbatim>\<open>asmStackOverflow\<close>, and
  floating-point registers, which the compiler does not use.  The unit tests, the predecessor of
  the virtual machine (\<^verbatim>\<open>experiments/old-vm\<close>) and the bytecode compiler, which is written in Haskell.
\<close>

end
